(* ===== verification/Prelude.thy ===== *)
theory Prelude
  imports Main "HOL-Library.Word" "HOL-Library.AList" "HOL-Library.Sublist"
begin

text \<open>
  Shared vocabulary of the development: bytes and their JavaScript reading, the text
  operations the code uses, the insertion-ordered \<open>Map\<close> of the language as an
  association list, and the generic lemmas on lists, words and association lists that the
  component theories use. A \<open>Uint8Array\<close> is a \<^typ>\<open>8 word list\<close>. A
  JavaScript string is a \<^typ>\<open>string\<close>; the protocols modelled carry ASCII text, and
  \<open>toUpperCase\<close> and \<open>trimEnd\<close> are written out for ASCII.
\<close>

unbundle bit_operations_syntax

section \<open>Hint collections\<close>

named_theorems seq_arith \<open>arithmetic of sequence numbers modulo the window modulus\<close>
named_theorems codec_simps \<open>what a decoder reads back from what the encoder wrote\<close>
named_theorems inv_intros \<open>preservation of a component's invariant by its operations\<close>

section \<open>Bytes\<close>

type_synonym byte = "8 word"

text \<open>Reading an array out of range gives \<open>undefined\<close>, which every bitwise operator takes as 0.\<close>

definition js_byte :: "byte list \<Rightarrow> nat \<Rightarrow> byte" where
  "js_byte b i = (if i < length b then b ! i else 0)"

text \<open>\<open>subarray(from, to)\<close> and \<open>slice(from, to)\<close> with non-negative bounds.\<close>

definition sub_bytes :: "nat \<Rightarrow> nat \<Rightarrow> 'a list \<Rightarrow> 'a list" where
  "sub_bytes from to xs = take (to - from) (drop from xs)"

lemma js_byte_in [simp]: "i < length b \<Longrightarrow> js_byte b i = b ! i"
  by (simp add: js_byte_def)

lemma js_byte_append [simp]:
  "js_byte (xs @ ys) i = (if i < length xs then xs ! i else js_byte ys (i - length xs))"
  by (auto simp: js_byte_def nth_append)

lemma js_byte_Cons [simp]:
  "js_byte (x # xs) 0 = x"
  "js_byte (x # xs) (Suc i) = js_byte xs i"
  by (simp_all add: js_byte_def)

lemma js_byte_drop: "js_byte (drop k b) i = js_byte b (k + i)"
  by (auto simp: js_byte_def)

lemma length_sub_bytes [simp]: "length (sub_bytes from to xs) = min (to - from) (length xs - from)"
  by (simp add: sub_bytes_def)

lemma sub_bytes_append_right [simp]:
  "sub_bytes (length xs) (length xs + length ys) (xs @ ys @ zs) = ys"
  by (simp add: sub_bytes_def)

text \<open>Two bytes read as a 16-bit value, low or high byte first, and back.\<close>

definition byte_of :: "nat \<Rightarrow> byte" where
  "byte_of n = of_nat n"

lemma unat_byte_of [simp]: "unat (byte_of n) = n mod 256"
  by (simp add: byte_of_def unat_of_nat)

lemma unat_byte_lt [simp]: "unat (b :: byte) < 256"
  by (rule order_less_le_trans [OF unsigned_less]) simp

lemma byte_of_unat [simp]: "byte_of (unat b) = b"
  by (simp add: byte_of_def)

lemma byte_of_mod [simp]: "byte_of (n mod 256) = byte_of n"
  by (simp add: word_unat_eq_iff)

lemma byte_of_inj: "n < 256 \<Longrightarrow> m < 256 \<Longrightarrow> byte_of n = byte_of m \<longleftrightarrow> n = m"
  by (metis mod_less unat_byte_of)

text \<open>A field of a byte: shift, then mask; and one bit.\<close>

lemma byte_take [simp]: "take_bit 8 (unat (b :: byte)) = unat b"
  by (simp add: take_bit_eq_mod)

lemma byte_field: "unat (drop_bit k b AND mask j) = unat (b :: byte) div 2 ^ k mod 2 ^ j"
proof -
  have "unat (drop_bit k b AND mask j) = take_bit j (drop_bit k (unat b))"
    by (simp only: take_bit_eq_mask [symmetric] unsigned_take_bit_eq unsigned_drop_bit_eq) simp
  then show ?thesis by (simp add: take_bit_eq_mod drop_bit_eq_div)
qed

lemma unat_drop_byte: "unat (drop_bit k (b :: byte)) = unat b div 2 ^ k"
  by (subst unsigned_drop_bit_eq) (simp add: drop_bit_eq_div)

lemma unat_push_byte: "unat (push_bit k (b :: byte)) = unat b * 2 ^ k mod 256"
  by (subst unsigned_push_bit_eq) (simp add: take_bit_eq_mod push_bit_eq_mult)

lemma unat_and_mask: "unat (b AND mask k) = unat (b :: byte) mod 2 ^ k"
  using byte_field [of 0 b k] by simp

lemma byte_bit: "(b AND push_bit k 1 \<noteq> 0) \<longleftrightarrow> odd (unat (b :: byte) div 2 ^ k)"
proof -
  have "(b AND push_bit k 1 \<noteq> 0) \<longleftrightarrow> bit b k"
    using bit_iff_and_push_bit_not_eq_0 [of b k] by simp
  also have "\<dots> \<longleftrightarrow> bit (unat b) k"
    by (auto simp: bit_unsigned_iff dest: bit_imp_le_length)
  finally show ?thesis by (simp add: bit_iff_odd)
qed

lemma unat_or_disjoint:
  assumes "a AND b = 0"
  shows "unat (a OR b) = unat a + unat (b :: byte)"
proof -
  have "unat a AND unat b = 0"
    using assms by (metis unsigned_and_eq unsigned_0)
  then have "unat a + unat b = unat a OR unat b"
    by (rule disjunctive_add_eq_or [symmetric, THEN sym])
  then show ?thesis by (simp add: unsigned_or_eq)
qed

lemma shift_or_bit: "unat (push_bit 1 b OR (if c then 1 else 0)) = (2 * unat (b :: byte)) mod 256 + of_bool c"
proof -
  have "push_bit 1 b AND 1 = 0"
    by (simp only: and_one_eq mod_2_eq_odd even_push_bit_iff) simp
  then have "unat (push_bit 1 b OR (if c then 1 else 0)) = unat (push_bit 1 b) + of_bool c"
    by (cases c) (simp_all add: unat_or_disjoint)
  then show ?thesis
    by (subst (asm) unat_push_byte) (simp only: mult.commute power_one_right)
qed

lemma less8_cases: "(n :: nat) < 8 \<Longrightarrow> n \<in> {0, 1, 2, 3, 4, 5, 6, 7}"
  by auto

lemma less16_cases: "(n :: nat) \<le> 15 \<Longrightarrow> n \<in> {0, 1, 2, 3, 4, 5, 6, 7, 8, 9, 10, 11, 12, 13, 14, 15}"
  by (simp add: eval_nat_numeral le_Suc_eq)

section \<open>Text\<close>

definition char_code :: "char \<Rightarrow> nat" where
  "char_code c = of_char c"

definition from_char_code :: "nat \<Rightarrow> char" where
  "from_char_code n = char_of n"

lemma char_code_lt [simp]: "char_code c < 256"
  by (simp add: char_code_def)

lemma from_char_code_code [simp]: "from_char_code (char_code c) = c"
  by (simp add: char_code_def from_char_code_def)

lemma char_code_from [simp]: "char_code (from_char_code n) = n mod 256"
  by (simp add: char_code_def from_char_code_def)

lemma char_code_inject [simp]: "char_code c = char_code d \<longleftrightarrow> c = d"
  by (metis from_char_code_code)

definition upper_char :: "char \<Rightarrow> char" where
  "upper_char c = (if 97 \<le> char_code c \<and> char_code c \<le> 122 then from_char_code (char_code c - 32) else c)"

definition js_upper :: "string \<Rightarrow> string" where
  "js_upper s = map upper_char s"

definition is_space :: "char \<Rightarrow> bool" where
  "is_space c = (char_code c = 32 \<or> (9 \<le> char_code c \<and> char_code c \<le> 13))"

definition trim_end_where :: "(char \<Rightarrow> bool) \<Rightarrow> string \<Rightarrow> string" where
  "trim_end_where p s = rev (dropWhile p (rev s))"

abbreviation js_trim_end :: "string \<Rightarrow> string" where
  "js_trim_end \<equiv> trim_end_where is_space"

definition js_trim :: "string \<Rightarrow> string" where
  "js_trim s = js_trim_end (dropWhile is_space s)"

definition pad_end :: "nat \<Rightarrow> char \<Rightarrow> string \<Rightarrow> string" where
  "pad_end n c s = s @ replicate (n - length s) c"

text \<open>\<open>s.split(sep)\<close> for a one-character separator: always at least one piece.\<close>

fun split_on :: "char \<Rightarrow> string \<Rightarrow> string list" where
  "split_on c [] = [[]]"
| "split_on c (x # xs) =
     (if x = c then [] # split_on c xs
      else (case split_on c xs of [] \<Rightarrow> [[x]] | y # ys \<Rightarrow> (x # y) # ys))"

text \<open>The decimal text of a number, as string interpolation writes it.\<close>

fun nat_str :: "nat \<Rightarrow> string" where
  "nat_str n = (if n < 10 then [from_char_code (48 + n)]
                else nat_str (n div 10) @ [from_char_code (48 + n mod 10)])"

definition is_digit :: "char \<Rightarrow> bool" where
  "is_digit c = (48 \<le> char_code c \<and> char_code c \<le> 57)"

definition digits_value :: "string \<Rightarrow> nat" where
  "digits_value s = foldl (\<lambda>n c. 10 * n + (char_code c - 48)) 0 s"

lemma upper_char_idem [simp]: "upper_char (upper_char c) = upper_char c"
  by (auto simp: upper_char_def)

lemma js_upper_idem [simp]: "js_upper (js_upper s) = js_upper s"
  by (simp add: js_upper_def)

lemma length_js_upper [simp]: "length (js_upper s) = length s"
  by (simp add: js_upper_def)

lemma js_upper_append [simp]: "js_upper (s @ t) = js_upper s @ js_upper t"
  by (simp add: js_upper_def)

lemma js_upper_Nil [simp]: "js_upper [] = []"
  by (simp add: js_upper_def)

lemma js_upper_Cons [simp]: "js_upper (c # s) = upper_char c # js_upper s"
  by (simp add: js_upper_def)

lemma js_upper_take: "js_upper (take n s) = take n (js_upper s)"
  by (simp add: js_upper_def take_map)

lemma length_pad_end [simp]: "length (pad_end n c s) = max n (length s)"
  by (auto simp: pad_end_def)

lemma trim_end_where_append_drop:
  "\<forall>c\<in>set t. p c \<Longrightarrow> trim_end_where p (s @ t) = trim_end_where p s"
  by (simp add: trim_end_where_def) (subst dropWhile_append2, auto)

lemma trim_end_where_id: "s = [] \<or> \<not> p (last s) \<Longrightarrow> trim_end_where p s = s"
  by (cases s rule: rev_cases) (auto simp: trim_end_where_def)

lemma trim_end_where_last:
  "trim_end_where p s \<noteq> [] \<Longrightarrow> \<not> p (last (trim_end_where p s))"
  by (simp add: trim_end_where_def last_rev hd_dropWhile)

lemma set_trim_end_where: "set (trim_end_where p s) \<subseteq> set s"
  using set_dropWhileD [of _ p "rev s"] by (auto simp: trim_end_where_def)

lemma length_trim_end_where: "length (trim_end_where p s) \<le> length s"
  by (simp add: trim_end_where_def) (metis length_dropWhile_le length_rev)

lemma split_on_not_Nil [simp]: "split_on c s \<noteq> []"
  by (induction s) (auto split: list.splits)

lemma split_on_none: "c \<notin> set s \<Longrightarrow> split_on c s = [s]"
  by (induction s) auto

lemma split_on_append: "c \<notin> set s \<Longrightarrow> split_on c (s @ c # t) = s # split_on c t"
  by (induction s) auto

declare nat_str.simps [simp del]

lemma nat_str_digits: "c \<in> set (nat_str n) \<Longrightarrow> is_digit c"
proof (induction n rule: nat_str.induct)
  case (1 n)
  have "n < 10 \<Longrightarrow> (48 + n) mod 256 = 48 + n" "(48 + n mod 10) mod 256 = 48 + n mod 10"
    by (simp_all add: mod_less)
  with 1 show ?case
    by (subst (asm) (2) nat_str.simps) (auto simp: is_digit_def split: if_splits)
qed

lemma digits_value_snoc: "digits_value (s @ [c]) = 10 * digits_value s + (char_code c - 48)"
  by (simp add: digits_value_def)

lemma nat_str_not_Nil [simp]: "nat_str n \<noteq> []"
  by (subst nat_str.simps) simp

lemma digits_value_nat_str [simp]: "digits_value (nat_str n) = n"
proof (induction n rule: nat_str.induct)
  case (1 n)
  have m: "(48 + n mod 10) mod 256 = 48 + n mod 10" by simp
  show ?case
  proof (cases "n < 10")
    case True
    then show ?thesis by (simp add: nat_str.simps [of n] digits_value_def)
  next
    case False
    with 1 have "digits_value (nat_str (n div 10)) = n div 10" by simp
    with False m show ?thesis by (simp add: nat_str.simps [of n] digits_value_snoc)
  qed
qed

section \<open>Insertion-ordered maps\<close>

text \<open>
  A JavaScript \<open>Map\<close> keeps its entries in insertion order; setting a key that is already
  there keeps its place. This is exactly \<^const>\<open>AList.update\<close> on an association list with
  distinct keys; iteration goes over the list, \<open>size\<close> is its length.
\<close>

type_synonym ('k, 'v) jsmap = "('k \<times> 'v) list"

abbreviation jm_get :: "('k, 'v) jsmap \<Rightarrow> 'k \<Rightarrow> 'v option" where
  "jm_get m k \<equiv> map_of m k"

abbreviation jm_set :: "'k \<Rightarrow> 'v \<Rightarrow> ('k, 'v) jsmap \<Rightarrow> ('k, 'v) jsmap" where
  "jm_set \<equiv> AList.update"

abbreviation jm_delete :: "'k \<Rightarrow> ('k, 'v) jsmap \<Rightarrow> ('k, 'v) jsmap" where
  "jm_delete \<equiv> AList.delete"

abbreviation jm_keys :: "('k, 'v) jsmap \<Rightarrow> 'k list" where
  "jm_keys m \<equiv> map fst m"

abbreviation jm_values :: "('k, 'v) jsmap \<Rightarrow> 'v list" where
  "jm_values m \<equiv> map snd m"

definition jm_ok :: "('k, 'v) jsmap \<Rightarrow> bool" where
  "jm_ok m = distinct (jm_keys m)"

lemma jm_ok_Nil [simp]: "jm_ok []"
  by (simp add: jm_ok_def)

lemma jm_ok_set [simp, inv_intros]: "jm_ok m \<Longrightarrow> jm_ok (jm_set k v m)"
  by (simp add: jm_ok_def distinct_update)

lemma jm_ok_delete [simp, inv_intros]: "jm_ok m \<Longrightarrow> jm_ok (jm_delete k m)"
  by (simp add: jm_ok_def distinct_delete)

lemma jm_ok_filter [simp, inv_intros]: "jm_ok m \<Longrightarrow> jm_ok (filter p m)"
  by (auto simp: jm_ok_def distinct_map_filter)

lemma jm_ok_map [simp, inv_intros]: "jm_ok m \<Longrightarrow> jm_ok (map (\<lambda>(k, v). (k, f k v)) m)"
proof -
  have keys: "map fst (map (\<lambda>(k, v). (k, f k v)) m) = map fst m" by (induction m) auto
  assume "jm_ok m"
  then show ?thesis unfolding jm_ok_def keys .
qed

lemma jm_get_set [simp]: "jm_get (jm_set k v m) k' = (if k' = k then Some v else jm_get m k')"
  by (simp add: update_conv')

lemma jm_get_delete [simp]: "jm_get (jm_delete k m) k' = (if k' = k then None else jm_get m k')"
  by (simp add: delete_conv')

lemma length_jm_set:
  "length (jm_set k v m) = (if k \<in> set (jm_keys m) then length m else Suc (length m))"
  by (induction m) auto

lemma jm_keys_set [simp]: "fst ` set (jm_set k v m) = insert k (fst ` set m)"
  by (induction m) auto

lemma jm_keys_delete [simp]: "fst ` set (jm_delete k m) = fst ` set m - {k}"
  by (induction m) auto

lemma jm_get_None_iff: "jm_get m k = None \<longleftrightarrow> k \<notin> fst ` set m"
  by (rule map_of_eq_None_iff)

lemma jm_get_filter:
  "jm_ok m \<Longrightarrow> jm_get (filter p m) k = (case jm_get m k of None \<Rightarrow> None | Some v \<Rightarrow> if p (k, v) then Some v else None)"
proof (induction m)
  case (Cons a m)
  then have m: "jm_ok m" "fst a \<notin> fst ` set m" by (simp_all add: jm_ok_def)
  have "fst a \<notin> fst ` set (filter p m)" using m(2) by auto
  then have "jm_get (filter p m) (fst a) = None" by (simp only: jm_get_None_iff not_False_eq_True)
  then show ?case using Cons.IH [OF m(1)] by (cases a) auto
qed simp

lemma length_jm_delete_le: "length (jm_delete k m) \<le> length m"
  by (simp add: AList.delete_eq)

lemma length_jm_delete:
  "jm_ok m \<Longrightarrow> k \<in> set (jm_keys m) \<Longrightarrow> Suc (length (jm_delete k m)) = length m"
proof (induction m)
  case (Cons a m)
  obtain x y where a: "a = (x, y)" by (cases a)
  show ?case
  proof (cases "x = k")
    case True
    with Cons.prems a have "k \<notin> set (jm_keys m)" by (simp add: jm_ok_def)
    then have "jm_delete k m = m" by (intro delete_id) simp
    with True a show ?thesis by simp
  next
    case False
    with Cons a show ?thesis by (auto simp: jm_ok_def)
  qed
qed simp

lemma jm_get_Some_in: "jm_get m k = Some v \<Longrightarrow> (k, v) \<in> set m"
  by (rule map_of_SomeD)

lemma jm_get_in: "jm_ok m \<Longrightarrow> (k, v) \<in> set m \<Longrightarrow> jm_get m k = Some v"
  by (simp add: jm_ok_def)

lemma set_jm_set: "set (jm_set k v m) \<subseteq> insert (k, v) (set m)"
  by (induction m) auto

lemma set_jm_set_cases: "x \<in> set (jm_set k v m) \<Longrightarrow> x = (k, v) \<or> x \<in> set m"
  using set_jm_set by fast

lemma set_jm_delete_subset: "set (jm_delete k m) \<subseteq> set m"
  by (auto simp: AList.delete_eq)

lemma jm_ok_set_distinct_value:
  "jm_ok m \<Longrightarrow> (a, b) \<in> set (jm_set k v m) \<Longrightarrow> a = k \<Longrightarrow> b = v"
  by (metis jm_get_in jm_get_set jm_ok_set option.inject)

section \<open>Lists\<close>

lemma concat_take_drop_step:
  "0 < n \<Longrightarrow> xs \<noteq> [] \<Longrightarrow> take n xs @ drop n xs = xs"
  by simp

lemma set_zip_replicate: "(x, y) \<in> set (zip xs (replicate n v)) \<Longrightarrow> y = v"
  by (metis in_set_replicate set_zip_rightD)

lemma filter_all_id: "(\<And>x. x \<in> set xs \<Longrightarrow> p x) \<Longrightarrow> filter p xs = xs"
  by (simp add: filter_id_conv)

lemma list_eq_by_append_take: "xs = ys @ zs \<Longrightarrow> take (length ys) xs = ys \<and> drop (length ys) xs = zs"
  by simp

text \<open>\<open>indexOf\<close>; \<^const>\<open>None\<close> is -1.\<close>

fun index_of :: "'a \<Rightarrow> 'a list \<Rightarrow> nat option" where
  "index_of x [] = None"
| "index_of x (y # ys) = (if x = y then Some 0 else map_option Suc (index_of x ys))"

lemma index_of_Some: "index_of x xs = Some i \<longleftrightarrow> i < length xs \<and> xs ! i = x \<and> (\<forall>j<i. xs ! j \<noteq> x)"
proof (induction xs arbitrary: i)
  case (Cons a xs)
  show ?case
  proof (cases i)
    case (Suc k)
    then show ?thesis using Cons [of k] by (auto simp: nth_Cons' less_Suc_eq_0_disj split: if_splits)
  qed auto
qed simp

lemma index_of_None: "index_of x xs = None \<longleftrightarrow> x \<notin> set xs"
  by (induction xs) auto

text \<open>
  A list cut into pieces of at most \<open>n\<close>: the loop that takes slices of \<open>n\<close> and makes one
  empty piece of an empty list.
\<close>

fun chunks :: "nat \<Rightarrow> 'a list \<Rightarrow> 'a list list" where
  "chunks n xs = (if n = 0 \<or> length xs \<le> n then [xs] else take n xs # chunks n (drop n xs))"

declare chunks.simps [simp del]

lemma chunks_not_Nil [simp]: "chunks n xs \<noteq> []"
  by (simp add: chunks.simps [of n xs])

lemma concat_chunks [simp]: "concat (chunks n xs) = xs"
  by (induction n xs rule: chunks.induct) (subst chunks.simps, simp)

lemma length_in_chunks: "0 < n \<Longrightarrow> c \<in> set (chunks n xs) \<Longrightarrow> length c \<le> n"
proof (induction n xs rule: chunks.induct)
  case (1 n xs)
  then show ?case by (subst (asm) (2) chunks.simps) (auto split: if_splits)
qed

lemma chunks_whole: "n = 0 \<or> length xs \<le> n \<Longrightarrow> chunks n xs = [xs]"
  by (simp add: chunks.simps [of n xs])

section \<open>Words and numerals\<close>

text \<open>\<open>parts.join(sep)\<close>, and \<open>split(/\s+/)\<close>: always at least one piece, the first empty when the text starts with space.\<close>

fun join_with :: "string \<Rightarrow> string list \<Rightarrow> string" where
  "join_with sep [] = []"
| "join_with sep [x] = x"
| "join_with sep (x # y # xs) = x @ sep @ join_with sep (y # xs)"

function split_ws :: "string \<Rightarrow> string list" where
  "split_ws s =
     (let w = takeWhile (\<lambda>c. \<not> is_space c) s; r = dropWhile (\<lambda>c. \<not> is_space c) s
      in if r = [] then [w] else w # split_ws (dropWhile is_space r))"
  by pat_completeness auto
termination
proof (relation "measure length")
  fix s w r :: string
  assume r: "r = dropWhile (\<lambda>c. \<not> is_space c) s" "r \<noteq> []"
  then have "is_space (hd r)" using hd_dropWhile [of "\<lambda>c. \<not> is_space c" s] by simp
  then have "dropWhile is_space r = dropWhile is_space (tl r)" using r(2) by (cases r) auto
  then have "length (dropWhile is_space r) < length r"
    using length_dropWhile_le [of is_space "tl r"] r(2) by (cases r) auto
  also have "length r \<le> length s" using length_dropWhile_le [of "\<lambda>c. \<not> is_space c" s] r(1) by simp
  finally show "(dropWhile is_space r, s) \<in> measure length" by simp
qed simp

declare split_ws.simps [simp del]

text \<open>Text as bytes and back, one byte a character: \<open>TextEncoder\<close> and \<open>TextDecoder\<close> on ASCII.\<close>

definition text_bytes :: "string \<Rightarrow> byte list" where
  "text_bytes s = map (\<lambda>c. byte_of (char_code c)) s"

definition bytes_text :: "byte list \<Rightarrow> string" where
  "bytes_text bs = map (\<lambda>b. from_char_code (unat b)) bs"

lemma length_text_bytes [simp]: "length (text_bytes s) = length s"
  by (simp add: text_bytes_def)

lemma text_bytes_append [simp]: "text_bytes (s @ t) = text_bytes s @ text_bytes t"
  by (simp add: text_bytes_def)

lemma bytes_text_bytes [simp]: "bytes_text (text_bytes s) = s"
  by (simp add: text_bytes_def bytes_text_def comp_def)

text \<open>
  \<open>Number(s)\<close> of a decimal integer, and of the empty text. The other spellings the language
  reads as a number (fractions, exponents, a radix prefix) are outside the model; they count as not a number.
\<close>

definition js_number :: "string \<Rightarrow> int option" where
  "js_number s =
     (let t = js_trim s; (neg, d) = (case t of [] \<Rightarrow> (False, []) | c # cs \<Rightarrow>
         if c = CHR ''-'' then (True, cs) else if c = CHR ''+'' then (False, cs) else (False, t))
      in if t = [] then Some 0
         else if d \<noteq> [] \<and> (\<forall>c\<in>set d. is_digit c) then Some (if neg then - int (digits_value d) else int (digits_value d))
         else None)"

text \<open>\<open>lastIndexOf\<close> of a character; \<^const>\<open>None\<close> is -1.\<close>

definition last_index_of :: "'a \<Rightarrow> 'a list \<Rightarrow> nat option" where
  "last_index_of x xs = (let r = takeWhile (\<lambda>y. y \<noteq> x) (rev xs) in if length r = length xs then None else Some (length xs - 1 - length r))"

lemma space_not_digit: "is_digit c \<Longrightarrow> \<not> is_space c"
  by (auto simp: is_digit_def is_space_def)

lemma js_trim_no_space: "\<forall>c\<in>set s. \<not> is_space c \<Longrightarrow> js_trim s = s"
proof -
  assume s: "\<forall>c\<in>set s. \<not> is_space c"
  then have "dropWhile is_space s = s" by (cases s) auto
  moreover have "js_trim_end s = s" using s by (intro trim_end_where_id) (metis last_in_set)
  ultimately show ?thesis by (simp add: js_trim_def)
qed

lemma js_number_nat_str [simp]: "js_number (nat_str n) = Some (int n)"
proof -
  have d: "\<forall>c\<in>set (nat_str n). is_digit c" using nat_str_digits by blast
  then have t: "js_trim (nat_str n) = nat_str n" using space_not_digit by (intro js_trim_no_space) blast
  obtain c cs where cs: "nat_str n = c # cs" by (cases "nat_str n") auto
  then have "is_digit c" using d by simp
  then have "c \<noteq> CHR ''-''" "c \<noteq> CHR ''+''" by (auto simp: is_digit_def char_code_def)
  then show ?thesis using d digits_value_nat_str [of n] by (simp add: js_number_def t [unfolded cs] cs del: digits_value_nat_str)
qed

lemma split_ws_word: "\<forall>c\<in>set w. \<not> is_space c \<Longrightarrow> split_ws w = [w]"
  by (subst split_ws.simps) (simp add: Let_def)

lemma split_ws_app:
  assumes "\<forall>c\<in>set w. \<not> is_space c" "is_space c" "s = [] \<or> \<not> is_space (hd s)"
  shows "split_ws (w @ c # s) = w # split_ws s"
proof -
  have "takeWhile (\<lambda>c. \<not> is_space c) (w @ c # s) = w" "dropWhile (\<lambda>c. \<not> is_space c) (w @ c # s) = c # s"
    using assms(1,2) by (simp_all add: takeWhile_append dropWhile_append)
  moreover have "dropWhile is_space s = s" using assms(3) by (cases s) auto
  ultimately show ?thesis using assms(2) by (subst split_ws.simps) (simp add: Let_def)
qed

lemma split_ws_join:
  assumes "ws \<noteq> []" "\<forall>w\<in>set ws. w \<noteq> [] \<and> (\<forall>c\<in>set w. \<not> is_space c)"
  shows "split_ws (join_with '' '' ws) = ws"
  using assms
proof (induction "'' ''" ws rule: join_with.induct)
  case (3 x y xs)
  have sp: "is_space (CHR '' '')" by (simp add: is_space_def char_code_def)
  have y: "y \<noteq> []" "\<not> is_space (hd y)" using 3(3) by auto
  then have "\<not> is_space (hd (join_with '' '' (y # xs)))" by (cases xs) auto
  then show ?case using 3 split_ws_app [of x "CHR '' ''" "join_with '' '' (y # xs)"] sp by simp
qed (simp_all add: split_ws_word)

section \<open>Splitting and joining\<close>

lemma index_of_first: "x \<notin> set xs \<Longrightarrow> index_of x (xs @ x # ys) = Some (length xs)"
  by (induction xs) auto

lemma split_on_parts: "l \<in> set (split_on c s) \<Longrightarrow> x \<in> set l \<Longrightarrow> x \<in> set s \<and> x \<noteq> c"
proof (induction s arbitrary: l)
  case (Cons y s)
  obtain z zs where z: "split_on c s = z # zs" by (cases "split_on c s") simp_all
  then have "z \<in> set (split_on c s)" "set zs \<subseteq> set (split_on c s)" by auto
  then show ?case using Cons z by (fastforce split: if_splits)
qed simp

lemma join_split_on: "join_with [c] (split_on c s) = s"
proof (induction s)
  case (Cons x s)
  obtain y ys where y: "split_on c s = y # ys" by (cases "split_on c s") simp_all
  show ?case
  proof (cases "x = c")
    case True
    then show ?thesis using Cons y by simp
  next
    case False
    then show ?thesis using Cons y by (cases ys) simp_all
  qed
qed simp

lemma split_join:
  "ws \<noteq> [] \<Longrightarrow> \<forall>w\<in>set ws. c \<notin> set w \<Longrightarrow> split_on c (join_with [c] ws) = ws"
proof (induction "[c]" ws rule: join_with.induct)
  case (3 x y xs)
  then show ?case using split_on_append [of c x "join_with [c] (y # xs)"] by simp
qed (simp_all add: split_on_none)

lemma join_snoc: "xs \<noteq> [] \<Longrightarrow> join_with sep (xs @ [y]) = join_with sep xs @ sep @ y"
proof (induction xs)
  case (Cons x xs)
  then show ?case by (cases xs) simp_all
qed simp

lemma set_join: "set (join_with sep ws) \<subseteq> set sep \<union> (\<Union>w\<in>set ws. set w)"
  by (induction sep ws rule: join_with.induct) auto

end
