(* ===== verification/Callsign.thy ===== *)
theory Callsign
  imports Prelude
begin

text \<open>Callsign comparison: \<open>packages/aprs/src/callsign.ts\<close>.\<close>

text \<open>\<open>s.replace(/\*$/, "")\<close> drops one star at the end.\<close>

definition drop_star :: "string \<Rightarrow> string" where
  "drop_star s = (if s \<noteq> [] \<and> last s = CHR ''*'' then butlast s else s)"

definition base_call :: "string \<Rightarrow> string" where
  "base_call c = hd (split_on (CHR ''-'') (js_upper (drop_star (js_trim c))))"

text \<open>\<open>replace(/-0$/, "")\<close>.\<close>

definition drop_ssid0 :: "string \<Rightarrow> string" where
  "drop_ssid0 s =
     (if length s \<ge> 2 \<and> drop (length s - 2) s = ''-0'' then take (length s - 2) s else s)"

definition same_station :: "string \<Rightarrow> string \<Rightarrow> bool" where
  "same_station a b =
     (let norm = (\<lambda>c. drop_ssid0 (js_upper (drop_star (js_trim c)))) in norm a = norm b)"

lemma same_station_equiv:
  "same_station a a" "same_station a b \<Longrightarrow> same_station b a"
  "same_station a b \<Longrightarrow> same_station b c \<Longrightarrow> same_station a c"
  by (simp_all add: same_station_def Let_def)

end
