(* ===== verification/Aprs_Igate.thy ===== *)
theory Aprs_Igate
  imports Callsign
begin

text \<open>
  The APRS IGate: \<open>packages/aprs/src/igate.ts\<close> with the monitor line parser
  \<open>packages/aprs/src/tnc2.ts\<close>, the passcode and the third-party line of
  \<open>packages/aprs/src/thirdparty.ts\<close>, and the path reader \<open>packages/aprs/src/route.ts\<close>.
\<close>

section \<open>Monitor lines\<close>

record parsed_frame =
  pf_src :: string
  pf_dst :: string
  pf_path :: "string list"
  pf_payload :: string
  pf_raw :: string

definition parse_TNC2 :: "string \<Rightarrow> parsed_frame option" where
  "parse_TNC2 line =
     (let s = js_trim_end line
      in if s = [] \<or> hd s = CHR ''#'' then None
         else case index_of (CHR '':'') s of
           None \<Rightarrow> None
         | Some colon \<Rightarrow>
             let header = take colon s; payload = drop (colon + 1) s
             in case index_of (CHR ''>'') header of
                  None \<Rightarrow> None
                | Some gt \<Rightarrow>
                    let src = take gt header; rest = split_on (CHR '','') (drop (gt + 1) header); dst = hd rest
                    in if src = [] \<or> dst = [] then None
                       else Some \<lparr>pf_src = src, pf_dst = dst, pf_path = tl rest, pf_payload = payload, pf_raw = s\<rparr>)"

section \<open>Gating decisions\<close>

definition NO_GATE_TOKENS :: "string list" where
  "NO_GATE_TOKENS = [''TCPIP'', ''TCPXX'', ''NOGATE'', ''RFONLY'']"

definition NO_TX_GATE_TOKENS :: "string list" where
  "NO_TX_GATE_TOKENS = [''TCPXX'', ''NOGATE'', ''RFONLY'']"

definition is_third_party :: "string \<Rightarrow> bool" where
  "is_third_party payload = (payload \<noteq> [] \<and> hd payload = CHR ''}'')"

definition path_blocks_gating :: "string list \<Rightarrow> bool" where
  "path_blocks_gating path = (\<exists>p\<in>set path. base_call p \<in> set NO_GATE_TOKENS)"

definition path_blocks_tx_gating :: "string list \<Rightarrow> bool" where
  "path_blocks_tx_gating path = (\<exists>p\<in>set path. base_call p \<in> set NO_TX_GATE_TOKENS)"

definition ends_info :: "char \<Rightarrow> bool" where
  "ends_info c = (c = CHR 0x0d \<or> c = CHR 0x0a \<or> c = CHR 0x00)"

definition igate_payload :: "string \<Rightarrow> string" where
  "igate_payload payload = takeWhile (\<lambda>c. \<not> ends_info c) payload"

definition rx_igate_frame :: "parsed_frame \<Rightarrow> parsed_frame option" where
  "rx_igate_frame f =
     (let payload = igate_payload (pf_payload f)
      in if \<not> is_third_party payload then Some f
         else case parse_TNC2 (drop 1 payload) of
           None \<Rightarrow> None
         | Some inner \<Rightarrow>
             if pf_src inner = [] \<or> pf_dst inner = [] \<or> is_third_party (pf_payload inner) \<or> path_blocks_gating (pf_path inner)
             then None else Some inner)"

definition should_rx_igate :: "parsed_frame \<Rightarrow> string \<Rightarrow> bool" where
  "should_rx_igate f gate =
     (if path_blocks_gating (pf_path f) then False
      else if same_station (pf_src f) gate then False
      else case rx_igate_frame f of
        None \<Rightarrow> False
      | Some g \<Rightarrow>
          let payload = igate_payload (pf_payload g)
          in if payload = [] then False
             else if hd payload = CHR ''?'' then False
             else if same_station (pf_src g) gate then False
             else True)"

definition has_star :: "string \<Rightarrow> bool" where
  "has_star h = (h \<noteq> [] \<and> last h = CHR ''*'')"

text \<open>The last entry with a star, and the path with only that star left.\<close>

fun last_used :: "nat \<Rightarrow> string list \<Rightarrow> nat option \<Rightarrow> nat option" where
  "last_used i [] acc = acc"
| "last_used i (h # hs) acc = last_used (i + 1) hs (if has_star h then Some i else acc)"

definition keep_last_star :: "string list \<Rightarrow> string list" where
  "keep_last_star path =
     map (\<lambda>(i, h). if last_used 0 path None = Some i then h else drop_star h) (zip [0..<length path] path)"

definition rx_igate_line :: "parsed_frame \<Rightarrow> string \<Rightarrow> bool \<Rightarrow> string" where
  "rx_igate_line frame gate receive_only =
     (let f = (case rx_igate_frame frame of None \<Rightarrow> frame | Some g \<Rightarrow> g);
          hops = keep_last_star (pf_path f);
          via = (if hops = [] then [] else '','' @ join_with '','' hops);
          q = (if receive_only then ''qAO'' else ''qAR'')
      in pf_src f @ ''>'' @ pf_dst f @ via @ '','' @ q @ '','' @ js_upper gate @ '':'' @ igate_payload (pf_payload f))"

text \<open>\<open>/^:(.{9}):/\<close>: a dot is any character but a line break.\<close>

definition message_addressee :: "string \<Rightarrow> string option" where
  "message_addressee payload =
     (if 11 \<le> length payload \<and> payload ! 0 = CHR '':'' \<and> payload ! 10 = CHR '':''
         \<and> (\<forall>c\<in>set (take 9 (drop 1 payload)). c \<noteq> CHR 0x0a \<and> c \<noteq> CHR 0x0d)
      then Some (js_upper (js_trim (take 9 (drop 1 payload)))) else None)"

definition tx_igate_target :: "parsed_frame \<Rightarrow> string \<Rightarrow> (string \<Rightarrow> bool) \<Rightarrow> string option" where
  "tx_igate_target f gate heard_locally =
     (if is_third_party (pf_payload f) \<or> path_blocks_tx_gating (pf_path f) then None
      else if same_station (pf_src f) gate then None
      else case message_addressee (pf_payload f) of
        None \<Rightarrow> None
      | Some addr \<Rightarrow>
          if addr = [] then None
          else if same_station addr gate then None
          else if heard_locally (pf_src f) then None
          else if heard_locally addr then Some addr else None)"

record ui_frame =
  uf_src :: string
  uf_dst :: string
  uf_path :: "string list"
  uf_payload :: string

definition tx_igate_frame :: "parsed_frame \<Rightarrow> string \<Rightarrow> string option \<Rightarrow> string list option \<Rightarrow> ui_frame" where
  "tx_igate_frame f gate tocall path =
     (let gate = js_upper gate
      in \<lparr>uf_src = gate, uf_dst = js_upper (case tocall of None \<Rightarrow> ''APZACG'' | Some t \<Rightarrow> t),
          uf_path = (case path of None \<Rightarrow> [] | Some p \<Rightarrow> p),
          uf_payload = ''}'' @ pf_src f @ ''>'' @ pf_dst f @ '',TCPIP,'' @ gate @ ''*:'' @ pf_payload f\<rparr>)"

section \<open>Passcode and third-party lines\<close>

text \<open>\<open>replace(/-.*/, "")\<close> of a callsign without line breaks.\<close>

definition passcode_call :: "string \<Rightarrow> string" where
  "passcode_call call =
     filter (\<lambda>c. (65 \<le> char_code c \<and> char_code c \<le> 90) \<or> is_digit c) (takeWhile (\<lambda>c. c \<noteq> CHR ''-'') (js_upper call))"

fun passcode_hash :: "16 word \<Rightarrow> string \<Rightarrow> 16 word" where
  "passcode_hash h [] = h"
| "passcode_hash h [c] = h XOR push_bit 8 (of_nat (char_code c))"
| "passcode_hash h (c # d # s) = passcode_hash (h XOR push_bit 8 (of_nat (char_code c)) XOR of_nat (char_code d)) s"

definition aprs_passcode :: "string \<Rightarrow> nat" where
  "aprs_passcode call = unat (passcode_hash 0x73e2 (passcode_call call) AND 0x7fff)"

definition third_party_encap :: "string \<Rightarrow> string \<Rightarrow> string \<Rightarrow> string option \<Rightarrow> string" where
  "third_party_encap gate user info dst =
     js_upper gate @ ''>APRS,TCPIP*:}'' @ js_upper user @ ''>''
       @ js_upper (case dst of None \<Rightarrow> ''APZACG'' | Some d \<Rightarrow> if d = [] then ''APZACG'' else d) @ '',TCPIP*:'' @ info"

section \<open>The legs of a path\<close>

record path_digi =
  pd_call :: string
  pd_used :: bool
  pd_generic :: bool

record split_path =
  sp_digis :: "path_digi list"
  sp_internet :: bool
  sp_q :: "string option"
  sp_qvia :: "string list"

definition RF_Q :: "string list" where
  "RF_Q = [''qAR'', ''qAr'', ''qAO'', ''qAo'']"

definition NAMED_ALIASES :: "string list" where
  "NAMED_ALIASES = [''WIDE'', ''RELAY'', ''TRACE'', ''ECHO'', ''GATE'', ''NOGATE'', ''RFONLY'']"

definition is_capital :: "char \<Rightarrow> bool" where
  "is_capital c = (65 \<le> char_code c \<and> char_code c \<le> 90)"

text \<open>\<open>/^[A-Z]{1,5}[1-7]$/\<close>.\<close>

definition is_nN :: "string \<Rightarrow> bool" where
  "is_nN b = (2 \<le> length b \<and> length b \<le> 6 \<and> (\<forall>c\<in>set (butlast b). is_capital c)
     \<and> 49 \<le> char_code (last b) \<and> char_code (last b) \<le> 55)"

definition is_generic_hop :: "string \<Rightarrow> bool" where
  "is_generic_hop call =
     (let base = hd (split_on (CHR ''-'') (js_upper call)) in base \<in> set NAMED_ALIASES \<or> is_nN base)"

text \<open>\<open>/^q[A-Z][A-Za-z]$/\<close>.\<close>

definition is_q_construct :: "string \<Rightarrow> bool" where
  "is_q_construct t =
     (length t = 3 \<and> t ! 0 = CHR ''q'' \<and> is_capital (t ! 1)
      \<and> (is_capital (t ! 2) \<or> (97 \<le> char_code (t ! 2) \<and> char_code (t ! 2) \<le> 122)))"

definition is_rf_q_construct :: "string option \<Rightarrow> bool" where
  "is_rf_q_construct q = (case q of None \<Rightarrow> False | Some t \<Rightarrow> t \<noteq> [] \<and> t \<in> set RF_Q)"

definition path_base :: "string \<Rightarrow> string" where
  "path_base t = hd (split_on (CHR ''-'') (js_upper (drop_star t)))"

definition split_aprs_path :: "string list \<Rightarrow> split_path" where
  "split_aprs_path path =
     (let tokens = filter (\<lambda>t. t \<noteq> []) (map js_trim path);
          before = takeWhile (\<lambda>t. \<not> is_q_construct t) tokens;
          after = dropWhile (\<lambda>t. \<not> is_q_construct t) tokens;
          entries = filter (\<lambda>t. path_base t \<noteq> ''TCPIP'' \<and> path_base t \<noteq> ''TCPXX'') before;
          last = last_used 0 entries None
      in \<lparr>sp_digis = map (\<lambda>(i, t). \<lparr>pd_call = drop_star t,
                                    pd_used = (case last of None \<Rightarrow> False | Some k \<Rightarrow> i \<le> k),
                                    pd_generic = is_generic_hop (drop_star t)\<rparr>) (zip [0..<length entries] entries),
          sp_internet = (\<exists>t\<in>set before. path_base t = ''TCPIP'' \<or> path_base t = ''TCPXX''),
          sp_q = (case after of [] \<Rightarrow> None | q # _ \<Rightarrow> Some q),
          sp_qvia = (case after of [] \<Rightarrow> [] | _ # via \<Rightarrow> map drop_star via)\<rparr>)"

section \<open>A monitor line is read back\<close>

definition plain_field :: "string \<Rightarrow> bool" where
  "plain_field t = (t \<noteq> [] \<and> CHR '':'' \<notin> set t \<and> CHR '','' \<notin> set t)"

definition monitor_line :: "string \<Rightarrow> string \<Rightarrow> string list \<Rightarrow> string \<Rightarrow> string" where
  "monitor_line src dst path payload = src @ ''>'' @ join_with '','' (dst # path) @ '':'' @ payload"

lemma join_line:
  "join_with '','' (dst # hops @ [q, g]) = dst @ (if hops = [] then [] else '','' @ join_with '','' hops) @ '','' @ q @ '','' @ g"
  using join_snoc [of "dst # hops @ [q]" "'',''" g] join_snoc [of "dst # hops" "'',''" q] by (cases hops) simp_all

lemma parse_monitor:
  assumes src: "src \<noteq> []" "hd src \<noteq> CHR ''#''" "CHR ''>'' \<notin> set src" "CHR '':'' \<notin> set src"
    and dst: "dst \<noteq> []" and path: "\<forall>h\<in>set (dst # path). CHR '':'' \<notin> set h \<and> CHR '','' \<notin> set h"
    and trim: "js_trim_end (monitor_line src dst path payload) = monitor_line src dst path t"
  shows "parse_TNC2 (monitor_line src dst path payload) =
    Some \<lparr>pf_src = src, pf_dst = dst, pf_path = path, pf_payload = t, pf_raw = monitor_line src dst path t\<rparr>"
proof -
  let ?j = "join_with '','' (dst # path)"
  let ?h = "src @ CHR ''>'' # ?j"
  have l: "monitor_line src dst path t = ?h @ CHR '':'' # t" by (simp add: monitor_line_def)
  have "CHR '':'' \<notin> set ?j" using set_join [of "'',''" "dst # path"] path by auto
  then have c: "index_of (CHR '':'') (?h @ CHR '':'' # t) = Some (length ?h)"
    using src(4) by (intro index_of_first) simp
  have g: "index_of (CHR ''>'') ?h = Some (length src)" using src(3) by (rule index_of_first)
  have s: "split_on (CHR '','') ?j = dst # path" using path by (intro split_join) auto
  have "hd (?h @ CHR '':'' # t) \<noteq> CHR ''#''" using src(1,2) by simp
  then show ?thesis unfolding parse_TNC2_def trim Let_def l c
    using g s src(1) dst by simp
qed

lemma monitor_line_roundtrip:
  assumes "src \<noteq> []" "hd src \<noteq> CHR ''#''" "CHR ''>'' \<notin> set src" "CHR '':'' \<notin> set src"
    and "dst \<noteq> []" and "\<forall>h\<in>set (dst # path). CHR '':'' \<notin> set h \<and> CHR '','' \<notin> set h"
    and payload: "payload \<noteq> []" "\<not> is_space (last payload)"
  shows "parse_TNC2 (monitor_line src dst path payload) =
    Some \<lparr>pf_src = src, pf_dst = dst, pf_path = path, pf_payload = payload, pf_raw = monitor_line src dst path payload\<rparr>"
  using assms(1-6) by (rule parse_monitor) (use payload in \<open>intro trim_end_where_id, simp add: monitor_line_def\<close>)

lemma parsed_fields:
  assumes "parse_TNC2 line = Some f"
  shows "pf_src f \<noteq> []" "hd (pf_src f) \<noteq> CHR ''#''" "CHR ''>'' \<notin> set (pf_src f)" "CHR '':'' \<notin> set (pf_src f)"
    "pf_dst f \<noteq> []" "\<forall>h\<in>set (pf_dst f # pf_path f). CHR '':'' \<notin> set h \<and> CHR '','' \<notin> set h"
proof -
  let ?s = "js_trim_end line"
  obtain colon gt where c: "?s \<noteq> []" "hd ?s \<noteq> CHR ''#''" "index_of (CHR '':'') ?s = Some colon"
    "index_of (CHR ''>'') (take colon ?s) = Some gt" and src: "take gt (take colon ?s) \<noteq> []"
    and dst: "hd (split_on (CHR '','') (drop (gt + 1) (take colon ?s))) \<noteq> []"
    and f: "f = \<lparr>pf_src = take gt (take colon ?s), pf_dst = hd (split_on (CHR '','') (drop (gt + 1) (take colon ?s))),
      pf_path = tl (split_on (CHR '','') (drop (gt + 1) (take colon ?s))), pf_payload = drop (colon + 1) ?s, pf_raw = ?s\<rparr>"
    using assms by (auto simp: parse_TNC2_def Let_def split: option.splits if_splits)
  let ?h = "take colon ?s"
  have colon: "CHR '':'' \<notin> set ?h" using c(3) by (auto simp: index_of_Some in_set_conv_nth)
  have gt: "CHR ''>'' \<notin> set (take gt ?h)" using c(4) by (auto simp: index_of_Some in_set_conv_nth)
  have parts: "\<forall>w\<in>set (split_on (CHR '','') (drop (gt + 1) ?h)). CHR '':'' \<notin> set w \<and> CHR '','' \<notin> set w"
  proof
    fix w assume "w \<in> set (split_on (CHR '','') (drop (gt + 1) ?h))"
    then have "x \<in> set (drop (gt + 1) ?h) \<and> x \<noteq> CHR '',''" if "x \<in> set w" for x
      using split_on_parts that by blast
    note w = this
    show "CHR '':'' \<notin> set w \<and> CHR '','' \<notin> set w"
    proof
      show "CHR '':'' \<notin> set w" using w [of "CHR '':''"] colon in_set_dropD by metis
      show "CHR '','' \<notin> set w" using w [of "CHR '',''"] by blast
    qed
  qed
  show "pf_src f \<noteq> []" "CHR ''>'' \<notin> set (pf_src f)" "pf_dst f \<noteq> []" using src gt dst by (simp_all add: f)
  show "CHR '':'' \<notin> set (pf_src f)" using colon in_set_takeD [of "CHR '':''" gt ?h] by (simp add: f del: take_take) blast
  have "hd (take gt ?h) = hd ?s" using src by (cases ?s; cases gt; cases colon) auto
  then show "hd (pf_src f) \<noteq> CHR ''#''" using c(2) by (simp add: f)
  show "\<forall>h\<in>set (pf_dst f # pf_path f). CHR '':'' \<notin> set h \<and> CHR '','' \<notin> set h"
    using parts by (simp add: f)
qed

section \<open>Nothing gated down comes back up\<close>

lemma parse_needs_colon: "CHR '':'' \<notin> set s \<Longrightarrow> parse_TNC2 s = None"
proof -
  assume s: "CHR '':'' \<notin> set s"
  then have "index_of (CHR '':'') (js_trim_end s) = None"
    unfolding index_of_None using set_trim_end_where [of is_space s] by blast
  then show ?thesis by (simp add: parse_TNC2_def Let_def)
qed

lemma trim_after_colon: "\<exists>t. js_trim_end (h @ CHR '':'' # info) = h @ CHR '':'' # t"
proof (cases "\<forall>c\<in>set info. is_space c")
  case True
  have "js_trim_end ((h @ [CHR '':'']) @ info) = js_trim_end (h @ [CHR '':''])" using True by (rule trim_end_where_append_drop)
  also have "\<dots> = h @ [CHR '':'']" by (intro trim_end_where_id) (simp add: is_space_def char_code_def)
  finally show ?thesis by simp
next
  case False
  then have "dropWhile is_space (rev info @ CHR '':'' # rev h) = dropWhile is_space (rev info) @ CHR '':'' # rev h"
    by (auto simp: dropWhile_append)
  then have "js_trim_end (h @ CHR '':'' # info) = h @ CHR '':'' # rev (dropWhile is_space (rev info))"
    by (simp add: trim_end_where_def)
  then show ?thesis by blast
qed

lemma parse_gated:
  assumes "\<forall>c\<in>set (src @ ''>'' @ dst @ gate). c \<noteq> CHR '':''" "CHR ''>'' \<notin> set src" "CHR '','' \<notin> set dst" "CHR '','' \<notin> set gate"
    and "parse_TNC2 (src @ ''>'' @ dst @ '',TCPIP,'' @ gate @ ''*:'' @ info) = Some f"
  shows "pf_path f = [''TCPIP'', gate @ ''*'']"
proof -
  let ?j = "dst @ CHR '','' # ''TCPIP'' @ CHR '','' # gate @ ''*''"
  let ?h = "src @ CHR ''>'' # ?j"
  have l: "src @ ''>'' @ dst @ '',TCPIP,'' @ gate @ ''*:'' @ info = ?h @ CHR '':'' # info" by simp
  obtain t where t: "js_trim_end (?h @ CHR '':'' # info) = ?h @ CHR '':'' # t" using trim_after_colon by blast
  have no: "CHR '':'' \<notin> set ?h" using assms(1) by auto
  have c: "index_of (CHR '':'') (?h @ CHR '':'' # t) = Some (length ?h)" using no by (rule index_of_first)
  have g: "index_of (CHR ''>'') ?h = Some (length src)" using assms(2) by (rule index_of_first)
  have "split_on (CHR '','') ?j = dst # split_on (CHR '','') (''TCPIP'' @ CHR '','' # gate @ ''*'')"
    using assms(3) by (rule split_on_append)
  also have "\<dots> = [dst, ''TCPIP'', gate @ ''*'']"
    using assms(4) split_on_append [of "CHR '',''" "''TCPIP''" "gate @ ''*''"] split_on_none [of "CHR '',''" "gate @ ''*''"] by simp
  finally have s: "split_on (CHR '','') ?j = [dst, ''TCPIP'', gate @ ''*'']" .
  have th: "take (length ?h) (?h @ CHR '':'' # t) = ?h" by (rule append_eq_conv_conj [THEN iffD1, THEN conjunct1, symmetric, OF refl])
  have d: "drop (length src + 1) ?h = ?j" by simp
  show ?thesis
    using assms(5) unfolding l parse_TNC2_def Let_def t c option.case th g d s
    by (auto split: if_splits)
qed

lemma upper_char_other: "char_code d < 65 \<or> 90 < char_code d \<Longrightarrow> upper_char c = d \<longrightarrow> c = d"
  by (auto simp: upper_char_def)

text \<open>C13: 
  A packet an IGate takes from APRS-IS and transmits is relayed back to APRS-IS by no IGate that hears
  it, whatever its own call and through whichever digipeaters: the \<open>TCPIP\<close> in the third-party header
  keeps it off, also when the info field is cut short or holds no packet at all. The packet is any that
  came off the monitor line parser.
\<close>

theorem gated_down_stays_down:
  assumes "parse_TNC2 line = Some f"
    and "CHR '':'' \<notin> set gate" "CHR '','' \<notin> set gate"
    and "pf_payload heard = uf_payload (tx_igate_frame f gate tocall path)"
  shows "\<not> should_rx_igate heard other_gate"
proof -
  note f = parsed_fields [OF assms(1)]
  let ?g = "js_upper gate"
  have up: "upper_char c = CHR '':'' \<longrightarrow> c = CHR '':''" "upper_char c = CHR '','' \<longrightarrow> c = CHR '',''" for c
  proof -
    have "char_code (CHR '':'') = 58" "char_code (CHR '','') = 44" by (simp_all add: char_code_def)
    then show "upper_char c = CHR '':'' \<longrightarrow> c = CHR '':''" "upper_char c = CHR '','' \<longrightarrow> c = CHR '',''"
      using upper_char_other [of "CHR '':''" c] upper_char_other [of "CHR '',''" c] by simp_all
  qed
  have g: "CHR '':'' \<notin> set ?g" "CHR '','' \<notin> set ?g"
    using assms(2,3) up unfolding js_upper_def set_map image_iff by metis+
  let ?t = "pf_src f @ ''>'' @ pf_dst f @ '',TCPIP,'' @ ?g @ ''*:'' @ pf_payload f"
  have p: "pf_payload heard = CHR ''}'' # ?t" using assms(4) by (simp add: tx_igate_frame_def Let_def)
  let ?cut = "takeWhile (\<lambda>c. \<not> ends_info c) ?t"
  have ig: "igate_payload (pf_payload heard) = CHR ''}'' # ?cut" unfolding p by (simp add: igate_payload_def ends_info_def)
  have blocked: "path_blocks_gating (pf_path inner)" if inner: "parse_TNC2 ?cut = Some inner" for inner
  proof -
    let ?H = "pf_src f @ ''>'' @ pf_dst f @ '',TCPIP,'' @ ?g @ ''*''"
    have H: "CHR '':'' \<notin> set ?H" using f g(1) by auto
    have "\<forall>c\<in>set ?H. \<not> ends_info c"
    proof (rule ccontr)
      assume "\<not> (\<forall>c\<in>set ?H. \<not> ends_info c)"
      then have "?cut = takeWhile (\<lambda>c. \<not> ends_info c) ?H"
        using takeWhile_append1 [of _ ?H "\<lambda>c. \<not> ends_info c" "'':'' @ pf_payload f"] by auto
      then have "CHR '':'' \<notin> set ?cut" using H set_takeWhileD by (metis (no_types, lifting))
      then show False using inner parse_needs_colon by simp
    qed
    then have "takeWhile (\<lambda>c. \<not> ends_info c) (?H @ '':'' @ pf_payload f) = ?H @ takeWhile (\<lambda>c. \<not> ends_info c) ('':'' @ pf_payload f)"
      by (intro takeWhile_append2) blast
    then have "?cut = pf_src f @ ''>'' @ pf_dst f @ '',TCPIP,'' @ ?g @ ''*:'' @ takeWhile (\<lambda>c. \<not> ends_info c) (pf_payload f)"
      by (simp add: ends_info_def)
    then have "pf_path inner = [''TCPIP'', ?g @ ''*'']"
      using inner f g by (intro parse_gated [of "pf_src f" "pf_dst f" ?g]) auto
    moreover have "base_call ''TCPIP'' = ''TCPIP''" by code_simp
    ultimately show ?thesis by (simp add: path_blocks_gating_def NO_GATE_TOKENS_def)
  qed
  have "rx_igate_frame heard = None"
    using blocked unfolding rx_igate_frame_def ig by (auto simp: is_third_party_def Let_def split: option.split)
  then show ?thesis by (simp add: should_rx_igate_def)
qed

lemma gated_down_stays_down_witness:
  "\<not> should_rx_igate \<lparr>pf_src = ''OE6XGR-10'', pf_dst = ''APZACG'', pf_path = [''WIDE1-1''],
      pf_payload = uf_payload (tx_igate_frame \<lparr>pf_src = ''N0CALL'', pf_dst = ''APRS'', pf_path = [''TCPIP*''],
        pf_payload = '':OE6ABC   :hi'', pf_raw = ''N0CALL>APRS,TCPIP*::OE6ABC   :hi''\<rparr> ''OE6XGR-10'' None None), pf_raw = ''x''\<rparr> ''OE6XYZ''"
  by (rule gated_down_stays_down [of "''N0CALL>APRS,TCPIP*::OE6ABC   :hi''" _ "''OE6XGR-10''" _ None None]) code_simp+

section \<open>The line of a frame heard on the air\<close>

text \<open>A hop as an AX.25 address prints: capitals, digits and a dash, with or without its star.\<close>

definition hop_char :: "char \<Rightarrow> bool" where
  "hop_char c = (is_capital c \<or> is_digit c \<or> c = CHR ''-'')"

definition clean_call :: "string \<Rightarrow> bool" where
  "clean_call t = (t \<noteq> [] \<and> (\<forall>c\<in>set t. hop_char c))"

lemma hop_char_facts: "hop_char c \<Longrightarrow> \<not> is_space c \<and> c \<noteq> CHR ''*'' \<and> c \<noteq> CHR ''q'' \<and> c \<noteq> CHR '':'' \<and> c \<noteq> CHR '','' \<and> c \<noteq> CHR ''>'' \<and> c \<noteq> CHR ''#''"
  by (auto simp: hop_char_def is_capital_def is_digit_def is_space_def char_code_def)

lemma star_facts: "\<not> is_space CHR ''*''"
  by (simp add: is_space_def char_code_def)

lemma clean_call_facts:
  assumes "clean_call (drop_star h)"
  shows "js_trim h = h" "h \<noteq> []" "\<not> is_q_construct h" "\<not> has_star (drop_star h)" "drop_star (drop_star h) = drop_star h"
    "\<forall>x\<in>set h. x \<noteq> CHR '':'' \<and> x \<noteq> CHR '',''"
proof -
  have h: "h = drop_star h \<or> h = drop_star h @ ''*''"
    by (auto simp: drop_star_def) (metis append_butlast_last_id)
  have c: "\<forall>c\<in>set (drop_star h). hop_char c" and n: "drop_star h \<noteq> []" using assms by (simp_all add: clean_call_def)
  have "set h \<subseteq> set (drop_star h @ ''*'')" using h by (metis Un_upper1 order_refl set_append)
  then have hc: "\<forall>x\<in>set h. hop_char x \<or> x = CHR ''*''" using c by auto
  show "h \<noteq> []" using n by (auto simp: drop_star_def)
  show "js_trim h = h"
    using hc hop_char_facts star_facts by (intro js_trim_no_space) metis
  have "h ! 0 \<noteq> CHR ''q''" using h c n hop_char_facts nth_mem [of 0 "drop_star h"] by (metis length_greater_0_conv nth_append)
  then show "\<not> is_q_construct h" by (simp add: is_q_construct_def)
  have l: "last (drop_star h) \<noteq> CHR ''*''" using c n hop_char_facts last_in_set by blast
  then show "\<not> has_star (drop_star h)" by (simp add: has_star_def)
  show "drop_star (drop_star h) = drop_star h" using l by (simp add: drop_star_def [of "drop_star h"])
  show "\<forall>x\<in>set h. x \<noteq> CHR '':'' \<and> x \<noteq> CHR '',''" using hc hop_char_facts by fastforce
qed

lemma last_used_no_star: "\<forall>h\<in>set xs. \<not> has_star h \<Longrightarrow> last_used i xs acc = acc"
  by (induction i xs acc rule: last_used.induct) auto

lemma last_used_split: "has_star h \<Longrightarrow> \<forall>x\<in>set ys. \<not> has_star x \<Longrightarrow> last_used i (xs @ h # ys) acc = Some (i + length xs)"
  by (induction xs arbitrary: i acc) (auto simp: last_used_no_star)

lemma drop_star_none: "\<not> has_star h \<Longrightarrow> drop_star h = h"
  by (auto simp: has_star_def drop_star_def)

text \<open>Only the last star survives, and it is still the last.\<close>

lemma map_zip_upt: "map (\<lambda>(i, h). f i h) (zip [0..<length xs] xs) = map (\<lambda>i. f i (xs ! i)) [0..<length xs]"
  by (rule nth_equalityI) simp_all

lemma keep_last_star_nth:
  "i < length p \<Longrightarrow> keep_last_star p ! i = (if last_used 0 p None = Some i then p ! i else drop_star (p ! i))"
  by (simp add: keep_last_star_def)

lemma keep_last_star_split:
  assumes "has_star h" "\<forall>x\<in>set ys. \<not> has_star x"
  shows "keep_last_star (xs @ h # ys) = map drop_star xs @ h # ys"
proof (rule nth_equalityI)
  let ?p = "xs @ h # ys"
  have k: "last_used 0 ?p None = Some (length xs)" using last_used_split [OF assms, of 0 xs None] by simp
  show "length (keep_last_star ?p) = length (map drop_star xs @ h # ys)" by (simp add: keep_last_star_def)
  fix i assume "i < length (keep_last_star ?p)"
  then have i: "i < length ?p" by (simp add: keep_last_star_def)
  have "keep_last_star ?p ! i = (if i = length xs then ?p ! i else drop_star (?p ! i))"
    unfolding keep_last_star_nth [OF i] k by auto
  then show "keep_last_star ?p ! i = (map drop_star xs @ h # ys) ! i"
    using i assms(2) by (auto simp: nth_append nth_Cons drop_star_none split: nat.splits)
qed

lemma keep_last_star_none: "\<forall>x\<in>set path. \<not> has_star x \<Longrightarrow> keep_last_star path = path"
  by (rule nth_equalityI) (auto simp: keep_last_star_def drop_star_none)

lemma last_star_cases:
  assumes "\<forall>x\<in>set path. \<not> has_star x \<Longrightarrow> P" "\<And>xs h ys. path = xs @ h # ys \<Longrightarrow> has_star h \<Longrightarrow> \<forall>x\<in>set ys. \<not> has_star x \<Longrightarrow> P"
  shows P
  using assms split_list_last_prop [of path has_star] by blast

lemma kept_path:
  assumes "\<forall>h\<in>set path. clean_call (drop_star h)"
  shows "last_used 0 (keep_last_star path) None = last_used 0 path None"
    "map drop_star (keep_last_star path) = map drop_star path"
proof -
  have *: "last_used 0 (keep_last_star path) None = last_used 0 path None \<and>
    map drop_star (keep_last_star path) = map drop_star path"
  proof (rule last_star_cases [of path])
    assume "\<forall>x\<in>set path. \<not> has_star x"
    then show ?thesis by (simp only: keep_last_star_none)
  next
    fix xs h ys assume p: "path = xs @ h # ys" and h: "has_star h" "\<forall>x\<in>set ys. \<not> has_star x"
    have "map drop_star (map drop_star xs) = map drop_star xs" using assms clean_call_facts(5) by (auto simp: p)
    then show ?thesis unfolding p keep_last_star_split [OF h] using last_used_split [OF h, of 0 _ None] by simp
  qed
  show "last_used 0 (keep_last_star path) None = last_used 0 path None" using * by (rule conjunct1)
  show "map drop_star (keep_last_star path) = map drop_star path" using * by (rule conjunct2)
qed

lemma base_of_entry: "js_trim t = t \<Longrightarrow> path_base t = base_call t"
  by (simp add: path_base_def base_call_def)

lemma not_blocked_entries:
  assumes "\<forall>h\<in>set path. clean_call (drop_star h)" "\<not> path_blocks_gating path"
  shows "\<forall>t\<in>set path. path_base t \<noteq> ''TCPIP'' \<and> path_base t \<noteq> ''TCPXX''"
  using assms base_of_entry clean_call_facts(1) by (force simp: path_blocks_gating_def NO_GATE_TOKENS_def)

text \<open>The reader of a clean path, with and without the construct a gate adds.\<close>

definition path_digis :: "string list \<Rightarrow> path_digi list" where
  "path_digis entries = map (\<lambda>(i, t). \<lparr>pd_call = drop_star t,
     pd_used = (case last_used 0 entries None of None \<Rightarrow> False | Some k \<Rightarrow> i \<le> k),
     pd_generic = is_generic_hop (drop_star t)\<rparr>) (zip [0..<length entries] entries)"

lemma takeWhile_before: "\<forall>x\<in>set xs. P x \<Longrightarrow> \<not> P y \<Longrightarrow> takeWhile P (xs @ y # ys) = xs \<and> dropWhile P (xs @ y # ys) = y # ys"
  by (induction xs) auto

lemma split_clean:
  assumes "\<forall>h\<in>set path. clean_call (drop_star h)" "\<not> path_blocks_gating path"
  shows "split_aprs_path path = \<lparr>sp_digis = path_digis path, sp_internet = False, sp_q = None, sp_qvia = []\<rparr>"
    "is_q_construct q \<Longrightarrow> js_trim q = q \<Longrightarrow> clean_call g \<Longrightarrow>
      split_aprs_path (path @ [q, g]) = \<lparr>sp_digis = path_digis path, sp_internet = False, sp_q = Some q, sp_qvia = [g]\<rparr>"
proof -
  have trim: "filter (\<lambda>t. t \<noteq> []) (map js_trim path) = path"
    using assms(1) clean_call_facts(1,2) by (induction path) auto
  have noq: "\<forall>t\<in>set path. \<not> is_q_construct t" using assms(1) clean_call_facts(3) by blast
  note base = not_blocked_entries [OF assms]
  have ent: "filter (\<lambda>t. path_base t \<noteq> ''TCPIP'' \<and> path_base t \<noteq> ''TCPXX'') path = path"
    using base by (simp add: filter_id_conv)
  have net: "(\<exists>t\<in>set path. path_base t = ''TCPIP'' \<or> path_base t = ''TCPXX'') = False" using base by blast
  have "takeWhile (\<lambda>t. \<not> is_q_construct t) path = path" "dropWhile (\<lambda>t. \<not> is_q_construct t) path = []"
    using noq by (simp_all add: takeWhile_eq_all_conv dropWhile_eq_Nil_conv)
  then show "split_aprs_path path = \<lparr>sp_digis = path_digis path, sp_internet = False, sp_q = None, sp_qvia = []\<rparr>"
    unfolding split_aprs_path_def Let_def trim by (simp only: ent net path_digis_def list.case)
  assume q: "is_q_construct q" "js_trim q = q" and g: "clean_call g"
  have "drop_star g = g" using g hop_char_facts last_in_set by (fastforce simp: clean_call_def drop_star_def)
  moreover from this have "js_trim g = g" using g clean_call_facts(1) [of g] by simp
  moreover have "q \<noteq> []" "g \<noteq> []" using q(1) g by (auto simp: is_q_construct_def clean_call_def)
  ultimately have t: "filter (\<lambda>t. t \<noteq> []) (map js_trim (path @ [q, g])) = path @ [q, g]" "map drop_star [g] = [g]"
    using trim q(2) by simp_all
  have "takeWhile (\<lambda>t. \<not> is_q_construct t) (path @ q # [g]) = path" "dropWhile (\<lambda>t. \<not> is_q_construct t) (path @ q # [g]) = q # [g]"
    using takeWhile_before [of path "\<lambda>t. \<not> is_q_construct t" q "[g]"] noq q(1) by auto
  then show "split_aprs_path (path @ [q, g]) = \<lparr>sp_digis = path_digis path, sp_internet = False, sp_q = Some q, sp_qvia = [g]\<rparr>"
    unfolding split_aprs_path_def Let_def t(1) by (simp only: ent net path_digis_def list.case t(2))
qed

lemma path_digis_drop:
  assumes "map drop_star p = map drop_star p'" "last_used 0 p None = last_used 0 p' None"
  shows "path_digis p = path_digis p'"
proof (rule nth_equalityI)
  have l: "length p = length p'" using assms(1) by (rule map_eq_imp_length_eq)
  show "length (path_digis p) = length (path_digis p')" by (simp add: path_digis_def l)
  fix i assume "i < length (path_digis p)"
  then have i: "i < length p" by (simp add: path_digis_def)
  have "drop_star (p ! i) = drop_star (p' ! i)" using assms(1) i l by (metis nth_map)
  then show "path_digis p ! i = path_digis p' ! i" using i l assms(2) by (simp add: path_digis_def)
qed

lemma blocks_by_base: "path_blocks_gating path = path_blocks_gating (map drop_star path)"
  if "\<forall>h\<in>set path. clean_call (drop_star h)" for path
proof -
  have "base_call (drop_star h) = base_call h" if "clean_call (drop_star h)" for h
    using clean_call_facts [OF that] clean_call_facts(1) [of "drop_star h"] that by (simp add: base_call_def)
  then show ?thesis using that by (auto simp: path_blocks_gating_def)
qed

lemma gate_constructs:
  "is_q_construct ''qAO''" "is_q_construct ''qAR''" "js_trim ''qAO'' = ''qAO''" "js_trim ''qAR'' = ''qAR''"
  by code_simp+

text \<open>C38: 
  A frame heard on the air and relayed to APRS-IS reads there as it was heard: the line parses back to the
  same source and destination, its path says which digipeaters the frame went through, as the heard path
  did although only its last star is left, and it names the gate behind its construct, nothing else.
\<close>

theorem gated_line_reads_back:
  assumes f: "rx_igate_frame frame = Some f" and src: "clean_call (pf_src f)" and dst: "clean_call (pf_dst f)"
    and path: "\<forall>h\<in>set (pf_path f). clean_call (drop_star h)" and gates: "\<not> path_blocks_gating (pf_path f)"
    and gate: "clean_call (js_upper gate)"
  shows "\<exists>g. parse_TNC2 (rx_igate_line frame gate receive_only) = Some g \<and> pf_src g = pf_src f \<and> pf_dst g = pf_dst f
    \<and> split_aprs_path (pf_path g) = (split_aprs_path (pf_path f))
        \<lparr>sp_q := Some (if receive_only then ''qAO'' else ''qAR''), sp_qvia := [js_upper gate]\<rparr>"
proof -
  let ?q = "if receive_only then ''qAO'' else ''qAR''"
  let ?hops = "keep_last_star (pf_path f)" and ?g = "js_upper gate"
  let ?p = "?hops @ [?q, ?g]" and ?info = "igate_payload (pf_payload f)"
  have star: "drop_star c = c" if "clean_call c" for c
    using that hop_char_facts last_in_set by (fastforce simp: clean_call_def drop_star_def)
  have line: "rx_igate_line frame gate receive_only = monitor_line (pf_src f) (pf_dst f) ?p ?info"
    by (simp add: rx_igate_line_def f monitor_line_def join_line Let_def)
  obtain t where t: "js_trim_end (monitor_line (pf_src f) (pf_dst f) ?p ?info) = monitor_line (pf_src f) (pf_dst f) ?p t"
    using trim_after_colon [of "pf_src f @ ''>'' @ join_with '','' (pf_dst f # ?p)" ?info] by (auto simp: monitor_line_def)
  note kept = kept_path [OF path]
  have "set (map drop_star ?hops) = set (map drop_star (pf_path f))" using kept(2) by (rule arg_cong)
  then have hops: "\<forall>h\<in>set ?hops. clean_call (drop_star h)" using path unfolding set_map by (metis imageE imageI)
  have q: "is_q_construct ?q" "js_trim ?q = ?q" "\<forall>x\<in>set ?q. x \<noteq> CHR '':'' \<and> x \<noteq> CHR '',''"
    using gate_constructs by simp_all
  have "\<forall>h\<in>set (pf_dst f # ?p). \<forall>x\<in>set h. x \<noteq> CHR '':'' \<and> x \<noteq> CHR '',''"
  proof -
    have "\<forall>x\<in>set h. x \<noteq> CHR '':'' \<and> x \<noteq> CHR '',''" if "clean_call (drop_star h)" for h using that by (rule clean_call_facts(6))
    moreover have "clean_call (drop_star (pf_dst f))" "clean_call (drop_star ?g)" using dst gate star by metis+
    ultimately show ?thesis using hops q(3) unfolding list.set set_append by blast
  qed
  then have parts: "\<forall>h\<in>set (pf_dst f # ?p). CHR '':'' \<notin> set h \<and> CHR '','' \<notin> set h" by blast
  have s: "pf_src f \<noteq> []" "\<forall>x\<in>set (pf_src f). x \<noteq> CHR ''#'' \<and> x \<noteq> CHR ''>'' \<and> x \<noteq> CHR '':''"
    using src hop_char_facts by (auto simp: clean_call_def)
  have parse: "parse_TNC2 (rx_igate_line frame gate receive_only) = Some \<lparr>pf_src = pf_src f, pf_dst = pf_dst f, pf_path = ?p,
      pf_payload = t, pf_raw = monitor_line (pf_src f) (pf_dst f) ?p t\<rparr>"
    unfolding line using s dst parts by (intro parse_monitor t) (auto simp: clean_call_def)
  have "\<not> path_blocks_gating ?hops" using gates blocks_by_base [OF path] blocks_by_base [OF hops] kept(2) by simp
  then have "split_aprs_path ?p = \<lparr>sp_digis = path_digis ?hops, sp_internet = False, sp_q = Some ?q, sp_qvia = [?g]\<rparr>"
    using split_clean(2) [OF hops _ q(1,2) gate] by blast
  moreover have "path_digis ?hops = path_digis (pf_path f)" using kept(2,1) by (rule path_digis_drop)
  ultimately show ?thesis using parse split_clean(1) [OF path gates] by simp
qed

lemma gated_line_reads_back_witness:
  "\<exists>g. parse_TNC2 (rx_igate_line \<lparr>pf_src = ''OE6ABC-9'', pf_dst = ''APRS'', pf_path = [''OE6XGR-2*'', ''WIDE1*'', ''WIDE2-1''],
      pf_payload = ''>on the road'', pf_raw = []\<rparr> ''oe6xgr-10'' False) = Some g \<and> pf_src g = ''OE6ABC-9'' \<and> pf_dst g = ''APRS''
    \<and> split_aprs_path (pf_path g) = (split_aprs_path [''OE6XGR-2*'', ''WIDE1*'', ''WIDE2-1''])
        \<lparr>sp_q := Some ''qAR'', sp_qvia := [''OE6XGR-10'']\<rparr>"
proof -
  let ?f = "\<lparr>pf_src = ''OE6ABC-9'', pf_dst = ''APRS'', pf_path = [''OE6XGR-2*'', ''WIDE1*'', ''WIDE2-1''],
      pf_payload = ''>on the road'', pf_raw = []\<rparr>"
  have c: "rx_igate_frame ?f = Some ?f" "clean_call ''OE6ABC-9''" "clean_call ''APRS''" "js_upper ''oe6xgr-10'' = ''OE6XGR-10''"
    "clean_call ''OE6XGR-10''" "\<forall>h\<in>set [''OE6XGR-2*'', ''WIDE1*'', ''WIDE2-1'']. clean_call (drop_star h)"
    "\<not> path_blocks_gating [''OE6XGR-2*'', ''WIDE1*'', ''WIDE2-1'']"
    by code_simp+
  show ?thesis using gated_line_reads_back [of ?f ?f "''oe6xgr-10''" False] c by simp
qed

end
