(* ===== verification/Interfaces.thy ===== *)
theory Interfaces
  imports Prelude
begin

text \<open>
  The contracts the components share, each as a locale: codecs that read back what they
  write, decoders of a byte stream whose output does not depend on how the stream is cut
  into reads, state machines with an invariant. The component theories interpret them
  on the code's own functions.
\<close>

section \<open>Codecs\<close>

locale codec =
  fixes enc :: "'a \<Rightarrow> 'b"
    and dec :: "'b \<Rightarrow> 'a option"
    and ok :: "'a \<Rightarrow> bool"
  assumes dec_enc: "ok x \<Longrightarrow> dec (enc x) = Some x"
begin

lemma enc_inj: "ok x \<Longrightarrow> ok y \<Longrightarrow> enc x = enc y \<Longrightarrow> x = y"
  by (metis dec_enc option.inject)

lemma enc_inj_on: "inj_on enc {x. ok x}"
  by (auto intro!: inj_onI enc_inj)

end

section \<open>Stream decoders\<close>

text \<open>
  A decoder holds its state between reads. The law: decoding two reads one after the other
  is decoding them as one. Then every way of cutting the stream gives the same items.
\<close>

locale stream_decoder =
  fixes push :: "'s \<Rightarrow> 'i list \<Rightarrow> 's \<times> 'o list"
    and ready :: "'s \<Rightarrow> bool"
  assumes push_Nil: "ready s \<Longrightarrow> push s [] = (s, [])"
    and ready_push: "ready s \<Longrightarrow> ready (fst (push s xs))"
    and push_append: "ready s \<Longrightarrow> push s (xs @ ys) =
      (fst (push (fst (push s xs)) ys), snd (push s xs) @ snd (push (fst (push s xs)) ys))"
begin

fun push_all :: "'s \<Rightarrow> 'i list list \<Rightarrow> 's \<times> 'o list" where
  "push_all s [] = (s, [])"
| "push_all s (c # cs) =
     (let (s1, o1) = push s c; (s2, o2) = push_all s1 cs in (s2, o1 @ o2))"

lemma push_all_concat: "ready s \<Longrightarrow> push_all s cs = push s (concat cs)"
proof (induction cs arbitrary: s)
  case (Cons c cs)
  from Cons.IH [OF ready_push [OF Cons.prems]] Cons.prems show ?case
    by (simp add: push_append split_beta)
qed (simp add: push_Nil)

lemma push_all_chunking:
  "ready s \<Longrightarrow> concat cs = concat ds \<Longrightarrow> push_all s cs = push_all s ds"
  by (simp add: push_all_concat)

end

text \<open>
  A parser of a buffer that returns the complete items and the bytes left over, which the
  caller puts in front of the next read. Its law: the items of a longer buffer are the items
  of its first part, then those of what the first part left over joined with the rest.
\<close>

locale rest_parser =
  fixes parse :: "'i list \<Rightarrow> 'o list \<times> 'i list"
  assumes parse_Nil: "parse [] = ([], [])"
    and parse_append: "parse (xs @ ys) =
      (fst (parse xs) @ fst (parse (snd (parse xs) @ ys)), snd (parse (snd (parse xs) @ ys)))"
begin

definition feed :: "'i list \<Rightarrow> 'i list \<Rightarrow> 'i list \<times> 'o list" where
  "feed held chunk = (snd (parse (held @ chunk)), fst (parse (held @ chunk)))"

definition settled :: "'i list \<Rightarrow> bool" where
  "settled held = (parse held = ([], held))"

lemma settled_rest: "settled (snd (parse xs))"
  using parse_append [of xs "[]"] by (simp add: settled_def prod_eq_iff)

lemma settled_Nil: "settled []"
  by (simp add: settled_def parse_Nil)

end

sublocale rest_parser \<subseteq> stream: stream_decoder feed settled
proof unfold_locales
  fix s xs ys
  show "settled s \<Longrightarrow> feed s [] = (s, [])"
    by (simp add: feed_def settled_def)
  show "settled (fst (feed s xs))"
    by (simp add: feed_def settled_rest)
  show "feed s (xs @ ys) =
      (fst (feed (fst (feed s xs)) ys), snd (feed s xs) @ snd (feed (fst (feed s xs)) ys))"
    using parse_append [of "s @ xs" ys] by (simp add: feed_def)
qed

context rest_parser
begin

lemma feed_all_whole:
  "stream.push_all [] cs = (snd (parse (concat cs)), fst (parse (concat cs)))"
  by (simp add: stream.push_all_concat [OF settled_Nil]) (simp add: feed_def)

end

section \<open>Repeating on a shared channel\<close>

text \<open>
  Every station hears every copy on the air and repeats each one it may: the transmissions of \<open>n\<close> rounds. The
  duplicate filters of the stations can only leave some of them out.
\<close>

fun flood :: "('s \<Rightarrow> 'f \<Rightarrow> 'f option) \<Rightarrow> 's list \<Rightarrow> nat \<Rightarrow> 'f \<Rightarrow> 'f list" where
  "flood rep stations 0 f = []"
| "flood rep stations (Suc n) f =
     concat (map (\<lambda>s. case rep s f of None \<Rightarrow> [] | Some g \<Rightarrow> g # flood rep stations n g) stations)"

definition storm_bound :: "nat \<Rightarrow> nat \<Rightarrow> nat" where
  "storm_bound stations hops = (\<Sum>i<hops. stations ^ Suc i)"

lemma storm_bound_Suc: "storm_bound n (Suc w) = n * (1 + storm_bound n w)"
  by (simp only: storm_bound_def sum.lessThan_Suc_shift sum_distrib_left distrib_left power_Suc power_0 mult_1_right)

lemma storm_bound_mono: "v \<le> w \<Longrightarrow> storm_bound n v \<le> storm_bound n w"
  unfolding storm_bound_def by (rule sum_mono2) auto

text \<open>A repeater spends some of what a frame has left, so a flood ends, and the stations and what is left bound it.\<close>

locale repeater =
  fixes rep :: "'s \<Rightarrow> 'f \<Rightarrow> 'f option"
    and hops :: "'f \<Rightarrow> nat"
  assumes spends: "rep s f = Some g \<Longrightarrow> hops g < hops f"
begin

lemma spent: "hops f = 0 \<Longrightarrow> rep s f = None"
  using spends by (cases "rep s f") fastforce+

lemma flood_spent: "hops f = 0 \<Longrightarrow> flood rep stations n f = []"
  by (cases n) (simp_all add: spent)

lemma flood_rounds: "hops f \<le> m \<Longrightarrow> hops f \<le> n \<Longrightarrow> flood rep stations m f = flood rep stations n f"
proof (induction m arbitrary: n f)
  case 0
  then show ?case by (simp add: flood_spent)
next
  case (Suc m)
  show ?case
  proof (cases n)
    case 0
    then show ?thesis using Suc.prems by (simp add: flood_spent del: flood.simps)
  next
    case (Suc n')
    have "flood rep stations m g = flood rep stations n' g" if "rep s f = Some g" for s g
      using spends [OF that] Suc.prems Suc by (intro Suc.IH) simp_all
    then show ?thesis by (auto simp: Suc intro!: arg_cong [where f = concat] split: option.split)
  qed
qed

lemma flood_ends: "flood rep stations (hops f + n) f = flood rep stations (hops f) f"
  by (rule flood_rounds) simp_all

lemma flood_bounded: "length (flood rep stations n f) \<le> storm_bound (length stations) (hops f)"
proof (induction n arbitrary: f)
  case (Suc n)
  let ?one = "\<lambda>s. case rep s f of None \<Rightarrow> [] | Some g \<Rightarrow> g # flood rep stations n g"
  have one: "length (?one s) \<le> 1 + storm_bound (length stations) (hops f - 1)" for s
  proof (cases "rep s f")
    case (Some g)
    have "storm_bound (length stations) (hops g) \<le> storm_bound (length stations) (hops f - 1)"
      using spends [OF Some] by (intro storm_bound_mono) simp
    then show ?thesis using Suc.IH [of g] Some by simp
  qed simp
  have all: "length (concat (map ?one ss)) \<le> length ss * (1 + storm_bound (length stations) (hops f - 1))" for ss
  proof (induction ss)
    case (Cons s ss)
    have "length (?one s) + length (concat (map ?one ss)) \<le> (1 + storm_bound (length stations) (hops f - 1))
        + length ss * (1 + storm_bound (length stations) (hops f - 1))"
      by (rule add_mono [OF one Cons])
    then show ?case by (simp only: list.map concat.simps length_append length_Cons mult_Suc)
  qed simp
  show ?case
  proof (cases "hops f")
    case 0
    then show ?thesis by (simp add: flood_spent del: flood.simps)
  next
    case (Suc w)
    then show ?thesis using all [of stations] by (simp add: storm_bound_Suc)
  qed
qed simp

end

section \<open>State machines with an invariant\<close>

locale invariant_machine =
  fixes step :: "'s \<Rightarrow> 'e \<Rightarrow> 's"
    and inv :: "'s \<Rightarrow> bool"
    and legal :: "'s \<Rightarrow> 'e \<Rightarrow> bool"
  assumes step_inv: "inv s \<Longrightarrow> legal s e \<Longrightarrow> inv (step s e)"
begin

fun run :: "'s \<Rightarrow> 'e list \<Rightarrow> 's" where
  "run s [] = s"
| "run s (e # es) = run (step s e) es"

fun legal_run :: "'s \<Rightarrow> 'e list \<Rightarrow> bool" where
  "legal_run s [] = True"
| "legal_run s (e # es) = (legal s e \<and> legal_run (step s e) es)"

lemma run_foldl: "run s es = foldl step s es"
  by (induction es arbitrary: s) auto

lemma run_inv: "inv s \<Longrightarrow> legal_run s es \<Longrightarrow> inv (run s es)"
  by (induction es arbitrary: s) (auto intro: step_inv)

lemma run_inv_foldl: "inv s \<Longrightarrow> (\<And>t e. e \<in> set es \<Longrightarrow> legal t e) \<Longrightarrow> inv (foldl step s es)"
  by (induction es arbitrary: s) (auto intro: step_inv)

end

end
