(* ===== verification/Aprs_Digipeat.thy ===== *)
theory Aprs_Digipeat
  imports Aprs_Igate Interfaces
begin

text \<open>
  The "new n-N paradigm" digipeater: \<open>packages/aprs/src/digipeat.ts\<close>. The frames are those of the
  monitor line parser; the suppression of duplicates is the caller's (\<open>Dedupe\<close>).
\<close>

section \<open>Hops\<close>

record digi_hop =
  dh_call :: string
  dh_used :: bool

definition MAX_DIGIS :: nat where
  "MAX_DIGIS = 8"

text \<open>\<open>/^[A-Z]{1,5}[1-7]$/\<close>, the pattern of the path reader.\<close>

definition digi_generic :: "string \<Rightarrow> bool" where
  "digi_generic alias = is_nN alias"

text \<open>
  \<open>call.split("-")\<close>: the part before the first dash and the part up to the next one. A part that is no
  number counts as 0, as does an absent one.
\<close>

definition parse_nn :: "string \<Rightarrow> string \<times> int" where
  "parse_nn call =
     (case split_on (CHR ''-'') call of
        [] \<Rightarrow> ([], 0)
      | [base] \<Rightarrow> (js_upper base, 0)
      | base # ss # _ \<Rightarrow> (js_upper base, case js_number ss of None \<Rightarrow> 0 | Some n \<Rightarrow> n))"

definition hop_text :: "digi_hop \<Rightarrow> string" where
  "hop_text h = dh_call h @ (if dh_used h then ''*'' else [])"

definition digi_rebuild :: "parsed_frame \<Rightarrow> digi_hop list \<Rightarrow> parsed_frame" where
  "digi_rebuild f hops =
     (let path = map hop_text hops
      in \<lparr>pf_src = pf_src f, pf_dst = pf_dst f, pf_path = path, pf_payload = pf_payload f,
          pf_raw = pf_src f @ ''>'' @ pf_dst f @ (if path = [] then [] else '','' @ join_with '','' path) @ '':'' @ pf_payload f\<rparr>)"

record digi_opts =
  do_mycall :: string
  do_aliases :: "string list option"

definition read_hop :: "string \<Rightarrow> digi_hop" where
  "read_hop p = \<lparr>dh_call = drop_star p, dh_used = has_star p\<rparr>"

section \<open>The repeat\<close>

text \<open>The place of the first hop without its mark.\<close>

definition first_unused :: "digi_hop list \<Rightarrow> nat option" where
  "first_unused hops = (let i = length (takeWhile dh_used hops) in if i < length hops then Some i else None)"

text \<open>\<open>hops.splice(i, 0, h)\<close>.\<close>

definition insert_at :: "nat \<Rightarrow> 'a \<Rightarrow> 'a list \<Rightarrow> 'a list" where
  "insert_at i h hops = take i hops @ h # drop i hops"

definition digi_repeat :: "parsed_frame \<Rightarrow> digi_opts \<Rightarrow> parsed_frame option" where
  "digi_repeat f opts =
     (let mycall = js_upper (do_mycall opts);
          aliases = (case do_aliases opts of None \<Rightarrow> [''WIDE1'', ''WIDE2''] | Some a \<Rightarrow> a)
      in if same_station (pf_src f) mycall then None
         else let hops = map read_hop (pf_path f)
         in if (\<exists>h\<in>set hops. dh_used h \<and> same_station (dh_call h) mycall) then None
         else case first_unused hops of
           None \<Rightarrow> None
         | Some i \<Rightarrow>
             let hop = hops ! i; (base, ssid) = parse_nn (dh_call hop)
             in if same_station (dh_call hop) mycall
                   \<or> (\<exists>a\<in>set aliases. \<not> digi_generic (js_upper a) \<and> same_station (dh_call hop) a)
                then Some (digi_rebuild f (hops[i := \<lparr>dh_call = mycall, dh_used = True\<rparr>]))
                else if digi_generic base \<and> base \<in> set aliases \<and> 1 \<le> ssid
                then if int (digits_value [last base]) < ssid then None
                     else if ssid = 1 then Some (digi_rebuild f (hops[i := \<lparr>dh_call = mycall, dh_used = True\<rparr>]))
                     else let hops = hops[i := \<lparr>dh_call = base @ ''-'' @ nat_str (nat (ssid - 1)), dh_used = False\<rparr>]
                          in Some (digi_rebuild f (if length hops < MAX_DIGIS
                                                   then insert_at i \<lparr>dh_call = mycall, dh_used = True\<rparr> hops else hops))
                else None)"

definition digi_dedupe_key :: "parsed_frame \<Rightarrow> string" where
  "digi_dedupe_key f = js_upper (pf_src f) @ ''>'' @ hd (split_on (CHR ''-'') (js_upper (pf_dst f))) @ '':'' @ pf_payload f"

section \<open>What a repeat does to the path\<close>

definition well_read :: "digi_hop \<Rightarrow> bool" where
  "well_read h = (dh_used h \<or> \<not> has_star (dh_call h))"

lemma read_hop_text: "well_read h \<Longrightarrow> read_hop (hop_text h) = h"
  by (cases h) (auto simp: well_read_def read_hop_def hop_text_def has_star_def drop_star_def)

lemma hop_text_read: "hop_text (read_hop p) = p"
  by (cases p rule: rev_cases) (simp_all add: hop_text_def read_hop_def has_star_def drop_star_def)

lemma read_hop_well [simp]: "well_read (read_hop p)"
  by (auto simp: well_read_def read_hop_def has_star_def drop_star_def)

text \<open>The hops a frame asks for: the N of a request n-N, one for a station or an alias.\<close>

definition hop_weight :: "digi_hop \<Rightarrow> nat" where
  "hop_weight h = (if dh_used h then 0 else let (base, ssid) = parse_nn (dh_call h) in if 1 \<le> ssid then nat ssid else 1)"

definition path_weight :: "string list \<Rightarrow> nat" where
  "path_weight path = sum_list (map (hop_weight \<circ> read_hop) path)"

lemma first_unused_split:
  assumes "first_unused hops = Some i"
  shows "\<exists>us h rest. hops = us @ h # rest \<and> i = length us \<and> (\<forall>u\<in>set us. dh_used u) \<and> \<not> dh_used h"
proof -
  let ?us = "takeWhile dh_used hops"
  have i: "i = length ?us" "length ?us < length hops" using assms by (simp_all add: first_unused_def Let_def split: if_splits)
  then obtain h rest where d: "dropWhile dh_used hops = h # rest"
    by (metis append_Nil2 less_irrefl neq_Nil_conv takeWhile_dropWhile_id)
  then have "hops = ?us @ h # rest" by (metis takeWhile_dropWhile_id)
  moreover have "\<not> dh_used h" using d by (metis hd_dropWhile list.distinct(1) list.sel(1))
  ultimately show ?thesis using i(1) set_takeWhileD by metis
qed

definition marked :: "string \<Rightarrow> digi_hop" where
  "marked call = \<lparr>dh_call = call, dh_used = True\<rparr>"

definition decremented :: "string \<Rightarrow> int \<Rightarrow> digi_hop" where
  "decremented base ssid = \<lparr>dh_call = base @ ''-'' @ nat_str (nat (ssid - 1)), dh_used = False\<rparr>"

text \<open>
  What a repeat leaves of the frame: the hops before the first open one as they were, then the station's mark
  in place of the open hop, or the open request counted down with the mark before it while there is room.
\<close>

definition repeats_to :: "parsed_frame \<Rightarrow> digi_opts \<Rightarrow> digi_hop list \<Rightarrow> digi_hop \<Rightarrow> digi_hop list \<Rightarrow> digi_hop list \<Rightarrow> bool" where
  "repeats_to f opts us h rest hops =
     (let me = marked (js_upper (do_mycall opts)); (base, ssid) = parse_nn (dh_call h)
      in map read_hop (pf_path f) = us @ h # rest \<and> (\<forall>u\<in>set us. dh_used u) \<and> \<not> dh_used h
         \<and> \<not> same_station (pf_src f) (js_upper (do_mycall opts))
         \<and> (\<forall>u\<in>set (us @ rest). dh_used u \<longrightarrow> \<not> same_station (dh_call u) (js_upper (do_mycall opts)))
         \<and> (hops = us @ me # rest
            \<or> (is_nN base \<and> 1 < ssid \<and> ssid \<le> 7
               \<and> hops = us @ (if length (pf_path f) < MAX_DIGIS then [me] else []) @ decremented base ssid # rest)))"

lemma digits_last: "is_nN b \<Longrightarrow> digits_value [last b] \<le> 7"
  by (auto simp: is_nN_def digits_value_def)

lemma digi_repeat_inv:
  assumes "digi_repeat f opts = Some g"
  shows "\<exists>us h rest hops. repeats_to f opts us h rest hops \<and> g = digi_rebuild f hops"
proof -
  let ?me = "js_upper (do_mycall opts)" and ?hops = "map read_hop (pf_path f)"
  obtain i where i: "first_unused ?hops = Some i"
    using assms by (auto simp: digi_repeat_def Let_def split: if_splits option.splits)
  obtain us h rest where s: "?hops = us @ h # rest" "i = length us" "\<forall>u\<in>set us. dh_used u" "\<not> dh_used h"
    using first_unused_split [OF i] by blast
  obtain base ssid where nn: "parse_nn (dh_call h) = (base, ssid)" by fastforce
  have own: "\<not> same_station (pf_src f) ?me" "\<not> (\<exists>h\<in>set ?hops. dh_used h \<and> same_station (dh_call h) ?me)"
    using assms by (auto simp: digi_repeat_def Let_def split: if_splits)
  have at: "?hops ! i = h" "?hops[i := x] = us @ x # rest" "insert_at i x (us @ y # rest) = us @ x # y # rest" for x y
    by (simp_all add: s insert_at_def)
  have own': "\<forall>u\<in>set (us @ rest). dh_used u \<longrightarrow> \<not> same_station (dh_call u) ?me" using own(2) unfolding s(1) by auto
  have len: "length (us @ x # rest) = length (pf_path f)" for x
    using arg_cong [OF s(1), of length] by simp
  note repeat = assms [unfolded digi_repeat_def Let_def if_not_P [OF own(1)] if_not_P [OF own(2)] i option.case at nn prod.case
      insert_at_def [symmetric] len]
  have "(g = digi_rebuild f (us @ marked ?me # rest)) \<or>
    (is_nN base \<and> 1 < ssid \<and> ssid \<le> int (digits_value [last base]) \<and>
     g = digi_rebuild f (us @ (if length (pf_path f) < MAX_DIGIS then [marked ?me] else []) @ decremented base ssid # rest))"
    using repeat by (auto simp: marked_def decremented_def digi_generic_def split: if_splits)
  then show ?thesis
  proof
    assume g: "g = digi_rebuild f (us @ marked ?me # rest)"
    have "repeats_to f opts us h rest (us @ marked ?me # rest)"
      unfolding repeats_to_def Let_def nn prod.case using s own(1) own' by blast
    then show ?thesis using g by blast
  next
    let ?h = "us @ (if length (pf_path f) < MAX_DIGIS then [marked ?me] else []) @ decremented base ssid # rest"
    assume d: "is_nN base \<and> 1 < ssid \<and> ssid \<le> int (digits_value [last base]) \<and> g = digi_rebuild f ?h"
    then have "ssid \<le> 7" using digits_last [of base] by linarith
    then have "repeats_to f opts us h rest ?h"
      unfolding repeats_to_def Let_def nn prod.case using s own(1) own' d by blast
    then show ?thesis using d by blast
  qed
qed

lemma repeated_hops:
  assumes "repeats_to f opts us h rest hops" "g = digi_rebuild f hops"
  shows "map read_hop (pf_path g) = hops" "pf_src g = pf_src f" "pf_dst g = pf_dst f" "pf_payload g = pf_payload f"
proof -
  have "\<forall>x\<in>set (us @ h # rest). well_read x"
  proof -
    have "us @ h # rest = map read_hop (pf_path f)" using assms(1) by (simp add: repeats_to_def Let_def split: prod.splits)
    then show ?thesis by (metis imageE list.set_map read_hop_well)
  qed
  moreover have "well_read (marked c)" "well_read (decremented b n)" for c b n
    using nat_str_digits [of "last (nat_str (nat (n - 1)))" "nat (n - 1)"]
    by (auto simp: well_read_def marked_def decremented_def has_star_def is_digit_def char_code_def)
  ultimately have "\<forall>x\<in>set hops. well_read x"
    using assms(1) by (auto simp: repeats_to_def Let_def split: prod.splits if_splits)
  then have "map (read_hop \<circ> hop_text) hops = hops" using read_hop_text by (intro map_idI) simp
  then show "map read_hop (pf_path g) = hops" by (simp add: assms(2) digi_rebuild_def Let_def)
  show "pf_src g = pf_src f" "pf_dst g = pf_dst f" "pf_payload g = pf_payload f"
    by (simp_all add: assms(2) digi_rebuild_def Let_def)
qed

lemma is_nN_chars: "is_nN b \<Longrightarrow> CHR ''-'' \<notin> set b \<and> js_upper b = b"
proof -
  assume b: "is_nN b"
  then have "b = butlast b @ [last b]" by (metis append_butlast_last_id is_nN_def list.size(3) not_numeral_le_zero)
  then have "set b = set (butlast b) \<union> {last b}" by (metis Un_insert_right list.set(1) list.set(2) set_append)
  then have "\<forall>c\<in>set b. 49 \<le> char_code c \<and> char_code c \<le> 90" using b by (fastforce simp: is_nN_def is_capital_def)
  then show ?thesis by (auto simp: js_upper_def upper_char_def char_code_def intro!: map_idI)
qed

lemma parse_decremented: "is_nN b \<Longrightarrow> parse_nn (dh_call (decremented b n)) = (b, max 0 (n - 1))"
proof -
  assume b: "is_nN b"
  have "CHR ''-'' \<notin> set (nat_str (nat (n - 1)))" using nat_str_digits by (fastforce simp: is_digit_def char_code_def)
  then have "split_on (CHR ''-'') (b @ CHR ''-'' # nat_str (nat (n - 1))) = [b, nat_str (nat (n - 1))]"
    using is_nN_chars [OF b] by (simp add: split_on_append split_on_none)
  then show ?thesis using is_nN_chars [OF b] by (simp add: parse_nn_def decremented_def max_def)
qed

lemma path_weight_hops: "path_weight path = sum_list (map hop_weight (map read_hop path))"
  by (simp add: path_weight_def)

lemma digi_repeat_spends: "digi_repeat f opts = Some g \<Longrightarrow> path_weight (pf_path g) < path_weight (pf_path f)"
proof -
  assume "digi_repeat f opts = Some g"
  then obtain us h rest hops where r: "repeats_to f opts us h rest hops" "g = digi_rebuild f hops"
    using digi_repeat_inv by blast
  obtain b n where nn: "parse_nn (dh_call h) = (b, n)" by fastforce
  have f: "map read_hop (pf_path f) = us @ h # rest" "\<not> dh_used h"
    using r(1) by (simp_all add: repeats_to_def Let_def split: prod.splits)
  have w: "hop_weight (marked c) = 0" for c by (simp add: hop_weight_def marked_def)
  have d: "is_nN b \<Longrightarrow> 1 < n \<Longrightarrow> hop_weight (decremented b n) < hop_weight h"
    using f(2) parse_decremented [of b n] by (simp add: hop_weight_def nn)
  have pos: "0 < hop_weight h" using f(2) by (simp add: hop_weight_def nn)
  show ?thesis unfolding path_weight_hops repeated_hops(1) [OF r] f(1)
    using r(1) d pos by (auto simp: repeats_to_def nn w Let_def)
qed

text \<open>A frame passing from station to station, each repeating what it hears of the one before.\<close>

fun digi_chain :: "parsed_frame \<Rightarrow> digi_opts list \<Rightarrow> parsed_frame option" where
  "digi_chain f [] = Some f"
| "digi_chain f (o1 # os) = (case digi_repeat f o1 of None \<Rightarrow> None | Some g \<Rightarrow> digi_chain g os)"

lemma chain_spends: "digi_chain f os = Some g \<Longrightarrow> length os + path_weight (pf_path g) \<le> path_weight (pf_path f)"
proof (induction f os rule: digi_chain.induct)
  case (2 f o1 os)
  then obtain h where h: "digi_repeat f o1 = Some h" "digi_chain h os = Some g" by (auto split: option.splits)
  then show ?case using 2(1) digi_repeat_spends [OF h(1)] by fastforce
qed simp

interpretation digipeaters: repeater "\<lambda>opts f. digi_repeat f opts" "\<lambda>f. path_weight (pf_path f)"
  by unfold_locales (rule digi_repeat_spends)

text \<open>C15: 
  On a shared channel, where every one of any number of digipeaters hears every copy of a frame and repeats each it may,
  whatever aliases they serve, the repeating ends: after as many rounds as the path of the frame asks for (one for each
  station or alias named, N for each open request n-N) nothing more is sent, and with \<open>k\<close> stations and \<open>w\<close> such hops
  at most \<open>k + k^2 + ... + k^w\<close> copies have been sent, even if no station suppresses a duplicate.
\<close>

theorem digipeating_ends:
  "flood (\<lambda>opts f. digi_repeat f opts) stations (path_weight (pf_path f) + n) f
     = flood (\<lambda>opts f. digi_repeat f opts) stations (path_weight (pf_path f)) f
   \<and> length (flood (\<lambda>opts f. digi_repeat f opts) stations n f) \<le> storm_bound (length stations) (path_weight (pf_path f))"
  by (intro conjI digipeaters.flood_ends digipeaters.flood_bounded)

text \<open>The mark a station leaves stays in the path.\<close>

definition carries_mark :: "parsed_frame \<Rightarrow> digi_opts \<Rightarrow> bool" where
  "carries_mark f opts = (marked (js_upper (do_mycall opts)) \<in> set (map read_hop (pf_path f)))"

lemma repeat_leaves_mark:
  assumes "digi_repeat f opts = Some g" "length (pf_path f) < MAX_DIGIS"
  shows "carries_mark g opts"
proof -
  obtain us h rest hops where r: "repeats_to f opts us h rest hops" "g = digi_rebuild f hops"
    using digi_repeat_inv [OF assms(1)] by blast
  then show ?thesis using assms(2)
    unfolding carries_mark_def repeated_hops(1) [OF r] by (auto simp: repeats_to_def Let_def split: prod.splits)
qed

lemma repeat_keeps_mark:
  assumes "digi_repeat f o2 = Some g" "carries_mark f opts"
  shows "carries_mark g opts"
proof -
  obtain us h rest hops where r: "repeats_to f o2 us h rest hops" "g = digi_rebuild f hops"
    using digi_repeat_inv [OF assms(1)] by blast
  let ?m = "marked (js_upper (do_mycall opts))"
  have f: "map read_hop (pf_path f) = us @ h # rest" "\<not> dh_used h" "set us \<union> set rest \<subseteq> set hops"
    using r(1) by (auto simp: repeats_to_def Let_def split: prod.splits)
  moreover have "?m \<in> set us \<union> set rest" using assms(2) f(2) unfolding carries_mark_def f(1) by (auto simp: marked_def)
  ultimately show ?thesis unfolding carries_mark_def repeated_hops(1) [OF r] by blast
qed

lemma chain_keeps_mark: "digi_chain f os = Some g \<Longrightarrow> carries_mark f opts \<Longrightarrow> carries_mark g opts"
  by (induction f os rule: digi_chain.induct) (auto dest: repeat_keeps_mark split: option.splits)

lemma marked_not_repeated: "carries_mark f opts \<Longrightarrow> digi_repeat f opts = None"
proof -
  assume "carries_mark f opts"
  then have "\<exists>h\<in>set (map read_hop (pf_path f)). dh_used h \<and> same_station (dh_call h) (js_upper (do_mycall opts))"
    unfolding carries_mark_def by (rule bexI [rotated]) (simp add: marked_def same_station_equiv(1))
  then show ?thesis by (simp only: digi_repeat_def Let_def if_True if_cancel)
qed

lemma repeat_keeps_key: "digi_repeat f opts = Some g \<Longrightarrow> digi_dedupe_key g = digi_dedupe_key f"
  using digi_repeat_inv [of f opts g] repeated_hops(2-4) by (fastforce simp: digi_dedupe_key_def)

lemma chain_keeps_key: "digi_chain f os = Some g \<Longrightarrow> digi_dedupe_key g = digi_dedupe_key f"
  by (induction f os rule: digi_chain.induct) (auto dest: repeat_keeps_key split: option.splits)

text \<open>C40: 
  A station repeats a frame with room for its mark at most once: whoever repeats it afterwards and however
  often, the station leaves every later copy alone. The frame keeps its duplicate key on the way.
\<close>

theorem repeats_a_frame_once:
  assumes "digi_repeat f opts = Some g" "length (pf_path f) < MAX_DIGIS" "digi_chain g os = Some later"
  shows "digi_repeat later opts = None \<and> digi_dedupe_key later = digi_dedupe_key f"
proof
  have "carries_mark later opts" using chain_keeps_mark [OF assms(3)] repeat_leaves_mark [OF assms(1,2)] .
  then show "digi_repeat later opts = None" by (rule marked_not_repeated)
  show "digi_dedupe_key later = digi_dedupe_key f"
    using repeat_keeps_key [OF assms(1)] chain_keeps_key [OF assms(3)] by simp
qed

lemma repeats_a_frame_once_witness:
  "digi_repeat \<lparr>pf_src = ''OE6ABC-9'', pf_dst = ''APRS'', pf_path = [''OE6XGR-2*'', ''OE6XVR-2*'', ''WIDE3-1''], pf_payload = ''>hi'',
      pf_raw = ''OE6ABC-9>APRS,OE6XGR-2*,OE6XVR-2*,WIDE3-1:>hi''\<rparr> \<lparr>do_mycall = ''OE6XGR-2'', do_aliases = Some [''WIDE3'']\<rparr> = None"
proof -
  let ?f = "\<lparr>pf_src = ''OE6ABC-9'', pf_dst = ''APRS'', pf_path = [''WIDE3-3''], pf_payload = ''>hi'', pf_raw = []\<rparr>"
  let ?g = "\<lparr>pf_src = ''OE6ABC-9'', pf_dst = ''APRS'', pf_path = [''OE6XGR-2*'', ''WIDE3-2''], pf_payload = ''>hi'',
      pf_raw = ''OE6ABC-9>APRS,OE6XGR-2*,WIDE3-2:>hi''\<rparr>"
  have r: "digi_repeat ?f \<lparr>do_mycall = ''OE6XGR-2'', do_aliases = Some [''WIDE3'']\<rparr> = Some ?g" by code_simp
  have l: "length (pf_path ?f) < MAX_DIGIS" by (simp add: MAX_DIGIS_def)
  have c: "digi_chain ?g [\<lparr>do_mycall = ''oe6xvr-2'', do_aliases = Some [''WIDE3'']\<rparr>] =
    Some \<lparr>pf_src = ''OE6ABC-9'', pf_dst = ''APRS'', pf_path = [''OE6XGR-2*'', ''OE6XVR-2*'', ''WIDE3-1''], pf_payload = ''>hi'',
      pf_raw = ''OE6ABC-9>APRS,OE6XGR-2*,OE6XVR-2*,WIDE3-1:>hi''\<rparr>" by code_simp
  show ?thesis using repeats_a_frame_once [OF r l c] by (rule conjunct1)
qed

section \<open>A request n-N travels N hops\<close>

text \<open>A station of the flood: a plain callsign that is no request, and not the sender.\<close>

definition flood_station :: "string \<Rightarrow> string \<Rightarrow> bool" where
  "flood_station src call = (clean_call call \<and> js_upper call = call \<and> \<not> same_station src call \<and> \<not> is_nN (base_call call))"

definition wide_request :: "string \<Rightarrow> nat \<Rightarrow> string" where
  "wide_request b n = b @ ''-'' @ nat_str n"

definition traced :: "string list \<Rightarrow> string list" where
  "traced calls = map (\<lambda>c. c @ ''*'') calls"

lemma nat_str_chars: "\<forall>c\<in>set (nat_str n). hop_char c"
  using nat_str_digits by (auto simp: hop_char_def)

lemma wide_request_clean: "is_nN b \<Longrightarrow> clean_call (wide_request b n)"
proof -
  assume b: "is_nN b"
  then have "b = butlast b @ [last b]" by (metis append_butlast_last_id is_nN_def list.size(3) not_numeral_le_zero)
  then have "set b = set (butlast b) \<union> {last b}" by (metis Un_insert_right list.set(1) list.set(2) set_append sup_bot.right_neutral)
  moreover have "hop_char (last b)" "\<forall>c\<in>set (butlast b). hop_char c" using b by (auto simp: is_nN_def hop_char_def is_digit_def)
  ultimately have "\<forall>c\<in>set b. hop_char c" by auto
  then show ?thesis using nat_str_chars [of n] by (auto simp: clean_call_def wide_request_def hop_char_def)
qed

lemma clean_no_star: "clean_call c \<Longrightarrow> \<not> has_star c \<and> drop_star c = c"
  using hop_char_facts last_in_set by (fastforce simp: clean_call_def drop_star_def has_star_def)

lemma base_of_wide: "is_nN b \<Longrightarrow> base_call (wide_request b n) = b"
proof -
  assume b: "is_nN b"
  note c = wide_request_clean [OF b, of n]
  have "js_trim (wide_request b n) = wide_request b n" using c clean_no_star [OF c] clean_call_facts(1) by metis
  moreover have "js_upper (wide_request b n) = b @ CHR ''-'' # js_upper (nat_str n)"
    using is_nN_chars [OF b] by (simp add: wide_request_def js_upper_def upper_char_def char_code_def)
  ultimately show ?thesis
    using is_nN_chars [OF b] clean_no_star [OF c] by (simp add: base_call_def split_on_append)
qed

lemma hd_split_on: "hd (split_on c s) = takeWhile (\<lambda>x. x \<noteq> c) s"
proof (induction s)
  case (Cons x s)
  then show ?case by (cases "split_on c s") simp_all
qed simp

lemma base_drop_ssid0: "hd (split_on (CHR ''-'') (drop_ssid0 s)) = hd (split_on (CHR ''-'') s)"
proof (cases "length s \<ge> 2 \<and> drop (length s - 2) s = ''-0''")
  case True
  then obtain t where t: "s = t @ ''-0''" by (metis append_take_drop_id)
  then have "drop_ssid0 s = t" by (simp add: drop_ssid0_def)
  moreover have "takeWhile (\<lambda>x. x \<noteq> CHR ''-'') s = takeWhile (\<lambda>x. x \<noteq> CHR ''-'') t"
    unfolding t by (rule takeWhile_tail) simp
  ultimately show ?thesis by (simp add: hd_split_on)
next
  case False
  then have "drop_ssid0 s = s" unfolding drop_ssid0_def by (rule if_not_P)
  then show ?thesis by simp
qed

lemma same_station_base: "same_station a b \<Longrightarrow> base_call a = base_call b"
  unfolding same_station_def base_call_def Let_def using base_drop_ssid0 by metis

definition flood_path :: "string \<Rightarrow> string list \<Rightarrow> nat \<Rightarrow> string list" where
  "flood_path b pre n = traced pre @ (if n = 0 then [] else [wide_request b n])"

lemma flood_hops:
  assumes "is_nN b"
  shows "\<forall>c\<in>set pre. clean_call c \<Longrightarrow> map read_hop (flood_path b pre (Suc n)) = map marked pre @ [\<lparr>dh_call = wide_request b (Suc n), dh_used = False\<rparr>]"
proof -
  have "read_hop (c @ ''*'') = marked c" for c by (simp add: read_hop_def marked_def has_star_def drop_star_def)
  then show ?thesis using clean_no_star [OF wide_request_clean [OF assms]]
    by (simp add: flood_path_def traced_def read_hop_def [of "wide_request b (Suc n)"])
qed

lemma first_unused_marked: "\<not> dh_used h \<Longrightarrow> first_unused (map marked pre @ [h]) = Some (length pre)"
proof -
  assume "\<not> dh_used h"
  moreover have "\<forall>x\<in>set (map marked pre). dh_used x" by (simp add: marked_def)
  ultimately have "takeWhile dh_used (map marked pre @ [h]) = map marked pre" by (subst takeWhile_append2) auto
  then show ?thesis by (simp add: first_unused_def)
qed

lemma parse_wide: "is_nN b \<Longrightarrow> parse_nn (wide_request b n) = (b, int n)"
  using parse_decremented [of b "int n + 1"] by (simp add: decremented_def wide_request_def)

lemma flood_step:
  assumes b: "is_nN b" "Suc n \<le> digits_value [last b]" and room: "length pre + Suc n \<le> 7"
    and f: "pf_path f = flood_path b pre (Suc n)" and pre: "\<forall>c\<in>set pre. clean_call c \<and> \<not> same_station c me"
    and me: "flood_station (pf_src f) me" and al: "b \<in> set al" "\<forall>a\<in>set al. is_nN (js_upper a)"
  shows "\<exists>g. digi_repeat f \<lparr>do_mycall = me, do_aliases = Some al\<rparr> = Some g \<and> pf_src g = pf_src f \<and> pf_path g = flood_path b (pre @ [me]) n"
proof -
  let ?o = "\<lparr>do_mycall = me, do_aliases = Some al\<rparr>"
  let ?h = "\<lparr>dh_call = wide_request b (Suc n), dh_used = False\<rparr>"
  have up: "js_upper me = me" and src: "\<not> same_station (pf_src f) me" using me by (simp_all add: flood_station_def)
  have hops: "map read_hop (pf_path f) = map marked pre @ [?h]" unfolding f using b(1) pre by (intro flood_hops) auto
  have own: "\<not> (\<exists>h\<in>set (map marked pre @ [?h]). dh_used h \<and> same_station (dh_call h) me)" using pre by (auto simp: marked_def)
  have i: "first_unused (map marked pre @ [?h]) = Some (length pre)" by (rule first_unused_marked) simp
  have at: "(map marked pre @ [?h]) ! length pre = ?h" "(map marked pre @ [?h])[length pre := x] = map marked pre @ [x]"
    "insert_at (length pre) x (map marked pre @ [y]) = map marked pre @ [x, y]" for x y
    using nth_append_length [of "map marked pre" ?h "[]"] list_update_length [of "map marked pre" ?h "[]" x]
    by (simp_all add: insert_at_def)
  have other: "\<not> (same_station (wide_request b (Suc n)) me \<or> (\<exists>a\<in>set al. \<not> digi_generic (js_upper a) \<and> same_station (wide_request b (Suc n)) a))"
    using me same_station_base [of "wide_request b (Suc n)" me] base_of_wide [OF b(1)] b(1) al(2)
    by (auto simp: flood_station_def digi_generic_def)
  have tr: "map hop_text (map marked xs) = traced xs" for xs by (simp add: hop_text_def marked_def traced_def)
  have wt: "hop_text \<lparr>dh_call = b @ ''-'' @ nat_str n, dh_used = False\<rparr> = wide_request b n" by (simp add: hop_text_def wide_request_def)
  let ?hops = "if n = 0 then map marked (pre @ [me]) else map marked (pre @ [me]) @ [\<lparr>dh_call = b @ ''-'' @ nat_str n, dh_used = False\<rparr>]"
  have "digi_repeat f ?o = Some (digi_rebuild f ?hops)"
    unfolding digi_repeat_def Let_def digi_opts.simps up hops option.case i at digi_hop.simps parse_wide [OF b(1)] prod.case
      if_not_P [OF src] if_not_P [OF own] if_not_P [OF other]
    using al(1) b room by (simp add: digi_generic_def marked_def MAX_DIGIS_def)
  moreover have "map hop_text ?hops = flood_path b (pre @ [me]) n"
    by (simp add: flood_path_def wt tr [of "pre @ [me]", simplified] traced_def)
       (simp add: hop_text_def marked_def wide_request_def)
  ultimately show ?thesis by (simp add: digi_rebuild_def Let_def)
qed

lemma flood_chain:
  assumes b: "is_nN b" "\<forall>a\<in>set al. is_nN (js_upper a)" "b \<in> set al"
  shows "n \<le> digits_value [last b] \<Longrightarrow> length pre + n \<le> 7 \<Longrightarrow> length calls \<le> n \<Longrightarrow>
    pf_path f = flood_path b pre n \<Longrightarrow> \<forall>c\<in>set calls. flood_station (pf_src f) c \<Longrightarrow> \<forall>c\<in>set pre. clean_call c \<Longrightarrow>
    sorted_wrt (\<lambda>c d. \<not> same_station c d) (pre @ calls) \<Longrightarrow>
    \<exists>g. digi_chain f (map (\<lambda>c. \<lparr>do_mycall = c, do_aliases = Some al\<rparr>) calls) = Some g \<and> pf_path g = flood_path b (pre @ calls) (n - length calls)"
proof (induction calls arbitrary: f pre n)
  case (Cons c calls)
  then obtain m where n: "n = Suc m" by (cases n) simp_all
  obtain g where g: "digi_repeat f \<lparr>do_mycall = c, do_aliases = Some al\<rparr> = Some g" "pf_src g = pf_src f"
    "pf_path g = flood_path b (pre @ [c]) m"
    using flood_step [of b m pre f c al] b Cons.prems by (auto simp: n sorted_wrt_append)
  have "\<exists>h. digi_chain g (map (\<lambda>c. \<lparr>do_mycall = c, do_aliases = Some al\<rparr>) calls) = Some h
      \<and> pf_path h = flood_path b ((pre @ [c]) @ calls) (m - length calls)"
    using Cons.prems g(2,3) by (intro Cons.IH) (auto simp: n flood_station_def)
  then show ?case using g(1) by (simp add: n)
qed simp

text \<open>
  A request n-N goes exactly N hops: each of up to N different stations that serve the prefix repeats the frame,
  leaves its call in the path in the order the frame went and one hop fewer in the request; the last one takes
  the request's place, and after it no station with such aliases repeats the frame again.
\<close>

theorem request_travels_n_hops:
  assumes b: "is_nN b" "b \<in> set al" "\<forall>a\<in>set al. is_nN (js_upper a)" and n: "n \<le> digits_value [last b]"
    and f: "pf_path f = [wide_request b n]" "0 < n"
    and calls: "length calls \<le> n" "\<forall>c\<in>set calls. flood_station (pf_src f) c" "sorted_wrt (\<lambda>c d. \<not> same_station c d) calls"
  shows "\<exists>g. digi_chain f (map (\<lambda>c. \<lparr>do_mycall = c, do_aliases = Some al\<rparr>) calls) = Some g
      \<and> pf_path g = map (\<lambda>c. c @ ''*'') calls @ (if length calls = n then [] else [wide_request b (n - length calls)])
      \<and> (length calls = n \<longrightarrow> (\<forall>opts. digi_repeat g opts = None))"
proof -
  obtain g where g: "digi_chain f (map (\<lambda>c. \<lparr>do_mycall = c, do_aliases = Some al\<rparr>) calls) = Some g"
    "pf_path g = flood_path b calls (n - length calls)"
    using flood_chain [OF b(1,3,2) n, of "[]" calls f] f calls n digits_last [OF b(1)] by (auto simp: flood_path_def traced_def)
  have "digi_repeat g opts = None" if "length calls = n" for opts
  proof (rule ccontr)
    assume "digi_repeat g opts \<noteq> None"
    then obtain us h rest hops where "repeats_to g opts us h rest hops" using digi_repeat_inv by (metis not_None_eq)
    then have "h \<in> set (map read_hop (traced calls))" "\<not> dh_used h"
      using g(2) that by (auto simp: repeats_to_def flood_path_def Let_def split: prod.splits)
    then show False by (auto simp: traced_def read_hop_def has_star_def)
  qed
  then show ?thesis using g calls(1) by (auto simp: flood_path_def traced_def)
qed

lemma request_travels_n_hops_witness:
  "\<exists>g. digi_chain \<lparr>pf_src = ''OE6ABC-9'', pf_dst = ''APRS'', pf_path = [wide_request ''WIDE2'' 2], pf_payload = ''>hi'', pf_raw = []\<rparr>
      (map (\<lambda>c. \<lparr>do_mycall = c, do_aliases = Some [''WIDE1'', ''WIDE2'']\<rparr>) [''OE6XGR-2'', ''OE6XVR-2'']) = Some g
    \<and> pf_path g = [''OE6XGR-2*'', ''OE6XVR-2*'']"
proof -
  let ?f = "\<lparr>pf_src = ''OE6ABC-9'', pf_dst = ''APRS'', pf_path = [wide_request ''WIDE2'' 2], pf_payload = ''>hi'', pf_raw = []\<rparr>"
  have c: "is_nN ''WIDE2''" "\<forall>a\<in>set [''WIDE1'', ''WIDE2'']. is_nN (js_upper a)" "2 \<le> digits_value [last ''WIDE2'']"
    "\<forall>c\<in>set [''OE6XGR-2'', ''OE6XVR-2'']. flood_station ''OE6ABC-9'' c" "\<not> same_station ''OE6XGR-2'' ''OE6XVR-2''"
    by code_simp+
  then show ?thesis
    using request_travels_n_hops [of "''WIDE2''" "[''WIDE1'', ''WIDE2'']" 2 ?f "[''OE6XGR-2'', ''OE6XVR-2'']"] by auto
qed

end
