(* ===== verification/Aprs_Message.thy ===== *)
theory Aprs_Message
  imports Aprs_Igate
begin

text \<open>
  APRS messages: the encoder (\<open>packages/aprs/src/encode.ts\<close> with \<open>text.ts\<close>), the message branch of the
  decoder (\<open>decode.ts\<close>) and the reading of acknowledgements (\<open>ackOf\<close> of \<open>msgretry.ts\<close>). The regular
  expressions are written out: each of their runs ends at a character its class does not hold, so the
  longest run is the only one that can match.
\<close>

section \<open>Text on the air\<close>

text \<open>The UTF-8 length of a character up to \<open>U+00FF\<close>.\<close>

definition rf_width :: "char \<Rightarrow> nat" where
  "rf_width c = (if char_code c < 0x80 then 1 else 2)"

fun rf_clip_from :: "nat \<Rightarrow> nat \<Rightarrow> string \<Rightarrow> string" where
  "rf_clip_from n max_bytes [] = []"
| "rf_clip_from n max_bytes (c # s) =
     (let n = n + rf_width c in if max_bytes < n then [] else c # rf_clip_from n max_bytes s)"

definition rf_clip :: "string \<Rightarrow> nat \<Rightarrow> string" where
  "rf_clip s max_bytes = rf_clip_from 0 max_bytes s"

definition rf_byte_length :: "string \<Rightarrow> nat" where
  "rf_byte_length s = sum_list (map rf_width s)"

definition clean_text :: "string \<Rightarrow> string" where
  "clean_text s = js_trim (filter (\<lambda>c. 32 \<le> char_code c \<and> char_code c \<noteq> 127) s)"

definition pad_right :: "nat \<Rightarrow> string \<Rightarrow> string" where
  "pad_right n s = s @ replicate (n - length s) (CHR '' '')"

definition encode_message :: "string \<Rightarrow> string \<Rightarrow> string option \<Rightarrow> string" where
  "encode_message addressee body msg_no =
     (let to = pad_right 9 (take 9 (js_upper (clean_text addressee)));
          body = rf_clip (filter (\<lambda>c. c \<notin> {CHR ''|'', CHR ''~'', CHR ''{''}) (clean_text body)) 67
      in '':'' @ to @ '':'' @ body
         @ (case msg_no of None \<Rightarrow> [] | Some no \<Rightarrow> if no = [] then [] else ''{'' @ take 5 no))"

section \<open>The message branch of the decoder\<close>

record aprs_message =
  am_addressee :: string
  am_text :: string
  am_msg_no :: "string option"
  am_reply_ack :: "string option"
  am_ack :: bool
  am_rej :: bool
  am_bulletin :: "string option"

definition is_alpha_num :: "char \<Rightarrow> bool" where
  "is_alpha_num c = (is_capital c \<or> (97 \<le> char_code c \<and> char_code c \<le> 122) \<or> is_digit c)"

definition all_space :: "string \<Rightarrow> bool" where
  "all_space s = (\<forall>c\<in>set s. is_space c)"

text \<open>\<open>([A-Za-z0-9]{1,5})(?:\}([A-Za-z0-9]{0,5}))?\s*$\<close>: the number and the reply-ack.\<close>

definition message_number :: "string \<Rightarrow> (string \<times> string option) option" where
  "message_number s =
     (let no = takeWhile is_alpha_num s; r = dropWhile is_alpha_num s
      in if no = [] \<or> 5 < length no then None
         else if all_space r then Some (no, None)
         else if hd r = CHR ''}'' then
           let a = takeWhile is_alpha_num (tl r)
           in if length a \<le> 5 \<and> all_space (dropWhile is_alpha_num (tl r)) then Some (no, Some a) else None
         else None)"

definition ack_rej :: "string \<Rightarrow> (bool \<times> string) option" where
  "ack_rej s =
     (if take 3 s = ''ack'' \<or> take 3 s = ''rej''
      then case message_number (drop 3 s) of None \<Rightarrow> None | Some (no, _) \<Rightarrow> Some (take 3 s = ''ack'', no)
      else None)"

text \<open>The leftmost brace from which the number pattern reaches the end.\<close>

fun find_number :: "nat \<Rightarrow> string \<Rightarrow> (nat \<times> string \<times> string option) option" where
  "find_number i [] = None"
| "find_number i (c # s) =
     (case (if c = CHR ''{'' then message_number s else None) of
        Some (no, reply) \<Rightarrow> Some (i, no, reply)
      | None \<Rightarrow> find_number (i + 1) s)"

definition decode_message :: "string \<Rightarrow> aprs_message option" where
  "decode_message p =
     (if \<not> (11 \<le> length p \<and> p ! 0 = CHR '':'' \<and> p ! 10 = CHR '':'') then None
      else let addressee = js_trim (take 9 (drop 1 p)); body = drop 11 p;
               out = \<lparr>am_addressee = addressee, am_text = body, am_msg_no = None, am_reply_ack = None,
                      am_ack = False, am_rej = False, am_bulletin = None\<rparr>
           in case ack_rej body of
                Some (ack, no) \<Rightarrow> Some (out\<lparr>am_ack := ack, am_rej := \<not> ack, am_msg_no := Some no, am_text := []\<rparr>)
              | None \<Rightarrow>
                  let out = (case find_number 0 body of
                               None \<Rightarrow> out
                             | Some (i, no, reply) \<Rightarrow>
                                 out\<lparr>am_msg_no := Some no, am_reply_ack := (if reply = Some [] then None else reply),
                                     am_text := take i body\<rparr>)
                  in Some (if take 3 addressee \<in> {''BLN'', ''NWS'', ''SKY''} then out\<lparr>am_bulletin := Some addressee\<rparr> else out))"

section \<open>What an info field acknowledges\<close>

record ack_info =
  ai_from :: string
  ai_to :: string
  ai_msg_no :: string
  ai_rej :: bool

text \<open>\<open>/^\}([A-Za-z0-9-]{1,9})>[^:]*:(.*)$/s\<close>.\<close>

definition third_party_inner :: "string \<Rightarrow> (string \<times> string) option" where
  "third_party_inner s =
     (let hop_char = (\<lambda>c. is_alpha_num c \<or> c = CHR ''-'');
          from = takeWhile hop_char (tl s); r = dropWhile hop_char (tl s)
      in if from = [] \<or> 9 < length from \<or> r = [] \<or> hd r \<noteq> CHR ''>'' then None
         else case dropWhile (\<lambda>c. c \<noteq> CHR '':'') (tl r) of
           [] \<Rightarrow> None
         | _ # info \<Rightarrow> Some (from, info))"

definition ack_of :: "string \<Rightarrow> string \<Rightarrow> ack_info option" where
  "ack_of src payload =
     (case (if is_third_party payload then third_party_inner payload else Some (src, payload)) of
        None \<Rightarrow> None
      | Some (from, info) \<Rightarrow>
          if info = [] \<or> hd info \<noteq> CHR '':'' then None
          else case decode_message info of
            None \<Rightarrow> None
          | Some d \<Rightarrow>
              if am_addressee d = [] then None
              else case (if am_ack d \<or> am_rej d then am_msg_no d else am_reply_ack d) of
                None \<Rightarrow> None
              | Some no \<Rightarrow> if no = [] then None
                  else Some \<lparr>ai_from = js_upper from, ai_to = js_upper (js_trim (am_addressee d)), ai_msg_no = no, ai_rej = am_rej d\<rparr>)"

section \<open>Round trips\<close>

lemma rf_clip_from_bound: "n \<le> m \<Longrightarrow> n + rf_byte_length (rf_clip_from n m s) \<le> m"
proof (induction s arbitrary: n)
  case (Cons c s)
  show ?case
  proof (cases "m < n + rf_width c")
    case False
    then show ?thesis using Cons.IH [of "n + rf_width c"] by (simp add: rf_byte_length_def)
  qed (use Cons.prems in \<open>simp add: rf_byte_length_def\<close>)
qed (simp add: rf_byte_length_def)

lemma rf_clip_from_id: "n + rf_byte_length s \<le> m \<Longrightarrow> rf_clip_from n m s = s"
  by (induction s arbitrary: n) (auto simp: Let_def rf_byte_length_def)

text \<open>Text a station can send as it is: printable, without the reserved characters, no space at its ends.\<close>

definition sendable_text :: "string \<Rightarrow> bool" where
  "sendable_text s = (js_trim s = s \<and> rf_byte_length s \<le> 67
     \<and> (\<forall>c\<in>set s. 32 \<le> char_code c \<and> char_code c \<noteq> 127 \<and> c \<noteq> CHR ''|'' \<and> c \<noteq> CHR ''~'' \<and> c \<noteq> CHR ''{''))"

definition sendable_number :: "string \<Rightarrow> bool" where
  "sendable_number no = (no \<noteq> [] \<and> length no \<le> 5 \<and> (\<forall>c\<in>set no. is_alpha_num c))"

lemma sent_text:
  assumes "sendable_text s"
  shows "rf_clip (filter (\<lambda>c. c \<notin> {CHR ''|'', CHR ''~'', CHR ''{''}) (clean_text s)) 67 = s"
proof -
  have "filter (\<lambda>c. 32 \<le> char_code c \<and> char_code c \<noteq> 127) s = s" using assms by (simp add: filter_id_conv sendable_text_def)
  then have "clean_text s = s" using assms by (simp add: clean_text_def sendable_text_def)
  moreover have "filter (\<lambda>c. c \<notin> {CHR ''|'', CHR ''~'', CHR ''{''}) s = s" using assms by (simp add: filter_id_conv sendable_text_def)
  ultimately show ?thesis using assms rf_clip_from_id [of 0 s 67] by (simp add: rf_clip_def sendable_text_def)
qed

text \<open>An addressee as a callsign prints: at most nine characters.\<close>

definition addressable :: "string \<Rightarrow> bool" where
  "addressable c = (clean_call c \<and> length c \<le> 9)"

lemma upper_call: "clean_call c \<Longrightarrow> js_upper c = c"
  by (auto simp: clean_call_def js_upper_def hop_char_def is_capital_def is_digit_def upper_char_def char_code_def intro!: map_idI)

lemma call_no_space: "clean_call c \<Longrightarrow> \<forall>x\<in>set c. \<not> is_space x"
  using hop_char_facts by (auto simp: clean_call_def)

lemma clean_call_text: "clean_call c \<Longrightarrow> clean_text c = c"
proof -
  assume c: "clean_call c"
  then have "filter (\<lambda>c. 32 \<le> char_code c \<and> char_code c \<noteq> 127) c = c"
    by (auto simp: filter_id_conv clean_call_def hop_char_def is_capital_def is_digit_def char_code_def)
  then show ?thesis using js_trim_no_space [OF call_no_space [OF c]] by (simp add: clean_text_def)
qed

lemma trim_padded: "clean_call c \<Longrightarrow> js_trim (pad_right n c) = c"
proof -
  assume c: "clean_call c"
  have sp: "is_space (CHR '' '')" by (simp add: is_space_def char_code_def)
  have "dropWhile is_space (pad_right n c) = pad_right n c"
    using c call_no_space [OF c] by (cases c) (auto simp: pad_right_def clean_call_def)
  moreover have "js_trim_end (c @ replicate (n - length c) (CHR '' '')) = js_trim_end c"
    by (rule trim_end_where_append_drop) (simp add: sp)
  moreover have "js_trim_end c = c" using c call_no_space [OF c] by (intro trim_end_where_id) (auto simp: clean_call_def)
  ultimately show ?thesis by (simp add: js_trim_def pad_right_def)
qed

lemma encoded_message:
  assumes "addressable to" "sendable_text s" "sendable_number no"
  shows "encode_message to s (Some no) = '':'' @ pad_right 9 to @ '':'' @ s @ ''{'' @ no"
    "encode_message to s None = '':'' @ pad_right 9 to @ '':'' @ s"
  using assms sent_text [OF assms(2)]
  by (simp_all add: encode_message_def Let_def addressable_def clean_call_text upper_call sendable_number_def)

lemma decoded_message:
  assumes "addressable to"
  shows "decode_message ('':'' @ pad_right 9 to @ '':'' @ body) =
    (case ack_rej body of
       Some (ack, no) \<Rightarrow> Some \<lparr>am_addressee = to, am_text = [], am_msg_no = Some no, am_reply_ack = None,
         am_ack = ack, am_rej = \<not> ack, am_bulletin = None\<rparr>
     | None \<Rightarrow>
         let out = (case find_number 0 body of
               None \<Rightarrow> \<lparr>am_addressee = to, am_text = body, am_msg_no = None, am_reply_ack = None,
                 am_ack = False, am_rej = False, am_bulletin = None\<rparr>
             | Some (i, no, reply) \<Rightarrow> \<lparr>am_addressee = to, am_text = take i body, am_msg_no = Some no,
                 am_reply_ack = (if reply = Some [] then None else reply),
                 am_ack = False, am_rej = False, am_bulletin = None\<rparr>)
         in Some (if take 3 to \<in> {''BLN'', ''NWS'', ''SKY''} then out\<lparr>am_bulletin := Some to\<rparr> else out))"
proof -
  let ?p = "CHR '':'' # pad_right 9 to @ CHR '':'' # body"
  have l: "length (pad_right 9 to) = 9" and c: "clean_call to" using assms by (simp_all add: pad_right_def addressable_def)
  have "11 \<le> length ?p" "?p ! 0 = CHR '':''" "?p ! 10 = CHR '':''" "drop 11 ?p = body" "take 9 (drop 1 ?p) = pad_right 9 to"
    using l by (simp_all add: nth_append)
  then show ?thesis unfolding decode_message_def Let_def append_Cons append_Nil
    by (simp add: trim_padded [OF c] split: option.split prod.split)
qed

lemma number_alone:
  assumes "sendable_number no"
  shows "message_number no = Some (no, None)"
proof -
  have tw: "takeWhile is_alpha_num no = no" "dropWhile is_alpha_num no = []"
    using assms by (simp_all add: sendable_number_def takeWhile_eq_all_conv dropWhile_eq_Nil_conv)
  show ?thesis unfolding message_number_def Let_def tw using assms by (simp add: sendable_number_def all_space_def)
qed

lemma find_number_after: "CHR ''{'' \<notin> set s \<Longrightarrow> find_number i (s @ t) = find_number (i + length s) t"
  by (induction s arbitrary: i) auto

lemma number_has_no_brace: "message_number s = Some x \<Longrightarrow> CHR ''{'' \<notin> set s"
proof
  assume m: "message_number s = Some x" and b: "CHR ''{'' \<in> set s"
  have n: "\<not> is_alpha_num (CHR ''{'')" "\<not> is_space (CHR ''{'')"
    by (simp_all add: is_alpha_num_def is_capital_def is_digit_def is_space_def char_code_def)
  have "CHR ''{'' \<in> set (dropWhile is_alpha_num s)" using b n(1) set_takeWhileD takeWhile_dropWhile_id [of is_alpha_num s]
    by (metis UnE set_append)
  moreover obtain c r where r: "dropWhile is_alpha_num s = c # r" using calculation by (cases "dropWhile is_alpha_num s") auto
  ultimately have "CHR ''{'' \<in> set r" "c = CHR ''}''" "all_space (dropWhile is_alpha_num r)"
    using m n(2) by (auto simp: message_number_def Let_def all_space_def split: if_splits)
  then show False using n set_takeWhileD takeWhile_dropWhile_id [of is_alpha_num r] unfolding all_space_def
    by (metis UnE set_append)
qed

lemma ack_rej_brace: "CHR ''{'' \<in> set s \<Longrightarrow> ack_rej s = None"
proof (rule ccontr)
  assume b: "CHR ''{'' \<in> set s" and "ack_rej s \<noteq> None"
  then obtain x where x: "take 3 s = ''ack'' \<or> take 3 s = ''rej''" "message_number (drop 3 s) = Some x"
    by (auto simp: ack_rej_def split: if_splits option.splits)
  then have "CHR ''{'' \<notin> set (take 3 s)" "CHR ''{'' \<notin> set (drop 3 s)" using number_has_no_brace by auto
  then show False using b by (metis UnE append_take_drop_id set_append)
qed

text \<open>
  What a station sends is what the addressee reads: the addressee, the text and the number of a message come
  back as they went in, whatever the text says, an acknowledgement included.
\<close>

theorem message_roundtrip:
  assumes to: "addressable to" and body: "sendable_text body" and no: "sendable_number no"
  shows "decode_message (encode_message to body (Some no)) =
    Some \<lparr>am_addressee = to, am_text = body, am_msg_no = Some no, am_reply_ack = None, am_ack = False, am_rej = False,
      am_bulletin = (if take 3 to \<in> {''BLN'', ''NWS'', ''SKY''} then Some to else None)\<rparr>"
proof -
  have b: "CHR ''{'' \<notin> set body" using body by (auto simp: sendable_text_def)
  have "ack_rej (body @ ''{'' @ no) = None" by (rule ack_rej_brace) simp
  moreover have "find_number 0 (body @ ''{'' @ no) = Some (length body, no, None)"
    using find_number_after [OF b, of 0 "''{'' @ no"] number_alone [OF no] by simp
  ultimately show ?thesis unfolding encoded_message(1) [OF to body no] decoded_message [OF to] by (simp add: Let_def)
qed

lemma message_roundtrip_witness:
  "decode_message (encode_message ''OE6ABC-9'' ''ack12'' (Some ''7a'')) =
    Some \<lparr>am_addressee = ''OE6ABC-9'', am_text = ''ack12'', am_msg_no = Some ''7a'', am_reply_ack = None, am_ack = False, am_rej = False,
      am_bulletin = None\<rparr>"
proof -
  have "addressable ''OE6ABC-9''" "sendable_text ''ack12''" "sendable_number ''7a''" "take 3 ''OE6ABC-9'' \<notin> {''BLN'', ''NWS'', ''SKY''}"
    by code_simp+
  then show ?thesis using message_roundtrip [of "''OE6ABC-9''" "''ack12''" "''7a''"] by simp
qed

section \<open>Acknowledgements\<close>

definition ack_text :: "bool \<Rightarrow> string \<Rightarrow> string" where
  "ack_text rej no = (if rej then ''rej'' else ''ack'') @ no"

lemma byte_length_ascii: "\<forall>c\<in>set s. char_code c < 127 \<Longrightarrow> rf_byte_length s = length s"
  by (induction s) (auto simp: rf_byte_length_def rf_width_def)

lemma ack_sendable: "sendable_number no \<Longrightarrow> sendable_text (ack_text rej no)"
proof -
  assume no: "sendable_number no"
  have a: "\<forall>c\<in>set (ack_text rej no). is_alpha_num c"
    using no by (auto simp: ack_text_def sendable_number_def is_alpha_num_def char_code_def)
  then have sp: "\<forall>c\<in>set (ack_text rej no). \<not> is_space c \<and> 32 \<le> char_code c \<and> char_code c < 127 \<and> char_code c \<noteq> 127 \<and> c \<noteq> CHR ''|'' \<and> c \<noteq> CHR ''~'' \<and> c \<noteq> CHR ''{''"
    by (auto simp: is_alpha_num_def is_capital_def is_digit_def is_space_def char_code_def)
  then have "rf_byte_length (ack_text rej no) = length (ack_text rej no)" by (intro byte_length_ascii) auto
  then show ?thesis using sp no js_trim_no_space [of "ack_text rej no"]
    unfolding sendable_text_def by (auto simp: ack_text_def sendable_number_def)
qed

lemma ack_read: "sendable_number no \<Longrightarrow> ack_rej (ack_text rej no) = Some (\<not> rej, no)"
  by (simp add: ack_rej_def ack_text_def number_alone)

text \<open>The info field of an acknowledgement, and the same inside the frame of an IGate.\<close>

lemma ack_of_ack:
  assumes "addressable to" "sendable_number no" "js_upper src = src"
  shows "ack_of src (encode_message to (ack_text rej no) None) = Some \<lparr>ai_from = src, ai_to = to, ai_msg_no = no, ai_rej = rej\<rparr>"
proof -
  have c: "clean_call to" using assms(1) by (simp add: addressable_def)
  then have "js_trim to = to" "to \<noteq> []" using js_trim_no_space call_no_space by (auto simp: clean_call_def)
  let ?info = "'':'' @ pad_right 9 to @ '':'' @ ack_text rej no"
  have enc: "encode_message to (ack_text rej no) None = ?info"
    by (rule encoded_message(2) [OF assms(1) ack_sendable [OF assms(2)] assms(2)])
  have dec: "decode_message ?info = Some \<lparr>am_addressee = to, am_text = [], am_msg_no = Some no, am_reply_ack = None,
      am_ack = \<not> rej, am_rej = rej, am_bulletin = None\<rparr>"
    unfolding decoded_message [OF assms(1)] ack_read [OF assms(2)] by simp
  have "no \<noteq> []" using assms(2) by (simp add: sendable_number_def)
  moreover have "\<not> is_third_party ?info" "hd ?info = CHR '':''" "?info \<noteq> []" by (simp_all add: is_third_party_def)
  ultimately show ?thesis
    unfolding enc ack_of_def using \<open>js_trim to = to\<close> \<open>to \<noteq> []\<close> upper_call [OF c] assms(3)
    by (simp only: if_False prod.case option.case dec) simp
qed

lemma third_party_inner_gated:
  assumes "addressable from" "\<forall>c\<in>set hdr. c \<noteq> CHR '':''"
  shows "third_party_inner (''}'' @ from @ ''>'' @ hdr @ '':'' @ info) = Some (from, info)"
proof -
  let ?P = "\<lambda>c. is_alpha_num c \<or> c = CHR ''-''"
  have "\<forall>c\<in>set from. ?P c" "from \<noteq> []" "length from \<le> 9"
    using assms(1) by (auto simp: addressable_def clean_call_def hop_char_def is_alpha_num_def)
  moreover have "\<not> ?P (CHR ''>'')" by (simp add: is_alpha_num_def is_capital_def is_digit_def char_code_def)
  ultimately have tw: "takeWhile ?P (from @ CHR ''>'' # t) = from" "dropWhile ?P (from @ CHR ''>'' # t) = CHR ''>'' # t" for t
    by (simp_all add: takeWhile_append2 dropWhile_append2)
  have "dropWhile (\<lambda>c. c \<noteq> CHR '':'') (hdr @ CHR '':'' # info) = CHR '':'' # info"
    using assms(2) by (subst dropWhile_append2) auto
  then show ?thesis using \<open>from \<noteq> []\<close> \<open>length from \<le> 9\<close>
    unfolding third_party_inner_def Let_def append_Cons append_Nil list.sel tw by simp
qed

end
