(* ===== verification/Ax25_Frame.thy ===== *)
theory Ax25_Frame
  imports Interfaces
begin

text \<open>
  The AX.25 v2.2 frame codec of \<open>packages/ax25/src/frame.ts\<close>: addresses, the modulo-8
  and the extended modulo-128 control field, every frame type, and the text form of an
  address. Numbers read from the wire are \<^typ>\<open>nat\<close>; a field the frame type does not
  carry is \<^const>\<open>None\<close>, the code's \<open>undefined\<close>.
\<close>

section \<open>Data\<close>

record address =
  addr_call :: string
  addr_ssid :: nat

datatype frame_type =
  F_I | F_RR | F_RNR | F_REJ | F_SREJ | F_SABM | F_SABME | F_DISC | F_DM | F_UA | F_FRMR | F_UI | F_XID | F_TEST

record frame =
  f_dst :: address
  f_src :: address
  f_digis :: "address list option"
  f_digis_repeated :: "bool list option"
  f_command :: bool
  f_type :: frame_type
  f_pf :: bool
  f_extended :: "bool option"
  f_nr :: "nat option"
  f_ns :: "nat option"
  f_pid :: "byte option"
  f_info :: "byte list option"

definition PID_NO_L3 :: byte where
  "PID_NO_L3 = 0xf0"

definition PID_NETROM :: byte where
  "PID_NETROM = 0xcf"

text \<open>The table \<open>U\<close> of U-frame control values and its reverse, P/F masked off.\<close>

fun u_ctrl :: "frame_type \<Rightarrow> byte option" where
  "u_ctrl F_SABME = Some 0x6f"
| "u_ctrl F_SABM = Some 0x2f"
| "u_ctrl F_DISC = Some 0x43"
| "u_ctrl F_DM = Some 0x0f"
| "u_ctrl F_UA = Some 0x63"
| "u_ctrl F_FRMR = Some 0x87"
| "u_ctrl F_UI = Some 0x03"
| "u_ctrl F_XID = Some 0xaf"
| "u_ctrl F_TEST = Some 0xe3"
| "u_ctrl _ = None"

definition u_rev :: "byte \<Rightarrow> frame_type option" where
  "u_rev b = (if b = 0x6f then Some F_SABME else if b = 0x2f then Some F_SABM
    else if b = 0x43 then Some F_DISC else if b = 0x0f then Some F_DM
    else if b = 0x63 then Some F_UA else if b = 0x87 then Some F_FRMR
    else if b = 0x03 then Some F_UI else if b = 0xaf then Some F_XID
    else if b = 0xe3 then Some F_TEST else None)"

fun s_bits :: "frame_type \<Rightarrow> nat option" where
  "s_bits F_RR = Some 0"
| "s_bits F_RNR = Some 1"
| "s_bits F_REJ = Some 2"
| "s_bits F_SREJ = Some 3"
| "s_bits _ = None"

definition s_rev :: "nat \<Rightarrow> frame_type" where
  "s_rev n = [F_RR, F_RNR, F_REJ, F_SREJ] ! n"

definition PF :: byte where
  "PF = 0x10"

section \<open>Addresses\<close>

definition encode_address :: "address \<Rightarrow> bool \<Rightarrow> bool \<Rightarrow> byte list" where
  "encode_address a cbit last_addr =
     (let c = pad_end 6 (CHR '' '') (take 6 (js_upper (addr_call a)))
      in map (\<lambda>ch. push_bit 1 (byte_of (char_code ch))) c
         @ [(if cbit then 0x80 else 0) OR 0x60 OR push_bit 1 (byte_of (addr_ssid a) AND 0x0f)
            OR (if last_addr then 1 else 0)])"

record decoded_addr =
  da_addr :: address
  da_cbit :: bool
  da_last :: bool

text \<open>\<open>decodeAddress(b, off)\<close>, on the bytes from \<open>off\<close> on.\<close>

definition decode_address :: "byte list \<Rightarrow> decoded_addr" where
  "decode_address b =
     (let c = map (\<lambda>i. from_char_code (unat (drop_bit 1 (js_byte b i)))) [0..<6];
          ssid_byte = js_byte b 6
      in \<lparr>da_addr = \<lparr>addr_call = js_trim_end c, addr_ssid = unat (drop_bit 1 ssid_byte AND 0x0f)\<rparr>,
          da_cbit = (ssid_byte AND 0x80 \<noteq> 0),
          da_last = (ssid_byte AND 1 \<noteq> 0)\<rparr>)"

section \<open>Frames\<close>

definition opt0 :: "nat option \<Rightarrow> nat" where
  "opt0 x = (case x of None \<Rightarrow> 0 | Some n \<Rightarrow> n)"

definition control_ext :: "frame \<Rightarrow> byte list" where
  "control_ext f =
     (let o1 = (if f_type f = F_I then push_bit 1 (byte_of (opt0 (f_ns f)) AND 0x7f)
                else 1 OR push_bit 2 (byte_of (opt0 (s_bits (f_type f)))));
          o2 = push_bit 1 (byte_of (opt0 (f_nr f)) AND 0x7f) OR (if f_pf f then 1 else 0)
      in [o1, o2])"

definition control_octet :: "frame \<Rightarrow> byte" where
  "control_octet f =
     (let pf = (if f_pf f then PF else 0)
      in if f_type f = F_I
         then push_bit 5 (byte_of (opt0 (f_nr f)) AND 7) OR pf OR push_bit 1 (byte_of (opt0 (f_ns f)) AND 7)
         else if s_bits (f_type f) \<noteq> None
         then push_bit 5 (byte_of (opt0 (f_nr f)) AND 7) OR pf OR push_bit 2 (byte_of (opt0 (s_bits (f_type f)))) OR 1
         else (case u_ctrl (f_type f) of Some u \<Rightarrow> u | None \<Rightarrow> 0) OR pf)"

text \<open>The via addresses: hop \<open>i\<close> carries its H bit, the last one the end mark.\<close>

fun encode_digis :: "address list \<Rightarrow> bool list \<Rightarrow> byte list" where
  "encode_digis [] _ = []"
| "encode_digis (d # ds) hs =
     encode_address d (case hs of [] \<Rightarrow> False | h # _ \<Rightarrow> h) (ds = []) @ encode_digis ds (tl hs)"

definition encode_addrs :: "frame \<Rightarrow> byte list" where
  "encode_addrs f =
     (let digis = (case f_digis f of None \<Rightarrow> [] | Some ds \<Rightarrow> ds);
          hs = (case f_digis_repeated f of None \<Rightarrow> [] | Some hs \<Rightarrow> hs)
      in encode_address (f_dst f) (f_command f) False
         @ encode_address (f_src f) (\<not> f_command f) (digis = [])
         @ encode_digis digis hs)"

text \<open>The control octets, the PID and the info of a frame; then the whole frame.\<close>

definition encode_body :: "frame \<Rightarrow> bool \<Rightarrow> byte list" where
  "encode_body f extended =
     (if extended \<and> (f_type f = F_I \<or> s_bits (f_type f) \<noteq> None)
        then control_ext f else [control_octet f])
     @ (if f_type f \<in> {F_I, F_UI} then [case f_pid f of None \<Rightarrow> PID_NO_L3 | Some p \<Rightarrow> p] else [])
     @ (case f_info f of
          None \<Rightarrow> []
        | Some info \<Rightarrow> if f_type f \<in> {F_I, F_UI, F_FRMR, F_TEST} then info else [])"

definition encode_frame :: "frame \<Rightarrow> bool \<Rightarrow> byte list" where
  "encode_frame f extended = encode_addrs f @ encode_body f extended"

text \<open>The default of the second parameter: the frame's own \<open>extended\<close> flag.\<close>

definition encode_frame_default :: "frame \<Rightarrow> byte list" where
  "encode_frame_default f = encode_frame f (case f_extended f of None \<Rightarrow> False | Some e \<Rightarrow> e)"

text \<open>
  The address loop: at most ten addresses, stopping after the one with the end mark.
  \<^const>\<open>None\<close> when the bytes run out inside an address.
\<close>

fun decode_addrs :: "nat \<Rightarrow> byte list \<Rightarrow> (decoded_addr list \<times> byte list) option" where
  "decode_addrs 0 bs = Some ([], bs)"
| "decode_addrs (Suc n) bs =
     (if length bs < 7 then None
      else let a = decode_address bs; rest = drop 7 bs
           in if da_last a then Some ([a], rest)
              else (case decode_addrs n rest of
                      None \<Rightarrow> None
                    | Some (as, r) \<Rightarrow> Some (a # as, r)))"

definition nonempty :: "'a list \<Rightarrow> 'a list option" where
  "nonempty xs = (if xs = [] then None else Some xs)"

text \<open>The fields after the address field, from the control octet on.\<close>

record body =
  b_type :: frame_type
  b_pf :: bool
  b_ext :: bool
  b_nr :: "nat option"
  b_ns :: "nat option"
  b_pid :: "byte option"
  b_info :: "byte list"

definition pid_of :: "byte list \<Rightarrow> byte option" where
  "pid_of bs = (case bs of [] \<Rightarrow> None | p # _ \<Rightarrow> Some p)"

definition decode_i :: "byte \<Rightarrow> byte list \<Rightarrow> bool \<Rightarrow> body option" where
  "decode_i ctrl rest extended =
     (if extended then
        (case rest of
           [] \<Rightarrow> None
         | c2 # rest2 \<Rightarrow> Some
             \<lparr>b_type = F_I, b_pf = (c2 AND 1 \<noteq> 0), b_ext = True,
              b_nr = Some (unat (drop_bit 1 c2 AND 0x7f)), b_ns = Some (unat (drop_bit 1 ctrl AND 0x7f)),
              b_pid = pid_of rest2, b_info = drop 1 rest2\<rparr>)
      else Some
        \<lparr>b_type = F_I, b_pf = (ctrl AND PF \<noteq> 0), b_ext = False,
         b_nr = Some (unat (drop_bit 5 ctrl AND 7)), b_ns = Some (unat (drop_bit 1 ctrl AND 7)),
         b_pid = pid_of rest, b_info = drop 1 rest\<rparr>)"

definition decode_s :: "byte \<Rightarrow> byte list \<Rightarrow> bool \<Rightarrow> body option" where
  "decode_s ctrl rest extended =
     (let t = s_rev (unat (drop_bit 2 ctrl AND 3))
      in if extended then
           (case rest of
              [] \<Rightarrow> None
            | c2 # _ \<Rightarrow> Some
                \<lparr>b_type = t, b_pf = (c2 AND 1 \<noteq> 0), b_ext = True,
                 b_nr = Some (unat (drop_bit 1 c2 AND 0x7f)), b_ns = None, b_pid = None, b_info = []\<rparr>)
         else Some
           \<lparr>b_type = t, b_pf = (ctrl AND PF \<noteq> 0), b_ext = False,
            b_nr = Some (unat (drop_bit 5 ctrl AND 7)), b_ns = None, b_pid = None, b_info = []\<rparr>)"

definition decode_u :: "byte \<Rightarrow> byte list \<Rightarrow> body" where
  "decode_u ctrl rest =
     (let t = (case u_rev (ctrl AND NOT PF) of None \<Rightarrow> F_DM | Some t \<Rightarrow> t)
      in \<lparr>b_type = t, b_pf = (ctrl AND PF \<noteq> 0), b_ext = False, b_nr = None, b_ns = None,
          b_pid = (if t = F_UI then pid_of rest else None),
          b_info = (if t = F_UI then drop 1 rest
                    else if t \<in> {F_FRMR, F_TEST} then rest else [])\<rparr>)"

definition decode_body :: "byte list \<Rightarrow> bool \<Rightarrow> body option" where
  "decode_body bs extended =
     (case bs of
        [] \<Rightarrow> None
      | ctrl # rest \<Rightarrow>
          if ctrl AND 1 = 0 then decode_i ctrl rest extended
          else if ctrl AND 3 = 1 then decode_s ctrl rest extended
          else Some (decode_u ctrl rest))"

definition decode_frame :: "byte list \<Rightarrow> bool \<Rightarrow> frame option" where
  "decode_frame bytes extended =
     (if length bytes < 15 then None
      else case decode_addrs 10 bytes of
        None \<Rightarrow> None
      | Some (as, rest) \<Rightarrow>
          if length as < 2 \<or> \<not> da_last (last as) then None
          else (case decode_body rest extended of
                  None \<Rightarrow> None
                | Some b \<Rightarrow> Some
                    \<lparr>f_dst = da_addr (as ! 0), f_src = da_addr (as ! 1),
                     f_digis = nonempty (map da_addr (drop 2 as)),
                     f_digis_repeated = nonempty (map da_cbit (drop 2 as)),
                     f_command = da_cbit (as ! 0), f_type = b_type b, f_pf = b_pf b,
                     f_extended = (if b_ext b then Some True else None),
                     f_nr = b_nr b, f_ns = b_ns b, f_pid = b_pid b, f_info = nonempty (b_info b)\<rparr>))"

section \<open>Addresses as text\<close>

definition addr_str :: "address \<Rightarrow> string" where
  "addr_str a = (if addr_ssid a \<noteq> 0 then addr_call a @ ''-'' @ nat_str (addr_ssid a) else addr_call a)"

text \<open>\<open>parseInt(s, 10)\<close>: white space, a sign, then the longest run of digits; \<open>None\<close> is \<open>NaN\<close>.\<close>

definition parse_int :: "string \<Rightarrow> int option" where
  "parse_int s =
     (let t = dropWhile is_space s;
          neg = (case t of [] \<Rightarrow> False | c # _ \<Rightarrow> c = CHR ''-'');
          u = (case t of [] \<Rightarrow> [] | c # r \<Rightarrow> if c = CHR ''-'' \<or> c = CHR ''+'' then r else t);
          ds = takeWhile is_digit u
      in if ds = [] then None
         else Some (if neg then - int (digits_value ds) else int (digits_value ds)))"

definition parse_addr :: "string \<Rightarrow> address" where
  "parse_addr s =
     (let parts = split_on (CHR ''-'') (js_upper s)
      in \<lparr>addr_call = parts ! 0,
          addr_ssid = (if length parts < 2 \<or> parts ! 1 = [] then 0
                       else nat (max 0 (min 15 (case parse_int (parts ! 1) of None \<Rightarrow> 0 | Some n \<Rightarrow> n))))\<rparr>)"

definition same_addr :: "address \<Rightarrow> address \<Rightarrow> bool" where
  "same_addr a b = (addr_call a = addr_call b \<and> addr_ssid a = addr_ssid b)"

lemma same_addr_eq [simp]: "same_addr a b \<longleftrightarrow> a = b"
  by (auto simp: same_addr_def)

section \<open>Round trips\<close>


definition wf_address :: "address \<Rightarrow> bool" where
  "wf_address a =
     (length (addr_call a) \<le> 6 \<and> js_upper (addr_call a) = addr_call a
      \<and> (\<forall>c\<in>set (addr_call a). char_code c < 128)
      \<and> (addr_call a = [] \<or> \<not> is_space (last (addr_call a))) \<and> addr_ssid a \<le> 15)"

lemma length_encode_address [simp]: "length (encode_address a c l) = 7"
  by (simp add: encode_address_def Let_def)

lemma shifted_char:
  assumes "n < 128" shows "unat (drop_bit 1 (push_bit 1 (byte_of n))) = n"
  by (subst unat_drop_byte, subst unat_push_byte) (use assms in simp)

lemma ssid_octet:
  assumes "n \<le> 15"
  shows "unat (drop_bit 1 ((if c then 0x80 else 0) OR 0x60 OR push_bit 1 (byte_of n AND 0x0f) OR (if l then 1 else (0::byte))) AND 0x0f) = n"
   and "((if c then 0x80 else 0) OR 0x60 OR push_bit 1 (byte_of n AND 0x0f) OR (if l then 1 else (0::byte))) AND 0x80 \<noteq> 0 \<longleftrightarrow> c"
   and "((if c then 0x80 else 0) OR 0x60 OR push_bit 1 (byte_of n AND 0x0f) OR (if l then 1 else (0::byte))) AND 1 \<noteq> 0 \<longleftrightarrow> l"
  using less16_cases [OF assms] by (auto simp: byte_of_def)

lemma decode_encode_address [codec_simps]:
  assumes "wf_address a"
  shows "decode_address (encode_address a c l @ rest) = \<lparr>da_addr = a, da_cbit = c, da_last = l\<rparr>"
proof -
  let ?c = "pad_end 6 (CHR '' '') (take 6 (js_upper (addr_call a)))"
  have call: "take 6 (js_upper (addr_call a)) = addr_call a"
    using assms by (simp add: wf_address_def)
  have len: "length ?c = 6" using call assms by (simp add: wf_address_def)
  have lt: "i < 6 \<Longrightarrow> char_code (?c ! i) < 128" for i
    using assms nth_mem [of i ?c] len by (auto simp: call pad_end_def wf_address_def char_code_def)
  have "map (\<lambda>i. from_char_code (unat (drop_bit 1 (js_byte (encode_address a c l @ rest) i)))) [0..<6]
      = map (\<lambda>i. ?c ! i) [0..<6]"
    by (rule map_cong) (use len lt in \<open>auto simp: encode_address_def Let_def nth_append shifted_char [OF lt, simplified]\<close>)
  also have "\<dots> = ?c" using len by (metis map_nth)
  finally have chars: "map (\<lambda>i. from_char_code (unat (drop_bit 1 (js_byte (encode_address a c l @ rest) i)))) [0..<6] = ?c" .
  have "js_trim_end ?c = js_trim_end (addr_call a)"
    unfolding call pad_end_def by (rule trim_end_where_append_drop) (auto simp: is_space_def char_code_def)
  also have "\<dots> = addr_call a"
    by (rule trim_end_where_id) (use assms in \<open>auto simp: wf_address_def\<close>)
  finally have trim: "js_trim_end ?c = addr_call a" .
  have "js_byte (encode_address a c l @ rest) 6 =
     ((if c then 0x80 else 0) OR 0x60 OR push_bit 1 (byte_of (addr_ssid a) AND 0x0f) OR (if l then 1 else 0))"
    using len by (simp add: encode_address_def Let_def nth_append)
  then show ?thesis
    using ssid_octet [of "addr_ssid a" c l] assms trim chars
    by (simp add: decode_address_def Let_def wf_address_def del: upt.simps upt_rec_numeral)
qed

section \<open>Whole frames\<close>


text \<open>The frames the codec carries exactly, for a link of the given modulus.\<close>

definition seq_limit :: "bool \<Rightarrow> nat" where
  "seq_limit extended = (if extended then 128 else 8)"

definition wf_via :: "frame \<Rightarrow> bool" where
  "wf_via f =
     (case f_digis f of
        None \<Rightarrow> f_digis_repeated f = None
      | Some ds \<Rightarrow> ds \<noteq> [] \<and> length ds \<le> 8 \<and> (\<forall>d\<in>set ds. wf_address d)
          \<and> (case f_digis_repeated f of None \<Rightarrow> False | Some hs \<Rightarrow> length hs = length ds))"

definition wf_fields :: "frame \<Rightarrow> bool \<Rightarrow> bool" where
  "wf_fields f extended =
     (if f_type f = F_I then
        (\<exists>r s p. f_nr f = Some r \<and> r < seq_limit extended \<and> f_ns f = Some s \<and> s < seq_limit extended
           \<and> f_pid f = Some p)
        \<and> f_info f \<noteq> Some [] \<and> f_extended f = (if extended then Some True else None)
      else if s_bits (f_type f) \<noteq> None then
        (\<exists>r. f_nr f = Some r \<and> r < seq_limit extended) \<and> f_ns f = None \<and> f_pid f = None
        \<and> f_info f = None \<and> f_extended f = (if extended then Some True else None)
      else f_nr f = None \<and> f_ns f = None \<and> (f_pid f \<noteq> None \<longleftrightarrow> f_type f = F_UI)
        \<and> (if f_type f \<in> {F_UI, F_FRMR, F_TEST} then f_info f \<noteq> Some [] else f_info f = None)
        \<and> f_extended f = None)"

definition wf_frame :: "frame \<Rightarrow> bool \<Rightarrow> bool" where
  "wf_frame f extended =
     (wf_address (f_dst f) \<and> wf_address (f_src f) \<and> wf_via f \<and> wf_fields f extended)"

lemma decode_encode_digis:
  assumes "ds \<noteq> []" "length hs = length ds" "length ds \<le> n" "\<forall>d\<in>set ds. wf_address d"
  shows "decode_addrs n (encode_digis ds hs @ rest) =
    Some (map (\<lambda>(d, h, l). \<lparr>da_addr = d, da_cbit = h, da_last = l\<rparr>)
            (zip ds (zip hs (replicate (length ds - 1) False @ [True]))), rest)"
  using assms
proof (induction ds arbitrary: hs n)
  case (Cons d ds)
  then obtain h hs' m where hs: "hs = h # hs'" and n: "n = Suc m"
    by (cases hs; cases n) auto
  show ?case
  proof (cases "ds = []")
    case True
    with Cons.prems hs n show ?thesis by (simp add: decode_encode_address Let_def)
  next
    case False
    with Cons.prems hs n have IH: "decode_addrs m (encode_digis ds hs' @ rest) =
      Some (map (\<lambda>(d, h, l). \<lparr>da_addr = d, da_cbit = h, da_last = l\<rparr>)
            (zip ds (zip hs' (replicate (length ds - 1) False @ [True]))), rest)"
      by (intro Cons.IH) auto
    have "replicate (length ds) False = False # replicate (length ds - 1) False"
      using False by (cases ds) auto
    with Cons.prems hs n IH False show ?thesis by (simp add: decode_encode_address Let_def)
  qed
qed simp

lemma decode_encode_addrs:
  assumes "wf_address (f_dst f)" "wf_address (f_src f)" "wf_via f"
  shows "\<exists>as. decode_addrs 10 (encode_addrs f @ rest) = Some (as, rest)
     \<and> 2 \<le> length as \<and> da_last (last as) \<and> da_addr (as ! 0) = f_dst f \<and> da_addr (as ! 1) = f_src f
     \<and> da_cbit (as ! 0) = f_command f
     \<and> nonempty (map da_addr (drop 2 as)) = f_digis f
     \<and> nonempty (map da_cbit (drop 2 as)) = f_digis_repeated f"
proof (cases "f_digis f")
  case None
  then show ?thesis
    using assms by (simp add: encode_addrs_def wf_via_def Let_def decode_encode_address eval_nat_numeral nonempty_def)
next
  case (Some ds)
  then obtain hs where hs: "f_digis_repeated f = Some hs" "length hs = length ds"
    and ds: "ds \<noteq> []" "length ds \<le> 8" "\<forall>d\<in>set ds. wf_address d"
    using assms by (auto simp: wf_via_def split: option.splits)
  let ?z = "map (\<lambda>(d, h, l). \<lparr>da_addr = d, da_cbit = h, da_last = l\<rparr>)
            (zip ds (zip hs (replicate (length ds - 1) False @ [True])))"
  have z: "length ?z = length ds" "map da_addr ?z = ds" "map da_cbit ?z = hs"
    using hs ds by (auto intro!: nth_equalityI)
  have "last ?z = ?z ! (length ds - 1)"
    using z(1) ds(1) by (metis last_conv_nth length_0_conv)
  then have "da_last (last ?z)"
    using hs ds by (simp add: nth_append)
  moreover have "decode_addrs 8 (encode_digis ds hs @ rest) = Some (?z, rest)"
    by (rule decode_encode_digis) (use ds hs in auto)
  moreover have "?z \<noteq> []" using z(1) ds(1) by (metis length_0_conv)
  ultimately show ?thesis
    using assms Some hs ds z
    by (simp add: encode_addrs_def Let_def decode_encode_address nonempty_def eval_nat_numeral)
qed



lemma ctrl8_value:
  assumes "nr < 8" "m < 8" "pf = 0 \<or> pf = PF"
  shows "unat (push_bit 5 (byte_of nr AND 7) OR pf OR push_bit 1 (byte_of m AND 7)) = 32 * nr + unat pf + 2 * m"
  using less8_cases [OF assms(1)] less8_cases [OF assms(2)] assms(3)
  by (auto simp: byte_of_def PF_def)

lemma ctrl8_s_value:
  assumes "nr < 8" "k < 4" "pf = 0 \<or> pf = PF"
  shows "unat (push_bit 5 (byte_of nr AND 7) OR pf OR push_bit 2 (byte_of k) OR 1) = 32 * nr + unat pf + 4 * k + 1"
  using less8_cases [OF assms(1)] less8_cases [of k] assms(2-3)
  by (auto simp: byte_of_def PF_def)

lemma masks: "(1 :: byte) = push_bit 0 1" "PF = push_bit 4 1" "(7 :: byte) = mask 3" "(0x7f :: byte) = mask 7" "(3 :: byte) = mask 2"
  by (simp_all add: PF_def mask_eq_exp_minus_1 push_bit_eq_mult)

lemma and_1_iff: "(b AND 1 \<noteq> 0) \<longleftrightarrow> odd (unat (b :: byte))"
  using byte_bit [of b 0] by simp

lemma and_1_zero: "(b AND 1 = 0) \<longleftrightarrow> even (unat (b :: byte))"
  using and_1_iff [of b] by blast

lemma and_PF_iff: "(b AND PF \<noteq> 0) \<longleftrightarrow> odd (unat b div 16)"
  using byte_bit [of b 4] by (simp only: masks(2)) simp

lemma field_7: "unat (drop_bit k b AND 7) = unat (b :: byte) div 2 ^ k mod 8"
  using byte_field [of k b 3] by (simp only: masks(3)) simp

lemma field_3: "unat (drop_bit k b AND 3) = unat (b :: byte) div 2 ^ k mod 4"
  using byte_field [of k b 2] by (simp only: masks(5)) simp

lemma field_7f: "unat (drop_bit k b AND 0x7f) = unat (b :: byte) div 2 ^ k mod 128"
  using byte_field [of k b 7] by (simp only: masks(4)) simp

lemma and_3_one: "(b AND 3 = 1) \<longleftrightarrow> unat (b :: byte) mod 4 = 1"
  using field_3 [of 0 b] by (simp add: word_unat_eq_iff)

lemma ext_value: "n < 128 \<Longrightarrow> unat (push_bit 1 (byte_of n AND 0x7f) OR (if p then 1 else 0)) = 2 * n + of_bool p"
  using unat_and_mask [of "byte_of n" 7] by (subst shift_or_bit) (simp only: masks(4), simp)

lemma ext_value0: "n < 128 \<Longrightarrow> unat (push_bit 1 (byte_of n AND 0x7f)) = 2 * n"
  using ext_value [of n False] by simp

lemma ext_s_value: "k < 4 \<Longrightarrow> unat (1 OR push_bit 2 (byte_of k)) = 4 * k + 1"
  using less8_cases [of k] by (auto simp: byte_of_def)

lemma unat_PF [simp]: "unat PF = 16"
  by (simp add: PF_def)

lemma octet_arith:
  assumes "c = 32 * r + 16 * p + d" "d < 16" "p \<le> 1" "r < (8 :: nat)"
  shows "c div 32 mod 8 = r" "odd (c div 16) \<longleftrightarrow> p = 1" "even c \<longleftrightarrow> even d" "c mod 4 = d mod 4"
    and "c div 2 mod 8 = d div 2" "c div 4 mod 4 = d div 4"
proof -
  show "c div 32 mod 8 = r" using assms by simp
  have c: "c = 16 * (2 * r + p) + d" using assms(1) by simp
  then have "c div 16 = 2 * r + p" using assms(2) by simp
  then show "odd (c div 16) \<longleftrightarrow> p = 1" using assms(3) by (cases p) auto
  show "even c \<longleftrightarrow> even d" using assms(1) by simp
  have "c = 4 * (8 * r + 4 * p) + d" using assms(1) by simp
  then show "c mod 4 = d mod 4" by (simp only: mod_mult_self4)
  have "c div 2 = 8 * (2 * r + p) + d div 2" "c div 4 = 4 * (2 * r + p) + d div 4" using c by simp_all
  moreover have "d div 2 < 8" "d div 4 < 4" using assms(2) by simp_all
  ultimately show "c div 2 mod 8 = d div 2" "c div 4 mod 4 = d div 4"
    by (simp_all only: mod_mult_self4 mod_less)
qed

lemma control_octet_I:
  assumes "f_type f = F_I" "f_nr f = Some r" "f_ns f = Some s" "r < 8" "s < 8"
  shows "unat (control_octet f) = 32 * r + 16 * of_bool (f_pf f) + 2 * s"
  using ctrl8_value [OF assms(4,5), of "if f_pf f then PF else 0"] assms(1-3)
  by (simp add: control_octet_def opt0_def Let_def)

lemma control_octet_S:
  assumes "s_bits (f_type f) = Some k" "f_nr f = Some r" "r < 8"
  shows "unat (control_octet f) = 32 * r + 16 * of_bool (f_pf f) + 4 * k + 1"
proof -
  have "k < 4" "f_type f \<noteq> F_I" using assms(1) by (cases "f_type f"; auto)+
  then show ?thesis
    using ctrl8_s_value [OF assms(3), of k "if f_pf f then PF else 0"] assms
    by (simp add: control_octet_def opt0_def Let_def)
qed

lemma control_ext_I:
  assumes "f_type f = F_I" "f_nr f = Some r" "f_ns f = Some s" "r < 128" "s < 128"
  shows "\<exists>a b. control_ext f = [a, b] \<and> unat a = 2 * s \<and> unat b = 2 * r + of_bool (f_pf f)"
  using ext_value [OF assms(4), of "f_pf f"] ext_value0 [OF assms(5)] assms(1-3)
  by (simp add: control_ext_def opt0_def Let_def)

lemma control_ext_S:
  assumes "s_bits (f_type f) = Some k" "f_nr f = Some r" "r < 128"
  shows "\<exists>a b. control_ext f = [a, b] \<and> unat a = 4 * k + 1 \<and> unat b = 2 * r + of_bool (f_pf f)"
proof -
  have "k < 4" "f_type f \<noteq> F_I" using assms(1) by (cases "f_type f"; auto)+
  then show ?thesis
    using ext_value [OF assms(3), of "f_pf f"] ext_s_value [of k] assms
    by (simp add: control_ext_def opt0_def Let_def)
qed

lemma decode_body_I8:
  assumes "unat c = 32 * r + 16 * of_bool pf + 2 * s" "r < 8" "s < 8"
  shows "decode_body (c # p # info) False
   = Some \<lparr>b_type = F_I, b_pf = pf, b_ext = False, b_nr = Some r, b_ns = Some s, b_pid = Some p, b_info = info\<rparr>"
proof -
  note * = octet_arith [OF assms(1) _ _ assms(2)]
  have "unat c div 32 mod 8 = r" "unat c div 2 mod 8 = s" "odd (unat c div 16) = pf" "even (unat c)"
    using * assms(3) by auto
  then show ?thesis
    by (simp add: decode_body_def decode_i_def and_1_zero field_7 and_PF_iff pid_of_def)
qed

lemma decode_body_I128:
  assumes "unat c = 2 * s" "unat c2 = 2 * r + of_bool pf" "r < 128" "s < 128"
  shows "decode_body (c # c2 # p # info) True
   = Some \<lparr>b_type = F_I, b_pf = pf, b_ext = True, b_nr = Some r, b_ns = Some s, b_pid = Some p, b_info = info\<rparr>"
proof -
  have "unat c div 2 mod 128 = s" "unat c2 div 2 mod 128 = r" "odd (unat c2) = pf" "even (unat c)"
    using assms by (cases pf; simp)+
  then show ?thesis
    by (simp add: decode_body_def decode_i_def and_1_zero and_1_iff field_7f pid_of_def)
qed

lemma decode_body_S8:
  assumes "unat c = 32 * r + 16 * of_bool pf + 4 * k + 1" "r < 8" "s_bits t = Some k"
  shows "decode_body (c # rest) False
   = Some \<lparr>b_type = t, b_pf = pf, b_ext = False, b_nr = Some r, b_ns = None, b_pid = None, b_info = []\<rparr>"
proof -
  have k: "k < 4" "s_rev k = t" using assms(3) by (cases t; auto simp: s_rev_def)+
  have "unat c = 32 * r + 16 * of_bool pf + (4 * k + 1)" using assms(1) by simp
  note * = octet_arith [OF this _ _ assms(2)]
  have "unat c div 32 mod 8 = r" "unat c div 4 mod 4 = k" "odd (unat c div 16) = pf"
      "odd (unat c)" "unat c mod 4 = 1"
    using * k by auto
  with k show ?thesis
    by (simp add: decode_body_def decode_s_def and_1_zero and_3_one field_7 field_3 and_PF_iff)
qed

lemma decode_body_S128:
  assumes "unat c = 4 * k + 1" "unat c2 = 2 * r + of_bool pf" "r < 128" "s_bits t = Some k"
  shows "decode_body (c # c2 # rest) True
   = Some \<lparr>b_type = t, b_pf = pf, b_ext = True, b_nr = Some r, b_ns = None, b_pid = None, b_info = []\<rparr>"
proof -
  have k: "k < 4" "s_rev k = t" using assms(4) by (cases t; auto simp: s_rev_def)+
  then have "unat c div 4 mod 4 = k" "unat c2 div 2 mod 128 = r" "odd (unat c2) = pf" "odd (unat c)" "unat c mod 4 = 1"
    using assms(1-3) by (cases pf; simp; presburger)+
  with k show ?thesis
    by (simp add: decode_body_def decode_s_def and_1_zero and_1_iff and_3_one field_7f field_3)
qed

lemma decode_body_U:
  assumes "u_ctrl t = Some u"
  shows "decode_body ((u OR (if pf then PF else 0)) # rest) ext = Some
     \<lparr>b_type = t, b_pf = pf, b_ext = False, b_nr = None, b_ns = None,
      b_pid = (if t = F_UI then pid_of rest else None),
      b_info = (if t = F_UI then drop 1 rest else if t \<in> {F_FRMR, F_TEST} then rest else [])\<rparr>"
  using assms by (cases t; cases pf; simp add: decode_body_def decode_u_def u_rev_def PF_def)

lemma frame_type_cases:
  obtains (I) "t = F_I" | (S) k where "s_bits t = Some k" "t \<noteq> F_I" "t \<notin> {F_UI, F_FRMR, F_TEST}"
  | (U) u where "u_ctrl t = Some u" "s_bits t = None" "t \<noteq> F_I"
  by (cases t) auto

lemma decode_encode_body:
  assumes "wf_fields f extended"
  shows "decode_body (encode_body f extended) extended = Some
     \<lparr>b_type = f_type f, b_pf = f_pf f, b_ext = (f_extended f = Some True), b_nr = f_nr f, b_ns = f_ns f,
      b_pid = f_pid f, b_info = (case f_info f of None \<Rightarrow> [] | Some i \<Rightarrow> i)\<rparr>"
proof (cases rule: frame_type_cases [of "f_type f"])
  case I
  with assms obtain r s p where *: "f_nr f = Some r" "r < seq_limit extended" "f_ns f = Some s"
    "s < seq_limit extended" "f_pid f = Some p" and e: "f_extended f = (if extended then Some True else None)"
    by (auto simp: wf_fields_def)
  show ?thesis
  proof (cases extended)
    case True
    with control_ext_I [OF I *(1,3)] * obtain a b where
      "control_ext f = [a, b]" "unat a = 2 * s" "unat b = 2 * r + of_bool (f_pf f)"
      by (auto simp: seq_limit_def)
    with True I * e show ?thesis
      by (simp add: encode_body_def seq_limit_def decode_body_I128 split: option.splits)
  next
    case False
    with control_octet_I [OF I *(1,3)] I * e show ?thesis
      by (simp add: encode_body_def seq_limit_def decode_body_I8 split: option.splits)
  qed
next
  case (S k)
  with assms obtain r where *: "f_nr f = Some r" "r < seq_limit extended" "f_ns f = None"
    "f_pid f = None" "f_info f = None" and e: "f_extended f = (if extended then Some True else None)"
    by (auto simp: wf_fields_def)
  show ?thesis
  proof (cases extended)
    case True
    with control_ext_S [OF S(1) *(1)] * obtain a b where
      "control_ext f = [a, b]" "unat a = 4 * k + 1" "unat b = 2 * r + of_bool (f_pf f)"
      by (auto simp: seq_limit_def)
    with True S * e show ?thesis
      by (simp add: encode_body_def seq_limit_def decode_body_S128)
  next
    case False
    with control_octet_S [OF S(1) *(1)] S * e show ?thesis
      by (simp add: encode_body_def seq_limit_def decode_body_S8)
  qed
next
  case (U u)
  have c: "control_octet f = u OR (if f_pf f then PF else 0)"
    using U by (simp add: control_octet_def)
  have "f_pid f = None \<longleftrightarrow> f_type f \<noteq> F_UI" "f_extended f = None" "f_nr f = None" "f_ns f = None"
    "f_type f \<notin> {F_UI, F_FRMR, F_TEST} \<Longrightarrow> f_info f = None"
    using assms U by (auto simp: wf_fields_def)
  then show ?thesis
    using U by (auto simp: encode_body_def c decode_body_U pid_of_def split: option.splits)
qed

lemma decode_encode_frame [codec_simps]:
  assumes "wf_frame f extended"
  shows "decode_frame (encode_frame f extended) extended = Some f"
proof -
  note split = encode_frame_def [of f extended]
  from assms decode_encode_addrs [of f "encode_body f extended"] obtain as where as:
    "decode_addrs 10 (encode_frame f extended) = Some (as, encode_body f extended)"
    "2 \<le> length as" "da_last (last as)" "da_addr (as ! 0) = f_dst f" "da_addr (as ! 1) = f_src f"
    "da_cbit (as ! 0) = f_command f" "nonempty (map da_addr (drop 2 as)) = f_digis f"
    "nonempty (map da_cbit (drop 2 as)) = f_digis_repeated f"
    by (auto simp: wf_frame_def split)
  have "1 \<le> length (encode_body f extended)"
    by (simp add: encode_body_def control_ext_def Let_def)
  then have "15 \<le> length (encode_frame f extended)"
    by (simp add: split encode_addrs_def Let_def)
  moreover have "nonempty (case f_info f of None \<Rightarrow> [] | Some i \<Rightarrow> i) = f_info f"
    "f_extended f = (if f_extended f = Some True then Some True else None)"
    using assms by (auto simp: wf_frame_def wf_fields_def nonempty_def split: option.splits if_splits)
  ultimately show ?thesis
    using as assms decode_encode_body [of f extended]
    by (simp add: decode_frame_def wf_frame_def)
qed


interpretation frame8: codec "\<lambda>f. encode_frame f False" "\<lambda>bs. decode_frame bs False" "\<lambda>f. wf_frame f False"
  by unfold_locales (rule decode_encode_frame)

interpretation frame128: codec "\<lambda>f. encode_frame f True" "\<lambda>bs. decode_frame bs True" "\<lambda>f. wf_frame f True"
  by unfold_locales (rule decode_encode_frame)

section \<open>What the decoder accepts\<close>

lemma decode_address_ssid: "addr_ssid (da_addr (decode_address b)) \<le> 15"
proof -
  have "unat (drop_bit 1 x AND 0x0f) \<le> 15" for x :: byte
  proof -
    have "(0x0f :: byte) = mask 4" by (simp add: mask_eq_exp_minus_1)
    then have "unat (drop_bit 1 x AND 0x0f) = unat x div 2 mod 16"
      using byte_field [of 1 x 4] by (simp only:) simp
    then show ?thesis by simp
  qed
  then show ?thesis by (simp add: decode_address_def Let_def)
qed

lemma decode_address_call:
  "length (addr_call (da_addr (decode_address b))) \<le> 6
   \<and> (\<forall>c\<in>set (addr_call (da_addr (decode_address b))). char_code c < 128)
   \<and> (addr_call (da_addr (decode_address b)) = [] \<or> \<not> is_space (last (addr_call (da_addr (decode_address b)))))"
proof -
  let ?c = "map (\<lambda>i. from_char_code (unat (drop_bit 1 (js_byte b i)))) [0..<6]"
  have call: "addr_call (da_addr (decode_address b)) = js_trim_end ?c"
    by (simp add: decode_address_def Let_def del: upt.simps upt_rec_numeral)
  have "unat (drop_bit 1 x) < 128" for x :: byte
  proof -
    have "unat x div 2 < 128" using unat_byte_lt [of x] by linarith
    then show ?thesis by (subst unat_drop_byte) (simp only: power_one_right)
  qed
  then have "\<forall>c\<in>set ?c. char_code c < 128"
    by (auto simp del: upt.simps upt_rec_numeral simp: less_trans)
  moreover have "set (js_trim_end ?c) \<subseteq> set ?c" by (rule set_trim_end_where)
  moreover have "length (js_trim_end ?c) \<le> 6" using length_trim_end_where [of is_space ?c] by simp
  ultimately show ?thesis
    unfolding call using trim_end_where_last [of is_space ?c] by blast
qed

lemma decode_addrs_all:
  "decode_addrs n bs = Some (as, rest) \<Longrightarrow> a \<in> set as \<Longrightarrow> \<exists>b. a = decode_address b"
  by (induction n bs arbitrary: as rule: decode_addrs.induct)
    (auto simp: Let_def split: if_splits option.splits)

lemma decode_addrs_length:
  "decode_addrs n bs = Some (as, rest) \<Longrightarrow> length as \<le> n \<and> bs = take (7 * length as) bs @ rest
    \<and> 7 * length as \<le> length bs"
proof (induction n bs arbitrary: as rest rule: decode_addrs.induct)
  case (2 n bs)
  then show ?case
  proof (cases "da_last (decode_address bs)")
    case False
    with 2 obtain as' where as: "as = decode_address bs # as'" "decode_addrs n (drop 7 bs) = Some (as', rest)"
      "7 \<le> length bs"
      by (auto simp: Let_def split: if_splits option.splits)
    have "\<not> length bs < 7" using as(3) by simp
    from "2.IH" [OF this refl refl False as(2)]
    have IH: "length as' \<le> n" "drop 7 bs = take (7 * length as') (drop 7 bs) @ rest"
      "7 * length as' \<le> length bs - 7" by simp_all
    have "bs = take 7 bs @ drop 7 bs" by simp
    also have "\<dots> = take 7 bs @ take (7 * length as') (drop 7 bs) @ rest"
      using IH(2) by simp
    also have "take 7 bs @ take (7 * length as') (drop 7 bs) @ rest = take (7 * length as) bs @ rest"
      by (simp add: as(1) take_add)
    finally show ?thesis using IH as by simp
  qed (auto simp: Let_def split: if_splits)
qed simp

definition body_in_range :: "body \<Rightarrow> bool \<Rightarrow> bool" where
  "body_in_range b extended =
     (opt0 (b_nr b) < seq_limit extended \<and> opt0 (b_ns b) < seq_limit extended
      \<and> (b_ext b \<longrightarrow> extended) \<and> (b_ns b \<noteq> None \<longleftrightarrow> b_type b = F_I)
      \<and> (b_nr b \<noteq> None \<longleftrightarrow> b_type b = F_I \<or> s_bits (b_type b) \<noteq> None))"

lemma decode_i_range: "decode_i c rest extended = Some b \<Longrightarrow> body_in_range b extended"
  by (auto simp: decode_i_def body_in_range_def opt0_def seq_limit_def field_7 field_7f
      split: list.splits if_splits)

lemma s_rev_range: "s_bits (s_rev (unat (drop_bit 2 c AND 3))) \<noteq> None"
  "s_rev (unat (drop_bit 2 (c :: byte) AND 3)) \<noteq> F_I"
proof -
  have "unat (drop_bit 2 c AND 3) < 4" by (simp add: field_3)
  then have "unat (drop_bit 2 c AND 3) \<in> {0, 1, 2, 3}" by auto
  then show "s_bits (s_rev (unat (drop_bit 2 c AND 3))) \<noteq> None"
    "s_rev (unat (drop_bit 2 c AND 3)) \<noteq> F_I"
    by (auto simp: s_rev_def)
qed

lemma decode_s_range: "decode_s c rest extended = Some b \<Longrightarrow> body_in_range b extended"
  using s_rev_range [of c]
  by (auto simp: decode_s_def body_in_range_def opt0_def seq_limit_def field_7 field_7f Let_def
      split: list.splits if_splits)

lemma u_rev_range: "u_rev x = Some t \<Longrightarrow> t \<noteq> F_I \<and> s_bits t = None"
  by (auto simp: u_rev_def split: if_splits)

lemma decode_u_range: "body_in_range (decode_u c rest) extended"
  using u_rev_range [of "c AND NOT PF"]
  by (cases "u_rev (c AND NOT PF)")
    (simp_all add: decode_u_def body_in_range_def opt0_def seq_limit_def Let_def)

lemma decode_body_range: "decode_body bs extended = Some b \<Longrightarrow> body_in_range b extended"
  by (auto simp: decode_body_def intro: decode_i_range decode_s_range decode_u_range
      split: list.splits if_splits simp del: One_nat_def)

definition ok_address :: "address \<Rightarrow> bool" where
  "ok_address a = (addr_ssid a \<le> 15 \<and> length (addr_call a) \<le> 6)"

lemma decode_frame_ranges:
  assumes "decode_frame bs extended = Some f"
  shows "ok_address (f_dst f) \<and> ok_address (f_src f)
   \<and> (\<forall>ds. f_digis f = Some ds \<longrightarrow> ds \<noteq> [] \<and> length ds \<le> 8 \<and> (\<forall>d\<in>set ds. ok_address d)
        \<and> (\<exists>hs. f_digis_repeated f = Some hs \<and> length hs = length ds))
   \<and> (\<forall>r. f_nr f = Some r \<longrightarrow> r < seq_limit extended) \<and> (\<forall>s. f_ns f = Some s \<longrightarrow> s < seq_limit extended)
   \<and> f_info f \<noteq> Some []"
proof -
  from assms obtain as rest b where as: "decode_addrs 10 bs = Some (as, rest)" "2 \<le> length as"
    and b: "decode_body rest extended = Some b"
    and f: "f_dst f = da_addr (as ! 0)" "f_src f = da_addr (as ! 1)"
      "f_digis f = nonempty (map da_addr (drop 2 as))" "f_digis_repeated f = nonempty (map da_cbit (drop 2 as))"
      "f_nr f = b_nr b" "f_ns f = b_ns b" "f_info f = nonempty (b_info b)"
    by (auto simp: decode_frame_def split: if_splits option.splits)
  have ok: "a \<in> set as \<Longrightarrow> ok_address (da_addr a)" for a
    using decode_addrs_all [OF as(1)] decode_address_ssid decode_address_call by (fastforce simp: ok_address_def)
  have "as ! 0 \<in> set as" "as ! 1 \<in> set as" using as(2) by (auto intro: nth_mem)
  then have "ok_address (da_addr (as ! 0))" "ok_address (da_addr (as ! 1))" by (auto intro: ok)
  moreover have "length as \<le> 10" using decode_addrs_length [OF as(1)] by simp
  ultimately show ?thesis
    using decode_body_range [OF b] ok
    by (auto simp: f nonempty_def body_in_range_def opt0_def dest: in_set_dropD)
qed

section \<open>The text form\<close>

lemma is_digit_upper [simp]: "is_digit c \<Longrightarrow> upper_char c = c"
  by (simp add: is_digit_def upper_char_def)

lemma js_upper_nat_str [simp]: "js_upper (nat_str n) = nat_str n"
  using nat_str_digits [of _ n] by (simp add: js_upper_def map_idI)

lemma is_digit_not: "is_digit c \<Longrightarrow> \<not> is_space c \<and> c \<noteq> CHR ''-'' \<and> c \<noteq> CHR ''+''"
  by (auto simp: is_digit_def is_space_def char_code_def)

lemma parse_int_nat_str [simp]: "parse_int (nat_str n) = Some (int n)"
proof -
  obtain c cs where c: "nat_str n = c # cs" by (cases "nat_str n") auto
  have d: "is_digit x" if "x \<in> set (nat_str n)" for x using that by (rule nat_str_digits)
  then have "is_digit c" using c by simp
  then have "dropWhile is_space (nat_str n) = nat_str n" using is_digit_not c by simp
  moreover have "takeWhile is_digit (nat_str n) = nat_str n" using d by simp
  ultimately show ?thesis
    using is_digit_not [OF \<open>is_digit c\<close>] c by (simp add: parse_int_def Let_def) (metis digits_value_nat_str)
qed

lemma parse_addr_str:
  assumes "wf_address a" "CHR ''-'' \<notin> set (addr_call a)"
  shows "parse_addr (addr_str a) = a"
proof (cases "addr_ssid a = 0")
  case True
  then show ?thesis
    using assms by (simp add: parse_addr_def addr_str_def wf_address_def split_on_none)
next
  case False
  have "CHR ''-'' \<notin> set (nat_str (addr_ssid a))"
    using nat_str_digits is_digit_not by blast
  moreover have "upper_char (CHR ''-'') = CHR ''-''"
    by (simp add: upper_char_def char_code_def)
  ultimately have "split_on (CHR ''-'') (js_upper (addr_str a)) = [addr_call a, nat_str (addr_ssid a)]"
    using False assms by (simp add: addr_str_def wf_address_def split_on_append split_on_none)
  then show ?thesis
    using assms False by (simp add: parse_addr_def Let_def wf_address_def)
qed

section \<open>Properties\<close>

text \<open>C18: Whatever frame the codec carries (every frame type, with or without a digipeater
  path, in both moduli) is decoded from its own encoding unchanged.\<close>

theorem frame_roundtrip:
  assumes "wf_frame f extended"
  shows "decode_frame (encode_frame f extended) extended = Some f"
  using assms frame8.dec_enc frame128.dec_enc by (cases extended) auto

definition demo_frame :: frame where
  "demo_frame = \<lparr>f_dst = \<lparr>addr_call = ''Q1TEST'', addr_ssid = 7\<rparr>, f_src = \<lparr>addr_call = ''N0CALL'', addr_ssid = 1\<rparr>,
     f_digis = Some [\<lparr>addr_call = ''WIDE1'', addr_ssid = 1\<rparr>], f_digis_repeated = Some [True],
     f_command = True, f_type = F_I, f_pf = True, f_extended = Some True,
     f_nr = Some 77, f_ns = Some 127, f_pid = Some 0xCF, f_info = Some [1, 2, 3]\<rparr>"

lemma demo_frame_wf: "wf_frame demo_frame True"
  by (simp add: wf_frame_def wf_via_def wf_fields_def demo_frame_def seq_limit_def wf_address_def
      is_space_def upper_char_def char_code_def)

theorem frame_roundtrip_witness:
  "decode_frame (encode_frame demo_frame True) True = Some demo_frame"
  by (rule frame_roundtrip [OF demo_frame_wf])

text \<open>Whatever bytes arrive, a frame the decoder accepts is in range: SSIDs of four bits,
  callsigns of at most six characters, one to eight digipeaters when there is a path with as
  many H bits, sequence numbers below the modulus, and no empty information field.\<close>

theorem decoded_frame_in_range:
  assumes "decode_frame bs extended = Some f"
  shows "ok_address (f_dst f) \<and> ok_address (f_src f)
   \<and> (\<forall>ds. f_digis f = Some ds \<longrightarrow> ds \<noteq> [] \<and> length ds \<le> 8 \<and> (\<forall>d\<in>set ds. ok_address d)
        \<and> (\<exists>hs. f_digis_repeated f = Some hs \<and> length hs = length ds))
   \<and> (\<forall>r. f_nr f = Some r \<longrightarrow> r < seq_limit extended) \<and> (\<forall>s. f_ns f = Some s \<longrightarrow> s < seq_limit extended)
   \<and> f_info f \<noteq> Some []"
  by (rule decode_frame_ranges [OF assms])

theorem decoded_frame_in_range_witness:
  "the (f_ns demo_frame) < seq_limit True \<and> ok_address (f_src demo_frame)"
proof -
  have "decode_frame (encode_frame demo_frame True) True = Some demo_frame"
    using demo_frame_wf frame128.dec_enc by simp
  from decoded_frame_in_range [OF this] show ?thesis
    by (simp add: demo_frame_def)
qed

end
