(* ===== verification/Dedupe.thy ===== *)
theory Dedupe
  imports Interfaces
begin

text \<open>
  The duplicate window the two digipeaters of \<open>apps/ingest/src/digipeater.ts\<close> keep: a map
  from content key to the time it was handled. Each call first drops the keys older than the
  window, then lets a key through only when it is not there, and notes it.
\<close>

type_synonym recent = "(string, int) jsmap"

definition prune :: "int \<Rightarrow> int \<Rightarrow> recent \<Rightarrow> recent" where
  "prune window now r = filter (\<lambda>(k, t). \<not> now - t > window) r"

definition admit :: "int \<Rightarrow> int \<Rightarrow> string \<Rightarrow> recent \<Rightarrow> bool \<times> recent" where
  "admit window now key r =
     (let r = prune window now r
      in if jm_get r key \<noteq> None then (False, r) else (True, jm_set key now r))"

text \<open>A run of keys with their times, and which of them were let through.\<close>

fun admit_all :: "int \<Rightarrow> (int \<times> string) list \<Rightarrow> recent \<Rightarrow> bool list \<times> recent" where
  "admit_all window [] r = ([], r)"
| "admit_all window ((now, key) # es) r =
     (let (b, r1) = admit window now key r; (bs, r2) = admit_all window es r1 in (b # bs, r2))"

lemma jm_get_prune:
  "jm_ok r \<Longrightarrow> jm_get (prune window now r) k =
     (case jm_get r k of None \<Rightarrow> None | Some t \<Rightarrow> if now - t > window then None else Some t)"
proof (induction r)
  case (Cons a r)
  then have r: "jm_ok r" "fst a \<notin> fst ` set r" by (simp_all add: jm_ok_def)
  have n: "jm_get (prune window now r) (fst a) = None"
    using r(2) by (auto simp: prune_def map_of_eq_None_iff)
  show ?case
    using Cons.IH [OF r(1)] n by (cases a) (auto simp: prune_def)
qed (simp add: prune_def)

lemma jm_ok_prune [simp]: "jm_ok r \<Longrightarrow> jm_ok (prune window now r)"
  by (simp add: prune_def)

lemma admit_ok: "jm_ok r \<Longrightarrow> jm_ok (snd (admit window now key r))"
  by (simp add: admit_def Let_def)

text \<open>A key that is held is refused while the window lasts, and stays held.\<close>

definition held :: "recent \<Rightarrow> string \<Rightarrow> int \<Rightarrow> bool" where
  "held r k t0 = (\<exists>t. jm_get r k = Some t \<and> t0 \<le> t)"

lemma admit_held:
  assumes "jm_ok r" "held r k t0" "t0 \<le> now" "now \<le> t0 + window"
  shows "held (snd (admit window now key r)) k t0" "key = k \<Longrightarrow> \<not> fst (admit window now key r)"
proof -
  obtain t where t: "jm_get r k = Some t" "t0 \<le> t" using assms(2) by (auto simp: held_def)
  then have p: "jm_get (prune window now r) k = Some t"
    using assms by (simp add: jm_get_prune)
  show "held (snd (admit window now key r)) k t0"
    using p t assms(3) by (auto simp: admit_def Let_def held_def)
  show "key = k \<Longrightarrow> \<not> fst (admit window now key r)"
    using p by (simp add: admit_def Let_def)
qed

lemma admit_new: "fst (admit window now key r) \<Longrightarrow> held (snd (admit window now key r)) key now"
  by (auto simp: admit_def Let_def held_def split: if_splits)

lemma admit_all_held:
  "jm_ok r \<Longrightarrow> held r k t0 \<Longrightarrow> (\<And>t x. (t, x) \<in> set es \<Longrightarrow> t0 \<le> t \<and> t \<le> t0 + window) \<Longrightarrow>
   i < length es \<Longrightarrow> snd (es ! i) = k \<Longrightarrow> \<not> fst (admit_all window es r) ! i"
proof (induction es arbitrary: r i)
  case (Cons e es)
  obtain now key where e: "e = (now, key)" by (cases e)
  have t: "t0 \<le> now" "now \<le> t0 + window" using Cons.prems(3) [of now key] e by auto
  note h = admit_held [OF Cons.prems(1,2) t]
  show ?case
  proof (cases i)
    case 0
    then show ?thesis using h(2) [of key] Cons.prems(5) e by (simp add: split_beta)
  next
    case (Suc j)
    have "\<not> fst (admit_all window es (snd (admit window now key r))) ! j"
      using Cons.prems Suc by (intro Cons.IH admit_ok h(1)) auto
    then show ?thesis using Suc e by (simp add: split_beta)
  qed
qed simp

lemma length_admit_all [simp]: "length (fst (admit_all window es r)) = length es"
proof (induction es arbitrary: r)
  case (Cons e es)
  then show ?case by (cases e) (simp add: split_beta)
qed simp

lemma admit_all_take: "fst (admit_all window (take n es) r) = take n (fst (admit_all window es r))"
proof (induction es arbitrary: n r)
  case (Cons e es)
  then show ?case by (cases e; cases n) (simp_all add: split_beta)
qed simp

text \<open>Two passes of one key are more than the window apart.\<close>

lemma admit_all_apart:
  "jm_ok r \<Longrightarrow> sorted (map fst es) \<Longrightarrow> i < j \<Longrightarrow> j < length es \<Longrightarrow> snd (es ! i) = snd (es ! j) \<Longrightarrow>
   fst (admit_all window es r) ! i \<Longrightarrow> fst (admit_all window es r) ! j \<Longrightarrow>
   fst (es ! j) - fst (es ! i) > window"
proof (induction es arbitrary: r i j)
  case (Cons e es)
  obtain now key where e: "e = (now, key)" by (cases e)
  obtain j' where j: "j = Suc j'" using Cons.prems(3) by (cases j) auto
  let ?r = "snd (admit window now key r)"
  have ok: "jm_ok ?r" using Cons.prems(1) by (rule admit_ok)
  show ?case
  proof (cases i)
    case 0
    show ?thesis
    proof (rule ccontr)
      assume "\<not> ?thesis"
      then have near: "fst (es ! j') \<le> now + window" using 0 j e by simp
      have adm: "fst (admit window now key r)" using Cons.prems(6) 0 e by (simp add: split_beta)
      let ?es = "take (Suc j') es"
      have jl: "j' < length es" using Cons.prems(4) j by simp
      have in_range: "now \<le> t \<and> t \<le> now + window" if "(t, x) \<in> set ?es" for t x
      proof -
        from that obtain m where m: "m < length ?es" "?es ! m = (t, x)" unfolding in_set_conv_nth by blast
        have m1: "m < Suc j'" "m < length es" using m(1) by (simp_all only: length_take min_less_iff_conj)
        then have m': "m \<le> j'" "es ! m = (t, x)" using m(2) by (simp_all only: nth_take less_Suc_eq_le)
        have srt: "sorted (map fst es)" and first: "\<forall>t\<in>set (map fst es). now \<le> t"
          using Cons.prems(2) e by simp_all
        have "map fst es ! m \<le> map fst es ! j'" using srt m'(1) jl by (intro sorted_nth_mono) simp_all
        then have "t \<le> now + window" using near m' m1(2) jl by simp
        moreover have "now \<le> t" using first nth_mem [OF m1(2)] m'(2) by force
        ultimately show ?thesis by simp
      qed
      have "\<not> fst (admit_all window ?es ?r) ! j'"
      proof (rule admit_all_held [OF ok admit_new [OF adm]])
        show "\<And>t x. (t, x) \<in> set ?es \<Longrightarrow> now \<le> t \<and> t \<le> now + window" by (rule in_range)
        show "j' < length ?es" using jl by simp
        show "snd (?es ! j') = key" using Cons.prems(5) 0 j e by simp
      qed
      then have "\<not> fst (admit_all window es ?r) ! j'" using jl by (simp add: admit_all_take)
      then show False using Cons.prems(7) j e by (simp add: split_beta)
    qed
  next
    case (Suc i')
    have "fst (es ! j') - fst (es ! i') > window"
    proof (rule Cons.IH [OF ok])
      show "sorted (map fst es)" using Cons.prems(2) by simp
      show "fst (admit_all window es ?r) ! i'" "fst (admit_all window es ?r) ! j'"
        using Cons.prems(6,7) Suc j e by (simp_all add: split_beta)
    qed (use Cons.prems Suc j in auto)
    then show ?thesis using Suc j by simp
  qed
qed simp

end
