(* ===== verification/Ax25_Digipeat.thy ===== *)
theory Ax25_Digipeat
  imports Ax25_Frame Dedupe Interfaces
begin

text \<open>
  Connected-mode digipeating: \<open>packages/ax25/src/digipeat.ts\<close> and the stateful
  \<open>ConnectedDigipeater\<close> of \<open>apps/ingest/src/digipeater.ts\<close> that drives it. Timers are
  explicit: \<open>setTimeout\<close> adds an entry with a fresh id, \<open>clearTimeout\<close> removes it, and
  \<open>cd_fire\<close> is the callback of one entry. The map of what was handled may be shared with the digipeaters of other
  ports: it is given to the constructor, and what another port does to it is an event.
\<close>

section \<open>One frame\<close>

text \<open>
  The via path and its H bits come from outside the function, so the H-bit list may be longer
  than the path; comparing an own address with the missing hop is a \<open>TypeError\<close>.
\<close>

datatype digi_result = Digi_Throws | Digi_Null | Digi_Repeat frame

definition digipeat_ax25 :: "frame \<Rightarrow> address list \<Rightarrow> digi_result" where
  "digipeat_ax25 f ours =
     (let digis = (case f_digis f of None \<Rightarrow> [] | Some ds \<Rightarrow> ds)
      in if digis = [] then Digi_Null
         else let repeated = (case f_digis_repeated f of None \<Rightarrow> map (\<lambda>_. False) digis | Some hs \<Rightarrow> hs)
              in case index_of False repeated of
                   None \<Rightarrow> Digi_Null
                 | Some next_hop \<Rightarrow>
                     if next_hop \<ge> length digis then (if ours = [] then Digi_Null else Digi_Throws)
                     else if \<not> list_ex (\<lambda>o'. same_addr o' (digis ! next_hop)) ours then Digi_Null
                     else Digi_Repeat (f\<lparr>f_digis := Some digis, f_digis_repeated := Some (repeated[next_hop := True])\<rparr>))"

fun type_str :: "frame_type \<Rightarrow> string" where
  "type_str F_SABM = ''SABM''"
| "type_str F_SABME = ''SABME''"
| "type_str F_DISC = ''DISC''"
| "type_str F_UA = ''UA''"
| "type_str F_DM = ''DM''"
| "type_str F_FRMR = ''FRMR''"
| "type_str F_UI = ''UI''"
| "type_str F_XID = ''XID''"
| "type_str F_TEST = ''TEST''"
| "type_str F_I = ''I''"
| "type_str F_RR = ''RR''"
| "type_str F_RNR = ''RNR''"
| "type_str F_REJ = ''REJ''"
| "type_str F_SREJ = ''SREJ''"

definition opt_str :: "nat option \<Rightarrow> string" where
  "opt_str x = (case x of None \<Rightarrow> [] | Some n \<Rightarrow> nat_str n)"

definition frame_content_key :: "frame \<Rightarrow> string" where
  "frame_content_key f =
     addr_str (f_src f) @ ''>'' @ addr_str (f_dst f) @ ''|'' @ type_str (f_type f) @ ''|''
     @ opt_str (f_ns f) @ ''.'' @ opt_str (f_nr f) @ ''|'' @ (if f_pf f then ''1'' else ''0'')"

section \<open>Viscous bookkeeping\<close>

type_synonym 't viscous = "(string, 't) jsmap"

definition vd_schedule :: "string \<Rightarrow> 't \<Rightarrow> 't viscous \<Rightarrow> 't viscous" where
  "vd_schedule key token v = jm_set key token v"

definition vd_on_duplicate :: "string \<Rightarrow> 't viscous \<Rightarrow> 't option \<times> 't viscous" where
  "vd_on_duplicate key v =
     (case jm_get v key of None \<Rightarrow> (None, v) | Some t \<Rightarrow> (Some t, jm_delete key v))"

definition vd_fired :: "string \<Rightarrow> 't viscous \<Rightarrow> 't viscous" where
  "vd_fired key v = jm_delete key v"

definition vd_pending_count :: "'t viscous \<Rightarrow> nat" where
  "vd_pending_count v = length v"

section \<open>The station's digipeater\<close>

record digi_timer =
  dt_id :: nat
  dt_due :: int
  dt_key :: string
  dt_frame :: frame

record cdigi =
  cd_ours :: "address list"
  cd_dedupe :: int
  cd_viscous_ms :: int
  cd_recent :: recent
  cd_viscous :: "nat viscous"
  cd_timers :: "digi_timer list"
  cd_next :: nat
  cd_sent :: "frame list"

definition new_cdigi :: "string \<Rightarrow> string list \<Rightarrow> int option \<Rightarrow> int option \<Rightarrow> recent option \<Rightarrow> cdigi" where
  "new_cdigi mycall aliases dedupe_ms viscous_ms shared =
     \<lparr>cd_ours = map parse_addr (mycall # aliases),
      cd_dedupe = (case dedupe_ms of None \<Rightarrow> 30000 | Some n \<Rightarrow> n),
      cd_viscous_ms = (case viscous_ms of None \<Rightarrow> 0 | Some n \<Rightarrow> n),
      cd_recent = (case shared of None \<Rightarrow> [] | Some r \<Rightarrow> r), cd_viscous = [], cd_timers = [], cd_next = 0, cd_sent = []\<rparr>"

text \<open>The part of \<open>onRaw\<close> after the viscous check.\<close>

definition cd_relay :: "int \<Rightarrow> frame \<Rightarrow> string \<Rightarrow> cdigi \<Rightarrow> cdigi" where
  "cd_relay now f key d =
     (case digipeat_ax25 f (cd_ours d) of
        Digi_Repeat out \<Rightarrow>
          let (pass, r) = admit (cd_dedupe d) now key (cd_recent d);
              d = d\<lparr>cd_recent := r\<rparr>
          in if \<not> pass then d
             else if cd_viscous_ms d \<noteq> 0
             then d\<lparr>cd_timers := cd_timers d @
                      [\<lparr>dt_id = cd_next d, dt_due = now + cd_viscous_ms d, dt_key = key, dt_frame = out\<rparr>],
                    cd_viscous := vd_schedule key (cd_next d) (cd_viscous d), cd_next := cd_next d + 1\<rparr>
             else d\<lparr>cd_sent := cd_sent d @ [out]\<rparr>
      | _ \<Rightarrow> d)"

definition cd_on_raw :: "int \<Rightarrow> byte list \<Rightarrow> cdigi \<Rightarrow> cdigi" where
  "cd_on_raw now bytes d =
     (case decode_frame bytes False of
        None \<Rightarrow> d
      | Some f \<Rightarrow>
          let key = frame_content_key f
          in if cd_viscous_ms d \<noteq> 0
             then (case vd_on_duplicate key (cd_viscous d) of
                     (Some tok, v) \<Rightarrow> d\<lparr>cd_viscous := v, cd_timers := filter (\<lambda>t. dt_id t \<noteq> tok) (cd_timers d)\<rparr>
                   | (None, v) \<Rightarrow> cd_relay now f key (d\<lparr>cd_viscous := v\<rparr>))
             else cd_relay now f key d)"

definition cd_fire :: "digi_timer \<Rightarrow> cdigi \<Rightarrow> cdigi" where
  "cd_fire t d =
     d\<lparr>cd_timers := filter (\<lambda>u. dt_id u \<noteq> dt_id t) (cd_timers d),
       cd_viscous := vd_fired (dt_key t) (cd_viscous d), cd_sent := cd_sent d @ [dt_frame t]\<rparr>"

text \<open>
  One event: a frame heard, the first timer due, or a key handled by the digipeater of another port, which shares the
  map of what was handled (each port with the same window).
\<close>

datatype digi_event = Heard "byte list" | Tick | Other_port string

fun cd_step :: "cdigi \<Rightarrow> int \<times> digi_event \<Rightarrow> cdigi" where
  "cd_step d (now, Heard bytes) = cd_on_raw now bytes d"
| "cd_step d (now, Other_port key) = d\<lparr>cd_recent := snd (admit (cd_dedupe d) now key (cd_recent d))\<rparr>"
| "cd_step d (now, Tick) =
     (case find (\<lambda>t. dt_due t \<le> now) (cd_timers d) of None \<Rightarrow> d | Some t \<Rightarrow> cd_fire t d)"

section \<open>Lemmas\<close>

lemma relay_iff:
  assumes "f_digis f = Some ds" "ds \<noteq> []" "f_digis_repeated f = Some hs" "length hs = length ds"
  shows "digipeat_ax25 f ours \<noteq> Digi_Throws"
    and "digipeat_ax25 f ours = Digi_Repeat g \<longleftrightarrow>
     (\<exists>i<length ds. \<not> hs ! i \<and> (\<forall>j<i. hs ! j) \<and> ds ! i \<in> set ours
        \<and> g = f\<lparr>f_digis_repeated := Some (hs[i := True])\<rparr>)"
proof -
  have d: "digipeat_ax25 f ours =
     (case index_of False hs of
        None \<Rightarrow> Digi_Null
      | Some i \<Rightarrow> if ds ! i \<in> set ours then Digi_Repeat (f\<lparr>f_digis_repeated := Some (hs[i := True])\<rparr>) else Digi_Null)"
  proof (cases "index_of False hs")
    case None
    then show ?thesis using assms by (simp add: digipeat_ax25_def Let_def)
  next
    case (Some i)
    then have "i < length ds" using assms(4) by (simp add: index_of_Some)
    moreover have "f\<lparr>f_digis := Some ds\<rparr> = f" using assms(1) by (cases f) simp
    then have "f\<lparr>f_digis := Some ds, f_digis_repeated := r\<rparr> = f\<lparr>f_digis_repeated := r\<rparr>" for r by simp
    ultimately show ?thesis
      using assms(1-3) by (simp add: digipeat_ax25_def Let_def list_ex_iff Some)
  qed
  then show "digipeat_ax25 f ours \<noteq> Digi_Throws" by (simp split: option.split)
  show "digipeat_ax25 f ours = Digi_Repeat g \<longleftrightarrow>
     (\<exists>i<length ds. \<not> hs ! i \<and> (\<forall>j<i. hs ! j) \<and> ds ! i \<in> set ours
        \<and> g = f\<lparr>f_digis_repeated := Some (hs[i := True])\<rparr>)" (is "_ \<longleftrightarrow> ?r")
  proof (cases "index_of False hs")
    case None
    then have "False \<notin> set hs" by (simp add: index_of_None)
    then have "hs ! i" if "i < length ds" for i using that assms(4) nth_mem [of i hs] by (cases "hs ! i") simp_all
    then have "\<not> ?r" by auto
    then show ?thesis by (simp add: d None)
  next
    case (Some i)
    then have i: "i < length hs" "\<not> hs ! i" "\<forall>j<i. hs ! j" by (simp_all add: index_of_Some)
    have u: "(\<not> hs ! k \<and> (\<forall>j<k. hs ! j)) = (k = i)" for k
      using i by (metis linorder_neqE_nat)
    have "?r \<longleftrightarrow> (\<exists>k<length ds. (\<not> hs ! k \<and> (\<forall>j<k. hs ! j)) \<and> ds ! k \<in> set ours
        \<and> g = f\<lparr>f_digis_repeated := Some (hs[k := True])\<rparr>)" by blast
    also have "\<dots> \<longleftrightarrow> ds ! i \<in> set ours \<and> g = f\<lparr>f_digis_repeated := Some (hs[i := True])\<rparr>"
      using i assms(4) unfolding u by auto
    finally show ?thesis by (auto simp: d Some)
  qed
qed

lemma frame_content_key_via [simp]:
  "frame_content_key (f\<lparr>f_digis := a\<rparr>) = frame_content_key f"
  "frame_content_key (f\<lparr>f_digis_repeated := b\<rparr>) = frame_content_key f"
  "frame_content_key (f\<lparr>f_info := c\<rparr>) = frame_content_key f"
  by (simp_all add: frame_content_key_def)

lemma digipeat_key: "digipeat_ax25 f ours = Digi_Repeat g \<Longrightarrow> frame_content_key g = frame_content_key f"
  by (auto simp: digipeat_ax25_def Let_def split: if_splits option.splits)

section \<open>Hops are used up\<close>

definition unrepeated :: "frame \<Rightarrow> nat" where
  "unrepeated f = (case f_digis_repeated f of
     None \<Rightarrow> (case f_digis f of None \<Rightarrow> 0 | Some ds \<Rightarrow> length ds)
   | Some hs \<Rightarrow> length (filter Not hs))"

definition has_path :: "frame \<Rightarrow> bool" where
  "has_path f = (\<exists>ds hs. f_digis f = Some ds \<and> ds \<noteq> [] \<and> f_digis_repeated f = Some hs \<and> length hs = length ds)"

lemma filter_not_update:
  "i < length hs \<Longrightarrow> \<not> hs ! i \<Longrightarrow> Suc (length (filter Not (hs[i := True]))) = length (filter Not hs)"
proof (induction hs arbitrary: i)
  case (Cons h hs)
  then show ?case by (cases i) auto
qed simp

text \<open>Whatever the path and its H bits look like, a repeat uses up one hop.\<close>

lemma digipeat_uses_hop:
  assumes "digipeat_ax25 f ours = Digi_Repeat g"
  shows "Suc (unrepeated g) = unrepeated f"
proof -
  define hs where "hs = (case f_digis_repeated f of None \<Rightarrow> map (\<lambda>_. False) (case f_digis f of None \<Rightarrow> [] | Some ds \<Rightarrow> ds) | Some hs \<Rightarrow> hs)"
  obtain i where i: "index_of False hs = Some i" "f_digis_repeated g = Some (hs[i := True])"
    using assms by (auto simp: digipeat_ax25_def Let_def hs_def split: if_splits option.splits)
  have "unrepeated f = length (filter Not hs)"
    by (auto simp: unrepeated_def hs_def filter_map o_def split: option.split)
  moreover have "unrepeated g = length (filter Not (hs[i := True]))" by (simp add: unrepeated_def i(2))
  ultimately show ?thesis using i(1) filter_not_update [of i hs] by (simp add: index_of_Some)
qed

text \<open>A station of a network, by the addresses it answers to, and what it makes of a frame it hears.\<close>

definition relayed :: "address list \<Rightarrow> frame \<Rightarrow> frame option" where
  "relayed ours f = (case digipeat_ax25 f ours of Digi_Repeat g \<Rightarrow> Some g | _ \<Rightarrow> None)"

interpretation relays: repeater relayed unrepeated
proof
  fix s f g assume "relayed s f = Some g"
  then show "unrepeated g < unrepeated f"
    using digipeat_uses_hop [of f s g] by (auto simp: relayed_def split: digi_result.splits)
qed

section \<open>The bytes on the air\<close>

text \<open>Setting the top bit of one octet.\<close>

definition set_h :: "nat \<Rightarrow> byte list \<Rightarrow> byte list" where
  "set_h k bs = bs[k := bs ! k OR 0x80]"

lemma set_h_append_right: "set_h (length xs + k) (xs @ ys) = xs @ set_h k ys"
  by (simp add: set_h_def list_update_append)

lemma set_h_append_left: "k < length xs \<Longrightarrow> set_h k (xs @ ys) = set_h k xs @ ys"
  by (simp add: set_h_def list_update_append nth_append)

lemma set_h_last: "set_h (length xs) (xs @ [x]) = xs @ [x OR 0x80]"
  by (simp add: set_h_def)

lemma encode_address_hbit: "encode_address a True l = set_h 6 (encode_address a False l)"
proof -
  let ?c = "map (\<lambda>ch. push_bit 1 (byte_of (char_code ch))) (pad_end 6 (CHR '' '') (take 6 (js_upper (addr_call a))))"
  have "length ?c = 6" by simp
  moreover have "0x80 OR (x :: byte) = (0 OR x) OR 0x80" for x by (simp add: or.commute)
  ultimately show ?thesis
    using set_h_last [of ?c] by (simp only: encode_address_def Let_def if_True if_False)
qed

lemma length_encode_digis [simp]: "length (encode_digis ds hs) = 7 * length ds"
  by (induction ds hs rule: encode_digis.induct) auto

lemma encode_digis_hbit:
  "i < length ds \<Longrightarrow> length hs = length ds \<Longrightarrow> \<not> hs ! i \<Longrightarrow>
   encode_digis ds (hs[i := True]) = set_h (7 * i + 6) (encode_digis ds hs)"
proof (induction ds arbitrary: hs i)
  case (Cons d ds)
  then obtain h hs' where hs: "hs = h # hs'" by (cases hs) auto
  show ?case
  proof (cases i)
    case 0
    then show ?thesis
      using Cons.prems hs encode_address_hbit [of d "ds = []"] set_h_append_left [of 6 "encode_address d False (ds = [])"]
      by simp
  next
    case (Suc k)
    have "set_h (7 * i + 6) (encode_digis (d # ds) hs)
        = encode_address d h (ds = []) @ set_h (7 * k + 6) (encode_digis ds hs')"
      using set_h_append_right [of "encode_address d h (ds = [])" "7 * k + 6" "encode_digis ds hs'"]
      by (simp add: hs Suc add.assoc)
    then show ?thesis
      using Cons.prems hs Suc Cons.IH [of k hs'] by simp
  qed
qed simp

lemma encode_frame_hbit:
  assumes "f_digis f = Some ds" "f_digis_repeated f = Some hs" "length hs = length ds"
    "i < length ds" "\<not> hs ! i"
  shows "encode_frame (f\<lparr>f_digis_repeated := Some (hs[i := True])\<rparr>) e = set_h (7 * (i + 2) + 6) (encode_frame f e)"
proof -
  let ?g = "f\<lparr>f_digis_repeated := Some (hs[i := True])\<rparr>"
  let ?pre = "encode_address (f_dst f) (f_command f) False @ encode_address (f_src f) (\<not> f_command f) (ds = [])"
  let ?b = "encode_body f e"
  have b: "encode_body ?g e = ?b"
    by (cases f) (simp only: encode_body_def control_ext_def control_octet_def frame.simps)
  have "encode_frame f e = ?pre @ (encode_digis ds hs @ ?b)"
    using assms(1,2) by (simp add: encode_frame_def encode_addrs_def)
  then have "set_h (length ?pre + (7 * i + 6)) (encode_frame f e) = ?pre @ set_h (7 * i + 6) (encode_digis ds hs @ ?b)"
    by (simp only: set_h_append_right)
  also have "\<dots> = ?pre @ set_h (7 * i + 6) (encode_digis ds hs) @ ?b"
    using assms(4) by (subst set_h_append_left) simp_all
  also have "\<dots> = encode_frame ?g e"
    using assms(1) encode_digis_hbit [OF assms(4,3,5)] by (simp add: encode_frame_def encode_addrs_def b)
  finally show ?thesis by (simp add: algebra_simps)
qed

section \<open>At most one repeat of a key in a window\<close>

text \<open>Repeats of a key, sent or still waiting on a timer.\<close>

definition key_count :: "string \<Rightarrow> cdigi \<Rightarrow> nat" where
  "key_count k d = length (filter (\<lambda>f. frame_content_key f = k) (cd_sent d))
     + length (filter (\<lambda>t. dt_key t = k) (cd_timers d))"

definition cd_ok :: "cdigi \<Rightarrow> bool" where
  "cd_ok d = (jm_ok (cd_recent d) \<and> (\<forall>t\<in>set (cd_timers d). dt_key t = frame_content_key (dt_frame t)))"

lemma length_filter_filter_le: "length (filter p (filter q xs)) \<le> length (filter p xs)"
  by (induction xs) auto

lemma filter_remove_one:
  "t \<in> set ts \<Longrightarrow> p t \<Longrightarrow> length (filter p (filter (\<lambda>u. i u \<noteq> i t) ts)) < length (filter p ts)"
proof (induction ts)
  case (Cons a ts)
  show ?case
  proof (cases "a = t")
    case True
    then show ?thesis using Cons.prems length_filter_filter_le [of p "\<lambda>u. i u \<noteq> i t" ts] by (simp add: less_Suc_eq_le)
  next
    case False
    then show ?thesis using Cons by auto
  qed
qed simp

lemma cd_fire_ok: "cd_ok d \<Longrightarrow> cd_ok (cd_fire t d)"
  by (auto simp: cd_ok_def cd_fire_def)

lemma cd_fire_count:
  assumes "cd_ok d" "t \<in> set (cd_timers d)"
  shows "key_count k (cd_fire t d) \<le> key_count k d"
proof -
  have k: "dt_key t = frame_content_key (dt_frame t)" using assms by (simp add: cd_ok_def)
  show ?thesis
  proof (cases "dt_key t = k")
    case True
    have "length (filter (\<lambda>t. dt_key t = k) (filter (\<lambda>u. dt_id u \<noteq> dt_id t) (cd_timers d)))
        < length (filter (\<lambda>t. dt_key t = k) (cd_timers d))"
      by (rule filter_remove_one [OF assms(2)]) (rule True)
    then show ?thesis using True k by (simp add: key_count_def cd_fire_def del: filter_filter)
  next
    case False
    then show ?thesis
      using k length_filter_filter_le [of "\<lambda>t. dt_key t = k" "\<lambda>u. dt_id u \<noteq> dt_id t" "cd_timers d"]
      by (simp add: key_count_def cd_fire_def del: filter_filter)
  qed
qed

lemma cd_relay_ok: "cd_ok d \<Longrightarrow> key = frame_content_key f \<Longrightarrow> cd_ok (cd_relay now f key d)"
  using admit_ok [of "cd_recent d" "cd_dedupe d" now key]
  by (auto simp: cd_ok_def cd_relay_def Let_def digipeat_key split_beta split: digi_result.splits)

lemma cd_relay_effect:
  assumes "cd_ok d" "key = frame_content_key f"
  shows "cd_dedupe (cd_relay now f key d) = cd_dedupe d"
    and "key_count k (cd_relay now f key d) = key_count k d
      + (if k = key \<and> (\<exists>g. digipeat_ax25 f (cd_ours d) = Digi_Repeat g) \<and> fst (admit (cd_dedupe d) now key (cd_recent d))
         then 1 else 0)"
    and "cd_recent (cd_relay now f key d) =
      (if \<exists>g. digipeat_ax25 f (cd_ours d) = Digi_Repeat g then snd (admit (cd_dedupe d) now key (cd_recent d))
       else cd_recent d)"
  using assms(2) digipeat_key
  by (auto simp: cd_relay_def Let_def key_count_def split_beta split: digi_result.splits)

text \<open>While a key is held, no step adds a repeat of it; a step that adds one leaves it held.\<close>

lemma cd_step_count:
  fixes e :: digi_event and k :: string and now :: int
  assumes ok: "cd_ok d" and now: "t0 \<le> now" "now \<le> t0 + cd_dedupe d"
  defines "d' \<equiv> cd_step d (now, e)"
  shows "cd_ok d' \<and> cd_dedupe d' = cd_dedupe d
    \<and> (held (cd_recent d) k t0 \<longrightarrow> held (cd_recent d') k t0 \<and> key_count k d' \<le> key_count k d)
    \<and> (key_count k d' \<le> key_count k d \<or> held (cd_recent d') k t0 \<and> key_count k d' = key_count k d + 1)"
proof (cases e)
  case Tick
  show ?thesis
  proof (cases "find (\<lambda>t. dt_due t \<le> now) (cd_timers d)")
    case None
    then show ?thesis using ok by (simp add: d'_def Tick)
  next
    case (Some t)
    then have t: "t \<in> set (cd_timers d)" by (auto simp: find_Some_iff)
    show ?thesis
      using Some cd_fire_count [OF ok t, of k] cd_fire_ok [OF ok, of t]
      by (simp add: d'_def Tick) (simp add: cd_fire_def)
  qed
next
  case (Other_port key)
  have jm: "jm_ok (cd_recent d)" using ok by (simp add: cd_ok_def)
  show ?thesis using ok admit_held(1) [OF jm _ now, of k key] admit_ok [OF jm]
    by (auto simp: d'_def Other_port cd_ok_def key_count_def)
next
  case (Heard bytes)
  show ?thesis
  proof (cases "decode_frame bytes False")
    case None
    then show ?thesis using ok by (simp add: d'_def Heard cd_on_raw_def)
  next
    case (Some f)
    let ?key = "frame_content_key f"
    show ?thesis
    proof (cases "cd_viscous_ms d \<noteq> 0 \<and> jm_get (cd_viscous d) ?key \<noteq> None")
      case True
      then obtain tok where "jm_get (cd_viscous d) ?key = Some tok" by auto
      then have d': "d' = d\<lparr>cd_viscous := jm_delete ?key (cd_viscous d),
          cd_timers := filter (\<lambda>t. dt_id t \<noteq> tok) (cd_timers d)\<rparr>"
        using Some True by (simp add: d'_def Heard cd_on_raw_def vd_on_duplicate_def Let_def)
      show ?thesis
        using ok length_filter_filter_le [of "\<lambda>t. dt_key t = k" "\<lambda>t. dt_id t \<noteq> tok" "cd_timers d"]
        by (simp add: d' cd_ok_def key_count_def del: filter_filter)
    next
      case False
      then have d': "d' = cd_relay now f ?key d"
        using Some by (auto simp: d'_def Heard cd_on_raw_def vd_on_duplicate_def Let_def)
      note r = cd_relay_effect [OF ok refl]
      have jm: "jm_ok (cd_recent d)" using ok by (simp add: cd_ok_def)
      have c: "cd_ok d'" unfolding d' by (rule cd_relay_ok [OF ok refl])
      show ?thesis
      proof (cases "\<exists>g. digipeat_ax25 f (cd_ours d) = Digi_Repeat g")
        case True
        show ?thesis
          using c admit_held [OF jm _ now, of k ?key] admit_new [of "cd_dedupe d" now ?key "cd_recent d"] now
          by (auto simp: d' r True held_def)
      next
        case False
        then show ?thesis using c by (simp add: d' r)
      qed
    qed
  qed
qed

lemma cd_run_count:
  "cd_ok d \<Longrightarrow> (\<And>t e. (t, e) \<in> set es \<Longrightarrow> t0 \<le> t \<and> t \<le> t0 + cd_dedupe d) \<Longrightarrow>
   (held (cd_recent d) k t0 \<longrightarrow> key_count k (foldl cd_step d es) \<le> key_count k d)
   \<and> key_count k (foldl cd_step d es) \<le> key_count k d + 1"
proof (induction es arbitrary: d)
  case (Cons x es)
  obtain now e where x: "x = (now, e)" by (cases x)
  have now: "t0 \<le> now" "now \<le> t0 + cd_dedupe d" using Cons.prems(2) [of now e] x by auto
  note s = cd_step_count [OF Cons.prems(1) now, of e k]
  let ?d = "cd_step d (now, e)"
  have IH: "(held (cd_recent ?d) k t0 \<longrightarrow> key_count k (foldl cd_step ?d es) \<le> key_count k ?d)
      \<and> key_count k (foldl cd_step ?d es) \<le> key_count k ?d + 1"
    using s Cons.prems(2) by (intro Cons.IH) auto
  show ?case using s IH x by auto
qed simp

section \<open>At most one repeat of a key in any window\<close>

text \<open>
  A pending timer is the only one of its key, the viscous bookkeeping knows it, and the key was handled when it was set,
  or again since, unless that is longer ago than the window.
\<close>

definition timers_ok :: "int \<Rightarrow> cdigi \<Rightarrow> bool" where
  "timers_ok now d = (cd_ok d \<and> 0 \<le> cd_dedupe d \<and> distinct (map dt_id (cd_timers d)) \<and> (cd_viscous_ms d = 0 \<longrightarrow> cd_timers d = [])
     \<and> (\<forall>t\<in>set (cd_timers d). dt_id t < cd_next d \<and> jm_get (cd_viscous d) (dt_key t) = Some (dt_id t)
        \<and> (case jm_get (cd_recent d) (dt_key t) of Some u \<Rightarrow> dt_due t \<le> u + cd_viscous_ms d
           | None \<Rightarrow> dt_due t + cd_dedupe d < now + cd_viscous_ms d)))"

lemma timers_later: "timers_ok now d \<Longrightarrow> now \<le> later \<Longrightarrow> timers_ok later d"
  by (fastforce simp: timers_ok_def split: option.splits)

lemma timer_of_key: "timers_ok now d \<Longrightarrow> t \<in> set (cd_timers d) \<Longrightarrow> u \<in> set (cd_timers d) \<Longrightarrow> dt_key t = dt_key u \<Longrightarrow> dt_id t = dt_id u"
  unfolding timers_ok_def by (metis option.inject)

lemma jm_get_admit:
  "jm_ok r \<Longrightarrow> jm_get (snd (admit window now key r)) k =
     (if fst (admit window now key r) \<and> k = key then Some now
      else case jm_get r k of None \<Rightarrow> None | Some t \<Rightarrow> if now - t > window then None else Some t)"
  using jm_get_prune [of r window now] by (auto simp: admit_def Let_def)

lemma admit_passes:
  "jm_ok r \<Longrightarrow> fst (admit window now key r) \<longleftrightarrow> (case jm_get r key of None \<Rightarrow> True | Some t \<Rightarrow> now - t > window)"
  using jm_get_prune [of r window now key] by (auto simp: admit_def Let_def split: option.splits if_splits)

text \<open>The map of handled keys moves on; with the key of a pending timer it can only get younger.\<close>

lemma timers_admit:
  assumes "timers_ok now d"
  shows "timers_ok now (d\<lparr>cd_recent := snd (admit (cd_dedupe d) now key (cd_recent d))\<rparr>)"
proof -
  have jm: "jm_ok (cd_recent d)" using assms by (simp add: timers_ok_def cd_ok_def)
  have "case jm_get (snd (admit (cd_dedupe d) now key (cd_recent d))) (dt_key t) of Some u \<Rightarrow> dt_due t \<le> u + cd_viscous_ms d
           | None \<Rightarrow> dt_due t + cd_dedupe d < now + cd_viscous_ms d" if "t \<in> set (cd_timers d)" for t
  proof -
    have "case jm_get (cd_recent d) (dt_key t) of Some u \<Rightarrow> dt_due t \<le> u + cd_viscous_ms d
           | None \<Rightarrow> dt_due t + cd_dedupe d < now + cd_viscous_ms d" using assms that by (simp add: timers_ok_def)
    moreover have "0 \<le> cd_dedupe d" using assms by (simp add: timers_ok_def)
    ultimately show ?thesis using admit_passes [OF jm, of "cd_dedupe d" now key]
      by (auto simp: jm_get_admit [OF jm] split: option.splits)
  qed
  then show ?thesis using assms admit_ok [OF jm] by (auto simp: timers_ok_def cd_ok_def cong: option.case_cong)
qed

lemma timers_relay:
  assumes "timers_ok now d" "key = frame_content_key f" "cd_viscous_ms d \<noteq> 0 \<Longrightarrow> jm_get (cd_viscous d) key = None"
  shows "timers_ok now (cd_relay now f key d)"
proof (cases "digipeat_ax25 f (cd_ours d)")
  case (Digi_Repeat out)
  let ?d = "d\<lparr>cd_recent := snd (admit (cd_dedupe d) now key (cd_recent d))\<rparr>"
  have ok: "timers_ok now ?d" by (rule timers_admit [OF assms(1)])
  have jm: "jm_ok (cd_recent d)" using assms(1) by (simp add: timers_ok_def cd_ok_def)
  have content: "frame_content_key out = key" using digipeat_key [OF Digi_Repeat] assms(2) by simp
  show ?thesis
  proof (cases "fst (admit (cd_dedupe d) now key (cd_recent d)) \<and> cd_viscous_ms d \<noteq> 0")
    case True
    then have v: "jm_get (cd_viscous d) key = None" using assms(3) by simp
    then have other: "dt_key t \<noteq> key" if "t \<in> set (cd_timers d)" for t
      using assms(1) that by (auto simp: timers_ok_def)
    have fresh: "dt_id t \<noteq> cd_next d" if "t \<in> set (cd_timers d)" for t using assms(1) that by (auto simp: timers_ok_def)
    have cd: "cd_ok (cd_relay now f key d)" using assms(1,2) by (intro cd_relay_ok) (simp add: timers_ok_def)
    have r: "cd_relay now f key d = ?d\<lparr>cd_timers := cd_timers d @
            [\<lparr>dt_id = cd_next d, dt_due = now + cd_viscous_ms d, dt_key = key, dt_frame = out\<rparr>],
          cd_viscous := jm_set key (cd_next d) (cd_viscous d), cd_next := cd_next d + 1\<rparr>"
      using True by (simp add: cd_relay_def Digi_Repeat Let_def split_beta vd_schedule_def)
    show ?thesis using ok True other fresh cd jm_get_admit [OF jm, of "cd_dedupe d" now key key]
      by (auto simp: timers_ok_def r less_Suc_eq cong: option.case_cong)
  next
    case False
    then have "cd_relay now f key d = ?d \<or> cd_viscous_ms d = 0 \<and> cd_relay now f key d = ?d\<lparr>cd_sent := cd_sent d @ [out]\<rparr>"
      by (auto simp: cd_relay_def Digi_Repeat Let_def split_beta)
    then show ?thesis using ok by (auto simp: timers_ok_def cd_ok_def cong: option.case_cong)
  qed
qed (use assms(1) in \<open>simp_all add: cd_relay_def\<close>)

lemma timers_cancel:
  assumes "timers_ok now d" "jm_get (cd_viscous d) key = Some tok"
  shows "timers_ok now (d\<lparr>cd_viscous := jm_delete key (cd_viscous d), cd_timers := filter (\<lambda>t. dt_id t \<noteq> tok) (cd_timers d)\<rparr>)"
proof -
  have "dt_key t \<noteq> key" if "t \<in> set (cd_timers d)" "dt_id t \<noteq> tok" for t
    using assms that by (auto simp: timers_ok_def)
  moreover have "cd_ok (d\<lparr>cd_viscous := jm_delete key (cd_viscous d), cd_timers := filter (\<lambda>t. dt_id t \<noteq> tok) (cd_timers d)\<rparr>)"
    using assms(1) by (auto simp: timers_ok_def cd_ok_def)
  ultimately show ?thesis using assms(1) by (simp add: timers_ok_def distinct_map_filter cong: option.case_cong)
qed

lemma timers_fire:
  assumes "timers_ok now d" "t \<in> set (cd_timers d)"
  shows "timers_ok now (cd_fire t d)"
proof -
  have "dt_key u \<noteq> dt_key t" if "u \<in> set (cd_timers d)" "dt_id u \<noteq> dt_id t" for u
    using timer_of_key [OF assms(1) that(1) assms(2)] that(2) by auto
  moreover have "cd_ok (cd_fire t d)" using assms(1) cd_fire_ok by (simp add: timers_ok_def)
  ultimately show ?thesis using assms(1) by (simp add: timers_ok_def cd_fire_def vd_fired_def distinct_map_filter cong: option.case_cong)
qed

text \<open>The events of a run, as the changes they make.\<close>

lemma cd_step_cases:
  obtains (same) "cd_step d (now, e) = d"
    | (fired) t where "t \<in> set (cd_timers d)" "dt_due t \<le> now" "cd_step d (now, e) = cd_fire t d"
    | (cancelled) key tok where "jm_get (cd_viscous d) key = Some tok"
        "cd_step d (now, e) = d\<lparr>cd_viscous := jm_delete key (cd_viscous d), cd_timers := filter (\<lambda>t. dt_id t \<noteq> tok) (cd_timers d)\<rparr>"
    | (handled) key where "cd_step d (now, e) = d\<lparr>cd_recent := snd (admit (cd_dedupe d) now key (cd_recent d))\<rparr>"
    | (relayed) f where "cd_step d (now, e) = cd_relay now f (frame_content_key f) d"
        "cd_viscous_ms d \<noteq> 0 \<Longrightarrow> jm_get (cd_viscous d) (frame_content_key f) = None"
proof (cases e)
  case (Heard bytes)
  show ?thesis
  proof (cases "decode_frame bytes False")
    case None
    then show ?thesis using same by (simp add: Heard cd_on_raw_def)
  next
    case (Some f)
    show ?thesis
    proof (cases "cd_viscous_ms d \<noteq> 0 \<and> jm_get (cd_viscous d) (frame_content_key f) \<noteq> None")
      case True
      then show ?thesis using cancelled Some by (auto simp: Heard cd_on_raw_def vd_on_duplicate_def Let_def)
    next
      case False
      then have "cd_step d (now, e) = cd_relay now f (frame_content_key f) d"
        using Some by (auto simp: Heard cd_on_raw_def vd_on_duplicate_def Let_def)
      then show ?thesis by (rule relayed) (use False in auto)
    qed
  qed
next
  case Tick
  show ?thesis
  proof (cases "find (\<lambda>t. dt_due t \<le> now) (cd_timers d)")
    case None
    then show ?thesis using same Tick by simp
  next
    case (Some t)
    then have "t \<in> set (cd_timers d)" "dt_due t \<le> now" by (auto simp: find_Some_iff)
    then show ?thesis using fired Tick Some by simp
  qed
next
  case (Other_port key)
  then show ?thesis using handled by simp
qed

lemma timers_step:
  assumes "timers_ok now d"
  shows "timers_ok now (cd_step d (now, e))"
  by (rule cd_step_cases [of d now e]) (use assms in \<open>simp_all add: timers_admit timers_relay timers_cancel timers_fire\<close>)

lemma cd_step_params:
  "cd_dedupe (cd_step d (now, e)) = cd_dedupe d" "cd_viscous_ms (cd_step d (now, e)) = cd_viscous_ms d"
  by (cases e; auto simp: cd_on_raw_def cd_relay_def cd_fire_def Let_def split_beta split: option.splits digi_result.splits)+

lemma timers_run:
  "timers_ok (case es of [] \<Rightarrow> t0 | e # _ \<Rightarrow> fst e) d \<Longrightarrow> sorted (map fst es) \<Longrightarrow> (\<And>t e. (t, e) \<in> set es \<Longrightarrow> t \<le> t0) \<Longrightarrow>
   timers_ok t0 (foldl cd_step d es) \<and> cd_dedupe (foldl cd_step d es) = cd_dedupe d \<and> cd_viscous_ms (foldl cd_step d es) = cd_viscous_ms d"
proof (induction es arbitrary: d)
  case (Cons x es)
  obtain now e where x: "x = (now, e)" by (cases x)
  have "timers_ok now (cd_step d (now, e))" using Cons.prems(1) by (simp add: x timers_step)
  moreover have "now \<le> (case es of [] \<Rightarrow> t0 | e # _ \<Rightarrow> fst e)" using Cons.prems(2,3) x by (cases es) auto
  ultimately have "timers_ok (case es of [] \<Rightarrow> t0 | e # _ \<Rightarrow> fst e) (cd_step d (now, e))" by (rule timers_later)
  then show ?case using Cons.IH [of "cd_step d (now, e)"] Cons.prems(2,3) x by (auto simp: cd_step_params)
qed simp

definition sent_count :: "string \<Rightarrow> cdigi \<Rightarrow> nat" where
  "sent_count k d = length (filter (\<lambda>f. frame_content_key f = k) (cd_sent d))"

text \<open>
  In a stretch from \<open>t0\<close> on: nothing of the key sent yet, or one repeat, and then whatever is still to come waits until
  after the window.
\<close>

definition stretch_ok :: "int \<Rightarrow> string \<Rightarrow> nat \<Rightarrow> int \<Rightarrow> cdigi \<Rightarrow> bool" where
  "stretch_ok t0 k n now d =
     ((\<forall>t\<in>set (cd_timers d). dt_key t = k \<longrightarrow> t0 \<le> dt_due t) \<and>
      (sent_count k d = n \<or>
       sent_count k d = n + 1 \<and> (\<forall>t\<in>set (cd_timers d). dt_key t = k \<longrightarrow> t0 + cd_dedupe d < dt_due t) \<and>
         (case jm_get (cd_recent d) k of Some u \<Rightarrow> t0 \<le> u + cd_viscous_ms d | None \<Rightarrow> t0 + cd_dedupe d < now + cd_viscous_ms d)))"

lemma stretch_later: "stretch_ok t0 k n now d \<Longrightarrow> now \<le> later \<Longrightarrow> stretch_ok t0 k n later d"
  by (fastforce simp: stretch_ok_def split: option.splits)

lemma stretch_admit:
  assumes "stretch_ok t0 k n now d" "timers_ok now d" "t0 \<le> now" "0 \<le> cd_viscous_ms d"
  shows "stretch_ok t0 k n now (d\<lparr>cd_recent := snd (admit (cd_dedupe d) now key (cd_recent d))\<rparr>)"
proof -
  have jm: "jm_ok (cd_recent d)" using assms(2) by (simp add: timers_ok_def cd_ok_def)
  show ?thesis using assms by (auto simp: stretch_ok_def sent_count_def jm_get_admit [OF jm] split: option.splits)
qed

lemma stretch_fire:
  assumes s: "stretch_ok t0 k n now d" and ok: "timers_ok now d" and t: "t \<in> set (cd_timers d)" "dt_due t \<le> now"
    and now: "now \<le> t0 + cd_dedupe d"
  shows "stretch_ok t0 k n now (cd_fire t d)"
proof -
  have f: "frame_content_key (dt_frame t) = dt_key t" using ok t(1) by (auto simp: timers_ok_def cd_ok_def)
  show ?thesis
  proof (cases "dt_key t = k")
    case True
    have gone: "\<forall>u\<in>set (cd_timers (cd_fire t d)). dt_key u \<noteq> k"
      using timer_of_key [OF ok _ t(1)] True by (auto simp: cd_fire_def)
    have first: "sent_count k d = n" "t0 \<le> dt_due t" using s t True now by (auto simp: stretch_ok_def)
    have "case jm_get (cd_recent d) k of Some u \<Rightarrow> dt_due t \<le> u + cd_viscous_ms d | None \<Rightarrow> dt_due t + cd_dedupe d < now + cd_viscous_ms d"
      using ok t(1) True by (auto simp: timers_ok_def)
    then show ?thesis using gone first f True by (auto simp: stretch_ok_def sent_count_def cd_fire_def split: option.splits)
  next
    case False
    then show ?thesis using s f by (auto simp: stretch_ok_def sent_count_def cd_fire_def cong: option.case_cong)
  qed
qed

lemma stretch_relay:
  assumes s: "stretch_ok t0 k n now d" and ok: "timers_ok now d" and now: "t0 \<le> now" "now \<le> t0 + cd_dedupe d"
    and v: "0 \<le> cd_viscous_ms d" and key: "key = frame_content_key f"
  shows "stretch_ok t0 k n now (cd_relay now f key d)"
proof (cases "digipeat_ax25 f (cd_ours d)")
  case (Digi_Repeat out)
  let ?a = "admit (cd_dedupe d) now key (cd_recent d)"
  let ?d = "d\<lparr>cd_recent := snd ?a\<rparr>"
  have sd: "stretch_ok t0 k n now ?d" by (rule stretch_admit [OF s ok now(1) v])
  have jm: "jm_ok (cd_recent d)" using ok by (simp add: timers_ok_def cd_ok_def)
  have content: "frame_content_key out = key" using digipeat_key [OF Digi_Repeat] key by simp
  have late: "t0 + cd_dedupe d < now + cd_viscous_ms d" if "fst ?a" "key = k" "sent_count k d \<noteq> n"
    using s that admit_passes [OF jm, of "cd_dedupe d" now key] by (auto simp: stretch_ok_def split: option.splits)
  have held: "jm_get (snd ?a) key = Some now" if "fst ?a" using that by (simp add: jm_get_admit [OF jm])
  have idle: "cd_viscous_ms d = 0 \<Longrightarrow> cd_timers d = []" using ok by (simp add: timers_ok_def)
  consider "\<not> fst ?a" | "fst ?a" "cd_viscous_ms d \<noteq> 0" | "fst ?a" "cd_viscous_ms d = 0" by blast
  then show ?thesis
  proof cases
    case 1
    then show ?thesis using sd by (simp add: cd_relay_def Digi_Repeat Let_def split_beta)
  next
    case 2
    then show ?thesis using sd late held now v
      by (auto simp: stretch_ok_def sent_count_def cd_relay_def Digi_Repeat Let_def split_beta cong: option.case_cong)
  next
    case 3
    then show ?thesis using sd late held now v idle content
      by (auto simp: stretch_ok_def sent_count_def cd_relay_def Digi_Repeat Let_def split_beta cong: option.case_cong)
  qed
qed (use s in \<open>simp_all add: cd_relay_def\<close>)

lemma stretch_run:
  "stretch_ok t0 k n now d \<Longrightarrow> timers_ok now d \<Longrightarrow> 0 \<le> cd_viscous_ms d \<Longrightarrow> sorted (now # map fst es) \<Longrightarrow>
   (\<And>t e. (t, e) \<in> set es \<Longrightarrow> t0 \<le> t \<and> t \<le> t0 + cd_dedupe d) \<Longrightarrow> sent_count k (foldl cd_step d es) \<le> n + 1"
proof (induction es arbitrary: now d)
  case Nil
  then show ?case by (auto simp: stretch_ok_def)
next
  case (Cons x es)
  obtain later e where x: "x = (later, e)" by (cases x)
  have t: "now \<le> later" "t0 \<le> later" "later \<le> t0 + cd_dedupe d" using Cons.prems(4,5) x by auto
  have s: "stretch_ok t0 k n later d" "timers_ok later d" using Cons.prems(1,2) t(1) stretch_later timers_later by blast+
  have "stretch_ok t0 k n later (cd_step d (later, e))"
  proof (rule cd_step_cases [of d later e])
    fix key tok assume "cd_step d (later, e) = d\<lparr>cd_viscous := jm_delete key (cd_viscous d), cd_timers := filter (\<lambda>t. dt_id t \<noteq> tok) (cd_timers d)\<rparr>"
    then show ?thesis using s(1) by (auto simp: stretch_ok_def sent_count_def cong: option.case_cong)
  qed (use s t Cons.prems(3) in \<open>simp_all add: stretch_admit stretch_fire stretch_relay\<close>)
  then show ?case using Cons.IH [of later "cd_step d (later, e)"] timers_step [OF s(2), of e] Cons.prems(3-5) x by (auto simp: cd_step_params)
qed

section \<open>Properties\<close>

text \<open>A frame with a via path is repeated exactly when its first hop not yet repeated is one
  of our addresses, and then the only change is that hop's H bit; no frame whose H bits match
  its path makes the code throw.\<close>

theorem digipeat_relays_next_hop:
  assumes "f_digis f = Some ds" "ds \<noteq> []" "f_digis_repeated f = Some hs" "length hs = length ds"
  shows "digipeat_ax25 f ours \<noteq> Digi_Throws
    \<and> (digipeat_ax25 f ours = Digi_Repeat g \<longleftrightarrow>
        (\<exists>i<length ds. \<not> hs ! i \<and> (\<forall>j<i. hs ! j) \<and> ds ! i \<in> set ours
           \<and> g = f\<lparr>f_digis_repeated := Some (hs[i := True])\<rparr>))"
  using relay_iff [OF assms] by blast

definition via_frame :: "frame_type \<Rightarrow> byte list \<Rightarrow> frame" where
  "via_frame t info = \<lparr>f_dst = \<lparr>addr_call = ''Q1TEST'', addr_ssid = 7\<rparr>, f_src = \<lparr>addr_call = ''N0CALL'', addr_ssid = 1\<rparr>,
     f_digis = Some [\<lparr>addr_call = ''RELAY'', addr_ssid = 0\<rparr>, \<lparr>addr_call = ''DIGI'', addr_ssid = 2\<rparr>],
     f_digis_repeated = Some [True, False],
     f_command = True, f_type = t, f_pf = True, f_extended = None,
     f_nr = (if t \<in> {F_I, F_RR} then Some 1 else None), f_ns = (if t = F_I then Some 3 else None),
     f_pid = (if t = F_I then Some 0xF0 else None), f_info = (if t = F_I then Some info else None)\<rparr>"

definition digi_addr :: address where
  "digi_addr = \<lparr>addr_call = ''DIGI'', addr_ssid = 2\<rparr>"

lemma via_frame_fields:
  "f_digis (via_frame t info) = Some [\<lparr>addr_call = ''RELAY'', addr_ssid = 0\<rparr>, digi_addr]"
  "f_digis_repeated (via_frame t info) = Some [True, False]"
  by (simp_all add: via_frame_def digi_addr_def)

lemma via_frame_path: "has_path (via_frame t info)"
  by (simp add: has_path_def via_frame_fields)

lemma via_frame_relayed:
  "digipeat_ax25 (via_frame t info) [digi_addr] = Digi_Repeat ((via_frame t info)\<lparr>f_digis_repeated := Some [True, True]\<rparr>)"
proof -
  have r: "f_digis_repeated (via_frame t info) = Some [True, False]" by (rule via_frame_fields(2))
  show ?thesis
    using relay_iff(2) [OF via_frame_fields(1) _ r, where ours = "[digi_addr]"]
    by (auto simp: less_Suc_eq)
qed

theorem digipeat_relays_next_hop_witness:
  "digipeat_ax25 (via_frame F_I [7]) [digi_addr] = Digi_Repeat ((via_frame F_I [7])\<lparr>f_digis_repeated := Some [True, True]\<rparr>)"
proof -
  have "\<exists>i<length [\<lparr>addr_call = ''RELAY'', addr_ssid = 0\<rparr>, digi_addr].
      \<not> [True, False] ! i \<and> (\<forall>j<i. [True, False] ! j)
      \<and> [\<lparr>addr_call = ''RELAY'', addr_ssid = 0\<rparr>, digi_addr] ! i \<in> set [digi_addr]
      \<and> (via_frame F_I [7])\<lparr>f_digis_repeated := Some [True, True]\<rparr> =
         (via_frame F_I [7])\<lparr>f_digis_repeated := Some ([True, False][i := True])\<rparr>"
    by (rule exI [of _ 1]) simp
  then show ?thesis
    using digipeat_relays_next_hop [OF via_frame_fields(1) _ via_frame_fields(2)] by simp
qed

text \<open>C27: On a shared channel, where every station of a network hears every copy of a decoded frame and repeats
  each it may, with whatever addresses, the repeating ends: after as many rounds as the path has hops not repeated yet,
  at most eight, nothing more is sent, and with \<open>k\<close> stations and \<open>w\<close> such hops at most \<open>k + k^2 + ... + k^w\<close> copies
  have been sent, even if no station suppresses a duplicate.\<close>

theorem digipeat_terminates:
  assumes "decode_frame bytes False = Some f"
  shows "unrepeated f \<le> 8 \<and> flood relayed stations (8 + n) f = flood relayed stations (unrepeated f) f
    \<and> length (flood relayed stations n f) \<le> storm_bound (length stations) (unrepeated f)"
proof -
  have "unrepeated f \<le> 8"
  proof (cases "f_digis f")
    case None
    then have "f_digis_repeated f = None"
      using assms by (auto simp: decode_frame_def nonempty_def split: if_splits option.splits)
    then show ?thesis using None by (simp add: unrepeated_def)
  next
    case (Some ds)
    then obtain hs where hs: "length ds \<le> 8" "f_digis_repeated f = Some hs" "length hs = length ds"
      using decode_frame_ranges [OF assms] by auto
    then show ?thesis using length_filter_le [of Not hs] by (simp add: unrepeated_def)
  qed
  then show ?thesis using relays.flood_rounds [of f "8 + n" "unrepeated f" stations] relays.flood_bounded by simp
qed

lemma via_I_wf: "wf_frame (via_frame F_I [b]) False"
  by (simp add: wf_frame_def wf_via_def wf_fields_def via_frame_def seq_limit_def wf_address_def
      is_space_def upper_char_def char_code_def)

lemma via_I_decode: "decode_frame (encode_frame (via_frame F_I [b]) False) False = Some (via_frame F_I [b])"
  by (rule frame8.dec_enc [OF via_I_wf])

theorem digipeat_terminates_witness:
  "length (flood relayed [[digi_addr], [digi_addr]] 5 (via_frame F_I [1])) \<le> storm_bound 2 (unrepeated (via_frame F_I [1]))"
  using digipeat_terminates [OF via_I_decode [of 1], where stations = "[[digi_addr], [digi_addr]]" and n = 5]
  by (simp add: numeral_2_eq_2)

text \<open>What the relay puts on the air is what it heard with one bit set: the top bit of the
  SSID octet of the hop it answered for.\<close>

theorem digipeat_bytes_transparent:
  assumes "has_path f" "digipeat_ax25 f ours = Digi_Repeat g"
  shows "\<exists>i < length (the (f_digis f)). the (f_digis f) ! i \<in> set ours
    \<and> encode_frame g e = set_h (7 * (i + 2) + 6) (encode_frame f e)"
proof -
  obtain ds hs where f: "f_digis f = Some ds" "ds \<noteq> []" "f_digis_repeated f = Some hs" "length hs = length ds"
    using assms(1) by (auto simp: has_path_def)
  then obtain i where i: "i < length ds" "\<not> hs ! i" "ds ! i \<in> set ours"
      "g = f\<lparr>f_digis_repeated := Some (hs[i := True])\<rparr>"
    using relay_iff(2) [OF f, of ours g] assms(2) by auto
  then show ?thesis using encode_frame_hbit [OF f(1,3,4) i(1,2), of e] f(1) by auto
qed

theorem digipeat_bytes_transparent_witness:
  "\<exists>i < 2. encode_frame ((via_frame F_I [7])\<lparr>f_digis_repeated := Some [True, True]\<rparr>) False
      = set_h (7 * (i + 2) + 6) (encode_frame (via_frame F_I [7]) False)"
proof -
  have "length (the (f_digis (via_frame F_I [7]))) = 2" by (simp add: via_frame_fields)
  with digipeat_bytes_transparent [OF via_frame_path via_frame_relayed, of F_I "[7]" False]
  show ?thesis by metis
qed

text \<open>C24: Whatever a station hears, whatever the digipeaters of its other ports handle, and however long it has run:
  in any stretch of time as long as its duplicate window it sends at most one repeat of each content key, if its clock
  does not go back and no timer is overdue when the stretch begins.\<close>

theorem digi_repeats_once_per_window:
  fixes before stretch :: "(int \<times> digi_event) list"
  assumes "d0 = new_cdigi mycall aliases dedupe_ms viscous_ms shared" "0 \<le> cd_viscous_ms d0" "0 \<le> cd_dedupe d0"
    and "case shared of None \<Rightarrow> True | Some r \<Rightarrow> jm_ok r"
    and "sorted (map fst (before @ stretch))"
    and "\<And>t e. (t, e) \<in> set before \<Longrightarrow> t \<le> t0" "\<And>t e. (t, e) \<in> set stretch \<Longrightarrow> t0 \<le> t \<and> t \<le> t0 + cd_dedupe d0"
    and "d = foldl cd_step d0 before" "\<And>t. t \<in> set (cd_timers d) \<Longrightarrow> t0 \<le> dt_due t"
  shows "sent_count k (foldl cd_step d stretch) \<le> sent_count k d + 1"
proof -
  have d: "timers_ok t0 d \<and> cd_dedupe d = cd_dedupe d0 \<and> cd_viscous_ms d = cd_viscous_ms d0"
    unfolding assms(8)
  proof (rule timers_run)
    show "timers_ok (case before of [] \<Rightarrow> t0 | e # _ \<Rightarrow> fst e) d0"
      using assms(3,4) by (auto simp: assms(1) new_cdigi_def timers_ok_def cd_ok_def split: option.splits)
    show "sorted (map fst before)" using assms(5) by (simp add: sorted_append)
  qed (use assms(6) in auto)
  then have "stretch_ok t0 k (sent_count k d) t0 d"
    using assms(9) by (simp add: stretch_ok_def)
  moreover have "sorted (t0 # map fst stretch)" using assms(5,7) by (auto simp: sorted_append)
  ultimately show ?thesis using stretch_run [of t0 k "sent_count k d" t0 d stretch] assms(2,7) d by simp
qed

theorem digi_repeats_once_per_window_witness:
  "sent_count (frame_content_key (via_frame F_SABM []))
     (foldl cd_step (new_cdigi ''DIGI-2'' [] None None None)
        [(0, Heard (encode_frame (via_frame F_SABM []) False)), (3000, Heard (encode_frame (via_frame F_SABM []) False))]) \<le> 1"
proof -
  let ?d = "new_cdigi ''DIGI-2'' [] None None None" and ?h = "Heard (encode_frame (via_frame F_SABM []) False)"
  have d: "cd_viscous_ms ?d = 0" "cd_dedupe ?d = 30000" "cd_timers ?d = []" "sent_count k ?d = 0" for k
    by (simp_all add: new_cdigi_def sent_count_def)
  have "sent_count (frame_content_key (via_frame F_SABM [])) (foldl cd_step ?d [(0, ?h), (3000, ?h)])
      \<le> sent_count (frame_content_key (via_frame F_SABM [])) ?d + 1"
    by (rule digi_repeats_once_per_window [OF refl, where before = "[]" and ?t0.0 = 0]) (auto simp: d)
  then show ?thesis by (simp add: d)
qed

text \<open>A viscous digipeater stays quiet when another one was faster: a frame it has put on its
  timer, and hears again before the timer fires, is not sent in the rest of the window.\<close>

theorem viscous_digi_backs_off:
  assumes ok: "cd_ok d" and visc: "cd_viscous_ms d \<noteq> 0"
    and quiet: "key_count k d = 0" "jm_get (cd_viscous d) k = None" "\<forall>t\<in>set (cd_timers d). dt_id t < cd_next d"
    and f1: "decode_frame b1 False = Some f1" "frame_content_key f1 = k"
    and f2: "decode_frame b2 False = Some f2" "frame_content_key f2 = k"
    and relays: "digipeat_ax25 f1 (cd_ours d) = Digi_Repeat g" "fst (admit (cd_dedupe d) t0 k (cd_recent d))"
    and times: "\<And>t e. (t, e) \<in> set es \<Longrightarrow> t0 \<le> t \<and> t \<le> t0 + cd_dedupe d"
  shows "filter (\<lambda>f. frame_content_key f = k)
    (cd_sent (foldl cd_step (cd_on_raw t1 b2 (cd_on_raw t0 b1 d)) es)) = []"
proof -
  define t where "t = \<lparr>dt_id = cd_next d, dt_due = t0 + cd_viscous_ms d, dt_key = k, dt_frame = g\<rparr>"
  define r where "r = snd (admit (cd_dedupe d) t0 k (cd_recent d))"
  have a: "admit (cd_dedupe d) t0 k (cd_recent d) = (True, r)" using relays(2) by (simp add: r_def prod_eq_iff)
  let ?d1 = "d\<lparr>cd_recent := r, cd_timers := cd_timers d @ [t],
      cd_viscous := jm_set k (cd_next d) (cd_viscous d), cd_next := cd_next d + 1\<rparr>"
  have v: "d\<lparr>cd_viscous := cd_viscous d\<rparr> = d" by simp
  have 1: "cd_on_raw t0 b1 d = ?d1"
    using visc quiet(2) f1 relays(1) a
    by (simp add: cd_on_raw_def vd_on_duplicate_def Let_def v) (simp add: cd_relay_def t_def vd_schedule_def)
  define d2 where "d2 = ?d1\<lparr>cd_viscous := jm_delete k (cd_viscous ?d1),
      cd_timers := filter (\<lambda>u. dt_id u \<noteq> cd_next d) (cd_timers d @ [t])\<rparr>"
  have 2: "cd_on_raw t1 b2 ?d1 = d2"
    using visc f2 by (simp add: cd_on_raw_def vd_on_duplicate_def Let_def d2_def)
  have old: "filter (\<lambda>u. dt_id u \<noteq> cd_next d) (cd_timers d) = cd_timers d"
    using quiet(3) by (intro filter_all_id) force
  have "cd_ok d2"
    using ok admit_ok [of "cd_recent d" "cd_dedupe d" t0 k] by (simp add: d2_def cd_ok_def t_def r_def old)
  moreover have "key_count k d2 = 0" using quiet(1) by (simp add: d2_def key_count_def t_def old)
  moreover have "held (cd_recent d2) k t0"
    using admit_new [of "cd_dedupe d" t0 k "cd_recent d"] relays(2) by (simp add: d2_def r_def)
  moreover have "cd_dedupe d2 = cd_dedupe d" by (simp add: d2_def)
  ultimately have "key_count k (foldl cd_step d2 es) = 0"
    using cd_run_count [of d2 es t0 k] times by auto
  then have "key_count k (foldl cd_step (cd_on_raw t1 b2 (cd_on_raw t0 b1 d)) es) = 0" by (simp only: 1 2)
  then show ?thesis by (simp add: key_count_def)
qed

definition visc_digi :: cdigi where
  "visc_digi = new_cdigi ''DIGI-2'' [] None (Some 1000) None"

lemma visc_digi_ours: "cd_ours visc_digi = [digi_addr]"
  by code_simp

theorem viscous_digi_backs_off_witness:
  "filter (\<lambda>f. frame_content_key f = frame_content_key (via_frame F_I [7]))
     (cd_sent (foldl cd_step (cd_on_raw 500 (encode_frame (via_frame F_I [7]) False)
        (cd_on_raw 0 (encode_frame (via_frame F_I [7]) False) visc_digi)) [(1000, Tick), (1001, Tick)])) = []"
proof (rule viscous_digi_backs_off [OF _ _ _ _ _ via_I_decode refl via_I_decode refl])
  show "digipeat_ax25 (via_frame F_I [7]) (cd_ours visc_digi) =
      Digi_Repeat ((via_frame F_I [7])\<lparr>f_digis_repeated := Some [True, True]\<rparr>)"
    unfolding visc_digi_ours by (rule via_frame_relayed)
qed (auto simp: visc_digi_def new_cdigi_def cd_ok_def key_count_def admit_def prune_def Let_def)

text \<open>The content key leaves the information field out, so within the window a frame with
  other data but the same addresses, type, sequence numbers and P/F bit as one repeated before
  is taken for a copy of it and not repeated. A link-layer retransmission always is such a
  frame.\<close>

theorem digi_drops_same_header:
  assumes ok: "cd_ok d" and visc: "cd_viscous_ms d = 0"
    and f1: "decode_frame b1 False = Some f1" "digipeat_ax25 f1 (cd_ours d) = Digi_Repeat g"
      "fst (admit (cd_dedupe d) t0 (frame_content_key f1) (cd_recent d))"
    and f2: "decode_frame b2 False = Some f2" "f_src f2 = f_src f1" "f_dst f2 = f_dst f1" "f_type f2 = f_type f1"
      "f_ns f2 = f_ns f1" "f_nr f2 = f_nr f1" "f_pf f2 = f_pf f1"
    and now: "t0 \<le> now" "now \<le> t0 + cd_dedupe d"
  shows "cd_sent (cd_on_raw now b2 (cd_on_raw t0 b1 d)) = cd_sent d @ [g]"
proof -
  let ?k = "frame_content_key f1"
  define r where "r = snd (admit (cd_dedupe d) t0 ?k (cd_recent d))"
  have a: "admit (cd_dedupe d) t0 ?k (cd_recent d) = (True, r)" using f1(3) by (simp add: r_def prod_eq_iff)
  let ?d1 = "d\<lparr>cd_recent := r, cd_sent := cd_sent d @ [g]\<rparr>"
  have 1: "cd_on_raw t0 b1 d = ?d1"
    using f1 visc a by (simp add: cd_on_raw_def Let_def cd_relay_def)
  have k2: "frame_content_key f2 = ?k" using f2 by (simp add: frame_content_key_def)
  have "jm_ok r" using ok admit_ok [of "cd_recent d"] by (simp add: r_def cd_ok_def)
  moreover have "held r ?k t0"
    using admit_new [OF f1(3)] by (simp add: r_def)
  ultimately have "\<not> fst (admit (cd_dedupe d) now ?k r)" using admit_held(2) now by blast
  then have "cd_sent (cd_relay now f2 ?k ?d1) = cd_sent d @ [g]"
    by (simp add: cd_relay_def Let_def split_beta split: digi_result.split)
  then show ?thesis
    unfolding 1 using f2(1) k2 visc by (simp add: cd_on_raw_def Let_def)
qed

definition plain_digi :: cdigi where
  "plain_digi = new_cdigi ''DIGI-2'' [] None None None"

lemma plain_digi_ours: "cd_ours plain_digi = [digi_addr]"
  by code_simp

theorem digi_drops_same_header_witness:
  "cd_sent (cd_on_raw 9000 (encode_frame (via_frame F_I [2]) False) (cd_on_raw 0 (encode_frame (via_frame F_I [1]) False) plain_digi))
     = cd_sent plain_digi @ [(via_frame F_I [1])\<lparr>f_digis_repeated := Some [True, True]\<rparr>]"
proof (rule digi_drops_same_header [OF _ _ via_I_decode _ _ via_I_decode])
  show "digipeat_ax25 (via_frame F_I [1]) (cd_ours plain_digi) =
      Digi_Repeat ((via_frame F_I [1])\<lparr>f_digis_repeated := Some [True, True]\<rparr>)"
    unfolding plain_digi_ours by (rule via_frame_relayed)
qed (auto simp: plain_digi_def new_cdigi_def cd_ok_def admit_def prune_def Let_def via_frame_def)

text \<open>The relay decodes every frame with the one-octet control field, so a supervisory frame of
  a modulo-128 link is sent on without its second control octet, the one with N(R).\<close>

theorem digi_truncates_extended_supervisory:
  "map encode_frame_default (cd_sent (cd_on_raw 0 (encode_frame ((via_frame F_RR [])\<lparr>f_nr := Some 77\<rparr>) True) plain_digi))
     = [set_h 27 (butlast (encode_frame ((via_frame F_RR [])\<lparr>f_nr := Some 77\<rparr>) True))]"
  by code_simp

end
