(* ===== verification/Ax25_Link.thy ===== *)
theory Ax25_Link
  imports Ax25_Frame
begin

text \<open>
  The connected-mode data-link state machine of \<open>packages/ax25/src/link.ts\<close>. The class
  \<open>ConnectedLink\<close> is the record \<open>link\<close>; each method is a function from the link
  to the link. What the code hands to its callbacks (\<open>ev.send\<close>, \<open>ev.deliver\<close>,
  \<open>ev.state\<close>, \<open>ev.error\<close>, \<open>ev.rtt\<close>) is appended to the field
  \<open>k_trace\<close> in the order of the calls. The clock is read once per call and passed in as
  \<open>now\<close>.
\<close>

section \<open>Data\<close>

datatype link_state = L_Disconnected | L_Connecting | L_Connected | L_Recovering | L_Disconnecting

record link_config =
  lc_t1 :: int
  lc_t3 :: int
  lc_n2 :: nat
  lc_window :: nat
  lc_pid :: byte
  lc_modulo :: nat
  lc_srej :: bool

definition DEFAULT_CONFIG :: link_config where
  "DEFAULT_CONFIG = \<lparr>lc_t1 = 3000, lc_t3 = 30000, lc_n2 = 10, lc_window = 4, lc_pid = PID_NO_L3,
     lc_modulo = 8, lc_srej = False\<rparr>"

datatype rtt_kind = Rtt_Ack | Rtt_Poll

datatype link_event =
    Ev_Send frame
  | Ev_Deliver "byte list" "byte option"
  | Ev_State link_state link_state
  | Ev_Error string
  | Ev_Rtt int rtt_kind

record sent_iframe =
  si_ns :: nat
  si_info :: "byte list"
  si_pid :: "byte option"
  si_at :: int
  si_retx :: bool

record link =
  k_local :: address
  k_remote :: address
  k_cfg :: link_config
  k_state :: link_state
  k_vs :: nat
  k_vr :: nat
  k_va :: nat
  k_pending :: "(byte list \<times> byte option) list"
  k_sent :: "sent_iframe list"
  k_rc :: nat
  k_peer_busy :: bool
  k_rej_sent :: bool
  k_rxbuf :: "(nat, byte list \<times> byte option) jsmap"
  k_srej_sent :: "nat list"
  k_t1 :: "int option"
  k_t3 :: "int option"
  k_mod :: nat
  k_poll_at :: "int option"
  k_poll_repeated :: bool
  k_trace :: "link_event list"

definition cfg_mod :: "link_config \<Rightarrow> nat" where
  "cfg_mod c = (if lc_modulo c = 128 then 128 else 8)"

definition new_link :: "address \<Rightarrow> address \<Rightarrow> link_config \<Rightarrow> link" where
  "new_link local remote cfg =
     \<lparr>k_local = local, k_remote = remote, k_cfg = cfg, k_state = L_Disconnected,
      k_vs = 0, k_vr = 0, k_va = 0, k_pending = [], k_sent = [], k_rc = 0,
      k_peer_busy = False, k_rej_sent = False, k_rxbuf = [], k_srej_sent = [],
      k_t1 = None, k_t3 = None, k_mod = cfg_mod cfg, k_poll_at = None, k_poll_repeated = False,
      k_trace = []\<rparr>"

section \<open>Sequence numbers\<close>

text \<open>
  The code computes \<open>(vs - va + mod) % mod\<close>. The sequence variables stay below the
  modulus (\<open>link_ok\<close> below), so the difference is never negative.
\<close>

definition outstanding :: "nat \<Rightarrow> nat \<Rightarrow> nat \<Rightarrow> nat" where
  "outstanding m va vs = (vs + m - va) mod m"

definition in_window :: "nat \<Rightarrow> nat \<Rightarrow> nat \<Rightarrow> nat \<Rightarrow> bool" where
  "in_window m lo x hi = ((x + m - lo) mod m \<le> (hi + m - lo) mod m)"

section \<open>Helpers\<close>

definition emit :: "link_event \<Rightarrow> link \<Rightarrow> link" where
  "emit e l = l\<lparr>k_trace := k_trace l @ [e]\<rparr>"

definition start_t1 :: "int \<Rightarrow> link \<Rightarrow> link" where
  "start_t1 now l = l\<lparr>k_t1 := Some (now + lc_t1 (k_cfg l))\<rparr>"

definition stop_t1 :: "link \<Rightarrow> link" where
  "stop_t1 l = l\<lparr>k_t1 := None\<rparr>"

definition start_t3 :: "int \<Rightarrow> link \<Rightarrow> link" where
  "start_t3 now l = l\<lparr>k_t3 := Some (now + lc_t3 (k_cfg l))\<rparr>"

definition stop_t3 :: "link \<Rightarrow> link" where
  "stop_t3 l = l\<lparr>k_t3 := None\<rparr>"

definition stop_all :: "link \<Rightarrow> link" where
  "stop_all l = (stop_t3 (stop_t1 l))\<lparr>k_poll_at := None, k_poll_repeated := False\<rparr>"

definition to_state :: "link_state \<Rightarrow> link \<Rightarrow> link" where
  "to_state s l = (if s \<noteq> k_state l then emit (Ev_State s (k_state l)) (l\<lparr>k_state := s\<rparr>) else l)"

definition supervisory :: "link \<Rightarrow> frame_type \<Rightarrow> bool \<Rightarrow> bool \<Rightarrow> nat \<Rightarrow> frame" where
  "supervisory l t command pf nr =
     \<lparr>f_dst = k_remote l, f_src = k_local l, f_digis = None, f_digis_repeated = None,
      f_command = command, f_type = t, f_pf = pf, f_extended = Some (k_mod l = 128),
      f_nr = Some nr, f_ns = None, f_pid = None, f_info = None\<rparr>"

definition tx :: "int \<Rightarrow> frame_type \<Rightarrow> bool \<Rightarrow> bool \<Rightarrow> link \<Rightarrow> link" where
  "tx now t command pf l =
     (let l1 = (if t = F_RR \<and> command \<and> pf
                then (case k_poll_at l of
                        None \<Rightarrow> l\<lparr>k_poll_at := Some now\<rparr>
                      | Some _ \<Rightarrow> l\<lparr>k_poll_repeated := True\<rparr>)
                else l)
      in emit (Ev_Send (supervisory l t command pf (k_vr l))) l1)"

definition tx_s :: "frame_type \<Rightarrow> nat \<Rightarrow> bool \<Rightarrow> link \<Rightarrow> link" where
  "tx_s t nr pf l = emit (Ev_Send (supervisory l t False pf nr)) l"

definition iframe :: "link \<Rightarrow> nat \<Rightarrow> byte list \<Rightarrow> byte option \<Rightarrow> frame" where
  "iframe l ns info pid =
     \<lparr>f_dst = k_remote l, f_src = k_local l, f_digis = None, f_digis_repeated = None,
      f_command = True, f_type = F_I, f_pf = False, f_extended = Some (k_mod l = 128),
      f_nr = Some (k_vr l), f_ns = Some ns,
      f_pid = Some (case pid of None \<Rightarrow> lc_pid (k_cfg l) | Some p \<Rightarrow> p), f_info = Some info\<rparr>"

definition tx_i :: "nat \<Rightarrow> byte list \<Rightarrow> byte option \<Rightarrow> link \<Rightarrow> link" where
  "tx_i ns info pid l = emit (Ev_Send (iframe l ns info pid)) l"

definition reset :: "link \<Rightarrow> link" where
  "reset l = l\<lparr>k_vs := 0, k_vr := 0, k_va := 0, k_rc := 0, k_pending := [], k_sent := [],
     k_peer_busy := False, k_rej_sent := False, k_rxbuf := [], k_srej_sent := [],
     k_poll_at := None, k_poll_repeated := False\<rparr>"

definition sabm_type :: "link \<Rightarrow> frame_type" where
  "sabm_type l = (if k_mod l = 128 then F_SABME else F_SABM)"

definition reestablish :: "int \<Rightarrow> link \<Rightarrow> link" where
  "reestablish now l =
     (let l = reset l;
          l = tx now (sabm_type l) True True l;
          l = l\<lparr>k_rc := 0\<rparr>;
          l = start_t1 now l
      in to_state L_Connecting l)"

definition fail_link :: "int \<Rightarrow> string \<Rightarrow> link \<Rightarrow> link" where
  "fail_link now msg l =
     (let l = emit (Ev_Error msg) l;
          l = tx now F_DM False True l;
          l = stop_all l
      in to_state L_Disconnected l)"

text \<open>Send queued I-frames while the window allows; the flag says whether one went out.\<close>

function send_pending :: "int \<Rightarrow> link \<Rightarrow> bool \<times> link" where
  "send_pending now l =
     (case k_pending l of
        [] \<Rightarrow> (False, l)
      | (info, pid) # rest \<Rightarrow>
          if \<not> k_peer_busy l \<and> outstanding (k_mod l) (k_va l) (k_vs l) < lc_window (k_cfg l)
          then let l1 = l\<lparr>k_pending := rest\<rparr>;
                   l2 = tx_i (k_vs l) info pid l1;
                   l3 = l2\<lparr>k_sent := k_sent l2 @
                          [\<lparr>si_ns = k_vs l, si_info = info, si_pid = pid, si_at = now, si_retx = False\<rparr>],
                        k_vs := (k_vs l2 + 1) mod k_mod l2\<rparr>;
                   l4 = start_t1 now (stop_t3 l3)
               in (True, snd (send_pending now l4))
          else (False, l))"
  by pat_completeness auto
termination
  by (relation "measure (\<lambda>(now, l). length (k_pending l))")
    (auto simp: tx_i_def emit_def start_t1_def stop_t3_def)

declare send_pending.simps [simp del]

text \<open>The loop of \<open>ackOwn\<close>: shift acknowledged I-frames, remembering the last one.\<close>

fun ack_loop :: "nat \<Rightarrow> nat \<Rightarrow> nat \<Rightarrow> sent_iframe list \<Rightarrow> sent_iframe option
    \<Rightarrow> nat \<times> sent_iframe list \<times> sent_iframe option" where
  "ack_loop m nr va [] acked = (va, [], acked)"
| "ack_loop m nr va (s # ss) acked =
     (if va = nr then (va, s # ss, acked) else ack_loop m nr ((va + 1) mod m) ss (Some s))"

definition ack_own :: "int \<Rightarrow> nat \<Rightarrow> link \<Rightarrow> link" where
  "ack_own now nr l =
     (if \<not> in_window (k_mod l) (k_va l) nr (k_vs l) then l
      else let (va, ss, acked) = ack_loop (k_mod l) nr (k_va l) (k_sent l) None;
               l = l\<lparr>k_va := va, k_sent := ss\<rparr>;
               l = (case acked of
                      Some a \<Rightarrow> if si_retx a then l else emit (Ev_Rtt (now - si_at a) Rtt_Ack) l
                    | None \<Rightarrow> l);
               l = l\<lparr>k_va := nr, k_rc := 0\<rparr>
           in if k_va l = k_vs l then start_t3 now (stop_t1 l) else start_t1 now l)"

text \<open>Resending marks the I-frame, so its acknowledgement times nothing.\<close>

fun retransmit_list :: "(nat \<Rightarrow> bool) \<Rightarrow> sent_iframe list \<Rightarrow> link \<Rightarrow> sent_iframe list \<times> bool \<times> link" where
  "retransmit_list p [] l = ([], False, l)"
| "retransmit_list p (s # ss) l =
     (if p (si_ns s)
      then let (ss', _, l') = retransmit_list p ss (tx_i (si_ns s) (si_info s) (si_pid s) l)
           in (s\<lparr>si_retx := True\<rparr> # ss', True, l')
      else let (ss', any, l') = retransmit_list p ss l in (s # ss', any, l'))"

definition retransmit_from :: "int \<Rightarrow> nat \<Rightarrow> link \<Rightarrow> link" where
  "retransmit_from now nr l =
     (let last_ns = (k_vs l + k_mod l - 1) mod k_mod l;
          (ss, any, l') = retransmit_list (\<lambda>ns. in_window (k_mod l) nr ns last_ns) (k_sent l) l;
          l' = l'\<lparr>k_sent := ss\<rparr>
      in if any then start_t1 now l' else l')"

text \<open>\<open>sent.find\<close> stops at the first match.\<close>

fun mark_first :: "nat \<Rightarrow> sent_iframe list \<Rightarrow> sent_iframe list" where
  "mark_first nr [] = []"
| "mark_first nr (s # ss) =
     (if si_ns s = nr then s\<lparr>si_retx := True\<rparr> # ss else s # mark_first nr ss)"

definition retransmit_one :: "int \<Rightarrow> nat \<Rightarrow> link \<Rightarrow> link" where
  "retransmit_one now nr l =
     (case find (\<lambda>s. si_ns s = nr) (k_sent l) of
        None \<Rightarrow> l
      | Some s \<Rightarrow>
          let l = l\<lparr>k_sent := mark_first nr (k_sent l)\<rparr>;
              l = tx_i (si_ns s) (si_info s) (si_pid s) l
          in start_t1 now l)"

function drain_rxbuf :: "link \<Rightarrow> link" where
  "drain_rxbuf l =
     (case jm_get (k_rxbuf l) (k_vr l) of
        None \<Rightarrow> l
      | Some (info, pid) \<Rightarrow>
          let l1 = l\<lparr>k_rxbuf := jm_delete (k_vr l) (k_rxbuf l),
                      k_srej_sent := removeAll (k_vr l) (k_srej_sent l)\<rparr>;
              l2 = (if info \<noteq> [] then emit (Ev_Deliver info pid) l1 else l1);
              l3 = l2\<lparr>k_vr := (k_vr l2 + 1) mod k_mod l2\<rparr>
          in drain_rxbuf l3)"
  by pat_completeness auto
termination
proof (relation "measure (\<lambda>l. length (k_rxbuf l))", goal_cases)
  case (2 l a info pid x xa xb)
  have "length (jm_delete k m) < length m" if "jm_get m k = Some v" for k v and m :: "(nat, byte list \<times> byte option) jsmap"
    using that by (induction m) (auto simp: less_Suc_eq_le length_jm_delete_le split: if_splits)
  with 2 show ?case by (auto simp: emit_def Let_def)
qed simp

declare drain_rxbuf.simps [simp del]

section \<open>User requests\<close>

definition connect :: "int \<Rightarrow> link \<Rightarrow> link" where
  "connect now l =
     (if k_state l \<noteq> L_Disconnected then l
      else let l = l\<lparr>k_mod := cfg_mod (k_cfg l)\<rparr>;
               l = reset l;
               l = tx now (sabm_type l) True True l;
               l = l\<lparr>k_rc := 0\<rparr>;
               l = start_t1 now l
           in to_state L_Connecting l)"

definition disconnect :: "int \<Rightarrow> link \<Rightarrow> link" where
  "disconnect now l =
     (if k_state l = L_Disconnected then l
      else if k_state l = L_Connecting then to_state L_Disconnected (stop_all l)
      else let l = l\<lparr>k_pending := [], k_sent := []\<rparr>;
               l = tx now F_DISC True True l;
               l = l\<lparr>k_rc := 0\<rparr>;
               l = start_t1 now l;
               l = stop_t3 l
           in to_state L_Disconnecting l)"

definition send :: "int \<Rightarrow> byte list \<Rightarrow> byte option \<Rightarrow> link \<Rightarrow> link" where
  "send now info pid l =
     (let l = l\<lparr>k_pending := k_pending l @ [(info, pid)]\<rparr>
      in if k_state l = L_Connected then snd (send_pending now l) else l)"

definition probe :: "int \<Rightarrow> link \<Rightarrow> bool \<times> link" where
  "probe now l =
     (if k_state l \<noteq> L_Connected \<or> k_poll_at l \<noteq> None then (False, l)
      else let l = tx now F_RR True True l
           in (True, if k_t1 l = None then start_t1 now l else l))"

section \<open>U frames\<close>

definition on_sabm :: "int \<Rightarrow> frame \<Rightarrow> nat \<Rightarrow> link \<Rightarrow> link" where
  "on_sabm now f m l =
     (let l = (if k_state l = L_Connected then emit (Ev_Error ''link reset by peer'') l else l);
          l = l\<lparr>k_mod := m\<rparr>;
          l = reset l;
          l = tx now F_UA False (f_pf f) l;
          l = start_t3 now l
      in to_state L_Connected l)"

definition on_disc :: "int \<Rightarrow> frame \<Rightarrow> link \<Rightarrow> link" where
  "on_disc now f l = to_state L_Disconnected (stop_all (tx now F_UA False (f_pf f) l))"

definition on_ua :: "int \<Rightarrow> link \<Rightarrow> link" where
  "on_ua now l =
     (if k_state l = L_Connecting then
        let l = reset l;
            l = stop_t1 l;
            l = start_t3 now l;
            l = to_state L_Connected l
        in snd (send_pending now l)
      else if k_state l = L_Disconnecting then to_state L_Disconnected (stop_all l)
      else l)"

definition on_dm :: "link \<Rightarrow> link" where
  "on_dm l = (if k_state l \<noteq> L_Disconnected then to_state L_Disconnected (stop_all l) else l)"

section \<open>I and S frames\<close>

definition ack_frame :: "int \<Rightarrow> frame \<Rightarrow> link \<Rightarrow> link" where
  "ack_frame now f l = (case f_nr f of None \<Rightarrow> l | Some nr \<Rightarrow> ack_own now nr l)"

text \<open>
  The loop that rejects each missing sequence number from V(R) up to N(S) once. It visits
  at most \<open>mod\<close> numbers when N(S) is below the modulus, which is the fuel it is given.
\<close>

fun srej_missing :: "nat \<Rightarrow> nat \<Rightarrow> nat \<Rightarrow> link \<Rightarrow> link" where
  "srej_missing 0 s ns l = l"
| "srej_missing (Suc fuel) s ns l =
     (if s = ns then l
      else let l = (if s \<in> set (k_srej_sent l) then l
                    else (tx_s F_SREJ s False l)\<lparr>k_srej_sent := k_srej_sent l @ [s]\<rparr>)
           in srej_missing fuel ((s + 1) mod k_mod l) ns l)"

definition on_i_in_sequence :: "int \<Rightarrow> frame \<Rightarrow> link \<Rightarrow> link" where
  "on_i_in_sequence now f l =
     (let l = l\<lparr>k_vr := (k_vr l + 1) mod k_mod l, k_rej_sent := False\<rparr>;
          l = (case f_info f of None \<Rightarrow> l | Some info \<Rightarrow> emit (Ev_Deliver info (f_pid f)) l);
          l = drain_rxbuf l
      in if f_pf f then tx now F_RR False True l
         else let (any, l') = send_pending now l
              in if any then l' else tx now F_RR False False l')"

definition on_i_srej :: "int \<Rightarrow> frame \<Rightarrow> nat \<Rightarrow> link \<Rightarrow> link" where
  "on_i_srej now f ns l =
     (let l = (case f_info f of
                 Some info \<Rightarrow> if jm_get (k_rxbuf l) ns = None
                              then l\<lparr>k_rxbuf := jm_set ns (info, f_pid f) (k_rxbuf l)\<rparr> else l
               | None \<Rightarrow> l);
          l = srej_missing (k_mod l) (k_vr l) ns l
      in if f_pf f then tx now F_RR False True l else l)"

definition on_i_rej :: "int \<Rightarrow> frame \<Rightarrow> link \<Rightarrow> link" where
  "on_i_rej now f l =
     (if \<not> k_rej_sent l then (tx now F_REJ False (f_pf f) l)\<lparr>k_rej_sent := True\<rparr>
      else if f_pf f then tx now F_RR False True l
      else l)"

definition on_i :: "int \<Rightarrow> frame \<Rightarrow> link \<Rightarrow> link" where
  "on_i now f l =
     (if k_state l \<noteq> L_Connected \<and> k_state l \<noteq> L_Recovering then l
      else let l = ack_frame now f l
           in case f_ns f of
                None \<Rightarrow> on_i_rej now f l
              | Some ns \<Rightarrow>
                  if ns = k_vr l then on_i_in_sequence now f l
                  else if lc_srej (k_cfg l)
                          \<and> in_window (k_mod l) (k_vr l) ns ((k_vr l + k_mod l - 2) mod k_mod l)
                  then on_i_srej now f ns l
                  else on_i_rej now f l)"

definition on_s :: "int \<Rightarrow> frame \<Rightarrow> link \<Rightarrow> link" where
  "on_s now f l =
     (if k_state l \<noteq> L_Connected \<and> k_state l \<noteq> L_Recovering then l
      else let l = (case k_poll_at l of
                      Some at \<Rightarrow>
                        if f_pf f \<and> \<not> f_command f
                        then (if k_poll_repeated l then l else emit (Ev_Rtt (now - at) Rtt_Poll) l)
                               \<lparr>k_poll_at := None, k_poll_repeated := False\<rparr>
                        else l
                    | None \<Rightarrow> l);
               l = l\<lparr>k_peer_busy := (f_type f = F_RNR)\<rparr>;
               l = ack_frame now f l;
               l = (case f_nr f of
                      None \<Rightarrow> l
                    | Some nr \<Rightarrow> if f_type f = F_REJ then retransmit_from now nr l
                                 else if f_type f = F_SREJ then retransmit_one now nr l else l);
               l = (if k_state l = L_Recovering \<and> f_pf f
                    then let l = l\<lparr>k_rc := 0\<rparr>; l = to_state L_Connected l
                         in retransmit_from now (k_va l) l
                    else l);
               l = (if f_pf f \<and> f_command f then tx now F_RR False True l else l)
           in if k_state l = L_Connected then snd (send_pending now l) else l)"

section \<open>Inbound dispatch\<close>

definition on_receive :: "int \<Rightarrow> frame \<Rightarrow> link \<Rightarrow> link" where
  "on_receive now f l =
     (if \<not> same_addr (f_src f) (k_remote l) \<or> \<not> same_addr (f_dst f) (k_local l) then l
      else case f_type f of
        F_SABM \<Rightarrow> on_sabm now f 8 l
      | F_SABME \<Rightarrow> on_sabm now f 128 l
      | F_DISC \<Rightarrow> on_disc now f l
      | F_UA \<Rightarrow> on_ua now l
      | F_DM \<Rightarrow> on_dm l
      | F_I \<Rightarrow> on_i now f l
      | F_RR \<Rightarrow> on_s now f l
      | F_RNR \<Rightarrow> on_s now f l
      | F_REJ \<Rightarrow> on_s now f l
      | F_SREJ \<Rightarrow> on_s now f l
      | F_FRMR \<Rightarrow> reestablish now (emit (Ev_Error ''FRMR from peer - resetting'') l)
      | F_UI \<Rightarrow> l
      | F_XID \<Rightarrow> l
      | F_TEST \<Rightarrow> l)"

section \<open>Timers\<close>

definition on_t1 :: "int \<Rightarrow> link \<Rightarrow> link" where
  "on_t1 now l =
     (let again = (k_rc l < lc_n2 (k_cfg l)); l1 = l\<lparr>k_rc := k_rc l + 1\<rparr>
      in case k_state l of
           L_Connecting \<Rightarrow>
             if again then start_t1 now (tx now (sabm_type l1) True True l1)
             else fail_link now (''no answer to '' @ (if k_mod l = 128 then ''SABME'' else ''SABM'')) l1
         | L_Disconnecting \<Rightarrow>
             if again then start_t1 now (tx now F_DISC True True l1)
             else to_state L_Disconnected (stop_all l1)
         | L_Disconnected \<Rightarrow> l
         | _ \<Rightarrow>
             if again then start_t1 now (tx now F_RR True True (to_state L_Recovering l1))
             else fail_link now ''N2 retries exceeded'' l1)"

definition on_t3 :: "int \<Rightarrow> link \<Rightarrow> link" where
  "on_t3 now l =
     (if k_state l = L_Connected
      then let l = l\<lparr>k_rc := 0\<rparr>;
               l = to_state L_Recovering l;
               l = tx now F_RR True True l
           in start_t1 now l
      else l)"

definition poll :: "int \<Rightarrow> link \<Rightarrow> link" where
  "poll now l =
     (let l = (case k_t1 l of Some t \<Rightarrow> if t \<le> now then on_t1 now l else l | None \<Rightarrow> l)
      in case k_t3 l of Some t \<Rightarrow> if t \<le> now then on_t3 now l else l | None \<Rightarrow> l)"

section \<open>One step of the machine\<close>

datatype link_op =
    Op_Connect
  | Op_Disconnect
  | Op_Send "byte list" "byte option"
  | Op_Probe
  | Op_Receive frame
  | Op_Poll

fun link_step :: "link \<Rightarrow> int \<times> link_op \<Rightarrow> link" where
  "link_step l (now, Op_Connect) = connect now l"
| "link_step l (now, Op_Disconnect) = disconnect now l"
| "link_step l (now, Op_Send info pid) = send now info pid l"
| "link_step l (now, Op_Probe) = snd (probe now l)"
| "link_step l (now, Op_Receive f) = on_receive now f l"
| "link_step l (now, Op_Poll) = poll now l"

section \<open>What the helpers leave alone\<close>

lemma emit_fields [simp]:
  "k_local (emit e l) = k_local l" "k_remote (emit e l) = k_remote l" "k_cfg (emit e l) = k_cfg l"
  "k_state (emit e l) = k_state l" "k_vs (emit e l) = k_vs l" "k_vr (emit e l) = k_vr l"
  "k_va (emit e l) = k_va l" "k_pending (emit e l) = k_pending l" "k_sent (emit e l) = k_sent l"
  "k_rc (emit e l) = k_rc l" "k_peer_busy (emit e l) = k_peer_busy l" "k_rej_sent (emit e l) = k_rej_sent l"
  "k_rxbuf (emit e l) = k_rxbuf l" "k_srej_sent (emit e l) = k_srej_sent l" "k_mod (emit e l) = k_mod l"
  "k_t1 (emit e l) = k_t1 l" "k_t3 (emit e l) = k_t3 l" "k_poll_at (emit e l) = k_poll_at l"
  "k_poll_repeated (emit e l) = k_poll_repeated l" "k_trace (emit e l) = k_trace l @ [e]"
  by (simp_all add: emit_def)

lemma tx_i_fields [simp]:
  "k_local (tx_i n i p l) = k_local l" "k_remote (tx_i n i p l) = k_remote l" "k_cfg (tx_i n i p l) = k_cfg l"
  "k_state (tx_i n i p l) = k_state l" "k_vs (tx_i n i p l) = k_vs l" "k_vr (tx_i n i p l) = k_vr l"
  "k_va (tx_i n i p l) = k_va l" "k_pending (tx_i n i p l) = k_pending l" "k_sent (tx_i n i p l) = k_sent l"
  "k_rc (tx_i n i p l) = k_rc l" "k_peer_busy (tx_i n i p l) = k_peer_busy l"
  "k_rej_sent (tx_i n i p l) = k_rej_sent l" "k_rxbuf (tx_i n i p l) = k_rxbuf l"
  "k_srej_sent (tx_i n i p l) = k_srej_sent l" "k_mod (tx_i n i p l) = k_mod l"
  "k_t1 (tx_i n i p l) = k_t1 l" "k_t3 (tx_i n i p l) = k_t3 l"
  "k_trace (tx_i n i p l) = k_trace l @ [Ev_Send (iframe l n i p)]"
  by (simp_all add: tx_i_def)

lemma tx_s_fields [simp]:
  "k_local (tx_s t n p l) = k_local l" "k_remote (tx_s t n p l) = k_remote l" "k_cfg (tx_s t n p l) = k_cfg l"
  "k_state (tx_s t n p l) = k_state l" "k_vs (tx_s t n p l) = k_vs l" "k_vr (tx_s t n p l) = k_vr l"
  "k_va (tx_s t n p l) = k_va l" "k_pending (tx_s t n p l) = k_pending l" "k_sent (tx_s t n p l) = k_sent l"
  "k_rc (tx_s t n p l) = k_rc l" "k_peer_busy (tx_s t n p l) = k_peer_busy l"
  "k_rej_sent (tx_s t n p l) = k_rej_sent l" "k_rxbuf (tx_s t n p l) = k_rxbuf l"
  "k_srej_sent (tx_s t n p l) = k_srej_sent l" "k_mod (tx_s t n p l) = k_mod l"
  by (simp_all add: tx_s_def)

lemma tx_fields [simp]:
  "k_local (tx now t c p l) = k_local l" "k_remote (tx now t c p l) = k_remote l" "k_cfg (tx now t c p l) = k_cfg l"
  "k_state (tx now t c p l) = k_state l" "k_vs (tx now t c p l) = k_vs l" "k_vr (tx now t c p l) = k_vr l"
  "k_va (tx now t c p l) = k_va l" "k_pending (tx now t c p l) = k_pending l" "k_sent (tx now t c p l) = k_sent l"
  "k_rc (tx now t c p l) = k_rc l" "k_peer_busy (tx now t c p l) = k_peer_busy l"
  "k_rej_sent (tx now t c p l) = k_rej_sent l" "k_rxbuf (tx now t c p l) = k_rxbuf l"
  "k_srej_sent (tx now t c p l) = k_srej_sent l" "k_mod (tx now t c p l) = k_mod l"
  "k_t1 (tx now t c p l) = k_t1 l" "k_t3 (tx now t c p l) = k_t3 l"
  "k_trace (tx now t c p l) = k_trace l @ [Ev_Send (supervisory l t c p (k_vr l))]"
  by (auto simp: tx_def Let_def supervisory_def split: option.splits)

lemma timer_fields [simp]:
  "k_cfg (start_t1 now l) = k_cfg l" "k_state (start_t1 now l) = k_state l" "k_vs (start_t1 now l) = k_vs l"
  "k_vr (start_t1 now l) = k_vr l" "k_va (start_t1 now l) = k_va l" "k_pending (start_t1 now l) = k_pending l"
  "k_sent (start_t1 now l) = k_sent l" "k_rc (start_t1 now l) = k_rc l" "k_peer_busy (start_t1 now l) = k_peer_busy l"
  "k_rej_sent (start_t1 now l) = k_rej_sent l" "k_rxbuf (start_t1 now l) = k_rxbuf l"
  "k_srej_sent (start_t1 now l) = k_srej_sent l" "k_mod (start_t1 now l) = k_mod l"
  "k_local (start_t1 now l) = k_local l" "k_remote (start_t1 now l) = k_remote l" "k_trace (start_t1 now l) = k_trace l"
  "k_t1 (start_t1 now l) = Some (now + lc_t1 (k_cfg l))" "k_t3 (start_t1 now l) = k_t3 l"
  "k_cfg (stop_t1 l) = k_cfg l" "k_state (stop_t1 l) = k_state l" "k_vs (stop_t1 l) = k_vs l"
  "k_vr (stop_t1 l) = k_vr l" "k_va (stop_t1 l) = k_va l" "k_pending (stop_t1 l) = k_pending l"
  "k_sent (stop_t1 l) = k_sent l" "k_rc (stop_t1 l) = k_rc l" "k_peer_busy (stop_t1 l) = k_peer_busy l"
  "k_rej_sent (stop_t1 l) = k_rej_sent l" "k_rxbuf (stop_t1 l) = k_rxbuf l"
  "k_srej_sent (stop_t1 l) = k_srej_sent l" "k_mod (stop_t1 l) = k_mod l"
  "k_local (stop_t1 l) = k_local l" "k_remote (stop_t1 l) = k_remote l" "k_trace (stop_t1 l) = k_trace l"
  "k_t1 (stop_t1 l) = None" "k_t3 (stop_t1 l) = k_t3 l"
  "k_cfg (start_t3 now l) = k_cfg l" "k_state (start_t3 now l) = k_state l" "k_vs (start_t3 now l) = k_vs l"
  "k_vr (start_t3 now l) = k_vr l" "k_va (start_t3 now l) = k_va l" "k_pending (start_t3 now l) = k_pending l"
  "k_sent (start_t3 now l) = k_sent l" "k_rc (start_t3 now l) = k_rc l" "k_peer_busy (start_t3 now l) = k_peer_busy l"
  "k_rej_sent (start_t3 now l) = k_rej_sent l" "k_rxbuf (start_t3 now l) = k_rxbuf l"
  "k_srej_sent (start_t3 now l) = k_srej_sent l" "k_mod (start_t3 now l) = k_mod l"
  "k_local (start_t3 now l) = k_local l" "k_remote (start_t3 now l) = k_remote l" "k_trace (start_t3 now l) = k_trace l"
  "k_t1 (start_t3 now l) = k_t1 l"
  "k_cfg (stop_t3 l) = k_cfg l" "k_state (stop_t3 l) = k_state l" "k_vs (stop_t3 l) = k_vs l"
  "k_vr (stop_t3 l) = k_vr l" "k_va (stop_t3 l) = k_va l" "k_pending (stop_t3 l) = k_pending l"
  "k_sent (stop_t3 l) = k_sent l" "k_rc (stop_t3 l) = k_rc l" "k_peer_busy (stop_t3 l) = k_peer_busy l"
  "k_rej_sent (stop_t3 l) = k_rej_sent l" "k_rxbuf (stop_t3 l) = k_rxbuf l"
  "k_srej_sent (stop_t3 l) = k_srej_sent l" "k_mod (stop_t3 l) = k_mod l"
  "k_local (stop_t3 l) = k_local l" "k_remote (stop_t3 l) = k_remote l" "k_trace (stop_t3 l) = k_trace l"
  "k_t1 (stop_t3 l) = k_t1 l" "k_t3 (stop_t3 l) = None"
  by (simp_all add: start_t1_def stop_t1_def start_t3_def stop_t3_def)

lemma stop_all_fields [simp]:
  "k_cfg (stop_all l) = k_cfg l" "k_state (stop_all l) = k_state l" "k_vs (stop_all l) = k_vs l"
  "k_vr (stop_all l) = k_vr l" "k_va (stop_all l) = k_va l" "k_pending (stop_all l) = k_pending l"
  "k_sent (stop_all l) = k_sent l" "k_rc (stop_all l) = k_rc l" "k_peer_busy (stop_all l) = k_peer_busy l"
  "k_rej_sent (stop_all l) = k_rej_sent l" "k_rxbuf (stop_all l) = k_rxbuf l"
  "k_srej_sent (stop_all l) = k_srej_sent l" "k_mod (stop_all l) = k_mod l"
  "k_local (stop_all l) = k_local l" "k_remote (stop_all l) = k_remote l" "k_trace (stop_all l) = k_trace l"
  "k_t1 (stop_all l) = None" "k_t3 (stop_all l) = None" "k_poll_at (stop_all l) = None"
  by (simp_all add: stop_all_def)

lemma to_state_fields [simp]:
  "k_cfg (to_state s l) = k_cfg l" "k_state (to_state s l) = s" "k_vs (to_state s l) = k_vs l"
  "k_vr (to_state s l) = k_vr l" "k_va (to_state s l) = k_va l" "k_pending (to_state s l) = k_pending l"
  "k_sent (to_state s l) = k_sent l" "k_rc (to_state s l) = k_rc l" "k_peer_busy (to_state s l) = k_peer_busy l"
  "k_rej_sent (to_state s l) = k_rej_sent l" "k_rxbuf (to_state s l) = k_rxbuf l"
  "k_srej_sent (to_state s l) = k_srej_sent l" "k_mod (to_state s l) = k_mod l"
  "k_local (to_state s l) = k_local l" "k_remote (to_state s l) = k_remote l"
  "k_t1 (to_state s l) = k_t1 l" "k_t3 (to_state s l) = k_t3 l" "k_poll_at (to_state s l) = k_poll_at l"
  by (simp_all add: to_state_def)

lemma reset_fields [simp]:
  "k_cfg (reset l) = k_cfg l" "k_state (reset l) = k_state l" "k_vs (reset l) = 0" "k_vr (reset l) = 0"
  "k_va (reset l) = 0" "k_pending (reset l) = []" "k_sent (reset l) = []" "k_rc (reset l) = 0"
  "k_rxbuf (reset l) = []" "k_srej_sent (reset l) = []" "k_mod (reset l) = k_mod l" "k_peer_busy (reset l) = False"
  "k_local (reset l) = k_local l" "k_remote (reset l) = k_remote l" "k_trace (reset l) = k_trace l"
  "k_rej_sent (reset l) = False" "k_t1 (reset l) = k_t1 l" "k_t3 (reset l) = k_t3 l"
  by (simp_all add: reset_def)

section \<open>The window invariant\<close>

definition seq_run :: "nat \<Rightarrow> nat \<Rightarrow> nat \<Rightarrow> nat list" where
  "seq_run m a n = map (\<lambda>i. (a + i) mod m) [0..<n]"

definition base_ok :: "link \<Rightarrow> bool" where
  "base_ok l = (k_mod l \<in> {8, 128} \<and> lc_window (k_cfg l) < k_mod l
     \<and> k_vs l < k_mod l \<and> k_vr l < k_mod l \<and> k_va l < k_mod l
     \<and> jm_ok (k_rxbuf l) \<and> (\<forall>n\<in>set (jm_keys (k_rxbuf l)). n < k_mod l))"

definition win_ok :: "link \<Rightarrow> bool" where
  "win_ok l = (map si_ns (k_sent l) = seq_run (k_mod l) (k_va l) (length (k_sent l))
     \<and> k_vs l = (k_va l + length (k_sent l)) mod k_mod l
     \<and> length (k_sent l) \<le> lc_window (k_cfg l))"

definition active :: "link_state \<Rightarrow> bool" where
  "active s = (s \<in> {L_Connecting, L_Connected, L_Recovering})"

definition link_ok :: "link \<Rightarrow> bool" where
  "link_ok l = (base_ok l \<and> (active (k_state l) \<longrightarrow> win_ok l))"

lemma length_seq_run [simp]: "length (seq_run m a n) = n"
  by (simp add: seq_run_def)

lemma seq_run_snoc: "seq_run m a (Suc n) = seq_run m a n @ [(a + n) mod m]"
  by (simp add: seq_run_def)

lemma seq_run_Suc: "seq_run m a (Suc n) = a mod m # seq_run m ((a + 1) mod m) n"
proof (rule nth_equalityI)
  fix i assume "i < length (seq_run m a (Suc n))"
  then show "seq_run m a (Suc n) ! i = (a mod m # seq_run m ((a + 1) mod m) n) ! i"
    by (cases i) (simp_all add: seq_run_def mod_simps del: upt_Suc)
qed simp

lemma drop_seq_run: "drop d (seq_run m a n) = seq_run m ((a + d) mod m) (n - d)"
proof (rule nth_equalityI)
  fix i assume "i < length (drop d (seq_run m a n))"
  then have "d + i < n" "i < n - d" by simp_all
  then show "drop d (seq_run m a n) ! i = seq_run m ((a + d) mod m) (n - d) ! i"
    by (simp add: seq_run_def mod_simps add.assoc)
qed simp

lemma outstanding_run [seq_arith]:
  "va < m \<Longrightarrow> n < m \<Longrightarrow> outstanding m va ((va + n) mod m) = n"
  unfolding outstanding_def
  by (cases "va + n < m") (auto simp: mod_if le_mod_geq not_less)

lemma base_ok_pos: "base_ok l \<Longrightarrow> 0 < k_mod l"
  by (auto simp: base_ok_def)

lemma win_ok_outstanding:
  "base_ok l \<Longrightarrow> win_ok l \<Longrightarrow> outstanding (k_mod l) (k_va l) (k_vs l) = length (k_sent l)"
  by (simp add: win_ok_def base_ok_def outstanding_run)

lemma send_pending_ok:
  "base_ok l \<Longrightarrow> win_ok l \<Longrightarrow> base_ok (snd (send_pending now l)) \<and> win_ok (snd (send_pending now l))"
proof (induction now l rule: send_pending.induct)
  case (1 now l)
  show ?case
  proof (cases "k_pending l \<noteq> [] \<and> \<not> k_peer_busy l \<and> outstanding (k_mod l) (k_va l) (k_vs l) < lc_window (k_cfg l)")
    case False
    then show ?thesis using "1.prems" by (subst (1 2) send_pending.simps) (auto split: list.splits)
  next
    case True
    then obtain info pid rest where p: "k_pending l = (info, pid) # rest" by (cases "k_pending l") auto
    let ?l3 = "(tx_i (k_vs l) info pid (l\<lparr>k_pending := rest\<rparr>))\<lparr>k_sent := k_sent l @
          [\<lparr>si_ns = k_vs l, si_info = info, si_pid = pid, si_at = now, si_retx = False\<rparr>],
          k_vs := (k_vs l + 1) mod k_mod l\<rparr>"
    let ?l4 = "start_t1 now (stop_t3 ?l3)"
    have step: "snd (send_pending now l) = snd (send_pending now ?l4)"
      using True p by (subst send_pending.simps) (simp add: Let_def)
    have "base_ok ?l4" using "1.prems"(1) by (auto simp: base_ok_def)
    moreover have "win_ok ?l4"
      using "1.prems" True win_ok_outstanding [OF "1.prems"]
      by (simp add: win_ok_def seq_run_snoc mod_simps)
    ultimately show ?thesis
      unfolding step using True p "1.IH" [OF p] by (simp add: Let_def)
  qed
qed

lemma send_pending_fields [simp]:
  "k_state (snd (send_pending now l)) = k_state l \<and> k_cfg (snd (send_pending now l)) = k_cfg l
   \<and> k_mod (snd (send_pending now l)) = k_mod l \<and> k_vr (snd (send_pending now l)) = k_vr l
   \<and> k_va (snd (send_pending now l)) = k_va l \<and> k_rxbuf (snd (send_pending now l)) = k_rxbuf l
   \<and> k_local (snd (send_pending now l)) = k_local l \<and> k_remote (snd (send_pending now l)) = k_remote l"
proof (induction now l rule: send_pending.induct)
  case (1 now l)
  show ?case
    using "1.IH" by (subst (1 2 3 4 5 6 7 8) send_pending.simps) (auto simp: Let_def split: list.splits)
qed

section \<open>Acknowledgement\<close>

text \<open>How many of our I-frames an N(R) acknowledges, when it lies in the window.\<close>

definition acked_by :: "link \<Rightarrow> nat \<Rightarrow> nat" where
  "acked_by l nr = (nr + k_mod l - k_va l) mod k_mod l"

definition nr_valid :: "link \<Rightarrow> nat \<Rightarrow> bool" where
  "nr_valid l nr = in_window (k_mod l) (k_va l) nr (k_vs l)"

lemma mod_diff_add:
  assumes "va < (m :: nat)" "nr < m"
  shows "(va + (nr + m - va) mod m) mod m = nr"
proof -
  have "(va + (nr + m - va) mod m) mod m = (va + (nr + m - va)) mod m" by (simp add: mod_simps)
  also have "va + (nr + m - va) = nr + m" using assms by simp
  finally show ?thesis using assms by simp
qed

lemma ack_loop_run:
  assumes "d \<le> length ss" "d < m" "va < m" "nr = (va + d) mod m"
  shows "ack_loop m nr va ss a = (nr, drop d ss, if d = 0 then a else Some (ss ! (d - 1)))"
  using assms
proof (induction d arbitrary: va ss a)
  case 0
  then show ?case by (cases ss) auto
next
  case (Suc d)
  then obtain s ss' where ss: "ss = s # ss'" by (cases ss) auto
  have "(va + Suc d) mod m \<noteq> va"
    using Suc.prems by (auto simp: mod_if split: if_splits)
  moreover have "ack_loop m nr ((va + 1) mod m) ss' (Some s)
      = (nr, drop d ss', if d = 0 then Some s else Some (ss' ! (d - 1)))"
    using Suc.prems ss by (intro Suc.IH) (auto simp: mod_simps)
  ultimately show ?case using ss Suc.prems by (simp add: nth_Cons')
qed

lemma nr_valid_le:
  assumes "base_ok l" "win_ok l" "nr_valid l nr"
  shows "acked_by l nr \<le> length (k_sent l)" "acked_by l nr < k_mod l"
proof -
  show "acked_by l nr < k_mod l" using base_ok_pos [OF assms(1)] by (simp add: acked_by_def)
  show "acked_by l nr \<le> length (k_sent l)"
    using assms(3) win_ok_outstanding [OF assms(1,2)]
    by (simp add: nr_valid_def in_window_def acked_by_def outstanding_def)
qed

lemma ack_own_effect:
  fixes now :: int
  assumes ok: "base_ok l" "win_ok l" and nr: "nr < k_mod l"
  defines "l' \<equiv> ack_own now nr l"
  shows "k_sent l' = (if nr_valid l nr then drop (acked_by l nr) (k_sent l) else k_sent l)"
    and "k_va l' = (if nr_valid l nr then nr else k_va l)"
    and "k_vs l' = k_vs l" "k_vr l' = k_vr l" "k_pending l' = k_pending l" "k_state l' = k_state l"
    and "k_cfg l' = k_cfg l" "k_mod l' = k_mod l" "k_rxbuf l' = k_rxbuf l" "k_local l' = k_local l"
    and "k_remote l' = k_remote l" "k_srej_sent l' = k_srej_sent l" "k_peer_busy l' = k_peer_busy l"
    and "k_rej_sent l' = k_rej_sent l"
proof -
  have va: "k_va l < k_mod l" using ok(1) by (simp add: base_ok_def)
  have *: "ack_loop (k_mod l) nr (k_va l) (k_sent l) None =
      (nr, drop (acked_by l nr) (k_sent l),
       if acked_by l nr = 0 then None else Some (k_sent l ! (acked_by l nr - 1)))" if "nr_valid l nr"
    using nr_valid_le [OF ok that] va mod_diff_add [OF va nr]
    by (intro ack_loop_run) (auto simp: acked_by_def)
  show "k_sent l' = (if nr_valid l nr then drop (acked_by l nr) (k_sent l) else k_sent l)"
    "k_va l' = (if nr_valid l nr then nr else k_va l)"
    "k_vs l' = k_vs l" "k_vr l' = k_vr l" "k_pending l' = k_pending l" "k_state l' = k_state l"
    "k_cfg l' = k_cfg l" "k_mod l' = k_mod l" "k_rxbuf l' = k_rxbuf l" "k_local l' = k_local l"
    "k_remote l' = k_remote l" "k_srej_sent l' = k_srej_sent l" "k_peer_busy l' = k_peer_busy l"
    "k_rej_sent l' = k_rej_sent l"
    using * by (auto simp: l'_def ack_own_def nr_valid_def [symmetric] Let_def)
qed

lemma ack_own_ok:
  assumes ok: "base_ok l" "win_ok l" and nr: "nr < k_mod l"
  shows "base_ok (ack_own now nr l) \<and> win_ok (ack_own now nr l)"
proof -
  note e = ack_own_effect [OF assms, of now]
  have va: "k_va l < k_mod l" using ok(1) by (simp add: base_ok_def)
  have base: "base_ok (ack_own now nr l)"
    using ok(1) nr by (simp add: base_ok_def e)
  show ?thesis
  proof (cases "nr_valid l nr")
    case True
    let ?d = "acked_by l nr"
    have d: "?d \<le> length (k_sent l)" using nr_valid_le [OF ok True] by simp
    have nr_eq: "(k_va l + ?d) mod k_mod l = nr"
      using mod_diff_add [OF va nr] by (simp add: acked_by_def)
    have "map si_ns (drop ?d (k_sent l)) = seq_run (k_mod l) nr (length (k_sent l) - ?d)"
      using ok(2) nr_eq by (simp add: win_ok_def drop_map [symmetric] drop_seq_run)
    moreover have "(nr + (length (k_sent l) - ?d)) mod k_mod l = k_vs l"
    proof -
      have "(nr + (length (k_sent l) - ?d)) mod k_mod l
          = (k_va l + ?d + (length (k_sent l) - ?d)) mod k_mod l"
        by (subst nr_eq [symmetric]) (simp add: mod_simps)
      also have "\<dots> = k_vs l" using d ok(2) by (simp add: win_ok_def)
      finally show ?thesis .
    qed
    moreover have "length (k_sent l) - ?d \<le> lc_window (k_cfg l)"
      using ok(2) by (simp add: win_ok_def le_diff_conv trans_le_add1)
    ultimately show ?thesis using True base ok(2) by (simp add: win_ok_def e)
  next
    case False
    then show ?thesis using base ok(2) by (simp add: win_ok_def e)
  qed
qed

lemma ack_frame_ok:
  assumes "base_ok l" "win_ok l" "opt0 (f_nr f) < k_mod l"
  shows "base_ok (ack_frame now f l) \<and> win_ok (ack_frame now f l)"
  using assms ack_own_ok by (auto simp: ack_frame_def opt0_def split: option.splits)

section \<open>Retransmission\<close>

lemma retransmit_list_fields:
  "retransmit_list p ss l = (ss', any, l') \<Longrightarrow>
     map si_ns ss' = map si_ns ss \<and> map si_info ss' = map si_info ss \<and> map si_pid ss' = map si_pid ss
   \<and> k_trace l' = k_trace l @ map (\<lambda>s. Ev_Send (iframe l (si_ns s) (si_info s) (si_pid s))) (filter (\<lambda>s. p (si_ns s)) ss)
   \<and> l' = l\<lparr>k_trace := k_trace l'\<rparr>"
proof (induction p ss l arbitrary: ss' any l' rule: retransmit_list.induct)
  case (2 p s ss l)
  show ?case
  proof (cases "p (si_ns s)")
    case True
    let ?l1 = "tx_i (si_ns s) (si_info s) (si_pid s) l"
    obtain ss1 any1 l1 where r: "retransmit_list p ss ?l1 = (ss1, any1, l1)"
      by (cases "retransmit_list p ss ?l1") auto
    have "iframe ?l1 = iframe l" by (intro ext) (simp add: iframe_def split: option.split)
    with "2.IH"(1) [OF True r] "2.prems" True r show ?thesis
      by (auto simp: tx_i_def emit_def)
  next
    case False
    obtain ss1 any1 l1 where r: "retransmit_list p ss l = (ss1, any1, l1)"
      by (cases "retransmit_list p ss l") auto
    with "2.IH"(2) [OF False r] "2.prems" False show ?thesis by auto
  qed
qed simp

lemma base_win_trace [simp]:
  "base_ok (l\<lparr>k_trace := t\<rparr>) = base_ok l" "win_ok (l\<lparr>k_trace := t\<rparr>) = win_ok l"
  by (simp_all add: base_ok_def win_ok_def)

lemma base_win_cong:
  "k_mod l' = k_mod l \<Longrightarrow> k_cfg l' = k_cfg l \<Longrightarrow> k_vs l' = k_vs l \<Longrightarrow> k_vr l' = k_vr l \<Longrightarrow> k_va l' = k_va l
   \<Longrightarrow> k_rxbuf l' = k_rxbuf l \<Longrightarrow> map si_ns (k_sent l') = map si_ns (k_sent l)
   \<Longrightarrow> base_ok l' = base_ok l \<and> win_ok l' = win_ok l"
  by (simp add: base_ok_def win_ok_def) (metis length_map)

definition resent_from :: "link \<Rightarrow> nat \<Rightarrow> sent_iframe list" where
  "resent_from l nr =
     filter (\<lambda>s. in_window (k_mod l) nr (si_ns s) ((k_vs l + k_mod l - 1) mod k_mod l)) (k_sent l)"

lemma retransmit_from_fields:
  fixes now :: int and nr :: nat and l :: link
  defines "l' \<equiv> retransmit_from now nr l"
  shows "map si_ns (k_sent l') = map si_ns (k_sent l)" "map si_info (k_sent l') = map si_info (k_sent l)"
    and "map si_pid (k_sent l') = map si_pid (k_sent l)"
    and "k_mod l' = k_mod l" "k_cfg l' = k_cfg l" "k_vs l' = k_vs l" "k_vr l' = k_vr l" "k_va l' = k_va l"
    and "k_rxbuf l' = k_rxbuf l" "k_pending l' = k_pending l" "k_state l' = k_state l"
    and "k_local l' = k_local l" "k_remote l' = k_remote l" "k_srej_sent l' = k_srej_sent l"
    and "k_peer_busy l' = k_peer_busy l" "k_rej_sent l' = k_rej_sent l"
    and "k_trace l' = k_trace l @
      map (\<lambda>s. Ev_Send (iframe l (si_ns s) (si_info s) (si_pid s))) (resent_from l nr)"
proof -
  obtain ss any m where r: "retransmit_list (\<lambda>ns. in_window (k_mod l) nr ns ((k_vs l + k_mod l - 1) mod k_mod l))
      (k_sent l) l = (ss, any, m)"
    by (metis prod_cases3)
  let ?t = "k_trace l @ map (\<lambda>s. Ev_Send (iframe l (si_ns s) (si_info s) (si_pid s))) (resent_from l nr)"
  have m: "m = l\<lparr>k_trace := ?t\<rparr>" and ss: "map si_ns ss = map si_ns (k_sent l)"
      "map si_info ss = map si_info (k_sent l)" "map si_pid ss = map si_pid (k_sent l)"
    using retransmit_list_fields [OF r] by (auto simp: resent_from_def)
  have "l' = (if any then start_t1 now (m\<lparr>k_sent := ss\<rparr>) else m\<lparr>k_sent := ss\<rparr>)"
    using r by (simp add: l'_def retransmit_from_def Let_def)
  then show "map si_ns (k_sent l') = map si_ns (k_sent l)" "map si_info (k_sent l') = map si_info (k_sent l)"
    "map si_pid (k_sent l') = map si_pid (k_sent l)"
    "k_mod l' = k_mod l" "k_cfg l' = k_cfg l" "k_vs l' = k_vs l" "k_vr l' = k_vr l" "k_va l' = k_va l"
    "k_rxbuf l' = k_rxbuf l" "k_pending l' = k_pending l" "k_state l' = k_state l"
    "k_local l' = k_local l" "k_remote l' = k_remote l" "k_srej_sent l' = k_srej_sent l"
    "k_peer_busy l' = k_peer_busy l" "k_rej_sent l' = k_rej_sent l" "k_trace l' = ?t"
    by (auto simp: m ss)
qed

lemma retransmit_from_ok:
  "base_ok (retransmit_from now nr l) = base_ok l" "win_ok (retransmit_from now nr l) = win_ok l"
  using base_win_cong [of "retransmit_from now nr l" l] by (simp_all add: retransmit_from_fields)

lemma mark_first_fields:
  "map si_ns (mark_first n ss) = map si_ns ss" "map si_info (mark_first n ss) = map si_info ss"
  "map si_pid (mark_first n ss) = map si_pid ss"
  by (induction ss) auto

lemma retransmit_one_fields [simp]:
  "map si_ns (k_sent (retransmit_one now nr l)) = map si_ns (k_sent l)"
  "map si_info (k_sent (retransmit_one now nr l)) = map si_info (k_sent l)"
  "map si_pid (k_sent (retransmit_one now nr l)) = map si_pid (k_sent l)"
  "k_mod (retransmit_one now nr l) = k_mod l" "k_cfg (retransmit_one now nr l) = k_cfg l"
  "k_vs (retransmit_one now nr l) = k_vs l" "k_vr (retransmit_one now nr l) = k_vr l"
  "k_va (retransmit_one now nr l) = k_va l" "k_rxbuf (retransmit_one now nr l) = k_rxbuf l"
  "k_pending (retransmit_one now nr l) = k_pending l" "k_state (retransmit_one now nr l) = k_state l"
  "k_local (retransmit_one now nr l) = k_local l" "k_remote (retransmit_one now nr l) = k_remote l"
  by (simp_all add: retransmit_one_def Let_def mark_first_fields split: option.split)

lemma retransmit_one_ok:
  "base_ok (retransmit_one now nr l) = base_ok l" "win_ok (retransmit_one now nr l) = win_ok l"
  using base_win_cong [of "retransmit_one now nr l" l] by simp_all

section \<open>The receive buffer\<close>

lemma drain_rxbuf_fields:
  "k_mod (drain_rxbuf l) = k_mod l \<and> k_cfg (drain_rxbuf l) = k_cfg l \<and> k_vs (drain_rxbuf l) = k_vs l
   \<and> k_va (drain_rxbuf l) = k_va l \<and> k_sent (drain_rxbuf l) = k_sent l \<and> k_pending (drain_rxbuf l) = k_pending l
   \<and> k_state (drain_rxbuf l) = k_state l \<and> k_local (drain_rxbuf l) = k_local l
   \<and> k_remote (drain_rxbuf l) = k_remote l \<and> k_peer_busy (drain_rxbuf l) = k_peer_busy l"
proof (induction l rule: drain_rxbuf.induct)
  case (1 l)
  show ?case
  proof (cases "jm_get (k_rxbuf l) (k_vr l)")
    case None
    then show ?thesis by (simp add: drain_rxbuf.simps [of l])
  next
    case (Some x)
    obtain info pid where x: "x = (info, pid)" by (cases x)
    show ?thesis
      using "1.IH" [OF Some x [symmetric] refl refl refl] Some x
      by (simp add: drain_rxbuf.simps [of l] Let_def)
  qed
qed

lemma drain_rxbuf_ok: "base_ok l \<Longrightarrow> base_ok (drain_rxbuf l)"
proof (induction l rule: drain_rxbuf.induct)
  case (1 l)
  show ?case
  proof (cases "jm_get (k_rxbuf l) (k_vr l)")
    case None
    then show ?thesis using "1.prems" by (simp add: drain_rxbuf.simps [of l])
  next
    case (Some x)
    obtain info pid where x: "x = (info, pid)" by (cases x)
    let ?l1 = "l\<lparr>k_rxbuf := jm_delete (k_vr l) (k_rxbuf l),
                  k_srej_sent := removeAll (k_vr l) (k_srej_sent l)\<rparr>"
    let ?l2 = "if info \<noteq> [] then emit (Ev_Deliver info pid) ?l1 else ?l1"
    let ?l3 = "?l2\<lparr>k_vr := (k_vr ?l2 + 1) mod k_mod ?l2\<rparr>"
    have "base_ok ?l3"
      using "1.prems" set_jm_delete_subset [of "k_vr l" "k_rxbuf l"]
      by (auto simp: base_ok_def)
    then show ?thesis
      using "1.IH" [OF Some x [symmetric] refl refl refl] Some x
      by (simp add: drain_rxbuf.simps [of l] Let_def)
  qed
qed

lemma drain_rxbuf_win [simp]: "win_ok (drain_rxbuf l) = win_ok l"
  using drain_rxbuf_fields [of l] by (simp add: win_ok_def)

lemma srej_missing_fields [simp]:
  "k_mod (srej_missing fuel s ns l) = k_mod l \<and> k_cfg (srej_missing fuel s ns l) = k_cfg l
   \<and> k_vs (srej_missing fuel s ns l) = k_vs l \<and> k_va (srej_missing fuel s ns l) = k_va l
   \<and> k_vr (srej_missing fuel s ns l) = k_vr l \<and> k_sent (srej_missing fuel s ns l) = k_sent l
   \<and> k_pending (srej_missing fuel s ns l) = k_pending l \<and> k_state (srej_missing fuel s ns l) = k_state l
   \<and> k_rxbuf (srej_missing fuel s ns l) = k_rxbuf l \<and> k_local (srej_missing fuel s ns l) = k_local l
   \<and> k_remote (srej_missing fuel s ns l) = k_remote l"
  by (induction fuel s ns l rule: srej_missing.induct) (auto simp: Let_def)

section \<open>Every operation keeps the invariant\<close>

text \<open>
  What an operation needs: sequence numbers below the modulus in force, as
  \<^const>\<open>decode_frame\<close> gives them, and a window smaller than the modulus that a connect
  request brings into force.
\<close>

definition legal_op :: "link \<Rightarrow> int \<times> link_op \<Rightarrow> bool" where
  "legal_op l e =
     (case snd e of
        Op_Receive f \<Rightarrow> opt0 (f_nr f) < k_mod l \<and> opt0 (f_ns f) < k_mod l
          \<and> (f_type f = F_SABM \<longrightarrow> lc_window (k_cfg l) < 8)
          \<and> (f_type f = F_SABME \<longrightarrow> lc_window (k_cfg l) < 128)
      | Op_Connect \<Rightarrow> lc_window (k_cfg l) < cfg_mod (k_cfg l)
      | _ \<Rightarrow> True)"

lemma win_ok_reset [simp]: "win_ok (reset l)"
  by (simp add: win_ok_def seq_run_def)

lemma base_ok_reset: "k_mod l \<in> {8, 128} \<Longrightarrow> lc_window (k_cfg l) < k_mod l \<Longrightarrow> base_ok (reset l)"
  by (auto simp: base_ok_def)

text \<open>Steps that leave the sequence variables and the buffers alone keep both predicates.\<close>

lemma ok_frame_simps [simp]:
  "base_ok (emit e l) = base_ok l" "win_ok (emit e l) = win_ok l"
  "base_ok (tx now t c p l) = base_ok l" "win_ok (tx now t c p l) = win_ok l"
  "base_ok (start_t1 now l) = base_ok l" "win_ok (start_t1 now l) = win_ok l"
  "base_ok (start_t3 now l) = base_ok l" "win_ok (start_t3 now l) = win_ok l"
  "base_ok (stop_t1 l) = base_ok l" "win_ok (stop_t1 l) = win_ok l"
  "base_ok (stop_t3 l) = base_ok l" "win_ok (stop_t3 l) = win_ok l"
  "base_ok (stop_all l) = base_ok l" "win_ok (stop_all l) = win_ok l"
  "base_ok (to_state s l) = base_ok l" "win_ok (to_state s l) = win_ok l"
  "base_ok (srej_missing n k ns l) = base_ok l" "win_ok (srej_missing n k ns l) = win_ok l"
  by (simp_all add: base_ok_def win_ok_def)

lemma ok_update_simps [simp]:
  "base_ok (l\<lparr>k_rc := n\<rparr>) = base_ok l" "win_ok (l\<lparr>k_rc := n\<rparr>) = win_ok l"
  "base_ok (l\<lparr>k_peer_busy := b\<rparr>) = base_ok l" "win_ok (l\<lparr>k_peer_busy := b\<rparr>) = win_ok l"
  "base_ok (l\<lparr>k_rej_sent := b\<rparr>) = base_ok l" "win_ok (l\<lparr>k_rej_sent := b\<rparr>) = win_ok l"
  "base_ok (l\<lparr>k_pending := ps\<rparr>) = base_ok l" "win_ok (l\<lparr>k_pending := ps\<rparr>) = win_ok l"
  "base_ok (l\<lparr>k_poll_at := t, k_poll_repeated := r\<rparr>) = base_ok l"
  "win_ok (l\<lparr>k_poll_at := t, k_poll_repeated := r\<rparr>) = win_ok l"
  "base_ok (l\<lparr>k_sent := ss\<rparr>) = base_ok l"
  by (simp_all add: base_ok_def win_ok_def)

lemma win_ok_vr [simp]: "win_ok (l\<lparr>k_vr := n\<rparr>) = win_ok l" "win_ok (l\<lparr>k_rxbuf := m\<rparr>) = win_ok l"
  by (simp_all add: win_ok_def)

lemma base_ok_vr: "base_ok l \<Longrightarrow> base_ok (l\<lparr>k_vr := (k_vr l + 1) mod k_mod l, k_rej_sent := b\<rparr>)"
  by (auto simp: base_ok_def)

lemma base_ok_rxbuf: "base_ok l \<Longrightarrow> ns < k_mod l \<Longrightarrow> base_ok (l\<lparr>k_rxbuf := jm_set ns v (k_rxbuf l)\<rparr>)"
  using set_jm_set_cases by (fastforce simp: base_ok_def)

lemma state_frame_simps [simp]:
  "k_state (ack_frame now f l) = k_state l" "k_mod (ack_frame now f l) = k_mod l"
  by (auto simp: ack_frame_def ack_own_def Let_def split: option.splits prod.splits)

lemma on_i_in_sequence_ok:
  assumes "base_ok l" "win_ok l"
  shows "base_ok (on_i_in_sequence now f l) \<and> win_ok (on_i_in_sequence now f l)
    \<and> k_state (on_i_in_sequence now f l) = k_state l"
proof -
  let ?l1 = "l\<lparr>k_vr := (k_vr l + 1) mod k_mod l, k_rej_sent := False\<rparr>"
  let ?l2 = "case f_info f of None \<Rightarrow> ?l1 | Some info \<Rightarrow> emit (Ev_Deliver info (f_pid f)) ?l1"
  let ?l3 = "drain_rxbuf ?l2"
  have "base_ok ?l2" "win_ok ?l2" "k_state ?l2 = k_state l"
    using assms base_ok_vr by (auto split: option.splits)
  then have *: "base_ok ?l3" "win_ok ?l3" "k_state ?l3 = k_state l"
    using drain_rxbuf_ok drain_rxbuf_fields [of ?l2] by auto
  have "on_i_in_sequence now f l =
      (if f_pf f then tx now F_RR False True ?l3
       else if fst (send_pending now ?l3) then snd (send_pending now ?l3)
       else tx now F_RR False False (snd (send_pending now ?l3)))"
    by (simp only: on_i_in_sequence_def Let_def split_beta)
  then show ?thesis
    using * send_pending_ok [OF *(1,2), of now] send_pending_fields [of now ?l3]
    by simp
qed

lemma on_i_srej_ok:
  assumes "base_ok l" "win_ok l" "ns < k_mod l"
  shows "base_ok (on_i_srej now f ns l) \<and> win_ok (on_i_srej now f ns l)
    \<and> k_state (on_i_srej now f ns l) = k_state l"
  using assms base_ok_rxbuf [OF assms(1,3)]
  by (auto simp: on_i_srej_def Let_def split: option.splits)

lemma on_i_rej_ok:
  "base_ok l \<Longrightarrow> win_ok l \<Longrightarrow> base_ok (on_i_rej now f l) \<and> win_ok (on_i_rej now f l)
    \<and> k_state (on_i_rej now f l) = k_state l"
  by (auto simp: on_i_rej_def)

lemma on_i_ok:
  assumes "link_ok l" "opt0 (f_nr f) < k_mod l" "opt0 (f_ns f) < k_mod l"
  shows "link_ok (on_i now f l)"
proof (cases "k_state l \<in> {L_Connected, L_Recovering}")
  case True
  let ?l = "ack_frame now f l"
  have l: "base_ok ?l" "win_ok ?l" "k_mod ?l = k_mod l"
    using ack_frame_ok [of l f now] assms True by (auto simp: link_ok_def active_def)
  have st: "\<not> (k_state l \<noteq> L_Connected \<and> k_state l \<noteq> L_Recovering)" using True by auto
  have "base_ok (on_i now f l) \<and> win_ok (on_i now f l)"
  proof (cases "f_ns f")
    case None
    then show ?thesis
      using on_i_rej_ok [OF l(1,2)] unfolding on_i_def Let_def if_not_P [OF st] by simp
  next
    case (Some ns)
    then have ns: "ns < k_mod ?l" using assms(3) l(3) by (simp add: opt0_def)
    show ?thesis
      using Some on_i_in_sequence_ok [OF l(1,2)] on_i_srej_ok [OF l(1,2) ns] on_i_rej_ok [OF l(1,2)]
      unfolding on_i_def Let_def if_not_P [OF st] by simp
  qed
  then show ?thesis by (simp add: link_ok_def)
next
  case False
  then show ?thesis using assms by (simp add: on_i_def)
qed

lemma on_s_ok:
  assumes "link_ok l" "opt0 (f_nr f) < k_mod l"
  shows "link_ok (on_s now f l)"
proof (cases "k_state l \<in> {L_Connected, L_Recovering}")
  case True
  define l1 where "l1 = (case k_poll_at l of
                      Some at \<Rightarrow>
                        if f_pf f \<and> \<not> f_command f
                        then (if k_poll_repeated l then l else emit (Ev_Rtt (now - at) Rtt_Poll) l)
                               \<lparr>k_poll_at := None, k_poll_repeated := False\<rparr>
                        else l
                    | None \<Rightarrow> l)"
  define l2 where "l2 = l1\<lparr>k_peer_busy := (f_type f = F_RNR)\<rparr>"
  define l3 where "l3 = ack_frame now f l2"
  define l4 where "l4 = (case f_nr f of
                      None \<Rightarrow> l3
                    | Some nr \<Rightarrow> if f_type f = F_REJ then retransmit_from now nr l3
                                 else if f_type f = F_SREJ then retransmit_one now nr l3 else l3)"
  define l5 where "l5 = (if k_state l4 = L_Recovering \<and> f_pf f
                    then let l = l4\<lparr>k_rc := 0\<rparr>; l = to_state L_Connected l
                         in retransmit_from now (k_va l) l
                    else l4)"
  define l6 where "l6 = (if f_pf f \<and> f_command f then tx now F_RR False True l5 else l5)"
  have st: "\<not> (k_state l \<noteq> L_Connected \<and> k_state l \<noteq> L_Recovering)" using True by auto
  have eq: "on_s now f l = (if k_state l6 = L_Connected then snd (send_pending now l6) else l6)"
    unfolding on_s_def if_not_P [OF st] Let_def l6_def l5_def l4_def l3_def l2_def l1_def by (rule refl)
  have "base_ok l" "win_ok l" using assms(1) True by (auto simp: link_ok_def active_def)
  then have "base_ok l1" "win_ok l1" "k_mod l1 = k_mod l"
    by (auto simp: l1_def split: option.splits)
  then have "base_ok l2" "win_ok l2" "k_mod l2 = k_mod l" by (auto simp: l2_def)
  then have "base_ok l3" "win_ok l3" using ack_frame_ok [of l2 f now] assms(2) by (auto simp: l3_def)
  then have "base_ok l4" "win_ok l4"
    by (auto simp: l4_def retransmit_from_ok retransmit_one_ok split: option.splits)
  then have "base_ok l5" "win_ok l5"
    by (auto simp: l5_def Let_def retransmit_from_ok)
  then have "base_ok l6" "win_ok l6" by (auto simp: l6_def)
  then show ?thesis
    unfolding eq using send_pending_ok [of l6 now] by (auto simp: link_ok_def)
next
  case False
  then show ?thesis using assms by (simp add: on_s_def)
qed

lemma reset_tx_ok:
  "k_mod l \<in> {8, 128} \<Longrightarrow> lc_window (k_cfg l) < k_mod l \<Longrightarrow>
   base_ok (tx now t c p (reset l)) \<and> win_ok (tx now t c p (reset l))"
  by (simp add: base_ok_reset)

lemma base_ok_mod: "base_ok l \<Longrightarrow> k_mod l \<in> {8, 128} \<and> lc_window (k_cfg l) < k_mod l"
  by (auto simp: base_ok_def)

lemma on_receive_ok:
  assumes "link_ok l" "legal_op l (now, Op_Receive f)"
  shows "link_ok (on_receive now f l)"
proof -
  have sabm: "link_ok (on_sabm now f m l)" if "m \<in> {8, 128}" "lc_window (k_cfg l) < m" for m
    using that by (auto simp: on_sabm_def Let_def link_ok_def base_ok_reset)
  have disc: "link_ok (on_disc now f l)" "link_ok (on_dm l)"
    using assms(1) by (auto simp: on_disc_def on_dm_def link_ok_def active_def)
  have frmr: "link_ok (reestablish now (emit e l))" for e
    using assms(1) base_ok_mod [of l]
    by (auto simp: reestablish_def Let_def link_ok_def base_ok_reset)
  have ua: "link_ok (on_ua now l)"
  proof (cases "k_state l = L_Connecting")
    case True
    let ?l = "to_state L_Connected (start_t3 now (stop_t1 (reset l)))"
    have "base_ok ?l" "win_ok ?l"
      using assms(1) base_ok_mod [of l] by (auto simp: link_ok_def base_ok_reset)
    then show ?thesis
      using True send_pending_ok [of ?l now] by (simp add: on_ua_def Let_def link_ok_def)
  next
    case False
    then show ?thesis using assms(1) by (auto simp: on_ua_def link_ok_def active_def)
  qed
  show ?thesis
    using assms sabm disc frmr ua on_i_ok [OF assms(1)] on_s_ok [OF assms(1)]
    by (cases "f_type f") (simp_all add: on_receive_def legal_op_def)
qed

lemma on_t1_ok: "link_ok l \<Longrightarrow> link_ok (on_t1 now l)"
  by (cases "k_state l")
    (auto simp: on_t1_def Let_def fail_link_def link_ok_def active_def)

lemma on_t3_ok: "link_ok l \<Longrightarrow> link_ok (on_t3 now l)"
  by (auto simp: on_t3_def Let_def link_ok_def active_def)

lemma poll_ok: "link_ok l \<Longrightarrow> link_ok (poll now l)"
  using on_t1_ok on_t3_ok by (auto simp: poll_def Let_def split: option.splits)

lemma connect_ok:
  assumes "link_ok l" "lc_window (k_cfg l) < cfg_mod (k_cfg l)"
  shows "link_ok (connect now l)"
  using assms by (auto simp: connect_def Let_def link_ok_def base_ok_reset cfg_mod_def)

lemma disconnect_ok: "link_ok l \<Longrightarrow> link_ok (disconnect now l)"
  by (auto simp: disconnect_def Let_def link_ok_def active_def base_ok_def)

lemma send_ok: "link_ok l \<Longrightarrow> link_ok (send now info pid l)"
  using send_pending_ok [of "l\<lparr>k_pending := k_pending l @ [(info, pid)]\<rparr>" now]
  by (auto simp: send_def Let_def link_ok_def active_def)

lemma probe_ok: "link_ok l \<Longrightarrow> link_ok (snd (probe now l))"
  by (auto simp: probe_def Let_def link_ok_def)

interpretation link: invariant_machine link_step link_ok legal_op
proof
  fix l e assume "link_ok l" "legal_op l e"
  then show "link_ok (link_step l e)"
    by (cases "(l, e)" rule: link_step.cases)
      (auto simp: on_receive_ok poll_ok connect_ok disconnect_ok send_ok probe_ok legal_op_def)
qed

section \<open>The outgoing stream\<close>

text \<open>
  What the link still owes its peer: the I-frames out and not acknowledged, then the ones
  waiting. An operation may shift acknowledged entries off the front and a send appends at
  the back; nothing else touches it while the link is up.
\<close>

definition stream_out :: "link \<Rightarrow> (byte list \<times> byte option) list" where
  "stream_out l = map (\<lambda>s. (si_info s, si_pid s)) (k_sent l) @ k_pending l"

definition advance :: "link \<Rightarrow> link \<Rightarrow> nat \<Rightarrow> bool" where
  "advance l l' d = (d \<le> length (k_sent l) \<and> k_va l' = (k_va l + d) mod k_mod l
     \<and> k_mod l' = k_mod l \<and> stream_out l' = drop d (stream_out l))"

lemma stream_out_cong:
  "map si_info (k_sent l') = map si_info (k_sent l) \<Longrightarrow> map si_pid (k_sent l') = map si_pid (k_sent l)
   \<Longrightarrow> k_pending l' = k_pending l \<Longrightarrow> stream_out l' = stream_out l"
proof -
  assume i: "map si_info (k_sent l') = map si_info (k_sent l)"
    and p: "map si_pid (k_sent l') = map si_pid (k_sent l)" and "k_pending l' = k_pending l"
  have z: "map (\<lambda>s. (si_info s, si_pid s)) xs = zip (map si_info xs) (map si_pid xs)" for xs
    by (induction xs) auto
  show ?thesis using \<open>k_pending l' = k_pending l\<close> unfolding stream_out_def z i p by simp
qed

lemma stream_out_frame [simp]:
  "stream_out (emit e l) = stream_out l" "stream_out (tx now t c p l) = stream_out l"
  "stream_out (start_t1 now l) = stream_out l" "stream_out (stop_t1 l) = stream_out l"
  "stream_out (start_t3 now l) = stream_out l" "stream_out (stop_t3 l) = stream_out l"
  "stream_out (stop_all l) = stream_out l" "stream_out (to_state s l) = stream_out l"
  "stream_out (srej_missing n k ns l) = stream_out l"
  "stream_out (retransmit_from now nr l) = stream_out l"
  "stream_out (retransmit_one now nr l) = stream_out l"
  "stream_out (drain_rxbuf l) = stream_out l"
  by (rule stream_out_cong; simp add: retransmit_from_fields drain_rxbuf_fields)+

lemma stream_out_update [simp]:
  "stream_out (l\<lparr>k_vr := n\<rparr>) = stream_out l" "stream_out (l\<lparr>k_rc := n\<rparr>) = stream_out l"
  "stream_out (l\<lparr>k_peer_busy := b\<rparr>) = stream_out l" "stream_out (l\<lparr>k_rej_sent := b\<rparr>) = stream_out l"
  "stream_out (l\<lparr>k_poll_repeated := b\<rparr>) = stream_out l" "stream_out (l\<lparr>k_poll_at := t\<rparr>) = stream_out l"
  "stream_out (l\<lparr>k_rxbuf := m\<rparr>) = stream_out l"
  by (simp_all add: stream_out_def)

lemma send_pending_stream [simp]: "stream_out (snd (send_pending now l)) = stream_out l"
proof (induction now l rule: send_pending.induct)
  case (1 now l)
  show ?case
  proof (cases "k_pending l \<noteq> [] \<and> \<not> k_peer_busy l \<and> outstanding (k_mod l) (k_va l) (k_vs l) < lc_window (k_cfg l)")
    case False
    then show ?thesis by (subst send_pending.simps) (auto split: list.splits)
  next
    case True
    then obtain info pid rest where p: "k_pending l = (info, pid) # rest" by (cases "k_pending l") auto
    let ?l4 = "start_t1 now (stop_t3 ((tx_i (k_vs l) info pid (l\<lparr>k_pending := rest\<rparr>))\<lparr>k_sent := k_sent l @
          [\<lparr>si_ns = k_vs l, si_info = info, si_pid = pid, si_at = now, si_retx = False\<rparr>],
          k_vs := (k_vs l + 1) mod k_mod l\<rparr>))"
    have "stream_out ?l4 = stream_out l" using p by (simp add: stream_out_def)
    moreover have "snd (send_pending now l) = snd (send_pending now ?l4)"
      using True p by (subst send_pending.simps) (simp add: Let_def)
    ultimately show ?thesis using True p "1.IH" [OF p] by (simp add: Let_def)
  qed
qed

lemma advance_refl: "base_ok l \<Longrightarrow> advance l l 0"
  by (simp add: advance_def base_ok_def)

lemma advance_then:
  "advance l l1 d \<Longrightarrow> k_va l' = k_va l1 \<Longrightarrow> k_mod l' = k_mod l1 \<Longrightarrow> stream_out l' = stream_out l1 \<Longrightarrow> advance l l' d"
  by (simp add: advance_def)

lemma ack_frame_advance:
  assumes ok: "base_ok l" "win_ok l" and nr: "opt0 (f_nr f) < k_mod l"
  shows "\<exists>d. advance l (ack_frame now f l) d"
proof (cases "f_nr f")
  case None
  then show ?thesis using advance_refl [OF ok(1)] by (auto simp: ack_frame_def)
next
  case (Some n)
  then have n: "n < k_mod l" using nr by (simp add: opt0_def)
  note e = ack_own_effect [OF ok n, of now]
  have va: "k_va l < k_mod l" using ok(1) by (simp add: base_ok_def)
  let ?d = "if nr_valid l n then acked_by l n else 0"
  have "advance l (ack_own now n l) ?d"
    using nr_valid_le [OF ok] mod_diff_add [OF va n] va
    by (auto simp: advance_def e stream_out_def acked_by_def drop_map)
  then show ?thesis using Some by (auto simp: ack_frame_def)
qed

lemma on_i_rest_stream:
  "k_va (on_i_in_sequence now f l) = k_va l \<and> k_mod (on_i_in_sequence now f l) = k_mod l
   \<and> stream_out (on_i_in_sequence now f l) = stream_out l"
  "k_va (on_i_srej now f ns l) = k_va l \<and> k_mod (on_i_srej now f ns l) = k_mod l
   \<and> stream_out (on_i_srej now f ns l) = stream_out l"
  "k_va (on_i_rej now f l) = k_va l \<and> k_mod (on_i_rej now f l) = k_mod l
   \<and> stream_out (on_i_rej now f l) = stream_out l"
proof -
  let ?l2 = "case f_info f of
      None \<Rightarrow> l\<lparr>k_vr := (k_vr l + 1) mod k_mod l, k_rej_sent := False\<rparr>
    | Some info \<Rightarrow> emit (Ev_Deliver info (f_pid f)) (l\<lparr>k_vr := (k_vr l + 1) mod k_mod l, k_rej_sent := False\<rparr>)"
  let ?l3 = "drain_rxbuf ?l2"
  have "on_i_in_sequence now f l =
      (if f_pf f then tx now F_RR False True ?l3
       else if fst (send_pending now ?l3) then snd (send_pending now ?l3)
       else tx now F_RR False False (snd (send_pending now ?l3)))"
    by (simp only: on_i_in_sequence_def Let_def split_beta)
  moreover have "k_va ?l3 = k_va l \<and> k_mod ?l3 = k_mod l \<and> stream_out ?l3 = stream_out l"
    by (simp add: drain_rxbuf_fields split: option.split)
  ultimately show "k_va (on_i_in_sequence now f l) = k_va l \<and> k_mod (on_i_in_sequence now f l) = k_mod l
     \<and> stream_out (on_i_in_sequence now f l) = stream_out l"
    by simp
  show "k_va (on_i_srej now f ns l) = k_va l \<and> k_mod (on_i_srej now f ns l) = k_mod l
     \<and> stream_out (on_i_srej now f ns l) = stream_out l"
    by (simp add: on_i_srej_def Let_def split: option.split)
  show "k_va (on_i_rej now f l) = k_va l \<and> k_mod (on_i_rej now f l) = k_mod l
     \<and> stream_out (on_i_rej now f l) = stream_out l"
    by (simp add: on_i_rej_def)
qed

lemma on_i_advance:
  assumes "base_ok l" "win_ok l" "opt0 (f_nr f) < k_mod l"
  shows "\<exists>d. advance l (on_i now f l) d"
proof (cases "k_state l \<noteq> L_Connected \<and> k_state l \<noteq> L_Recovering")
  case True
  then show ?thesis using advance_refl [OF assms(1)] by (auto simp: on_i_def)
next
  case False
  obtain d where d: "advance l (ack_frame now f l) d" using ack_frame_advance [OF assms] by blast
  have "advance l (on_i now f l) d"
    unfolding on_i_def Let_def if_not_P [OF False]
    by (rule advance_then [OF d]; simp add: on_i_rest_stream split: option.split)
  then show ?thesis ..
qed

lemma on_s_advance:
  assumes ok: "base_ok l" "win_ok l" and nr: "opt0 (f_nr f) < k_mod l"
  shows "\<exists>d. advance l (on_s now f l) d"
proof (cases "k_state l \<noteq> L_Connected \<and> k_state l \<noteq> L_Recovering")
  case True
  then show ?thesis using advance_refl [OF ok(1)] by (auto simp: on_s_def)
next
  case st: False
  define l1 where "l1 = (case k_poll_at l of
                      Some at \<Rightarrow>
                        if f_pf f \<and> \<not> f_command f
                        then (if k_poll_repeated l then l else emit (Ev_Rtt (now - at) Rtt_Poll) l)
                               \<lparr>k_poll_at := None, k_poll_repeated := False\<rparr>
                        else l
                    | None \<Rightarrow> l)"
  define l2 where "l2 = l1\<lparr>k_peer_busy := (f_type f = F_RNR)\<rparr>"
  have "base_ok l1" "win_ok l1" "k_mod l1 = k_mod l" "k_va l1 = k_va l" "stream_out l1 = stream_out l"
      "k_sent l1 = k_sent l"
    using ok by (auto simp: l1_def split: option.splits)
  then have l2: "base_ok l2" "win_ok l2" "k_mod l2 = k_mod l" "k_va l2 = k_va l" "stream_out l2 = stream_out l"
      "k_sent l2 = k_sent l"
    by (auto simp: l2_def)
  with nr obtain d where "advance l2 (ack_frame now f l2) d"
    using ack_frame_advance [of l2 f now] by auto
  then have d: "advance l (ack_frame now f l2) d" using l2 by (simp add: advance_def)
  have "advance l (on_s now f l) d"
    unfolding on_s_def Let_def if_not_P [OF st] l1_def [symmetric] l2_def [symmetric]
    by (rule advance_then [OF d]; simp add: retransmit_from_fields split: option.split)
  then show ?thesis ..
qed

text \<open>The operations that keep a link that is up on its stream.\<close>

definition data_op :: "link_op \<Rightarrow> bool" where
  "data_op p = (case p of
      Op_Probe \<Rightarrow> True | Op_Poll \<Rightarrow> True
    | Op_Receive f \<Rightarrow> f_type f \<in> {F_I, F_RR, F_RNR, F_REJ, F_SREJ, F_UI, F_XID, F_TEST}
    | _ \<Rightarrow> False)"

lemma on_t1_stream:
  "k_va (on_t1 now l) = k_va l \<and> k_mod (on_t1 now l) = k_mod l \<and> stream_out (on_t1 now l) = stream_out l"
  by (cases "k_state l") (simp_all add: on_t1_def Let_def fail_link_def)

lemma on_t3_stream:
  "k_va (on_t3 now l) = k_va l \<and> k_mod (on_t3 now l) = k_mod l \<and> stream_out (on_t3 now l) = stream_out l"
  by (simp add: on_t3_def Let_def)

lemma poll_stream:
  "k_va (poll now l) = k_va l \<and> k_mod (poll now l) = k_mod l \<and> stream_out (poll now l) = stream_out l"
  by (simp add: poll_def Let_def on_t1_stream on_t3_stream split: option.split)

lemma probe_stream:
  "k_va (snd (probe now l)) = k_va l \<and> k_mod (snd (probe now l)) = k_mod l
   \<and> stream_out (snd (probe now l)) = stream_out l"
  by (simp add: probe_def Let_def)

lemma data_op_advance:
  assumes "base_ok l" "win_ok l" "legal_op l (now, p)" "data_op p"
  shows "\<exists>d. advance l (link_step l (now, p)) d"
proof (cases p)
  case (Op_Receive f)
  then have f: "opt0 (f_nr f) < k_mod l" using assms(3) by (simp add: legal_op_def)
  have t: "f_type f \<in> {F_I, F_RR, F_RNR, F_REJ, F_SREJ, F_UI, F_XID, F_TEST}"
    using assms(4) Op_Receive by (simp add: data_op_def)
  show ?thesis
  proof (cases "\<not> same_addr (f_src f) (k_remote l) \<or> \<not> same_addr (f_dst f) (k_local l)")
    case True
    then show ?thesis using advance_refl [OF assms(1)] Op_Receive by (auto simp: on_receive_def)
  next
    case False
    then show ?thesis
      using t advance_refl [OF assms(1)] Op_Receive
        on_i_advance [OF assms(1,2) f] on_s_advance [OF assms(1,2) f]
      by (cases "f_type f") (auto simp: on_receive_def)
  qed
next
  case Op_Probe
  then show ?thesis using advance_then [OF advance_refl [OF assms(1)]] probe_stream by auto
next
  case Op_Poll
  then show ?thesis using advance_then [OF advance_refl [OF assms(1)]] poll_stream by auto
qed (use assms(4) in \<open>simp_all add: data_op_def\<close>)

lemma send_stream: "k_va (send now info pid l) = k_va l \<and> stream_out (send now info pid l) = stream_out l @ [(info, pid)]"
proof -
  have "stream_out (l\<lparr>k_pending := k_pending l @ [(info, pid)]\<rparr>) = stream_out l @ [(info, pid)]"
    by (simp add: stream_out_def)
  then show ?thesis by (simp add: send_def Let_def)
qed

section \<open>Properties\<close>

definition data_state :: "link \<Rightarrow> bool" where
  "data_state l = (k_state l \<in> {L_Connected, L_Recovering})"

definition from_peer :: "link \<Rightarrow> frame \<Rightarrow> bool" where
  "from_peer l f = (same_addr (f_src f) (k_remote l) \<and> same_addr (f_dst f) (k_local l))"

text \<open>What reached the layer above, and what went on the air.\<close>

fun deliveries :: "link_event list \<Rightarrow> (byte list \<times> byte option) list" where
  "deliveries [] = []"
| "deliveries (Ev_Deliver info pid # es) = (info, pid) # deliveries es"
| "deliveries (e # es) = deliveries es"

fun frames_out :: "link_event list \<Rightarrow> frame list" where
  "frames_out [] = []"
| "frames_out (Ev_Send f # es) = f # frames_out es"
| "frames_out (e # es) = frames_out es"

lemma deliveries_append [simp]: "deliveries (xs @ ys) = deliveries xs @ deliveries ys"
  by (induction xs rule: deliveries.induct) auto

lemma frames_out_append [simp]: "frames_out (xs @ ys) = frames_out xs @ frames_out ys"
  by (induction xs rule: frames_out.induct) auto

lemma deliveries_sends [simp]: "deliveries (map (\<lambda>x. Ev_Send (g x)) xs) = []"
  by (induction xs) auto

abbreviation got :: "link \<Rightarrow> (byte list \<times> byte option) list" where
  "got l \<equiv> deliveries (k_trace l)"

lemma send_pending_got [simp]: "got (snd (send_pending now l)) = got l"
proof (induction now l rule: send_pending.induct)
  case (1 now l)
  show ?case
    using "1.IH" by (subst send_pending.simps) (auto simp: Let_def split: list.splits)
qed

lemma ack_frame_got [simp]: "got (ack_frame now f l) = got l"
  by (auto simp: ack_frame_def ack_own_def Let_def split: option.splits prod.splits)

lemma drain_rxbuf_empty: "k_rxbuf l = [] \<Longrightarrow> drain_rxbuf l = l"
  by (simp add: drain_rxbuf.simps [of l])

lemma ack_frame_keeps [simp]:
  "k_vr (ack_frame now f l) = k_vr l" "k_rxbuf (ack_frame now f l) = k_rxbuf l"
  "k_cfg (ack_frame now f l) = k_cfg l"
  by (auto simp: ack_frame_def ack_own_def Let_def split: option.splits prod.splits)

text \<open>The payload an I-frame hands up: nothing when it has no information field.\<close>

definition payload :: "frame \<Rightarrow> (byte list \<times> byte option) list" where
  "payload f = (case f_info f of None \<Rightarrow> [] | Some info \<Rightarrow> [(info, f_pid f)])"

lemma on_i_in_sequence_got:
  assumes "k_rxbuf l = []"
  shows "got (on_i_in_sequence now f l) = got l @ payload f
    \<and> k_vr (on_i_in_sequence now f l) = (k_vr l + 1) mod k_mod l
    \<and> k_rxbuf (on_i_in_sequence now f l) = []"
proof -
  let ?l2 = "case f_info f of
      None \<Rightarrow> l\<lparr>k_vr := (k_vr l + 1) mod k_mod l, k_rej_sent := False\<rparr>
    | Some info \<Rightarrow> emit (Ev_Deliver info (f_pid f)) (l\<lparr>k_vr := (k_vr l + 1) mod k_mod l, k_rej_sent := False\<rparr>)"
  have "drain_rxbuf ?l2 = ?l2"
    using assms by (intro drain_rxbuf_empty) (simp split: option.split)
  then have "on_i_in_sequence now f l =
      (if f_pf f then tx now F_RR False True ?l2
       else if fst (send_pending now ?l2) then snd (send_pending now ?l2)
       else tx now F_RR False False (snd (send_pending now ?l2)))"
    by (simp only: on_i_in_sequence_def Let_def split_beta)
  moreover have "got ?l2 = got l @ payload f" "k_vr ?l2 = (k_vr l + 1) mod k_mod l" "k_rxbuf ?l2 = []"
    using assms by (simp_all add: payload_def split: option.split)
  ultimately show ?thesis by simp
qed

text \<open>C3: On a link that does not use selective reject, so that its reassembly buffer is empty, an I-frame of the peer is
  handed up exactly when its N(S) is the number the receiver waits for; then V(R) moves on by one, and otherwise nothing
  is handed up and V(R) stays; the buffer stays empty. So there a lost, repeated or reordered frame never
  puts a gap, a duplicate or a swap into what the layer above reads. (With selective reject it can, \<open>link_srej_redelivers_old_frame\<close>.)\<close>

theorem link_delivers_in_sequence:
  fixes now :: int
  assumes "data_state l" "from_peer l f" "f_type f = F_I" "\<not> lc_srej (k_cfg l)" "k_rxbuf l = []"
  defines "l' \<equiv> on_receive now f l"
  shows "got l' = got l @ (if f_ns f = Some (k_vr l) then payload f else [])
    \<and> k_vr l' = (if f_ns f = Some (k_vr l) then (k_vr l + 1) mod k_mod l else k_vr l)
    \<and> k_rxbuf l' = []"
proof -
  have st: "\<not> (k_state l \<noteq> L_Connected \<and> k_state l \<noteq> L_Recovering)"
    using assms(1) by (simp add: data_state_def)
  let ?l = "ack_frame now f l"
  have rej: "got (on_i_rej now f ?l) = got l" "k_vr (on_i_rej now f ?l) = k_vr l"
      "k_rxbuf (on_i_rej now f ?l) = []"
    using assms(5) by (simp_all add: on_i_rej_def)
  have l': "l' = on_i now f l" using assms(2,3) by (simp add: l'_def on_receive_def from_peer_def)
  have in_seq: "got (on_i_in_sequence now f ?l) = got l @ payload f"
      "k_vr (on_i_in_sequence now f ?l) = (k_vr l + 1) mod k_mod l"
      "k_rxbuf (on_i_in_sequence now f ?l) = []"
    using on_i_in_sequence_got [of ?l now f] assms(5) by simp_all
  show ?thesis
    unfolding l' on_i_def if_not_P [OF st] Let_def
    using rej in_seq assms(4) by (simp split: option.split)
qed

text \<open>C2: While a link is up, no probe, timer or frame of the data phase loses, repeats or
  reorders what the user queued: the stream of unacknowledged and waiting packets only
  loses acknowledged entries at its front, as many as V(A) moves on.\<close>

theorem link_stream_preserved:
  fixes now :: int
  assumes "link_ok l" "data_state l" "legal_op l (now, p)" "data_op p"
  defines "l' \<equiv> link_step l (now, p)"
  shows "\<exists>d \<le> length (k_sent l). k_va l' = (k_va l + d) mod k_mod l
    \<and> stream_out l' = drop d (stream_out l)"
proof -
  have "base_ok l" "win_ok l" using assms(1,2) by (auto simp: link_ok_def data_state_def active_def)
  from data_op_advance [OF this assms(3,4)] show ?thesis
    unfolding l'_def advance_def by blast
qed

text \<open>C1: From a new link whose window is below its modulus (up to 7, or up to 127 on a modulo-128 link), over every
  sequence of user requests, clock polls and received frames in which the numbers of a received frame are below the modulus
  and no SABM sets a modulus the window reaches: while the link is connecting, connected or recovering, the
  unacknowledged I-frames are numbered consecutively from V(A), V(S) is the next number, and there are at most a window
  of them. (A plain SABM to a link with a window of eight or more is \<open>link_window_not_clamped\<close>.)\<close>

theorem link_window_invariant:
  assumes "link.legal_run (new_link loc rem cfg) es" "lc_window cfg < cfg_mod cfg"
  defines "l \<equiv> link.run (new_link loc rem cfg) es"
  shows "k_mod l \<in> {8, 128} \<and> k_vs l < k_mod l \<and> k_vr l < k_mod l \<and> k_va l < k_mod l
    \<and> (k_state l \<in> {L_Connecting, L_Connected, L_Recovering} \<longrightarrow>
        map si_ns (k_sent l) = seq_run (k_mod l) (k_va l) (length (k_sent l))
      \<and> k_vs l = (k_va l + length (k_sent l)) mod k_mod l
      \<and> length (k_sent l) \<le> lc_window (k_cfg l))"
proof -
  have "link_ok (new_link loc rem cfg)"
    using assms(2) by (simp add: link_ok_def base_ok_def win_ok_def new_link_def cfg_mod_def seq_run_def)
  from link.run_inv [OF this assms(1)] have "link_ok l" by (simp only: l_def)
  then show ?thesis by (auto simp: link_ok_def base_ok_def win_ok_def active_def)
qed

text \<open>Let T1 expire \<open>n\<close> times with nothing heard.\<close>

fun expire :: "nat \<Rightarrow> link \<Rightarrow> link" where
  "expire 0 l = l"
| "expire (Suc n) l = (case k_t1 l of None \<Rightarrow> l | Some t \<Rightarrow> expire n (poll t l))"

lemma poll_expired:
  assumes "k_t1 l = Some t" "k_state l \<noteq> L_Disconnected"
  shows "k_cfg (poll t l) = k_cfg l"
    and "k_rc l < lc_n2 (k_cfg l) \<Longrightarrow> k_state (poll t l) \<noteq> L_Disconnected
      \<and> k_rc (poll t l) = Suc (k_rc l) \<and> k_t1 (poll t l) = Some (t + lc_t1 (k_cfg l))"
    and "\<not> k_rc l < lc_n2 (k_cfg l) \<Longrightarrow> k_state (poll t l) = L_Disconnected \<and> k_t1 (poll t l) = None
      \<and> k_t3 (poll t l) = None"
proof -
  have p: "poll t l = on_t1 t l" if "k_state (on_t1 t l) \<noteq> L_Connected"
    using assms(1) that by (simp add: poll_def Let_def on_t3_def split: option.split)
  have c: "k_state (on_t1 t l) \<noteq> L_Connected" if "k_state l \<noteq> L_Connected"
    using that by (cases "k_state l") (simp_all add: on_t1_def Let_def fail_link_def)
  have c': "k_state (on_t1 t l) \<noteq> L_Connected" if "k_state l = L_Connected"
    using that by (simp add: on_t1_def Let_def fail_link_def)
  have q: "poll t l = on_t1 t l" using c c' p by blast
  show "k_cfg (poll t l) = k_cfg l"
    unfolding q by (cases "k_state l") (simp_all add: on_t1_def Let_def fail_link_def)
  show "k_state (poll t l) \<noteq> L_Disconnected \<and> k_rc (poll t l) = Suc (k_rc l)
      \<and> k_t1 (poll t l) = Some (t + lc_t1 (k_cfg l))" if "k_rc l < lc_n2 (k_cfg l)"
    unfolding q using that assms(2) by (cases "k_state l") (simp_all add: on_t1_def Let_def)
  show "k_state (poll t l) = L_Disconnected \<and> k_t1 (poll t l) = None \<and> k_t3 (poll t l) = None"
    if "\<not> k_rc l < lc_n2 (k_cfg l)"
    unfolding q using that assms(2) by (cases "k_state l") (simp_all add: on_t1_def Let_def fail_link_def)
qed

lemma expire_gives_up:
  "k_t1 l = Some t \<Longrightarrow> k_state l \<noteq> L_Disconnected \<Longrightarrow> k_rc l + n = lc_n2 (k_cfg l) \<Longrightarrow>
   k_state (expire n l) \<noteq> L_Disconnected
   \<and> k_state (expire (Suc n) l) = L_Disconnected \<and> k_t1 (expire (Suc n) l) = None"
proof (induction n arbitrary: l t)
  case 0
  then show ?case using poll_expired(3) [OF 0(1,2)] by simp
next
  case (Suc n)
  have lt: "k_rc l < lc_n2 (k_cfg l)" using Suc.prems(3) by simp
  note p = poll_expired(2) [OF Suc.prems(1,2) lt] poll_expired(1) [OF Suc.prems(1,2)]
  have "k_rc (poll t l) + n = lc_n2 (k_cfg (poll t l))" using p Suc.prems(3) by simp
  from Suc.IH [OF _ _ this] p show ?case using Suc.prems(1) by simp
qed

text \<open>C21: A silent peer is given up on after exactly N2 further tries: with T1 running and no
  frame heard, the link is still held at the expiry that exhausts the retries and is
  disconnected, with its timers stopped, at the next one. It never hangs.\<close>

theorem link_gives_up_after_n2:
  assumes "k_t1 l = Some t" "k_state l \<noteq> L_Disconnected" "k_rc l \<le> lc_n2 (k_cfg l)"
  defines "n \<equiv> lc_n2 (k_cfg l) - k_rc l"
  shows "k_state (expire n l) \<noteq> L_Disconnected
    \<and> k_state (expire (Suc n) l) = L_Disconnected \<and> k_t1 (expire (Suc n) l) = None"
  using expire_gives_up [OF assms(1,2), of n] assms(3) by (simp add: n_def)

text \<open>The answer to a connect request brings the link up with nothing to send: whatever
  was queued with \<open>send\<close> while it was connecting is discarded by the reset before the
  queue is served, so no I-frame goes out.\<close>

theorem link_ua_discards_queued:
  fixes now :: int
  assumes "k_state l = L_Connecting" "from_peer l f" "f_type f = F_UA"
  defines "l' \<equiv> on_receive now f l"
  shows "k_state l' = L_Connected \<and> k_pending l' = [] \<and> k_sent l' = []
    \<and> frames_out (k_trace l') = frames_out (k_trace l)"
proof -
  let ?l = "to_state L_Connected (start_t3 now (stop_t1 (reset l)))"
  have "l' = snd (send_pending now ?l)"
    using assms(1-3) by (simp add: l'_def on_receive_def from_peer_def on_ua_def Let_def)
  also have "\<dots> = ?l" by (subst send_pending.simps) simp
  finally show ?thesis by (simp add: to_state_def)
qed

section \<open>Witnesses\<close>

definition wit_a :: address where "wit_a = \<lparr>addr_call = ''N0CALL'', addr_ssid = 1\<rparr>"
definition wit_b :: address where "wit_b = \<lparr>addr_call = ''Q1TEST'', addr_ssid = 2\<rparr>"

definition wit_link :: link where
  "wit_link = new_link wit_a wit_b DEFAULT_CONFIG"

definition wit_frame :: "frame_type \<Rightarrow> nat \<Rightarrow> nat \<Rightarrow> byte list \<Rightarrow> frame" where
  "wit_frame t ns nr info =
     \<lparr>f_dst = wit_a, f_src = wit_b, f_digis = None, f_digis_repeated = None,
      f_command = True, f_type = t, f_pf = False, f_extended = Some False,
      f_nr = Some nr, f_ns = Some ns, f_pid = Some 0xF0, f_info = Some info\<rparr>"

lemma wit_frame_fields:
  "f_type (wit_frame t ns nr info) = t" "f_ns (wit_frame t ns nr info) = Some ns" "f_nr (wit_frame t ns nr info) = Some nr"
  "f_info (wit_frame t ns nr info) = Some info" "f_pid (wit_frame t ns nr info) = Some 0xF0"
  "f_src (wit_frame t ns nr info) = wit_b" "f_dst (wit_frame t ns nr info) = wit_a"
  by (simp_all add: wit_frame_def)

definition wit_up :: link where
  "wit_up = link_step (link_step wit_link (0, Op_Connect)) (10, Op_Receive (wit_frame F_UA 0 0 []))"

lemmas wit_link_defs = wit_a_def wit_b_def wit_link_def wit_frame_def wit_up_def new_link_def
  DEFAULT_CONFIG_def cfg_mod_def connect_def Let_def to_state_def start_t1_def start_t3_def stop_t1_def
  stop_t3_def reset_def tx_def emit_def on_receive_def on_ua_def sabm_type_def supervisory_def same_addr_eq

lemma wit_up_value:
  "k_state wit_up = L_Connected" "k_local wit_up = wit_a" "k_remote wit_up = wit_b" "k_cfg wit_up = DEFAULT_CONFIG"
  "k_mod wit_up = 8" "k_vr wit_up = 0" "k_va wit_up = 0" "k_vs wit_up = 0" "k_rxbuf wit_up = []"
  "k_sent wit_up = []" "k_pending wit_up = []" "got wit_up = []" "k_t1 wit_up = None" "k_peer_busy wit_up = False"
  by (simp_all add: wit_link_defs send_pending.simps)

theorem link_delivers_in_sequence_witness:
  "got (on_receive 20 (wit_frame F_I 0 0 [1, 2]) wit_up) = [([1, 2], Some 0xF0)]
   \<and> got (on_receive 20 (wit_frame F_I 3 0 [1, 2]) wit_up) = []"
  using link_delivers_in_sequence [of wit_up "wit_frame F_I 0 0 [1, 2]" 20]
    link_delivers_in_sequence [of wit_up "wit_frame F_I 3 0 [1, 2]" 20]
  by (simp add: data_state_def from_peer_def wit_up_value wit_frame_fields payload_def DEFAULT_CONFIG_def)

definition wit_busy :: link where
  "wit_busy = send 30 [9] None (send 20 [7] None wit_up)"

lemma wit_busy_value:
  "k_state wit_busy = L_Connected" "k_local wit_busy = wit_a" "k_remote wit_busy = wit_b"
  "k_mod wit_busy = 8" "k_va wit_busy = 0" "k_vs wit_busy = 2" "k_vr wit_busy = 0" "k_rxbuf wit_busy = []"
  "map si_ns (k_sent wit_busy) = [0, 1]" "k_pending wit_busy = []" "k_cfg wit_busy = DEFAULT_CONFIG"
  "stream_out wit_busy = [([7], None), ([9], None)]" "k_rc wit_busy = 0" "k_t1 wit_busy = Some 3030"
  by (simp_all add: wit_busy_def send_def send_pending.simps Let_def wit_up_value stream_out_def outstanding_def
      DEFAULT_CONFIG_def)
    (simp add: wit_link_defs send_pending.simps)

lemma wit_busy_ok: "link_ok wit_busy"
proof -
  have n: "length (k_sent wit_busy) = 2"
    using arg_cong [OF wit_busy_value(9), of length] by simp
  show ?thesis
    unfolding link_ok_def base_ok_def win_ok_def wit_busy_value n
    by (simp add: seq_run_def upt_rec numeral_2_eq_2 DEFAULT_CONFIG_def)
qed

theorem link_stream_preserved_witness:
  "\<exists>d \<le> 2. k_va (link_step wit_busy (40, Op_Receive (wit_frame F_RR 0 1 []))) = d
     \<and> stream_out (link_step wit_busy (40, Op_Receive (wit_frame F_RR 0 1 []))) = drop d [([7], None), ([9], None)]"
proof -
  have n: "length (k_sent wit_busy) = 2"
    using arg_cong [OF wit_busy_value(9), of length] by simp
  have "legal_op wit_busy (40, Op_Receive (wit_frame F_RR 0 1 []))"
    by (simp add: legal_op_def wit_busy_value wit_frame_def opt0_def)
  moreover have "data_state wit_busy" "data_op (Op_Receive (wit_frame F_RR 0 1 []))"
    by (simp_all add: data_state_def wit_busy_value data_op_def wit_frame_def)
  ultimately obtain d where "d \<le> length (k_sent wit_busy)"
      "k_va (link_step wit_busy (40, Op_Receive (wit_frame F_RR 0 1 []))) = (k_va wit_busy + d) mod k_mod wit_busy"
      "stream_out (link_step wit_busy (40, Op_Receive (wit_frame F_RR 0 1 []))) = drop d (stream_out wit_busy)"
    using link_stream_preserved [OF wit_busy_ok] by blast
  then show ?thesis unfolding n wit_busy_value by (intro exI [of _ d]) simp
qed

theorem link_window_invariant_witness:
  "k_vs (link.run wit_link [(0, Op_Connect), (5, Op_Send [1] None), (10, Op_Receive (wit_frame F_UA 0 0 []))]) < k_mod
     (link.run wit_link [(0, Op_Connect), (5, Op_Send [1] None), (10, Op_Receive (wit_frame F_UA 0 0 []))])"
proof -
  have "link.legal_run (new_link wit_a wit_b DEFAULT_CONFIG)
      [(0, Op_Connect), (5, Op_Send [1] None), (10, Op_Receive (wit_frame F_UA 0 0 []))]"
    by (simp add: legal_op_def wit_link_defs send_def opt0_def)
  moreover have "lc_window DEFAULT_CONFIG < cfg_mod DEFAULT_CONFIG" by (simp add: DEFAULT_CONFIG_def cfg_mod_def)
  ultimately show ?thesis using link_window_invariant [of wit_a wit_b DEFAULT_CONFIG "[(0, Op_Connect), (5, Op_Send [1] None), (10, Op_Receive (wit_frame F_UA 0 0 []))]"]
    unfolding wit_link_def by (simp only: DEFAULT_CONFIG_def link_config.simps)
qed

theorem link_gives_up_after_n2_witness:
  "k_state (expire 10 wit_busy) \<noteq> L_Disconnected \<and> k_state (expire (Suc 10) wit_busy) = L_Disconnected"
  using link_gives_up_after_n2 [of wit_busy 3030]
  by (simp add: wit_busy_value DEFAULT_CONFIG_def del: expire.simps)

theorem link_ua_discards_queued_witness:
  "k_pending (on_receive 10 (wit_frame F_UA 0 0 []) (send 5 [1] None (connect 0 wit_link))) = []"
proof -
  have "k_state (send 5 [1] None (connect 0 wit_link)) = L_Connecting"
    "from_peer (send 5 [1] None (connect 0 wit_link)) (wit_frame F_UA 0 0 [])"
    by (simp_all add: from_peer_def wit_link_defs send_def)
  moreover have "f_type (wit_frame F_UA 0 0 []) = F_UA" by (simp add: wit_frame_def)
  ultimately show ?thesis using link_ua_discards_queued by blast
qed

definition big_window_link :: link where
  "big_window_link = on_receive 0 (wit_frame F_SABM 0 0 [])
     (new_link wit_a wit_b (DEFAULT_CONFIG\<lparr>lc_window := 16, lc_modulo := 128\<rparr>))"

text \<open>A window configured for modulo 128 is kept when the peer opens the link with a plain
  SABM. The link then counts modulo 8 and the count of unacknowledged I-frames never
  reaches the window: nine sends put nine I-frames on the air, the first and the last with
  the same number, none of them acknowledged.\<close>

theorem link_window_not_clamped:
  "map si_ns (k_sent (foldl (\<lambda>l i. send 1 [i] None l) big_window_link [0, 1, 2, 3, 4, 5, 6, 7, 8]))
     = [0, 1, 2, 3, 4, 5, 6, 7, 0]
   \<and> k_pending (foldl (\<lambda>l i. send 1 [i] None l) big_window_link [0, 1, 2, 3, 4, 5, 6, 7, 8]) = []"
proof -
  have v: "k_state big_window_link = L_Connected" "k_mod big_window_link = 8" "k_sent big_window_link = []"
    "k_pending big_window_link = []" "k_vs big_window_link = 0" "k_va big_window_link = 0"
    "k_peer_busy big_window_link = False" "lc_window (k_cfg big_window_link) = 16"
    by (simp_all add: big_window_link_def wit_link_defs on_sabm_def)
  show ?thesis
    by (simp add: v send_def send_pending.simps Let_def outstanding_def)
qed

definition srej_link :: link where
  "srej_link = on_receive 0 (wit_frame F_SABM 0 0 [])
     (new_link wit_a wit_b (DEFAULT_CONFIG\<lparr>lc_srej := True\<rparr>))"

text \<open>With selective reject on, a repeat of an I-frame delivered two frames earlier is taken
  for a future one: it is buffered, and when V(R) comes round to its number it is handed up a
  second time in place of the new frame, which is then rejected as out of sequence.\<close>

theorem link_srej_redelivers_old_frame:
  "map fst (got (foldl (\<lambda>l (n, b). on_receive 1 (wit_frame F_I n 0 [b]) l) srej_link
     [(0, 10), (1, 11), (0, 10), (2, 12), (3, 13), (4, 14), (5, 15), (6, 16), (7, 17), (0, 18)]))
   = [[10], [11], [12], [13], [14], [15], [16], [17], [10]]"
  by code_simp

text \<open>A frame decoded off the air with the link's own modulus always meets what the
  window invariant asks of a received frame, so no byte sequence a station can send breaks
  it, as long as the configured window is below eight.\<close>

theorem link_decoded_frame_legal:
  assumes "decode_frame bs (k_mod l = 128) = Some f" "k_mod l \<in> {8, 128}" "lc_window (k_cfg l) < 8"
  shows "legal_op l (now, Op_Receive f)"
proof -
  have s: "seq_limit (k_mod l = 128) = k_mod l" using assms(2) by (auto simp: seq_limit_def)
  then have "\<forall>r. f_nr f = Some r \<longrightarrow> r < k_mod l" "\<forall>r. f_ns f = Some r \<longrightarrow> r < k_mod l"
    using decode_frame_ranges [OF assms(1)] by simp_all
  moreover have "0 < k_mod l" using assms(2) by auto
  ultimately show ?thesis
    using assms(3) by (auto simp: legal_op_def opt0_def split: option.split)
qed

theorem link_decoded_frame_legal_witness: "legal_op wit_busy (40, Op_Receive (demo_frame\<lparr>f_extended := None, f_ns := Some 1, f_nr := Some 2\<rparr>))"
proof -
  let ?f = "demo_frame\<lparr>f_extended := None, f_ns := Some 1, f_nr := Some 2\<rparr>"
  have "wf_frame ?f False"
    by (simp add: wf_frame_def wf_via_def wf_fields_def demo_frame_def seq_limit_def wf_address_def
      is_space_def upper_char_def char_code_def)
  then have "decode_frame (encode_frame ?f False) False = Some ?f" using frame8.dec_enc by simp
  then show ?thesis
    using link_decoded_frame_legal [of "encode_frame ?f False" wit_busy ?f]
    by (simp only: wit_busy_value) (simp add: DEFAULT_CONFIG_def)
qed

end
