(* ===== verification/Axip_Crc.thy ===== *)
theory Axip_Crc
  imports Interfaces
begin

text \<open>
  The AXIP trailer of \<open>packages/ax25/src/axip-crc.ts\<close>: CRC-16/X-25 over the frame, low byte
  first, appended on the way out and checked and stripped on the way in. The register is a
  16-bit word.
\<close>

definition crc_bit :: "16 word \<Rightarrow> 16 word" where
  "crc_bit crc = (if crc AND 1 \<noteq> 0 then drop_bit 1 crc XOR 0x8408 else drop_bit 1 crc)"

definition crc_byte :: "16 word \<Rightarrow> byte \<Rightarrow> 16 word" where
  "crc_byte crc b = (crc_bit ^^ 8) (crc XOR ucast b)"

definition crc16_x25 :: "byte list \<Rightarrow> 16 word" where
  "crc16_x25 bytes = NOT (foldl crc_byte 0xffff bytes)"

definition append_axip_crc :: "byte list \<Rightarrow> byte list" where
  "append_axip_crc frame =
     (let crc = crc16_x25 frame in frame @ [ucast (crc AND 0xff), ucast (drop_bit 8 crc)])"

definition strip_axip_crc :: "byte list \<Rightarrow> byte list" where
  "strip_axip_crc datagram =
     (if length datagram > 2
      then let body = take (length datagram - 2) datagram; crc = crc16_x25 body
           in if datagram ! (length datagram - 2) = ucast (crc AND 0xff)
                 \<and> datagram ! (length datagram - 1) = ucast (drop_bit 8 crc)
              then body else datagram
      else datagram)"

section \<open>The register keeps every difference\<close>

lemma bit_top: "\<not> bit (drop_bit 1 (s :: 16 word)) 15"
  using bit_imp_le_length [of s 16] by (auto simp: bit_drop_bit_eq)

lemma crc_bit_top: "bit (crc_bit s) 15 \<longleftrightarrow> odd s"
proof -
  have "bit (0x8408 :: 16 word) 15" by simp
  then show ?thesis using bit_top [of s] by (simp add: crc_bit_def and_one_eq mod_2_eq_odd bit_xor_iff)
qed

lemma crc_bit_inj: "crc_bit s = crc_bit t \<Longrightarrow> s = t"
proof -
  assume eq: "crc_bit s = crc_bit t"
  then have o': "odd s \<longleftrightarrow> odd t" by (metis crc_bit_top)
  have x: "a XOR c = b XOR c \<Longrightarrow> a = b" for a b c :: "16 word"
    by (metis xor.assoc xor_self_eq xor.right_neutral)
  have "drop_bit 1 s = drop_bit 1 t"
    using eq o' x by (auto simp: crc_bit_def and_one_eq mod_2_eq_odd split: if_splits)
  then have "bit s (Suc n) = bit t (Suc n)" for n
    by (metis bit_drop_bit_eq comp_apply plus_1_eq_Suc)
  moreover have "bit s 0 = bit t 0" using o' by (simp add: bit_0)
  ultimately have "bit s n = bit t n" for n by (cases n) auto
  then show "s = t" by (intro bit_eqI) auto
qed

lemma crc_bits_inj: "(crc_bit ^^ n) s = (crc_bit ^^ n) t \<Longrightarrow> s = t"
  by (induction n) (auto dest: crc_bit_inj)

lemma xor_cancel: "a XOR c = b XOR (c :: 16 word) \<Longrightarrow> a = b"
  by (metis xor.assoc xor_self_eq xor.right_neutral)

lemma crc_byte_inj_state: "crc_byte s b = crc_byte t b \<Longrightarrow> s = t"
  unfolding crc_byte_def by (drule crc_bits_inj) (rule xor_cancel)

lemma crc_byte_inj_byte: "crc_byte s a = crc_byte s b \<Longrightarrow> a = b"
proof -
  assume "crc_byte s a = crc_byte s b"
  then have "s XOR ucast a = s XOR ucast b" unfolding crc_byte_def by (rule crc_bits_inj)
  then have "(ucast a :: 16 word) = ucast b" by (metis xor.commute xor_cancel)
  then have "bit (ucast a :: 16 word) n = bit (ucast b :: 16 word) n" for n by simp
  then have "n < 16 \<Longrightarrow> bit a n = bit b n" for n by (simp add: bit_unsigned_iff) metis
  then show "a = b" by (intro bit_word_eqI) simp
qed

lemma crc_run_inj: "foldl crc_byte s bs = foldl crc_byte t bs \<Longrightarrow> s = t"
  by (induction bs arbitrary: s t) (auto dest: crc_byte_inj_state)

lemma crc16_one_byte:
  assumes "a \<noteq> b"
  shows "crc16_x25 (xs @ a # ys) \<noteq> crc16_x25 (xs @ b # ys)"
proof
  assume "crc16_x25 (xs @ a # ys) = crc16_x25 (xs @ b # ys)"
  then have "foldl crc_byte (crc_byte (foldl crc_byte 0xffff xs) a) ys
      = foldl crc_byte (crc_byte (foldl crc_byte 0xffff xs) b) ys"
    unfolding crc16_x25_def by simp
  from crc_byte_inj_byte [OF crc_run_inj [OF this]] assms show False by contradiction
qed

lemma crc_halves:
  assumes "(ucast (c AND 0xff) :: byte) = ucast (d AND 0xff)" "(ucast (drop_bit 8 c) :: byte) = ucast (drop_bit 8 d)"
  shows "c = (d :: 16 word)"
proof (rule bit_word_eqI)
  fix n assume n: "n < LENGTH(16)"
  have m: "bit (0xff :: 16 word) k \<longleftrightarrow> k < 8" for k
    using bit_mask_iff [of 8 k, where 'a = "16 word"] by (simp add: mask_eq_exp_minus_1) (auto dest: bit_imp_le_length)
  show "bit c n = bit d n"
  proof (cases "n < 8")
    case True
    have "bit (ucast (c AND 0xff) :: byte) n = bit (ucast (d AND 0xff) :: byte) n" by (simp only: assms(1))
    moreover have "bit (0xff :: 16 word) n" using True m by blast
    ultimately show ?thesis using True by (simp only: bit_unsigned_iff bit_and_iff) simp
  next
    case False
    then have k: "n - 8 < 8" "n = 8 + (n - 8)" using n by auto
    have "bit (ucast (drop_bit 8 c) :: byte) (n - 8) = bit (ucast (drop_bit 8 d) :: byte) (n - 8)"
      by (simp only: assms(2))
    then show ?thesis using k by (simp add: bit_unsigned_iff bit_drop_bit_eq)
  qed
qed

section \<open>Properties\<close>

lemma strip_append: "frame \<noteq> [] \<Longrightarrow> strip_axip_crc (append_axip_crc frame) = frame"
  by (cases frame) (simp_all add: strip_axip_crc_def append_axip_crc_def Let_def nth_append)

interpretation axip: codec append_axip_crc "\<lambda>d. if length d > 2 then Some (strip_axip_crc d) else None" "\<lambda>f. f \<noteq> []"
proof
  fix f :: "byte list" assume "f \<noteq> []"
  moreover have "length (append_axip_crc f) = length f + 2" by (simp add: append_axip_crc_def Let_def)
  ultimately show "(if length (append_axip_crc f) > 2 then Some (strip_axip_crc (append_axip_crc f)) else None) = Some f"
    using strip_append by simp
qed

text \<open>C39: A frame sent with its trailer is received as it was sent, and one whose transport altered
  any single byte, of the frame or of the trailer, is not taken for a verified frame: it
  comes out whole, trailer included.\<close>

theorem axip_trailer_detects_one_byte:
  assumes "frame \<noteq> []" "i < length frame + 2" "b \<noteq> append_axip_crc frame ! i"
  shows "strip_axip_crc (append_axip_crc frame) = frame
    \<and> strip_axip_crc ((append_axip_crc frame)[i := b]) = (append_axip_crc frame)[i := b]"
proof -
  let ?crc = "crc16_x25 frame"
  let ?lo = "ucast (?crc AND 0xff) :: byte" let ?hi = "ucast (drop_bit 8 ?crc) :: byte"
  have d: "append_axip_crc frame = frame @ [?lo, ?hi]" by (simp add: append_axip_crc_def Let_def)
  have two: "strip_axip_crc (body @ [x, y]) = body @ [x, y]"
    if "\<not> (x = ucast (crc16_x25 body AND 0xff) \<and> y = ucast (drop_bit 8 (crc16_x25 body)))" for body x y
    using that by (cases body) (auto simp: strip_axip_crc_def Let_def nth_append)
  have "strip_axip_crc ((append_axip_crc frame)[i := b]) = (append_axip_crc frame)[i := b]"
  proof (cases "i < length frame")
    case True
    then obtain xs a ys where f: "frame = xs @ a # ys" and i: "length xs = i"
      by (metis id_take_nth_drop length_take min.absorb4)
    have "append_axip_crc frame ! i = frame ! i" using True by (simp add: d nth_append)
    moreover have "frame ! i = a" using f i by auto
    ultimately have "a \<noteq> b" using assms(3) by simp
    then have "crc16_x25 (xs @ b # ys) \<noteq> ?crc" using crc16_one_byte [where a = b and b = a and xs = xs and ys = ys] f by simp
    then have "\<not> (?lo = ucast (crc16_x25 (xs @ b # ys) AND 0xff) \<and> ?hi = ucast (drop_bit 8 (crc16_x25 (xs @ b # ys))))"
      using crc_halves by metis
    note two [OF this]
    moreover have "(append_axip_crc frame)[i := b] = (xs @ b # ys) @ [?lo, ?hi]"
      unfolding d using f i by (simp add: list_update_append)
    ultimately show ?thesis by simp
  next
    case False
    then consider "i = length frame" | "i = length frame + 1" using assms(2) by linarith
    then show ?thesis
    proof cases
      case 1
      then have "b \<noteq> ?lo" using assms(3) by (simp add: d)
      then show ?thesis using two [of b frame ?hi] 1 by (simp add: d list_update_append)
    next
      case 2
      then have "b \<noteq> ?hi" using assms(3) by (simp add: d nth_append)
      then show ?thesis using two [of ?lo frame b] 2 by (simp add: d list_update_append)
    qed
  qed
  then show ?thesis using strip_append [OF assms(1)] by simp
qed

theorem axip_trailer_detects_one_byte_witness:
  "strip_axip_crc ((append_axip_crc [0x31, 0x32])[1 := 0x33]) = (append_axip_crc [0x31, 0x32])[1 := 0x33]"
  using axip_trailer_detects_one_byte [where frame = "[0x31, 0x32]" and i = 1 and b = "0x33"]
  by (simp add: append_axip_crc_def Let_def)

end
