(* ===== verification/Fbb_Forward.thy ===== *)
theory Fbb_Forward
  imports Prelude
begin

text \<open>
  The routing and the proposal protocol of F6FBB forwarding, \<open>packages/packet/src/forward.ts\<close>:
  hierarchical addresses, the choice of a partner, the proposal lines and the answers to them.
\<close>

section \<open>Hierarchical addresses and routing\<close>

record hier_addr =
  ha_to :: string
  ha_bbs :: "string option"
  ha_hier :: "string list"

definition parse_hier_addr :: "string \<Rightarrow> hier_addr" where
  "parse_hier_addr addr =
     (let pieces = map js_trim (split_on (CHR ''@'') addr);
          to = js_upper (hd pieces);
          right = (if length pieces < 2 then [] else pieces ! 1)
      in if right = [] then \<lparr>ha_to = to, ha_bbs = None, ha_hier = []\<rparr>
         else let parts = filter (\<lambda>p. p \<noteq> []) (map js_trim (split_on (CHR ''.'') (js_upper right)))
              in \<lparr>ha_to = to, ha_bbs = (if parts = [] then None else Some (hd parts)), ha_hier = tl parts\<rparr>)"

definition specificity :: "hier_addr \<Rightarrow> string list" where
  "specificity addr = filter (\<lambda>x. x \<noteq> []) ((case ha_bbs addr of None \<Rightarrow> [] | Some b \<Rightarrow> [b]) @ ha_hier addr)"

record forward_rule =
  fr_partner :: string
  fr_route :: string
  fr_transport :: "string option"

definition new_router :: "forward_rule list \<Rightarrow> forward_rule list" where
  "new_router rules = map (\<lambda>r. r\<lparr>fr_route := js_upper (fr_route r)\<rparr>) rules"

text \<open>The loop over the rules: the best rule with its index and length, and the catch-all.\<close>

fun route_scan :: "string list \<Rightarrow> (forward_rule \<times> nat \<times> nat) option \<Rightarrow> forward_rule option \<Rightarrow> forward_rule list
    \<Rightarrow> forward_rule option" where
  "route_scan spec best fallback [] = (case best of Some (r, _, _) \<Rightarrow> Some r | None \<Rightarrow> fallback)"
| "route_scan spec best fallback (r # rs) =
     (if fr_route r = ''*'' then route_scan spec best (case fallback of None \<Rightarrow> Some r | Some f \<Rightarrow> Some f) rs
      else case index_of (fr_route r) spec of
        None \<Rightarrow> route_scan spec best fallback rs
      | Some idx \<Rightarrow>
          if (case best of None \<Rightarrow> True
              | Some (_, best_idx, best_len) \<Rightarrow> idx < best_idx \<or> (idx = best_idx \<and> length (fr_route r) > best_len))
          then route_scan spec (Some (r, idx, length (fr_route r))) fallback rs
          else route_scan spec best fallback rs)"

definition forward_route :: "forward_rule list \<Rightarrow> hier_addr \<Rightarrow> forward_rule option" where
  "forward_route rules addr = route_scan (specificity addr) None None rules"

section \<open>Proposals\<close>

datatype bbs_type = Personal | Bulletin | Traffic

fun type_letter :: "bbs_type \<Rightarrow> string" where
  "type_letter Personal = ''P''"
| "type_letter Bulletin = ''B''"
| "type_letter Traffic = ''T''"

record proposal =
  pr_type :: bbs_type
  pr_from :: string
  pr_to :: string
  pr_at :: string
  pr_bid :: string
  pr_size :: int

definition int_str :: "int \<Rightarrow> string" where
  "int_str i = (if i < 0 then CHR ''-'' # nat_str (nat (- i)) else nat_str (nat i))"

definition proposal_line :: "string \<Rightarrow> proposal \<Rightarrow> string" where
  "proposal_line cmd p =
     join_with '' '' [cmd, type_letter (pr_type p), pr_from p, pr_at p, pr_to p, pr_bid p, int_str (pr_size p)]"

definition build_proposal :: "proposal list \<Rightarrow> string list" where
  "build_proposal ps = map (proposal_line ''FB'') ps @ [''F>'']"

definition build_proposal_FA :: "proposal list \<Rightarrow> string list" where
  "build_proposal_FA ps = map (proposal_line ''FA'') ps @ [''F>'']"

definition parse_proposal :: "string \<Rightarrow> proposal option" where
  "parse_proposal line =
     (let f = split_ws (js_trim line)
      in if length f \<noteq> 7 \<or> (f ! 0 \<noteq> ''FB'' \<and> f ! 0 \<noteq> ''FA'') then None
         else case (if f ! 1 = ''P'' then Some Personal else if f ! 1 = ''B'' then Some Bulletin
                    else if f ! 1 = ''T'' then Some Traffic else None) of
           None \<Rightarrow> None
         | Some type \<Rightarrow>
             (case js_number (f ! 6) of
                None \<Rightarrow> None
              | Some n \<Rightarrow> Some \<lparr>pr_type = type, pr_from = js_upper (f ! 2), pr_to = js_upper (f ! 4),
                                   pr_at = js_upper (f ! 3), pr_bid = f ! 5, pr_size = n\<rparr>))"

section \<open>Answers to proposals\<close>

datatype verdict = Accept | Reject | Defer

record fs_verdict =
  fv_verdict :: verdict
  fv_offset :: "nat option"

function fs_verdicts :: "string \<Rightarrow> fs_verdict list" where
  "fs_verdicts [] = []"
| "fs_verdicts (c # s) =
     (if c = CHR ''!''
      then \<lparr>fv_verdict = Accept, fv_offset = Some (digits_value (takeWhile is_digit s))\<rparr> # fs_verdicts (dropWhile is_digit s)
      else \<lparr>fv_verdict = (if c = CHR ''+'' \<or> c = CHR ''Y'' then Accept
                          else if c = CHR ''='' \<or> c = CHR ''L'' then Defer else Reject), fv_offset = None\<rparr> # fs_verdicts s)"
  by pat_completeness auto
termination
  by (relation "measure length") (auto simp: le_imp_less_Suc length_dropWhile_le)

definition is_line_break :: "char \<Rightarrow> bool" where
  "is_line_break c = (c = CHR 0x0a \<or> c = CHR 0x0d)"

definition parse_fs_detailed :: "string \<Rightarrow> fs_verdict list" where
  "parse_fs_detailed line =
     (let t = js_trim line
      in if js_upper (take 2 t) \<noteq> ''FS'' then []
         else let verdicts = dropWhile is_space (drop 2 t)
              in if \<exists>c\<in>set verdicts. is_line_break c then []
                 else fs_verdicts (filter (\<lambda>c. \<not> is_space c) verdicts))"

definition parse_fs :: "string \<Rightarrow> verdict list" where
  "parse_fs line = map fv_verdict (parse_fs_detailed line)"

section \<open>The route chosen is the most specific\<close>

text \<open>
  What the router promises: the first rule, in the order of the table, of the first component of
  the address, most specific first, that any rule names; and the first catch-all when no rule
  names a component.
\<close>

definition rule_for :: "forward_rule list \<Rightarrow> string \<Rightarrow> forward_rule option" where
  "rule_for rules token = (if token = ''*'' then None else find (\<lambda>r. fr_route r = token) rules)"

definition route_spec :: "forward_rule list \<Rightarrow> hier_addr \<Rightarrow> forward_rule option" where
  "route_spec rules addr =
     (case filter (\<lambda>r. r \<noteq> None) (map (rule_for rules) (specificity addr)) of
        r # _ \<Rightarrow> r
      | [] \<Rightarrow> find (\<lambda>r. fr_route r = ''*'') rules)"

text \<open>The best rule of a prefix of the table, with its index.\<close>

definition best_of :: "string list \<Rightarrow> forward_rule list \<Rightarrow> (forward_rule \<times> nat \<times> nat) option" where
  "best_of spec rules =
     (case find (\<lambda>i. rule_for rules (spec ! i) \<noteq> None) [0..<length spec] of
        None \<Rightarrow> None
      | Some i \<Rightarrow> (case rule_for rules (spec ! i) of None \<Rightarrow> None | Some r \<Rightarrow> Some (r, i, length (fr_route r))))"

lemma find_append: "find p (xs @ ys) = (case find p xs of None \<Rightarrow> find p ys | Some x \<Rightarrow> Some x)"
  by (induction xs) auto

lemma find_Some_D: "find p xs = Some x \<Longrightarrow> p x \<and> x \<in> set xs"
  by (induction xs) (auto split: if_splits)

lemma rule_for_append: "rule_for (seen @ [r]) t =
    (case rule_for seen t of Some r' \<Rightarrow> Some r' | None \<Rightarrow> if fr_route r = t \<and> t \<noteq> ''*'' then Some r else None)"
  by (auto simp: rule_for_def find_append split: option.splits)

lemma rule_for_route: "rule_for rules t = Some r \<Longrightarrow> fr_route r = t \<and> t \<noteq> ''*''"
  by (auto simp: rule_for_def dest: find_Some_D split: if_splits)

text \<open>The least index with a rule.\<close>

lemma find_upt_Some: "find p [0..<n] = Some i \<longleftrightarrow> i < n \<and> p i \<and> (\<forall>j<i. \<not> p j)"
proof (induction n arbitrary: i)
  case (Suc n)
  have step: "find p [0..<Suc n] = (case find p [0..<n] of None \<Rightarrow> if p n then Some n else None | Some x \<Rightarrow> Some x)"
    by (simp add: find_append split: option.splits)
  show ?case
  proof (cases "find p [0..<n]")
    case None
    then have "\<forall>j<n. \<not> p j" by (auto simp: find_None_iff)
    then show ?thesis using None unfolding step by (auto simp: less_Suc_eq)
  next
    case (Some k)
    then have k: "k < n" "p k" "\<forall>j<k. \<not> p j" using Suc.IH by auto
    have "(k = i) \<longleftrightarrow> i < Suc n \<and> p i \<and> (\<forall>j<i. \<not> p j)"
      using k by (meson less_SucI linorder_neqE_nat)
    then show ?thesis using Some unfolding step by simp
  qed
qed simp

lemma best_of_Some:
  "best_of spec rules = Some (r, i, l) \<longleftrightarrow>
     i < length spec \<and> rule_for rules (spec ! i) = Some r \<and> l = length (fr_route r)
     \<and> (\<forall>j<i. rule_for rules (spec ! j) = None)" (is "?L \<longleftrightarrow> ?R")
proof
  let ?p = "\<lambda>i. rule_for rules (spec ! i) \<noteq> None"
  assume ?L
  then obtain k where "find ?p [0..<length spec] = Some k" by (auto simp: best_of_def split: option.splits)
  then show ?R using \<open>?L\<close> by (auto simp: best_of_def find_upt_Some split: option.splits)
next
  let ?p = "\<lambda>i. rule_for rules (spec ! i) \<noteq> None"
  assume r: ?R
  then have "find ?p [0..<length spec] = Some i" by (simp add: find_upt_Some)
  then show ?L using r by (simp add: best_of_def)
qed

lemma best_of_None: "best_of spec rules = None \<longleftrightarrow> (\<forall>t\<in>set spec. rule_for rules t = None)"
proof -
  let ?p = "\<lambda>i. rule_for rules (spec ! i) \<noteq> None"
  have "best_of spec rules = None \<longleftrightarrow> find ?p [0..<length spec] = None"
  proof (cases "find ?p [0..<length spec]")
    case (Some k)
    then have "?p k" using find_Some_D [OF Some] by simp
    then show ?thesis using Some by (auto simp: best_of_def)
  qed (simp add: best_of_def)
  also have "\<dots> \<longleftrightarrow> (\<forall>i<length spec. rule_for rules (spec ! i) = None)" by (auto simp: find_None_iff)
  finally show ?thesis by (simp add: all_set_conv_all_nth)
qed

lemma best_of_cong:
  assumes "\<forall>t\<in>set spec. rule_for a t = rule_for b t"
  shows "best_of spec a = best_of spec b"
proof -
  have "find (\<lambda>i. rule_for a (spec ! i) \<noteq> None) [0..<length spec] = find (\<lambda>i. rule_for b (spec ! i) \<noteq> None) [0..<length spec]"
    using assms by (intro find_cong) auto
  then show ?thesis using assms by (auto simp: best_of_def dest: find_Some_D split: option.splits)
qed

lemma best_of_absent:
  "fr_route r = ''*'' \<or> fr_route r \<notin> set spec \<Longrightarrow> best_of spec (seen @ [r]) = best_of spec seen"
  by (rule best_of_cong) (auto simp: rule_for_append split: option.splits)

lemma best_of_present:
  assumes "fr_route r \<noteq> ''*''" "index_of (fr_route r) spec = Some i"
  shows "best_of spec (seen @ [r]) =
    (case best_of spec seen of
       None \<Rightarrow> Some (r, i, length (fr_route r))
     | Some (r', j, l) \<Rightarrow> if i < j then Some (r, i, length (fr_route r)) else Some (r', j, l))"
proof -
  have i: "i < length spec" "spec ! i = fr_route r" "\<forall>j<i. spec ! j \<noteq> fr_route r"
    using assms(2) by (auto simp: index_of_Some)
  have new: "rule_for (seen @ [r]) (spec ! i) = (case rule_for seen (spec ! i) of Some r' \<Rightarrow> Some r' | None \<Rightarrow> Some r)"
    using assms(1) i(2) by (simp add: rule_for_append)
  have old: "rule_for (seen @ [r]) (spec ! j) = rule_for seen (spec ! j)" if "j < i" for j
    using i(3) that by (auto simp: rule_for_append split: option.splits)
  show ?thesis
  proof (cases "best_of spec seen")
    case None
    then have "rule_for seen (spec ! i) = None" "\<forall>j<i. rule_for seen (spec ! j) = None"
      using i(1) by (auto simp: best_of_None)
    then have "best_of spec (seen @ [r]) = Some (r, i, length (fr_route r))"
      using i(1) new old unfolding best_of_Some by simp
    then show ?thesis using None by simp
  next
    case (Some b)
    obtain r' j l where b: "b = (r', j, l)" by (cases b)
    have j: "j < length spec" "rule_for seen (spec ! j) = Some r'" "l = length (fr_route r')"
      "\<forall>k<j. rule_for seen (spec ! k) = None"
      using Some unfolding b best_of_Some by auto
    show ?thesis
    proof (cases "i < j")
      case True
      then have "best_of spec (seen @ [r]) = Some (r, i, length (fr_route r))"
        using i new old j unfolding best_of_Some by auto
      then show ?thesis using Some b True by simp
    next
      case False
      then have "best_of spec (seen @ [r]) = Some (r', j, l)"
        using j old False i(3) unfolding best_of_Some
        by (simp add: rule_for_append) (metis (no_types, lifting) less_le_trans not_less option.simps(4) rule_for_append)
      then show ?thesis using Some b False by simp
    qed
  qed
qed

lemma route_scan_spec:
  "route_scan spec (best_of spec seen) (find (\<lambda>r. fr_route r = ''*'') seen) rules =
     (case best_of spec (seen @ rules) of
        Some (r, _, _) \<Rightarrow> Some r
      | None \<Rightarrow> find (\<lambda>r. fr_route r = ''*'') (seen @ rules))"
proof (induction rules arbitrary: seen)
  case (Cons r rs)
  note IH = Cons.IH [of "seen @ [r]"]
  have star: "find (\<lambda>r. fr_route r = ''*'') (seen @ [r]) =
      (case find (\<lambda>r. fr_route r = ''*'') seen of None \<Rightarrow> if fr_route r = ''*'' then Some r else None | Some f \<Rightarrow> Some f)"
    by (simp add: find_append split: option.splits)
  show ?case
  proof (cases "fr_route r = ''*''")
    case True
    then show ?thesis using IH by (auto simp: star best_of_absent split: option.splits)
  next
    case f: False
    show ?thesis
    proof (cases "index_of (fr_route r) spec")
      case None
      then have "fr_route r \<notin> set spec" by (simp add: index_of_None)
      then show ?thesis using IH f None star by (auto simp: best_of_absent split: option.splits)
    next
      case (Some i)
      have no_tie: "\<not> (i = j \<and> length (fr_route r) > l)" if "best_of spec seen = Some (r', j, l)" for r' j l
        using that Some by (auto simp: best_of_Some index_of_Some dest: rule_for_route)
      show ?thesis using IH f Some star no_tie best_of_present [OF f Some, of seen]
        by (auto split: option.splits if_splits)
    qed
  qed
qed (simp add: find_append split: option.splits)

lemma best_of_first:
  "(case best_of spec rules of Some (r, _, _) \<Rightarrow> Some r | None \<Rightarrow> d) =
   (case filter (\<lambda>r. r \<noteq> None) (map (rule_for rules) spec) of r # _ \<Rightarrow> r | [] \<Rightarrow> d)"
proof (induction spec)
  case (Cons t spec)
  show ?case
  proof (cases "rule_for rules t")
    case (Some r)
    then have "best_of (t # spec) rules = Some (r, 0, length (fr_route r))" by (simp add: best_of_Some)
    then show ?thesis using Some by simp
  next
    case None
    have "best_of (t # spec) rules = (case best_of spec rules of None \<Rightarrow> None | Some (r, i, l) \<Rightarrow> Some (r, Suc i, l))"
    proof (cases "best_of spec rules")
      case None
      then have "best_of (t # spec) rules = None" using \<open>rule_for rules t = None\<close> by (simp add: best_of_None)
      then show ?thesis using None by simp
    next
      case (Some b)
      obtain r i l where b: "b = (r, i, l)" by (cases b)
      have "best_of (t # spec) rules = Some (r, Suc i, l)"
        using Some \<open>rule_for rules t = None\<close> unfolding b best_of_Some by (auto simp: less_Suc_eq_0_disj nth_Cons')
      then show ?thesis using Some b by simp
    qed
    then show ?thesis using Cons None by (auto split: option.splits)
  qed
qed (simp add: best_of_def)

text \<open>C25: 
  The router's one pass over the table, with its running best index and length, is the
  specification: the first rule of the most specific component of the address that any rule
  names, else the first catch-all. In particular the length of the route never decides.
\<close>

theorem forward_route_most_specific: "forward_route rules addr = route_spec rules addr"
proof -
  let ?spec = "specificity addr"
  have "best_of ?spec [] = None" by (simp add: best_of_None rule_for_def)
  then have "forward_route rules addr =
     (case best_of ?spec rules of Some (r, _, _) \<Rightarrow> Some r | None \<Rightarrow> find (\<lambda>r. fr_route r = ''*'') rules)"
    using route_scan_spec [of ?spec "[]" rules] by (simp add: forward_route_def cong: option.case_cong)
  then show ?thesis by (simp only: route_spec_def best_of_first)
qed

section \<open>Reading back what a session writes\<close>

definition token :: "string \<Rightarrow> bool" where
  "token w = (w \<noteq> [] \<and> (\<forall>c\<in>set w. \<not> is_space c))"

definition wf_proposal :: "proposal \<Rightarrow> bool" where
  "wf_proposal p = (token (pr_from p) \<and> token (pr_at p) \<and> token (pr_to p) \<and> token (pr_bid p) \<and> 0 \<le> pr_size p)"

definition upper_proposal :: "proposal \<Rightarrow> proposal" where
  "upper_proposal p = p\<lparr>pr_from := js_upper (pr_from p), pr_to := js_upper (pr_to p), pr_at := js_upper (pr_at p)\<rparr>"

lemma token_nat_str [simp]: "token (nat_str n)"
  using nat_str_digits space_not_digit by (auto simp: token_def)

lemma js_trim_ends:
  assumes "s \<noteq> []" "\<not> is_space (hd s)" "\<not> is_space (last s)"
  shows "js_trim s = s"
proof -
  have "dropWhile is_space s = s" using assms(1,2) by (cases s) auto
  then show ?thesis using assms(3) by (simp add: js_trim_def trim_end_where_id)
qed

lemma hd_join: "ws \<noteq> [] \<Longrightarrow> hd ws \<noteq> [] \<Longrightarrow> hd (join_with sep ws) = hd (hd ws) \<and> join_with sep ws \<noteq> []"
  by (induction sep ws rule: join_with.induct) auto

lemma last_join: "ws \<noteq> [] \<Longrightarrow> \<forall>w\<in>set ws. w \<noteq> [] \<Longrightarrow> last (join_with sep ws) = last (last ws)"
proof (induction sep ws rule: join_with.induct)
  case (3 sep x y xs)
  then have "join_with sep (y # xs) \<noteq> []" using hd_join [of "y # xs" sep] by simp
  then show ?case using 3 by simp
qed auto

lemma trim_split_tokens:
  assumes "ws \<noteq> []" "\<forall>w\<in>set ws. token w"
  shows "split_ws (js_trim (join_with '' '' ws)) = ws"
proof -
  have ne: "\<forall>w\<in>set ws. w \<noteq> []" using assms(2) by (auto simp: token_def)
  have h: "hd (join_with '' '' ws) = hd (hd ws)" "join_with '' '' ws \<noteq> []"
    using hd_join [of ws] assms(1) ne by auto
  have l: "last (join_with '' '' ws) = last (last ws)" using last_join assms(1) ne by blast
  have "token (hd ws)" "token (last ws)" using assms by auto
  then have "\<not> is_space (hd (hd ws))" "\<not> is_space (last (last ws))" by (auto simp: token_def)
  then have "js_trim (join_with '' '' ws) = join_with '' '' ws" using h l by (intro js_trim_ends) auto
  then show ?thesis using split_ws_join assms by (simp add: token_def)
qed

text \<open>
  A proposal line, ASCII or compressed, is read back as the proposal it was made of, with the
  calls in upper case. Fields are single words, as the session makes them.
\<close>

lemma proposal_roundtrip:
  assumes "wf_proposal p" "cmd = ''FB'' \<or> cmd = ''FA''"
  shows "parse_proposal (proposal_line cmd p) = Some (upper_proposal p)"
proof -
  have f: "token cmd" "token (type_letter (pr_type p))"
    using assms(2) by (cases "pr_type p"; auto simp: token_def is_space_def char_code_def)+
  have n: "int_str (pr_size p) = nat_str (nat (pr_size p))" using assms(1) by (simp add: int_str_def wf_proposal_def)
  have "split_ws (js_trim (proposal_line cmd p)) =
      [cmd, type_letter (pr_type p), pr_from p, pr_at p, pr_to p, pr_bid p, nat_str (nat (pr_size p))]"
    unfolding proposal_line_def n using assms(1) f by (intro trim_split_tokens) (auto simp: wf_proposal_def)
  then show ?thesis using assms
    by (cases "pr_type p") (auto simp: parse_proposal_def upper_proposal_def wf_proposal_def)
qed

fun verdict_text :: "fs_verdict \<Rightarrow> string" where
  "verdict_text v = (case fv_offset v of
     Some n \<Rightarrow> CHR ''!'' # nat_str n
   | None \<Rightarrow> (case fv_verdict v of Accept \<Rightarrow> ''+'' | Reject \<Rightarrow> ''-'' | Defer \<Rightarrow> ''=''))"

declare verdict_text.simps [simp del]

definition wf_verdict :: "fs_verdict \<Rightarrow> bool" where
  "wf_verdict v = (fv_offset v \<noteq> None \<longrightarrow> fv_verdict v = Accept)"

definition fs_line :: "fs_verdict list \<Rightarrow> string" where
  "fs_line vs = ''FS '' @ concat (map verdict_text vs)"

lemma verdict_text_chars: "c \<in> set (verdict_text v) \<Longrightarrow> is_digit c \<or> c \<in> set ''!+-=''"
  by (auto simp: verdict_text.simps dest: nat_str_digits split: option.splits verdict.splits)

lemma verdict_text_head: "verdict_text v @ s = c # t \<Longrightarrow> \<not> is_digit c"
  by (auto simp: verdict_text.simps is_digit_def char_code_def split: option.splits verdict.splits)

lemma verdicts_head: "concat (map verdict_text vs) = [] \<or> \<not> is_digit (hd (concat (map verdict_text vs)))"
proof (cases vs)
  case (Cons v ws)
  then show ?thesis using verdict_text_head [of v "concat (map verdict_text ws)"]
    by (cases "concat (map verdict_text vs)") auto
qed simp

lemma fs_verdicts_text: "\<forall>v\<in>set vs. wf_verdict v \<Longrightarrow> fs_verdicts (concat (map verdict_text vs)) = vs"
proof (induction vs)
  case (Cons v vs)
  let ?s = "concat (map verdict_text vs)"
  have IH: "fs_verdicts ?s = vs" using Cons by simp
  show ?case
  proof (cases "fv_offset v")
    case None
    then have "verdict_text v = (case fv_verdict v of Accept \<Rightarrow> ''+'' | Reject \<Rightarrow> ''-'' | Defer \<Rightarrow> ''='')"
      by (simp add: verdict_text.simps)
    then show ?thesis using IH None by (cases "fv_verdict v") (simp_all add: fs_verdict.equality)
  next
    case (Some n)
    have d: "\<forall>c\<in>set (nat_str n). is_digit c" using nat_str_digits by blast
    have h: "?s = [] \<or> \<not> is_digit (hd ?s)" by (rule verdicts_head)
    have e: "takeWhile is_digit t = [] \<and> dropWhile is_digit t = t" if "t = [] \<or> \<not> is_digit (hd t)" for t
      using that by (cases t) auto
    have "takeWhile is_digit (nat_str n @ ?s) = nat_str n" "dropWhile is_digit (nat_str n @ ?s) = ?s"
      using d e [OF h] by (subst takeWhile_append2 dropWhile_append2; simp)+
    moreover have "fv_verdict v = Accept" using Cons.prems Some by (simp add: wf_verdict_def)
    moreover have "concat (map verdict_text (v # vs)) = CHR ''!'' # (nat_str n @ ?s)" using Some by (simp add: verdict_text.simps)
    ultimately have "fs_verdicts (concat (map verdict_text (v # vs))) = \<lparr>fv_verdict = fv_verdict v, fv_offset = Some n\<rparr> # vs"
      using IH by (simp only: fs_verdicts.simps refl if_True digits_value_nat_str)
    then show ?thesis using Some by (cases v) simp
  qed
qed simp

text \<open>An answer line, with accepts, rejects, deferrals and resume offsets in any order, is read back as given.\<close>

lemma fs_roundtrip:
  assumes "\<forall>v\<in>set vs. wf_verdict v"
  shows "parse_fs_detailed (fs_line vs) = vs"
proof -
  let ?s = "concat (map verdict_text vs)"
  have c: "\<not> is_space x \<and> \<not> is_line_break x" if "x \<in> set ?s" for x
  proof -
    have "is_digit x \<or> x \<in> set ''!+-=''" using that verdict_text_chars by fastforce
    then show ?thesis by (auto simp: is_space_def is_line_break_def is_digit_def char_code_def)
  qed
  have F: "\<not> is_space (CHR ''F'')" "\<not> is_space (CHR ''S'')" "is_space (CHR '' '')" by (simp_all add: is_space_def char_code_def)
  have "\<exists>w. js_trim (fs_line vs) = ''FS'' @ w \<and> dropWhile is_space w = ?s"
  proof (cases "?s = []")
    case True
    have "js_trim (fs_line vs) = ''FS''"
      unfolding fs_line_def True using F by (simp add: js_trim_def trim_end_where_def)
    then show ?thesis using True by simp
  next
    case False
    then have "\<not> is_space (last ?s)" using c last_in_set by blast
    then have "js_trim (fs_line vs) = fs_line vs" using False F by (intro js_trim_ends) (simp_all add: fs_line_def)
    moreover have "\<not> is_space (hd ?s)" using False c hd_in_set by blast
    ultimately show ?thesis using F False by (intro exI [of _ "CHR '' '' # ?s"]) (cases ?s; simp add: fs_line_def)
  qed
  then obtain w where w: "js_trim (fs_line vs) = ''FS'' @ w" "dropWhile is_space w = ?s" by blast
  have "filter (\<lambda>c. \<not> is_space c) ?s = ?s" using c by (auto intro: filter_all_id)
  then show ?thesis using w c fs_verdicts_text [OF assms]
    by (auto simp: parse_fs_detailed_def upper_char_def char_code_def)
qed

end
