(* ===== verification/Bbs_Store.thy ===== *)
theory Bbs_Store
  imports Fbb_Forward Interfaces
begin

text \<open>
  The message store a BBS session works on, \<open>MessageStore\<close> of \<open>packages/packet/src/bbs.ts\<close>, and the store served
  from a snapshot, \<open>packages/packet/src/cached-bbs-store.ts\<close>. Rows are objects shared between the cache and the
  writes in flight, so they live in a heap and the cache holds references. The backend is outside: the calls made
  to it are recorded, its answers are events.
\<close>

section \<open>Messages and the interface of a store\<close>

record bbs_meta =
  bm_id :: int
  bm_type :: bbs_type
  bm_from :: string
  bm_to :: string
  bm_subject :: "string option"
  bm_posted_at :: int

record bbs_full = bbs_meta +
  bm_body :: string
  bm_reply_to :: "int option"
  bm_read_at :: "int option"

record bbs_post =
  bp_type :: bbs_type
  bp_from :: string
  bp_to :: string
  bp_subject :: "string option"
  bp_body :: string
  bp_reply_to :: "int option"

record 's store_ops =
  so_list_new :: "string \<Rightarrow> 's \<Rightarrow> bbs_meta list"
  so_list_all :: "'s \<Rightarrow> bbs_meta list"
  so_list_bulletins :: "'s \<Rightarrow> bbs_meta list"
  so_list_mine :: "string \<Rightarrow> 's \<Rightarrow> bbs_meta list"
  so_read :: "int \<Rightarrow> 's \<Rightarrow> bbs_full option \<times> 's"
  so_post :: "bbs_post \<Rightarrow> 's \<Rightarrow> int \<times> 's"
  so_kill :: "int \<Rightarrow> string \<Rightarrow> 's \<Rightarrow> bool \<times> 's"

section \<open>The cached store\<close>

datatype write_op = Post_op nat bbs_post | Kill_op string

record write_job =
  wj_op :: write_op
  wj_id :: int
  wj_attempt :: nat
  wj_asleep :: bool

datatype backend_call = Call_post bbs_post | Call_mark_read int string | Call_kill int string

record cached_store =
  cs_call :: string
  cs_retries :: nat
  cs_marks :: bool
  cs_kills :: bool
  cs_now :: int
  cs_heap :: "bbs_full list"
  cs_cache :: "nat list"
  cs_temp :: int
  cs_failed :: "int list"
  cs_jobs :: "write_job list"
  cs_calls :: "backend_call list"
  cs_errors :: "(write_op \<times> int) list"

definition new_cached_store :: "string \<Rightarrow> nat \<Rightarrow> bool \<Rightarrow> bool \<Rightarrow> cached_store" where
  "new_cached_store call retries marks kills =
     \<lparr>cs_call = js_upper call, cs_retries = retries, cs_marks = marks, cs_kills = kills, cs_now = 0, cs_heap = [], cs_cache = [],
      cs_temp = - 1, cs_failed = [], cs_jobs = [], cs_calls = [], cs_errors = []\<rparr>"

definition meta_of :: "bbs_full \<Rightarrow> bbs_meta" where
  "meta_of m = \<lparr>bm_id = bm_id m, bm_type = bm_type m, bm_from = bm_from m, bm_to = bm_to m, bm_subject = bm_subject m, bm_posted_at = bm_posted_at m\<rparr>"

definition is_read :: "bbs_full \<Rightarrow> bool" where
  "is_read m = (case bm_read_at m of None \<Rightarrow> False | Some t \<Rightarrow> t \<noteq> 0)"

definition rows :: "cached_store \<Rightarrow> bbs_full list" where
  "rows s = map ((!) (cs_heap s)) (cs_cache s)"

text \<open>\<open>withRetry\<close>: the first attempt is made at once; the write then waits for the backend's answer.\<close>

definition call_of :: "write_op \<Rightarrow> int \<Rightarrow> backend_call" where
  "call_of op n = (case op of Post_op _ p \<Rightarrow> Call_post p | Kill_op cs \<Rightarrow> Call_kill n cs)"

definition start_write :: "write_op \<Rightarrow> int \<Rightarrow> cached_store \<Rightarrow> cached_store" where
  "start_write op n s =
     s\<lparr>cs_jobs := cs_jobs s @ [\<lparr>wj_op = op, wj_id = n, wj_attempt = 0, wj_asleep = False\<rparr>], cs_calls := cs_calls s @ [call_of op n]\<rparr>"

definition drop_at :: "nat \<Rightarrow> 'a list \<Rightarrow> 'a list" where
  "drop_at i xs = take i xs @ drop (Suc i) xs"

text \<open>The answers of the backend to the \<open>i\<close>-th write in flight, and the end of its pause between two attempts.\<close>

definition write_done :: "nat \<Rightarrow> int \<Rightarrow> cached_store \<Rightarrow> cached_store" where
  "write_done i real s =
     (if i < length (cs_jobs s) \<and> \<not> wj_asleep (cs_jobs s ! i)
      then let s1 = s\<lparr>cs_jobs := drop_at i (cs_jobs s)\<rparr>
           in case wj_op (cs_jobs s ! i) of
                Post_op ref p \<Rightarrow> s1\<lparr>cs_heap := (cs_heap s)[ref := (cs_heap s ! ref)\<lparr>bm_id := real\<rparr>]\<rparr>
              | Kill_op cs \<Rightarrow> s1
      else s)"

definition write_fails :: "nat \<Rightarrow> cached_store \<Rightarrow> cached_store" where
  "write_fails i s =
     (if i < length (cs_jobs s) \<and> \<not> wj_asleep (cs_jobs s ! i)
      then let j = cs_jobs s ! i
           in if wj_attempt j < cs_retries s then s\<lparr>cs_jobs := (cs_jobs s)[i := j\<lparr>wj_asleep := True\<rparr>]\<rparr>
              else s\<lparr>cs_jobs := drop_at i (cs_jobs s),
                     cs_failed := (if wj_id j \<in> set (cs_failed s) then cs_failed s else cs_failed s @ [wj_id j]),
                     cs_errors := cs_errors s @ [(wj_op j, wj_id j)]\<rparr>
      else s)"

definition write_wakes :: "nat \<Rightarrow> cached_store \<Rightarrow> cached_store" where
  "write_wakes i s =
     (if i < length (cs_jobs s) \<and> wj_asleep (cs_jobs s ! i)
      then let j = cs_jobs s ! i
           in s\<lparr>cs_jobs := (cs_jobs s)[i := j\<lparr>wj_attempt := wj_attempt j + 1, wj_asleep := False\<rparr>],
                cs_calls := cs_calls s @ [call_of (wj_op j) (wj_id j)]\<rparr>
      else s)"

text \<open>\<open>refresh\<close>, once the backend has answered.\<close>

definition refreshed :: "bbs_full list \<Rightarrow> cached_store \<Rightarrow> cached_store" where
  "refreshed ms s = s\<lparr>cs_heap := cs_heap s @ ms, cs_cache := [length (cs_heap s)..<length (cs_heap s) + length ms]\<rparr>"

definition cached_list_new :: "string \<Rightarrow> cached_store \<Rightarrow> bbs_meta list" where
  "cached_list_new call s =
     (let cs = js_upper call
      in map meta_of (filter (\<lambda>m. (bm_type m = Bulletin \<and> \<not> is_read m) \<or> (bm_type m \<noteq> Bulletin \<and> bm_to m = cs \<and> \<not> is_read m)) (rows s)))"

definition cached_list_all :: "cached_store \<Rightarrow> bbs_meta list" where
  "cached_list_all s = map meta_of (rows s)"

definition cached_list_bulletins :: "cached_store \<Rightarrow> bbs_meta list" where
  "cached_list_bulletins s = map meta_of (filter (\<lambda>m. bm_type m = Bulletin) (rows s))"

definition cached_list_mine :: "string \<Rightarrow> cached_store \<Rightarrow> bbs_meta list" where
  "cached_list_mine call s = (let cs = js_upper call in map meta_of (filter (\<lambda>m. bm_from m = cs \<or> bm_to m = cs) (rows s)))"

definition cached_read :: "int \<Rightarrow> cached_store \<Rightarrow> bbs_full option \<times> cached_store" where
  "cached_read n s =
     (case List.find (\<lambda>ref. bm_id (cs_heap s ! ref) = n) (cs_cache s) of
        None \<Rightarrow> (None, s)
      | Some ref \<Rightarrow>
          let m = cs_heap s ! ref
          in if bm_type m \<noteq> Bulletin \<and> \<not> is_read m \<and> bm_to m = cs_call s
             then let m = m\<lparr>bm_read_at := Some 1\<rparr>
                  in (Some m, s\<lparr>cs_heap := (cs_heap s)[ref := m],
                                cs_calls := cs_calls s @ (if cs_marks s then [Call_mark_read n (cs_call s)] else [])\<rparr>)
             else (Some m, s))"

definition cached_post :: "bbs_post \<Rightarrow> cached_store \<Rightarrow> int \<times> cached_store" where
  "cached_post p s =
     (let n = cs_temp s;
          m = \<lparr>bm_id = n, bm_type = bp_type p, bm_from = js_upper (bp_from p), bm_to = js_upper (bp_to p), bm_subject = bp_subject p,
               bm_posted_at = cs_now s div 1000, bm_body = bp_body p, bm_reply_to = bp_reply_to p, bm_read_at = None\<rparr>;
          s1 = s\<lparr>cs_temp := n - 1, cs_heap := cs_heap s @ [m], cs_cache := cs_cache s @ [length (cs_heap s)]\<rparr>
      in (n, start_write (Post_op (length (cs_heap s)) p) n s1))"

definition cached_kill :: "int \<Rightarrow> string \<Rightarrow> cached_store \<Rightarrow> bool \<times> cached_store" where
  "cached_kill n call s =
     (let cs = js_upper call; own = (\<lambda>ref. bm_id (cs_heap s ! ref) = n \<and> (bm_from (cs_heap s ! ref) = cs \<or> bm_to (cs_heap s ! ref) = cs))
      in case dropWhile (\<lambda>ref. \<not> own ref) (cs_cache s) of
           [] \<Rightarrow> (False, s)
         | _ # later \<Rightarrow>
             let s1 = s\<lparr>cs_cache := takeWhile (\<lambda>ref. \<not> own ref) (cs_cache s) @ later\<rparr>
             in (True, if cs_kills s then start_write (Kill_op cs) n s1 else s1))"

definition cached_ops :: "cached_store store_ops" where
  "cached_ops = \<lparr>so_list_new = cached_list_new, so_list_all = cached_list_all, so_list_bulletins = cached_list_bulletins,
     so_list_mine = cached_list_mine, so_read = cached_read, so_post = cached_post, so_kill = cached_kill\<rparr>"

text \<open>What can happen to the store between the commands of the caller.\<close>

datatype backend_event = Clock int | Loaded "bbs_full list" | Write_done nat int | Write_fails nat | Write_wakes nat

fun backend_step :: "backend_event \<Rightarrow> cached_store \<Rightarrow> cached_store" where
  "backend_step (Clock t) s = s\<lparr>cs_now := t\<rparr>"
| "backend_step (Loaded ms) s = refreshed ms s"
| "backend_step (Write_done i real) s = write_done i real s"
| "backend_step (Write_fails i) s = write_fails i s"
| "backend_step (Write_wakes i) s = write_wakes i s"

section \<open>What a store promises a session\<close>

definition unread :: "bbs_full \<Rightarrow> bbs_full" where
  "unread m = m\<lparr>bm_read_at := None\<rparr>"

definition posted_as :: "bbs_post \<Rightarrow> bbs_full \<Rightarrow> bool" where
  "posted_as p m = (bm_type m = bp_type p \<and> bm_from m = js_upper (bp_from p) \<and> bm_to m = js_upper (bp_to p)
     \<and> bm_subject m = bp_subject p \<and> bm_body m = bp_body p \<and> bm_reply_to m = bp_reply_to p)"

locale message_store =
  fixes ops :: "'s store_ops"
    and contents :: "'s \<Rightarrow> bbs_full list"
    and ok :: "'s \<Rightarrow> bool"
  assumes list_all: "ok s \<Longrightarrow> so_list_all ops s = map meta_of (contents s)"
    and list_new: "ok s \<Longrightarrow> set (so_list_new ops c s) \<subseteq> meta_of ` set (contents s)"
    and list_bulletins: "ok s \<Longrightarrow> set (so_list_bulletins ops s) \<subseteq> meta_of ` set (contents s)"
    and list_mine: "ok s \<Longrightarrow> set (so_list_mine ops c s) \<subseteq> meta_of ` set (contents s)"
    and read_ok: "ok s \<Longrightarrow> ok (snd (so_read ops n s))"
    and read_keeps: "ok s \<Longrightarrow> map unread (contents (snd (so_read ops n s))) = map unread (contents s)"
    and read_finds: "ok s \<Longrightarrow> fst (so_read ops n s) = Some m \<Longrightarrow> m \<in> set (contents (snd (so_read ops n s))) \<and> bm_id m = n"
    and read_misses: "ok s \<Longrightarrow> fst (so_read ops n s) = None \<Longrightarrow> n \<notin> bm_id ` set (contents s)"
    and post_ok: "ok s \<Longrightarrow> ok (snd (so_post ops p s))"
    and post_adds: "ok s \<Longrightarrow> \<exists>m. contents (snd (so_post ops p s)) = contents s @ [m] \<and> posted_as p m \<and> bm_id m = fst (so_post ops p s)"
    and kill_ok: "ok s \<Longrightarrow> ok (snd (so_kill ops n c s))"
    and kill_own: "ok s \<Longrightarrow> fst (so_kill ops n c s) \<Longrightarrow>
      \<exists>xs m ys. contents s = xs @ m # ys \<and> contents (snd (so_kill ops n c s)) = xs @ ys \<and> bm_id m = n
        \<and> (bm_from m = js_upper c \<or> bm_to m = js_upper c)"
    and kill_refused: "ok s \<Longrightarrow> \<not> fst (so_kill ops n c s) \<Longrightarrow> contents (snd (so_kill ops n c s)) = contents s"

section \<open>The cached store keeps the promise\<close>

definition in_heap :: "cached_store \<Rightarrow> bool" where
  "in_heap s = (distinct (cs_cache s) \<and> (\<forall>ref\<in>set (cs_cache s). ref < length (cs_heap s)))"

lemma rows_start_write [simp]: "rows (start_write op n s) = rows s" "in_heap (start_write op n s) = in_heap s"
  by (simp_all add: rows_def start_write_def in_heap_def)

definition mark_read :: "nat \<Rightarrow> cached_store \<Rightarrow> cached_store" where
  "mark_read ref s = s\<lparr>cs_heap := (cs_heap s)[ref := (cs_heap s ! ref)\<lparr>bm_read_at := Some 1\<rparr>],
     cs_calls := cs_calls s @ (if cs_marks s then [Call_mark_read (bm_id (cs_heap s ! ref)) (cs_call s)] else [])\<rparr>"

lemma read_cases [case_names missing seen marked]:
  assumes "cached_read n s = (None, s) \<Longrightarrow> n \<notin> bm_id ` set (rows s) \<Longrightarrow> P"
    and "\<And>ref. ref \<in> set (cs_cache s) \<Longrightarrow> bm_id (cs_heap s ! ref) = n \<Longrightarrow> cached_read n s = (Some (cs_heap s ! ref), s) \<Longrightarrow> P"
    and "\<And>ref. ref \<in> set (cs_cache s) \<Longrightarrow> bm_id (cs_heap s ! ref) = n \<Longrightarrow> bm_type (cs_heap s ! ref) \<noteq> Bulletin \<Longrightarrow>
      bm_to (cs_heap s ! ref) = cs_call s \<Longrightarrow> \<not> is_read (cs_heap s ! ref) \<Longrightarrow>
      cached_read n s = (Some ((cs_heap s ! ref)\<lparr>bm_read_at := Some 1\<rparr>), mark_read ref s) \<Longrightarrow> P"
  shows P
proof (cases "List.find (\<lambda>ref. bm_id (cs_heap s ! ref) = n) (cs_cache s)")
  case None
  then have "n \<notin> bm_id ` set (rows s)" by (auto simp: find_None_iff rows_def)
  then show P using assms(1) None by (simp add: cached_read_def)
next
  case (Some ref)
  then have r: "ref \<in> set (cs_cache s)" "bm_id (cs_heap s ! ref) = n" by (auto simp: find_Some_iff)
  show P
  proof (cases "bm_type (cs_heap s ! ref) \<noteq> Bulletin \<and> \<not> is_read (cs_heap s ! ref) \<and> bm_to (cs_heap s ! ref) = cs_call s")
    case True
    then show P using assms(3) [OF r] Some r(2) by (simp add: cached_read_def Let_def mark_read_def)
  next
    case False
    then have "cached_read n s = (Some (cs_heap s ! ref), s)" using Some unfolding cached_read_def Let_def by auto
    then show P by (rule assms(2) [OF r])
  qed
qed

lemma mark_read_fields [simp]:
  "cs_cache (mark_read ref s) = cs_cache s" "length (cs_heap (mark_read ref s)) = length (cs_heap s)" "cs_call (mark_read ref s) = cs_call s"
  "cs_jobs (mark_read ref s) = cs_jobs s" "cs_failed (mark_read ref s) = cs_failed s" "cs_retries (mark_read ref s) = cs_retries s"
  "cs_temp (mark_read ref s) = cs_temp s"
  by (simp_all add: mark_read_def)

lemma mark_read_nth:
  "ref < length (cs_heap s) \<Longrightarrow> unread (cs_heap (mark_read ref s) ! i) = unread (cs_heap s ! i)"
  by (cases "i = ref") (simp_all add: mark_read_def unread_def)

lemma read_in_heap: "in_heap s \<Longrightarrow> in_heap (snd (cached_read n s))"
  by (cases rule: read_cases [of n s]) (simp_all add: in_heap_def)

lemma read_rows: "in_heap s \<Longrightarrow> map unread (rows (snd (cached_read n s))) = map unread (rows s)"
  by (cases rule: read_cases [of n s]) (auto simp: rows_def in_heap_def mark_read_nth)

lemma read_found: "in_heap s \<Longrightarrow> fst (cached_read n s) = Some m \<Longrightarrow> m \<in> set (rows (snd (cached_read n s))) \<and> bm_id m = n"
  by (cases rule: read_cases [of n s]) (auto simp: rows_def in_heap_def mark_read_def image_iff intro!: bexI)

lemma read_missed: "fst (cached_read n s) = None \<Longrightarrow> n \<notin> bm_id ` set (rows s)"
  by (cases rule: read_cases [of n s]) auto

abbreviation owned :: "cached_store \<Rightarrow> int \<Rightarrow> string \<Rightarrow> nat \<Rightarrow> bool" where
  "owned s n cs ref \<equiv> bm_id (cs_heap s ! ref) = n \<and> (bm_from (cs_heap s ! ref) = cs \<or> bm_to (cs_heap s ! ref) = cs)"

lemma kill_cases [case_names refused killed]:
  assumes "cached_kill n c s = (False, s) \<Longrightarrow> P"
    and "\<And>refs ref later s1. cs_cache s = refs @ ref # later \<Longrightarrow> owned s n (js_upper c) ref \<Longrightarrow> s1 = s\<lparr>cs_cache := refs @ later\<rparr> \<Longrightarrow>
      cached_kill n c s = (True, if cs_kills s then start_write (Kill_op (js_upper c)) n s1 else s1) \<Longrightarrow> P"
  shows P
proof (cases "dropWhile (\<lambda>ref. \<not> owned s n (js_upper c) ref) (cs_cache s)")
  case Nil
  then show P using assms(1) unfolding cached_kill_def Let_def Nil by simp
next
  case (Cons ref later)
  let ?first = "takeWhile (\<lambda>ref. \<not> owned s n (js_upper c) ref) (cs_cache s)"
  have "?first @ dropWhile (\<lambda>ref. \<not> owned s n (js_upper c) ref) (cs_cache s) = cs_cache s" by (rule takeWhile_dropWhile_id)
  then have cache: "cs_cache s = ?first @ ref # later" unfolding Cons by simp
  have own: "owned s n (js_upper c) ref" using Cons hd_dropWhile [of "\<lambda>ref. \<not> owned s n (js_upper c) ref" "cs_cache s"] by simp
  show P by (rule assms(2) [OF cache own refl]) (unfold cached_kill_def Let_def Cons, simp)
qed

lemma kill_in_heap: "in_heap s \<Longrightarrow> in_heap (snd (cached_kill n c s))"
  by (cases rule: kill_cases [of n c s]) (auto simp: in_heap_def start_write_def)

lemma kill_rows:
  "fst (cached_kill n c s) \<Longrightarrow> \<exists>xs m ys. rows s = xs @ m # ys \<and> rows (snd (cached_kill n c s)) = xs @ ys \<and> bm_id m = n
        \<and> (bm_from m = js_upper c \<or> bm_to m = js_upper c)"
proof (cases rule: kill_cases [of n c s])
  case (killed refs ref later s1)
  then have "rows s = map ((!) (cs_heap s)) refs @ (cs_heap s ! ref) # map ((!) (cs_heap s)) later"
    "rows (snd (cached_kill n c s)) = map ((!) (cs_heap s)) refs @ map ((!) (cs_heap s)) later"
    by (simp_all add: rows_def start_write_def)
  then show ?thesis using killed(2) by blast
qed simp

lemma post_in_heap: "in_heap s \<Longrightarrow> in_heap (snd (cached_post p s))"
  by (auto simp: cached_post_def in_heap_def Let_def start_write_def)

lemma post_rows:
  "in_heap s \<Longrightarrow> \<exists>m. rows (snd (cached_post p s)) = rows s @ [m] \<and> posted_as p m \<and> bm_id m = fst (cached_post p s)"
  by (auto simp: cached_post_def rows_def in_heap_def Let_def posted_as_def nth_append start_write_def)

interpretation cached: message_store cached_ops rows in_heap
proof unfold_locales
  fix s n c p m
  show "in_heap s \<Longrightarrow> so_list_all cached_ops s = map meta_of (rows s)" by (simp add: cached_ops_def cached_list_all_def)
  show "in_heap s \<Longrightarrow> set (so_list_new cached_ops c s) \<subseteq> meta_of ` set (rows s)"
    by (auto simp: cached_ops_def cached_list_new_def Let_def)
  show "in_heap s \<Longrightarrow> set (so_list_bulletins cached_ops s) \<subseteq> meta_of ` set (rows s)"
    by (auto simp: cached_ops_def cached_list_bulletins_def)
  show "in_heap s \<Longrightarrow> set (so_list_mine cached_ops c s) \<subseteq> meta_of ` set (rows s)"
    by (auto simp: cached_ops_def cached_list_mine_def Let_def)
  show "in_heap s \<Longrightarrow> in_heap (snd (so_read cached_ops n s))" by (simp add: cached_ops_def read_in_heap)
  show "in_heap s \<Longrightarrow> map unread (rows (snd (so_read cached_ops n s))) = map unread (rows s)" by (simp add: cached_ops_def read_rows)
  show "in_heap s \<Longrightarrow> fst (so_read cached_ops n s) = Some m \<Longrightarrow> m \<in> set (rows (snd (so_read cached_ops n s))) \<and> bm_id m = n"
    using read_found [of s n m] by (simp add: cached_ops_def)
  show "in_heap s \<Longrightarrow> fst (so_read cached_ops n s) = None \<Longrightarrow> n \<notin> bm_id ` set (rows s)"
    using read_missed [of n s] by (simp add: cached_ops_def)
  show "in_heap s \<Longrightarrow> in_heap (snd (so_post cached_ops p s))" by (simp add: cached_ops_def post_in_heap)
  show "in_heap s \<Longrightarrow> \<exists>m. rows (snd (so_post cached_ops p s)) = rows s @ [m] \<and> posted_as p m \<and> bm_id m = fst (so_post cached_ops p s)"
    using post_rows by (simp add: cached_ops_def)
  show "in_heap s \<Longrightarrow> in_heap (snd (so_kill cached_ops n c s))" by (simp add: cached_ops_def kill_in_heap)
  show "in_heap s \<Longrightarrow> fst (so_kill cached_ops n c s) \<Longrightarrow>
      \<exists>xs m ys. rows s = xs @ m # ys \<and> rows (snd (so_kill cached_ops n c s)) = xs @ ys \<and> bm_id m = n
        \<and> (bm_from m = js_upper c \<or> bm_to m = js_upper c)"
    using kill_rows [of n c s] by (simp add: cached_ops_def)
  show "in_heap s \<Longrightarrow> \<not> fst (so_kill cached_ops n c s) \<Longrightarrow> rows (snd (so_kill cached_ops n c s)) = rows s"
    by (cases rule: kill_cases [of n c s]) (simp_all add: cached_ops_def)
qed

section \<open>Runs of the store\<close>

datatype store_event = Do_read int | Do_post bbs_post | Do_kill int string | Backend backend_event

fun store_step :: "cached_store \<Rightarrow> store_event \<Rightarrow> cached_store" where
  "store_step s (Do_read n) = snd (cached_read n s)"
| "store_step s (Do_post p) = snd (cached_post p s)"
| "store_step s (Do_kill n c) = snd (cached_kill n c s)"
| "store_step s (Backend e) = backend_step e s"

text \<open>
  A write in flight has been tried at most once more than the retries allow, and the row of a post in flight is the
  message posted, under its temporary id.
\<close>

definition job_ok :: "cached_store \<Rightarrow> write_job \<Rightarrow> bool" where
  "job_ok s j = (wj_attempt j \<le> cs_retries s \<and> (wj_asleep j \<longrightarrow> wj_attempt j < cs_retries s) \<and>
     (case wj_op j of Post_op ref p \<Rightarrow> ref < length (cs_heap s) \<and> posted_as p (cs_heap s ! ref) \<and> bm_id (cs_heap s ! ref) = wj_id j
      | Kill_op _ \<Rightarrow> True))"

definition post_ref :: "write_job \<Rightarrow> nat option" where
  "post_ref j = (case wj_op j of Post_op ref _ \<Rightarrow> Some ref | Kill_op _ \<Rightarrow> None)"

definition jobs_ok :: "cached_store \<Rightarrow> bool" where
  "jobs_ok s = ((\<forall>j\<in>set (cs_jobs s). job_ok s j) \<and> distinct (filter (\<lambda>r. r \<noteq> None) (map post_ref (cs_jobs s)))
     \<and> set (cs_failed s) = snd ` set (cs_errors s))"

text \<open>No message posted is dropped in silence: while its id is temporary its write is in flight or has been reported.\<close>

definition none_lost :: "cached_store \<Rightarrow> bool" where
  "none_lost s = (\<forall>ref<length (cs_heap s). bm_id (cs_heap s ! ref) < 0 \<longrightarrow>
     Some ref \<in> set (map post_ref (cs_jobs s)) \<or> (\<exists>p. (Post_op ref p, bm_id (cs_heap s ! ref)) \<in> set (cs_errors s)))"

definition store_inv :: "cached_store \<Rightarrow> bool" where
  "store_inv s = (in_heap s \<and> jobs_ok s \<and> none_lost s)"

text \<open>The ids the backend gives are not negative.\<close>

definition backend_ids :: "store_event \<Rightarrow> bool" where
  "backend_ids e = (case e of Backend (Loaded ms) \<Rightarrow> \<forall>m\<in>set ms. 0 \<le> bm_id m | Backend (Write_done _ real) \<Rightarrow> 0 \<le> real | _ \<Rightarrow> True)"

lemma set_drop_at: "set (drop_at i xs) \<subseteq> set xs"
  by (auto simp: drop_at_def dest: in_set_takeD in_set_dropD)

lemma split_at: "i < length xs \<Longrightarrow> xs = take i xs @ xs ! i # drop (Suc i) xs"
  by (simp add: id_take_nth_drop)

lemma set_drop_at_insert: "i < length xs \<Longrightarrow> set xs = insert (xs ! i) (set (drop_at i xs))"
  using split_at [of i xs] by (metis Un_insert_right drop_at_def list.simps(15) set_append)

lemma distinct_drop_at: "distinct (filter P (map f xs)) \<Longrightarrow> distinct (filter P (map f (drop_at i xs)))"
proof (cases "i < length xs")
  case True
  assume "distinct (filter P (map f xs))"
  then have "distinct (filter P (map f (take i xs @ xs ! i # drop (Suc i) xs)))" using split_at [OF True] by simp
  then show ?thesis by (auto simp: drop_at_def split: if_splits)
qed (simp add: drop_at_def)

lemma other_ref:
  assumes "distinct (filter (\<lambda>r. r \<noteq> None) (map post_ref js))" "i < length js" "j \<in> set (drop_at i js)" "post_ref (js ! i) = Some ref"
  shows "post_ref j \<noteq> Some ref"
proof -
  have "distinct (filter (\<lambda>r. r \<noteq> None) (map post_ref (take i js @ js ! i # drop (Suc i) js)))" using assms(1) split_at [OF assms(2)] by simp
  then have "Some ref \<notin> post_ref ` set (drop_at i js)" using assms(4) by (auto simp: drop_at_def)
  then show ?thesis using assms(3) by (metis imageI)
qed

lemma unread_same: "unread m' = unread m \<Longrightarrow> bm_id m' = bm_id m \<and> posted_as p m' = posted_as p m"
  by (cases m; cases m') (simp add: posted_as_def unread_def)

lemma heap_same_job_ok:
  assumes "job_ok s j" "length (cs_heap s) \<le> length (cs_heap t)" "cs_retries t = cs_retries s"
    and "\<And>ref. ref < length (cs_heap s) \<Longrightarrow> post_ref j = Some ref \<Longrightarrow> unread (cs_heap t ! ref) = unread (cs_heap s ! ref)"
  shows "job_ok t j"
proof (cases "wj_op j")
  case (Post_op ref p)
  then have "ref < length (cs_heap s)" "posted_as p (cs_heap s ! ref)" "bm_id (cs_heap s ! ref) = wj_id j"
    "wj_attempt j \<le> cs_retries s" "wj_asleep j \<longrightarrow> wj_attempt j < cs_retries s"
    using assms(1) by (simp_all add: job_ok_def)
  moreover have "unread (cs_heap t ! ref) = unread (cs_heap s ! ref)" using assms(4) Post_op calculation(1) by (simp add: post_ref_def)
  ultimately show ?thesis using assms(2,3) Post_op unread_same [of "cs_heap t ! ref" "cs_heap s ! ref" p] by (simp add: job_ok_def)
next
  case (Kill_op c)
  then show ?thesis using assms(1,3) by (simp add: job_ok_def)
qed

text \<open>An operation that leaves the writes alone and changes no row but for the read mark keeps both.\<close>

definition same_writes :: "cached_store \<Rightarrow> cached_store \<Rightarrow> bool" where
  "same_writes s t = (cs_jobs t = cs_jobs s \<and> cs_failed t = cs_failed s \<and> cs_errors t = cs_errors s \<and> cs_retries t = cs_retries s
     \<and> length (cs_heap s) \<le> length (cs_heap t) \<and> (\<forall>ref<length (cs_heap s). unread (cs_heap t ! ref) = unread (cs_heap s ! ref)))"

lemma same_writes_jobs: "same_writes s t \<Longrightarrow> jobs_ok s \<Longrightarrow> jobs_ok t"
  by (auto simp: same_writes_def jobs_ok_def intro: heap_same_job_ok)

lemma same_writes_lost:
  assumes "same_writes s t" "none_lost s" "\<forall>ref. length (cs_heap s) \<le> ref \<and> ref < length (cs_heap t) \<longrightarrow> 0 \<le> bm_id (cs_heap t ! ref)"
  shows "none_lost t"
  unfolding none_lost_def
proof (intro allI impI)
  fix ref
  assume r: "ref < length (cs_heap t)" "bm_id (cs_heap t ! ref) < 0"
  then have "ref < length (cs_heap s)" using assms(3) by (metis linorder_not_le)
  then have n: "bm_id (cs_heap t ! ref) = bm_id (cs_heap s ! ref)" using assms(1) unread_same [of "cs_heap t ! ref" "cs_heap s ! ref"] by (simp add: same_writes_def)
  then have "Some ref \<in> set (map post_ref (cs_jobs s)) \<or> (\<exists>p. (Post_op ref p, bm_id (cs_heap s ! ref)) \<in> set (cs_errors s))"
    using assms(2) [unfolded none_lost_def, rule_format, OF \<open>ref < length (cs_heap s)\<close>] r(2) by simp
  moreover have "cs_jobs t = cs_jobs s" "cs_errors t = cs_errors s" using assms(1) by (simp_all add: same_writes_def)
  ultimately show "Some ref \<in> set (map post_ref (cs_jobs t)) \<or> (\<exists>p. (Post_op ref p, bm_id (cs_heap t ! ref)) \<in> set (cs_errors t))"
    unfolding n by simp
qed

lemma read_same_writes: "in_heap s \<Longrightarrow> same_writes s (snd (cached_read n s)) \<and> length (cs_heap (snd (cached_read n s))) = length (cs_heap s)"
proof (cases rule: read_cases [of n s])
  case (marked ref)
  assume "in_heap s"
  then have "ref < length (cs_heap s)" using marked(1) by (simp add: in_heap_def)
  then show ?thesis using marked mark_read_nth [of ref s] by (simp add: same_writes_def) (simp add: mark_read_def)
qed (simp_all add: same_writes_def)

lemma job_ok_cong: "cs_heap t = cs_heap s \<Longrightarrow> cs_retries t = cs_retries s \<Longrightarrow> job_ok t = job_ok s"
  by (simp add: fun_eq_iff job_ok_def split: write_op.split)

lemma start_kill_ok:
  assumes "jobs_ok s" "none_lost s"
  shows "jobs_ok (start_write (Kill_op c) n s) \<and> none_lost (start_write (Kill_op c) n s)"
proof -
  let ?t = "start_write (Kill_op c) n s" and ?j = "\<lparr>wj_op = Kill_op c, wj_id = n, wj_attempt = 0, wj_asleep = False\<rparr>"
  have t: "cs_jobs ?t = cs_jobs s @ [?j]" "cs_heap ?t = cs_heap s" "cs_retries ?t = cs_retries s" "cs_failed ?t = cs_failed s" "cs_errors ?t = cs_errors s"
    by (simp_all add: start_write_def)
  have "post_ref ?j = None" "job_ok s ?j" by (simp_all add: post_ref_def job_ok_def)
  then show ?thesis using assms job_ok_cong [OF t(2,3)] unfolding jobs_ok_def none_lost_def t by auto
qed

lemma kill_inv: "jobs_ok s \<Longrightarrow> none_lost s \<Longrightarrow> jobs_ok (snd (cached_kill n c s)) \<and> none_lost (snd (cached_kill n c s))"
proof (cases rule: kill_cases [of n c s])
  case (killed refs ref later s1)
  assume "jobs_ok s" "none_lost s"
  then have "jobs_ok s1 \<and> none_lost s1" using killed(3) job_ok_cong [of s1 s] by (simp add: jobs_ok_def none_lost_def)
  then show ?thesis using killed(4) start_kill_ok by simp
qed simp

lemma post_inv:
  assumes "jobs_ok s" "none_lost s"
  shows "jobs_ok (snd (cached_post p s))" "none_lost (snd (cached_post p s))"
proof -
  let ?m = "\<lparr>bm_id = cs_temp s, bm_type = bp_type p, bm_from = js_upper (bp_from p), bm_to = js_upper (bp_to p), bm_subject = bp_subject p,
               bm_posted_at = cs_now s div 1000, bm_body = bp_body p, bm_reply_to = bp_reply_to p, bm_read_at = None\<rparr>"
  let ?j = "\<lparr>wj_op = Post_op (length (cs_heap s)) p, wj_id = cs_temp s, wj_attempt = 0, wj_asleep = False\<rparr>"
  define t where "t = snd (cached_post p s)"
  have t: "cs_jobs t = cs_jobs s @ [?j]" "cs_heap t = cs_heap s @ [?m]" "cs_retries t = cs_retries s" "cs_failed t = cs_failed s" "cs_errors t = cs_errors s"
    by (simp_all add: t_def cached_post_def Let_def start_write_def)
  have old: "job_ok t j" if "job_ok s j" for j
    by (rule heap_same_job_ok [OF that]) (simp_all add: t nth_append)
  have "job_ok t ?j" "post_ref ?j = Some (length (cs_heap s))" by (simp_all add: job_ok_def t posted_as_def post_ref_def)
  moreover have "Some (length (cs_heap s)) \<notin> post_ref ` set (cs_jobs s)"
    using assms(1) by (force simp: jobs_ok_def job_ok_def post_ref_def split: write_op.splits)
  ultimately show "jobs_ok (snd (cached_post p s))" using assms(1) old unfolding t_def [symmetric] jobs_ok_def t by auto
  show "none_lost (snd (cached_post p s))" unfolding t_def [symmetric] none_lost_def
  proof (intro allI impI)
    fix ref
    assume r: "ref < length (cs_heap t)" "bm_id (cs_heap t ! ref) < 0"
    show "Some ref \<in> set (map post_ref (cs_jobs t)) \<or> (\<exists>q. (Post_op ref q, bm_id (cs_heap t ! ref)) \<in> set (cs_errors t))"
    proof (cases "ref = length (cs_heap s)")
      case True
      then show ?thesis by (simp add: t post_ref_def)
    next
      case False
      then have "ref < length (cs_heap s)" "cs_heap t ! ref = cs_heap s ! ref" using r by (simp_all add: t nth_append)
      then show ?thesis using assms(2) r unfolding none_lost_def t by auto
    qed
  qed
qed

lemma refreshed_same_writes: "same_writes s (refreshed ms s)"
  by (simp add: refreshed_def same_writes_def nth_append)

lemma update_job:
  assumes "jobs_ok s" "none_lost s" "i < length (cs_jobs s)" "post_ref j = post_ref (cs_jobs s ! i)" "job_ok s j"
    and t: "cs_jobs t = (cs_jobs s)[i := j]" "cs_heap t = cs_heap s" "cs_retries t = cs_retries s" "cs_failed t = cs_failed s" "cs_errors t = cs_errors s"
  shows "jobs_ok t \<and> none_lost t"
proof -
  have "map post_ref ((cs_jobs s)[i := j]) = map post_ref (cs_jobs s)"
    using assms(3,4) by (simp add: map_update) (metis length_map list_update_id nth_map)
  moreover have "\<forall>k\<in>set ((cs_jobs s)[i := j]). job_ok s k"
    using assms(1,5) set_update_subset_insert [of "cs_jobs s" i j] by (auto simp: jobs_ok_def)
  ultimately show ?thesis using assms(1,2) job_ok_cong [OF t(2,3)] unfolding jobs_ok_def none_lost_def t by metis
qed

lemma job_retry_ok:
  "job_ok s j \<Longrightarrow> n \<le> cs_retries s \<Longrightarrow> job_ok s (j\<lparr>wj_attempt := n, wj_asleep := False\<rparr>)"
  "job_ok s j \<Longrightarrow> wj_attempt j < cs_retries s \<Longrightarrow> job_ok s (j\<lparr>wj_asleep := True\<rparr>)"
  by (simp_all add: job_ok_def split: write_op.splits)

text \<open>A failed attempt is made again at once it has slept, as long as retries remain.\<close>

lemma wake_inv:
  assumes "jobs_ok s" "none_lost s"
  shows "jobs_ok (write_wakes i s) \<and> none_lost (write_wakes i s)"
proof (cases "i < length (cs_jobs s) \<and> wj_asleep (cs_jobs s ! i)")
  case True
  let ?j = "cs_jobs s ! i"
  have "job_ok s ?j" "wj_attempt ?j + 1 \<le> cs_retries s" using assms(1) True by (auto simp: jobs_ok_def job_ok_def Suc_le_eq)
  then have "job_ok s (?j\<lparr>wj_attempt := wj_attempt ?j + 1, wj_asleep := False\<rparr>)" by (rule job_retry_ok(1))
  then show ?thesis
    using update_job [OF assms(1,2) conjunct1 [OF True], of "?j\<lparr>wj_attempt := wj_attempt ?j + 1, wj_asleep := False\<rparr>" "write_wakes i s"] True
    by (simp add: write_wakes_def Let_def post_ref_def)
qed (use assms in \<open>auto simp: write_wakes_def\<close>)

lemma drop_job:
  assumes "jobs_ok s" "i < length (cs_jobs s)" "cs_jobs t = drop_at i (cs_jobs s)" "cs_retries t = cs_retries s"
    and "length (cs_heap t) = length (cs_heap s)" "set (cs_failed t) = snd ` set (cs_errors t)"
    and "\<And>ref. post_ref (cs_jobs s ! i) \<noteq> Some ref \<Longrightarrow> cs_heap t ! ref = cs_heap s ! ref"
  shows "jobs_ok t"
proof -
  have "job_ok t j" if "j \<in> set (drop_at i (cs_jobs s))" for j
  proof (rule heap_same_job_ok)
    show "job_ok s j" using assms(1) that set_drop_at [of i "cs_jobs s"] by (auto simp: jobs_ok_def)
    show "unread (cs_heap t ! ref) = unread (cs_heap s ! ref)" if "post_ref j = Some ref" for ref
    proof -
      have "post_ref (cs_jobs s ! i) \<noteq> Some ref"
        using other_ref [of "cs_jobs s" i j ref] assms(1,2) that \<open>j \<in> _\<close> unfolding jobs_ok_def by blast
      then show ?thesis using assms(7) by simp
    qed
  qed (use assms in simp_all)
  then show ?thesis using assms(1,3,6) distinct_drop_at by (auto simp: jobs_ok_def)
qed

lemma done_inv:
  assumes "jobs_ok s" "none_lost s" "0 \<le> real"
  shows "jobs_ok (write_done i real s) \<and> none_lost (write_done i real s)"
proof (cases "i < length (cs_jobs s) \<and> \<not> wj_asleep (cs_jobs s ! i)")
  case True
  define t where "t = write_done i real s"
  have j: "job_ok s (cs_jobs s ! i)" using assms(1) True by (simp add: jobs_ok_def)
  have t: "cs_jobs t = drop_at i (cs_jobs s)" "cs_retries t = cs_retries s" "cs_failed t = cs_failed s" "cs_errors t = cs_errors s"
    "length (cs_heap t) = length (cs_heap s)"
    using True by (auto simp: t_def write_done_def Let_def split: write_op.split)
  have heap: "cs_heap t ! ref = cs_heap s ! ref" if "post_ref (cs_jobs s ! i) \<noteq> Some ref" for ref
    using True that by (auto simp: t_def write_done_def Let_def post_ref_def split: write_op.split)
  have "jobs_ok t" using drop_job [OF assms(1) _ t(1,2,5)] True t heap assms(1) by (simp add: jobs_ok_def)
  moreover have "none_lost t" unfolding none_lost_def
  proof (intro allI impI)
    fix ref
    assume r: "ref < length (cs_heap t)" "bm_id (cs_heap t ! ref) < 0"
    have other: "post_ref (cs_jobs s ! i) \<noteq> Some ref"
    proof
      assume p: "post_ref (cs_jobs s ! i) = Some ref"
      then obtain p where "wj_op (cs_jobs s ! i) = Post_op ref p" by (auto simp: post_ref_def split: write_op.splits)
      then have "bm_id (cs_heap t ! ref) = real" using True j by (simp add: t_def write_done_def Let_def job_ok_def)
      then show False using r assms(3) by simp
    qed
    then have "Some ref \<in> set (map post_ref (cs_jobs s)) \<or> (\<exists>p. (Post_op ref p, bm_id (cs_heap s ! ref)) \<in> set (cs_errors s))"
      using assms(2) r heap [OF other] t(5) unfolding none_lost_def by simp
    moreover have "Some ref \<in> set (map post_ref (cs_jobs t))" if "Some ref \<in> set (map post_ref (cs_jobs s))"
      using that other True set_drop_at_insert [of i "cs_jobs s"] by (auto simp: t)
    ultimately show "Some ref \<in> set (map post_ref (cs_jobs t)) \<or> (\<exists>p. (Post_op ref p, bm_id (cs_heap t ! ref)) \<in> set (cs_errors t))"
      using heap [OF other] t(4) by auto
  qed
  ultimately show ?thesis by (simp add: t_def)
qed (use assms in \<open>auto simp: write_done_def\<close>)

lemma fails_inv:
  assumes "jobs_ok s" "none_lost s"
  shows "jobs_ok (write_fails i s) \<and> none_lost (write_fails i s)"
proof (cases "i < length (cs_jobs s) \<and> \<not> wj_asleep (cs_jobs s ! i)")
  case True
  let ?j = "cs_jobs s ! i"
  have j: "job_ok s ?j" using assms(1) True by (simp add: jobs_ok_def)
  show ?thesis
  proof (cases "wj_attempt ?j < cs_retries s")
    case retry: True
    have "job_ok s (?j\<lparr>wj_asleep := True\<rparr>)" using job_retry_ok(2) [OF j retry] .
    then show ?thesis
      using update_job [OF assms conjunct1 [OF True], of "?j\<lparr>wj_asleep := True\<rparr>" "write_fails i s"] True retry
      by (simp add: write_fails_def Let_def post_ref_def)
  next
    case False
    define t where "t = write_fails i s"
    have t: "cs_jobs t = drop_at i (cs_jobs s)" "cs_heap t = cs_heap s" "cs_retries t = cs_retries s"
      "cs_errors t = cs_errors s @ [(wj_op ?j, wj_id ?j)]" "set (cs_failed t) = insert (wj_id ?j) (set (cs_failed s))"
      using True False by (auto simp: t_def write_fails_def Let_def)
    have "set (cs_failed t) = snd ` set (cs_errors t)" using assms(1) t by (simp add: jobs_ok_def)
    then have "jobs_ok t" using drop_job [OF assms(1) _ t(1,3)] True t(2) by simp
    moreover have "none_lost t" unfolding none_lost_def
    proof (intro allI impI)
      fix ref
      assume "ref < length (cs_heap t)" "bm_id (cs_heap t ! ref) < 0"
      then have "Some ref \<in> set (map post_ref (cs_jobs s)) \<or> (\<exists>p. (Post_op ref p, bm_id (cs_heap s ! ref)) \<in> set (cs_errors s))"
        using assms(2) t(2) unfolding none_lost_def by simp
      moreover have "\<exists>p. (Post_op ref p, bm_id (cs_heap s ! ref)) \<in> set (cs_errors t)" if "post_ref ?j = Some ref"
        using that j t(4) by (auto simp: post_ref_def job_ok_def split: write_op.splits)
      moreover have "Some ref \<in> set (map post_ref (cs_jobs t))" if "Some ref \<in> set (map post_ref (cs_jobs s))" "post_ref ?j \<noteq> Some ref"
        using that True set_drop_at_insert [of i "cs_jobs s"] by (auto simp: t)
      ultimately show "Some ref \<in> set (map post_ref (cs_jobs t)) \<or> (\<exists>p. (Post_op ref p, bm_id (cs_heap t ! ref)) \<in> set (cs_errors t))"
        using t(2,4) by auto
    qed
    ultimately show ?thesis by (simp add: t_def)
  qed
qed (use assms in \<open>auto simp: write_fails_def\<close>)

lemma write_fields [simp]:
  "cs_cache (write_done i real s) = cs_cache s" "cs_cache (write_fails i s) = cs_cache s" "cs_cache (write_wakes i s) = cs_cache s"
  "length (cs_heap (write_done i real s)) = length (cs_heap s)" "cs_heap (write_fails i s) = cs_heap s" "cs_heap (write_wakes i s) = cs_heap s"
  by (auto simp: write_done_def write_fails_def write_wakes_def Let_def split: write_op.split)

lemma store_step_inv: "store_inv s \<Longrightarrow> backend_ids e \<Longrightarrow> store_inv (store_step s e)"
proof -
  assume inv: "store_inv s" and ids: "backend_ids e"
  then have s: "in_heap s" "jobs_ok s" "none_lost s" by (simp_all add: store_inv_def)
  show "store_inv (store_step s e)"
  proof (cases e)
    case (Do_read n)
    then show ?thesis using read_same_writes [OF s(1), of n] read_in_heap [OF s(1)] same_writes_jobs same_writes_lost [OF _ s(3)] s(2)
      by (auto simp: store_inv_def)
  next
    case (Do_post p)
    then show ?thesis using post_in_heap [OF s(1)] post_inv [OF s(2,3)] by (simp add: store_inv_def)
  next
    case (Do_kill n c)
    then show ?thesis using kill_in_heap [OF s(1)] kill_inv [OF s(2,3)] by (simp add: store_inv_def)
  next
    case (Backend b)
    show ?thesis
    proof (cases b)
      case (Clock t)
      have "same_writes s (s\<lparr>cs_now := t\<rparr>)" by (simp add: same_writes_def)
      then have "jobs_ok (s\<lparr>cs_now := t\<rparr>)" using s(2) by (rule same_writes_jobs)
      then show ?thesis using s Clock Backend by (simp add: store_inv_def in_heap_def none_lost_def)
    next
      case (Loaded ms)
      have "\<forall>ref. length (cs_heap s) \<le> ref \<and> ref < length (cs_heap (refreshed ms s)) \<longrightarrow> 0 \<le> bm_id (cs_heap (refreshed ms s) ! ref)"
        using ids Backend Loaded by (auto simp: backend_ids_def refreshed_def nth_append)
      then have "none_lost (refreshed ms s)" by (rule same_writes_lost [OF refreshed_same_writes s(3)])
      moreover have "jobs_ok (refreshed ms s)" by (rule same_writes_jobs [OF refreshed_same_writes s(2)])
      ultimately show ?thesis using Backend Loaded by (simp add: store_inv_def) (simp add: in_heap_def refreshed_def)
    next
      case (Write_done i real)
      then show ?thesis using done_inv [OF s(2,3), of real i] ids Backend s(1) by (simp add: store_inv_def backend_ids_def in_heap_def)
    next
      case (Write_fails i)
      then show ?thesis using fails_inv [OF s(2,3), of i] Backend s(1) by (simp add: store_inv_def in_heap_def)
    next
      case (Write_wakes i)
      then show ?thesis using wake_inv [OF s(2,3), of i] Backend s(1) by (simp add: store_inv_def in_heap_def)
    qed
  qed
qed

interpretation store: invariant_machine store_step store_inv "\<lambda>_. backend_ids"
  by unfold_locales (rule store_step_inv)

lemma new_store_inv: "store_inv (new_cached_store call retries marks kills)"
  by (simp add: store_inv_def new_cached_store_def in_heap_def jobs_ok_def none_lost_def)

lemma store_step_retries: "cs_retries (store_step s e) = cs_retries s"
proof (cases e)
  case (Do_read n)
  then show ?thesis by (cases rule: read_cases [of n s]) simp_all
next
  case (Do_kill n c)
  then show ?thesis by (cases rule: kill_cases [of n c s]) (simp_all add: start_write_def)
next
  case (Backend b)
  then show ?thesis
    by (cases b) (auto simp: refreshed_def write_done_def write_fails_def write_wakes_def Let_def split: write_op.split)
qed (simp add: cached_post_def Let_def start_write_def)

lemma store_retries: "cs_retries (foldl store_step s es) = cs_retries s"
  by (induction es arbitrary: s) (simp_all add: store_step_retries)

text \<open>C33: No post is dropped in silence: while a message still has a temporary id, its write is in flight within the retries allowed,
  or it has been flagged as failed.\<close>

theorem no_post_lost:
  assumes "\<forall>e\<in>set es. backend_ids e"
  shows "\<forall>ref<length (cs_heap (foldl store_step (new_cached_store call retries marks kills) es)).
    let s = foldl store_step (new_cached_store call retries marks kills) es; m = cs_heap s ! ref
    in bm_id m < 0 \<longrightarrow> (\<exists>j\<in>set (cs_jobs s). post_ref j = Some ref \<and> wj_attempt j \<le> retries) \<or> bm_id m \<in> set (cs_failed s)"
proof -
  define s where "s = foldl store_step (new_cached_store call retries marks kills) es"
  have "store_inv s" unfolding s_def using assms by (intro store.run_inv_foldl [OF new_store_inv]) auto
  then have "jobs_ok s" "none_lost s" by (simp_all add: store_inv_def)
  moreover have "cs_retries s = retries" using store_retries [of "new_cached_store call retries marks kills" es] by (simp add: s_def new_cached_store_def)
  ultimately show ?thesis unfolding s_def [symmetric] Let_def
    by (force simp: jobs_ok_def none_lost_def job_ok_def image_iff)
qed

section \<open>What the caller can see and change\<close>

text \<open>Every row of the snapshot was loaded for the caller or posted in the session; only the read mark and the id of a post change.\<close>

definition loaded :: "store_event list \<Rightarrow> bbs_full set" where
  "loaded es = {m. \<exists>ms. Backend (Loaded ms) \<in> set es \<and> m \<in> set ms}"

definition from_session :: "store_event list \<Rightarrow> bbs_full \<Rightarrow> bool" where
  "from_session es m = ((\<exists>r\<in>loaded es. unread m = unread r) \<or> (\<exists>p. Do_post p \<in> set es \<and> posted_as p m))"

definition heap_from :: "store_event list \<Rightarrow> cached_store \<Rightarrow> bool" where
  "heap_from es s = ((\<forall>m\<in>set (cs_heap s). from_session es m) \<and>
     (\<forall>j\<in>set (cs_jobs s). case wj_op j of Post_op _ p \<Rightarrow> Do_post p \<in> set es | Kill_op _ \<Rightarrow> True))"

lemma from_session_mono: "set es \<subseteq> set es' \<Longrightarrow> from_session es m \<Longrightarrow> from_session es' m"
  by (fastforce simp: from_session_def loaded_def)

lemma heap_from_grow:
  assumes "heap_from es s" "set es \<subseteq> set es'"
    and "\<And>m. m \<in> set (cs_heap t) \<Longrightarrow> (\<exists>m'\<in>set (cs_heap s). unread m = unread m') \<or> from_session es' m"
    and "\<And>j ref p. j \<in> set (cs_jobs t) \<Longrightarrow> wj_op j = Post_op ref p \<Longrightarrow>
      (\<exists>k\<in>set (cs_jobs s). wj_op k = Post_op ref p) \<or> Do_post p \<in> set es'"
  shows "heap_from es' t"
proof -
  have "from_session es' m" if "m \<in> set (cs_heap t)" for m
  proof (rule disjE [OF assms(3) [OF that]])
    assume "\<exists>m'\<in>set (cs_heap s). unread m = unread m'"
    then obtain m' where m: "m' \<in> set (cs_heap s)" "unread m = unread m'" by blast
    have "from_session es' m'" using assms(1,2) m(1) from_session_mono by (auto simp: heap_from_def)
    then show ?thesis using m(2) unread_same [OF m(2)] by (auto simp: from_session_def)
  qed
  moreover have "case wj_op j of Post_op _ p \<Rightarrow> Do_post p \<in> set es' | Kill_op _ \<Rightarrow> True" if "j \<in> set (cs_jobs t)" for j
  proof (cases "wj_op j")
    case (Post_op ref p)
    then show ?thesis using assms(4) [OF that Post_op] assms(1,2) by (fastforce simp: heap_from_def split: write_op.splits)
  qed simp
  ultimately show ?thesis by (simp add: heap_from_def)
qed

lemma in_list_update: "x \<in> set (xs[i := y]) \<Longrightarrow> x = y \<or> x \<in> set xs"
  using set_update_subset_insert [of xs i y] by blast

lemma heap_from_step:
  assumes h: "heap_from es s" and inv: "in_heap s" "jobs_ok s"
  shows "heap_from (es @ [e]) (store_step s e)"
proof (cases e)
  case (Do_read n)
  show ?thesis
  proof (cases rule: read_cases [of n s])
    case (marked ref)
    then have "cs_heap s ! ref \<in> set (cs_heap s)" using inv(1) by (simp add: in_heap_def)
    moreover have "unread ((cs_heap s ! ref)\<lparr>bm_read_at := Some 1\<rparr>) = unread (cs_heap s ! ref)" by (simp add: unread_def)
    ultimately show ?thesis using marked(6) Do_read
      by (intro heap_from_grow [OF h]) (auto simp: mark_read_def dest!: in_list_update)
  qed (use Do_read in \<open>auto intro!: heap_from_grow [OF h]\<close>)
next
  case (Do_post p)
  then show ?thesis
    by (intro heap_from_grow [OF h]) (auto simp: cached_post_def Let_def start_write_def from_session_def posted_as_def)
next
  case (Do_kill n c)
  then show ?thesis
    by (cases rule: kill_cases [of n c s]) (auto simp: start_write_def intro!: heap_from_grow [OF h])
next
  case (Backend b)
  show ?thesis
  proof (cases b)
    case (Clock t)
    then show ?thesis using Backend by (auto intro!: heap_from_grow [OF h])
  next
    case (Loaded ms)
    then show ?thesis using Backend by (intro heap_from_grow [OF h]) (auto simp: refreshed_def from_session_def loaded_def)
  next
    case (Write_fails i)
    then show ?thesis using Backend
      by (intro heap_from_grow [OF h]) (auto simp: write_fails_def Let_def dest!: in_list_update dest: set_drop_at [THEN subsetD] split: if_splits)
  next
    case (Write_wakes i)
    then show ?thesis using Backend
      by (intro heap_from_grow [OF h]) (auto simp: write_wakes_def Let_def dest!: in_list_update split: if_splits)
  next
    case (Write_done i real)
    show ?thesis
    proof (cases "i < length (cs_jobs s) \<and> \<not> wj_asleep (cs_jobs s ! i)")
      case True
      let ?j = "cs_jobs s ! i"
      have j: "?j \<in> set (cs_jobs s)" using True by simp
      show ?thesis
      proof (cases "wj_op ?j")
        case (Post_op ref p)
        have "posted_as p (cs_heap s ! ref)" "Do_post p \<in> set es"
          using Post_op j h inv(2) by (force simp: jobs_ok_def job_ok_def heap_from_def)+
        then have "from_session (es @ [e]) ((cs_heap s ! ref)\<lparr>bm_id := real\<rparr>)" by (auto simp: from_session_def posted_as_def)
        then show ?thesis using Post_op True Backend Write_done
          by (intro heap_from_grow [OF h]) (auto simp: write_done_def dest!: in_list_update dest: set_drop_at [THEN subsetD])
      next
        case (Kill_op c)
        then show ?thesis using True Backend Write_done
          by (intro heap_from_grow [OF h]) (auto simp: write_done_def dest: set_drop_at [THEN subsetD])
      qed
    qed (use Backend Write_done in \<open>auto simp: write_done_def intro!: heap_from_grow [OF h]\<close>)
  qed
qed

lemma heap_from_run:
  "\<forall>e\<in>set es. backend_ids e \<Longrightarrow> heap_from es (foldl store_step (new_cached_store call retries marks kills) es)"
proof (induction es rule: rev_induct)
  case Nil
  show ?case by (simp add: heap_from_def new_cached_store_def)
next
  case (snoc e es)
  let ?s = "foldl store_step (new_cached_store call retries marks kills) es"
  have "store_inv ?s" using snoc.prems by (intro store.run_inv_foldl [OF new_store_inv]) auto
  then have "in_heap ?s" "jobs_ok ?s" by (simp_all add: store_inv_def)
  then show ?case using heap_from_step snoc by simp
qed

lemma rows_in_heap: "in_heap s \<Longrightarrow> set (rows s) \<subseteq> set (cs_heap s)"
  by (auto simp: rows_def in_heap_def)

text \<open>C26: Every message a caller can list or read was loaded for the caller or posted in the session, and nothing of it has changed
  but the read mark and the id its write was given.\<close>

theorem snapshot_is_the_boundary:
  assumes "\<forall>e\<in>set es. backend_ids e"
  shows "(\<forall>m\<in>set (rows (foldl store_step (new_cached_store call retries marks kills) es)). from_session es m) \<and>
    (case fst (cached_read n (foldl store_step (new_cached_store call retries marks kills) es)) of
       None \<Rightarrow> True | Some m \<Rightarrow> bm_id m = n \<and> from_session (es @ [Do_read n]) m)"
proof
  let ?s = "foldl store_step (new_cached_store call retries marks kills) es"
  have "store_inv ?s" using assms by (intro store.run_inv_foldl [OF new_store_inv]) auto
  then have inv: "in_heap ?s" "jobs_ok ?s" by (simp_all add: store_inv_def)
  show "\<forall>m\<in>set (rows ?s). from_session es m"
    using heap_from_run [OF assms, of call retries marks kills] rows_in_heap [OF inv(1)] by (auto simp: heap_from_def)
  have h: "heap_from (es @ [Do_read n]) (snd (cached_read n ?s))"
    using heap_from_step [OF heap_from_run [OF assms] inv, of "Do_read n"] by simp
  show "case fst (cached_read n ?s) of None \<Rightarrow> True | Some m \<Rightarrow> bm_id m = n \<and> from_session (es @ [Do_read n]) m"
  proof (cases "fst (cached_read n ?s)")
    case (Some m)
    then have "m \<in> set (cs_heap (snd (cached_read n ?s)))" "bm_id m = n"
      using read_found [OF inv(1) Some] rows_in_heap [OF read_in_heap [OF inv(1)]] by auto
    then show ?thesis using h Some by (simp add: heap_from_def)
  qed simp
qed

text \<open>
  A message killed before its write has been answered is gone from the session and stays with the backend: the kill
  names the temporary id, which the backend never saw.
\<close>

lemma kill_last:
  assumes "cs_cache s = refs @ [ref]" "\<forall>r\<in>set refs. bm_id (cs_heap s ! r) \<noteq> n" "owned s n (js_upper c) ref" "cs_kills s"
  shows "cached_kill n c s = (True, start_write (Kill_op (js_upper c)) n (s\<lparr>cs_cache := refs\<rparr>))"
proof -
  have "dropWhile (\<lambda>ref. \<not> owned s n (js_upper c) ref) (refs @ [ref]) = [ref]"
    "takeWhile (\<lambda>ref. \<not> owned s n (js_upper c) ref) (refs @ [ref]) = refs"
    using assms(2,3) by (auto simp: dropWhile_append2 takeWhile_append2)
  then show ?thesis using assms(4) unfolding cached_kill_def Let_def assms(1) by simp
qed

theorem killed_draft_survives:
  assumes "in_heap s" "cs_kills s" "cs_jobs s = []" "\<forall>m\<in>set (rows s). bm_id m \<noteq> cs_temp s"
  shows "\<exists>s1 s2. cached_post p s = (cs_temp s, s1) \<and> cached_kill (cs_temp s) (bp_from p) s1 = (True, s2) \<and> rows s2 = rows s
    \<and> (let s3 = write_done 0 k (write_done 0 real s2)
       in cs_jobs s3 = [] \<and> cs_calls s3 = cs_calls s @ [Call_post p, Call_kill (cs_temp s) (js_upper (bp_from p))])"
proof -
  define s1 where "s1 = snd (cached_post p s)"
  let ?r = "length (cs_heap s)" and ?c = "js_upper (bp_from p)"
  have s1: "cached_post p s = (cs_temp s, s1)" "cs_cache s1 = cs_cache s @ [?r]" "owned s1 (cs_temp s) ?c ?r" "cs_kills s1"
    "cs_jobs s1 = [\<lparr>wj_op = Post_op ?r p, wj_id = cs_temp s, wj_attempt = 0, wj_asleep = False\<rparr>]"
    "cs_calls s1 = cs_calls s @ [Call_post p]" "\<forall>i<?r. cs_heap s1 ! i = cs_heap s ! i"
    using assms(2,3) by (simp_all add: s1_def cached_post_def Let_def start_write_def call_of_def nth_append)
  have "\<forall>r\<in>set (cs_cache s). bm_id (cs_heap s1 ! r) \<noteq> cs_temp s"
    using assms(1,4) s1(7) by (auto simp: rows_def in_heap_def)
  then have k: "cached_kill (cs_temp s) (bp_from p) s1 = (True, start_write (Kill_op ?c) (cs_temp s) (s1\<lparr>cs_cache := cs_cache s\<rparr>))"
    using kill_last [OF s1(2) _ s1(3,4)] by simp
  have "rows (s1\<lparr>cs_cache := cs_cache s\<rparr>) = rows s" using assms(1) s1(7) by (auto simp: rows_def in_heap_def)
  then show ?thesis using s1(1,5,6) k by (simp add: start_write_def write_done_def drop_at_def call_of_def rows_def Let_def)
qed

section \<open>Concrete runs\<close>

definition hello_post :: bbs_post where
  "hello_post = \<lparr>bp_type = Personal, bp_from = ''N0CALL'', bp_to = ''W1AW'', bp_subject = Some ''Hi'', bp_body = ''Hello'', bp_reply_to = None\<rparr>"

lemma no_post_lost_witness:
  "\<exists>s. s = foldl store_step (new_cached_store ''N0CALL'' 0 True True) [Do_post hello_post, Backend (Write_fails 0)] \<and> length (cs_heap s) = 1 \<and>
     ((\<exists>j\<in>set (cs_jobs s). post_ref j = Some 0 \<and> wj_attempt j \<le> 0) \<or> bm_id (cs_heap s ! 0) \<in> set (cs_failed s))"
proof -
  let ?s = "foldl store_step (new_cached_store ''N0CALL'' 0 True True) [Do_post hello_post, Backend (Write_fails 0)]"
  have "length (cs_heap ?s) = 1" "bm_id (cs_heap ?s ! 0) < 0"
    by (simp_all add: new_cached_store_def cached_post_def start_write_def write_fails_def hello_post_def Let_def)
  moreover have "\<forall>e\<in>set [Do_post hello_post, Backend (Write_fails 0)]. backend_ids e" by (simp add: backend_ids_def)
  ultimately show ?thesis using no_post_lost [of "[Do_post hello_post, Backend (Write_fails 0)]" "''N0CALL''" 0 True True] unfolding Let_def by fastforce
qed

lemma snapshot_is_the_boundary_witness:
  "list_all (from_session [Do_post hello_post]) (rows (foldl store_step (new_cached_store ''N0CALL'' 3 True True) [Do_post hello_post]))"
  using snapshot_is_the_boundary [of "[Do_post hello_post]" "''N0CALL''" 3 True True 0] by (simp add: backend_ids_def list_all_iff del: foldl_Cons)

lemma killed_draft_survives_witness:
  "\<exists>s1 s2. cached_post hello_post (new_cached_store ''N0CALL'' 3 True True) = (- 1, s1) \<and> cached_kill (- 1) ''N0CALL'' s1 = (True, s2)
    \<and> cs_calls (write_done 0 0 (write_done 0 77 s2)) = [Call_post hello_post, Call_kill (- 1) (js_upper ''N0CALL'')]"
  using killed_draft_survives [of "new_cached_store ''N0CALL'' 3 True True" hello_post 0 77]
  by (auto simp: new_cached_store_def in_heap_def rows_def hello_post_def Let_def)

end
