(* ===== verification/Bbs_Session.thy ===== *)
theory Bbs_Session
  imports Bbs_Store
begin

text \<open>
  The command interpreter of the BBS, \<open>BbsSession\<close> of \<open>packages/packet/src/bbs.ts\<close>, over any message store: the
  commands, the listings, reading, killing and the collection of a message. Message numbers are decimal integers.
\<close>

section \<open>Text\<close>

datatype send_stage = Subject_stage | Body_stage

record pending =
  pd_type :: bbs_type
  pd_to :: string
  pd_subject :: "string option"
  pd_reply_to :: "int option"
  pd_body :: "string list"
  pd_bytes :: nat
  pd_stage :: send_stage

definition MAX_BODY_BYTES :: nat where
  "MAX_BODY_BYTES = 32 * 1024"

definition pad_to :: "nat \<Rightarrow> string \<Rightarrow> string" where
  "pad_to n s = (if n \<le> length s then take n s else s @ replicate (n - length s) (CHR '' ''))"

definition fmt_row :: "bbs_meta \<Rightarrow> string" where
  "fmt_row m = js_trim_end (pad_to 5 (int_str (bm_id m)) @ '' '' @ type_letter (bm_type m) @ ''  '' @ pad_to 9 (bm_to m) @ '' ''
     @ pad_to 9 (bm_from m) @ '' '' @ (case bm_subject m of None \<Rightarrow> [] | Some t \<Rightarrow> t))"

definition QUOTE :: string where
  "QUOTE = [CHR 0x22]"

definition HELP :: "string list" where
  "HELP = [''Commands:'',
     ''  L            list new        LA  list all      LB  bulletins'',
     ''  LM           list mine       LL n  last n'',
     ''  R n [n...]   read message(s)'',
     ''  S/SP call    send personal   SB cat  bulletin   ST call  traffic'',
     ''  SR [n]       reply to message n (or the last read)'',
     ''  K n          kill a message  A   abort a send'',
     ''  X            toggle expert   H/?  help          B   bye'']"

text \<open>\<open>input.replace(/\r?\n?$/, "")\<close>\<close>

definition strip_eol :: "string \<Rightarrow> string" where
  "strip_eol s = (case rev s of
     c # r \<Rightarrow> if c = CHR 0x0a then (case r of d # r' \<Rightarrow> if d = CHR 0x0d then rev r' else rev r | [] \<Rightarrow> [])
              else if c = CHR 0x0d then rev r else s
   | [] \<Rightarrow> [])"

text \<open>\<open>Number(arg) || fallback\<close>\<close>

definition number_or :: "int \<Rightarrow> string \<Rightarrow> int" where
  "number_or fallback arg = (case js_number arg of None \<Rightarrow> fallback | Some n \<Rightarrow> if n = 0 then fallback else n)"

section \<open>The session\<close>

record 's bbs =
  bs_call :: string
  bs_bbs_call :: string
  bs_expert :: bool
  bs_last_read :: int
  bs_pending :: "pending option"
  bs_store :: 's

record bbs_reply =
  br_lines :: "string list"
  br_disconnect :: bool

definition new_bbs :: "string \<Rightarrow> string \<Rightarrow> bool \<Rightarrow> 's \<Rightarrow> 's bbs" where
  "new_bbs call bbs_call expert s =
     \<lparr>bs_call = js_upper call, bs_bbs_call = bbs_call, bs_expert = expert, bs_last_read = 0, bs_pending = None, bs_store = s\<rparr>"

definition prompt :: "'s bbs \<Rightarrow> string" where
  "prompt b = (if bs_expert b then ''>'' else bs_call b @ '' de '' @ bs_bbs_call b @ ''>'')"

definition greeting :: "'s store_ops \<Rightarrow> 's bbs \<Rightarrow> string list" where
  "greeting ops b =
     (let n = length (so_list_new ops (bs_call b) (bs_store b))
      in [''[APRScaching BBS '' @ bs_bbs_call b @ '']'',
          ''Hello '' @ bs_call b @ '' - '' @ nat_str n @ '' new message'' @ (if n = 1 then [] else ''s'') @ ''. Type H for help.'',
          prompt b])"

definition quiet :: "string list \<Rightarrow> bbs_reply" where
  "quiet ls = \<lparr>br_lines = ls, br_disconnect = False\<rparr>"

definition out :: "string list \<Rightarrow> 's bbs \<Rightarrow> 's bbs \<times> bbs_reply" where
  "out ls b = (b, quiet (ls @ [prompt b]))"

definition list_msgs :: "bbs_meta list \<Rightarrow> string \<Rightarrow> 's bbs \<Rightarrow> 's bbs \<times> bbs_reply" where
  "list_msgs msgs label b =
     (if msgs = [] then out [label @ '': none.''] b
      else out ([label @ '' ('' @ nat_str (length msgs) @ ''):'', ''   ID T  TO        FROM      SUBJECT''] @ map fmt_row msgs) b)"

definition show_message :: "bbs_full \<Rightarrow> string list" where
  "show_message m =
     [''Msg #'' @ int_str (bm_id m) @ ''  '' @ type_letter (bm_type m) @ ''  '' @ bm_from m @ '' > '' @ bm_to m @ ''  ''
        @ (case bm_subject m of None \<Rightarrow> ''(no subject)'' | Some t \<Rightarrow> t)]
     @ split_on (CHR 0x0a) (bm_body m) @ [''---'']"

fun read_each :: "'s store_ops \<Rightarrow> int list \<Rightarrow> 's bbs \<Rightarrow> 's bbs \<times> string list" where
  "read_each ops [] b = (b, [])"
| "read_each ops (n # ns) b =
     (let (m, s) = so_read ops n (bs_store b)
      in case m of
           None \<Rightarrow> (let (b', ls) = read_each ops ns (b\<lparr>bs_store := s\<rparr>) in (b', (''Message '' @ int_str n @ '' not found.'') # ls))
         | Some m \<Rightarrow> (let (b', ls) = read_each ops ns (b\<lparr>bs_store := s, bs_last_read := n\<rparr>) in (b', show_message m @ ls)))"

definition read_cmd :: "'s store_ops \<Rightarrow> string list \<Rightarrow> 's bbs \<Rightarrow> 's bbs \<times> bbs_reply" where
  "read_cmd ops ids b =
     (let nums = filter (\<lambda>n. 0 < n) (List.map_filter js_number ids)
      in if nums = [] then out [''Usage: R <id> [id...]''] b
         else let (b', ls) = read_each ops nums b in out ls b')"

definition kill_cmd :: "'s store_ops \<Rightarrow> int option \<Rightarrow> 's bbs \<Rightarrow> 's bbs \<times> bbs_reply" where
  "kill_cmd ops arg b =
     (case arg of
        None \<Rightarrow> out [''Usage: K <id>''] b
      | Some n \<Rightarrow>
          if n = 0 then out [''Usage: K <id>''] b
          else let (ok, s) = so_kill ops n (bs_call b) (bs_store b); b = b\<lparr>bs_store := s\<rparr>
               in out [if ok then ''Message '' @ int_str n @ '' killed.'' else ''Can'' @ [CHR 0x27] @ ''t kill '' @ int_str n @ '' (not found or not yours).''] b)"

definition start_send :: "bbs_type \<Rightarrow> string \<Rightarrow> 's bbs \<Rightarrow> 's bbs \<times> bbs_reply" where
  "start_send t to b =
     (if to = [] then out [''Usage: S'' @ (case t of Bulletin \<Rightarrow> ''B <category>'' | Traffic \<Rightarrow> ''T <call>'' | Personal \<Rightarrow> ''P <call>'')] b
      else (b\<lparr>bs_pending := Some \<lparr>pd_type = t, pd_to = js_upper to, pd_subject = None, pd_reply_to = None, pd_body = [], pd_bytes = 0,
                pd_stage = Subject_stage\<rparr>\<rparr>, quiet [''Subject:'']))"

definition reply_subject :: "bbs_full \<Rightarrow> string" where
  "reply_subject m =
     (case bm_subject m of
        None \<Rightarrow> js_trim ''Re: ''
      | Some t \<Rightarrow> if t \<noteq> [] \<and> js_upper (take 3 t) = ''RE:'' then t else js_trim (''Re: '' @ t))"

definition start_reply :: "'s store_ops \<Rightarrow> int \<Rightarrow> 's bbs \<Rightarrow> 's bbs \<times> bbs_reply" where
  "start_reply ops n b =
     (let (m, s) = (if n \<noteq> 0 then so_read ops n (bs_store b) else (None, bs_store b)); b = b\<lparr>bs_store := s\<rparr>
      in case m of
           None \<Rightarrow> out [''Nothing to reply to - read a message first or pass an id (SR <id>).''] b
         | Some m \<Rightarrow>
             (b\<lparr>bs_pending := Some \<lparr>pd_type = bm_type m, pd_to = bm_from m, pd_subject = Some (reply_subject m), pd_reply_to = Some (bm_id m),
                 pd_body = [], pd_bytes = 0, pd_stage = Body_stage\<rparr>\<rparr>,
              quiet [''Reply to '' @ bm_from m @ '' - '' @ QUOTE @ reply_subject m @ QUOTE
                     @ ''. Enter message, end with /EX or a lone '' @ QUOTE @ ''.'' @ QUOTE @ '' :'']))"

definition post_of :: "string \<Rightarrow> pending \<Rightarrow> bbs_post" where
  "post_of call p = \<lparr>bp_type = pd_type p, bp_from = call, bp_to = pd_to p, bp_subject = pd_subject p,
     bp_body = join_with [CHR 0x0a] (pd_body p), bp_reply_to = pd_reply_to p\<rparr>"

definition collect :: "'s store_ops \<Rightarrow> pending \<Rightarrow> string \<Rightarrow> 's bbs \<Rightarrow> 's bbs \<times> bbs_reply" where
  "collect ops p line b =
     (if pd_stage p = Subject_stage
      then (b\<lparr>bs_pending := Some (p\<lparr>pd_subject := (if js_trim line = [] then None else Some (js_trim line)), pd_stage := Body_stage\<rparr>)\<rparr>,
            quiet [''Enter message, end with /EX or a lone '' @ QUOTE @ ''.'' @ QUOTE @ '' :''])
      else if js_trim line = ''/EX'' \<or> js_trim line = ''.''
      then let (n, s) = so_post ops (post_of (bs_call b) p) (bs_store b)
           in out [''Message '' @ int_str n @ '' stored ('' @ type_letter (pd_type p) @ '' to '' @ pd_to p @ '').''] (b\<lparr>bs_store := s, bs_pending := None\<rparr>)
      else if MAX_BODY_BYTES < pd_bytes p + length line + 1
      then out [''Message too large - send aborted.''] (b\<lparr>bs_pending := None\<rparr>)
      else (b\<lparr>bs_pending := Some (p\<lparr>pd_bytes := pd_bytes p + length line + 1, pd_body := pd_body p @ [line]\<rparr>)\<rparr>, quiet []))"

definition command :: "'s store_ops \<Rightarrow> string \<Rightarrow> string list \<Rightarrow> 's bbs \<Rightarrow> 's bbs \<times> bbs_reply" where
  "command ops word rest b =
     (let arg = join_with '' '' rest; st = bs_store b
      in if word = [] then (b, quiet [prompt b])
         else if word \<in> {''B'', ''BYE''} then (b, \<lparr>br_lines = [''73 de '' @ bs_bbs_call b], br_disconnect = True\<rparr>)
         else if word \<in> {''H'', ''?''} then out HELP b
         else if word = ''X'' then let b = b\<lparr>bs_expert := \<not> bs_expert b\<rparr> in out [''Expert mode '' @ (if bs_expert b then ''on'' else ''off'') @ ''.''] b
         else if word = ''I'' then out [bs_bbs_call b @ '' - APRScaching connected-mode BBS. You are '' @ bs_call b @ ''.''] b
         else if word = ''L'' then list_msgs (so_list_new ops (bs_call b) st) ''New'' b
         else if word = ''LA'' then list_msgs (so_list_all ops st) ''All'' b
         else if word = ''LB'' then list_msgs (so_list_bulletins ops st) ''Bulletins'' b
         else if word = ''LM'' then list_msgs (so_list_mine ops (bs_call b) st) ''Mine'' b
         else if word = ''LL'' then list_msgs (take (nat (max 1 (number_or 10 arg))) (so_list_all ops st)) (''Last '' @ int_str (number_or 10 arg)) b
         else if word = ''R'' then read_cmd ops rest b
         else if word = ''K'' then kill_cmd ops (js_number arg) b
         else if word = ''A'' then out [''No message in progress.''] b
         else if word \<in> {''S'', ''SP''} then start_send Personal arg b
         else if word = ''SB'' then start_send Bulletin arg b
         else if word = ''ST'' then start_send Traffic arg b
         else if word = ''SR'' then start_reply ops (number_or (bs_last_read b) arg) b
         else out [''Unknown command '' @ QUOTE @ word @ QUOTE @ ''. Type H for help.''] b)"

definition bbs_handle :: "'s store_ops \<Rightarrow> string \<Rightarrow> 's bbs \<Rightarrow> 's bbs \<times> bbs_reply" where
  "bbs_handle ops input b =
     (let line = strip_eol input
      in case bs_pending b of
           Some p \<Rightarrow> collect ops p line b
         | None \<Rightarrow> let ws = split_ws (js_trim line) in command ops (js_upper (hd ws)) (tl ws) b)"

fun bbs_run :: "'s store_ops \<Rightarrow> string list \<Rightarrow> 's bbs \<Rightarrow> 's bbs \<times> bbs_reply list" where
  "bbs_run ops [] b = (b, [])"
| "bbs_run ops (l # ls) b = (let (b1, r) = bbs_handle ops l b; (b2, rs) = bbs_run ops ls b1 in (b2, r # rs))"

section \<open>Every command keeps the session in order\<close>

definition pending_ok :: "pending \<Rightarrow> bool" where
  "pending_ok p = (pd_bytes p = (\<Sum>l\<leftarrow>pd_body p. length l + 1) \<and> pd_bytes p \<le> MAX_BODY_BYTES)"

definition collecting_ok :: "'s bbs \<Rightarrow> bool" where
  "collecting_ok b = (case bs_pending b of None \<Rightarrow> True | Some p \<Rightarrow> pending_ok p)"

text \<open>What one line may do to the messages of the store: mark some read, add one of the caller's, remove one of the caller's.\<close>

definition own_change :: "string \<Rightarrow> bbs_full list \<Rightarrow> bbs_full list \<Rightarrow> bool" where
  "own_change call ms ms' =
     (map unread ms' = map unread ms
      \<or> (\<exists>m. ms' = ms @ [m] \<and> bm_from m = js_upper call \<and> length (bm_body m) \<le> MAX_BODY_BYTES)
      \<or> (\<exists>xs m ys. ms = xs @ m # ys \<and> ms' = xs @ ys \<and> (bm_from m = js_upper call \<or> bm_to m = js_upper call)))"

lemma length_joined: "length (join_with [CHR 0x0a] ls) \<le> (\<Sum>l\<leftarrow>ls. length l + 1)"
  by (induction "[CHR 0x0a]" ls rule: join_with.induct) auto

lemma out_state [simp]: "fst (out ls b) = b" "snd (out ls b) = quiet (ls @ [prompt b])"
  by (simp_all add: out_def)

lemma list_msgs_state [simp]: "fst (list_msgs ms label b) = b"
  by (simp add: list_msgs_def)

lemma start_send_state:
  "bs_store (fst (start_send t to b)) = bs_store b" "bs_call (fst (start_send t to b)) = bs_call b"
  "collecting_ok b \<Longrightarrow> collecting_ok (fst (start_send t to b))"
  by (auto simp: start_send_def collecting_ok_def pending_ok_def)

context message_store
begin

lemma read_each_ok:
  "ok (bs_store b) \<Longrightarrow> ok (bs_store (fst (read_each ops ns b))) \<and> bs_call (fst (read_each ops ns b)) = bs_call b
     \<and> bs_pending (fst (read_each ops ns b)) = bs_pending b
     \<and> map unread (contents (bs_store (fst (read_each ops ns b)))) = map unread (contents (bs_store b))"
proof (induction ns arbitrary: b)
  case (Cons n ns)
  obtain m s where r: "so_read ops n (bs_store b) = (m, s)" by (cases "so_read ops n (bs_store b)")
  then have s: "ok s" "map unread (contents s) = map unread (contents (bs_store b))"
    using read_ok [OF Cons.prems, of n] read_keeps [OF Cons.prems, of n] by simp_all
  show ?case
    using Cons.IH [of "b\<lparr>bs_store := s\<rparr>"] Cons.IH [of "b\<lparr>bs_store := s, bs_last_read := n\<rparr>"] r s
    by (auto simp: split_beta split: option.split)
qed simp

lemma read_cmd_ok:
  "ok (bs_store b) \<Longrightarrow> ok (bs_store (fst (read_cmd ops ids b))) \<and> bs_call (fst (read_cmd ops ids b)) = bs_call b
     \<and> bs_pending (fst (read_cmd ops ids b)) = bs_pending b
     \<and> map unread (contents (bs_store (fst (read_cmd ops ids b)))) = map unread (contents (bs_store b))"
  using read_each_ok [of b] by (auto simp: read_cmd_def Let_def split_beta)

lemma kill_cmd_ok:
  "ok (bs_store b) \<Longrightarrow> ok (bs_store (fst (kill_cmd ops arg b))) \<and> bs_call (fst (kill_cmd ops arg b)) = bs_call b
     \<and> bs_pending (fst (kill_cmd ops arg b)) = bs_pending b
     \<and> own_change (bs_call b) (contents (bs_store b)) (contents (bs_store (fst (kill_cmd ops arg b))))"
proof -
  assume b: "ok (bs_store b)"
  have refused: "own_change c ms ms" for c ms by (simp add: own_change_def)
  show ?thesis
  proof (cases arg)
    case (Some n)
    obtain k s where k: "so_kill ops n (bs_call b) (bs_store b) = (k, s)" by (cases "so_kill ops n (bs_call b) (bs_store b)")
    have "own_change (bs_call b) (contents (bs_store b)) (contents s)"
      using kill_own [OF b, of n "bs_call b"] kill_refused [OF b, of n "bs_call b"] k by (cases k) (auto simp: own_change_def)
    then show ?thesis using Some k kill_ok [OF b, of n "bs_call b"] b refused by (simp add: kill_cmd_def)
  qed (simp add: kill_cmd_def b refused)
qed

lemma start_reply_ok:
  "ok (bs_store b) \<Longrightarrow> collecting_ok b \<Longrightarrow> ok (bs_store (fst (start_reply ops n b))) \<and> bs_call (fst (start_reply ops n b)) = bs_call b
     \<and> collecting_ok (fst (start_reply ops n b))
     \<and> map unread (contents (bs_store (fst (start_reply ops n b)))) = map unread (contents (bs_store b))"
  using read_ok [of "bs_store b" n] read_keeps [of "bs_store b" n]
  by (auto simp: start_reply_def collecting_ok_def pending_ok_def split_beta Let_def split: option.split)

lemma collect_ok:
  assumes "ok (bs_store b)" "pending_ok p"
  shows "ok (bs_store (fst (collect ops p line b))) \<and> bs_call (fst (collect ops p line b)) = bs_call b
     \<and> collecting_ok (fst (collect ops p line b))
     \<and> own_change (bs_call b) (contents (bs_store b)) (contents (bs_store (fst (collect ops p line b))))"
proof -
  have same: "own_change c ms ms" for c ms by (simp add: own_change_def)
  obtain n s where s: "so_post ops (post_of (bs_call b) p) (bs_store b) = (n, s)" by (cases "so_post ops (post_of (bs_call b) p) (bs_store b)")
  obtain m where m: "contents s = contents (bs_store b) @ [m]" "posted_as (post_of (bs_call b) p) m"
    using post_adds [OF assms(1), of "post_of (bs_call b) p"] s by auto
  have "length (bm_body m) \<le> MAX_BODY_BYTES"
    using m(2) assms(2) length_joined [of "pd_body p"] by (simp add: posted_as_def post_of_def pending_ok_def)
  then have "own_change (bs_call b) (contents (bs_store b)) (contents s)" using m by (auto simp: own_change_def posted_as_def post_of_def)
  moreover have "ok s" using post_ok [OF assms(1), of "post_of (bs_call b) p"] s by simp
  ultimately show ?thesis using assms s same by (auto simp: collect_def collecting_ok_def pending_ok_def Let_def)
qed

lemma command_ok:
  assumes "ok (bs_store b)" "collecting_ok b"
  shows "ok (bs_store (fst (command ops word rest b))) \<and> bs_call (fst (command ops word rest b)) = bs_call b
     \<and> collecting_ok (fst (command ops word rest b))
     \<and> own_change (bs_call b) (contents (bs_store b)) (contents (bs_store (fst (command ops word rest b))))"
proof -
  have marks: "map unread ms' = map unread ms \<Longrightarrow> own_change c ms ms'" for c ms ms' by (simp add: own_change_def)
  have pend: "bs_pending b' = bs_pending b \<Longrightarrow> collecting_ok b'" for b' :: "'s bbs" using assms(2) by (simp add: collecting_ok_def)
  define Q where "Q b' = (ok (bs_store b') \<and> bs_call b' = bs_call b \<and> collecting_ok b' \<and> own_change (bs_call b) (contents (bs_store b)) (contents (bs_store b')))" for b'
  have branch: "Q (fst x) \<Longrightarrow> Q (fst y) \<Longrightarrow> Q (fst (if c then x else y))" for x y :: "'s bbs \<times> bbs_reply" and c by simp
  have same: "Q b" using assms marks by (simp add: Q_def)
  moreover have "Q (b\<lparr>bs_expert := e\<rparr>)" for e using assms marks pend by (simp add: Q_def)
  moreover have "Q (fst (read_cmd ops rest b))" using read_cmd_ok [OF assms(1), of rest] marks pend unfolding Q_def by blast
  moreover have "Q (fst (kill_cmd ops arg b))" for arg using kill_cmd_ok [OF assms(1), of arg] pend unfolding Q_def by blast
  moreover have "Q (fst (start_reply ops n b))" for n using start_reply_ok [OF assms, of n] marks unfolding Q_def by blast
  moreover have "Q (fst (start_send t to b))" for t to
    using start_send_state [where t = t and to = to and b = b] assms marks by (simp add: Q_def)
  ultimately have "Q (fst (command ops word rest b))" unfolding command_def Let_def by (intro branch) (simp_all only: fst_conv out_state list_msgs_state)
  then show ?thesis by (simp add: Q_def)
qed

lemma handle_ok:
  assumes "ok (bs_store b)" "collecting_ok b"
  shows "ok (bs_store (fst (bbs_handle ops line b))) \<and> bs_call (fst (bbs_handle ops line b)) = bs_call b
     \<and> collecting_ok (fst (bbs_handle ops line b))
     \<and> own_change (bs_call b) (contents (bs_store b)) (contents (bs_store (fst (bbs_handle ops line b))))"
proof (cases "bs_pending b")
  case None
  then show ?thesis using command_ok [OF assms] by (simp add: bbs_handle_def Let_def)
next
  case (Some p)
  then have "pending_ok p" using assms(2) by (simp add: collecting_ok_def)
  then show ?thesis using collect_ok [OF assms(1)] Some by (simp add: bbs_handle_def)
qed

end

text \<open>C22: Whatever line a caller sends, the messages of the store change at most by their read marks, by one new message in the
  caller's name of at most 32 KiB, or by the loss of one message from or to the caller.\<close>

theorem caller_changes_own_only:
  assumes "in_heap (bs_store b)" "collecting_ok b"
  shows "let b' = fst (bbs_handle cached_ops line b)
    in in_heap (bs_store b') \<and> collecting_ok b' \<and> bs_call b' = bs_call b \<and> own_change (bs_call b) (rows (bs_store b)) (rows (bs_store b'))"
  using cached.handle_ok [OF assms, of line] by (simp add: Let_def)

lemma caller_changes_own_only_witness:
  "let b' = fst (bbs_handle cached_ops ''K 5'' (new_bbs ''N0CALL'' ''BBS'' False (new_cached_store ''N0CALL'' 3 True True)))
   in in_heap (bs_store b') \<and> own_change ''N0CALL'' [] (rows (bs_store b'))"
proof -
  let ?b = "new_bbs ''N0CALL'' ''BBS'' False (new_cached_store ''N0CALL'' 3 True True)"
  have "in_heap (bs_store ?b)" "collecting_ok ?b" by (simp_all add: new_bbs_def new_cached_store_def in_heap_def collecting_ok_def)
  from caller_changes_own_only [OF this, of "''K 5''"] show ?thesis
    by (simp add: Let_def new_bbs_def new_cached_store_def rows_def js_upper_def upper_char_def char_code_def from_char_code_def)
qed

section \<open>Sending\<close>

definition plain_line :: "string \<Rightarrow> bool" where
  "plain_line l = (\<forall>c\<in>set l. \<not> is_line_break c)"

lemma strip_plain: "plain_line l \<Longrightarrow> strip_eol l = l"
  by (cases l rule: rev_cases) (auto simp: strip_eol_def plain_line_def is_line_break_def)

text \<open>A line of a message that does not end it.\<close>

definition body_line :: "string \<Rightarrow> bool" where
  "body_line l = (plain_line l \<and> js_trim l \<noteq> ''/EX'' \<and> js_trim l \<noteq> ''.'')"

lemma bbs_run_append:
  "fst (bbs_run ops (xs @ ys) b) = fst (bbs_run ops ys (fst (bbs_run ops xs b)))"
  "snd (bbs_run ops (xs @ ys) b) = snd (bbs_run ops xs b) @ snd (bbs_run ops ys (fst (bbs_run ops xs b)))"
  by (induction xs arbitrary: b) (simp_all add: split_beta Let_def)

lemma collect_lines:
  assumes "bs_pending b = Some p" "pd_stage p = Body_stage" "\<forall>l\<in>set ls. body_line l" "pd_bytes p + (\<Sum>l\<leftarrow>ls. length l + 1) \<le> MAX_BODY_BYTES"
  shows "bbs_run ops ls b =
    (b\<lparr>bs_pending := Some (p\<lparr>pd_bytes := pd_bytes p + (\<Sum>l\<leftarrow>ls. length l + 1), pd_body := pd_body p @ ls\<rparr>)\<rparr>, replicate (length ls) (quiet []))"
  using assms
proof (induction ls arbitrary: b p)
  case Nil
  then show ?case by (cases b; cases p) simp
next
  case (Cons l ls)
  have l: "strip_eol l = l" "js_trim l \<noteq> ''/EX''" "js_trim l \<noteq> ''.''" using Cons.prems(3) strip_plain by (auto simp: body_line_def)
  let ?p = "p\<lparr>pd_bytes := pd_bytes p + length l + 1, pd_body := pd_body p @ [l]\<rparr>"
  have "bbs_handle ops l b = (b\<lparr>bs_pending := Some ?p\<rparr>, quiet [])"
    using l Cons.prems(1,2,4) by (simp add: bbs_handle_def collect_def)
  moreover have "bbs_run ops ls (b\<lparr>bs_pending := Some ?p\<rparr>) = (b\<lparr>bs_pending := Some (?p\<lparr>pd_bytes := pd_bytes ?p + (\<Sum>l\<leftarrow>ls. length l + 1),
      pd_body := pd_body ?p @ ls\<rparr>)\<rparr>, replicate (length ls) (quiet []))"
    using Cons.IH [of "b\<lparr>bs_pending := Some ?p\<rparr>" ?p] Cons.prems by simp
  ultimately show ?case by simp
qed

definition word_text :: "string \<Rightarrow> bool" where
  "word_text w = (w \<noteq> [] \<and> (\<forall>c\<in>set w. \<not> is_space c))"

lemma word_plain: "word_text w \<Longrightarrow> plain_line w"
  by (auto simp: word_text_def plain_line_def is_line_break_def is_space_def char_code_def)

lemma two_words:
  assumes "word_text v" "word_text w"
  shows "strip_eol (v @ '' '' @ w) = v @ '' '' @ w" "split_ws (js_trim (v @ '' '' @ w)) = [v, w]"
proof -
  have "plain_line (v @ '' '' @ w)" using word_plain [OF assms(1)] word_plain [OF assms(2)] by (auto simp: plain_line_def is_line_break_def)
  then show "strip_eol (v @ '' '' @ w) = v @ '' '' @ w" by (rule strip_plain)
  have "js_trim (v @ '' '' @ w) = v @ '' '' @ w" using assms by (intro js_trim_ends) (auto simp: word_text_def)
  then show "split_ws (js_trim (v @ '' '' @ w)) = [v, w]" using split_ws_join [of "[v, w]"] assms by (simp add: word_text_def)
qed

definition sent_message :: "'s bbs \<Rightarrow> string \<Rightarrow> string \<Rightarrow> string list \<Rightarrow> pending" where
  "sent_message b to subj ls =
     \<lparr>pd_type = Personal, pd_to = js_upper to, pd_subject = (if js_trim subj = [] then None else Some (js_trim subj)), pd_reply_to = None,
      pd_body = ls, pd_bytes = (\<Sum>l\<leftarrow>ls. length l + 1), pd_stage = Body_stage\<rparr>"

lemma typed_message:
  assumes "bs_pending b = None" "word_text to" "plain_line subj" "\<forall>l\<in>set ls. body_line l" "(\<Sum>l\<leftarrow>ls. length l + 1) \<le> MAX_BODY_BYTES"
  shows "fst (bbs_run ops ([''SP '' @ to, subj] @ ls) b) = b\<lparr>bs_pending := Some (sent_message b to subj ls)\<rparr>"
proof -
  let ?p = "\<lparr>pd_type = Personal, pd_to = js_upper to, pd_subject = None, pd_reply_to = None, pd_body = [], pd_bytes = 0, pd_stage = Subject_stage\<rparr>"
  let ?q = "?p\<lparr>pd_subject := (if js_trim subj = [] then None else Some (js_trim subj)), pd_stage := Body_stage\<rparr>"
  have sp: "word_text ''SP''" by (simp add: word_text_def is_space_def char_code_def)
  have "js_upper ''SP'' = ''SP''" by (simp add: js_upper_def upper_char_def char_code_def)
  then have "fst (bbs_handle ops (''SP'' @ '' '' @ to) b) = b\<lparr>bs_pending := Some ?p\<rparr>"
    using two_words [OF sp assms(2)] assms(1,2) unfolding bbs_handle_def Let_def
    by (simp add: command_def start_send_def word_text_def del: append_Cons append_Nil js_upper_Cons)
  moreover have "fst (bbs_handle ops subj (b\<lparr>bs_pending := Some ?p\<rparr>)) = b\<lparr>bs_pending := Some ?q\<rparr>"
    using strip_plain [OF assms(3)] by (simp add: bbs_handle_def collect_def)
  ultimately have "fst (bbs_run ops ([''SP '' @ to, subj] @ ls) b) = fst (bbs_run ops ls (b\<lparr>bs_pending := Some ?q\<rparr>))"
    by (simp add: split_beta Let_def)
  also have "\<dots> = b\<lparr>bs_pending := Some (sent_message b to subj ls)\<rparr>"
    using collect_lines [of "b\<lparr>bs_pending := Some ?q\<rparr>" ?q ls ops] assms(4,5) by (simp add: sent_message_def)
  finally show ?thesis .
qed

context message_store
begin

lemma send_adds:
  assumes "ok (bs_store b)" "bs_pending b = Some p" "pd_stage p = Body_stage"
  shows "\<exists>m n. contents (bs_store (fst (bbs_handle ops ''/EX'' b))) = contents (bs_store b) @ [m] \<and> posted_as (post_of (bs_call b) p) m \<and> bm_id m = n
    \<and> bs_pending (fst (bbs_handle ops ''/EX'' b)) = None
    \<and> snd (bbs_handle ops ''/EX'' b) = quiet [''Message '' @ int_str n @ '' stored ('' @ type_letter (pd_type p) @ '' to '' @ pd_to p @ '').'', prompt b]"
proof -
  obtain n s where s: "so_post ops (post_of (bs_call b) p) (bs_store b) = (n, s)" by (cases "so_post ops (post_of (bs_call b) p) (bs_store b)")
  have "strip_eol ''/EX'' = ''/EX''" "js_trim ''/EX'' = ''/EX''"
    by (simp_all add: strip_eol_def js_trim_def trim_end_where_def is_space_def char_code_def)
  then have "bbs_handle ops ''/EX'' b = out [''Message '' @ int_str n @ '' stored ('' @ type_letter (pd_type p) @ '' to '' @ pd_to p @ '').''] (b\<lparr>bs_store := s, bs_pending := None\<rparr>)"
    using assms(2,3) s by (simp add: bbs_handle_def collect_def)
  moreover obtain m where "contents s = contents (bs_store b) @ [m]" "posted_as (post_of (bs_call b) p) m" "bm_id m = n"
    using post_adds [OF assms(1), of "post_of (bs_call b) p"] s by auto
  ultimately show ?thesis by (auto simp: prompt_def)
qed

end

lemma body_reads_back: "ls \<noteq> [] \<Longrightarrow> \<forall>l\<in>set ls. body_line l \<Longrightarrow> split_on (CHR 0x0a) (join_with [CHR 0x0a] ls) = ls"
  by (rule split_join) (auto simp: body_line_def plain_line_def is_line_break_def)

text \<open>C20: What a caller types after \<open>SP\<close>, a subject, lines and \<open>/EX\<close>, within the 32 KiB of a body, is stored as one personal message
  from the caller to the station named, with that subject, and reading it shows exactly the lines typed.\<close>

theorem message_stored_as_typed:
  assumes "in_heap (bs_store b)" "bs_pending b = None" "word_text to" "plain_line subj" "ls \<noteq> []" "\<forall>l\<in>set ls. body_line l"
    and "(\<Sum>l\<leftarrow>ls. length l + 1) \<le> MAX_BODY_BYTES"
  shows "\<exists>m. let b' = fst (bbs_run cached_ops ([''SP '' @ to, subj] @ ls @ [''/EX'']) b)
    in rows (bs_store b') = rows (bs_store b) @ [m] \<and> bs_pending b' = None \<and> bm_type m = Personal \<and> bm_from m = js_upper (bs_call b)
      \<and> bm_to m = js_upper to \<and> bm_subject m = (if js_trim subj = [] then None else Some (js_trim subj))
      \<and> (\<exists>head. show_message m = [head] @ ls @ [''---''])"
proof -
  let ?b = "b\<lparr>bs_pending := Some (sent_message b to subj ls)\<rparr>"
  have "bbs_run cached_ops ([''SP '' @ to, subj] @ ls @ [''/EX'']) b = bbs_run cached_ops (([''SP '' @ to, subj] @ ls) @ [''/EX'']) b" by simp
  then have "fst (bbs_run cached_ops ([''SP '' @ to, subj] @ ls @ [''/EX'']) b) = fst (bbs_handle cached_ops ''/EX'' ?b)"
    using typed_message [OF assms(2-4,6,7), of cached_ops] bbs_run_append(1) [of cached_ops "[''SP '' @ to, subj] @ ls" "[''/EX'']" b]
    by (simp add: split_beta Let_def del: bbs_run.simps append_Cons) (simp add: split_beta Let_def)
  moreover obtain m where "rows (bs_store (fst (bbs_handle cached_ops ''/EX'' ?b))) = rows (bs_store b) @ [m]"
    "posted_as (post_of (bs_call b) (sent_message b to subj ls)) m" "bs_pending (fst (bbs_handle cached_ops ''/EX'' ?b)) = None"
    using cached.send_adds [of ?b "sent_message b to subj ls"] assms(1) by (auto simp: sent_message_def)
  moreover have "\<exists>head. show_message m = [head] @ ls @ [''---'']"
    using calculation(3) body_reads_back [OF assms(5,6)] by (auto simp: show_message_def posted_as_def post_of_def sent_message_def)
  ultimately show ?thesis by (intro exI [of _ m]) (simp add: posted_as_def post_of_def sent_message_def Let_def)
qed

lemma message_stored_as_typed_witness:
  "\<exists>m. let b' = fst (bbs_run cached_ops ([''SP '' @ ''W1AW'', ''Hi''] @ [''Hello'', ''there''] @ [''/EX''])
       (new_bbs ''N0CALL'' ''BBS'' False (new_cached_store ''N0CALL'' 3 True True)))
    in rows (bs_store b') = [m] \<and> bs_pending b' = None \<and> bm_type m = Personal \<and> (\<exists>head. show_message m = [head] @ [''Hello'', ''there''] @ [''---''])"
proof -
  let ?b = "new_bbs ''N0CALL'' ''BBS'' False (new_cached_store ''N0CALL'' 3 True True)"
  have plain: "word_text ''W1AW''" "plain_line ''Hi''" "\<forall>l\<in>set [''Hello'', ''there'']. body_line l"
    by (simp_all add: word_text_def plain_line_def body_line_def is_line_break_def is_space_def char_code_def js_trim_def trim_end_where_def)
  have "in_heap (bs_store ?b)" "bs_pending ?b = None" "rows (bs_store ?b) = []" by (simp_all add: new_bbs_def new_cached_store_def in_heap_def rows_def)
  then show ?thesis
    using message_stored_as_typed [of ?b "''W1AW''" "''Hi''" "[''Hello'', ''there'']"] plain unfolding Let_def
    by (auto simp: MAX_BODY_BYTES_def simp del: bbs_run.simps append_Cons append_Nil)
qed

text \<open>
  The help names \<open>A\<close> as the command that aborts a send. While a message is collected every line is text, so \<open>A\<close>
  becomes a line of the message, or its subject; when no message is collected it answers that there is none.
\<close>

theorem abort_command_is_text:
  assumes "bs_pending b = Some p" "pd_stage p = Body_stage" "pd_bytes p + 2 \<le> MAX_BODY_BYTES"
  shows "bbs_handle ops ''A'' b = (b\<lparr>bs_pending := Some (p\<lparr>pd_bytes := pd_bytes p + 2, pd_body := pd_body p @ [''A'']\<rparr>)\<rparr>, quiet [])"
  using assms by (simp add: bbs_handle_def collect_def strip_eol_def js_trim_def trim_end_where_def is_space_def char_code_def)

lemma abort_command_is_text_witness:
  "\<exists>p. bs_pending (fst (bbs_run cached_ops ([''SP '' @ ''W1AW'', ''Hi''] @ [''A'']) (new_bbs ''N0CALL'' ''BBS'' False (new_cached_store ''N0CALL'' 3 True True)))) = Some p
     \<and> pd_body p = [''A'']"
proof -
  let ?b = "new_bbs ''N0CALL'' ''BBS'' False (new_cached_store ''N0CALL'' 3 True True)"
  have "word_text ''W1AW''" "plain_line ''Hi''" by (simp_all add: word_text_def plain_line_def is_line_break_def is_space_def char_code_def)
  then have "fst (bbs_run cached_ops [''SP '' @ ''W1AW'', ''Hi''] ?b) = ?b\<lparr>bs_pending := Some (sent_message ?b ''W1AW'' ''Hi'' [])\<rparr>"
    using typed_message [of ?b "''W1AW''" "''Hi''" "[]" cached_ops] by (simp add: new_bbs_def del: bbs_run.simps append_Cons append_Nil)
  then have "fst (bbs_run cached_ops ([''SP '' @ ''W1AW'', ''Hi''] @ [''A'']) ?b)
      = fst (bbs_handle cached_ops ''A'' (?b\<lparr>bs_pending := Some (sent_message ?b ''W1AW'' ''Hi'' [])\<rparr>))"
    unfolding bbs_run_append by (simp add: split_beta Let_def)
  also have "\<dots> = ?b\<lparr>bs_pending := Some ((sent_message ?b ''W1AW'' ''Hi'' [])\<lparr>pd_bytes := 2, pd_body := [''A'']\<rparr>)\<rparr>"
    using abort_command_is_text [of "?b\<lparr>bs_pending := Some (sent_message ?b ''W1AW'' ''Hi'' [])\<rparr>" "sent_message ?b ''W1AW'' ''Hi'' []" cached_ops]
    by (simp add: sent_message_def MAX_BODY_BYTES_def)
  finally show ?thesis by simp
qed

end
