(* ===== verification/Line_Driver.thy ===== *)
theory Line_Driver
  imports Fbb_Forward Interfaces
begin

text \<open>
  The session-server core of \<open>packages/packet/src/link-app.ts\<close>: \<open>makeLineDriver\<close> binds a line-oriented
  application to a byte duplex. A \<open>handle\<close> that returns a promise is modelled with what the promise will settle
  with; when it settles is an event of its own, so that every interleaving of reads, settlements and link
  transitions is a list of events. What the driver does to its transport is recorded in a trace. Text is ASCII.
\<close>

section \<open>Applications\<close>

record line_reply =
  lr_lines :: "string list"
  lr_disconnect :: bool
  lr_connect :: "string option"

datatype outcome = Resolved line_reply | Rejected

datatype answer = Now line_reply | Later outcome

record 'a line_app =
  la_greeting :: "'a \<Rightarrow> string list"
  la_handle :: "'a \<Rightarrow> string \<Rightarrow> 'a \<times> answer"

text \<open>
  What an \<open>onConnect\<close> handler does with its \<open>RelayController\<close> before it returns, and what the owner of the
  controller does with it later.
\<close>

datatype relay_act = To_user "byte list" | Attach | Detach | Disconnect_user

type_synonym on_connect = "(string \<Rightarrow> relay_act list) option"

section \<open>The driver\<close>

datatype drv_event = Send_bytes "byte list" | Disconnect_link | To_sink "byte list"

record 'a driver =
  dr_app :: 'a
  dr_buf :: string
  dr_greeted :: bool
  dr_relay :: bool
  dr_busy :: bool
  dr_gen :: nat
  dr_promises :: "(nat \<times> outcome) list"
  dr_trace :: "drv_event list"

definition new_driver :: "'a \<Rightarrow> 'a driver" where
  "new_driver a = \<lparr>dr_app = a, dr_buf = [], dr_greeted = False, dr_relay = False, dr_busy = False, dr_gen = 0, dr_promises = [], dr_trace = []\<rparr>"

definition MAX_LINE_BUF :: nat where
  "MAX_LINE_BUF = 8 * 1024"

definition MAX_PENDING_BUF :: nat where
  "MAX_PENDING_BUF = 64 * 1024"

definition emit :: "drv_event \<Rightarrow> 'a driver \<Rightarrow> 'a driver" where
  "emit e d = d\<lparr>dr_trace := dr_trace d @ [e]\<rparr>"

definition push_lines :: "string list \<Rightarrow> 'a driver \<Rightarrow> 'a driver" where
  "push_lines ls d = (if ls = [] then d else emit (Send_bytes (text_bytes (join_with [CHR 0x0d] ls @ [CHR 0x0d]))) d)"

fun relay_do :: "relay_act \<Rightarrow> 'a driver \<Rightarrow> 'a driver" where
  "relay_do (To_user bs) d = emit (Send_bytes bs) d"
| "relay_do Attach d = d\<lparr>dr_relay := True, dr_buf := []\<rparr>"
| "relay_do Detach d = d\<lparr>dr_relay := False\<rparr>"
| "relay_do Disconnect_user d = emit Disconnect_link d"

definition apply_reply :: "on_connect \<Rightarrow> line_reply \<Rightarrow> 'a driver \<Rightarrow> 'a driver" where
  "apply_reply oc r d =
     (let d = push_lines (lr_lines r) d;
          d = (case (lr_connect r, oc) of (Some dest, Some h) \<Rightarrow> if dest = [] then d else fold relay_do (h dest) d | _ \<Rightarrow> d)
      in if lr_disconnect r then emit Disconnect_link d else d)"

text \<open>The first line of the buffer and what follows its terminator.\<close>

definition next_line :: "string \<Rightarrow> (string \<times> string) option" where
  "next_line buf =
     (case dropWhile (\<lambda>c. \<not> is_line_break c) buf of
        [] \<Rightarrow> None
      | _ # rest \<Rightarrow> Some (takeWhile (\<lambda>c. \<not> is_line_break c) buf, rest))"

lemma relay_do_buf: "length (dr_buf (relay_do a d)) \<le> length (dr_buf d)"
  by (cases a) (simp_all add: emit_def)

lemma fold_relay_do_buf: "length (dr_buf (fold relay_do as d)) \<le> length (dr_buf d)"
proof (induction as arbitrary: d)
  case (Cons a as)
  have "length (dr_buf (fold relay_do as (relay_do a d))) \<le> length (dr_buf (relay_do a d))" by (rule Cons)
  then show ?case using relay_do_buf [of a d] by simp
qed simp

lemma push_lines_fields [simp]:
  "dr_app (push_lines ls d) = dr_app d" "dr_buf (push_lines ls d) = dr_buf d" "dr_busy (push_lines ls d) = dr_busy d"
  "dr_gen (push_lines ls d) = dr_gen d" "dr_relay (push_lines ls d) = dr_relay d" "dr_promises (push_lines ls d) = dr_promises d"
  "dr_greeted (push_lines ls d) = dr_greeted d"
  by (simp_all add: push_lines_def emit_def)

lemma apply_reply_buf: "length (dr_buf (apply_reply oc r d)) \<le> length (dr_buf d)"
  using fold_relay_do_buf [of _ "push_lines (lr_lines r) d"] by (auto simp: apply_reply_def emit_def Let_def split: option.splits)

lemma next_line_shorter: "next_line buf = Some (l, rest) \<Longrightarrow> length rest < length buf"
  using length_dropWhile_le [of "\<lambda>c. \<not> is_line_break c" buf] by (auto simp: next_line_def split: list.splits)

lemma apply_reply_shorter:
  "next_line buf = Some (l, rest) \<Longrightarrow> length (dr_buf (apply_reply oc r (d\<lparr>dr_app := a, dr_buf := rest\<rparr>))) < length buf"
  using apply_reply_buf [of oc r "d\<lparr>dr_app := a, dr_buf := rest\<rparr>"] next_line_shorter [of buf l rest] by simp

function pump :: "'a line_app \<Rightarrow> on_connect \<Rightarrow> 'a driver \<Rightarrow> 'a driver" where
  "pump ap oc d =
     (if dr_busy d then d
      else case next_line (dr_buf d) of
        None \<Rightarrow> d
      | Some (line, rest) \<Rightarrow>
          let (a, ans) = la_handle ap (dr_app d) line; d = d\<lparr>dr_app := a, dr_buf := rest\<rparr>
          in case ans of
               Later out \<Rightarrow> d\<lparr>dr_busy := True, dr_promises := dr_promises d @ [(dr_gen d, out)]\<rparr>
             | Now r \<Rightarrow> pump ap oc (apply_reply oc r d))"
  by pat_completeness auto
termination
  by (relation "measure (\<lambda>(ap, oc, d). length (dr_buf d))") (auto intro: apply_reply_shorter)

declare pump.simps [simp del]

lemma pump_stop: "dr_busy d \<or> next_line (dr_buf d) = None \<Longrightarrow> pump ap oc d = d"
  by (subst pump.simps) auto

lemma pump_now:
  "\<not> dr_busy d \<Longrightarrow> next_line (dr_buf d) = Some (l, rest) \<Longrightarrow> la_handle ap (dr_app d) l = (a, Now r) \<Longrightarrow>
   pump ap oc d = pump ap oc (apply_reply oc r (d\<lparr>dr_app := a, dr_buf := rest\<rparr>))"
  by (subst pump.simps) simp

lemma pump_later:
  "\<not> dr_busy d \<Longrightarrow> next_line (dr_buf d) = Some (l, rest) \<Longrightarrow> la_handle ap (dr_app d) l = (a, Later out) \<Longrightarrow>
   pump ap oc d = d\<lparr>dr_app := a, dr_buf := rest, dr_busy := True, dr_promises := dr_promises d @ [(dr_gen d, out)]\<rparr>"
  by (subst pump.simps) simp

lemma pump_induct [case_names stop now later]:
  assumes "\<And>d. dr_busy d \<or> next_line (dr_buf d) = None \<Longrightarrow> P d"
    and "\<And>d l rest a r. \<not> dr_busy d \<Longrightarrow> next_line (dr_buf d) = Some (l, rest) \<Longrightarrow> la_handle ap (dr_app d) l = (a, Now r) \<Longrightarrow>
      P (apply_reply oc r (d\<lparr>dr_app := a, dr_buf := rest\<rparr>)) \<Longrightarrow> P d"
    and "\<And>d l rest a out. \<not> dr_busy d \<Longrightarrow> next_line (dr_buf d) = Some (l, rest) \<Longrightarrow> la_handle ap (dr_app d) l = (a, Later out) \<Longrightarrow> P d"
  shows "P d"
proof (induction d rule: measure_induct_rule [of "\<lambda>d. length (dr_buf d)"])
  case (less d)
  show ?case
  proof (cases "dr_busy d \<or> next_line (dr_buf d) = None")
    case False
    then obtain l rest a ans where n: "\<not> dr_busy d" "next_line (dr_buf d) = Some (l, rest)" and h: "la_handle ap (dr_app d) l = (a, ans)"
      by (cases "la_handle ap (dr_app d) (fst (the (next_line (dr_buf d))))") auto
    show ?thesis
    proof (cases ans)
      case (Now r)
      show ?thesis using assms(2) [OF n h [unfolded Now] less [OF apply_reply_shorter [OF n(2)]]] .
    next
      case (Later out)
      show ?thesis using assms(3) [OF n h [unfolded Later]] .
    qed
  qed (rule assms(1))
qed

definition tail_len :: "string \<Rightarrow> nat" where
  "tail_len buf = length (takeWhile (\<lambda>c. \<not> is_line_break c) (rev buf))"

definition with_text :: "string \<Rightarrow> 'a driver \<Rightarrow> 'a driver" where
  "with_text xs d = d\<lparr>dr_buf := dr_buf d @ xs\<rparr>"

definition drv_data :: "'a line_app \<Rightarrow> on_connect \<Rightarrow> byte list \<Rightarrow> 'a driver \<Rightarrow> 'a driver" where
  "drv_data ap oc bytes d =
     (if dr_relay d then emit (To_sink bytes) d
      else let d = pump ap oc (with_text (bytes_text bytes) d)
           in if MAX_LINE_BUF < tail_len (dr_buf d) \<or> MAX_PENDING_BUF < length (dr_buf d)
              then emit Disconnect_link (d\<lparr>dr_buf := []\<rparr>) else d)"

definition drv_up :: "'a line_app \<Rightarrow> 'a driver \<Rightarrow> 'a driver" where
  "drv_up ap d = (if dr_greeted d then d else push_lines (la_greeting ap (dr_app d)) (d\<lparr>dr_greeted := True\<rparr>))"

definition drv_down :: "'a driver \<Rightarrow> 'a driver" where
  "drv_down d = d\<lparr>dr_greeted := False, dr_buf := [], dr_relay := False, dr_busy := False, dr_gen := dr_gen d + 1\<rparr>"

text \<open>The \<open>i\<close>-th promise that has not settled yet settles.\<close>

definition drv_settle :: "'a line_app \<Rightarrow> on_connect \<Rightarrow> nat \<Rightarrow> 'a driver \<Rightarrow> 'a driver" where
  "drv_settle ap oc i d =
     (if i < length (dr_promises d)
      then let (g, out) = dr_promises d ! i;
               d = d\<lparr>dr_promises := take i (dr_promises d) @ drop (Suc i) (dr_promises d), dr_busy := False\<rparr>
           in if g \<noteq> dr_gen d then d
              else case out of Resolved r \<Rightarrow> pump ap oc (apply_reply oc r d) | Rejected \<Rightarrow> emit Disconnect_link d
      else d)"

datatype session_event = Data "byte list" | Up | Down | Settle nat | Relay relay_act

fun drv_step :: "'a line_app \<Rightarrow> on_connect \<Rightarrow> 'a driver \<Rightarrow> session_event \<Rightarrow> 'a driver" where
  "drv_step ap oc d (Data bytes) = drv_data ap oc bytes d"
| "drv_step ap oc d Up = drv_up ap d"
| "drv_step ap oc d Down = drv_down d"
| "drv_step ap oc d (Settle i) = drv_settle ap oc i d"
| "drv_step ap oc d (Relay a) = relay_do a d"

definition drv_run :: "'a line_app \<Rightarrow> on_connect \<Rightarrow> 'a driver \<Rightarrow> session_event list \<Rightarrow> 'a driver" where
  "drv_run ap oc d es = foldl (drv_step ap oc) d es"

section \<open>Bounds\<close>

lemma next_line_Some:
  "next_line buf = Some (l, rest) \<longleftrightarrow> (\<exists>c. is_line_break c \<and> (\<forall>x\<in>set l. \<not> is_line_break x) \<and> buf = l @ c # rest)"
proof
  let ?p = "\<lambda>c. \<not> is_line_break c"
  assume "next_line buf = Some (l, rest)"
  then obtain c where c: "dropWhile ?p buf = c # rest" "l = takeWhile ?p buf" by (auto simp: next_line_def split: list.splits)
  then have "buf = l @ c # rest" using takeWhile_dropWhile_id [of ?p buf] by simp
  moreover have "is_line_break c" using c(1) hd_dropWhile [of ?p buf] by simp
  moreover have "\<forall>x\<in>set l. \<not> is_line_break x" using c(2) by (auto dest: set_takeWhileD)
  ultimately show "\<exists>c. is_line_break c \<and> (\<forall>x\<in>set l. \<not> is_line_break x) \<and> buf = l @ c # rest" by blast
qed (auto simp: next_line_def)

lemma next_line_None: "next_line buf = None \<longleftrightarrow> (\<forall>c\<in>set buf. \<not> is_line_break c)"
  by (auto simp: next_line_def split: list.splits dest: set_takeWhileD) (metis dropWhile_eq_Nil_conv list.distinct(1))

lemma next_line_app: "next_line buf = Some (l, rest) \<Longrightarrow> next_line (buf @ xs) = Some (l, rest @ xs)"
  by (auto simp: next_line_Some)

lemma tail_len_all: "\<forall>c\<in>set s. \<not> is_line_break c \<Longrightarrow> tail_len s = length s"
proof -
  assume "\<forall>c\<in>set s. \<not> is_line_break c"
  then have "takeWhile (\<lambda>c. \<not> is_line_break c) (rev s) = rev s" by (simp add: takeWhile_eq_all_conv)
  then show ?thesis unfolding tail_len_def by (metis length_rev)
qed

lemma tail_len_break: "is_line_break c \<Longrightarrow> tail_len (l @ c # rest) = tail_len rest"
  using tail_len_all [of rest] by (auto simp: tail_len_def takeWhile_append)

lemma tail_len_next: "next_line buf = Some (l, rest) \<Longrightarrow> tail_len rest = tail_len buf"
  by (auto simp: next_line_Some tail_len_break)

lemma tail_len_le: "tail_len s \<le> length s"
  by (metis tail_len_def length_rev length_takeWhile_le)

text \<open>What the bounds of \<open>onData\<close> leave: neither the unterminated tail nor the text waiting grows beyond them.\<close>

definition buf_ok :: "'a driver \<Rightarrow> bool" where
  "buf_ok d = (tail_len (dr_buf d) \<le> MAX_LINE_BUF \<and> length (dr_buf d) \<le> MAX_PENDING_BUF)"

lemma buf_ok_Nil: "dr_buf d = [] \<Longrightarrow> buf_ok d"
  by (simp add: buf_ok_def tail_len_def)

lemma buf_ok_cong: "dr_buf d = dr_buf e \<Longrightarrow> buf_ok d = buf_ok e"
  by (simp add: buf_ok_def)

lemma relay_do_ok: "buf_ok d \<Longrightarrow> buf_ok (relay_do a d)"
  by (cases a) (simp_all add: buf_ok_def emit_def tail_len_def)

lemma fold_relay_do_ok: "buf_ok d \<Longrightarrow> buf_ok (fold relay_do as d)"
  by (induction as arbitrary: d) (auto intro: relay_do_ok)

lemma apply_reply_ok: "buf_ok d \<Longrightarrow> buf_ok (apply_reply oc r d)"
proof -
  assume "buf_ok d"
  then have "buf_ok (push_lines (lr_lines r) d)" by (simp add: buf_ok_def)
  then show ?thesis by (auto simp: apply_reply_def Let_def emit_def buf_ok_def fold_relay_do_ok [unfolded buf_ok_def] split: option.splits)
qed

lemma buf_ok_next: "buf_ok d \<Longrightarrow> next_line (dr_buf d) = Some (l, rest) \<Longrightarrow> dr_buf e = rest \<Longrightarrow> buf_ok e"
  using tail_len_next [of "dr_buf d" l rest] next_line_shorter [of "dr_buf d" l rest] by (simp add: buf_ok_def)

lemma pump_ok: "buf_ok d \<Longrightarrow> buf_ok (pump ap oc d)"
proof (induction d rule: pump_induct [where ap = ap and oc = oc])
  case (now d l rest a r)
  then show ?case using pump_now [OF now(1-3)] apply_reply_ok buf_ok_next by (metis select_convs(2) simps(1) surjective update_convs(2))
next
  case (later d l rest a out)
  show ?case by (rule buf_ok_next [OF later(4,2)]) (simp add: pump_later [OF later(1-3)])
qed (simp add: pump_stop)

lemma drv_step_ok: "buf_ok d \<Longrightarrow> buf_ok (drv_step ap oc d e)"
proof (cases e)
  case (Data bs)
  assume "buf_ok d"
  with Data show ?thesis by (auto simp: drv_data_def Let_def emit_def buf_ok_def tail_len_def)
next
  case (Settle i)
  assume d: "buf_ok d"
  let ?d = "d\<lparr>dr_promises := take i (dr_promises d) @ drop (Suc i) (dr_promises d), dr_busy := False\<rparr>"
  have "buf_ok ?d" using d by (simp add: buf_ok_def)
  then have "buf_ok (pump ap oc (apply_reply oc r ?d))" for r by (intro pump_ok apply_reply_ok)
  moreover have "buf_ok (emit Disconnect_link ?d)" using d by (simp add: buf_ok_def emit_def)
  ultimately show ?thesis using d Settle \<open>buf_ok ?d\<close> by (auto simp: drv_settle_def Let_def split: prod.split outcome.split)
next
  case (Relay a)
  then show "buf_ok d \<Longrightarrow> ?thesis" by (simp add: relay_do_ok)
qed (auto simp: drv_up_def drv_down_def buf_ok_def tail_len_def)


interpretation line_driver: invariant_machine "drv_step ap oc" buf_ok "\<lambda>_ _. True" for ap oc
  by unfold_locales (rule drv_step_ok)

text \<open>Whatever is read, whatever the application answers and whenever, the text held is bounded.\<close>

theorem line_buffer_bounded:
  "tail_len (dr_buf (drv_run ap oc (new_driver a) es)) \<le> MAX_LINE_BUF \<and> length (dr_buf (drv_run ap oc (new_driver a) es)) \<le> MAX_PENDING_BUF"
  using line_driver.run_inv_foldl [of "new_driver a" es ap oc] by (simp add: drv_run_def buf_ok_def new_driver_def tail_len_def)

section \<open>Order of answers\<close>

text \<open>
  The same application with every answer given at once. For an application whose promises resolve, and a service
  without connect-through, the driver does what it would do over the synchronous one, whatever the reads and
  whenever the promises settle.
\<close>

definition sync_app :: "'a line_app \<Rightarrow> 'a line_app" where
  "sync_app ap = ap\<lparr>la_handle := \<lambda>a l. case la_handle ap a l of (a', Later (Resolved r)) \<Rightarrow> (a', Now r) | x \<Rightarrow> x\<rparr>"

definition resolves :: "'a line_app \<Rightarrow> bool" where
  "resolves ap = (\<forall>a l. snd (la_handle ap a l) \<noteq> Later Rejected)"

definition drain :: "'a line_app \<Rightarrow> 'a driver \<Rightarrow> 'a driver" where
  "drain ap d = (case dr_promises d of
     [(_, Resolved r)] \<Rightarrow> pump (sync_app ap) None (apply_reply None r (d\<lparr>dr_promises := [], dr_busy := False\<rparr>))
   | _ \<Rightarrow> d)"

definition in_session :: "'a driver \<Rightarrow> bool" where
  "in_session d = (\<not> dr_relay d \<and>
     (if dr_busy d then \<exists>r. dr_promises d = [(dr_gen d, Resolved r)] else dr_promises d = [] \<and> next_line (dr_buf d) = None))"

lemma apply_none_fields [simp]:
  "dr_app (apply_reply None r d) = dr_app d" "dr_buf (apply_reply None r d) = dr_buf d" "dr_busy (apply_reply None r d) = dr_busy d"
  "dr_gen (apply_reply None r d) = dr_gen d" "dr_relay (apply_reply None r d) = dr_relay d" "dr_promises (apply_reply None r d) = dr_promises d"
  by (auto simp: apply_reply_def Let_def emit_def split: option.split)

lemma apply_none_more: "apply_reply None r (with_text xs d) = with_text xs (apply_reply None r d)"
  by (auto simp: apply_reply_def Let_def emit_def with_text_def push_lines_def split: option.split)

lemma with_text_fields [simp]:
  "dr_app (with_text xs d) = dr_app d" "dr_buf (with_text xs d) = dr_buf d @ xs" "dr_busy (with_text xs d) = dr_busy d"
  "dr_gen (with_text xs d) = dr_gen d" "dr_relay (with_text xs d) = dr_relay d" "dr_promises (with_text xs d) = dr_promises d"
  "with_text [] d = d" "with_text xs (with_text ys d) = with_text (ys @ xs) d"
  by (simp_all add: with_text_def)

lemma pump_none_gen [simp]: "dr_gen (pump ap None d) = dr_gen d" "dr_relay (pump ap None d) = dr_relay d"
proof -
  have "dr_gen (pump ap None d) = dr_gen d \<and> dr_relay (pump ap None d) = dr_relay d"
  proof (induction d rule: pump_induct [where ap = ap and oc = None])
    case (now d l rest a r)
    then show ?case using pump_now [OF now(1-3)] by simp
  next
    case (later d l rest a out)
    then show ?case using pump_later [OF later(1-3)] by simp
  qed (simp add: pump_stop)
  then show "dr_gen (pump ap None d) = dr_gen d" "dr_relay (pump ap None d) = dr_relay d" by simp_all
qed

text \<open>Text that arrives later may as well have been there from the start.\<close>

lemma pump_more: "pump ap None (with_text xs (pump ap None d)) = pump ap None (with_text xs d)"
proof (induction d rule: pump_induct [where ap = ap and oc = None])
  case (now d l rest a r)
  have "next_line (dr_buf (with_text xs d)) = Some (l, rest @ xs)" using next_line_app [OF now(2)] by simp
  moreover have "(with_text xs d)\<lparr>dr_app := a, dr_buf := rest @ xs\<rparr> = with_text xs (d\<lparr>dr_app := a, dr_buf := rest\<rparr>)" by (simp add: with_text_def)
  ultimately have "pump ap None (with_text xs d) = pump ap None (with_text xs (apply_reply None r (d\<lparr>dr_app := a, dr_buf := rest\<rparr>)))"
    using pump_now [of "with_text xs d" l "rest @ xs" ap a r None] now(1,3) by (simp add: apply_none_more)
  then show ?case using pump_now [OF now(1-3)] now(4) by simp
next
  case (later d l rest a out)
  have "next_line (dr_buf (with_text xs d)) = Some (l, rest @ xs)" using next_line_app [OF later(2)] by simp
  then have "pump ap None (with_text xs d) = with_text xs (pump ap None d)"
    using pump_later [of "with_text xs d" l "rest @ xs" ap a out None] pump_later [OF later(1-3), of None] later(1,3) by (simp add: with_text_def)
  moreover have "dr_busy (with_text xs (pump ap None d))" using pump_later [OF later(1-3)] by simp
  ultimately show ?case by (simp add: pump_stop)
qed (simp add: pump_stop)

lemma drain_busy:
  "dr_promises d = [(g, Resolved r)] \<Longrightarrow> drain ap d = pump (sync_app ap) None (apply_reply None r (d\<lparr>dr_promises := [], dr_busy := False\<rparr>))"
  by (simp add: drain_def)

lemma drain_pump:
  assumes "resolves ap" "\<not> dr_busy d" "dr_promises d = []"
  shows "drain ap (pump ap None d) = pump (sync_app ap) None d"
    and "\<not> dr_relay d \<Longrightarrow> in_session (pump ap None d)"
proof -
  have "drain ap (pump ap None d) = pump (sync_app ap) None d \<and> (\<not> dr_relay d \<longrightarrow> in_session (pump ap None d))"
    using assms(2,3)
  proof (induction d rule: pump_induct [where ap = ap and oc = None])
    case (stop d)
    then show ?case by (simp add: pump_stop drain_def in_session_def)
  next
    case (now d l rest a r)
    have "la_handle (sync_app ap) (dr_app d) l = (a, Now r)" using now(3) by (simp add: sync_app_def)
    then show ?case using pump_now [OF now(1-3), of None] pump_now [OF now(1,2), of "sync_app ap" a r None] now(4-6) by simp
  next
    case (later d l rest a out)
    have "out \<noteq> Rejected" using assms(1) later(3) unfolding resolves_def by (metis snd_conv)
    then obtain r where r: "out = Resolved r" by (cases out) auto
    then have "la_handle (sync_app ap) (dr_app d) l = (a, Now r)" using later(3) by (simp add: sync_app_def)
    then have "pump (sync_app ap) None d = pump (sync_app ap) None (apply_reply None r (d\<lparr>dr_app := a, dr_buf := rest\<rparr>))"
      by (rule pump_now [OF later(1,2)])
    moreover have "(pump ap None d)\<lparr>dr_promises := [], dr_busy := False\<rparr> = d\<lparr>dr_app := a, dr_buf := rest\<rparr>"
      using pump_later [OF later(1-3), of None] later(4,5) by (cases d) simp
    moreover have "dr_promises (pump ap None d) = [(dr_gen d, Resolved r)]" using pump_later [OF later(1-3), of None] later(5) r by simp
    ultimately show ?case using drain_busy [of "pump ap None d"] pump_later [OF later(1-3), of None] by (simp add: in_session_def)
  qed
  then show "drain ap (pump ap None d) = pump (sync_app ap) None d" "\<not> dr_relay d \<Longrightarrow> in_session (pump ap None d)" by simp_all
qed

lemma drain_idle: "in_session d \<Longrightarrow> \<not> dr_busy d \<Longrightarrow> drain ap d = d"
  by (simp add: in_session_def drain_def)

text \<open>A read that keeps within the bounds.\<close>

definition fits :: "'a line_app \<Rightarrow> 'a driver \<Rightarrow> session_event \<Rightarrow> bool" where
  "fits ap d e = (case e of Data bs \<Rightarrow> buf_ok (pump ap None (with_text (bytes_text bs) d)) | Settle _ \<Rightarrow> True | _ \<Rightarrow> False)"

fun all_fit :: "'a line_app \<Rightarrow> 'a driver \<Rightarrow> session_event list \<Rightarrow> bool" where
  "all_fit ap d [] = True"
| "all_fit ap d (e # es) = (fits ap d e \<and> all_fit ap (drv_step ap None d e) es)"

definition data_of :: "session_event \<Rightarrow> byte list" where
  "data_of e = (case e of Data bs \<Rightarrow> bs | _ \<Rightarrow> [])"

lemma drv_data_fits:
  "\<not> dr_relay d \<Longrightarrow> buf_ok (pump ap None (with_text (bytes_text bs) d)) \<Longrightarrow> drv_data ap None bs d = pump ap None (with_text (bytes_text bs) d)"
  by (auto simp: drv_data_def buf_ok_def Let_def)

lemma drain_step:
  assumes r: "resolves ap" and s: "in_session d" and f: "fits ap d e"
  shows "in_session (drv_step ap None d e)"
    and "drain ap (drv_step ap None d e) = pump (sync_app ap) None (with_text (bytes_text (data_of e)) (drain ap d))"
proof -
  have relay: "\<not> dr_relay d" using s by (simp add: in_session_def)
  have "in_session (drv_step ap None d e) \<and>
    drain ap (drv_step ap None d e) = pump (sync_app ap) None (with_text (bytes_text (data_of e)) (drain ap d))"
  proof (cases e)
    case (Data bs)
    have step: "drv_step ap None d e = pump ap None (with_text (bytes_text bs) d)"
      using Data f drv_data_fits [OF relay] by (simp add: fits_def)
    show ?thesis
    proof (cases "dr_busy d")
      case False
      then have "dr_promises d = []" using s by (simp add: in_session_def)
      then show ?thesis using drain_pump [OF r, of "with_text (bytes_text bs) d"] False relay step drain_idle [OF s False] Data by (simp add: data_of_def)
    next
      case True
      then obtain rr where p: "dr_promises d = [(dr_gen d, Resolved rr)]" using s by (auto simp: in_session_def)
      let ?d = "d\<lparr>dr_promises := [], dr_busy := False\<rparr>"
      have same: "drv_step ap None d e = with_text (bytes_text bs) d" using step True by (simp add: pump_stop)
      have "(with_text (bytes_text bs) d)\<lparr>dr_promises := [], dr_busy := False\<rparr> = with_text (bytes_text bs) ?d" by (simp add: with_text_def)
      then have "drain ap (drv_step ap None d e) = pump (sync_app ap) None (with_text (bytes_text bs) (apply_reply None rr ?d))"
        using same p drain_busy [of "with_text (bytes_text bs) d" "dr_gen d" rr ap] by (simp add: apply_none_more)
      moreover have "in_session (with_text (bytes_text bs) d)" using s True by (simp add: in_session_def)
      ultimately show ?thesis using same drain_busy [OF p, of ap] Data by (simp add: data_of_def pump_more)
    qed
  next
    case (Settle i)
    have no_text: "bytes_text (data_of e) = []" using Settle by (simp add: data_of_def bytes_text_def)
    show ?thesis
    proof (cases "dr_busy d \<and> i = 0")
      case True
      then obtain rr where p: "dr_promises d = [(dr_gen d, Resolved rr)]" using s by (auto simp: in_session_def)
      let ?d = "d\<lparr>dr_promises := [], dr_busy := False\<rparr>"
      have "drv_step ap None d e = pump ap None (apply_reply None rr ?d)"
        using Settle True p by (simp add: drv_settle_def)
      then have "in_session (drv_step ap None d e) \<and> drain ap (drv_step ap None d e) = pump (sync_app ap) None (drain ap d)"
        using drain_pump [OF r, of "apply_reply None rr ?d"] relay drain_busy [OF p, of ap] pump_more [of "sync_app ap" "[]" "apply_reply None rr ?d"] by simp
      then show ?thesis using no_text by (metis with_text_fields(7))
    next
      case False
      then have "drv_step ap None d e = d" using Settle s by (auto simp: drv_settle_def in_session_def split: if_splits)
      moreover have "pump (sync_app ap) None (drain ap d) = drain ap d"
        using pump_more [of "sync_app ap" "[]"] s drain_idle [OF s, of ap] drain_busy [of d "dr_gen d" _ ap]
        by (cases "dr_busy d") (auto simp: in_session_def pump_stop)
      ultimately show ?thesis using s by (simp add: no_text)
    qed
  qed (use f in \<open>simp_all add: fits_def\<close>)
  then show "in_session (drv_step ap None d e)"
    "drain ap (drv_step ap None d e) = pump (sync_app ap) None (with_text (bytes_text (data_of e)) (drain ap d))" by simp_all
qed

lemma drain_run:
  "resolves ap \<Longrightarrow> in_session d \<Longrightarrow> all_fit ap d es \<Longrightarrow>
   in_session (drv_run ap None d es) \<and>
   drain ap (drv_run ap None d es) = pump (sync_app ap) None (with_text (bytes_text (concat (map data_of es))) (drain ap d))"
proof (induction es arbitrary: d)
  case Nil
  have "pump (sync_app ap) None (drain ap d) = drain ap d"
    using drain_step(2) [OF Nil(1,2), of "Settle (length (dr_promises d))"] by (simp add: fits_def drv_settle_def data_of_def bytes_text_def)
  then show ?case using Nil by (simp add: drv_run_def bytes_text_def)
next
  case (Cons e es)
  let ?d = "drv_step ap None d e"
  have s: "in_session ?d" "drain ap ?d = pump (sync_app ap) None (with_text (bytes_text (data_of e)) (drain ap d))"
    using drain_step [OF Cons.prems(1,2)] Cons.prems(3) by auto
  have "in_session (drv_run ap None ?d es) \<and>
    drain ap (drv_run ap None ?d es) = pump (sync_app ap) None (with_text (bytes_text (concat (map data_of es))) (drain ap ?d))"
    using Cons.IH [OF Cons.prems(1) s(1)] Cons.prems(3) by simp
  then show ?case using s(2) by (simp add: drv_run_def pump_more bytes_text_def)
qed

lemma pump_le: "length (dr_buf (pump ap oc d)) \<le> length (dr_buf d)"
proof (induction d rule: pump_induct [where ap = ap and oc = oc])
  case (now d l rest a r)
  then show ?case using pump_now [OF now(1-3)] apply_reply_shorter [OF now(2), of oc r a d] by simp
next
  case (later d l rest a out)
  then show ?case using pump_later [OF later(1-3)] next_line_shorter [OF later(2)] by simp
qed (simp add: pump_stop)

lemma pump_shorter: "\<not> dr_busy d \<Longrightarrow> next_line (dr_buf d) \<noteq> None \<Longrightarrow> length (dr_buf (pump ap oc d)) < length (dr_buf d)"
proof -
  assume b: "\<not> dr_busy d" and "next_line (dr_buf d) \<noteq> None"
  then obtain l rest where n: "next_line (dr_buf d) = Some (l, rest)" by auto
  obtain a ans where h: "la_handle ap (dr_app d) l = (a, ans)" by (cases "la_handle ap (dr_app d) l")
  show ?thesis
  proof (cases ans)
    case (Now r)
    have "length (dr_buf (pump ap oc d)) \<le> length (dr_buf (apply_reply oc r (d\<lparr>dr_app := a, dr_buf := rest\<rparr>)))"
      using pump_now [OF b n h [unfolded Now], of oc] pump_le [of ap oc] by simp
    then show ?thesis using apply_reply_shorter [OF n, of oc r a d] by simp
  next
    case (Later out)
    then show ?thesis using pump_later [OF b n h [unfolded Later], of oc] next_line_shorter [OF n] by simp
  qed
qed

lemma settle_idle: "in_session d \<Longrightarrow> \<not> dr_busy d \<Longrightarrow> drv_settle ap oc i d = d"
  by (simp add: drv_settle_def in_session_def)

text \<open>Enough settlements answer every line that has arrived.\<close>

lemma settles:
  assumes "resolves ap"
  shows "in_session d \<Longrightarrow> \<exists>n. \<not> dr_busy (drv_run ap None d (replicate n (Settle 0)))"
proof (induction d rule: measure_induct_rule [of "\<lambda>d. length (dr_buf d)"])
  case (less d)
  show ?case
  proof (cases "dr_busy d")
    case True
    then obtain rr where p: "dr_promises d = [(dr_gen d, Resolved rr)]" using less.prems by (auto simp: in_session_def)
    let ?d = "drv_step ap None d (Settle 0)" and ?e = "apply_reply None rr (d\<lparr>dr_promises := [], dr_busy := False\<rparr>)"
    have d: "?d = pump ap None ?e" using p by (simp add: drv_settle_def)
    have i: "in_session ?d" using drain_step(1) [OF assms less.prems, of "Settle 0"] by (simp add: fits_def)
    show ?thesis
    proof (cases "dr_busy ?d")
      case False
      then show ?thesis by (intro exI [of _ "Suc 0"]) (simp add: drv_run_def)
    next
      case True
      have "next_line (dr_buf ?e) \<noteq> None"
      proof
        assume "next_line (dr_buf ?e) = None"
        then have "?d = ?e" using d pump_stop [of ?e ap None] by simp
        then show False using True by simp
      qed
      then have "length (dr_buf ?d) < length (dr_buf d)" using d pump_shorter [of ?e ap None] by simp
      then obtain n where "\<not> dr_busy (drv_run ap None ?d (replicate n (Settle 0)))" using less.IH i by blast
      then show ?thesis by (intro exI [of _ "Suc n"]) (simp add: drv_run_def)
    qed
  qed (auto intro: exI [of _ 0] simp: drv_run_def)
qed

text \<open>C23: In the first session of a driver that connects nowhere through, with an application whose promises all resolve and
  reads that stay within the buffers: however the text is cut into reads, and whenever the promises settle, once they have
  settled the session is the one of the same application answering at once to the whole text: every line is answered,
  in order, and once. (A promise left over from an earlier session breaks the order, \<open>stale_promise_reorders\<close>.)\<close>

theorem driver_answers_in_order:
  assumes "resolves ap" "all_fit ap (drv_up ap (new_driver a)) es"
  shows "\<exists>n. drv_run ap None (drv_up ap (new_driver a)) (es @ replicate n (Settle 0))
     = drv_run (sync_app ap) None (drv_up ap (new_driver a)) [Data (concat (map data_of es))]"
proof -
  let ?start = "drv_up ap (new_driver a)"
  have s0: "in_session ?start" "\<not> dr_busy ?start" by (simp_all add: drv_up_def new_driver_def in_session_def next_line_def)
  let ?d = "drv_run ap None ?start es"
  have s: "in_session ?d" using drain_run [OF assms(1) s0(1) assms(2)] by simp
  then obtain n where n: "\<not> dr_busy (drv_run ap None ?d (replicate n (Settle 0)))" using settles [OF assms(1)] by blast
  let ?f = "drv_run ap None ?start (es @ replicate n (Settle 0))"
  have f: "?f = drv_run ap None ?d (replicate n (Settle 0))" by (simp add: drv_run_def)
  have settle_fit: "all_fit ap d (replicate n (Settle 0))" for d n by (induction n arbitrary: d) (simp_all add: fits_def)
  have r: "in_session ?f" "drain ap ?f = pump (sync_app ap) None (with_text (bytes_text (concat (map data_of (replicate n (Settle 0))))) (drain ap ?d))"
    using drain_run [OF assms(1) s settle_fit [of ?d n]] f by auto
  have data: "bytes_text (concat (map data_of (replicate n (Settle 0)))) = []" by (simp add: data_of_def bytes_text_def)
  have "drain ap ?f = pump (sync_app ap) None (with_text (bytes_text (concat (map data_of es))) ?start)"
    using r(2) [unfolded data] drain_run [OF assms(1) s0(1) assms(2)] drain_idle [OF s0] pump_more [of "sync_app ap" "[]"] by simp
  then have whole: "?f = pump (sync_app ap) None (with_text (bytes_text (concat (map data_of es))) ?start)"
    using drain_idle [OF r(1)] n f by simp
  have "buf_ok ?start" by (simp add: buf_ok_def tail_len_def drv_up_def new_driver_def)
  then have "buf_ok ?f" unfolding drv_run_def by (rule line_driver.run_inv_foldl) simp
  then have "drv_data (sync_app ap) None (concat (map data_of es)) ?start = ?f"
    using whole s0(1) drv_data_fits [of ?start "sync_app ap"] by (simp add: in_session_def)
  then show ?thesis by (intro exI [of _ n]) (simp add: drv_run_def)
qed

text \<open>An application that repeats what it is told, the lines with a space later than the others.\<close>

definition says :: "string list \<Rightarrow> line_reply" where
  "says ls = \<lparr>lr_lines = ls, lr_disconnect = False, lr_connect = None\<rparr>"

definition echo_app :: "string list line_app" where
  "echo_app = \<lparr>la_greeting = (\<lambda>a. [''Hello'']),
     la_handle = (\<lambda>a l. (a @ [l], if CHR '' '' \<in> set l then Later (Resolved (says [l])) else Now (says [l])))\<rparr>"

lemmas driver_eval = drv_up_def new_driver_def drv_data_def pump.simps next_line_def with_text_def is_line_break_def
  apply_reply_def push_lines_def emit_def echo_app_def says_def buf_ok_def tail_len_def MAX_LINE_BUF_def MAX_PENDING_BUF_def Let_def

lemma driver_answers_in_order_witness:
  "\<exists>n. drv_run echo_app None (drv_up echo_app (new_driver [])) ([Data (text_bytes ''R 1''), Data (text_bytes [CHR 0x0d, CHR ''H'', CHR 0x0d]), Settle 0] @ replicate n (Settle 0))
     = drv_run (sync_app echo_app) None (drv_up echo_app (new_driver [])) [Data (text_bytes (''R 1'' @ [CHR 0x0d, CHR ''H'', CHR 0x0d]))]"
proof -
  have "resolves echo_app" by (simp add: resolves_def echo_app_def)
  moreover have "all_fit echo_app (drv_up echo_app (new_driver [])) [Data (text_bytes ''R 1''), Data (text_bytes [CHR 0x0d, CHR ''H'', CHR 0x0d]), Settle 0]"
    by (simp add: fits_def driver_eval)
  ultimately have "\<exists>n. drv_run echo_app None (drv_up echo_app (new_driver [])) ([Data (text_bytes ''R 1''), Data (text_bytes [CHR 0x0d, CHR ''H'', CHR 0x0d]), Settle 0] @ replicate n (Settle 0))
     = drv_run (sync_app echo_app) None (drv_up echo_app (new_driver []))
         [Data (concat (map data_of [Data (text_bytes ''R 1''), Data (text_bytes [CHR 0x0d, CHR ''H'', CHR 0x0d]), Settle 0]))]"
    by (rule driver_answers_in_order)
  moreover have "concat (map data_of [Data (text_bytes ''R 1''), Data (text_bytes [CHR 0x0d, CHR ''H'', CHR 0x0d]), Settle 0])
      = text_bytes (''R 1'' @ [CHR 0x0d, CHR ''H'', CHR 0x0d])"
    by (simp add: data_of_def text_bytes_def)
  ultimately show ?thesis by simp
qed

text \<open>
  A promise of an earlier session that settles in a later one lets the next line overtake the one being
  answered: in the second session \<open>R 2\<close> is sent before \<open>H\<close>, and \<open>H\<close> is answered first.
\<close>

theorem stale_promise_reorders:
  "dr_trace (drv_run echo_app None (new_driver [])
     [Up, Data (text_bytes (''R 1'' @ [CHR 0x0d])), Down, Up, Data (text_bytes (''R 2'' @ [CHR 0x0d])), Settle 0,
      Data (text_bytes (''H'' @ [CHR 0x0d])), Settle 0])
   = map (\<lambda>l. Send_bytes (text_bytes (l @ [CHR 0x0d]))) [''Hello'', ''Hello'', ''H'', ''R 2'']"
  by (simp add: drv_run_def drv_down_def drv_settle_def driver_eval) (simp add: text_bytes_def)

end
