(* ===== verification/Fbb_Block.thy ===== *)
theory Fbb_Block
  imports Interfaces
begin

text \<open>
  The compressed transport of F6FBB forwarding, \<open>packages/packet/src/fbb-binary.ts\<close>: the block
  framing with its additive checksum, the streaming decoder, the header of a transfer, the
  negotiation by the flags of the SIDs. The compression itself is in \<open>Lzhuf\<close>.
\<close>

section \<open>Writing a transfer\<close>

definition SOH :: byte where "SOH = 0x01"
definition STX :: byte where "STX = 0x02"
definition EOT :: byte where "EOT = 0x04"
definition FBB_DATA_BLOCK :: nat where "FBB_DATA_BLOCK = 250"

function data_blocks :: "byte list \<Rightarrow> byte list" where
  "data_blocks d =
     (if d = [] then []
      else let chunk = take FBB_DATA_BLOCK d
           in [STX, byte_of (length chunk)] @ chunk @ data_blocks (drop FBB_DATA_BLOCK d))"
  by pat_completeness auto
termination
  by (relation "measure length") (auto simp: FBB_DATA_BLOCK_def)

declare data_blocks.simps [simp del]

definition encode_binary_transfer :: "byte list \<Rightarrow> byte list \<Rightarrow> byte list" where
  "encode_binary_transfer header data =
     [SOH, byte_of (length header)] @ header @ data_blocks data @ [EOT, - (sum_list header + sum_list data)]"

section \<open>The streaming decoder\<close>

record binary_transfer =
  bt_header :: "byte list"
  bt_data :: "byte list"
  bt_checksum_ok :: bool

datatype dec_state = D_Type | D_Soh_Len | D_Soh_Data | D_Stx_Len | D_Stx_Data | D_Eot_Chk

record bt_decoder =
  bd_state :: dec_state
  bd_header :: "byte list"
  bd_data :: "byte list"
  bd_chk :: byte
  bd_need :: nat
  bd_overflow :: bool
  bd_max :: nat

definition new_bt_decoder :: "nat \<Rightarrow> bt_decoder" where
  "new_bt_decoder max_bytes =
     \<lparr>bd_state = D_Type, bd_header = [], bd_data = [], bd_chk = 0, bd_need = 0, bd_overflow = False, bd_max = max_bytes\<rparr>"

definition bd_reset :: "bt_decoder \<Rightarrow> bt_decoder" where
  "bd_reset s = s\<lparr>bd_header := [], bd_data := [], bd_chk := 0, bd_need := 0, bd_overflow := False\<rparr>"

definition bd_accum_header :: "byte \<Rightarrow> bt_decoder \<Rightarrow> bt_decoder" where
  "bd_accum_header b s =
     (let s = s\<lparr>bd_chk := bd_chk s + b\<rparr>
      in if length (bd_header s) + 1 > bd_max s then s\<lparr>bd_overflow := True\<rparr>
         else s\<lparr>bd_header := bd_header s @ [b]\<rparr>)"

definition bd_accum_data :: "byte \<Rightarrow> bt_decoder \<Rightarrow> bt_decoder" where
  "bd_accum_data b s =
     (let s = s\<lparr>bd_chk := bd_chk s + b\<rparr>
      in if length (bd_data s) + 1 > bd_max s then s\<lparr>bd_overflow := True\<rparr>
         else s\<lparr>bd_data := bd_data s @ [b]\<rparr>)"

definition bd_count :: "bt_decoder \<Rightarrow> bt_decoder" where
  "bd_count s = (let s = s\<lparr>bd_need := bd_need s - 1\<rparr> in if bd_need s = 0 then s\<lparr>bd_state := D_Type\<rparr> else s)"

definition bd_byte :: "bt_decoder \<Rightarrow> byte \<Rightarrow> bt_decoder \<times> binary_transfer list" where
  "bd_byte s b = (case bd_state s of
      D_Type \<Rightarrow>
        (if b = SOH then s\<lparr>bd_state := D_Soh_Len\<rparr> else if b = STX then s\<lparr>bd_state := D_Stx_Len\<rparr>
         else if b = EOT then s\<lparr>bd_state := D_Eot_Chk\<rparr> else s, [])
    | D_Soh_Len \<Rightarrow>
        ((bd_reset s)\<lparr>bd_need := unat b, bd_state := (if unat b \<noteq> 0 then D_Soh_Data else D_Type)\<rparr>, [])
    | D_Soh_Data \<Rightarrow> (bd_count (bd_accum_header b s), [])
    | D_Stx_Len \<Rightarrow> (s\<lparr>bd_need := (if b = 0 then 256 else unat b), bd_state := D_Stx_Data\<rparr>, [])
    | D_Stx_Data \<Rightarrow> (bd_count (bd_accum_data b s), [])
    | D_Eot_Chk \<Rightarrow>
        ((bd_reset s)\<lparr>bd_state := D_Type\<rparr>,
         [\<lparr>bt_header = bd_header s, bt_data = bd_data s, bt_checksum_ok = (\<not> bd_overflow s \<and> bd_chk s + b = 0)\<rparr>]))"

fun bd_push :: "bt_decoder \<Rightarrow> byte list \<Rightarrow> bt_decoder \<times> binary_transfer list" where
  "bd_push s [] = (s, [])"
| "bd_push s (b # bs) =
     (let (s1, o1) = bd_byte s b; (s2, o2) = bd_push s1 bs in (s2, o1 @ o2))"

section \<open>Headers, line ends, flags of a SID\<close>

definition build_header :: "string \<Rightarrow> nat \<Rightarrow> byte list" where
  "build_header title off = text_bytes (title @ [CHR 0x00] @ nat_str off @ [CHR 0x00])"

definition parse_binary_header :: "byte list \<Rightarrow> string \<times> int" where
  "parse_binary_header header =
     (let pieces = split_on (CHR 0x00) (bytes_text header)
      in (hd pieces, if length pieces < 2 then 0 else case js_number (pieces ! 1) of None \<Rightarrow> 0 | Some n \<Rightarrow> n))"

text \<open>\<open>replace(/\r\n?/g, "\n")\<close>, then \<open>replace(/\n/g, "\r\n")\<close>; and back.\<close>

fun drop_cr :: "bool \<Rightarrow> string \<Rightarrow> string" where
  "drop_cr after [] = []"
| "drop_cr after (c # s) =
     (if c = CHR 0x0d then CHR 0x0a # drop_cr True s
      else if after \<and> c = CHR 0x0a then drop_cr False s
      else c # drop_cr False s)"

definition to_crlf :: "string \<Rightarrow> byte list" where
  "to_crlf s = text_bytes (concat (map (\<lambda>c. if c = CHR 0x0a then [CHR 0x0d, CHR 0x0a] else [c]) (drop_cr False s)))"

fun crlf_lf :: "string \<Rightarrow> string" where
  "crlf_lf (c # d # s) = (if c = CHR 0x0d \<and> d = CHR 0x0a then d # crlf_lf s else c # crlf_lf (d # s))"
| "crlf_lf s = s"

definition from_crlf :: "byte list \<Rightarrow> string" where
  "from_crlf bs = crlf_lf (bytes_text bs)"

function sid_flags_from :: "string \<Rightarrow> string" where
  "sid_flags_from s =
     (case index_of (CHR ''['') s of
        None \<Rightarrow> []
      | Some opn \<Rightarrow>
          case index_of (CHR '']'') (drop (opn + 1) s) of
            None \<Rightarrow> []
          | Some n \<Rightarrow>
              let inner = take n (drop (opn + 1) s)
              in case last_index_of (CHR ''-'') inner of
                   Some dash \<Rightarrow> js_upper (filter (\<lambda>c. c \<noteq> CHR ''$'') (drop (dash + 1) inner))
                 | None \<Rightarrow> sid_flags_from (drop (opn + 1 + n + 1) s))"
  by pat_completeness auto
termination
  by (relation "measure length") (auto simp: index_of_Some)

declare sid_flags_from.simps [simp del]

definition sid_flags :: "string \<Rightarrow> string" where
  "sid_flags sid = sid_flags_from (js_trim sid)"

definition sid_has_compression :: "string \<Rightarrow> bool" where
  "sid_has_compression sid = (CHR ''B'' \<in> set (sid_flags sid))"

definition compression_agreed :: "string \<Rightarrow> string \<Rightarrow> bool" where
  "compression_agreed my_sid peer_sid = (sid_has_compression my_sid \<and> sid_has_compression peer_sid)"

section \<open>The decoder as a stream decoder\<close>

lemma bd_push_append:
  "bd_push s (xs @ ys) =
     (fst (bd_push (fst (bd_push s xs)) ys), snd (bd_push s xs) @ snd (bd_push (fst (bd_push s xs)) ys))"
  by (induction xs arbitrary: s) (simp_all add: split_beta Let_def)

interpretation transfers: stream_decoder bd_push "\<lambda>s. True"
  by unfold_locales (simp_all add: bd_push_append)

text \<open>What the decoder holds is within its limit, whatever it is fed.\<close>

definition bd_inv :: "bt_decoder \<Rightarrow> bool" where
  "bd_inv s = (length (bd_header s) \<le> bd_max s \<and> length (bd_data s) \<le> bd_max s \<and> bd_need s \<le> 256
     \<and> (bd_state s \<in> {D_Soh_Data, D_Stx_Data} \<longrightarrow> 0 < bd_need s))"

lemma bd_byte_inv: "bd_inv s \<Longrightarrow> bd_inv (fst (bd_byte s b)) \<and> bd_max (fst (bd_byte s b)) = bd_max s"
  using unat_byte_lt [of b]
  by (cases "bd_state s")
    (auto simp: bd_inv_def bd_byte_def bd_reset_def bd_count_def bd_accum_header_def bd_accum_data_def Let_def less_imp_le unat_gt_0)

interpretation bd_machine: invariant_machine "\<lambda>s b. fst (bd_byte s b)" bd_inv "\<lambda>s b. True"
  by unfold_locales (simp add: bd_byte_inv)

section \<open>A transfer is read back\<close>

lemma push_header:
  assumes "bd_state s = D_Soh_Data" "bd_need s = length h" "h \<noteq> []" "\<not> bd_overflow s"
    "length (bd_header s) + length h \<le> bd_max s"
  shows "bd_push s h = (s\<lparr>bd_state := D_Type, bd_need := 0, bd_header := bd_header s @ h, bd_chk := bd_chk s + sum_list h\<rparr>, [])"
  using assms
proof (induction h arbitrary: s)
  case (Cons b h)
  let ?s = "bd_count (bd_accum_header b s)"
  have b: "bd_byte s b = (?s, [])" using Cons.prems by (simp add: bd_byte_def)
  show ?case
  proof (cases "h = []")
    case True
    then show ?thesis using Cons.prems b by (simp add: bd_count_def bd_accum_header_def Let_def)
  next
    case False
    have s: "?s = s\<lparr>bd_need := length h, bd_header := bd_header s @ [b], bd_chk := bd_chk s + b\<rparr>"
      using Cons.prems False by (simp add: bd_count_def bd_accum_header_def Let_def)
    show ?thesis using Cons.prems False b Cons.IH [of ?s] unfolding s by (simp add: add.assoc)
  qed
qed simp

lemma push_data:
  assumes "bd_state s = D_Stx_Data" "bd_need s = length h" "h \<noteq> []" "\<not> bd_overflow s"
    "length (bd_data s) + length h \<le> bd_max s"
  shows "bd_push s h = (s\<lparr>bd_state := D_Type, bd_need := 0, bd_data := bd_data s @ h, bd_chk := bd_chk s + sum_list h\<rparr>, [])"
  using assms
proof (induction h arbitrary: s)
  case (Cons b h)
  let ?s = "bd_count (bd_accum_data b s)"
  have b: "bd_byte s b = (?s, [])" using Cons.prems by (simp add: bd_byte_def)
  show ?case
  proof (cases "h = []")
    case True
    then show ?thesis using Cons.prems b by (simp add: bd_count_def bd_accum_data_def Let_def)
  next
    case False
    have s: "?s = s\<lparr>bd_need := length h, bd_data := bd_data s @ [b], bd_chk := bd_chk s + b\<rparr>"
      using Cons.prems False by (simp add: bd_count_def bd_accum_data_def Let_def)
    show ?thesis using Cons.prems False b Cons.IH [of ?s] unfolding s by (simp add: add.assoc)
  qed
qed simp

lemma markers [simp]: "SOH \<noteq> STX" "SOH \<noteq> EOT" "STX \<noteq> EOT" "STX \<noteq> SOH" "EOT \<noteq> SOH" "EOT \<noteq> STX"
  by (simp_all add: SOH_def STX_def EOT_def)

lemma push_blocks:
  assumes "bd_state s = D_Type" "\<not> bd_overflow s" "length (bd_data s) + length d \<le> bd_max s" "bd_need s = 0"
  shows "bd_push s (data_blocks d) = (s\<lparr>bd_data := bd_data s @ d, bd_chk := bd_chk s + sum_list d\<rparr>, [])"
  using assms
proof (induction d arbitrary: s rule: data_blocks.induct)
  case (1 d)
  show ?case
  proof (cases "d = []")
    case False
    let ?c = "take FBB_DATA_BLOCK d" and ?r = "drop FBB_DATA_BLOCK d"
    have c: "?c \<noteq> []" "length ?c < 256" using False by (auto simp: FBB_DATA_BLOCK_def)
    then have n: "byte_of (length ?c) \<noteq> 0" "unat (byte_of (length ?c)) = length ?c"
      using byte_of_inj [of "length ?c" 0] by (auto simp: byte_of_def unat_of_nat)
    let ?s1 = "s\<lparr>bd_state := D_Stx_Data, bd_need := length ?c\<rparr>"
    let ?s2 = "s\<lparr>bd_data := bd_data s @ ?c, bd_chk := bd_chk s + sum_list ?c\<rparr>"
    have h: "bd_push s [STX, byte_of (length ?c)] = (?s1, [])"
      using 1(2) n by (simp add: bd_byte_def)
    have l: "length (bd_data s) + length ?c \<le> bd_max s" using 1(4) by simp
    have p: "bd_push ?s1 ?c = (?s2, [])"
    proof -
      have e: "?s1\<lparr>bd_state := D_Type, bd_need := 0, bd_data := bd_data ?s1 @ ?c, bd_chk := bd_chk ?s1 + sum_list ?c\<rparr> = ?s2"
        using 1(2,5) by (cases s) simp
      have "bd_push ?s1 ?c =
          (?s1\<lparr>bd_state := D_Type, bd_need := 0, bd_data := bd_data ?s1 @ ?c, bd_chk := bd_chk ?s1 + sum_list ?c\<rparr>, [])"
        by (rule push_data) (use 1(3) c l in simp_all)
      then show ?thesis unfolding e .
    qed
    have r: "bd_push ?s2 (data_blocks ?r) = (?s2\<lparr>bd_data := bd_data ?s2 @ ?r, bd_chk := bd_chk ?s2 + sum_list ?r\<rparr>, [])"
      using 1(2-5) by (intro 1(1) [OF False]) simp_all
    have sum: "sum_list ?c + sum_list ?r = sum_list d" by (metis append_take_drop_id sum_list_append)
    have "data_blocks d = [STX, byte_of (length ?c)] @ ?c @ data_blocks ?r"
      using False by (subst data_blocks.simps) (simp add: Let_def)
    then have "bd_push s (data_blocks d) = bd_push ?s2 (data_blocks ?r)"
      using h p by (simp only: bd_push_append [of s "[STX, byte_of (length ?c)]"] bd_push_append [of ?s1]
        fst_conv snd_conv append_Nil prod.collapse)
    then show ?thesis unfolding r using sum by (simp add: add.assoc)
  qed (simp add: data_blocks.simps)
qed

lemma transfer_read_back:
  assumes "bd_state s = D_Type" "length h < 256" "length h \<le> bd_max s" "length d \<le> bd_max s"
  shows "bd_push s (encode_binary_transfer h d) =
    (new_bt_decoder (bd_max s), [\<lparr>bt_header = h, bt_data = d, bt_checksum_ok = True\<rparr>])"
proof -
  let ?s1 = "(bd_reset s)\<lparr>bd_state := D_Type, bd_header := h, bd_chk := sum_list h\<rparr>"
  have n: "unat (byte_of (length h)) = length h" using assms(2) by simp
  have h: "bd_push s ([SOH, byte_of (length h)] @ h) = (?s1, [])"
  proof (cases "h = []")
    case True
    then show ?thesis using assms(1) n by (cases s) (simp add: bd_byte_def bd_reset_def)
  next
    case False
    let ?s0 = "(bd_reset s)\<lparr>bd_need := length h, bd_state := D_Soh_Data\<rparr>"
    have "bd_push s [SOH, byte_of (length h)] = (?s0, [])"
      using assms(1) n False by (simp add: bd_byte_def bd_reset_def)
    moreover have "bd_push ?s0 h = (?s1, [])"
      using assms(3) False by (subst push_header) (simp_all add: bd_reset_def)
    ultimately show ?thesis unfolding bd_push_append by simp
  qed
  let ?s2 = "?s1\<lparr>bd_data := d, bd_chk := sum_list h + sum_list d\<rparr>"
  have b: "bd_push ?s1 (data_blocks d) = (?s2, [])"
    using assms(4) by (subst push_blocks) (simp_all add: bd_reset_def)
  have e: "bd_push ?s2 [EOT, - (sum_list h + sum_list d)] =
      (new_bt_decoder (bd_max s), [\<lparr>bt_header = h, bt_data = d, bt_checksum_ok = True\<rparr>])"
    by (cases s) (simp add: bd_byte_def bd_reset_def new_bt_decoder_def)
  have "encode_binary_transfer h d = ([SOH, byte_of (length h)] @ h) @ data_blocks d @ [EOT, - (sum_list h + sum_list d)]"
    by (simp add: encode_binary_transfer_def)
  then show ?thesis using h b e by (simp only: bd_push_append fst_conv snd_conv append_Nil)
qed

text \<open>
  However the link cuts the stream of transfers into reads, the receiver gets the headers and the data
  that were framed, in order, each with its checksum verified. A header has at most 255 bytes, the most
  its length byte can say, and header and data fit the receiver's limit.
\<close>

theorem transfer_stream_roundtrip:
  assumes "\<forall>(h, d)\<in>set ts. length h < 256 \<and> length h \<le> limit \<and> length d \<le> limit"
    and "concat reads = concat (map (\<lambda>(h, d). encode_binary_transfer h d) ts)"
  shows "snd (transfers.push_all (new_bt_decoder limit) reads) =
    map (\<lambda>(h, d). \<lparr>bt_header = h, bt_data = d, bt_checksum_ok = True\<rparr>) ts"
proof -
  have max: "bd_max (new_bt_decoder limit) = limit" "bd_state (new_bt_decoder limit) = D_Type"
    by (simp_all add: new_bt_decoder_def)
  have "bd_push (new_bt_decoder limit) (concat (map (\<lambda>(h, d). encode_binary_transfer h d) ts)) =
      (new_bt_decoder limit, map (\<lambda>(h, d). \<lparr>bt_header = h, bt_data = d, bt_checksum_ok = True\<rparr>) ts)"
    using assms(1)
    by (induction ts) (auto simp: bd_push_append transfer_read_back max simp del: bd_push.simps(2))
  then show ?thesis by (simp add: transfers.push_all_concat assms(2))
qed

lemma transfer_stream_roundtrip_witness:
  "snd (transfers.push_all (new_bt_decoder 8)
      [[0x01, 2, 65], [0, 0x02, 3, 1, 2], [4, 0x04, 184, 0x01, 1, 66, 0x04, 190]])
    = [\<lparr>bt_header = [65, 0], bt_data = [1, 2, 4], bt_checksum_ok = True\<rparr>,
       \<lparr>bt_header = [66], bt_data = [], bt_checksum_ok = True\<rparr>]"
proof -
  have "encode_binary_transfer [65, 0] [1, 2, 4] = [0x01, 2, 65, 0, 0x02, 3, 1, 2, 4, 0x04, 184]"
    "encode_binary_transfer [66] [] = [0x01, 1, 66, 0x04, 190]"
    by (simp_all add: encode_binary_transfer_def data_blocks.simps byte_of_def FBB_DATA_BLOCK_def SOH_def STX_def EOT_def)
  then have "snd (transfers.push_all (new_bt_decoder 8)
      [[0x01, 2, 65], [0, 0x02, 3, 1, 2], [4, 0x04, 184, 0x01, 1, 66, 0x04, 190]]) =
    map (\<lambda>(h, d). \<lparr>bt_header = h, bt_data = d, bt_checksum_ok = True\<rparr>) [([65, 0], [1, 2, 4]), ([66], [])]"
    by (intro transfer_stream_roundtrip) simp_all
  then show ?thesis by simp
qed

section \<open>A title too long for its length byte\<close>

lemma push_idle:
  "bd_state s = D_Type \<Longrightarrow> \<forall>b\<in>set xs. b \<notin> {SOH, STX, EOT} \<Longrightarrow> bd_push s xs = (s, [])"
  by (induction xs) (auto simp: bd_byte_def)

text \<open>
  The length byte of the header block is the length modulo 256. A header of 256 bytes is announced as
  empty: its bytes are then read as block markers and skipped, and the receiver gets a transfer without
  title or offset, whose checksum verifies only if the header's bytes happen to add up to 0.
\<close>

theorem long_header_lost:
  assumes "length h = 256" "\<forall>b\<in>set h. b \<notin> {SOH, STX, EOT}" "length d \<le> limit"
  shows "bd_push (new_bt_decoder limit) (encode_binary_transfer h d) =
    (new_bt_decoder limit, [\<lparr>bt_header = [], bt_data = d, bt_checksum_ok = (sum_list h = 0)\<rparr>])"
proof -
  let ?s = "new_bt_decoder limit"
  have l: "byte_of (length h) = 0" using byte_of_mod [of 256] unfolding assms(1) by (simp add: byte_of_def)
  have h: "bd_push ?s [SOH, byte_of (length h)] = (?s, [])"
    unfolding l by (simp add: bd_byte_def bd_reset_def new_bt_decoder_def)
  have i: "bd_push ?s h = (?s, [])" using assms(2) by (intro push_idle) (auto simp: new_bt_decoder_def)
  let ?s2 = "?s\<lparr>bd_data := d, bd_chk := sum_list d\<rparr>"
  have b: "bd_push ?s (data_blocks d) = (?s2, [])"
    using assms(3) by (subst push_blocks) (simp_all add: new_bt_decoder_def)
  have "sum_list d + - (sum_list h + sum_list d) = - sum_list h" by simp
  then have e: "bd_push ?s2 [EOT, - (sum_list h + sum_list d)] =
      (?s, [\<lparr>bt_header = [], bt_data = d, bt_checksum_ok = (sum_list h = 0)\<rparr>])"
    by (simp add: bd_byte_def bd_reset_def new_bt_decoder_def)
  show ?thesis unfolding encode_binary_transfer_def
    using h i b e by (simp only: bd_push_append fst_conv snd_conv append_Nil)
qed

lemma long_header_lost_witness:
  "bd_push (new_bt_decoder 4) (encode_binary_transfer (replicate 255 0x41 @ [0]) [7]) =
    (new_bt_decoder 4, [\<lparr>bt_header = [], bt_data = [7], bt_checksum_ok = False\<rparr>])"
proof -
  have "sum_list (replicate 255 (0x41 :: byte) @ [0]) = 0xbf" by (simp add: sum_list_replicate)
  then show ?thesis
    by (subst long_header_lost) (auto simp: SOH_def STX_def EOT_def)
qed

section \<open>Headers and line ends are read back\<close>

lemma header_roundtrip:
  assumes "CHR 0x00 \<notin> set title"
  shows "parse_binary_header (build_header title n) = (title, int n)"
proof -
  have "CHR 0x00 \<notin> set (nat_str n)" using nat_str_digits [of "CHR 0x00" n] by (auto simp: is_digit_def char_code_def)
  then have "split_on (CHR 0x00) (title @ CHR 0x00 # nat_str n @ CHR 0x00 # []) = [title, nat_str n, []]"
    using assms split_on_append [of "CHR 0x00" title "nat_str n @ [CHR 0x00]"] split_on_append [of "CHR 0x00" "nat_str n" "[]"]
    by simp
  then show ?thesis by (simp add: parse_binary_header_def build_header_def del: text_bytes_append)
qed

lemma drop_cr_id: "CHR 0x0d \<notin> set s \<Longrightarrow> drop_cr False s = s"
  by (induction s) auto

lemma crlf_lf_other: "c \<noteq> CHR 0x0d \<Longrightarrow> crlf_lf (c # s) = c # crlf_lf s"
  by (cases s) auto

lemma crlf_roundtrip:
  assumes "CHR 0x0d \<notin> set s"
  shows "from_crlf (to_crlf s) = s"
proof -
  have "crlf_lf (concat (map (\<lambda>c. if c = CHR 0x0a then [CHR 0x0d, CHR 0x0a] else [c]) s)) = s"
    using assms by (induction s) (auto simp: crlf_lf_other)
  then show ?thesis using assms by (simp add: to_crlf_def from_crlf_def drop_cr_id)
qed

end
