(* ===== verification/Fbb_Session.thy ===== *)
theory Fbb_Session
  imports Fbb_Forward Fbb_Block
begin

text \<open>
  One side of an F6FBB forwarding session, \<open>packages/packet/src/fbb-session.ts\<close>, on the message store
  of a scheduled session, \<open>SessionStore\<close> of \<open>packages/packet/src/fbb-scheduler.ts\<close>: SIDs, proposals,
  answers, bodies as text or as compressed blocks, the reversal of the direction after each block.
  The compression is a pair of functions given to the session; \<open>Fbb_Compressed\<close> supplies the code's own.
\<close>

section \<open>Messages and the store\<close>

record fbb_message =
  fm_type :: bbs_type
  fm_from :: string
  fm_at :: string
  fm_to :: string
  fm_bid :: string
  fm_title :: string
  fm_body :: string

record session_store =
  ss_queue :: "fbb_message list"
  ss_held :: "string list"
  ss_inbox :: "fbb_message list"
  ss_sent_bids :: "string list"

definition new_session_store :: "fbb_message list \<Rightarrow> string list \<Rightarrow> session_store" where
  "new_session_store queue held =
     \<lparr>ss_queue = queue, ss_held = held @ map fm_bid queue, ss_inbox = [], ss_sent_bids = []\<rparr>"

definition has_bid :: "string \<Rightarrow> session_store \<Rightarrow> bool" where
  "has_bid bid st = (bid \<in> set (ss_held st))"

definition store_accept :: "fbb_message \<Rightarrow> session_store \<Rightarrow> session_store" where
  "store_accept m st = st\<lparr>ss_held := fm_bid m # ss_held st, ss_inbox := ss_inbox st @ [m]\<rparr>"

fun remove_bid :: "string \<Rightarrow> fbb_message list \<Rightarrow> fbb_message list" where
  "remove_bid bid [] = []"
| "remove_bid bid (m # ms) = (if fm_bid m = bid then ms else m # remove_bid bid ms)"

definition store_sent :: "string \<Rightarrow> session_store \<Rightarrow> session_store" where
  "store_sent bid st = st\<lparr>ss_sent_bids := ss_sent_bids st @ [bid], ss_queue := remove_bid bid (ss_queue st)\<rparr>"

section \<open>The session\<close>

definition CTRLZ :: string where "CTRLZ = [CHR 0x1a]"
definition MAX_BLOCK :: nat where "MAX_BLOCK = 5"
definition MAX_RECV_BYTES :: nat where "MAX_RECV_BYTES = 65536"

datatype phase = Await_Sid | Await_Fs | Recv_Block | Await_Proposals | Done

record fbb_opts =
  fo_initiator :: bool
  fo_sid :: "string option"
  fo_sid_already_sent :: bool
  fo_compress :: bool

record fbb_session =
  fs_store :: session_store
  fs_opts :: fbb_opts
  fs_phase :: phase
  fs_sent_sid :: bool
  fs_offered :: "proposal list"
  fs_accepting :: "proposal list"
  fs_rx_acc :: "string list"
  fs_rx_title :: "string option"
  fs_rx_bytes :: nat
  fs_pending_rx :: "proposal list"
  fs_compressed :: bool
  fs_pending_binary :: "byte list list"
  fs_deferred :: "string list"

text \<open>Compression of a message (title, body, resume offset) and decompression of a transfer up to a size.\<close>

record fbb_codec =
  cz_compress :: "string \<Rightarrow> string \<Rightarrow> nat option \<Rightarrow> byte list"
  cz_decompress :: "binary_transfer \<Rightarrow> nat \<Rightarrow> (string \<times> string \<times> bool) option"

definition new_fbb_session :: "session_store \<Rightarrow> fbb_opts \<Rightarrow> fbb_session" where
  "new_fbb_session st opts =
     \<lparr>fs_store = st, fs_opts = opts, fs_phase = Await_Sid, fs_sent_sid = False, fs_offered = [],
      fs_accepting = [], fs_rx_acc = [], fs_rx_title = None, fs_rx_bytes = 0, fs_pending_rx = [],
      fs_compressed = False, fs_pending_binary = [], fs_deferred = []\<rparr>"

definition split_breaks :: "string \<Rightarrow> string list" where
  "split_breaks t = split_on (CHR 0x0a) (map (\<lambda>c. if is_line_break c then CHR 0x0a else c) t)"

definition has_bracket_pair :: "string \<Rightarrow> bool" where
  "has_bracket_pair t =
     (\<exists>l\<in>set (split_breaks t). case index_of (CHR ''['') l of
        None \<Rightarrow> False
      | Some opn \<Rightarrow> (case last_index_of (CHR '']'') l of None \<Rightarrow> False | Some c \<Rightarrow> opn < c))"

text \<open>The flag \<open>B\<close> put into the flags of a SID: \<open>/-([A-Za-z0-9]*\$?)\]\s*$/\<close> replaced by \<open>-B<flags>]\<close>.\<close>

definition is_alnum :: "char \<Rightarrow> bool" where
  "is_alnum c = (is_digit c \<or> (65 \<le> char_code c \<and> char_code c \<le> 90) \<or> (97 \<le> char_code c \<and> char_code c \<le> 122))"

definition inject_b :: "string \<Rightarrow> string" where
  "inject_b base =
     (case rev (js_trim_end base) of
        [] \<Rightarrow> base
      | c # r \<Rightarrow>
          if c \<noteq> CHR '']'' then base
          else let dollar = (r \<noteq> [] \<and> hd r = CHR ''$''); r1 = (if dollar then tl r else r);
                   flags = rev (takeWhile is_alnum r1) @ (if dollar then ''$'' else []);
                   r2 = dropWhile is_alnum r1
               in if r2 \<noteq> [] \<and> hd r2 = CHR ''-'' then rev (tl r2) @ ''-B'' @ flags @ '']'' else base)"

definition session_sid :: "fbb_session \<Rightarrow> string" where
  "session_sid s =
     (let base = (case fo_sid (fs_opts s) of Some b \<Rightarrow> b
                  | None \<Rightarrow> if fo_compress (fs_opts s) then ''[ACG-1.0-BF$]'' else ''[ACG-1.0-F$]'')
      in if \<not> fo_compress (fs_opts s) \<or> sid_has_compression base then base else inject_b base)"

definition expecting_binary :: "fbb_session \<Rightarrow> nat" where
  "expecting_binary s = (if fs_compressed s \<and> fs_phase s = Recv_Block then length (fs_pending_rx s) else 0)"

definition take_binary :: "fbb_session \<Rightarrow> byte list list \<times> fbb_session" where
  "take_binary s = (fs_pending_binary s, s\<lparr>fs_pending_binary := []\<rparr>)"

definition first_word :: "string \<Rightarrow> string" where
  "first_word s = hd (split_ws (js_trim s))"

definition offer_of :: "fbb_message \<Rightarrow> proposal" where
  "offer_of m = \<lparr>pr_type = fm_type m, pr_from = first_word (fm_from m), pr_to = first_word (fm_to m),
     pr_at = first_word (fm_at m), pr_bid = first_word (fm_bid m), pr_size = int (length (fm_body m))\<rparr>"

definition propose_block :: "fbb_session \<Rightarrow> string list \<times> fbb_session" where
  "propose_block s =
     (let out = take MAX_BLOCK (filter (\<lambda>m. fm_bid m \<notin> set (fs_deferred s)) (ss_queue (fs_store s)))
      in if out = [] then ([''FF''], s\<lparr>fs_phase := Await_Proposals\<rparr>)
         else let s = s\<lparr>fs_offered := map offer_of out, fs_phase := Await_Fs\<rparr>
              in (if fs_compressed s then build_proposal_FA (fs_offered s) else build_proposal (fs_offered s), s))"

definition fbb_start :: "fbb_session \<Rightarrow> string list \<times> fbb_session" where
  "fbb_start s =
     (if \<not> fo_initiator (fs_opts s) then ([], s)
      else let s = s\<lparr>fs_sent_sid := True\<rparr>
           in if fo_compress (fs_opts s) then ([session_sid s], s)
              else let (ls, s') = propose_block s in (session_sid s # ls, s'))"

text \<open>The loop over the offered proposals and the verdicts on them; a missing verdict defers.\<close>

fun send_loop :: "fbb_codec \<Rightarrow> proposal list \<Rightarrow> fs_verdict list \<Rightarrow> fbb_session \<Rightarrow> string list \<times> fbb_session" where
  "send_loop cz [] vs s = ([], s)"
| "send_loop cz (p # ps) vs s =
     (let fs = (case vs of [] \<Rightarrow> None | v # _ \<Rightarrow> Some v)
      in case fs of
           None \<Rightarrow> send_loop cz ps (tl vs) (s\<lparr>fs_deferred := pr_bid p # fs_deferred s\<rparr>)
         | Some v \<Rightarrow>
             if fv_verdict v = Defer then send_loop cz ps (tl vs) (s\<lparr>fs_deferred := pr_bid p # fs_deferred s\<rparr>)
             else let (ls, s) =
                    (if fv_verdict v = Accept
                     then case find (\<lambda>q. fm_bid q = pr_bid p) (ss_queue (fs_store s)) of
                            None \<Rightarrow> ([], s)
                          | Some m \<Rightarrow>
                              if fs_compressed s
                              then ([], s\<lparr>fs_pending_binary := fs_pending_binary s @ [cz_compress cz (fm_title m) (fm_body m) (fv_offset v)]\<rparr>)
                              else (fm_title m # split_on (CHR 0x0a) (fm_body m) @ [CTRLZ], s)
                     else ([], s));
                  (ls', s) = send_loop cz ps (tl vs) (s\<lparr>fs_store := store_sent (pr_bid p) (fs_store s)\<rparr>)
                  in (ls @ ls', s))"

definition send_accepted :: "fbb_codec \<Rightarrow> fs_verdict list \<Rightarrow> fbb_session \<Rightarrow> string list \<times> fbb_session" where
  "send_accepted cz vs s =
     (let (ls, s) = send_loop cz (fs_offered s) vs s in (ls, s\<lparr>fs_offered := [], fs_phase := Await_Proposals\<rparr>))"

definition message_of :: "proposal \<Rightarrow> string \<Rightarrow> string \<Rightarrow> fbb_message" where
  "message_of p title body =
     \<lparr>fm_type = (if pr_type p = Traffic then Personal else pr_type p), fm_from = pr_from p, fm_at = pr_at p,
      fm_to = pr_to p, fm_bid = pr_bid p, fm_title = title, fm_body = body\<rparr>"

definition fbb_feed_binary :: "fbb_codec \<Rightarrow> fbb_session \<Rightarrow> binary_transfer \<Rightarrow> string list \<times> bool \<times> fbb_session" where
  "fbb_feed_binary cz s t =
     (if fs_phase s \<noteq> Recv_Block then ([], False, s)
      else let rest = (\<lambda>s. if fs_pending_rx s = [] then let (ls, s) = propose_block (s\<lparr>fs_phase := Await_Proposals\<rparr>) in (ls, False, s)
                          else ([], False, s))
           in case fs_pending_rx s of
                [] \<Rightarrow> rest s
              | p # ps \<Rightarrow>
                  (case cz_decompress cz t MAX_RECV_BYTES of
                     None \<Rightarrow> ([''FQ''], True, s\<lparr>fs_pending_rx := [], fs_phase := Done\<rparr>)
                   | Some (title, body, crc_ok) \<Rightarrow>
                       rest (s\<lparr>fs_pending_rx := ps,
                               fs_store := (if crc_ok then store_accept (message_of p title body) (fs_store s) else fs_store s)\<rparr>)))"

text \<open>A line while a body is received as text: the title, the end of the message, or a line of the body.\<close>

definition fbb_body_line :: "fbb_session \<Rightarrow> string \<Rightarrow> string \<Rightarrow> string list \<times> bool \<times> fbb_session" where
  "fbb_body_line s raw t =
     (if fs_rx_title s = None \<and> t \<noteq> CTRLZ \<and> raw \<noteq> CTRLZ then ([], False, s\<lparr>fs_rx_title := Some raw\<rparr>)
      else if raw = CTRLZ \<or> t = CTRLZ then
        (let clear = (\<lambda>s. s\<lparr>fs_rx_title := None, fs_rx_acc := [], fs_rx_bytes := 0\<rparr>)
         in case fs_pending_rx s of
              [] \<Rightarrow> ([], False, (clear s)\<lparr>fs_phase := Await_Proposals\<rparr>)
            | p # ps \<Rightarrow>
                let m = message_of p (case fs_rx_title s of None \<Rightarrow> [] | Some title \<Rightarrow> title) (join_with [CHR 0x0a] (fs_rx_acc s));
                    s = clear (s\<lparr>fs_pending_rx := ps, fs_store := store_accept m (fs_store s)\<rparr>)
                in if fs_pending_rx s = [] then let (ls, s) = propose_block s in (ls, False, s) else ([], False, s))
      else
        let s = s\<lparr>fs_rx_bytes := fs_rx_bytes s + (length raw + 1)\<rparr>;
            proposed = (case fs_pending_rx s of [] \<Rightarrow> 0 | p # _ \<Rightarrow> pr_size p);
            limit = min (int MAX_RECV_BYTES) (max (proposed * 2 + 1024) 4096)
        in if int (fs_rx_bytes s) > limit
           then ([''FQ''], True, s\<lparr>fs_rx_title := None, fs_rx_acc := [], fs_rx_bytes := 0, fs_phase := Done\<rparr>)
           else ([], False, s\<lparr>fs_rx_acc := fs_rx_acc s @ [raw]\<rparr>))"

definition fbb_sid_line :: "fbb_session \<Rightarrow> string \<Rightarrow> string list \<times> bool \<times> fbb_session" where
  "fbb_sid_line s t =
     (if \<not> has_bracket_pair t then ([], False, s)
      else let s = s\<lparr>fs_compressed := (fo_compress (fs_opts s) \<and> compression_agreed (session_sid s) t)\<rparr>;
               (reply, s) = (if fo_initiator (fs_opts s) \<or> fo_sid_already_sent (fs_opts s) \<or> fs_sent_sid s then ([], s)
                             else ([session_sid s], s\<lparr>fs_sent_sid := True\<rparr>))
           in if fo_initiator (fs_opts s) \<and> fo_compress (fs_opts s)
              then let (ls, s) = propose_block s in (ls, False, s)
              else (reply, False, s\<lparr>fs_phase := Await_Proposals\<rparr>))"

definition fbb_proposal_line :: "fbb_session \<Rightarrow> string \<Rightarrow> string list \<times> bool \<times> fbb_session" where
  "fbb_proposal_line s t =
     (if js_upper (take 2 t) = ''FQ'' then ([], True, s\<lparr>fs_phase := Done\<rparr>)
      else if js_upper (take 2 t) = ''FF'' then
        (let (mine, s) = propose_block s
         in if mine = [''FF''] then ([''FQ''], True, s\<lparr>fs_phase := Done\<rparr>) else (mine, False, s))
      else case parse_proposal t of
        Some p \<Rightarrow> ([], False, s\<lparr>fs_accepting := fs_accepting s @ [p]\<rparr>)
      | None \<Rightarrow>
          if take 2 t = ''F>'' then
            (let wanted = (\<lambda>pr. \<not> has_bid (pr_bid pr) (fs_store s));
                 verdicts = map (\<lambda>pr. if wanted pr then CHR ''+'' else CHR ''-'') (fs_accepting s);
                 s = s\<lparr>fs_pending_rx := filter wanted (fs_accepting s), fs_accepting := []\<rparr>;
                 s = s\<lparr>fs_phase := (if fs_pending_rx s \<noteq> [] then Recv_Block else Await_Proposals)\<rparr>;
                 fs = ''FS '' @ verdicts
             in if fs_pending_rx s \<noteq> [] then ([fs], False, s)
                else let (ls, s) = propose_block s in (fs # ls, False, s))
          else ([], False, s))"

definition fbb_feed :: "fbb_codec \<Rightarrow> fbb_session \<Rightarrow> string \<Rightarrow> string list \<times> bool \<times> fbb_session" where
  "fbb_feed cz s line =
     (let raw = trim_end_where is_line_break line; t = js_trim raw
      in case fs_phase s of
           Await_Sid \<Rightarrow> fbb_sid_line s t
         | Await_Fs \<Rightarrow>
             if js_upper (take 2 t) \<noteq> ''FS'' then ([], False, s)
             else let (ls, s) = send_accepted cz (parse_fs_detailed t) s in (ls, False, s)
         | Await_Proposals \<Rightarrow> fbb_proposal_line s t
         | Recv_Block \<Rightarrow> if fs_compressed s then ([], False, s) else fbb_body_line s raw t
         | Done \<Rightarrow> ([], False, s))"

section \<open>What a session holds\<close>

definition rx_size :: "string list \<Rightarrow> nat" where
  "rx_size ls = sum_list (map (\<lambda>l. length l + 1) ls)"

lemma rx_size_simps [simp]: "rx_size [] = 0" "rx_size (l # ls) = length l + 1 + rx_size ls"
  "rx_size (ls @ ks) = rx_size ls + rx_size ks"
  by (simp_all add: rx_size_def)

lemma length_join_lines: "ls \<noteq> [] \<Longrightarrow> length (join_with [c] ls) + 1 = rx_size ls"
  by (induction "[c]" ls rule: join_with.induct) auto

lemma length_join_le: "length (join_with [c] ls) \<le> rx_size ls"
  using length_join_lines [of ls c] by (cases "ls = []") auto

datatype fbb_event = Line string | Transfer binary_transfer

fun fbb_step :: "fbb_codec \<Rightarrow> fbb_session \<Rightarrow> fbb_event \<Rightarrow> fbb_session" where
  "fbb_step cz s (Line l) = snd (snd (fbb_feed cz s l))"
| "fbb_step cz s (Transfer t) = snd (snd (fbb_feed_binary cz s t))"

text \<open>
  The state of a session. \<open>held\<close> are message identifiers that were held when the session began:
  nothing with one of them is stored again. Bodies stay within the ceiling.
\<close>

definition fbb_store_inv :: "string set \<Rightarrow> fbb_message list \<Rightarrow> session_store \<Rightarrow> bool" where
  "fbb_store_inv held base st = (held \<subseteq> set (ss_held st) \<and> fm_bid ` set (ss_inbox st) \<subseteq> set (ss_held st)
     \<and> (\<exists>new. ss_inbox st = base @ new \<and> (\<forall>m\<in>set new. fm_bid m \<notin> held \<and> length (fm_body m) \<le> MAX_RECV_BYTES)))"

definition fbb_inv :: "string set \<Rightarrow> fbb_message list \<Rightarrow> fbb_session \<Rightarrow> bool" where
  "fbb_inv held base s = (fs_rx_bytes s = rx_size (fs_rx_acc s) \<and> fs_rx_bytes s \<le> MAX_RECV_BYTES
     \<and> length (fs_offered s) \<le> MAX_BLOCK
     \<and> (fs_phase s = Recv_Block \<longrightarrow> fs_pending_rx s \<noteq> [])
     \<and> (fs_phase s \<noteq> Recv_Block \<and> fs_phase s \<noteq> Done \<longrightarrow> fs_pending_rx s = [])
     \<and> (\<forall>p\<in>set (fs_pending_rx s). pr_bid p \<notin> held)
     \<and> fbb_store_inv held base (fs_store s))"

lemma store_accept_inv:
  assumes "fbb_store_inv held base st" "fm_bid m \<notin> held" "length (fm_body m) \<le> MAX_RECV_BYTES"
  shows "fbb_store_inv held base (store_accept m st)"
proof -
  obtain new where "ss_inbox st = base @ new" "\<forall>m\<in>set new. fm_bid m \<notin> held \<and> length (fm_body m) \<le> MAX_RECV_BYTES"
    using assms(1) by (auto simp: fbb_store_inv_def)
  then have "ss_inbox (store_accept m st) = base @ (new @ [m])" "\<forall>x\<in>set (new @ [m]). fm_bid x \<notin> held \<and> length (fm_body x) \<le> MAX_RECV_BYTES"
    using assms(2,3) by (auto simp: store_accept_def)
  then have "\<exists>new. ss_inbox (store_accept m st) = base @ new \<and> (\<forall>m\<in>set new. fm_bid m \<notin> held \<and> length (fm_body m) \<le> MAX_RECV_BYTES)" by blast
  then show ?thesis using assms(1) by (auto simp: fbb_store_inv_def store_accept_def)
qed

lemma store_sent_inv: "fbb_store_inv held base st \<Longrightarrow> fbb_store_inv held base (store_sent b st)"
  by (auto simp: fbb_store_inv_def store_sent_def)

lemma propose_block_inv [inv_intros]:
  "fbb_inv held base s \<Longrightarrow> fs_pending_rx s = [] \<Longrightarrow> fbb_inv held base (snd (propose_block s))"
  by (auto simp: propose_block_def fbb_inv_def Let_def MAX_BLOCK_def)

lemma propose_block_phase:
  "fs_phase (snd (propose_block s)) \<in> {Await_Proposals, Await_Fs}" "fs_store (snd (propose_block s)) = fs_store s"
  by (simp_all add: propose_block_def Let_def)

lemma propose_pending [simp]: "fs_pending_rx (snd (propose_block s)) = fs_pending_rx s"
  by (simp add: propose_block_def Let_def)

lemma send_loop_keeps:
  "fs_rx_bytes (snd (send_loop cz ps vs s)) = fs_rx_bytes s" "fs_rx_acc (snd (send_loop cz ps vs s)) = fs_rx_acc s"
  "fs_pending_rx (snd (send_loop cz ps vs s)) = fs_pending_rx s" "fs_phase (snd (send_loop cz ps vs s)) = fs_phase s"
  "fbb_store_inv held base (fs_store s) \<Longrightarrow> fbb_store_inv held base (fs_store (snd (send_loop cz ps vs s)))"
proof (induction cz ps vs s rule: send_loop.induct)
  case (2 cz p ps vs s)
  { case 1 then show ?case using 2 by (cases vs) (auto simp: Let_def split_beta split: option.splits verdict.splits) }
  { case 2 then show ?case using "2.IH" by (cases vs) (auto simp: Let_def split_beta split: option.splits verdict.splits) }
  { case 3 then show ?case using "2.IH" by (cases vs) (auto simp: Let_def split_beta split: option.splits verdict.splits) }
  { case 4 then show ?case using "2.IH" by (cases vs) (auto simp: Let_def split_beta split: option.splits verdict.splits) }
  { case 5 then show ?case using "2.IH" by (cases vs) (auto simp: Let_def split_beta store_sent_inv split: option.splits verdict.splits) }
qed simp_all

lemma sid_line_inv: "fbb_inv held base s \<Longrightarrow> fs_phase s = Await_Sid \<Longrightarrow> fbb_inv held base (snd (snd (fbb_sid_line s t)))"
proof -
  assume i: "fbb_inv held base s" and p: "fs_phase s = Await_Sid"
  then have pend: "fs_pending_rx s = []" by (simp add: fbb_inv_def)
  have "fbb_inv held base (s\<lparr>fs_compressed := c\<rparr>)" "fbb_inv held base (s\<lparr>fs_compressed := c, fs_sent_sid := b\<rparr>)"
    "fbb_inv held base (s\<lparr>fs_compressed := c, fs_phase := Await_Proposals\<rparr>)"
    "fbb_inv held base (s\<lparr>fs_compressed := c, fs_sent_sid := b, fs_phase := Await_Proposals\<rparr>)" for c b
    using i p by (simp_all add: fbb_inv_def)
  then show ?thesis using i pend propose_block_inv
    by (simp add: fbb_sid_line_def Let_def split_beta)
qed

lemma send_accepted_inv: "fbb_inv held base s \<Longrightarrow> fs_phase s = Await_Fs \<Longrightarrow> fbb_inv held base (snd (send_accepted cz vs s))"
  by (auto simp: send_accepted_def fbb_inv_def Let_def split_beta send_loop_keeps)

lemma proposal_line_inv:
  assumes i: "fbb_inv held base s" and p: "fs_phase s = Await_Proposals"
  shows "fbb_inv held base (snd (snd (fbb_proposal_line s t)))"
proof -
  have pend: "fs_pending_rx s = []" using i p by (simp add: fbb_inv_def)
  have a: "fbb_inv held base (s\<lparr>fs_phase := Done\<rparr>)" "fbb_inv held base (snd (propose_block s))"
    "fbb_inv held base ((snd (propose_block s))\<lparr>fs_phase := Done\<rparr>)" "fbb_inv held base (s\<lparr>fs_accepting := ps\<rparr>)" for ps
    using i pend propose_block_inv [OF i pend] p by (simp_all add: fbb_inv_def)
  let ?w = "filter (\<lambda>pr. \<not> has_bid (pr_bid pr) (fs_store s)) (fs_accepting s)"
  let ?s = "\<lambda>ph. s\<lparr>fs_pending_rx := ?w, fs_accepting := [], fs_phase := ph\<rparr>"
  have b: "fbb_inv held base (?s Recv_Block)" if "?w \<noteq> []"
    using i that by (auto simp: fbb_inv_def fbb_store_inv_def has_bid_def)
  have c: "fbb_inv held base (?s Await_Proposals)" if "?w = []"
    using i that p by (simp add: fbb_inv_def)
  have d: "fbb_inv held base (snd (propose_block (?s Await_Proposals)))" if "?w = []"
    using c [OF that] that by (intro propose_block_inv) simp_all
  show ?thesis using i a b c d
    by (simp add: fbb_proposal_line_def Let_def split_beta split: option.splits)
qed

lemma body_line_inv:
  assumes i: "fbb_inv held base s" and p: "fs_phase s = Recv_Block"
  shows "fbb_inv held base (snd (snd (fbb_body_line s raw t)))"
proof -
  obtain pr ps where pend: "fs_pending_rx s = pr # ps" using i p by (auto simp: fbb_inv_def neq_Nil_conv)
  have title: "fbb_inv held base (s\<lparr>fs_rx_title := x\<rparr>)" for x using i p by (simp add: fbb_inv_def)
  let ?m = "message_of pr (case fs_rx_title s of None \<Rightarrow> [] | Some title \<Rightarrow> title) (join_with [CHR 0x0a] (fs_rx_acc s))"
  let ?s = "s\<lparr>fs_pending_rx := ps, fs_store := store_accept ?m (fs_store s), fs_rx_title := None, fs_rx_acc := [], fs_rx_bytes := 0\<rparr>"
  have l: "length (join_with [CHR 0x0a] (fs_rx_acc s)) \<le> MAX_RECV_BYTES"
    using i length_join_le [of "CHR 0x0a" "fs_rx_acc s"] by (simp add: fbb_inv_def)
  have "fbb_store_inv held base (store_accept ?m (fs_store s))"
    using i pend l by (intro store_accept_inv) (simp_all add: fbb_inv_def message_of_def)
  then have acc: "ps \<noteq> [] \<Longrightarrow> fbb_inv held base ?s" "ps = [] \<Longrightarrow> fbb_inv held base (?s\<lparr>fs_phase := Await_Proposals\<rparr>)"
    using i p pend by (simp_all add: fbb_inv_def)
  have turn: "fbb_inv held base (snd (propose_block ?s))" if "ps = []"
  proof -
    have "propose_block ?s = propose_block (?s\<lparr>fs_phase := Await_Proposals\<rparr>)" by (simp add: propose_block_def Let_def)
    then show ?thesis using propose_block_inv [OF acc(2) [OF that]] that by simp
  qed
  let ?over = "s\<lparr>fs_rx_title := None, fs_rx_acc := [], fs_rx_bytes := 0, fs_phase := Done\<rparr>"
  have over: "fbb_inv held base ?over" using i p by (simp add: fbb_inv_def)
  have line: "fbb_inv held base (s\<lparr>fs_rx_bytes := fs_rx_bytes s + (length raw + 1), fs_rx_acc := fs_rx_acc s @ [raw]\<rparr>)"
    if "int (fs_rx_bytes s + (length raw + 1)) \<le> min (int MAX_RECV_BYTES) (max (pr_size pr * 2 + 1024) 4096)"
    using i p that by (simp add: fbb_inv_def)
  show ?thesis using title [of "Some raw"] acc(1) turn over line pend
    by (auto simp: fbb_body_line_def Let_def split_beta not_less)
qed

text \<open>What a session relies on in the decompression it is given: a body no longer than the size allowed.\<close>

locale bounded_codec =
  fixes cz :: fbb_codec
  assumes body_bounded: "cz_decompress cz t n = Some (title, body, ok) \<Longrightarrow> length body \<le> n"
begin

lemma feed_binary_inv:
  assumes i: "fbb_inv held base s"
  shows "fbb_inv held base (snd (snd (fbb_feed_binary cz s t)))"
proof (cases "fs_phase s = Recv_Block")
  case True
  then obtain pr ps where pend: "fs_pending_rx s = pr # ps" using i by (auto simp: fbb_inv_def neq_Nil_conv)
  have ended: "fbb_inv held base (s\<lparr>fs_pending_rx := [], fs_phase := Done\<rparr>)" using i by (simp add: fbb_inv_def)
  have store: "fbb_store_inv held base (if ok then store_accept (message_of pr title body) (fs_store s) else fs_store s)"
    if "cz_decompress cz t MAX_RECV_BYTES = Some (title, body, ok)" for title body ok
    using i pend body_bounded [OF that] by (auto simp: fbb_inv_def message_of_def intro!: store_accept_inv)
  have "fbb_inv held base (s\<lparr>fs_pending_rx := ps, fs_store := st\<rparr>)" if "ps \<noteq> []" "fbb_store_inv held base st" for st
    using i pend that True by (simp add: fbb_inv_def)
  moreover have "fbb_inv held base (snd (propose_block (s\<lparr>fs_pending_rx := [], fs_store := st, fs_phase := Await_Proposals\<rparr>)))"
    if "ps = []" "fbb_store_inv held base st" for st
    using i that by (intro propose_block_inv) (simp_all add: fbb_inv_def)
  ultimately show ?thesis using True pend ended store
    by (auto simp: fbb_feed_binary_def Let_def split_beta split: option.splits)
qed (use i in \<open>simp add: fbb_feed_binary_def\<close>)

lemma fbb_step_inv: "fbb_inv held base s \<Longrightarrow> fbb_inv held base (fbb_step cz s e)"
proof (cases e)
  case (Line l)
  assume "fbb_inv held base s"
  then show ?thesis using sid_line_inv send_accepted_inv proposal_line_inv body_line_inv Line
    by (cases "fs_phase s") (simp_all add: fbb_feed_def Let_def split_beta)
qed (simp add: feed_binary_inv)

end

sublocale bounded_codec \<subseteq> session: invariant_machine "fbb_step cz" "fbb_inv held base" "\<lambda>s e. True"
  for held base by unfold_locales (rule fbb_step_inv)

end
