(* ===== verification/Fbb_Exchange.thy ===== *)
theory Fbb_Exchange
  imports Fbb_Session
begin

text \<open>
  Two forwarding sessions of \<open>Fbb_Session\<close> talking to each other over a link that carries lines:
  what the one sends is what the other hears, until neither has anything left to say.
\<close>

section \<open>The conversation\<close>

fun feed_lines :: "fbb_codec \<Rightarrow> fbb_session \<Rightarrow> string list \<Rightarrow> string list \<times> fbb_session" where
  "feed_lines cz s [] = ([], s)"
| "feed_lines cz s (l # ls) =
     (let (o1, _, s1) = fbb_feed cz s l; (o2, s2) = feed_lines cz s1 ls in (o1 @ o2, s2))"

text \<open>One round: the called station hears the lines, then the caller hears its answer.\<close>

fun converse :: "fbb_codec \<Rightarrow> nat \<Rightarrow> fbb_session \<Rightarrow> fbb_session \<Rightarrow> string list \<Rightarrow> fbb_session \<times> fbb_session \<times> string list" where
  "converse cz 0 b a ls = (b, a, ls)"
| "converse cz (Suc n) b a ls =
     (let (o1, b1) = feed_lines cz b ls; (o2, a1) = feed_lines cz a o1 in converse cz n b1 a1 o2)"

lemma feed_lines_append:
  "feed_lines cz s (xs @ ys) =
     (fst (feed_lines cz s xs) @ fst (feed_lines cz (snd (feed_lines cz s xs)) ys),
      snd (feed_lines cz (snd (feed_lines cz s xs)) ys))"
  by (induction xs arbitrary: s) (simp_all add: split_beta Let_def)

lemma converse_add: "converse cz (m + n) b a ls = (case converse cz m b a ls of (b', a', ls') \<Rightarrow> converse cz n b' a' ls')"
  by (induction m arbitrary: b a ls) (simp_all add: split_beta Let_def)

section \<open>The messages of a conversation\<close>

text \<open>
  A message the text protocol can carry: single-word fields, a title of one line, no line that is the
  end-of-message mark, a body within the receive ceiling.
\<close>

definition offerable :: "fbb_message \<Rightarrow> bool" where
  "offerable m = (fm_type m \<noteq> Traffic \<and> token (fm_from m) \<and> token (fm_at m) \<and> token (fm_to m) \<and> token (fm_bid m)
     \<and> (\<forall>c\<in>set (fm_title m). \<not> is_line_break c) \<and> js_trim (fm_title m) \<noteq> CTRLZ
     \<and> CHR 0x0d \<notin> set (fm_body m) \<and> (\<forall>l\<in>set (split_on (CHR 0x0a) (fm_body m)). js_trim l \<noteq> CTRLZ))"

definition sendable :: "fbb_message \<Rightarrow> bool" where
  "sendable m = (offerable m \<and> length (fm_body m) < MAX_RECV_BYTES)"

definition received :: "fbb_message \<Rightarrow> fbb_message" where
  "received m = m\<lparr>fm_from := js_upper (fm_from m), fm_at := js_upper (fm_at m), fm_to := js_upper (fm_to m)\<rparr>"

definition message_text :: "fbb_message \<Rightarrow> string list" where
  "message_text m = fm_title m # split_on (CHR 0x0a) (fm_body m) @ [CTRLZ]"

lemma rx_size_split_on: "rx_size (split_on c s) = length s + 1"
  using length_join_lines [of "split_on c s" c] by (simp add: join_split_on)

lemma first_word_token: "token w \<Longrightarrow> first_word w = w"
  by (simp add: first_word_def token_def js_trim_no_space split_ws_word)

lemma trim_breaks_id: "\<forall>c\<in>set l. \<not> is_line_break c \<Longrightarrow> trim_end_where is_line_break l = l"
  by (intro trim_end_where_id) (metis last_in_set)

lemma ctrlz_facts [simp]: "trim_end_where is_line_break CTRLZ = CTRLZ" "js_trim CTRLZ = CTRLZ"
proof -
  show "trim_end_where is_line_break CTRLZ = CTRLZ"
    by (intro trim_end_where_id) (simp add: CTRLZ_def is_line_break_def)
  show "js_trim CTRLZ = CTRLZ"
    by (intro js_trim_no_space) (simp add: CTRLZ_def is_space_def char_code_def)
qed

section \<open>Receiving a block\<close>

lemma feed_body_line:
  assumes "fs_phase s = Recv_Block" "\<not> fs_compressed s" "fs_rx_title s = Some x" "fs_pending_rx s = p # ps"
    "\<forall>c\<in>set l. \<not> is_line_break c" "js_trim l \<noteq> CTRLZ" "fs_rx_bytes s + (length l + 1) \<le> MAX_RECV_BYTES"
    "int (fs_rx_bytes s + (length l + 1)) \<le> pr_size p + 1"
  shows "fbb_feed cz s l =
    ([], False, s\<lparr>fs_rx_bytes := fs_rx_bytes s + (length l + 1), fs_rx_acc := fs_rx_acc s @ [l]\<rparr>)"
proof -
  have raw: "trim_end_where is_line_break l = l" by (rule trim_breaks_id) (rule assms(5))
  have "l \<noteq> CTRLZ" using assms(6) by auto
  moreover have "\<not> int (fs_rx_bytes s + (length l + 1)) > min (int MAX_RECV_BYTES) (max (pr_size p * 2 + 1024) 4096)"
    using assms(7,8) by linarith
  ultimately show ?thesis using assms raw by (simp add: fbb_feed_def fbb_body_line_def Let_def)
qed

lemma feed_body_lines:
  assumes "fs_phase s = Recv_Block" "\<not> fs_compressed s" "fs_rx_title s = Some x" "fs_pending_rx s = p # ps"
    "\<forall>l\<in>set ls. (\<forall>c\<in>set l. \<not> is_line_break c) \<and> js_trim l \<noteq> CTRLZ" "fs_rx_bytes s + rx_size ls \<le> MAX_RECV_BYTES"
    "int (fs_rx_bytes s + rx_size ls) \<le> pr_size p + 1"
  shows "feed_lines cz s ls = ([], s\<lparr>fs_rx_bytes := fs_rx_bytes s + rx_size ls, fs_rx_acc := fs_rx_acc s @ ls\<rparr>)"
  using assms
proof (induction ls arbitrary: s)
  case (Cons l ls)
  let ?s = "s\<lparr>fs_rx_bytes := fs_rx_bytes s + (length l + 1), fs_rx_acc := fs_rx_acc s @ [l]\<rparr>"
  have f: "fbb_feed cz s l = ([], False, ?s)"
    by (rule feed_body_line) (use Cons.prems in auto)
  have "feed_lines cz ?s ls = ([], ?s\<lparr>fs_rx_bytes := fs_rx_bytes ?s + rx_size ls, fs_rx_acc := fs_rx_acc ?s @ ls\<rparr>)"
    by (rule Cons.IH) (use Cons.prems in auto)
  then show ?case using f by (simp add: add.assoc)
qed simp

text \<open>A receiver between two messages.\<close>

definition ready_rx :: "fbb_session \<Rightarrow> bool" where
  "ready_rx s = (\<not> fs_compressed s \<and> fs_rx_title s = None \<and> fs_rx_acc s = [] \<and> fs_rx_bytes s = 0)"

lemma feed_text:
  assumes s: "fs_phase s = Recv_Block" "ready_rx s" "fs_pending_rx s = p # ps"
    and title: "\<forall>c\<in>set title. \<not> is_line_break c" "js_trim title \<noteq> CTRLZ"
    and ls: "\<forall>l\<in>set ls. (\<forall>c\<in>set l. \<not> is_line_break c) \<and> js_trim l \<noteq> CTRLZ"
    and sz: "rx_size ls \<le> MAX_RECV_BYTES" "int (rx_size ls) \<le> pr_size p + 1"
  shows "feed_lines cz s (title # ls @ [CTRLZ]) =
    (let s' = s\<lparr>fs_pending_rx := ps, fs_store := store_accept (message_of p title (join_with [CHR 0x0a] ls)) (fs_store s)\<rparr>
     in if ps = [] then propose_block s' else ([], s'))"
proof -
  let ?s1 = "s\<lparr>fs_rx_title := Some title\<rparr>"
  let ?s2 = "?s1\<lparr>fs_rx_bytes := rx_size ls, fs_rx_acc := ls\<rparr>"
  let ?st = "store_accept (message_of p title (join_with [CHR 0x0a] ls)) (fs_store s)"
  have raw: "trim_end_where is_line_break title = title" by (rule trim_breaks_id [OF title(1)])
  have "title \<noteq> CTRLZ" using title(2) by auto
  then have t: "fbb_feed cz s title = ([], False, ?s1)"
    using s title raw by (simp add: fbb_feed_def fbb_body_line_def ready_rx_def Let_def)
  have b: "feed_lines cz ?s1 ls = ([], ?s1\<lparr>fs_rx_bytes := fs_rx_bytes ?s1 + rx_size ls, fs_rx_acc := fs_rx_acc ?s1 @ ls\<rparr>)"
    by (rule feed_body_lines) (use s ls sz in \<open>simp_all add: ready_rx_def\<close>)
  have s2: "?s1\<lparr>fs_rx_bytes := fs_rx_bytes ?s1 + rx_size ls, fs_rx_acc := fs_rx_acc ?s1 @ ls\<rparr> = ?s2"
    using s(2) by (simp add: ready_rx_def)
  have clear: "s\<lparr>fs_pending_rx := q, fs_store := st, fs_rx_title := None, fs_rx_acc := [], fs_rx_bytes := 0\<rparr>
    = s\<lparr>fs_pending_rx := q, fs_store := st\<rparr>" for q st
    using s(2) by (cases s) (simp add: ready_rx_def)
  have "fbb_feed cz ?s2 CTRLZ =
    (let s' = s\<lparr>fs_pending_rx := ps, fs_store := ?st, fs_rx_title := None, fs_rx_acc := [], fs_rx_bytes := 0\<rparr>
     in if ps = [] then let (ls, s'') = propose_block s' in (ls, False, s'') else ([], False, s'))"
    using s by (simp add: fbb_feed_def fbb_body_line_def ready_rx_def Let_def)
  then have z: "fbb_feed cz ?s2 CTRLZ =
    (let s' = s\<lparr>fs_pending_rx := ps, fs_store := ?st\<rparr>
     in if ps = [] then let (ls, s'') = propose_block s' in (ls, False, s'') else ([], False, s'))"
    unfolding clear .
  show ?thesis using t b [unfolded s2] z by (simp add: feed_lines_append split_beta Let_def)
qed

lemma message_of_offer: "sendable m \<Longrightarrow> message_of (upper_proposal (offer_of m)) (fm_title m) (fm_body m) = received m"
  by (cases m) (simp add: message_of_def upper_proposal_def offer_of_def received_def sendable_def offerable_def first_word_token)

lemma body_lines_ok:
  assumes "sendable m" "l \<in> set (split_on (CHR 0x0a) (fm_body m))"
  shows "(\<forall>c\<in>set l. \<not> is_line_break c) \<and> js_trim l \<noteq> CTRLZ"
  using assms split_on_parts [of l "CHR 0x0a" "fm_body m"] by (fastforce simp: sendable_def offerable_def is_line_break_def)

lemma feed_message:
  assumes "fs_phase s = Recv_Block" "ready_rx s" "sendable m"
    and p: "fs_pending_rx s = upper_proposal (offer_of m) # ps"
  shows "feed_lines cz s (message_text m) =
    (let s' = s\<lparr>fs_pending_rx := ps, fs_store := store_accept (received m) (fs_store s)\<rparr>
     in if ps = [] then propose_block s' else ([], s'))"
proof -
  have sz: "pr_size (upper_proposal (offer_of m)) = int (length (fm_body m))" by (simp add: upper_proposal_def offer_of_def)
  show ?thesis unfolding message_text_def
    using assms body_lines_ok [OF assms(3)] message_of_offer [OF assms(3)] sz
    by (subst feed_text [OF assms(1,2) p]) (simp_all add: sendable_def offerable_def rx_size_split_on join_split_on)
qed

lemma propose_block_ready: "ready_rx (snd (propose_block s)) = ready_rx s"
  by (simp add: propose_block_def ready_rx_def Let_def)

lemma feed_messages:
  assumes "fs_phase s = Recv_Block" "ready_rx s" "\<forall>m\<in>set ms. sendable m" "ms \<noteq> []"
    and "fs_pending_rx s = map (\<lambda>m. upper_proposal (offer_of m)) ms"
  shows "feed_lines cz s (concat (map message_text ms)) =
    propose_block (s\<lparr>fs_pending_rx := [], fs_store := fold (\<lambda>m. store_accept (received m)) ms (fs_store s)\<rparr>)"
  using assms
proof (induction ms arbitrary: s)
  case (Cons m ms)
  note f = feed_message [where m = m and s = s and ps = "map (\<lambda>m. upper_proposal (offer_of m)) ms" and cz = cz]
  show ?case
  proof (cases "ms = []")
    case True
    then show ?thesis using Cons.prems f by (simp add: Let_def)
  next
    case False
    let ?s = "s\<lparr>fs_pending_rx := map (\<lambda>m. upper_proposal (offer_of m)) ms, fs_store := store_accept (received m) (fs_store s)\<rparr>"
    have "feed_lines cz s (message_text m) = ([], ?s)" using Cons.prems f False by (simp add: Let_def)
    moreover have "feed_lines cz ?s (concat (map message_text ms)) =
      propose_block (?s\<lparr>fs_pending_rx := [], fs_store := fold (\<lambda>m. store_accept (received m)) ms (fs_store ?s)\<rparr>)"
      using Cons.prems False by (intro Cons.IH) (simp_all add: ready_rx_def)
    ultimately show ?thesis by (simp add: feed_lines_append)
  qed
qed simp

lemma fold_accept:
  "ss_inbox (fold (\<lambda>m. store_accept (received m)) ms st) = ss_inbox st @ map received ms"
  "set (ss_held (fold (\<lambda>m. store_accept (received m)) ms st)) = set (ss_held st) \<union> fm_bid ` set ms"
  "ss_queue (fold (\<lambda>m. store_accept (received m)) ms st) = ss_queue st"
  by (induction ms arbitrary: st) (auto simp: store_accept_def received_def)

section \<open>Offering and answering a block\<close>

lemma js_trim_idem [simp]: "js_trim (js_trim s) = js_trim s"
proof (cases "js_trim s = []")
  case False
  have "dropWhile is_space s \<noteq> []" using False unfolding js_trim_def by (metis rev.simps(1) dropWhile.simps(1) trim_end_where_def)
  then have h: "\<not> is_space (hd (dropWhile is_space s))" by (rule hd_dropWhile)
  obtain t where "dropWhile is_space s = js_trim s @ t"
    unfolding js_trim_def trim_end_where_def
    by (metis takeWhile_dropWhile_id rev_append rev_rev_ident)
  then have "hd (js_trim s) = hd (dropWhile is_space s)" using False by simp
  then show ?thesis using False h trim_end_where_last [of is_space "dropWhile is_space s"]
    by (intro js_trim_ends) (simp_all add: js_trim_def)
next
  case True
  then show ?thesis by (simp add: js_trim_def [of "[]"] trim_end_where_def)
qed

lemma parse_proposal_trim: "parse_proposal (js_trim l) = parse_proposal l"
  by (simp add: parse_proposal_def)

lemma parse_fs_trim: "parse_fs_detailed (js_trim l) = parse_fs_detailed l"
  by (simp add: parse_fs_detailed_def)

lemma break_is_space: "is_line_break c \<Longrightarrow> is_space c"
  by (auto simp: is_line_break_def is_space_def char_code_def)

lemma trim_after_breaks: "js_trim (trim_end_where is_line_break l) = js_trim l"
proof -
  let ?u = "trim_end_where is_line_break l"
  obtain t where t: "l = ?u @ t" "\<forall>c\<in>set t. is_line_break c"
    unfolding trim_end_where_def
    by (metis takeWhile_dropWhile_id rev_append rev_rev_ident set_rev set_takeWhileD)
  then have sp: "\<forall>c\<in>set t. is_space c" using break_is_space by blast
  have "js_trim (?u @ t) = js_trim ?u"
  proof (cases "\<forall>c\<in>set ?u. is_space c")
    case True
    then have "\<forall>c\<in>set (?u @ t). is_space c" using sp by auto
    then have "dropWhile is_space ?u = []" "dropWhile is_space (?u @ t) = []" using True by (simp_all only: dropWhile_eq_Nil_conv)
    then show ?thesis by (simp only: js_trim_def)
  next
    case False
    then have "dropWhile is_space (?u @ t) = dropWhile is_space ?u @ t" by (auto simp: dropWhile_append)
    then show ?thesis using sp by (simp add: js_trim_def trim_end_where_append_drop)
  qed
  then show ?thesis using t(1) by simp
qed

lemma wf_offer: "offerable m \<Longrightarrow> wf_proposal (offer_of m)"
  by (simp add: offerable_def wf_proposal_def offer_of_def first_word_token)

lemma proposal_line_start: "offerable m \<Longrightarrow> take 2 (js_trim (proposal_line ''FB'' (offer_of m))) = ''FB''"
proof -
  assume "offerable m"
  then have w: "wf_proposal (offer_of m)" by (rule wf_offer)
  let ?p = "offer_of m"
  let ?ws = "[''FB'', type_letter (pr_type ?p), pr_from ?p, pr_at ?p, pr_to ?p, pr_bid ?p, int_str (pr_size ?p)]"
  have n: "int_str (pr_size ?p) = nat_str (nat (pr_size ?p))" using w by (simp add: int_str_def wf_proposal_def)
  have tk: "token (type_letter x)" for x by (cases x) (simp_all add: token_def is_space_def char_code_def)
  have "\<forall>w\<in>set ?ws. token w"
    using w tk unfolding n by (simp add: wf_proposal_def) (simp add: token_def is_space_def char_code_def)
  then have ne: "\<forall>w\<in>set ?ws. w \<noteq> []" and l: "token (last ?ws)" by (auto simp: token_def)
  have "last (join_with '' '' ?ws) = last (last ?ws)" using ne by (intro last_join) auto
  moreover have "\<not> is_space (last (last ?ws))" using l unfolding token_def by (meson last_in_set)
  moreover have "hd (join_with '' '' ?ws) = CHR ''F''" by simp
  ultimately have "js_trim (join_with '' '' ?ws) = join_with '' '' ?ws"
    by (intro js_trim_ends) (simp_all add: is_space_def char_code_def)
  then show ?thesis unfolding proposal_line_def by simp
qed

lemma feed_proposal:
  assumes "fs_phase s = Await_Proposals" "offerable m"
  shows "fbb_feed cz s (proposal_line ''FB'' (offer_of m)) =
    ([], False, s\<lparr>fs_accepting := fs_accepting s @ [upper_proposal (offer_of m)]\<rparr>)"
proof -
  have "parse_proposal (proposal_line ''FB'' (offer_of m)) = Some (upper_proposal (offer_of m))"
    using assms(2) by (intro proposal_roundtrip wf_offer) simp_all
  moreover have "js_upper ''FB'' = ''FB''" by (simp add: upper_char_def char_code_def)
  ultimately show ?thesis using assms proposal_line_start [OF assms(2)]
    by (simp add: fbb_feed_def fbb_proposal_line_def trim_after_breaks parse_proposal_trim Let_def)
qed

lemma feed_proposals:
  assumes "fs_phase s = Await_Proposals" "\<forall>m\<in>set ms. offerable m"
  shows "feed_lines cz s (map (\<lambda>m. proposal_line ''FB'' (offer_of m)) ms) =
    ([], s\<lparr>fs_accepting := fs_accepting s @ map (\<lambda>m. upper_proposal (offer_of m)) ms\<rparr>)"
  using assms by (induction ms arbitrary: s) (simp_all add: feed_proposal)

definition wanted_of :: "session_store \<Rightarrow> fbb_message list \<Rightarrow> fbb_message list" where
  "wanted_of st ms = filter (\<lambda>m. \<not> has_bid (fm_bid m) st) ms"

definition answer_to :: "session_store \<Rightarrow> fbb_message list \<Rightarrow> string" where
  "answer_to st ms = ''FS '' @ map (\<lambda>m. if \<not> has_bid (fm_bid m) st then CHR ''+'' else CHR ''-'') ms"

lemma bid_offer [simp]: "offerable m \<Longrightarrow> pr_bid (upper_proposal (offer_of m)) = fm_bid m" "offerable m \<Longrightarrow> pr_bid (offer_of m) = fm_bid m"
  by (simp_all add: upper_proposal_def offer_of_def offerable_def first_word_token)

lemma commands:
  "trim_end_where is_line_break ''F>'' = ''F>''" "js_trim ''F>'' = ''F>''" "parse_proposal ''F>'' = None"
  "trim_end_where is_line_break ''FF'' = ''FF''" "js_trim ''FF'' = ''FF''"
  "trim_end_where is_line_break ''FQ'' = ''FQ''" "js_trim ''FQ'' = ''FQ''"
  "js_upper ''F>'' = ''F>''" "js_upper ''FF'' = ''FF''" "js_upper ''FQ'' = ''FQ''" "js_upper ''FS'' = ''FS''"
proof -
  have w: "\<forall>c\<in>set l. \<not> is_line_break c" "\<forall>c\<in>set l. \<not> is_space c" if "l \<in> {''F>'', ''FF'', ''FQ''}" for l
    using that by (auto simp: is_line_break_def is_space_def char_code_def)
  show t: "js_trim ''F>'' = ''F>''" "js_trim ''FF'' = ''FF''" "js_trim ''FQ'' = ''FQ''"
    by (simp_all add: js_trim_no_space [OF w(2)])
  show "parse_proposal ''F>'' = None" using split_ws_word [OF w(2) [of "''F>''"]] t by (simp add: parse_proposal_def)
  show "trim_end_where is_line_break ''F>'' = ''F>''" "trim_end_where is_line_break ''FF'' = ''FF''"
    "trim_end_where is_line_break ''FQ'' = ''FQ''"
    by (simp_all add: trim_breaks_id [OF w(1)])
qed (simp_all add: upper_char_def char_code_def)

lemma upper_command_letters: "upper_char (CHR ''F'') = CHR ''F''" "upper_char (CHR ''>'') = CHR ''>''" "upper_char (CHR ''Q'') = CHR ''Q''"
  by (simp_all add: upper_char_def char_code_def)

text \<open>The called station between blocks, with nothing of its own to send.\<close>

definition listening :: "fbb_session \<Rightarrow> bool" where
  "listening b = (fs_phase b = Await_Proposals \<and> ready_rx b \<and> fs_accepting b = [] \<and> fs_pending_rx b = [] \<and> ss_queue (fs_store b) = [])"

lemma propose_nothing: "ss_queue (fs_store b) = [] \<Longrightarrow> propose_block b = ([''FF''], b\<lparr>fs_phase := Await_Proposals\<rparr>)"
  by (simp add: propose_block_def Let_def)

lemma hear_offer:
  assumes b: "listening b" and ms: "\<forall>m\<in>set ms. offerable m"
  shows "feed_lines cz b (build_proposal (map offer_of ms)) =
    (if wanted_of (fs_store b) ms = [] then ([answer_to (fs_store b) ms, ''FF''], b)
     else ([answer_to (fs_store b) ms],
           b\<lparr>fs_pending_rx := map (\<lambda>m. upper_proposal (offer_of m)) (wanted_of (fs_store b) ms), fs_phase := Recv_Block\<rparr>))"
proof -
  let ?st = "fs_store b" and ?ps = "map (\<lambda>m. upper_proposal (offer_of m)) ms"
  let ?b = "b\<lparr>fs_accepting := ?ps\<rparr>"
  have o: "feed_lines cz b (map (\<lambda>m. proposal_line ''FB'' (offer_of m)) ms) = ([], ?b)"
    using b ms by (subst feed_proposals) (simp_all add: listening_def)
  have v: "map (\<lambda>pr. if \<not> has_bid (pr_bid pr) ?st then CHR ''+'' else CHR ''-'') ?ps =
      map (\<lambda>m. if \<not> has_bid (fm_bid m) ?st then CHR ''+'' else CHR ''-'') ms"
    using ms by simp
  have w: "filter (\<lambda>pr. \<not> has_bid (pr_bid pr) ?st) ?ps = map (\<lambda>m. upper_proposal (offer_of m)) (wanted_of ?st ms)"
    using ms by (induction ms) (simp_all add: wanted_of_def)
  have same: "b\<lparr>fs_pending_rx := [], fs_accepting := [], fs_phase := Await_Proposals\<rparr> = b"
    "b\<lparr>fs_pending_rx := q, fs_accepting := [], fs_phase := ph\<rparr> = b\<lparr>fs_pending_rx := q, fs_phase := ph\<rparr>" for q ph
    using b by (cases b; simp add: listening_def)+
  have F: "fbb_feed cz ?b ''F>'' =
      (if wanted_of ?st ms = [] then ([answer_to ?st ms, ''FF''], False, b)
       else ([answer_to ?st ms], False, b\<lparr>fs_pending_rx := map (\<lambda>m. upper_proposal (offer_of m)) (wanted_of ?st ms), fs_phase := Recv_Block\<rparr>))"
    using b v w same
    by (simp add: fbb_feed_def fbb_proposal_line_def commands listening_def answer_to_def propose_nothing upper_command_letters Let_def del: map_map)
  show ?thesis
    using o F by (simp add: build_proposal_def feed_lines_append comp_def Let_def split_beta)
qed

lemma send_block:
  assumes "ss_queue (fs_store a) = xs @ rest" "\<not> fs_compressed a"
    and "distinct (map fm_bid (xs @ rest))" "\<forall>m\<in>set xs. offerable m"
  shows "send_loop cz (map offer_of xs)
      (map (\<lambda>m. \<lparr>fv_verdict = (if \<not> has_bid (fm_bid m) st then Accept else Reject), fv_offset = None\<rparr>) xs) a =
    (concat (map message_text (wanted_of st xs)),
     a\<lparr>fs_store := (fs_store a)\<lparr>ss_queue := rest, ss_sent_bids := ss_sent_bids (fs_store a) @ map fm_bid xs\<rparr>\<rparr>)"
  using assms
proof (induction xs arbitrary: a)
  case (Cons x xs)
  let ?a = "a\<lparr>fs_store := store_sent (fm_bid x) (fs_store a)\<rparr>"
  have q: "ss_queue (fs_store ?a) = xs @ rest" using Cons.prems by (simp add: store_sent_def)
  have IH: "send_loop cz (map offer_of xs)
      (map (\<lambda>m. \<lparr>fv_verdict = (if \<not> has_bid (fm_bid m) st then Accept else Reject), fv_offset = None\<rparr>) xs) ?a =
    (concat (map message_text (wanted_of st xs)),
     ?a\<lparr>fs_store := (fs_store ?a)\<lparr>ss_queue := rest, ss_sent_bids := ss_sent_bids (fs_store ?a) @ map fm_bid xs\<rparr>\<rparr>)"
    by (rule Cons.IH) (use Cons.prems q in simp_all)
  have st: "(store_sent (fm_bid x) (fs_store a))\<lparr>ss_queue := rest, ss_sent_bids := ss_sent_bids (store_sent (fm_bid x) (fs_store a)) @ map fm_bid xs\<rparr>
    = (fs_store a)\<lparr>ss_queue := rest, ss_sent_bids := ss_sent_bids (fs_store a) @ map fm_bid (x # xs)\<rparr>"
    by (simp add: store_sent_def)
  show ?case using Cons.prems IH st
    by (simp add: wanted_of_def message_text_def [of x] Let_def split_beta)
qed (simp add: wanted_of_def)

lemma answer_reads:
  "parse_fs_detailed (answer_to st ms) =
     map (\<lambda>m. \<lparr>fv_verdict = (if \<not> has_bid (fm_bid m) st then Accept else Reject), fv_offset = None\<rparr>) ms"
proof -
  let ?v = "\<lambda>m. \<lparr>fv_verdict = (if \<not> has_bid (fm_bid m) st then Accept else Reject), fv_offset = None\<rparr>"
  have t: "verdict_text (?v m) = [if \<not> has_bid (fm_bid m) st then CHR ''+'' else CHR ''-'']" for m
    by (simp add: verdict_text.simps)
  have "concat (map verdict_text (map ?v ms)) = map (\<lambda>m. if \<not> has_bid (fm_bid m) st then CHR ''+'' else CHR ''-'') ms"
    by (induction ms) (simp_all add: t)
  then have "answer_to st ms = fs_line (map ?v ms)" by (simp add: answer_to_def fs_line_def)
  moreover have "parse_fs_detailed (fs_line (map ?v ms)) = map ?v ms" by (rule fs_roundtrip) (simp add: wf_verdict_def)
  ultimately show ?thesis by simp
qed

lemma answer_starts: "js_upper (take 2 (js_trim (answer_to st ms))) = ''FS''"
proof -
  let ?v = "map (\<lambda>m. if \<not> has_bid (fm_bid m) st then CHR ''+'' else CHR ''-'') ms"
  have F: "\<not> is_space (CHR ''F'')" "\<not> is_space (CHR ''S'')" "is_space (CHR '' '')" by (simp_all add: is_space_def char_code_def)
  have "take 2 (js_trim (answer_to st ms)) = ''FS''"
  proof (cases "ms = []")
    case True
    then show ?thesis using F by (simp add: answer_to_def js_trim_def trim_end_where_def)
  next
    case False
    then have "last ?v \<in> set ?v" by (intro last_in_set) simp
    then have "last ?v = CHR ''+'' \<or> last ?v = CHR ''-''" by auto
    then have "\<not> is_space (last (answer_to st ms))" using False by (auto simp: answer_to_def is_space_def char_code_def)
    then have "js_trim (answer_to st ms) = answer_to st ms"
      using F by (intro js_trim_ends) (simp_all add: answer_to_def)
    then show ?thesis by (simp add: answer_to_def)
  qed
  then show ?thesis by (simp only: commands)
qed

text \<open>The calling station waiting for the answer to its block.\<close>

definition offering :: "fbb_session \<Rightarrow> bool" where
  "offering a = (fs_phase a = Await_Fs \<and> \<not> fs_compressed a \<and> fs_deferred a = []
     \<and> fs_offered a = map offer_of (take MAX_BLOCK (ss_queue (fs_store a)))
     \<and> distinct (map fm_bid (ss_queue (fs_store a))) \<and> (\<forall>m\<in>set (ss_queue (fs_store a)). offerable m))"

definition after_block :: "fbb_session \<Rightarrow> fbb_session" where
  "after_block a = a\<lparr>fs_store := (fs_store a)\<lparr>ss_queue := drop MAX_BLOCK (ss_queue (fs_store a)),
      ss_sent_bids := ss_sent_bids (fs_store a) @ map fm_bid (take MAX_BLOCK (ss_queue (fs_store a)))\<rparr>,
     fs_offered := [], fs_phase := Await_Proposals\<rparr>"

lemma hear_answer:
  assumes a: "offering a"
  shows "fbb_feed cz a (answer_to st (take MAX_BLOCK (ss_queue (fs_store a)))) =
    (concat (map message_text (wanted_of st (take MAX_BLOCK (ss_queue (fs_store a))))), False, after_block a)"
proof -
  let ?q = "ss_queue (fs_store a)"
  let ?xs = "take MAX_BLOCK ?q"
  have "\<forall>m\<in>set ?xs. offerable m" using a set_take_subset [of MAX_BLOCK ?q] by (auto simp: offering_def)
  then have "send_loop cz (map offer_of ?xs)
      (map (\<lambda>m. \<lparr>fv_verdict = (if \<not> has_bid (fm_bid m) st then Accept else Reject), fv_offset = None\<rparr>) ?xs) a =
    (concat (map message_text (wanted_of st ?xs)),
     a\<lparr>fs_store := (fs_store a)\<lparr>ss_queue := drop MAX_BLOCK ?q, ss_sent_bids := ss_sent_bids (fs_store a) @ map fm_bid ?xs\<rparr>\<rparr>)"
    using a by (intro send_block) (simp_all add: offering_def)
  then show ?thesis
    using a answer_starts [of st ?xs]
    by (simp add: fbb_feed_def trim_after_breaks parse_fs_trim answer_reads send_accepted_def offering_def after_block_def Let_def)
qed

text \<open>What the caller says when the direction comes back to it: its next block, or the end.\<close>

definition next_block :: "fbb_session \<Rightarrow> string list \<times> fbb_session" where
  "next_block a = (if ss_queue (fs_store a) = [] then ([''FQ''], a\<lparr>fs_phase := Done\<rparr>)
     else (build_proposal (map offer_of (take MAX_BLOCK (ss_queue (fs_store a)))),
           a\<lparr>fs_offered := map offer_of (take MAX_BLOCK (ss_queue (fs_store a))), fs_phase := Await_Fs\<rparr>))"

lemma hear_FF:
  assumes "fs_phase a = Await_Proposals" "fs_deferred a = []" "\<not> fs_compressed a"
  shows "\<exists>d. fbb_feed cz a ''FF'' = (fst (next_block a), d, snd (next_block a))"
proof -
  let ?q = "ss_queue (fs_store a)"
  have ne: "take MAX_BLOCK ?q = [] \<longleftrightarrow> ?q = []" by (simp add: MAX_BLOCK_def)
  have b: "build_proposal ps \<noteq> [''FF'']" for ps
    by (cases ps) (simp_all add: build_proposal_def)
  show ?thesis using assms ne b
    by (simp add: fbb_feed_def fbb_proposal_line_def commands propose_block_def next_block_def upper_command_letters Let_def split_beta del: take_eq_Nil) (auto intro: exI [of _ True] exI [of _ False])
qed

lemma next_block_offering:
  assumes "ss_queue (fs_store a) \<noteq> []" "fs_deferred a = []" "\<not> fs_compressed a"
    "distinct (map fm_bid (ss_queue (fs_store a)))" "\<forall>m\<in>set (ss_queue (fs_store a)). offerable m"
  shows "offering (snd (next_block a))"
  using assms by (simp add: next_block_def offering_def)

text \<open>
  A block has passed after at most two rounds: the called station holds what it wanted of it, and the
  caller has said its next block, or that it is done.
\<close>

definition block_received :: "fbb_session \<Rightarrow> fbb_message list \<Rightarrow> fbb_session" where
  "block_received b ms = b\<lparr>fs_store := fold (\<lambda>m. store_accept (received m)) (wanted_of (fs_store b) ms) (fs_store b)\<rparr>"

lemma listening_block_received: "listening b \<Longrightarrow> listening (block_received b ms)"
  by (simp add: listening_def block_received_def ready_rx_def fold_accept)

lemma block_passes:
  assumes b: "listening b" and a: "offering a" and s: "\<forall>m\<in>set (ss_queue (fs_store a)). sendable m"
  defines "xs \<equiv> take MAX_BLOCK (ss_queue (fs_store a))"
  shows "\<exists>n. converse cz n b a (build_proposal (map offer_of xs)) =
    (block_received b xs, snd (next_block (after_block a)), fst (next_block (after_block a)))"
proof -
  let ?w = "wanted_of (fs_store b) xs"
  have xs: "\<forall>m\<in>set xs. sendable m" using s set_take_subset [of MAX_BLOCK "ss_queue (fs_store a)"] by (auto simp: xs_def)
  then have xo: "\<forall>m\<in>set xs. offerable m" by (simp add: sendable_def)
  have ans: "fbb_feed cz a (answer_to (fs_store b) xs) = (concat (map message_text ?w), False, after_block a)"
    unfolding xs_def by (rule hear_answer [OF a])
  have "fs_phase (after_block a) = Await_Proposals" "fs_deferred (after_block a) = []" "\<not> fs_compressed (after_block a)"
    using a by (simp_all add: after_block_def offering_def)
  then obtain d where FF: "fbb_feed cz (after_block a) ''FF'' = (fst (next_block (after_block a)), d, snd (next_block (after_block a)))"
    using hear_FF by blast
  show ?thesis
  proof (cases "?w = []")
    case True
    have same: "block_received b xs = b" using True by (simp add: block_received_def)
    have "feed_lines cz b (build_proposal (map offer_of xs)) = ([answer_to (fs_store b) xs, ''FF''], b)"
      using hear_offer [OF b xo] True by simp
    then have "converse cz 1 b a (build_proposal (map offer_of xs)) =
        (b, snd (next_block (after_block a)), fst (next_block (after_block a)))"
      using ans FF True by (simp add: Let_def split_beta)
    then show ?thesis unfolding same by blast
  next
    case False
    let ?b = "b\<lparr>fs_pending_rx := map (\<lambda>m. upper_proposal (offer_of m)) ?w, fs_phase := Recv_Block\<rparr>"
    have o: "feed_lines cz b (build_proposal (map offer_of xs)) = ([answer_to (fs_store b) xs], ?b)"
      using hear_offer [OF b xo] False by simp
    have "\<forall>m\<in>set ?w. sendable m" using xs by (simp add: wanted_of_def)
    then have m: "feed_lines cz ?b (concat (map message_text ?w)) =
        propose_block (?b\<lparr>fs_pending_rx := [], fs_store := fold (\<lambda>m. store_accept (received m)) ?w (fs_store ?b)\<rparr>)"
      using b False by (intro feed_messages) (simp_all add: listening_def ready_rx_def)
    have q: "ss_queue (fold (\<lambda>m. store_accept (received m)) ?w (fs_store b)) = []"
      using b by (simp add: fold_accept listening_def)
    have "b\<lparr>fs_pending_rx := [], fs_store := st, fs_phase := Await_Proposals\<rparr> = b\<lparr>fs_store := st\<rparr>" for st
      using b by (cases b) (simp add: listening_def)
    then have m': "feed_lines cz ?b (concat (map message_text ?w)) = ([''FF''], block_received b xs)"
      using m q by (simp add: propose_nothing block_received_def)
    have r1: "converse cz 1 b a (build_proposal (map offer_of xs)) = (?b, after_block a, concat (map message_text ?w))"
      using o ans by (simp add: Let_def)
    have r2: "converse cz 1 ?b (after_block a) (concat (map message_text ?w)) =
        (block_received b xs, snd (next_block (after_block a)), fst (next_block (after_block a)))"
      using m' FF by (simp add: Let_def split_beta)
    have "converse cz (1 + 1) b a (build_proposal (map offer_of xs)) =
        (block_received b xs, snd (next_block (after_block a)), fst (next_block (after_block a)))"
      unfolding converse_add r1 using r2 by simp
    then show ?thesis by blast
  qed
qed

section \<open>Everything queued is forwarded\<close>

lemma block_received_store:
  "ss_inbox (fs_store (block_received b ms)) = ss_inbox (fs_store b) @ map received (wanted_of (fs_store b) ms)"
  "set (ss_held (fs_store (block_received b ms))) = set (ss_held (fs_store b)) \<union> fm_bid ` set (wanted_of (fs_store b) ms)"
  by (simp_all add: block_received_def fold_accept)

lemma wanted_later:
  assumes "distinct (map fm_bid (xs @ ys))"
  shows "wanted_of (fs_store (block_received b xs)) ys = wanted_of (fs_store b) ys"
proof -
  have "fm_bid m \<notin> fm_bid ` set (wanted_of (fs_store b) xs)" if "m \<in> set ys" for m
    using assms that by (auto simp: wanted_of_def)
  then show ?thesis
    unfolding wanted_of_def by (intro filter_cong refl) (auto simp: has_bid_def block_received_store wanted_of_def)
qed

lemma finish:
  assumes "listening b"
  shows "converse cz 1 b a [''FQ''] = (b\<lparr>fs_phase := Done\<rparr>, a, [])"
  using assms by (simp add: listening_def fbb_feed_def fbb_proposal_line_def commands upper_command_letters Let_def)

lemma offering_forwards:
  assumes "listening b" "offering a" "ss_queue (fs_store a) \<noteq> []" "\<forall>m\<in>set (ss_queue (fs_store a)). sendable m"
  shows "\<exists>n b' a'. converse cz n b a (build_proposal (map offer_of (take MAX_BLOCK (ss_queue (fs_store a))))) = (b', a', [])
    \<and> fs_phase b' = Done \<and> fs_phase a' = Done
    \<and> ss_inbox (fs_store b') = ss_inbox (fs_store b) @ map received (wanted_of (fs_store b) (ss_queue (fs_store a)))
    \<and> ss_queue (fs_store a') = [] \<and> ss_sent_bids (fs_store a') = ss_sent_bids (fs_store a) @ map fm_bid (ss_queue (fs_store a))"
  using assms
proof (induction "length (ss_queue (fs_store a))" arbitrary: a b rule: less_induct)
  case less
  let ?q = "ss_queue (fs_store a)"
  let ?xs = "take MAX_BLOCK ?q" and ?ys = "drop MAX_BLOCK ?q"
  let ?b = "block_received b ?xs" and ?n = "next_block (after_block a)"
  have b: "listening ?b" using less.prems(1) by (rule listening_block_received)
  have q: "ss_queue (fs_store (after_block a)) = ?ys" "ss_sent_bids (fs_store (after_block a)) = ss_sent_bids (fs_store a) @ map fm_bid ?xs"
    by (simp_all add: after_block_def)
  obtain n1 where n1: "converse cz n1 b a (build_proposal (map offer_of ?xs)) = (?b, snd ?n, fst ?n)"
    using block_passes [OF less.prems(1,2,4)] by blast
  have d: "distinct (map fm_bid (?xs @ ?ys))" "\<forall>m\<in>set ?q. offerable m" using less.prems(2) by (simp_all add: offering_def)
  have w: "wanted_of (fs_store ?b) ?ys = wanted_of (fs_store b) ?ys" by (rule wanted_later [OF d(1)])
  have all: "wanted_of (fs_store b) ?q = wanted_of (fs_store b) ?xs @ wanted_of (fs_store b) ?ys"
    unfolding wanted_of_def by (metis append_take_drop_id filter_append)
  have sent: "map fm_bid ?q = map fm_bid ?xs @ map fm_bid ?ys" by (metis append_take_drop_id map_append)
  show ?case
  proof (cases "?ys = []")
    case True
    have e: "fst ?n = [''FQ'']" "snd ?n = (after_block a)\<lparr>fs_phase := Done\<rparr>" using True q by (simp_all add: next_block_def)
    have "converse cz (n1 + 1) b a (build_proposal (map offer_of ?xs)) = (?b\<lparr>fs_phase := Done\<rparr>, snd ?n, [])"
      by (simp only: converse_add n1 prod.case e(1) finish [OF b])
    moreover have x: "?xs = ?q" using True append_take_drop_id [of MAX_BLOCK ?q] by (simp only: append_Nil2)
    have "ss_inbox (fs_store (?b\<lparr>fs_phase := Done\<rparr>)) = ss_inbox (fs_store b) @ map received (wanted_of (fs_store b) ?q)"
      using x by (simp add: block_received_store)
    moreover have "ss_queue (fs_store (snd ?n)) = []"
      "ss_sent_bids (fs_store (snd ?n)) = ss_sent_bids (fs_store a) @ map fm_bid ?q"
      using e(2) q True x by simp_all
    moreover have "fs_phase (snd ?n) = Done" using e(2) by simp
    ultimately show ?thesis
      by (intro exI [of _ "n1 + 1"] exI [of _ "?b\<lparr>fs_phase := Done\<rparr>"] exI [of _ "snd ?n"]) simp
  next
    case False
    have e: "fst ?n = build_proposal (map offer_of (take MAX_BLOCK (ss_queue (fs_store (snd ?n)))))"
      "fs_store (snd ?n) = fs_store (after_block a)" using False q by (simp_all add: next_block_def)
    have o: "offering (snd ?n)"
      using False q d(2) less.prems(2) in_set_dropD [of _ MAX_BLOCK ?q]
      by (intro next_block_offering) (auto simp: offering_def after_block_def drop_map [symmetric] intro: distinct_drop)
    have l: "length (ss_queue (fs_store (snd ?n))) < length ?q" "ss_queue (fs_store (snd ?n)) \<noteq> []"
      using False q e less.prems(3) by (simp_all add: MAX_BLOCK_def)
    have snd: "\<forall>m\<in>set (ss_queue (fs_store (snd ?n))). sendable m"
      using less.prems(4) q e in_set_dropD [of _ MAX_BLOCK ?q] by auto
    obtain n2 b' a' where n2: "converse cz n2 ?b (snd ?n) (fst ?n) = (b', a', [])" "fs_phase b' = Done" "fs_phase a' = Done"
      "ss_inbox (fs_store b') = ss_inbox (fs_store ?b) @ map received (wanted_of (fs_store ?b) ?ys)"
      "ss_queue (fs_store a') = []" "ss_sent_bids (fs_store a') = ss_sent_bids (fs_store (after_block a)) @ map fm_bid ?ys"
      using less.hyps [OF l(1) b o l(2) snd] e q by auto
    have "converse cz (n1 + n2) b a (build_proposal (map offer_of ?xs)) = (b', a', [])"
      using n1 n2(1) by (simp add: converse_add)
    moreover have "ss_inbox (fs_store b') = ss_inbox (fs_store b) @ map received (wanted_of (fs_store b) ?q)"
      unfolding all n2(4) w by (simp add: block_received_store)
    moreover have "ss_sent_bids (fs_store a') = ss_sent_bids (fs_store a) @ map fm_bid ?q"
      unfolding sent n2(6) q(2) by simp
    ultimately show ?thesis using n2(2,3,5) by blast
  qed
qed

section \<open>A whole session\<close>

definition caller_opts :: fbb_opts where
  "caller_opts = \<lparr>fo_initiator = True, fo_sid = None, fo_sid_already_sent = False, fo_compress = False\<rparr>"

definition called_opts :: "bool \<Rightarrow> fbb_opts" where
  "called_opts greeted = \<lparr>fo_initiator = False, fo_sid = None, fo_sid_already_sent = greeted, fo_compress = False\<rparr>"

definition caller :: "fbb_message list \<Rightarrow> fbb_session" where
  "caller ms = new_fbb_session (new_session_store ms []) caller_opts"

definition called :: "bool \<Rightarrow> string list \<Rightarrow> fbb_session" where
  "called greeted held = new_fbb_session (new_session_store [] held) (called_opts greeted)"

abbreviation default_sid :: string where
  "default_sid \<equiv> ''[ACG-1.0-F$]''"

lemma sid_facts:
  "trim_end_where is_line_break default_sid = default_sid" "js_trim default_sid = default_sid"
  "has_bracket_pair default_sid" "parse_proposal default_sid = None"
proof -
  have w: "\<forall>c\<in>set default_sid. \<not> is_line_break c" "\<forall>c\<in>set default_sid. \<not> is_space c"
    by (simp_all add: is_line_break_def is_space_def char_code_def)
  show t: "js_trim default_sid = default_sid" by (rule js_trim_no_space [OF w(2)])
  show "trim_end_where is_line_break default_sid = default_sid" by (rule trim_breaks_id [OF w(1)])
  show "parse_proposal default_sid = None" using split_ws_word [OF w(2)] t by (simp add: parse_proposal_def)
  show "has_bracket_pair default_sid"
    by (simp add: has_bracket_pair_def split_breaks_def is_line_break_def last_index_of_def Let_def)
qed

lemma upper_bracket: "js_upper (take 2 default_sid) = ''[A''"
  by (simp add: upper_char_def char_code_def)

lemma session_sid_default:
  "session_sid (caller ms) = default_sid" "session_sid (called greeted held) = default_sid"
  by (simp_all add: session_sid_def caller_def called_def caller_opts_def called_opts_def new_fbb_session_def)

lemma called_hears_sid:
  "\<exists>reply b. fbb_feed cz (called greeted held) default_sid = (reply, False, b) \<and> listening b \<and> set reply \<subseteq> {default_sid}
     \<and> fs_store b = new_session_store [] held"
  using sid_facts session_sid_default(2) [of greeted held]
  by (cases greeted)
    (simp_all add: fbb_feed_def fbb_sid_line_def called_def called_opts_def new_fbb_session_def new_session_store_def
      listening_def ready_rx_def session_sid_def Let_def del: trim_end_where_def)

lemma caller_ignores_sid:
  assumes "fs_phase a = Await_Fs \<or> fs_phase a = Await_Proposals" "set reply \<subseteq> {default_sid}"
  shows "feed_lines cz a (reply @ ls) = feed_lines cz a ls"
proof -
  have "take 2 default_sid = ''[A''" by simp
  then have "fbb_feed cz a default_sid = ([], False, a)"
    using assms(1) upper_bracket by (auto simp: fbb_feed_def fbb_proposal_line_def sid_facts Let_def simp del: take_Suc_Cons js_upper_Cons)
  then show ?thesis using assms(2) by (induction reply) (simp_all add: feed_lines_append)
qed

text \<open>C10: 
  A caller with any number of messages connects to a station with none, neither of them compressing: the two say all they
  have to say, line by line, and both end the session; the called station has stored every message it did not hold, in
  order and unchanged but for calls in upper case; and the caller's queue is empty, each message recorded as sent. The
  messages have distinct identifiers and are such as the text protocol can carry: not of type T, single-word addresses and
  identifiers, a title of one line, no carriage return and no line that is the end mark, a body below 64 KiB. (A larger one
  is lost, \<open>oversize_message_lost\<close>; the byte layer drops blank lines, \<open>forwarder_drops_blank_lines\<close>.)
\<close>

theorem forwarding_delivers:
  assumes "\<forall>m\<in>set ms. sendable m" and "distinct (map fm_bid ms)"
  shows "\<exists>n b a. converse cz n (called greeted held) (snd (fbb_start (caller ms))) (fst (fbb_start (caller ms))) = (b, a, [])
    \<and> fs_phase b = Done \<and> fs_phase a = Done
    \<and> ss_inbox (fs_store b) = map received (filter (\<lambda>m. fm_bid m \<notin> set held) ms)
    \<and> ss_queue (fs_store a) = [] \<and> ss_sent_bids (fs_store a) = map fm_bid ms"
proof -
  obtain reply b0 where b0: "fbb_feed cz (called greeted held) default_sid = (reply, False, b0)" "listening b0"
    "set reply \<subseteq> {default_sid}" "fs_store b0 = new_session_store [] held"
    using called_hears_sid by blast
  let ?a0 = "(caller ms)\<lparr>fs_sent_sid := True\<rparr>"
  have sid: "session_sid ?a0 = default_sid"
    by (simp add: session_sid_def caller_def caller_opts_def new_fbb_session_def)
  have start: "fbb_start (caller ms) = (default_sid # fst (propose_block ?a0), snd (propose_block ?a0))"
    using sid by (simp add: fbb_start_def caller_def caller_opts_def new_fbb_session_def Let_def split_beta)
  have hears: "converse cz (Suc n) (called greeted held) a (default_sid # ls) = converse cz (Suc n) b0 a ls"
    if "fs_phase a = Await_Fs \<or> fs_phase a = Await_Proposals" for n a ls
    using b0(1,3) caller_ignores_sid [OF that, of reply cz] by (simp add: Let_def split_beta)
  have st: "fs_store ?a0 = new_session_store ms []" "fs_deferred ?a0 = []" "fs_compressed ?a0 = False"
    by (simp_all add: caller_def new_fbb_session_def)
  have w: "wanted_of (fs_store b0) ms = filter (\<lambda>m. fm_bid m \<notin> set held) ms"
    unfolding wanted_of_def b0(4) by (simp add: has_bid_def new_session_store_def)
  have box: "ss_inbox (fs_store b0) = []" by (simp add: b0(4) new_session_store_def)
  show ?thesis
  proof (cases "ms = []")
    case True
    have p: "propose_block ?a0 = ([''FF''], ?a0\<lparr>fs_phase := Await_Proposals\<rparr>)"
      using st True by (intro propose_nothing) (simp add: new_session_store_def)
    have q: "ss_queue (fs_store b0) = []" using b0(2) by (simp add: listening_def)
    have same: "b0\<lparr>fs_phase := Await_Proposals\<rparr> = b0" using b0(2) by (cases b0) (simp add: listening_def)
    have "converse cz 1 b0 (?a0\<lparr>fs_phase := Await_Proposals\<rparr>) [''FF''] =
        (b0\<lparr>fs_phase := Done\<rparr>, ?a0\<lparr>fs_phase := Done\<rparr>, [])"
      using b0(2) propose_nothing [OF q] same
      by (simp add: listening_def fbb_feed_def fbb_proposal_line_def commands upper_command_letters Let_def)
    then have "converse cz (Suc 0) (called greeted held) (snd (fbb_start (caller ms))) (fst (fbb_start (caller ms))) =
        (b0\<lparr>fs_phase := Done\<rparr>, ?a0\<lparr>fs_phase := Done\<rparr>, [])"
      unfolding start p fst_conv snd_conv by (subst hears) simp_all
    moreover have "ss_queue (fs_store (?a0\<lparr>fs_phase := Done\<rparr>)) = []" "ss_sent_bids (fs_store (?a0\<lparr>fs_phase := Done\<rparr>)) = []"
      using st True by (simp_all add: new_session_store_def)
    ultimately show ?thesis using True box
      by (intro exI [of _ "Suc 0"] exI [of _ "b0\<lparr>fs_phase := Done\<rparr>"] exI [of _ "?a0\<lparr>fs_phase := Done\<rparr>"]) simp
  next
    case False
    let ?a1 = "?a0\<lparr>fs_offered := map offer_of (take MAX_BLOCK ms), fs_phase := Await_Fs\<rparr>"
    let ?ls = "build_proposal (map offer_of (take MAX_BLOCK ms))"
    have "take MAX_BLOCK ms \<noteq> []" using False by (simp add: MAX_BLOCK_def)
    then have p: "propose_block ?a0 = (?ls, ?a1)"
      using st by (simp add: propose_block_def new_session_store_def Let_def)
    have q: "ss_queue (fs_store ?a1) = ms" "ss_sent_bids (fs_store ?a1) = []" using st by (simp_all add: new_session_store_def)
    have "offering ?a1" using st q(1) assms by (simp add: offering_def sendable_def)
    then obtain n b a where n: "converse cz n b0 ?a1 ?ls = (b, a, [])" "fs_phase b = Done" "fs_phase a = Done"
      "ss_inbox (fs_store b) = ss_inbox (fs_store b0) @ map received (wanted_of (fs_store b0) ms)"
      "ss_queue (fs_store a) = []" "ss_sent_bids (fs_store a) = map fm_bid ms"
      using offering_forwards [OF b0(2), of ?a1 cz] q False assms(1) by auto
    have "n \<noteq> 0" using n(1) by (cases n) (auto simp: build_proposal_def)
    then obtain k where k: "n = Suc k" using not0_implies_Suc by blast
    have "converse cz n (called greeted held) (snd (fbb_start (caller ms))) (fst (fbb_start (caller ms))) = (b, a, [])"
      unfolding start p fst_conv snd_conv k by (subst hears) (use n(1) k in simp_all)
    then show ?thesis using n(2-) w box by auto
  qed
qed

definition sample_message :: fbb_message where
  "sample_message = \<lparr>fm_type = Bulletin, fm_from = ''oe1abc'', fm_at = ''WW'', fm_to = ''ALL'', fm_bid = ''17_X'',
     fm_title = ''Hi'', fm_body = ''one'' @ CHR 0x0a # ''two''\<rparr>"

text \<open>A codec for sessions without compression, which never use it.\<close>

definition no_codec :: fbb_codec where
  "no_codec = \<lparr>cz_compress = \<lambda>title body off. [], cz_decompress = \<lambda>t n. None\<rparr>"

lemma sendable_sample: "sendable sample_message"
proof -
  have w: "js_trim ''Hi'' = ''Hi''" "js_trim ''one'' = ''one''" "js_trim ''two'' = ''two''"
    by (intro js_trim_no_space, simp add: is_space_def char_code_def)+
  show ?thesis
    by (simp add: sendable_def offerable_def sample_message_def token_def is_space_def is_line_break_def char_code_def CTRLZ_def MAX_RECV_BYTES_def w)
qed

lemma forwarding_delivers_witness:
  "\<exists>n b a. converse no_codec n (called True [''5_Y'']) (snd (fbb_start (caller [sample_message]))) (fst (fbb_start (caller [sample_message]))) = (b, a, [])
    \<and> fs_phase b = Done \<and> fs_phase a = Done
    \<and> ss_inbox (fs_store b) = [sample_message\<lparr>fm_from := ''OE1ABC''\<rparr>]
    \<and> ss_queue (fs_store a) = [] \<and> ss_sent_bids (fs_store a) = [''17_X'']"
proof -
  have up: "js_upper ''oe1abc'' = ''OE1ABC''" "js_upper ''WW'' = ''WW''" "js_upper ''ALL'' = ''ALL''" by code_simp+
  have r: "map received (filter (\<lambda>m. fm_bid m \<notin> set [''5_Y'']) [sample_message]) = [sample_message\<lparr>fm_from := ''OE1ABC''\<rparr>]"
    "map fm_bid [sample_message] = [''17_X'']"
    using up by (simp_all add: received_def sample_message_def del: js_upper_Cons)
  show ?thesis
    using forwarding_delivers [of "[sample_message]" no_codec True "[''5_Y'']"] sendable_sample unfolding r by simp
qed

section \<open>What is lost, and what is stored twice\<close>

lemma feed_too_long:
  assumes "fs_phase s = Recv_Block" "ready_rx s" "offerable m" "fs_pending_rx s = upper_proposal (offer_of m) # ps"
    and body: "CHR 0x0a \<notin> set (fm_body m)" "MAX_RECV_BYTES \<le> length (fm_body m)"
  shows "feed_lines cz s (message_text m) = ([''FQ''], s\<lparr>fs_phase := Done\<rparr>)"
proof -
  let ?s1 = "s\<lparr>fs_rx_title := Some (fm_title m)\<rparr>"
  have raw: "trim_end_where is_line_break (fm_title m) = fm_title m" "trim_end_where is_line_break (fm_body m) = fm_body m"
    using assms(3) body(1) by (intro trim_breaks_id; auto simp: offerable_def is_line_break_def)+
  have one: "split_on (CHR 0x0a) (fm_body m) = [fm_body m]" by (rule split_on_none [OF body(1)])
  have z: "js_trim (fm_title m) \<noteq> CTRLZ" "js_trim (fm_body m) \<noteq> CTRLZ" "fm_title m \<noteq> CTRLZ" "fm_body m \<noteq> CTRLZ"
    using assms(3) one by (auto simp: offerable_def)
  have t: "fbb_feed cz s (fm_title m) = ([], False, ?s1)"
    using assms raw z by (simp add: fbb_feed_def fbb_body_line_def ready_rx_def Let_def)
  have same: "s\<lparr>fs_rx_title := None, fs_rx_acc := [], fs_rx_bytes := 0, fs_phase := Done\<rparr> = s\<lparr>fs_phase := Done\<rparr>"
    using assms(2) by (cases s) (simp add: ready_rx_def)
  have "int (length (fm_body m) + 1) > min (int MAX_RECV_BYTES) x" for x using body(2) by simp
  then have b: "fbb_feed cz ?s1 (fm_body m) = ([''FQ''], True, s\<lparr>fs_phase := Done\<rparr>)"
    using assms raw z same by (simp add: fbb_feed_def fbb_body_line_def ready_rx_def Let_def)
  have "fbb_feed cz (s\<lparr>fs_phase := Done\<rparr>) CTRLZ = ([], False, s\<lparr>fs_phase := Done\<rparr>)" by (simp add: fbb_feed_def)
  then show ?thesis using t b one by (simp add: message_text_def)
qed

text \<open>
  A message whose body is a line of 64 KiB or more is lost without a trace. The called station wants it,
  gives up while its body arrives and ends the session; the caller takes that for the ordinary end, with
  the message off its queue and recorded as sent. Neither side has it afterwards.
\<close>

theorem oversize_message_lost:
  assumes "offerable m" "CHR 0x0a \<notin> set (fm_body m)" "MAX_RECV_BYTES \<le> length (fm_body m)" "fm_bid m \<notin> set held"
  shows "\<exists>b a. converse cz 2 (called greeted held) (snd (fbb_start (caller [m]))) (fst (fbb_start (caller [m]))) = (b, a, [])
    \<and> fs_phase a = Done \<and> ss_inbox (fs_store b) = []
    \<and> ss_queue (fs_store a) = [] \<and> ss_sent_bids (fs_store a) = [fm_bid m]"
proof -
  obtain reply b0 where b0: "fbb_feed cz (called greeted held) default_sid = (reply, False, b0)" "listening b0"
    "set reply \<subseteq> {default_sid}" "fs_store b0 = new_session_store [] held"
    using called_hears_sid by blast
  let ?a0 = "(caller [m])\<lparr>fs_sent_sid := True\<rparr>"
  let ?a1 = "?a0\<lparr>fs_offered := [offer_of m], fs_phase := Await_Fs\<rparr>"
  let ?ls = "build_proposal [offer_of m]"
  have st: "fs_store ?a0 = new_session_store [m] []" "fs_deferred ?a0 = []" "fs_compressed ?a0 = False"
    by (simp_all add: caller_def new_fbb_session_def)
  have p: "propose_block ?a0 = (?ls, ?a1)"
    using st by (simp add: propose_block_def new_session_store_def MAX_BLOCK_def Let_def)
  have sid: "session_sid ?a0 = default_sid" by (simp add: session_sid_def caller_def caller_opts_def new_fbb_session_def)
  have start: "fbb_start (caller [m]) = (default_sid # ?ls, ?a1)"
    using sid p by (simp add: fbb_start_def caller_def caller_opts_def new_fbb_session_def Let_def)
  have q: "ss_queue (fs_store ?a1) = [m]" "take MAX_BLOCK [m] = [m]" using st by (simp_all add: new_session_store_def MAX_BLOCK_def)
  have off: "offering ?a1" using st q assms(1) by (simp add: offering_def)
  have w: "wanted_of (fs_store b0) [m] = [m]" using assms(4) b0(4) by (simp add: wanted_of_def has_bid_def new_session_store_def)
  let ?b = "b0\<lparr>fs_pending_rx := [upper_proposal (offer_of m)], fs_phase := Recv_Block\<rparr>"
  have o: "feed_lines cz b0 ?ls = ([answer_to (fs_store b0) [m]], ?b)"
    using hear_offer [OF b0(2), of "[m]" cz] assms(1) w by simp
  have ans: "fbb_feed cz ?a1 (answer_to (fs_store b0) [m]) = (message_text m, False, after_block ?a1)"
    using hear_answer [OF off, of cz "fs_store b0"] q w by simp
  have r1: "feed_lines cz (called greeted held) (default_sid # ?ls) = (reply @ [answer_to (fs_store b0) [m]], ?b)"
    using b0(1) o by (simp add: Let_def)
  have r2: "feed_lines cz ?a1 (reply @ [answer_to (fs_store b0) [m]]) = (message_text m, after_block ?a1)"
    using caller_ignores_sid [of ?a1 reply cz] b0(3) ans by simp
  have r3: "feed_lines cz ?b (message_text m) = ([''FQ''], ?b\<lparr>fs_phase := Done\<rparr>)"
    using b0(2) assms by (intro feed_too_long) (simp_all add: listening_def ready_rx_def)
  have r4: "feed_lines cz (after_block ?a1) [''FQ''] = ([], (after_block ?a1)\<lparr>fs_phase := Done\<rparr>)"
    using off by (simp add: after_block_def offering_def fbb_feed_def fbb_proposal_line_def commands upper_command_letters Let_def)
  have "converse cz 2 (called greeted held) ?a1 (default_sid # ?ls) = (?b\<lparr>fs_phase := Done\<rparr>, (after_block ?a1)\<lparr>fs_phase := Done\<rparr>, [])"
    unfolding numeral_2_eq_2 converse.simps by (simp only: r1 r2 r3 r4 Let_def prod.case)
  then show ?thesis unfolding start using st q b0(4) by (simp add: after_block_def new_session_store_def MAX_BLOCK_def)
qed

definition long_message :: fbb_message where
  "long_message = sample_message\<lparr>fm_body := replicate 65536 (CHR ''x'')\<rparr>"

lemma oversize_message_lost_witness:
  "\<exists>b a. converse no_codec 2 (called False []) (snd (fbb_start (caller [long_message]))) (fst (fbb_start (caller [long_message]))) = (b, a, [])
    \<and> fs_phase a = Done \<and> ss_inbox (fs_store b) = []
    \<and> ss_queue (fs_store a) = [] \<and> ss_sent_bids (fs_store a) = [fm_bid long_message]"
proof (rule oversize_message_lost)
  have b: "CHR 0x0a \<notin> set (replicate n (CHR ''x''))" for n by simp
  have t: "js_trim (replicate n (CHR ''x'')) = replicate n (CHR ''x'')" for n
    by (rule js_trim_no_space) (simp add: is_space_def char_code_def)
  have "replicate n (CHR ''x'') \<noteq> CTRLZ" for n by (cases n) (simp_all add: CTRLZ_def)
  then show "offerable long_message"
    using sendable_sample split_on_none [OF b] t
    by (simp add: sendable_def offerable_def long_message_def sample_message_def)
qed (simp_all add: long_message_def MAX_RECV_BYTES_def)

text \<open>
  A peer that offers the same new message twice in one block has it stored twice: whether it is held is
  asked for the whole block before any of it arrives.
\<close>

theorem block_stores_twice:
  assumes "listening b" "sendable m" "\<not> has_bid (fm_bid m) (fs_store b)"
  shows "ss_inbox (fs_store (snd (feed_lines cz b (build_proposal (map offer_of [m, m]) @ message_text m @ message_text m))))
    = ss_inbox (fs_store b) @ [received m, received m]"
proof -
  let ?b = "b\<lparr>fs_pending_rx := map (\<lambda>m. upper_proposal (offer_of m)) [m, m], fs_phase := Recv_Block\<rparr>"
  have w: "wanted_of (fs_store b) [m, m] = [m, m]" using assms(3) by (simp add: wanted_of_def)
  have o: "feed_lines cz b (build_proposal (map offer_of [m, m])) = ([answer_to (fs_store b) [m, m]], ?b)"
    using hear_offer [OF assms(1), of "[m, m]" cz] assms(2) w by (simp add: sendable_def)
  have "feed_lines cz ?b (concat (map message_text [m, m])) =
      propose_block (?b\<lparr>fs_pending_rx := [], fs_store := fold (\<lambda>m. store_accept (received m)) [m, m] (fs_store ?b)\<rparr>)"
    using assms by (intro feed_messages) (simp_all add: listening_def ready_rx_def)
  then have "ss_inbox (fs_store (snd (feed_lines cz ?b (message_text m @ message_text m)))) = ss_inbox (fs_store b) @ [received m, received m]"
    by (simp add: propose_block_phase store_accept_def)
  then show ?thesis unfolding feed_lines_append [of _ b] o by simp
qed

lemma block_stores_twice_witness:
  "ss_inbox (fs_store (snd (feed_lines no_codec (snd (snd (fbb_feed no_codec (called True []) default_sid)))
      (build_proposal (map offer_of [sample_message, sample_message]) @ message_text sample_message @ message_text sample_message))))
    = [received sample_message, received sample_message]"
proof -
  obtain reply b where b: "fbb_feed no_codec (called True []) default_sid = (reply, False, b)" "listening b"
    "fs_store b = new_session_store [] []"
    using called_hears_sid by blast
  then show ?thesis using block_stores_twice [OF b(2) sendable_sample, of no_codec]
    by (simp add: has_bid_def new_session_store_def)
qed

end
