(* ===== verification/Lzhuf_Code.thy ===== *)
theory Lzhuf_Code
  imports Prelude
begin

unbundle bit_operations_syntax

text \<open>
  The LZHUF codec, \<open>packages/packet/src/lzhuf.ts\<close>, in four theories: here the tables, the CRC and the bit
  streams; \<open>Lzhuf_Huffman\<close> holds the adaptive Huffman tree, \<open>Lzhuf_Ring\<close> the ring buffer with its search
  trees, \<open>Lzhuf\<close> the compressor, the decompressor and the frames. The fields of \<open>Coder\<close> are in one record per
  group, one definition stands for each method. A typed array is a function from its indices, a fresh one is 0
  everywhere; the 16-bit arrays and registers keep their width. A loop whose end the code leaves to the shape
  of a tree has a fuel, and running out of it is the error \<open>Loops\<close> of the model, which no theorem about a
  result allows.
\<close>

section \<open>Sizes and tables\<close>

abbreviation (input) LZ_N :: nat where "LZ_N \<equiv> 2048"
abbreviation (input) LZ_F :: nat where "LZ_F \<equiv> 60"
abbreviation (input) LZ_THRESHOLD :: nat where "LZ_THRESHOLD \<equiv> 2"
abbreviation (input) LZ_NIL :: nat where "LZ_NIL \<equiv> 2048"
abbreviation (input) N_CHAR :: nat where "N_CHAR \<equiv> 314"
abbreviation (input) LZ_T :: nat where "LZ_T \<equiv> 627"
abbreviation (input) LZ_R :: nat where "LZ_R \<equiv> 626"

text \<open>A typed array as the function of its places.\<close>

type_synonym array = "nat \<Rightarrow> nat"

definition MAX_FREQ :: nat where "MAX_FREQ = 0x8000"
definition LZHUF_MAX_SIZE :: nat where "LZHUF_MAX_SIZE = 1024 * 1024"
definition MAX_PAD :: nat where "MAX_PAD = 4"

datatype lz_error = Stream_ends | Short_size | Above_ceiling | Short_header | Loops

definition P_LEN :: "nat list" where
  "P_LEN = [3, 4, 4, 4, 5, 5, 5, 5, 5, 5, 5, 5, 6, 6, 6, 6,
    6, 6, 6, 6, 6, 6, 6, 6, 7, 7, 7, 7, 7, 7, 7, 7,
    7, 7, 7, 7, 7, 7, 7, 7, 7, 7, 7, 7, 7, 7, 7, 7,
    8, 8, 8, 8, 8, 8, 8, 8, 8, 8, 8, 8, 8, 8, 8, 8]"

definition P_CODE :: "nat list" where
  "P_CODE = [0, 32, 48, 64, 80, 88, 96, 104, 112, 120, 128, 136, 144, 148, 152, 156,
    160, 164, 168, 172, 176, 180, 184, 188, 192, 194, 196, 198, 200, 202, 204, 206,
    208, 210, 212, 214, 216, 218, 220, 222, 224, 226, 228, 230, 232, 234, 236, 238,
    240, 241, 242, 243, 244, 245, 246, 247, 248, 249, 250, 251, 252, 253, 254, 255]"

definition D_CODE :: "nat list" where
  "D_CODE = [0, 0, 0, 0, 0, 0, 0, 0, 0, 0, 0, 0, 0, 0, 0, 0,
    0, 0, 0, 0, 0, 0, 0, 0, 0, 0, 0, 0, 0, 0, 0, 0,
    1, 1, 1, 1, 1, 1, 1, 1, 1, 1, 1, 1, 1, 1, 1, 1,
    2, 2, 2, 2, 2, 2, 2, 2, 2, 2, 2, 2, 2, 2, 2, 2,
    3, 3, 3, 3, 3, 3, 3, 3, 3, 3, 3, 3, 3, 3, 3, 3,
    4, 4, 4, 4, 4, 4, 4, 4, 5, 5, 5, 5, 5, 5, 5, 5,
    6, 6, 6, 6, 6, 6, 6, 6, 7, 7, 7, 7, 7, 7, 7, 7,
    8, 8, 8, 8, 8, 8, 8, 8, 9, 9, 9, 9, 9, 9, 9, 9,
    10, 10, 10, 10, 10, 10, 10, 10, 11, 11, 11, 11, 11, 11, 11, 11,
    12, 12, 12, 12, 13, 13, 13, 13, 14, 14, 14, 14, 15, 15, 15, 15,
    16, 16, 16, 16, 17, 17, 17, 17, 18, 18, 18, 18, 19, 19, 19, 19,
    20, 20, 20, 20, 21, 21, 21, 21, 22, 22, 22, 22, 23, 23, 23, 23,
    24, 24, 25, 25, 26, 26, 27, 27, 28, 28, 29, 29, 30, 30, 31, 31,
    32, 32, 33, 33, 34, 34, 35, 35, 36, 36, 37, 37, 38, 38, 39, 39,
    40, 40, 41, 41, 42, 42, 43, 43, 44, 44, 45, 45, 46, 46, 47, 47,
    48, 49, 50, 51, 52, 53, 54, 55, 56, 57, 58, 59, 60, 61, 62, 63]"

definition D_LEN :: "nat list" where
  "D_LEN = [3, 3, 3, 3, 3, 3, 3, 3, 3, 3, 3, 3, 3, 3, 3, 3,
    3, 3, 3, 3, 3, 3, 3, 3, 3, 3, 3, 3, 3, 3, 3, 3,
    4, 4, 4, 4, 4, 4, 4, 4, 4, 4, 4, 4, 4, 4, 4, 4,
    4, 4, 4, 4, 4, 4, 4, 4, 4, 4, 4, 4, 4, 4, 4, 4,
    4, 4, 4, 4, 4, 4, 4, 4, 4, 4, 4, 4, 4, 4, 4, 4,
    5, 5, 5, 5, 5, 5, 5, 5, 5, 5, 5, 5, 5, 5, 5, 5,
    5, 5, 5, 5, 5, 5, 5, 5, 5, 5, 5, 5, 5, 5, 5, 5,
    5, 5, 5, 5, 5, 5, 5, 5, 5, 5, 5, 5, 5, 5, 5, 5,
    5, 5, 5, 5, 5, 5, 5, 5, 5, 5, 5, 5, 5, 5, 5, 5,
    6, 6, 6, 6, 6, 6, 6, 6, 6, 6, 6, 6, 6, 6, 6, 6,
    6, 6, 6, 6, 6, 6, 6, 6, 6, 6, 6, 6, 6, 6, 6, 6,
    6, 6, 6, 6, 6, 6, 6, 6, 6, 6, 6, 6, 6, 6, 6, 6,
    7, 7, 7, 7, 7, 7, 7, 7, 7, 7, 7, 7, 7, 7, 7, 7,
    7, 7, 7, 7, 7, 7, 7, 7, 7, 7, 7, 7, 7, 7, 7, 7,
    7, 7, 7, 7, 7, 7, 7, 7, 7, 7, 7, 7, 7, 7, 7, 7,
    8, 8, 8, 8, 8, 8, 8, 8, 8, 8, 8, 8, 8, 8, 8, 8]"

section \<open>The CRC of the frames\<close>

definition crc_shift :: "16 word \<Rightarrow> 16 word" where
  "crc_shift c = (if c AND 0x8000 \<noteq> 0 then push_bit 1 c XOR 0x1021 else push_bit 1 c)"

definition crc_entry :: "nat \<Rightarrow> 16 word" where
  "crc_entry i = (crc_shift ^^ 8) (push_bit 8 (of_nat i))"

definition LZ_CRCTAB :: "16 word list" where
  "LZ_CRCTAB = map crc_entry [0..<256]"

fun fbb_crc16 :: "16 word \<Rightarrow> byte list \<Rightarrow> 16 word" where
  "fbb_crc16 crc [] = crc"
| "fbb_crc16 crc (b # bs) = fbb_crc16 (LZ_CRCTAB ! unat ((drop_bit 8 crc AND 0xff) XOR ucast b) XOR push_bit 8 crc) bs"

section \<open>Bit output\<close>

record bit_out =
  bo_out :: "byte list"
  bo_putbuf :: "16 word"
  bo_putlen :: nat

definition putcode :: "nat \<Rightarrow> 16 word \<Rightarrow> bit_out \<Rightarrow> bit_out" where
  "putcode l c b =
     (let buf = bo_putbuf b OR drop_bit (bo_putlen b) c; len = bo_putlen b + l
      in if 8 \<le> len
         then let out = bo_out b @ [ucast (drop_bit 8 buf)]; len = len - 8
              in if 8 \<le> len
                 then \<lparr>bo_out = out @ [ucast buf], bo_putbuf = push_bit (l - (len - 8)) c, bo_putlen = len - 8\<rparr>
                 else \<lparr>bo_out = out, bo_putbuf = push_bit 8 buf, bo_putlen = len\<rparr>
         else \<lparr>bo_out = bo_out b, bo_putbuf = buf, bo_putlen = len\<rparr>)"

definition encode_end :: "bit_out \<Rightarrow> byte list" where
  "encode_end b = bo_out b @ (if bo_putlen b = 0 then [] else [ucast (drop_bit 8 (bo_putbuf b))])"

definition encode_position :: "nat \<Rightarrow> bit_out \<Rightarrow> bit_out" where
  "encode_position c b =
     (let i = c div 64
      in putcode 6 (of_nat ((c mod 64) * 2 ^ 10)) (putcode (P_LEN ! i) (of_nat (P_CODE ! i * 2 ^ 8)) b))"

section \<open>Bit input\<close>

text \<open>The input not yet read stands for \<open>inp\<close> and \<open>ip\<close>.\<close>

record bit_in =
  bi_inp :: "byte list"
  bi_pad :: nat
  bi_getbuf :: "16 word"
  bi_getlen :: nat

definition next_byte :: "bit_in \<Rightarrow> lz_error + byte \<times> bit_in" where
  "next_byte b =
     (case bi_inp b of
        x # xs \<Rightarrow> Inr (x, b\<lparr>bi_inp := xs\<rparr>)
      | [] \<Rightarrow> if MAX_PAD < bi_pad b + 1 then Inl Stream_ends else Inr (0, b\<lparr>bi_pad := bi_pad b + 1\<rparr>))"

text \<open>\<open>while (this.getlen <= 8)\<close>: at most two bytes.\<close>

definition refill_once :: "bit_in \<Rightarrow> lz_error + bit_in" where
  "refill_once b =
     (if bi_getlen b \<le> 8
      then case next_byte b of
             Inl e \<Rightarrow> Inl e
           | Inr (x, b) \<Rightarrow> Inr (b\<lparr>bi_getbuf := bi_getbuf b OR push_bit (8 - bi_getlen b) (ucast x), bi_getlen := bi_getlen b + 8\<rparr>)
      else Inr b)"

definition refill :: "bit_in \<Rightarrow> lz_error + bit_in" where
  "refill b = (case refill_once b of Inl e \<Rightarrow> Inl e | Inr b \<Rightarrow> refill_once b)"

definition get_bit :: "bit_in \<Rightarrow> lz_error + nat \<times> bit_in" where
  "get_bit b =
     (case refill b of
        Inl e \<Rightarrow> Inl e
      | Inr b \<Rightarrow> Inr (unat (drop_bit 15 (bi_getbuf b)), b\<lparr>bi_getbuf := push_bit 1 (bi_getbuf b), bi_getlen := bi_getlen b - 1\<rparr>))"

definition get_byte :: "bit_in \<Rightarrow> lz_error + nat \<times> bit_in" where
  "get_byte b =
     (case refill b of
        Inl e \<Rightarrow> Inl e
      | Inr b \<Rightarrow> Inr (unat (drop_bit 8 (bi_getbuf b)), b\<lparr>bi_getbuf := push_bit 8 (bi_getbuf b), bi_getlen := bi_getlen b - 8\<rparr>))"

fun position_bits :: "nat \<Rightarrow> nat \<Rightarrow> bit_in \<Rightarrow> lz_error + nat \<times> bit_in" where
  "position_bits 0 i b = Inr (i, b)"
| "position_bits (Suc j) i b =
     (case get_bit b of Inl e \<Rightarrow> Inl e | Inr (x, b) \<Rightarrow> position_bits j ((2 * i + x) mod 256) b)"

definition decode_position :: "bit_in \<Rightarrow> lz_error + nat \<times> bit_in" where
  "decode_position b =
     (case get_byte b of
        Inl e \<Rightarrow> Inl e
      | Inr (i, b) \<Rightarrow>
          let c = D_CODE ! i * 64
          in case position_bits (D_LEN ! i - 2) i b of Inl e \<Rightarrow> Inl e | Inr (i, b) \<Rightarrow> Inr (c + i mod 64, b))"

section \<open>The table computes the bitwise CRC\<close>

text \<open>The definition without a table: each bit of a byte shifted through the register.\<close>

fun bitwise_crc :: "16 word \<Rightarrow> byte list \<Rightarrow> 16 word" where
  "bitwise_crc crc [] = crc"
| "bitwise_crc crc (b # bs) = bitwise_crc ((crc_shift ^^ 8) (crc XOR push_bit 8 (ucast b))) bs"

lemma crc_top: "z AND 0x8000 \<noteq> 0 \<longleftrightarrow> bit z 15" for z :: "16 word"
  using and_exp_eq_0_iff_not_bit [of z 15] by simp

lemma crc_shift_xor: "crc_shift (x XOR y) = crc_shift x XOR crc_shift y"
  unfolding crc_shift_def crc_top
  by (cases "bit x 15"; cases "bit y 15") (simp_all add: bit_xor_iff push_bit_xor xor.assoc xor.left_commute xor.commute)

lemma crc_shifts_xor: "(crc_shift ^^ n) (x XOR y) = (crc_shift ^^ n) x XOR (crc_shift ^^ n) y"
  by (induction n) (simp_all add: crc_shift_xor)

lemma crc_shifts_low: "n \<le> 8 \<Longrightarrow> drop_bit 8 x = 0 \<Longrightarrow> (crc_shift ^^ n) x = push_bit n x"
proof (induction n)
  case (Suc n)
  have x: "\<not> bit x (15 - n)" if "n < 8"
  proof -
    have "bit (drop_bit 8 x) (7 - n) = bit x (15 - n)" using that by (simp add: bit_drop_bit_eq)
    then show ?thesis using Suc.prems(2) by simp
  qed
  have "\<not> bit (push_bit n x) 15" using x Suc.prems(1) by (simp add: bit_push_bit_iff)
  then show ?case using Suc by (simp add: crc_shift_def crc_top)
qed simp

lemma byte_bit_lt: "bit (b :: byte) n \<Longrightarrow> n < 8"
  using bit_imp_le_length [of b n] by simp

lemma crc_step:
  "(crc_shift ^^ 8) (crc XOR push_bit 8 (ucast b)) = LZ_CRCTAB ! unat ((drop_bit 8 crc AND 0xff) XOR ucast b) XOR push_bit 8 crc"
  for b :: byte
proof -
  have ff: "(0xff :: 16 word) = mask 8" by (simp add: mask_eq_exp_minus_1)
  let ?i = "(drop_bit 8 crc AND mask 8) XOR ucast b :: 16 word"
  have "crc XOR push_bit 8 (ucast b) = push_bit 8 ?i XOR (crc AND mask 8)"
    by (rule bit_word_eqI) (auto simp: bit_simps)
  moreover have "drop_bit 8 (crc AND mask 8) = 0"
    by (rule bit_word_eqI) (auto simp: bit_simps)
  moreover have "push_bit 8 (crc AND mask 8) = push_bit 8 crc"
    by (rule bit_word_eqI) (auto simp: bit_simps)
  moreover have "unat ?i < 256"
  proof -
    have "drop_bit 8 ?i = 0" by (rule bit_word_eqI) (auto simp: bit_simps dest: byte_bit_lt)
    then have "drop_bit 8 (unat ?i) = 0" by (metis unat_0 unat_drop_bit_eq)
    then show ?thesis by (simp add: drop_bit_eq_div div_eq_0_iff)
  qed
  ultimately show ?thesis unfolding ff by (simp add: LZ_CRCTAB_def crc_entry_def crc_shifts_xor crc_shifts_low)
qed

text \<open>The CRC of the frames, read off a table, is the CRC of the polynomial 0x1021 shifted bit by bit.\<close>

theorem table_crc_is_bitwise: "fbb_crc16 crc bs = bitwise_crc crc bs"
  by (induction bs arbitrary: crc) (simp_all add: crc_step)

section \<open>The bits written\<close>

text \<open>The bits of a register and of a byte, the highest in front.\<close>

definition word_bits :: "16 word \<Rightarrow> bool list" where
  "word_bits w = map (\<lambda>n. bit w (15 - n)) [0..<16]"

definition byte_bits :: "byte \<Rightarrow> bool list" where
  "byte_bits b = map (\<lambda>n. bit b (7 - n)) [0..<8]"

definition pad16 :: "bool list \<Rightarrow> bool list" where
  "pad16 bs = take 16 (bs @ replicate 16 False)"

text \<open>A register with the bits at its top.\<close>

fun top_bits :: "bool list \<Rightarrow> 16 word" where
  "top_bits [] = 0"
| "top_bits (b # bs) = (if b then drop_bit 1 (top_bits bs) + 0x8000 else drop_bit 1 (top_bits bs))"

lemma length_word_bits [simp]: "length (word_bits w) = 16" "length (byte_bits b) = 8" "length (pad16 bs) = 16"
  by (simp_all add: word_bits_def byte_bits_def pad16_def)

lemma nth_word_bits: "i < 16 \<Longrightarrow> word_bits w ! i = bit w (15 - i)"
  by (simp add: word_bits_def)

lemma nth_byte_bits: "i < 8 \<Longrightarrow> byte_bits w ! i = bit w (7 - i)"
  by (simp add: byte_bits_def)

lemma nth_pad16: "i < 16 \<Longrightarrow> pad16 bs ! i = (i < length bs \<and> bs ! i)"
  by (simp add: pad16_def nth_append)

lemma word_bits_eqI: "(\<And>i. i < 16 \<Longrightarrow> word_bits w ! i = xs ! i) \<Longrightarrow> length xs = 16 \<Longrightarrow> word_bits w = xs"
  by (rule nth_equalityI) simp_all

lemma bit_8000: "bit (0x8000 :: 16 word) n \<longleftrightarrow> n = 15"
  using bit_exp_iff [of 15 n, where ?'a = "16 word"] by auto

lemma top_step: "drop_bit 1 w + 0x8000 = drop_bit 1 w OR 0x8000" for w :: "16 word"
proof (rule disjunctive_add_eq_or)
  have "\<not> bit w 16" using bit_imp_le_length [of w 16] by auto
  then show "drop_bit 1 w AND 0x8000 = 0"
    by (intro bit_word_eqI) (simp only: bit_and_iff bit_drop_bit_eq bit_8000, auto)
qed

lemma bit_top_bits: "n < 16 \<Longrightarrow> bit (top_bits bs) n \<longleftrightarrow> 15 - n < length bs \<and> bs ! (15 - n)"
proof (induction bs arbitrary: n)
  case (Cons b bs)
  have no: "\<not> bit (top_bits bs) 16" using bit_imp_le_length [of "top_bits bs" 16] by auto
  have "bit (top_bits (b # bs)) n \<longleftrightarrow> (if n = 15 then b else bit (top_bits bs) (n + 1))"
    unfolding top_bits.simps top_step using Cons.prems no
    by (cases b) (simp_all only: if_True if_False bit_or_iff bit_drop_bit_eq bit_8000, auto)
  moreover have "15 - n = Suc (15 - (n + 1))" if "n \<noteq> 15" using Cons.prems that by simp
  ultimately show ?case using Cons.IH [of "n + 1"] Cons.prems by (cases "n = 15") auto
qed simp

lemma word_bits_top: "word_bits (top_bits bs) = pad16 bs"
  by (rule word_bits_eqI) (simp_all add: nth_word_bits nth_pad16 bit_top_bits)

definition out_bits :: "bit_out \<Rightarrow> bool list" where
  "out_bits b = concat (map byte_bits (bo_out b)) @ take (bo_putlen b) (word_bits (bo_putbuf b))"

text \<open>Fewer than eight bits wait in the register, and nothing lies below them.\<close>

definition out_ok :: "bit_out \<Rightarrow> bool" where
  "out_ok b = (bo_putlen b < 8 \<and> word_bits (bo_putbuf b) = pad16 (take (bo_putlen b) (word_bits (bo_putbuf b))))"

lemma high_byte: "byte_bits (ucast (drop_bit 8 w)) = take 8 (word_bits w)"
  by (rule nth_equalityI) (auto simp: nth_byte_bits nth_word_bits bit_simps intro!: arg_cong [where f = "bit w"])

lemma low_byte: "byte_bits (ucast w) = drop 8 (word_bits w)"
  by (rule nth_equalityI) (auto simp: nth_byte_bits nth_word_bits bit_simps intro!: arg_cong [where f = "bit w"])

lemma push_word_bits: "n \<le> 16 \<Longrightarrow> word_bits (push_bit n w) = drop n (word_bits w) @ replicate n False"
  by (rule word_bits_eqI)
    (auto simp: nth_word_bits nth_append bit_push_bit_iff add.commute)

lemma or_drop_bits:
  assumes "length us \<le> 16" "word_bits u = pad16 us" "word_bits c = pad16 bs"
  shows "word_bits (u OR drop_bit (length us) c) = pad16 (us @ bs)"
proof (rule word_bits_eqI)
  fix i :: nat assume i: "i < 16"
  have u: "bit u (15 - i) = (i < length us \<and> us ! i)" using assms(2) i by (metis nth_pad16 nth_word_bits)
  have c: "bit c (15 - j) = (j < length bs \<and> bs ! j)" if "j < 16" for j using assms(3) that by (metis nth_pad16 nth_word_bits)
  have "bit c (length us + (15 - i)) = (length us \<le> i \<and> i - length us < length bs \<and> bs ! (i - length us))"
  proof (cases "length us \<le> i")
    case True
    then have "length us + (15 - i) = 15 - (i - length us)" using i by simp
    then show ?thesis using c [of "i - length us"] True i by simp
  next
    case False
    then have "16 \<le> length us + (15 - i)" using i by simp
    then show ?thesis using False bit_imp_le_length [of c "length us + (15 - i)"] by auto
  qed
  then show "word_bits (u OR drop_bit (length us) c) ! i = pad16 (us @ bs) ! i"
    using i u by (auto simp: nth_word_bits nth_pad16 bit_or_iff bit_drop_bit_eq nth_append)
qed simp

lemma take_pad16: "n \<le> length bs \<Longrightarrow> n \<le> 16 \<Longrightarrow> take n (pad16 bs) = take n bs"
  by (simp add: pad16_def)

lemma pad16_long: "16 \<le> length bs \<Longrightarrow> pad16 bs = take 16 bs"
  by (simp add: pad16_def)

lemma shift_pad16: "n \<le> length bs \<Longrightarrow> n \<le> 16 \<Longrightarrow> drop n (pad16 bs) @ replicate n False = pad16 (drop n bs)" if "length bs \<le> 16"
  by (rule nth_equalityI) (use that in \<open>auto simp: nth_append nth_pad16 add.commute\<close>)

text \<open>A code of at most sixteen bits is appended to the bits written.\<close>

lemma putcode_bits:
  assumes b: "out_ok b" and l: "length bs \<le> 16"
  shows "out_ok (putcode (length bs) (top_bits bs) b)" "out_bits (putcode (length bs) (top_bits bs) b) = out_bits b @ bs"
proof -
  let ?us = "take (bo_putlen b) (word_bits (bo_putbuf b))"
  let ?buf = "bo_putbuf b OR drop_bit (bo_putlen b) (top_bits bs)" and ?ws = "?us @ bs"
  have p: "bo_putlen b < 8" "length ?us = bo_putlen b" and u: "word_bits (bo_putbuf b) = pad16 ?us" using b by (simp_all add: out_ok_def)
  have buf: "word_bits ?buf = pad16 ?ws" using or_drop_bits [OF _ u word_bits_top] p by simp
  have len: "length ?ws = bo_putlen b + length bs" using p(2) by simp
  obtain w where w: "?buf = w" by blast
  note buf = buf [unfolded w]
  have "out_ok (putcode (length bs) (top_bits bs) b) \<and> out_bits (putcode (length bs) (top_bits bs) b) = out_bits b @ bs"
  proof (cases "bo_putlen b + length bs < 8")
    case True
    then have "take (bo_putlen b + length bs) (pad16 ?ws) = ?ws" using take_pad16 [of "length ?ws" ?ws] len by simp
    then show ?thesis using True by (simp add: putcode_def Let_def w out_ok_def out_bits_def buf)
  next
    case False
    show ?thesis
    proof (cases "bo_putlen b + length bs < 16")
      case True
      have "drop 8 (pad16 ?ws) @ replicate 8 False = pad16 (drop 8 ?ws)" using False True len by (intro shift_pad16) simp_all
      moreover have "word_bits (push_bit 8 w) = drop 8 (word_bits w) @ replicate 8 False" by (rule push_word_bits) simp
      ultimately have s: "word_bits (push_bit 8 w) = pad16 (drop 8 ?ws)" by (simp only: buf)
      have "take (bo_putlen b + length bs - 8) (pad16 (drop 8 ?ws)) = drop 8 ?ws"
      proof -
        have l8: "length (drop 8 ?ws) = bo_putlen b + length bs - 8" by (simp only: length_drop len)
        then have "take (bo_putlen b + length bs - 8) (pad16 (drop 8 ?ws)) = take (bo_putlen b + length bs - 8) (drop 8 ?ws)"
          using True by (intro take_pad16) simp_all
        also have "\<dots> = drop 8 ?ws" by (rule take_all) (simp only: l8)
        finally show ?thesis .
      qed
      moreover have "take 8 (pad16 ?ws) = take 8 ?ws" using False len by (intro take_pad16) simp_all
      moreover have "\<not> 8 \<le> bo_putlen b + length bs - 8" using True by simp
      ultimately show ?thesis using True False p(1)
        by (simp add: putcode_def Let_def w out_ok_def out_bits_def s buf high_byte del: take_append drop_append)
    next
      case big: False
      let ?m = "16 - bo_putlen b"
      have m: "length bs - (bo_putlen b + length bs - 8 - 8) = ?m" "?m \<le> length bs" using big p(1) by simp_all
      have "drop ?m (pad16 bs) @ replicate ?m False = pad16 (drop ?m bs)" using l m(2) by (intro shift_pad16) simp_all
      then have s: "word_bits (push_bit ?m (top_bits bs)) = pad16 (drop ?m bs)" by (simp add: push_word_bits word_bits_top)
      have t: "take (bo_putlen b + length bs - 16) (pad16 (drop ?m bs)) = drop ?m bs"
        using take_pad16 [of "length (drop ?m bs)" "drop ?m bs"] p(1) l m(2) by (simp add: add.commute)
      have "pad16 ?ws = take 16 ?ws" using big len by (intro pad16_long) simp
      moreover have "drop 16 ?ws = drop ?m bs" using p by simp
      ultimately have "pad16 ?ws @ drop ?m bs = ?us @ bs" by (metis append_take_drop_id)
      moreover have "bo_putlen b + length bs - 16 < 8" using p(1) l by linarith
      moreover have "byte_bits (ucast (drop_bit 8 w)) = take 8 (pad16 ?ws)" "byte_bits (ucast w) = drop 8 (pad16 ?ws)"
        using high_byte [of w] low_byte [of w] by (simp_all only: buf)
      moreover have "8 \<le> bo_putlen b + length bs - 8" using big by simp
      ultimately show ?thesis using big p(1) l m
        by (simp add: putcode_def Let_def w out_ok_def out_bits_def s t del: take_append drop_append)
    qed
  qed
  then show "out_ok (putcode (length bs) (top_bits bs) b)" "out_bits (putcode (length bs) (top_bits bs) b) = out_bits b @ bs" by simp_all
qed

section \<open>The bits read\<close>

text \<open>
  What the reader can still deliver: the valid bits of the register, the input, and the zeros it may read past
  the end.
\<close>

definition in_bits :: "bit_in \<Rightarrow> bool list" where
  "in_bits b = take (bi_getlen b) (word_bits (bi_getbuf b)) @ concat (map byte_bits (bi_inp b)) @ replicate (8 * (MAX_PAD - bi_pad b)) False"

definition in_ok :: "bit_in \<Rightarrow> bool" where
  "in_ok b = (bi_getlen b \<le> 16 \<and> word_bits (bi_getbuf b) = pad16 (take (bi_getlen b) (word_bits (bi_getbuf b))) \<and> bi_pad b \<le> MAX_PAD)"

lemma byte_bits_0: "byte_bits 0 = replicate 8 False"
  by (rule nth_equalityI) (simp_all add: nth_byte_bits)

lemma length_concat_bytes [simp]: "length (concat (map byte_bits bs)) = 8 * length bs"
  by (induction bs) simp_all

lemma push_byte:
  assumes "length us \<le> 8" "word_bits u = pad16 us"
  shows "word_bits (u OR push_bit (8 - length us) (ucast x)) = pad16 (us @ byte_bits x)"
proof (rule word_bits_eqI)
  fix i :: nat assume i: "i < 16"
  have u: "bit u (15 - i) = (i < length us \<and> us ! i)" using assms(2) i by (metis nth_pad16 nth_word_bits)
  have "bit (push_bit (8 - length us) (ucast x :: 16 word)) (15 - i) = (length us \<le> i \<and> i - length us < 8 \<and> byte_bits x ! (i - length us))"
  proof (cases "length us \<le> i \<and> i - length us < 8")
    case True
    then have "7 - (i - length us) = 15 - i - (8 - length us)" using assms(1) by linarith
    then show ?thesis using True i assms(1) by (auto simp: bit_push_bit_iff bit_ucast_iff nth_byte_bits)
  next
    case False
    then show ?thesis using i assms(1) byte_bit_lt [of x "15 - i - (8 - length us)"]
      by (auto simp: bit_push_bit_iff bit_ucast_iff)
  qed
  then show "word_bits (u OR push_bit (8 - length us) (ucast x)) ! i = pad16 (us @ byte_bits x) ! i"
    using i u by (auto simp: nth_word_bits nth_pad16 bit_or_iff nth_append)
qed simp

lemma refill_once_bits:
  assumes ok: "in_ok b" and enough: "16 \<le> length (in_bits b)"
  shows "\<exists>b'. refill_once b = Inr b' \<and> in_ok b' \<and> in_bits b' = in_bits b \<and> (bi_getlen b' = bi_getlen b + 8 \<or> 8 < bi_getlen b \<and> b' = b)"
proof (cases "bi_getlen b \<le> 8")
  case True
  let ?us = "take (bi_getlen b) (word_bits (bi_getbuf b))"
  have us: "length ?us = bi_getlen b" "word_bits (bi_getbuf b) = pad16 ?us" using ok by (simp_all add: in_ok_def)
  have push: "word_bits (bi_getbuf b OR push_bit (8 - bi_getlen b) (ucast x)) = pad16 (?us @ byte_bits x)" for x
    using push_byte [OF _ us(2), of x] us(1) True by simp
  have len: "length (?us @ byte_bits x) = bi_getlen b + 8" for x using us(1) by simp
  have tk: "take (bi_getlen b + 8) (pad16 (?us @ byte_bits x)) = ?us @ byte_bits x" for x
    using take_pad16 [of "bi_getlen b + 8" "?us @ byte_bits x"] len True by simp
  show ?thesis
  proof (cases "bi_inp b")
    case (Cons x xs)
    then show ?thesis using True ok
      by (simp add: refill_once_def next_byte_def in_ok_def in_bits_def push tk)
  next
    case Nil
    have "bi_pad b < MAX_PAD"
    proof (rule ccontr)
      assume "\<not> bi_pad b < MAX_PAD"
      then have "length (in_bits b) \<le> 8" using True us(1) Nil by (simp add: in_bits_def)
      then show False using enough by simp
    qed
    moreover from this have "replicate (8 * (MAX_PAD - bi_pad b)) False = replicate 8 False @ replicate (8 * (MAX_PAD - Suc (bi_pad b))) False"
      unfolding replicate_add [symmetric] by (intro arg_cong [where f = "\<lambda>n. replicate n False"]) (simp add: MAX_PAD_def)
    moreover have "word_bits (bi_getbuf b) = pad16 (?us @ replicate 8 False)" using push [of 0] by (simp add: byte_bits_0)
    moreover from this have "take (bi_getlen b + 8) (word_bits (bi_getbuf b)) = ?us @ replicate 8 False"
      using tk [of 0] by (simp add: byte_bits_0)
    ultimately show ?thesis using True ok Nil
      by (simp add: refill_once_def next_byte_def in_ok_def in_bits_def)
  qed
next
  case False
  then show ?thesis using ok by (simp add: refill_once_def)
qed

lemma refill_bits:
  assumes "in_ok b" "16 \<le> length (in_bits b)"
  shows "\<exists>b'. refill b = Inr b' \<and> in_ok b' \<and> in_bits b' = in_bits b \<and> 8 < bi_getlen b'"
proof -
  obtain b1 where b1: "refill_once b = Inr b1" "in_ok b1" "in_bits b1 = in_bits b"
    "bi_getlen b1 = bi_getlen b + 8 \<or> 8 < bi_getlen b \<and> b1 = b" using refill_once_bits [OF assms] by blast
  obtain b2 where b2: "refill_once b1 = Inr b2" "in_ok b2" "in_bits b2 = in_bits b1"
    "bi_getlen b2 = bi_getlen b1 + 8 \<or> 8 < bi_getlen b1 \<and> b2 = b1" using refill_once_bits [OF b1(2)] assms(2) b1(3) by auto
  have "8 < bi_getlen b2" using b1(4) b2(4) b2(2) by (auto simp: in_ok_def)
  then show ?thesis using b1 b2 by (auto simp: refill_def)
qed

lemma top_bit: "unat (drop_bit 15 w) = (if word_bits w ! 0 then 1 else 0)" for w :: "16 word"
proof -
  have "bit w (15 + n) \<longleftrightarrow> n = 0 \<and> bit w 15" for n using bit_imp_le_length [of w "15 + n"] by auto
  then have "drop_bit 15 w = (if bit w 15 then 1 else 0)"
    by (intro bit_word_eqI) (simp add: bit_drop_bit_eq bit_1_iff)
  then show ?thesis by (simp add: nth_word_bits)
qed

lemma shifted_in:
  assumes "in_ok b" "n \<le> bi_getlen b"
  shows "in_ok (b\<lparr>bi_getbuf := push_bit n (bi_getbuf b), bi_getlen := bi_getlen b - n\<rparr>)"
    "in_bits b = take n (word_bits (bi_getbuf b)) @ in_bits (b\<lparr>bi_getbuf := push_bit n (bi_getbuf b), bi_getlen := bi_getlen b - n\<rparr>)"
proof -
  let ?us = "take (bi_getlen b) (word_bits (bi_getbuf b))"
  have ok: "bi_getlen b \<le> 16" "word_bits (bi_getbuf b) = pad16 ?us" using assms(1) by (simp_all add: in_ok_def)
  have "word_bits (push_bit n (bi_getbuf b)) = drop n (word_bits (bi_getbuf b)) @ replicate n False"
    using assms(2) ok(1) by (intro push_word_bits) simp
  also have "\<dots> = drop n (pad16 ?us) @ replicate n False" by (subst ok(2)) (rule refl)
  also have "\<dots> = pad16 (drop n ?us)" using assms(2) ok(1) by (intro shift_pad16) simp_all
  finally have p: "word_bits (push_bit n (bi_getbuf b)) = pad16 (drop n ?us)" .
  have t: "take (bi_getlen b - n) (pad16 (drop n ?us)) = drop n ?us"
    using take_pad16 [of "length (drop n ?us)" "drop n ?us"] ok(1) by simp
  show "in_ok (b\<lparr>bi_getbuf := push_bit n (bi_getbuf b), bi_getlen := bi_getlen b - n\<rparr>)"
    using assms ok(1) by (simp add: in_ok_def p t)
  have "?us = take n (word_bits (bi_getbuf b)) @ drop n ?us"
    using assms(2) by (metis append_take_drop_id min.absorb1 take_take)
  then show "in_bits b = take n (word_bits (bi_getbuf b)) @ in_bits (b\<lparr>bi_getbuf := push_bit n (bi_getbuf b), bi_getlen := bi_getlen b - n\<rparr>)"
    by (simp add: in_bits_def p t)
qed

text \<open>One bit, and eight at once, are the next of the input.\<close>

lemma get_bit_bits:
  assumes "in_ok b" "in_bits b = x # rest" "15 \<le> length rest"
  shows "\<exists>b'. get_bit b = Inr (if x then 1 else 0, b') \<and> in_ok b' \<and> in_bits b' = rest"
proof -
  obtain b1 where b1: "refill b = Inr b1" "in_ok b1" "in_bits b1 = x # rest" "8 < bi_getlen b1"
    using refill_bits [OF assms(1)] assms(2,3) by auto
  have "take 1 (word_bits (bi_getbuf b1)) = [word_bits (bi_getbuf b1) ! 0]"
    using take_Suc_conv_app_nth [of 0 "word_bits (bi_getbuf b1)"] by simp
  then have "word_bits (bi_getbuf b1) ! 0 = x" "in_bits (b1\<lparr>bi_getbuf := push_bit 1 (bi_getbuf b1), bi_getlen := bi_getlen b1 - 1\<rparr>) = rest"
    using shifted_in(2) [OF b1(2), of 1] b1(3,4) by simp_all
  then show ?thesis using b1 shifted_in(1) [OF b1(2), of 1] by (simp add: get_bit_def top_bit)
qed

definition bits_value :: "bool list \<Rightarrow> nat" where
  "bits_value bs = foldl (\<lambda>n b. 2 * n + (if b then 1 else 0)) 0 bs"

lemma bits_value_snoc: "bits_value (bs @ [b]) = 2 * bits_value bs + (if b then 1 else 0)"
  by (simp add: bits_value_def)

lemma bits_value_rev: "bits_value (rev bs) = horner_sum of_bool 2 bs"
  by (induction bs) (simp_all add: bits_value_snoc, simp add: bits_value_def)

lemma bits_value_byte: "bits_value (byte_bits b) = unat b"
proof -
  have "byte_bits b = rev (map (bit (unat b)) [0..<8])"
    by (rule nth_equalityI) (simp_all add: nth_byte_bits rev_nth bit_unsigned_iff Suc_diff_Suc)
  then have "bits_value (byte_bits b) = take_bit 8 (unat b)" by (simp only: bits_value_rev horner_sum_bit_eq_take_bit)
  moreover have "unat b < 2 ^ LENGTH(8)" by (rule unsigned_less)
  ultimately show ?thesis by (simp add: take_bit_nat_eq_self)
qed

lemma get_byte_bits:
  assumes "in_ok b" "in_bits b = xs @ rest" "length xs = 8" "8 \<le> length rest"
  shows "\<exists>b'. get_byte b = Inr (bits_value xs, b') \<and> in_ok b' \<and> in_bits b' = rest"
proof -
  obtain b1 where b1: "refill b = Inr b1" "in_ok b1" "in_bits b1 = xs @ rest" "8 < bi_getlen b1"
    using refill_bits [OF assms(1)] assms(2,3,4) by auto
  let ?b2 = "b1\<lparr>bi_getbuf := push_bit 8 (bi_getbuf b1), bi_getlen := bi_getlen b1 - 8\<rparr>"
  have "take 8 (word_bits (bi_getbuf b1)) @ in_bits ?b2 = xs @ rest" using shifted_in(2) [OF b1(2), of 8] b1(3,4) by simp
  then have "take 8 (word_bits (bi_getbuf b1)) = xs" "in_bits ?b2 = rest" using assms(3) by (simp_all add: append_eq_append_conv)
  moreover have "unat (drop_bit 8 (bi_getbuf b1)) = unat (ucast (drop_bit 8 (bi_getbuf b1)) :: byte)"
  proof -
    have "unat (bi_getbuf b1) < 2 ^ LENGTH(16)" by (rule unsigned_less)
    then have "drop_bit 8 (unat (bi_getbuf b1)) < 2 ^ 8" by (simp add: drop_bit_eq_div)
    then have "unat (drop_bit 8 (bi_getbuf b1)) < 2 ^ 8" by (simp only: unat_drop_bit_eq)
    then show ?thesis by (simp add: unsigned_ucast_eq take_bit_nat_eq_self)
  qed
  moreover have "\<dots> = bits_value (take 8 (word_bits (bi_getbuf b1)))" using bits_value_byte high_byte by metis
  ultimately show ?thesis using b1 shifted_in(1) [OF b1(2), of 8] by (simp add: get_byte_def)
qed

section \<open>Positions\<close>

definition nat_bits :: "nat \<Rightarrow> nat \<Rightarrow> bool list" where
  "nat_bits k n = rev (map (bit n) [0..<k])"

lemma length_nat_bits [simp]: "length (nat_bits k n) = k"
  by (simp add: nat_bits_def)

lemma bits_value_nat_bits: "bits_value (nat_bits k n) = n mod 2 ^ k"
  by (simp add: nat_bits_def bits_value_rev horner_sum_bit_eq_take_bit take_bit_eq_mod)

lemma nth_nat_bits: "i < k \<Longrightarrow> nat_bits k n ! i = bit n (k - 1 - i)"
  by (simp add: nat_bits_def rev_nth)

text \<open>A register that holds a number shifted to its top holds the bits of the number.\<close>

lemma top_bits_nat: "k \<le> 16 \<Longrightarrow> n < 2 ^ k \<Longrightarrow> top_bits (nat_bits k n) = of_nat (n * 2 ^ (16 - k))"
proof (rule bit_word_eqI)
  fix i assume k: "k \<le> 16" "n < 2 ^ k" and i: "i < LENGTH(16)"
  have "bit (of_nat (push_bit (16 - k) n) :: 16 word) i = bit (push_bit (16 - k) n) i"
    using i by (simp only: bit_of_nat_iff) simp
  then have "bit (of_nat (n * 2 ^ (16 - k)) :: 16 word) i = bit (push_bit (16 - k) n) i" by (simp only: push_bit_eq_mult)
  also have "\<dots> = (16 - k \<le> i \<and> bit n (i - (16 - k)))" by (simp add: bit_push_bit_iff)
  finally have n: "bit (of_nat (n * 2 ^ (16 - k)) :: 16 word) i = (16 - k \<le> i \<and> bit n (i - (16 - k)))" .
  show "bit (top_bits (nat_bits k n)) i = bit (of_nat (n * 2 ^ (16 - k)) :: 16 word) i"
    unfolding n using i k(1) by (auto simp: bit_top_bits nth_nat_bits add.commute)
qed

text \<open>The bits of a position: the code of its upper six bits, then its lower six.\<close>

definition position_code :: "nat \<Rightarrow> bool list" where
  "position_code c = (let i = c div 64; l = P_LEN ! i in nat_bits l (P_CODE ! i div 2 ^ (8 - l)) @ nat_bits 6 (c mod 64))"

lemma position_tables:
  "u < 64 \<Longrightarrow> 3 \<le> P_LEN ! u \<and> P_LEN ! u \<le> 8 \<and> P_CODE ! u < 256 \<and> P_CODE ! u mod 2 ^ (8 - P_LEN ! u) = 0"
proof -
  have "list_all (\<lambda>u. 3 \<le> P_LEN ! u \<and> P_LEN ! u \<le> 8 \<and> P_CODE ! u < 256 \<and> P_CODE ! u mod 2 ^ (8 - P_LEN ! u) = 0) [0..<64]"
    by code_simp
  then show "u < 64 \<Longrightarrow> ?thesis" by (simp add: list_all_iff)
qed

text \<open>The reading tables lay out each code over the bytes that start with it.\<close>

fun prefix_sums :: "nat \<Rightarrow> nat list \<Rightarrow> nat list" where
  "prefix_sums a [] = []"
| "prefix_sums a (n # ns) = a # prefix_sums (a + n) ns"

definition code_spans :: "nat list" where
  "code_spans = map (\<lambda>l. 2 ^ (8 - l)) P_LEN"

definition spread :: "nat list \<Rightarrow> nat list \<Rightarrow> nat list" where
  "spread ns xs = concat (map2 replicate ns xs)"

lemma nth_prefix_sums: "u < length ns \<Longrightarrow> prefix_sums a ns ! u = a + sum_list (take u ns)"
  by (induction a ns arbitrary: u rule: prefix_sums.induct) (auto simp: nth_Cons' take_Cons')

lemma nth_spread:
  "length ns = length xs \<Longrightarrow> u < length ns \<Longrightarrow> x < ns ! u \<Longrightarrow> spread ns xs ! (sum_list (take u ns) + x) = xs ! u"
proof (induction ns xs arbitrary: u rule: list_induct2')
  case (4 n ns y xs)
  then show ?case by (cases u) (simp_all add: spread_def nth_append add.assoc)
qed simp_all

lemma table_layout: "P_CODE = prefix_sums 0 code_spans" "D_CODE = spread code_spans [0..<64]" "D_LEN = spread code_spans P_LEN"
  by code_simp+

lemma position_read_tables:
  assumes "u < 64" "x < 2 ^ (8 - P_LEN ! u)"
  shows "D_CODE ! (P_CODE ! u + x) = u \<and> D_LEN ! (P_CODE ! u + x) = P_LEN ! u"
proof -
  have l: "length P_LEN = 64" "length code_spans = 64" by (simp_all add: P_LEN_def code_spans_def)
  have "P_CODE ! u = sum_list (take u code_spans)" using nth_prefix_sums [of u code_spans 0] assms(1) l by (simp add: table_layout(1))
  moreover have "x < code_spans ! u" using assms l(1) by (simp add: code_spans_def)
  ultimately show ?thesis
    using nth_spread [of code_spans "[0..<64]" u x] nth_spread [of code_spans P_LEN u x] assms(1) l by (simp add: table_layout(2,3))
qed

lemma encode_position_bits:
  assumes "out_ok b" "c < 4096"
  shows "out_ok (encode_position c b) \<and> out_bits (encode_position c b) = out_bits b @ position_code c"
proof -
  let ?u = "c div 64"
  let ?l = "P_LEN ! ?u"
  have u: "?u < 64" using assms(2) by simp
  note t = position_tables [OF u]
  have pc: "P_CODE ! ?u = (P_CODE ! ?u div 2 ^ (8 - ?l)) * 2 ^ (8 - ?l)"
    using t by (metis add.right_neutral div_mult_mod_eq)
  have lt: "P_CODE ! ?u div 2 ^ (8 - ?l) < 2 ^ ?l"
  proof -
    have "(2 :: nat) ^ ?l * 2 ^ (8 - ?l) = 256" using t by (simp flip: power_add)
    then show ?thesis using t by (metis div_less_iff_less_mult mult.commute zero_less_numeral zero_less_power)
  qed
  have "16 - ?l = (8 - ?l) + 8" using t by linarith
  then have sh: "(2 :: nat) ^ (16 - ?l) = 2 ^ (8 - ?l) * 2 ^ 8" by (simp only: power_add)
  have "of_nat (P_CODE ! ?u * 2 ^ 8) = (of_nat (P_CODE ! ?u div 2 ^ (8 - ?l) * 2 ^ (16 - ?l)) :: 16 word)"
    unfolding sh mult.assoc [symmetric] pc [symmetric] by (rule refl)
  then have c1: "of_nat (P_CODE ! ?u * 2 ^ 8) = top_bits (nat_bits ?l (P_CODE ! ?u div 2 ^ (8 - ?l)))"
    using top_bits_nat [OF _ lt] t by simp
  have c2: "of_nat ((c mod 64) * 2 ^ 10) = top_bits (nat_bits 6 (c mod 64))" using top_bits_nat [of 6 "c mod 64"] by simp
  let ?b = "putcode ?l (of_nat (P_CODE ! ?u * 2 ^ 8)) b"
  have b1: "out_ok ?b" "out_bits ?b = out_bits b @ nat_bits ?l (P_CODE ! ?u div 2 ^ (8 - ?l))"
    unfolding c1 using putcode_bits [OF assms(1), of "nat_bits ?l (P_CODE ! ?u div 2 ^ (8 - ?l))"] t by simp_all
  have "out_ok (putcode 6 (of_nat ((c mod 64) * 2 ^ 10)) ?b)"
    "out_bits (putcode 6 (of_nat ((c mod 64) * 2 ^ 10)) ?b) = out_bits ?b @ nat_bits 6 (c mod 64)"
    unfolding c2 using putcode_bits [OF b1(1), of "nat_bits 6 (c mod 64)"] by simp_all
  then show ?thesis using b1(2) by (simp add: encode_position_def position_code_def Let_def)
qed

lemma position_bits_read:
  "in_ok b \<Longrightarrow> in_bits b = xs @ rest \<Longrightarrow> 16 \<le> length rest \<Longrightarrow>
    \<exists>b'. position_bits (length xs) i b = Inr (foldl (\<lambda>n x. (2 * n + (if x then 1 else 0)) mod 256) i xs, b') \<and> in_ok b' \<and> in_bits b' = rest"
proof (induction xs arbitrary: i b)
  case (Cons x xs)
  obtain b1 where b1: "get_bit b = Inr (if x then 1 else 0, b1)" "in_ok b1" "in_bits b1 = xs @ rest"
    using get_bit_bits [OF Cons.prems(1), of x "xs @ rest"] Cons.prems(2,3) by auto
  show ?case using Cons.IH [OF b1(2,3) Cons.prems(3), of "(2 * i + (if x then 1 else 0)) mod 256"] b1(1) by simp
qed simp

lemma foldl_bits: "foldl (\<lambda>n b. 2 * n + (if b then 1 else 0)) a bs = a * 2 ^ length bs + bits_value bs"
proof (induction bs rule: rev_induct)
  case (snoc b bs)
  then show ?case by (simp add: bits_value_snoc algebra_simps)
qed (simp add: bits_value_def)

lemma bits_value_append: "bits_value (xs @ ys) = bits_value xs * 2 ^ length ys + bits_value ys"
proof -
  have "bits_value (xs @ ys) = foldl (\<lambda>n b. 2 * n + (if b then 1 else 0)) (bits_value xs) ys" by (simp add: bits_value_def)
  then show ?thesis by (simp only: foldl_bits)
qed

lemma fold_bits_mod: "foldl (\<lambda>n x. (2 * n + (if x then 1 else 0)) mod 256) i xs mod 64 = (i * 2 ^ length xs + bits_value xs) mod 64"
proof -
  have "foldl (\<lambda>n x. (2 * n + (if x then 1 else 0)) mod 256) i xs mod 256
      = foldl (\<lambda>n b. 2 * n + (if b then 1 else 0)) i xs mod 256"
  proof (induction xs rule: rev_induct)
    case (snoc x xs)
    have step: "(2 * a + e) mod 256 = (2 * (a mod 256) + e) mod 256" for a e :: nat by (metis mod_add_left_eq mod_mult_right_eq)
    show ?case unfolding foldl_append foldl.simps mod_mod_trivial by (subst (1 2) step) (simp only: snoc.IH)
  qed simp
  then have "foldl (\<lambda>n x. (2 * n + (if x then 1 else 0)) mod 256) i xs mod 256 mod 64
      = foldl (\<lambda>n b. 2 * n + (if b then 1 else 0)) i xs mod 256 mod 64" by (rule arg_cong)
  then show ?thesis by (simp add: mod_mod_cancel foldl_bits)
qed

lemma nat_bits_split: "nat_bits (a + k) n = nat_bits a (n div 2 ^ k) @ nat_bits k n"
proof (rule nth_equalityI)
  fix i assume "i < length (nat_bits (a + k) n)"
  then have i: "i < a + k" by simp
  have d: "bit (n div 2 ^ k) j = bit n (k + j)" for j by (simp only: drop_bit_eq_div [symmetric] bit_drop_bit_eq comp_apply)
  have "k + (a - 1 - i) = a + k - 1 - i" if "i < a" using that by simp
  moreover have "k - 1 - (i - a) = a + k - 1 - i" if "\<not> i < a" using that i by simp
  ultimately show "nat_bits (a + k) n ! i = (nat_bits a (n div 2 ^ k) @ nat_bits k n) ! i"
    using i d by (cases "i < a") (simp_all only: nth_append nth_nat_bits length_nat_bits if_True if_False, simp add: nth_nat_bits)
qed simp

text \<open>
  A position written is the position read: the byte read first falls into the span of its code, and the bits
  read after it complete its lower six.
\<close>

lemma decode_position_bits:
  assumes "in_ok b" "in_bits b = position_code c @ rest" "c < 4096" "16 \<le> length rest"
  shows "\<exists>b'. decode_position b = Inr (c, b') \<and> in_ok b' \<and> in_bits b' = rest"
proof -
  let ?u = "c div 64" and ?v = "c mod 64"
  let ?l = "P_LEN ! ?u" and ?pc = "P_CODE ! ?u"
  have u: "?u < 64" using assms(3) by simp
  note t = position_tables [OF u]
  let ?m = "?l - 2"
  let ?x = "?v div 2 ^ ?m"
  let ?first = "nat_bits ?l (?pc div 2 ^ (8 - ?l)) @ nat_bits (8 - ?l) ?x"
  have six: "6 = (8 - ?l) + ?m" using t by linarith
  then have "nat_bits 6 ?v = nat_bits (8 - ?l) ?x @ nat_bits ?m ?v" using nat_bits_split [of "8 - ?l" ?m ?v] by simp
  then have code: "in_bits b = ?first @ nat_bits ?m ?v @ rest" using assms(2) by (simp add: position_code_def Let_def)
  have p6: "(2 :: nat) ^ (8 - ?l) * 2 ^ ?m = 64" unfolding power_add [symmetric] six [symmetric] by simp
  have x: "?x < 2 ^ (8 - ?l)" using p6 by (intro less_mult_imp_div_less) simp
  have p8: "(2 :: nat) ^ ?l * 2 ^ (8 - ?l) = 256" using t by (simp flip: power_add)
  have "?pc div 2 ^ (8 - ?l) < 2 ^ ?l" using t p8 by (intro less_mult_imp_div_less) simp
  then have "bits_value ?first = ?pc div 2 ^ (8 - ?l) * 2 ^ (8 - ?l) + ?x"
    using x by (simp add: bits_value_append bits_value_nat_bits)
  also have "?pc div 2 ^ (8 - ?l) * 2 ^ (8 - ?l) = ?pc" using t by (metis add.right_neutral div_mult_mod_eq)
  finally have val: "bits_value ?first = ?pc + ?x" .
  have long: "8 \<le> length (nat_bits ?m ?v @ rest)" using assms(4) by simp
  obtain b1 where b1: "get_byte b = Inr (?pc + ?x, b1)" "in_ok b1" "in_bits b1 = nat_bits ?m ?v @ rest"
    using get_byte_bits [OF assms(1) code] t val long by auto
  note d = position_read_tables [OF u x]
  let ?r = "foldl (\<lambda>n x. (2 * n + (if x then 1 else 0)) mod 256) (?pc + ?x) (nat_bits ?m ?v)"
  obtain b2 where b2: "position_bits ?m (?pc + ?x) b1 = Inr (?r, b2)" "in_ok b2" "in_bits b2 = rest"
    using position_bits_read [OF b1(2,3) assms(4), of "?pc + ?x"] by auto
  obtain q where q: "?pc = 2 ^ (8 - ?l) * q" using t by (auto elim: dvdE)
  have "?r mod 64 = ((?pc + ?x) * 2 ^ ?m + ?v mod 2 ^ ?m) mod 64" by (simp add: fold_bits_mod bits_value_nat_bits)
  also have "(?pc + ?x) * 2 ^ ?m + ?v mod 2 ^ ?m = ?pc * 2 ^ ?m + ?v" by (simp add: algebra_simps)
  also have "?pc * 2 ^ ?m = 64 * q" unfolding q using p6 by (metis mult.assoc mult.commute)
  finally have "?r mod 64 = ?v" by simp
  then show ?thesis using b1(1) b2 d by (simp add: decode_position_def Let_def)
qed

end
