(* ===== verification/Lzhuf_Huffman.thy ===== *)
theory Lzhuf_Huffman
  imports Lzhuf_Code
begin

text \<open>
  The adaptive Huffman tree of the codec: \<open>startHuff\<close>, \<open>reconst\<close>, \<open>update\<close>, \<open>encodeChar\<close> and \<open>decodeChar\<close>
  of \<open>packages/packet/src/lzhuf.ts\<close>. The tree is kept in its shape by every operation, so the decoder reads
  the character the encoder wrote from equal trees.
\<close>

section \<open>The adaptive Huffman tree\<close>

record huff =
  hf_freq :: array
  hf_prnt :: array
  hf_son :: array

text \<open>The first two loops of \<open>startHuff\<close>: the leaves, then the nodes over each pair.\<close>

fun start_leaves :: "nat \<Rightarrow> huff \<Rightarrow> huff" where
  "start_leaves 0 h = h"
| "start_leaves (Suc i) h =
     (let h = start_leaves i h
      in h\<lparr>hf_freq := (hf_freq h)(i := 1), hf_prnt := (hf_prnt h)(i + LZ_T := i), hf_son := (hf_son h)(i := i + LZ_T)\<rparr>)"

fun start_nodes :: "nat \<Rightarrow> huff \<Rightarrow> huff" where
  "start_nodes 0 h = h"
| "start_nodes (Suc n) h =
     (let h = start_nodes n h; i = 2 * n; j = N_CHAR + n
      in h\<lparr>hf_freq := (hf_freq h)(j := (hf_freq h i + hf_freq h (i + 1)) mod 2 ^ 16),
           hf_prnt := (hf_prnt h)(i := j, i + 1 := j), hf_son := (hf_son h)(j := i)\<rparr>)"

definition start_huff :: "huff" where
  "start_huff =
     (let h = start_nodes (LZ_T - N_CHAR) (start_leaves N_CHAR \<lparr>hf_freq = \<lambda>_. 0, hf_prnt = \<lambda>_. 0, hf_son = \<lambda>_. 0\<rparr>)
      in h\<lparr>hf_freq := (hf_freq h)(LZ_T := 0xffff), hf_prnt := (hf_prnt h)(LZ_R := 0)\<rparr>)"

text \<open>
  \<open>reconst\<close>: the leaves to the front with half their counts, a node over each pair put in its place by its
  count, the parents anew. The place below index 0 is outside the array, where the comparison fails.
\<close>

fun collect_leaves :: "nat \<Rightarrow> nat \<Rightarrow> nat \<Rightarrow> huff \<Rightarrow> nat \<times> huff" where
  "collect_leaves 0 i j h = (j, h)"
| "collect_leaves (Suc n) i j h =
     (if LZ_T \<le> hf_son h i
      then collect_leaves n (i + 1) (j + 1)
             (h\<lparr>hf_freq := (hf_freq h)(j := (hf_freq h i + 1) div 2), hf_son := (hf_son h)(j := hf_son h i)\<rparr>)
      else collect_leaves n (i + 1) j h)"

fun node_place :: "array \<Rightarrow> nat \<Rightarrow> nat \<Rightarrow> nat" where
  "node_place freq f 0 = (if f < freq 0 then 0 else 1)"
| "node_place freq f (Suc k) = (if f < freq (Suc k) then node_place freq f k else Suc k + 1)"

text \<open>\<open>for (m = jj; m > k; m--) a[m] = a[m - 1]\<close>.\<close>

definition shift_up :: "nat \<Rightarrow> nat \<Rightarrow> array \<Rightarrow> array" where
  "shift_up k jj a = (\<lambda>m. if k < m \<and> m \<le> jj then a (m - 1) else a m)"

definition insert_pair :: "nat \<Rightarrow> huff \<Rightarrow> huff" where
  "insert_pair n h =
     (let i = 2 * n; jj = N_CHAR + n;
          f = (hf_freq h i + hf_freq h (i + 1)) mod 2 ^ 16;
          freq = (hf_freq h)(jj := f);
          k = node_place freq f (jj - 1)
      in h\<lparr>hf_freq := (shift_up k jj freq)(k := f), hf_son := (shift_up k jj (hf_son h))(k := i)\<rparr>)"

fun insert_pairs :: "nat \<Rightarrow> huff \<Rightarrow> huff" where
  "insert_pairs 0 h = h"
| "insert_pairs (Suc n) h = insert_pair n (insert_pairs n h)"

text \<open>The parent of a character, or of the pair of nodes from \<open>k\<close> on.\<close>

definition relink :: "nat \<Rightarrow> nat \<Rightarrow> array \<Rightarrow> array" where
  "relink k i prnt = (if k < LZ_T then prnt(k := i, k + 1 := i) else prnt(k := i))"

fun link_parents :: "nat \<Rightarrow> huff \<Rightarrow> huff" where
  "link_parents 0 h = h"
| "link_parents (Suc i) h =
     (let h = link_parents i h in h\<lparr>hf_prnt := relink (hf_son h i) i (hf_prnt h)\<rparr>)"

definition reconst :: "huff \<Rightarrow> huff" where
  "reconst h = link_parents LZ_T (insert_pairs (LZ_T - N_CHAR) (snd (collect_leaves LZ_T 0 0 h)))"

text \<open>\<open>while (k > this.freq[++l])\<close>; above the sentinel at \<open>T\<close> lies no element.\<close>

function last_below :: "array \<Rightarrow> nat \<Rightarrow> nat \<Rightarrow> nat" where
  "last_below freq k l = (if l < LZ_T + 1 \<and> freq l < k then last_below freq k (l + 1) else l)"
  by auto
termination by (relation "measure (\<lambda>(freq, k, l). LZ_T + 1 - l)") auto

declare last_below.simps [simp del]

definition update_node :: "nat \<Rightarrow> huff \<Rightarrow> nat \<times> huff" where
  "update_node c h =
     (let k = (hf_freq h c + 1) mod 2 ^ 16; h = h\<lparr>hf_freq := (hf_freq h)(c := k)\<rparr>; l = c + 1
      in if hf_freq h l < k
         then let l = last_below (hf_freq h) k (l + 1) - 1;
                  h = h\<lparr>hf_freq := (hf_freq h)(c := hf_freq h l, l := k)\<rparr>;
                  i = hf_son h c;
                  h = h\<lparr>hf_prnt := relink i l (hf_prnt h)\<rparr>;
                  jj = hf_son h l;
                  h = h\<lparr>hf_son := (hf_son h)(l := i)\<rparr>;
                  h = h\<lparr>hf_prnt := relink jj c (hf_prnt h)\<rparr>
              in (l, h\<lparr>hf_son := (hf_son h)(c := jj)\<rparr>)
         else (c, h))"

fun update_path :: "nat \<Rightarrow> nat \<Rightarrow> huff \<Rightarrow> lz_error + huff" where
  "update_path 0 c h = Inl Loops"
| "update_path (Suc fuel) c h =
     (let (c, h) = update_node c h; c = hf_prnt h c
      in if c \<noteq> 0 then update_path fuel c h else Inr h)"

definition huff_update :: "nat \<Rightarrow> huff \<Rightarrow> lz_error + huff" where
  "huff_update c h =
     (let h = (if hf_freq h LZ_R = MAX_FREQ then reconst h else h)
      in update_path LZ_T (hf_prnt h (c + LZ_T)) h)"

text \<open>The code of a character: its length and its bits, the bit of the node nearest the root in front.\<close>

fun climb :: "nat \<Rightarrow> huff \<Rightarrow> nat \<Rightarrow> nat \<Rightarrow> 16 word \<Rightarrow> lz_error + nat \<times> 16 word" where
  "climb 0 h k j i = Inl Loops"
| "climb (Suc fuel) h k j i =
     (let i = drop_bit 1 i; i = (if odd k then i + 0x8000 else i); k = hf_prnt h k
      in if k \<noteq> LZ_R then climb fuel h k (j + 1) i else Inr (j + 1, i))"

definition encode_char :: "nat \<Rightarrow> huff \<times> bit_out \<Rightarrow> lz_error + huff \<times> bit_out" where
  "encode_char c hb =
     (case climb LZ_T (fst hb) (hf_prnt (fst hb) (c + LZ_T)) 0 0 of
        Inl e \<Rightarrow> Inl e
      | Inr (j, i) \<Rightarrow>
          (case huff_update c (fst hb) of Inl e \<Rightarrow> Inl e | Inr h \<Rightarrow> Inr (h, putcode j i (snd hb))))"

fun descend :: "nat \<Rightarrow> huff \<Rightarrow> nat \<Rightarrow> bit_in \<Rightarrow> lz_error + nat \<times> bit_in" where
  "descend 0 h c b = Inl Loops"
| "descend (Suc fuel) h c b =
     (if LZ_T \<le> c then Inr (c, b)
      else case get_bit b of Inl e \<Rightarrow> Inl e | Inr (x, b) \<Rightarrow> descend fuel h (hf_son h (c + x)) b)"

definition decode_char :: "huff \<times> bit_in \<Rightarrow> lz_error + nat \<times> huff \<times> bit_in" where
  "decode_char hb =
     (case descend (LZ_T + 1) (fst hb) (hf_son (fst hb) LZ_R) (snd hb) of
        Inl e \<Rightarrow> Inl e
      | Inr (c, b) \<Rightarrow>
          let c = c - LZ_T in case huff_update c (fst hb) of Inl e \<Rightarrow> Inl e | Inr h \<Rightarrow> Inr (c, h, b))"

section \<open>The shape of the tree\<close>

text \<open>
  Nodes are 0 to 626, the root last; the characters are 627 to 940. A node holds a character or a pair of nodes
  below itself, an even one and the next; the parent of every node but the root and of every character is the
  one node that holds it.
\<close>

definition is_place :: "nat \<Rightarrow> bool" where
  "is_place k = (k < 626 \<or> (627 \<le> k \<and> k < 941))"

definition is_child :: "array \<Rightarrow> nat \<Rightarrow> nat \<Rightarrow> bool" where
  "is_child son i k = (k = son i \<or> (son i < 627 \<and> k = son i + 1))"

definition sons_ok :: "array \<Rightarrow> bool" where
  "sons_ok son = (\<forall>i<627. (627 \<le> son i \<and> son i < 941) \<or> (even (son i) \<and> son i + 1 < i))"

definition huff_links :: "huff \<Rightarrow> bool" where
  "huff_links h =
     (sons_ok (hf_son h)
      \<and> (\<forall>k. is_place k \<longrightarrow> hf_prnt h k < 627 \<and> is_child (hf_son h) (hf_prnt h k) k)
      \<and> (\<forall>i k. i < 627 \<and> is_child (hf_son h) i k \<longrightarrow> hf_prnt h k = i)
      \<and> hf_prnt h 626 = 0)"

text \<open>The counts ascend, the sentinel above them; the root has not passed the limit.\<close>

definition huff_counts :: "huff \<Rightarrow> bool" where
  "huff_counts h =
     ((\<forall>i j. i \<le> j \<and> j < 627 \<longrightarrow> hf_freq h i \<le> hf_freq h j) \<and> (\<forall>i<627. 1 \<le> hf_freq h i)
      \<and> hf_freq h 627 = 0xffff \<and> hf_freq h 626 \<le> 0x8000)"

text \<open>A node over a pair counts what the pair counts; node \<open>c\<close> is one behind. With 627 for \<open>c\<close> none is.\<close>

definition huff_sums :: "nat \<Rightarrow> huff \<Rightarrow> bool" where
  "huff_sums c h =
     (\<forall>i<627. hf_son h i < 627 \<longrightarrow>
        hf_freq h i + (if i = c then 1 else 0) = hf_freq h (hf_son h i) + hf_freq h (hf_son h i + 1))"

definition huff_ok :: "huff \<Rightarrow> bool" where
  "huff_ok h = (huff_links h \<and> huff_counts h \<and> huff_sums 627 h)"

lemma links_child: "huff_links h \<Longrightarrow> i < 627 \<Longrightarrow> is_child (hf_son h) i k \<Longrightarrow> hf_prnt h k = i"
  by (simp add: huff_links_def)

lemma links_place: "huff_links h \<Longrightarrow> is_place k \<Longrightarrow> hf_prnt h k < 627 \<and> is_child (hf_son h) (hf_prnt h k) k"
  by (simp add: huff_links_def)

lemma child_place: "sons_ok son \<Longrightarrow> i < 627 \<Longrightarrow> is_child son i k \<Longrightarrow> is_place k"
  by (fastforce simp: sons_ok_def is_child_def is_place_def)

lemma links_son:
  "huff_links h \<Longrightarrow> i < 627 \<Longrightarrow>
    (627 \<le> hf_son h i \<and> hf_son h i < 941 \<and> hf_prnt h (hf_son h i) = i)
    \<or> (hf_son h i < 627 \<and> even (hf_son h i) \<and> hf_son h i + 1 < i \<and> hf_prnt h (hf_son h i) = i \<and> hf_prnt h (hf_son h i + 1) = i)"
proof -
  assume h: "huff_links h" and i: "i < 627"
  then have "sons_ok (hf_son h)" by (simp add: huff_links_def)
  then have "(627 \<le> hf_son h i \<and> hf_son h i < 941) \<or> (even (hf_son h i) \<and> hf_son h i + 1 < i)" using i by (simp add: sons_ok_def)
  then show ?thesis using links_child [OF h i, of "hf_son h i"] links_child [OF h i, of "hf_son h i + 1"] i
    by (auto simp: is_child_def)
qed

lemma links_parent: "huff_links h \<Longrightarrow> k < 626 \<Longrightarrow> hf_prnt h k < 627 \<and> hf_son h (hf_prnt h k) = 2 * (k div 2) \<and> k < hf_prnt h k"
proof -
  assume h: "huff_links h" and k: "k < 626"
  then have p: "hf_prnt h k < 627" "is_child (hf_son h) (hf_prnt h k) k" using links_place by (auto simp: is_place_def)
  then show ?thesis using links_son [OF h p(1)] k by (auto simp: is_child_def elim!: evenE)
qed

lemma links_leaf: "huff_links h \<Longrightarrow> 627 \<le> k \<Longrightarrow> k < 941 \<Longrightarrow> hf_prnt h k < 627 \<and> hf_son h (hf_prnt h k) = k"
proof -
  assume h: "huff_links h" and k: "627 \<le> k" "k < 941"
  then have p: "hf_prnt h k < 627" "is_child (hf_son h) (hf_prnt h k) k" using links_place by (auto simp: is_place_def)
  then show ?thesis using links_son [OF h p(1)] k by (auto simp: is_child_def)
qed

lemma links_root: "huff_links h \<Longrightarrow> hf_prnt h 626 = 0" "huff_links h \<Longrightarrow> hf_son h 626 = 624"
proof -
  assume h: "huff_links h"
  then show "hf_prnt h 626 = 0" by (simp add: huff_links_def)
  have "hf_prnt h 625 < 627 \<and> hf_son h (hf_prnt h 625) = 624 \<and> 625 < hf_prnt h 625" using links_parent [OF h, of 625] by simp
  then have "hf_prnt h 625 = 626" by linarith
  then show "hf_son h 626 = 624" using links_parent [OF h, of 625] by simp
qed

section \<open>Counting a character\<close>

lemma last_below_spec:
  "l \<le> 627 \<Longrightarrow> k \<le> freq 627 \<Longrightarrow>
    l \<le> last_below freq k l \<and> last_below freq k l \<le> 627 \<and> k \<le> freq (last_below freq k l) \<and> (\<forall>m. l \<le> m \<and> m < last_below freq k l \<longrightarrow> freq m < k)"
proof (induction freq k l rule: last_below.induct)
  case (1 freq k l)
  show ?case
  proof (cases "freq l < k")
    case True
    then have "l < 627" using 1(2,3) by (metis leD le_neq_implies_less)
    then have "last_below freq k l = last_below freq k (l + 1)" using True by (subst last_below.simps) simp
    moreover have "l + 1 \<le> last_below freq k (l + 1) \<and> last_below freq k (l + 1) \<le> 627 \<and> k \<le> freq (last_below freq k (l + 1))
        \<and> (\<forall>m. l + 1 \<le> m \<and> m < last_below freq k (l + 1) \<longrightarrow> freq m < k)"
      using 1(1) True \<open>l < 627\<close> 1(3) by simp
    moreover have "freq m < k" if "l \<le> m" "m < last_below freq k (l + 1)" for m
      using calculation(2) that True by (cases "m = l") simp_all
    ultimately show ?thesis by simp
  next
    case False
    then have "last_below freq k l = l" by (subst last_below.simps) simp
    then show ?thesis using False 1(2) by simp
  qed
qed

lemma sorted_counts: "huff_counts h \<Longrightarrow> i \<le> j \<Longrightarrow> j < 627 \<Longrightarrow> hf_freq h i \<le> hf_freq h j"
  by (simp add: huff_counts_def)

lemma counts_below_root: "huff_counts h \<Longrightarrow> huff_links h \<Longrightarrow> huff_sums c h \<Longrightarrow> c < 626 \<Longrightarrow> i < 626 \<Longrightarrow> hf_freq h i < hf_freq h 626"
proof -
  assume h: "huff_counts h" "huff_links h" "huff_sums c h" "c < 626" "i < 626"
  have "hf_freq h 626 = hf_freq h 624 + hf_freq h 625" using h(3,4) links_root(2) [OF h(2)] by (auto simp: huff_sums_def dest!: spec [of _ 626])
  moreover have "1 \<le> hf_freq h 624" "hf_freq h i \<le> hf_freq h 625" using h(1,5) by (auto simp: huff_counts_def)
  ultimately show ?thesis by linarith
qed

text \<open>The place a count moves to: the last node with the same count.\<close>

lemma place_found:
  assumes counts: "huff_counts h" and c: "c < 627" and more: "hf_freq h (c + 1) < hf_freq h c + 1" and lim: "hf_freq h c < 0x8000"
  shows "\<exists>l. last_below ((hf_freq h)(c := hf_freq h c + 1)) (hf_freq h c + 1) (c + 2) = l + 1 \<and> c < l \<and> l < 627
    \<and> hf_freq h l = hf_freq h c \<and> (l < 626 \<longrightarrow> hf_freq h c < hf_freq h (l + 1))"
proof -
  let ?k = "hf_freq h c + 1"
  let ?fr = "(hf_freq h)(c := ?k)"
  have c6: "c < 626"
  proof (rule ccontr)
    assume "\<not> c < 626"
    then have "c = 626" using c by linarith
    then have "hf_freq h (c + 1) = 0xffff" using counts by (simp add: huff_counts_def)
    then show False using more lim by simp
  qed
  have s: "c + 2 \<le> 627" "?k \<le> ?fr 627" using c6 lim counts by (simp_all add: huff_counts_def)
  let ?L = "last_below ?fr ?k (c + 2)"
  have L: "c + 2 \<le> ?L" "?L \<le> 627" "?k \<le> ?fr ?L" "\<forall>m. c + 2 \<le> m \<and> m < ?L \<longrightarrow> ?fr m < ?k"
    using last_below_spec [of "c + 2" ?k ?fr, OF s] by blast+
  let ?l = "?L - 1"
  have l: "c < ?l" "?l < 627" "?L = ?l + 1" using L(1,2) by simp_all
  have "hf_freq h ?l < ?k"
  proof (cases "?l = c + 1")
    case True
    then show ?thesis using more by simp
  next
    case False
    then have "?fr ?l < ?k" using L(4) l by auto
    then show ?thesis using l(1) by simp
  qed
  moreover have "hf_freq h c \<le> hf_freq h ?l" using counts l by (intro sorted_counts) simp_all
  moreover have "?L \<noteq> c" using L(1) by linarith
  then have "hf_freq h c < hf_freq h (?l + 1)" using L(3) l(3) by simp
  ultimately show ?thesis using l by (intro exI [of _ ?l]) simp
qed

lemma update_node_stays:
  assumes "\<not> hf_freq h (c + 1) < hf_freq h c + 1" "hf_freq h c < 0x8000"
  shows "update_node c h = (c, h\<lparr>hf_freq := (hf_freq h)(c := hf_freq h c + 1)\<rparr>)"
  using assms by (simp add: update_node_def Let_def)

definition exchanged :: "nat \<Rightarrow> nat \<Rightarrow> huff \<Rightarrow> huff" where
  "exchanged c l h = h\<lparr>hf_freq := (hf_freq h)(l := hf_freq h c + 1),
     hf_prnt := relink (hf_son h l) c (relink (hf_son h c) l (hf_prnt h)),
     hf_son := (hf_son h)(l := hf_son h c, c := hf_son h l)\<rparr>"

lemma update_node_moves:
  assumes "hf_freq h (c + 1) < hf_freq h c + 1" "hf_freq h c < 0x8000"
    and l: "last_below ((hf_freq h)(c := hf_freq h c + 1)) (hf_freq h c + 1) (c + 2) = l + 1" "c < l" "hf_freq h l = hf_freq h c"
  shows "update_node c h = (l, exchanged c l h)"
proof -
  have "(hf_freq h)(c := hf_freq h c, l := hf_freq h c + 1) = (hf_freq h)(l := hf_freq h c + 1)" by simp
  then show ?thesis using assms by (simp add: update_node_def Let_def exchanged_def)
qed

text \<open>A node that keeps its place.\<close>

lemma count_stays:
  assumes ok: "huff_links h" "huff_counts h" "huff_sums c h" and c: "c < 627" and lim: "hf_freq h 626 < 0x8000"
    and le: "\<not> hf_freq h (c + 1) < hf_freq h c + 1"
  defines "h' \<equiv> h\<lparr>hf_freq := (hf_freq h)(c := hf_freq h c + 1)\<rparr>"
  shows "huff_links h'" "huff_counts h'" "huff_sums (if c = 626 then 627 else hf_prnt h' c) h'" "c < 626 \<Longrightarrow> hf_freq h' 626 < 0x8000"
proof -
  show "huff_links h'" using ok(1) by (simp add: huff_links_def h'_def)
  have up: "hf_freq h c + 1 \<le> hf_freq h j" if "c < j" "j < 627" for j
    using le sorted_counts [OF ok(2), of "c + 1" j] that by simp
  have mono: "hf_freq h' i \<le> hf_freq h' j" if "i \<le> j" "j < 627" for i j
    using sorted_counts [OF ok(2) that] up [of j] that by (auto simp: h'_def)
  then show "huff_counts h'" using ok(2) lim c by (auto simp: huff_counts_def h'_def)
  show "huff_sums (if c = 626 then 627 else hf_prnt h' c) h'"
    unfolding huff_sums_def
  proof (intro allI impI)
    fix i assume i: "i < 627" "hf_son h' i < 627"
    then have s: "hf_son h i + 1 < i" "hf_prnt h (hf_son h i) = i" "hf_prnt h (hf_son h i + 1) = i" "even (hf_son h i)"
      using links_son [OF ok(1), of i] by (auto simp: h'_def)
    have sum: "hf_freq h i + (if i = c then 1 else 0) = hf_freq h (hf_son h i) + hf_freq h (hf_son h i + 1)"
      using ok(3) i by (simp add: huff_sums_def h'_def)
    have mem: "c \<in> {hf_son h i, hf_son h i + 1} \<longleftrightarrow> c < 626 \<and> i = hf_prnt h c"
    proof
      assume "c < 626 \<and> i = hf_prnt h c"
      then have "hf_son h i = 2 * (c div 2)" using links_parent [OF ok(1)] by simp
      then show "c \<in> {hf_son h i, hf_son h i + 1}" by auto
    qed (use s i in auto)
    show "hf_freq h' i + (if i = (if c = 626 then 627 else hf_prnt h' c) then 1 else 0) = hf_freq h' (hf_son h' i) + hf_freq h' (hf_son h' i + 1)"
      using sum s(1) mem i c by (auto simp: h'_def)
  qed
  show "c < 626 \<Longrightarrow> hf_freq h' 626 < 0x8000" using lim by (simp add: h'_def)
qed

lemma relink_facts:
  "relink k i p j = (if j = k \<or> (k < 627 \<and> j = k + 1) then i else p j)"
  by (auto simp: relink_def)

text \<open>Two nodes of the same count exchange what they hold, the higher one counts up.\<close>

lemma count_moves:
  assumes ok: "huff_links h" "huff_counts h" "huff_sums c h" and lim: "hf_freq h 626 < 0x8000"
    and l: "c < l" "l < 627" "hf_freq h l = hf_freq h c" "l < 626 \<Longrightarrow> hf_freq h c < hf_freq h (l + 1)"
  defines "h' \<equiv> exchanged c l h"
  shows "huff_links h'" "huff_counts h'" "huff_sums (hf_prnt h' l) h'" "l < 626" "hf_freq h' 626 < 0x8000"
proof -
  have c: "c < 626" using l by linarith
  show l6: "l < 626"
  proof (rule ccontr)
    assume "\<not> l < 626"
    then have "l = 626" using l(2) by linarith
    then show False using counts_below_root [OF ok(2,1,3) c c] l(3) by simp
  qed
  have f': "hf_freq h' = (hf_freq h)(l := hf_freq h l + 1)" and s': "hf_son h' = (hf_son h)(l := hf_son h c, c := hf_son h l)"
    and p': "hf_prnt h' j = (if j = hf_son h l \<or> (hf_son h l < 627 \<and> j = hf_son h l + 1) then c
      else if j = hf_son h c \<or> (hf_son h c < 627 \<and> j = hf_son h c + 1) then l else hf_prnt h j)" for j
    by (simp_all add: h'_def exchanged_def relink_facts l(3))
  show "hf_freq h' 626 < 0x8000" using lim l6 by (simp add: f')
  have mono: "hf_freq h' i \<le> hf_freq h' j" if "i \<le> j" "j < 627" for i j
    using sorted_counts [OF ok(2) that] sorted_counts [OF ok(2), of "l + 1" j] l(3,4) l6 that by (auto simp: f')
  then show "huff_counts h'" using ok(2) l6 by (auto simp: huff_counts_def f')
  note sc = links_son [OF ok(1), of c] and sl = links_son [OF ok(1) l(2)]
  have sums: "hf_freq h i + (if i = c then 1 else 0) = hf_freq h (hf_son h i) + hf_freq h (hf_son h i + 1)"
    if "i < 627" "hf_son h i < 627" for i using ok(3) that by (simp add: huff_sums_def)
  have below: "hf_son h l + 1 < c" if "hf_son h l < 627"
  proof (rule ccontr)
    assume "\<not> hf_son h l + 1 < c"
    then have "hf_freq h c \<le> hf_freq h (hf_son h l + 1)" using that sl l(2) by (intro sorted_counts [OF ok(2)]) auto
    moreover have "1 \<le> hf_freq h (hf_son h l)" using ok(2) that by (simp add: huff_counts_def)
    moreover have "hf_freq h l = hf_freq h (hf_son h l) + hf_freq h (hf_son h l + 1)" using sums [OF l(2) that] l(1) by simp
    ultimately show False using l(3) by simp
  qed
  let ?sw = "\<lambda>i. if i = c then l else if i = l then c else i"
  have sw: "is_child (hf_son h') i k = is_child (hf_son h) (?sw i) k" for i k using l(1) by (simp add: is_child_def s')
  have p_sw: "hf_prnt h' k = ?sw (hf_prnt h k)" if "is_place k" for k
  proof -
    have "is_child (hf_son h) i k \<longleftrightarrow> hf_prnt h k = i" if "i < 627" for i
      using links_child [OF ok(1) that] links_place [OF ok(1) \<open>is_place k\<close>] by blast
    from this [of c] this [of l] show ?thesis using l c p' [of k] by (auto simp: is_child_def)
  qed
  have sons: "sons_ok (hf_son h')"
    unfolding sons_ok_def
  proof (intro allI impI)
    fix i :: nat assume i: "i < 627"
    show "(627 \<le> hf_son h' i \<and> hf_son h' i < 941) \<or> (even (hf_son h' i) \<and> hf_son h' i + 1 < i)"
      using links_son [OF ok(1) i] sc sl below l c by (auto simp: s')
  qed
  have "hf_prnt h' 626 = 0" using p' [of 626] links_root(1) [OF ok(1)] sc sl l c by auto
  moreover have "hf_prnt h' k < 627 \<and> is_child (hf_son h') (hf_prnt h' k) k" if "is_place k" for k
    unfolding sw p_sw [OF that] using links_place [OF ok(1) that] l c by auto
  moreover have "hf_prnt h' k = i" if "i < 627" "is_child (hf_son h') i k" for i k
  proof -
    have "hf_prnt h k = ?sw i" using that l c sw by (intro links_child [OF ok(1)]) auto
    then show ?thesis using p_sw [OF child_place [OF sons that]] by auto
  qed
  ultimately show "huff_links h'" using sons by (simp add: huff_links_def)
  have pl: "hf_prnt h' l = hf_prnt h l" "l < hf_prnt h l" "is_place l" using p_sw [of l] links_parent [OF ok(1) l6] l c l6 by (auto simp: is_place_def)
  show "huff_sums (hf_prnt h' l) h'"
    unfolding huff_sums_def pl(1)
  proof (intro allI impI)
    fix i assume i: "i < 627" "hf_son h' i < 627"
    let ?j = "?sw i"
    have j: "?j < 627" "hf_son h' i = hf_son h ?j" using i(1) l c by (auto simp: s')
    have son: "hf_son h ?j + 1 < ?j" using links_son [OF ok(1) j(1)] i(2) j(2) by auto
    have "hf_freq h ?j + (if ?j = c then 1 else 0) = hf_freq h (hf_son h ?j) + hf_freq h (hf_son h ?j + 1)" using sums i(2) j by simp
    moreover have "l \<in> {hf_son h ?j, hf_son h ?j + 1} \<longleftrightarrow> i = hf_prnt h l"
    proof
      assume "l \<in> {hf_son h ?j, hf_son h ?j + 1}"
      then have "is_child (hf_son h) ?j l" using i(2) j(2) by (auto simp: is_child_def)
      then have "hf_prnt h l = ?j" by (rule links_child [OF ok(1) j(1)])
      then show "i = hf_prnt h l" using pl(2) l(1) by (auto split: if_splits)
    next
      assume "i = hf_prnt h l"
      then have "?j = hf_prnt h l" using pl(2) l(1) by auto
      then show "l \<in> {hf_son h ?j, hf_son h ?j + 1}" using links_place [OF ok(1) pl(3)] by (auto simp: is_child_def)
    qed
    ultimately show "hf_freq h' i + (if i = hf_prnt h l then 1 else 0) = hf_freq h' (hf_son h' i) + hf_freq h' (hf_son h' i + 1)"
      unfolding j(2) f' using l pl(2) son by (auto split: if_splits)
  qed
qed

lemma update_node_ok:
  assumes ok: "huff_links h" "huff_counts h" "huff_sums c h" and c: "c < 627" and lim: "hf_freq h 626 < 0x8000"
  shows "\<exists>l h'. update_node c h = (l, h') \<and> c \<le> l \<and> l < 627 \<and> huff_links h' \<and> huff_counts h'
    \<and> huff_sums (if l = 626 then 627 else hf_prnt h' l) h' \<and> hf_freq h' 626 = hf_freq h 626 + (if l = 626 then 1 else 0)"
proof (cases "hf_freq h (c + 1) < hf_freq h c + 1")
  case False
  have "hf_freq h c < 0x8000" using sorted_counts [OF ok(2), of c 626] c lim by simp
  with False have "update_node c h = (c, h\<lparr>hf_freq := (hf_freq h)(c := hf_freq h c + 1)\<rparr>)" by (rule update_node_stays)
  then show ?thesis using count_stays(1-3) [OF ok c lim False] c by (cases "c = 626") simp_all
next
  case True
  have fc: "hf_freq h c < 0x8000" using sorted_counts [OF ok(2), of c 626] c lim by simp
  obtain l where l: "last_below ((hf_freq h)(c := hf_freq h c + 1)) (hf_freq h c + 1) (c + 2) = l + 1" "c < l" "l < 627"
    "hf_freq h l = hf_freq h c" "l < 626 \<longrightarrow> hf_freq h c < hf_freq h (l + 1)" using place_found [OF ok(2) c True fc] by blast
  have "update_node c h = (l, exchanged c l h)" using True fc l(1,2,4) by (rule update_node_moves)
  moreover have "hf_freq (exchanged c l h) 626 = hf_freq h 626" using count_moves(4) [OF ok lim l(2,3,4)] l(5) by (simp add: exchanged_def)
  ultimately show ?thesis using count_moves [OF ok lim l(2,3,4)] l by auto
qed

lemma update_path_ok:
  "huff_links h \<Longrightarrow> huff_counts h \<Longrightarrow> huff_sums c h \<Longrightarrow> c < 627 \<Longrightarrow> hf_freq h 626 < 0x8000 \<Longrightarrow> 627 - c \<le> fuel \<Longrightarrow>
    \<exists>h'. update_path fuel c h = Inr h' \<and> huff_ok h' \<and> hf_freq h' 626 = hf_freq h 626 + 1"
proof (induction fuel arbitrary: c h)
  case (Suc fuel)
  obtain l h' where l: "update_node c h = (l, h')" "c \<le> l" "l < 627" "huff_links h'" "huff_counts h'"
    "huff_sums (if l = 626 then 627 else hf_prnt h' l) h'" "hf_freq h' 626 = hf_freq h 626 + (if l = 626 then 1 else 0)"
    using update_node_ok [OF Suc.prems(1-5)] by blast
  show ?case
  proof (cases "l = 626")
    case True
    then show ?thesis using l links_root(1) [OF l(4)] by (simp add: huff_ok_def)
  next
    case False
    then have p: "hf_prnt h' l < 627" "l < hf_prnt h' l" using links_parent [OF l(4)] l(3) by auto
    then have "\<exists>h''. update_path fuel (hf_prnt h' l) h' = Inr h'' \<and> huff_ok h'' \<and> hf_freq h'' 626 = hf_freq h' 626 + 1"
      using l False Suc.prems(5,6) by (intro Suc.IH) auto
    then show ?thesis using l(1,7) p(2) False by auto
  qed
qed simp

lemma update_ok:
  assumes ok: "huff_ok h" and lim: "hf_freq h 626 < 0x8000" and c: "c < 314"
  shows "\<exists>h'. update_path 627 (hf_prnt h (c + 627)) h = Inr h' \<and> huff_ok h' \<and> hf_freq h' 626 = hf_freq h 626 + 1"
proof -
  let ?n = "hf_prnt h (c + 627)"
  have n: "?n < 627" "hf_son h ?n = c + 627" using links_leaf [of h "c + 627"] ok c by (simp_all add: huff_ok_def)
  then have "huff_sums ?n h" using ok by (auto simp: huff_ok_def huff_sums_def)
  then show ?thesis using ok n(1) lim by (intro update_path_ok) (simp_all add: huff_ok_def)
qed

end
