(* ===== verification/Lzhuf_Build.thy ===== *)
theory Lzhuf_Build
  imports Lzhuf_Huffman
begin

text \<open>
  The tree of the codec as \<open>startHuff\<close> builds it and \<open>reconst\<close> builds it anew, with the shape, the order and the
  sums that counting a character keeps.
\<close>

section \<open>Building the tree\<close>

text \<open>
  The leaves and the first \<open>n\<close> pairs, each under a node of its own: 314 + n nodes in the order of their counts,
  the pairs among the first \<open>2 * n\<close>; what is not yet under a node counts \<open>w\<close> together.
\<close>

definition forest :: "nat \<Rightarrow> nat \<Rightarrow> array \<Rightarrow> array \<Rightarrow> bool" where
  "forest w n f s =
     ((\<forall>i j. i \<le> j \<and> j < 314 + n \<longrightarrow> f i \<le> f j) \<and> (\<forall>i<314 + n. 1 \<le> f i)
      \<and> (\<forall>m<314 + n. (627 \<le> s m \<and> s m < 941) \<or> (\<exists>q<n. s m = 2 * q \<and> 2 * q + 1 < m \<and> f m = f (2 * q) + f (2 * q + 1)))
      \<and> inj_on s {..<314 + n} \<and> s ` {..<314 + n} = {627..<941} \<union> (\<lambda>q. 2 * q) ` {..<n}
      \<and> sum f {2 * n..<314 + n} = w)"

lemma forest_sorted: "forest w n f s \<Longrightarrow> i \<le> j \<Longrightarrow> j < 314 + n \<Longrightarrow> f i \<le> f j"
  by (simp add: forest_def)

lemma forest_node:
  "forest w n f s \<Longrightarrow> m < 314 + n \<Longrightarrow>
    (627 \<le> s m \<and> s m < 941) \<or> (\<exists>q<n. s m = 2 * q \<and> 2 * q + 1 < m \<and> f m = f (2 * q) + f (2 * q + 1))"
  by (simp only: forest_def)

lemma node_place_spec:
  "node_place f x k \<le> k + 1 \<and> (\<forall>m. node_place f x k \<le> m \<and> m \<le> k \<longrightarrow> x < f m) \<and> (node_place f x k = 0 \<or> f (node_place f x k - 1) \<le> x)"
proof (induction f x k rule: node_place.induct)
  case (2 freq f k)
  then show ?case by (auto simp: le_Suc_eq)
qed auto

text \<open>A node over the next pair, put where its count belongs.\<close>

lemma forest_step:
  assumes fo: "forest w n f s" and n: "n < 313" and k: "2 * n + 1 < k" "k \<le> 314 + n"
    and x: "x = f (2 * n) + f (2 * n + 1)" and low: "\<forall>m<k. f m \<le> x" and high: "\<forall>m. k \<le> m \<and> m < 314 + n \<longrightarrow> x \<le> f m"
  shows "forest w (n + 1) ((shift_up k (314 + n) (f(314 + n := x)))(k := x)) ((shift_up k (314 + n) s)(k := 2 * n))"
proof -
  let ?jj = "314 + n"
  let ?f = "(shift_up k ?jj (f(?jj := x)))(k := x)" and ?s = "(shift_up k ?jj s)(k := 2 * n)"
  let ?g = "\<lambda>m. if m < k then m else m - 1"
  have g: "m \<noteq> k \<Longrightarrow> m \<le> ?jj \<Longrightarrow> ?g m < ?jj" for m using k(2) by auto
  define F where "F = ?f"
  define S where "S = ?s"
  have f': "F m = (if m = k then x else f (?g m))" "S m = (if m = k then 2 * n else s (?g m))" if "m \<le> ?jj" for m
    using that k(2) by (auto simp: F_def S_def shift_up_def)
  have pos: "1 \<le> f i" if "i < ?jj" for i using fo that by (simp add: forest_def)
  have mono: "F i \<le> F j" if "i \<le> j" "j \<le> ?jj" for i j
  proof -
    have "f (?g i) \<le> f (?g j)" if "i \<noteq> k" "j \<noteq> k" using forest_sorted [OF fo, of "?g i" "?g j"] g [of j] \<open>i \<le> j\<close> \<open>j \<le> ?jj\<close> that by auto
    moreover have "x \<le> f (?g j)" if "i = k" "j \<noteq> k" using high g [of j] \<open>i \<le> j\<close> \<open>j \<le> ?jj\<close> that by auto
    moreover have "f (?g i) \<le> x" if "j = k" "i \<noteq> k" using low \<open>i \<le> j\<close> that by auto
    ultimately show ?thesis using that f'(1) [of i] f'(1) [of j] by auto
  qed
  have front: "F m = f m" if "m < 2 * n + 2" for m using that k n by (subst f') auto
  have nodes: "(627 \<le> S m \<and> S m < 941) \<or> (\<exists>q<n + 1. S m = 2 * q \<and> 2 * q + 1 < m \<and> F m = F (2 * q) + F (2 * q + 1))" if m: "m \<le> ?jj" for m
  proof (cases "m = k")
    case True
    then show ?thesis using f' [OF m] front k(1) by (intro disjI2 exI [of _ n]) (simp add: x)
  next
    case False
    then have "(627 \<le> s (?g m) \<and> s (?g m) < 941) \<or> (\<exists>q<n. s (?g m) = 2 * q \<and> 2 * q + 1 < ?g m \<and> f (?g m) = f (2 * q) + f (2 * q + 1))"
      using fo g [OF False m] by (simp only: forest_def)
    then show ?thesis
    proof
      assume "\<exists>q<n. s (?g m) = 2 * q \<and> 2 * q + 1 < ?g m \<and> f (?g m) = f (2 * q) + f (2 * q + 1)"
      then obtain q where q: "q < n" "s (?g m) = 2 * q" "2 * q + 1 < ?g m" "f (?g m) = f (2 * q) + f (2 * q + 1)" by blast
      moreover have "F (2 * q) = f (2 * q)" "F (2 * q + 1) = f (2 * q + 1)" using q(1) by (intro front; simp)+
      ultimately show ?thesis using f' [OF m] False by (intro disjI2 exI [of _ q]) (auto split: if_splits)
    qed (use f' [OF m] False in simp)
  qed
  have img: "s ` {..<?jj} = {627..<941} \<union> (\<lambda>q. 2 * q) ` {..<n}" and inj: "inj_on s {..<?jj}" using fo by (simp_all add: forest_def)
  have gim: "?g ` ({..?jj} - {k}) = {..<?jj}"
  proof
    show "?g ` ({..?jj} - {k}) \<subseteq> {..<?jj}"
    proof (rule image_subsetI)
      fix m assume "m \<in> {..?jj} - {k}"
      then show "?g m \<in> {..<?jj}" using g [of m] by simp
    qed
    show "{..<?jj} \<subseteq> ?g ` ({..?jj} - {k})"
    proof
      fix m assume "m \<in> {..<?jj}"
      then show "m \<in> ?g ` ({..?jj} - {k})"
        by (cases "m < k") (auto intro!: image_eqI [of _ _ m] image_eqI [of _ _ "m + 1"])
    qed
  qed
  have new: "2 * n \<notin> s ` {..<?jj}" using img n by auto
  have "{..?jj} = insert k ({..?jj} - {k})" using k(2) by auto
  then have "S ` {..?jj} = insert (S k) (S ` ({..?jj} - {k}))" by (metis image_insert)
  also have "S k = 2 * n" using f'(2) k(2) by simp
  also have "S ` ({..?jj} - {k}) = s ` ?g ` ({..?jj} - {k})" unfolding image_image by (rule image_cong) (use f'(2) in auto)
  finally have im': "S ` {..?jj} = {627..<941} \<union> (\<lambda>q. 2 * q) ` {..<n + 1}" unfolding gim img by (auto simp: less_Suc_eq)
  have ginj: "a = b" if "?g a = ?g b" "a \<noteq> k" "b \<noteq> k" for a b using that by (auto split: if_splits)
  have inj': "inj_on S {..?jj}"
  proof (rule inj_onI)
    fix a b assume ab: "a \<in> {..?jj}" "b \<in> {..?jj}" "S a = S b"
    show "a = b"
    proof (cases "a = k \<or> b = k")
      case True
      have at_k: "m = k" if m: "m \<le> ?jj" "S m = 2 * n" for m
      proof (rule ccontr)
        assume "m \<noteq> k"
        then have "s (?g m) = 2 * n" "?g m \<in> {..<?jj}" using f'(2) [OF m(1)] m(2) g [OF _ m(1)] by simp_all
        then show False using new by (metis imageI)
      qed
      have Sk: "S k = 2 * n" using f'(2) k(2) by simp
      from True show ?thesis
      proof
        assume "a = k"
        then have "S b = 2 * n" using ab(3) Sk by simp
        then show ?thesis using at_k [of b] ab(2) \<open>a = k\<close> by simp
      next
        assume "b = k"
        then have "S a = 2 * n" using ab(3) Sk by simp
        then show ?thesis using at_k [of a] ab(1) \<open>b = k\<close> by simp
      qed
    next
      case False
      then have "S a = s (?g a)" "S b = s (?g b)" using ab(1,2) f'(2) [of a] f'(2) [of b] by (simp_all only: atMost_iff if_False de_Morgan_disj)
      then have "s (?g a) = s (?g b)" using ab(3) by simp
      moreover have "?g a \<in> {..<?jj}" "?g b \<in> {..<?jj}"
        using False g [of a] g [of b] ab(1,2) by (simp_all only: atMost_iff lessThan_iff de_Morgan_disj not_False_eq_True)
      ultimately have "?g a = ?g b" by (rule inj_onD [OF inj])
      then show ?thesis using ginj False by blast
    qed
  qed
  have "sum F {2 * n + 2..<?jj + 1} = sum F {2 * n + 2..<k} + (F k + sum F {k + 1..<?jj + 1})"
    using k sum.atLeastLessThan_concat [of "2 * n + 2" k "?jj + 1" F] sum.atLeast_Suc_lessThan [of k "?jj + 1" F] by simp
  also have "sum F {2 * n + 2..<k} = sum f {2 * n + 2..<k}" by (rule sum.cong) (use f'(1) k(2) in auto)
  also have "sum F {k + 1..<?jj + 1} = sum (\<lambda>m. F (m + 1)) {k..<?jj}" by (rule sum.shift_bounds_nat_ivl)
  also have "\<dots> = sum f {k..<?jj}" by (rule sum.cong) (use f'(1) in auto)
  also have "F k = x" using f'(1) k(2) by simp
  finally have "sum F {2 * n + 2..<?jj + 1} = x + sum f {2 * n + 2..<?jj}"
    using k sum.atLeastLessThan_concat [of "2 * n + 2" k ?jj f] by simp
  moreover have "sum f {2 * n..<?jj} = f (2 * n) + (f (2 * n + 1) + sum f {2 * n + 2..<?jj})"
    using n by (simp add: sum.atLeast_Suc_lessThan)
  ultimately have "sum F {2 * (n + 1)..<314 + (n + 1)} = w" using fo x by (simp add: forest_def)
  moreover have "{..<314 + (n + 1)} = {..?jj}" by auto
  moreover have "1 \<le> F i" if "i \<le> ?jj" for i
    using that f'(1) [OF that] pos [of "?g i"] g [of i] pos [of "2 * n"] n by (auto simp: x split: if_splits)
  ultimately show ?thesis using mono nodes im' inj' unfolding forest_def F_def [symmetric] S_def [symmetric]
    by (simp add: less_Suc_eq_le)
qed

lemma insert_pair_forest:
  assumes fo: "forest w n (hf_freq h) (hf_son h)" and n: "n < 313" and w: "w \<le> 0x8000 + 314"
  shows "forest w (n + 1) (hf_freq (insert_pair n h)) (hf_son (insert_pair n h))"
    and "hf_freq (insert_pair n h) 627 = hf_freq h 627" and "hf_prnt (insert_pair n h) = hf_prnt h"
proof -
  define f where "f = hf_freq h"
  define x where "x = f (2 * n) + f (2 * n + 1)"
  let ?jj = "314 + n"
  have ff: "forest w n f (hf_son h)" using fo by (simp add: f_def)
  have "sum f {2 * n..<?jj} = f (2 * n) + (f (2 * n + 1) + sum f {2 * n + 2..<?jj})"
    using n by (simp add: sum.atLeast_Suc_lessThan)
  then have "x \<le> w" using ff by (simp add: forest_def x_def)
  then have m16: "(f (2 * n) + f (2 * n + 1)) mod 2 ^ 16 = x" using w by (simp add: x_def)
  define k where "k = node_place (f(?jj := x)) x (?jj - 1)"
  have ks: "k \<le> ?jj" "\<And>m. k \<le> m \<Longrightarrow> m < ?jj \<Longrightarrow> x < f m" "k = 0 \<or> f (k - 1) \<le> x"
    using node_place_spec [of "f(?jj := x)" x "?jj - 1"] by (auto simp: k_def split: if_splits)
  have "1 \<le> f (2 * n)" using ff n by (simp add: forest_def)
  then have k2: "2 * n + 1 < k" using ks(2) [of "2 * n + 1"] n by (cases "2 * n + 1 < k") (auto simp: x_def)
  have low: "\<forall>m<k. f m \<le> x"
  proof (intro allI impI)
    fix m assume "m < k"
    then have "f m \<le> f (k - 1)" using forest_sorted [OF ff, of m "k - 1"] ks(1) by simp
    then show "f m \<le> x" using ks(3) k2 by simp
  qed
  have high: "\<forall>m. k \<le> m \<and> m < ?jj \<longrightarrow> x \<le> f m" using ks(2) by (simp add: less_imp_le)
  have step: "insert_pair n h = h\<lparr>hf_freq := (shift_up k ?jj (f(?jj := x)))(k := x), hf_son := (shift_up k ?jj (hf_son h))(k := 2 * n)\<rparr>"
    unfolding insert_pair_def Let_def f_def [symmetric] m16 k_def by (rule refl)
  show "forest w (n + 1) (hf_freq (insert_pair n h)) (hf_son (insert_pair n h))"
    unfolding step using forest_step [OF ff n k2 ks(1) x_def low high] by simp
  show "hf_freq (insert_pair n h) 627 = hf_freq h 627" "hf_prnt (insert_pair n h) = hf_prnt h"
    using ks(1) n by (auto simp: step shift_up_def f_def)
qed

lemma insert_pairs_forest:
  assumes fo: "forest w 0 (hf_freq h) (hf_son h)" and w: "w \<le> 0x8000 + 314"
  shows "n \<le> 313 \<Longrightarrow> forest w n (hf_freq (insert_pairs n h)) (hf_son (insert_pairs n h))
    \<and> hf_freq (insert_pairs n h) 627 = hf_freq h 627 \<and> hf_prnt (insert_pairs n h) = hf_prnt h"
proof (induction n)
  case (Suc n)
  then show ?case using insert_pair_forest [OF _ _ w, of n "insert_pairs n h"] by simp
qed (use fo in simp)

lemma forest_sentinel: "forest w 313 f s \<Longrightarrow> forest w 313 (f(627 := y)) s"
proof -
  assume fo: "forest w 313 f s"
  let ?f = "f(627 := y)"
  have "(627 \<le> s m \<and> s m < 941) \<or> (\<exists>q<313. s m = 2 * q \<and> 2 * q + 1 < m \<and> ?f m = ?f (2 * q) + ?f (2 * q + 1))" if "m < 627" for m
  proof -
    have "(627 \<le> s m \<and> s m < 941) \<or> (\<exists>q<313. s m = 2 * q \<and> 2 * q + 1 < m \<and> f m = f (2 * q) + f (2 * q + 1))"
      using forest_node [OF fo, of m] that by simp
    moreover have "f m = f (2 * q) + f (2 * q + 1) \<longleftrightarrow> ?f m = ?f (2 * q) + ?f (2 * q + 1)" if "q < 313" for q
      using that \<open>m < 627\<close> by simp
    ultimately show ?thesis by blast
  qed
  moreover have "sum ?f {626..<627} = sum f {626..<627}" by (rule sum.cong) simp_all
  ultimately show ?thesis using fo by (simp add: forest_def)
qed

lemma forest_child:
  "forest w 313 f s \<Longrightarrow> i < 627 \<Longrightarrow> is_child s i k \<longleftrightarrow> s i = (if k < 627 then 2 * (k div 2) else k)"
proof -
  assume fo: "forest w 313 f s" and i: "i < 627"
  then have "(627 \<le> s i \<and> s i < 941) \<or> (\<exists>q<313. s i = 2 * q)" using forest_node [OF fo, of i] by auto
  then show ?thesis
  proof
    assume "627 \<le> s i \<and> s i < 941"
    then show ?thesis by (auto simp: is_child_def)
  next
    assume "\<exists>q<313. s i = 2 * q"
    then obtain q where q: "q < 313" "s i = 2 * q" by blast
    have "k = 2 * q \<or> k = 2 * q + 1 \<longleftrightarrow> k div 2 = q" by presburger
    then show ?thesis using q by (auto simp: is_child_def)
  qed
qed

lemma forest_one_parent: "forest w 313 f s \<Longrightarrow> i < 627 \<Longrightarrow> j < 627 \<Longrightarrow> is_child s i k \<Longrightarrow> is_child s j k \<Longrightarrow> i = j"
proof -
  assume fo: "forest w 313 f s" and ij: "i < 627" "j < 627" "is_child s i k" "is_child s j k"
  then have "s i = s j" using forest_child [OF fo] by simp
  moreover have "inj_on s {..<627}" using fo by (simp add: forest_def)
  ultimately show "i = j" using ij by (auto dest: inj_onD)
qed

lemma forest_has_parent: "forest w 313 f s \<Longrightarrow> is_place k \<Longrightarrow> \<exists>i<627. is_child s i k"
proof -
  assume fo: "forest w 313 f s" and k: "is_place k"
  have "s ` {..<627} = {627..<941} \<union> (\<lambda>q. 2 * q) ` {..<313}" using fo by (simp add: forest_def)
  moreover have "(if k < 627 then 2 * (k div 2) else k) \<in> {627..<941} \<union> (\<lambda>q. 2 * q) ` {..<313}"
    using k by (auto simp: is_place_def intro!: imageI)
  ultimately obtain i where "i < 627" "s i = (if k < 627 then 2 * (k div 2) else k)" by (metis imageE lessThan_iff)
  then show ?thesis using forest_child [OF fo] by blast
qed

lemma forest_ok:
  assumes fo: "forest w 313 (hf_freq h) (hf_son h)" and w: "w \<le> 0x8000" and top: "hf_freq h 627 = 0xffff" "hf_prnt h 626 = 0"
    and linked: "\<And>i k. i < 627 \<Longrightarrow> is_child (hf_son h) i k \<Longrightarrow> hf_prnt h k = i"
  shows "huff_ok h" and "hf_freq h 626 = w"
proof -
  have node: "(627 \<le> hf_son h m \<and> hf_son h m < 941)
      \<or> (\<exists>q<313. hf_son h m = 2 * q \<and> 2 * q + 1 < m \<and> hf_freq h m = hf_freq h (2 * q) + hf_freq h (2 * q + 1))" if "m < 627" for m
    using forest_node [OF fo, of m] that by simp
  have "sons_ok (hf_son h)" unfolding sons_ok_def using node by fastforce
  moreover have "hf_prnt h k < 627 \<and> is_child (hf_son h) (hf_prnt h k) k" if "is_place k" for k
    using forest_has_parent [OF fo that] linked by blast
  ultimately have "huff_links h" using top(2) linked by (simp add: huff_links_def)
  moreover have "huff_sums 627 h" unfolding huff_sums_def using node by fastforce
  moreover have "{626..<627::nat} = {626}" by auto
  then show root: "hf_freq h 626 = w" using fo by (simp add: forest_def)
  moreover have "huff_counts h" using fo top(1) w root by (simp add: huff_counts_def forest_def)
  ultimately show "huff_ok h" by (simp add: huff_ok_def)
qed

lemma relink_child: "relink (s i) i prnt k = (if is_child s i k then i else prnt k)"
  by (simp add: relink_def is_child_def)

lemma link_parents_linked:
  assumes fo: "forest w 313 (hf_freq h) (hf_son h)"
  shows "n \<le> 627 \<Longrightarrow> hf_freq (link_parents n h) = hf_freq h \<and> hf_son (link_parents n h) = hf_son h
    \<and> hf_prnt (link_parents n h) 626 = hf_prnt h 626 \<and> (\<forall>i k. i < n \<longrightarrow> is_child (hf_son h) i k \<longrightarrow> hf_prnt (link_parents n h) k = i)"
proof (induction n)
  case (Suc n)
  have root: "\<not> is_child (hf_son h) n 626" using forest_child [OF fo, of n 626] forest_node [OF fo, of n] Suc.prems by auto
  have "n = i" if "i < Suc n" "is_child (hf_son h) i k" "is_child (hf_son h) n k" for i k
    using forest_one_parent [OF fo, of n i k] that Suc.prems by simp
  then show ?case using Suc root by (auto simp: Let_def relink_child less_Suc_eq)
qed simp


section \<open>The tree of the start\<close>

lemma start_leaves_spec:
  "let r = start_leaves n h
   in (\<forall>i<n. hf_freq r i = 1 \<and> hf_son r i = 627 + i \<and> hf_prnt r (627 + i) = i)"
  by (induction n) (auto simp: Let_def less_Suc_eq)

lemma start_leaves_root: "hf_prnt (start_leaves n h) 626 = hf_prnt h 626"
  by (induction n) (auto simp: Let_def)

lemma start_forest: "forest 314 0 (hf_freq (start_leaves 314 h)) (hf_son (start_leaves 314 h))"
proof -
  let ?r = "start_leaves 314 h"
  have r: "hf_freq ?r i = 1" "hf_son ?r i = 627 + i" if "i < 314" for i
    using start_leaves_spec [of 314 h] that by (simp_all add: Let_def)
  have "inj_on (hf_son ?r) {..<314}" by (rule inj_onI) (simp add: r)
  moreover have "hf_son ?r ` {..<314} = (\<lambda>i. 627 + i) ` {..<314}" by (rule image_cong) (simp_all add: r)
  moreover have "(\<lambda>i. 627 + i) ` {..<314::nat} = {627..<941}"
    using image_add_atLeastLessThan [of 627 0 314] by (simp add: lessThan_atLeast0)
  moreover have "sum (hf_freq ?r) {0..<314} = (\<Sum>i\<in>{0..<314::nat}. 1)" by (rule sum.cong) (simp_all add: r)
  ultimately show ?thesis using r by (simp add: forest_def)
qed

lemma start_nodes_forest:
  assumes fo: "forest 314 0 (hf_freq h) (hf_son h)" and ones: "\<forall>i<314. hf_freq h i = 1"
  shows "n \<le> 313 \<Longrightarrow> forest 314 n (hf_freq (start_nodes n h)) (hf_son (start_nodes n h))
    \<and> (\<forall>i<314. hf_son (start_nodes n h) i = hf_son h i) \<and> (\<forall>q<n. hf_son (start_nodes n h) (314 + q) = 2 * q)
    \<and> (\<forall>k. hf_prnt (start_nodes n h) k = (if k < 2 * n then 314 + k div 2 else hf_prnt h k))"
proof (induction n)
  case (Suc n)
  define r where "r = start_nodes n h"
  define f where "f = hf_freq r"
  define x where "x = f (2 * n) + f (2 * n + 1)"
  let ?jj = "314 + n"
  have n: "n < 313" using Suc.prems by simp
  have IH: "forest 314 n f (hf_son r)" "\<forall>i<314. hf_son r i = hf_son h i" "\<forall>q<n. hf_son r (314 + q) = 2 * q"
    "\<forall>k. hf_prnt r k = (if k < 2 * n then 314 + k div 2 else hf_prnt h k)"
    using Suc.IH n by (simp_all add: f_def r_def)
  have "sum f {2 * n..<?jj} = f (2 * n) + (f (2 * n + 1) + sum f {2 * n + 2..<?jj})"
    using n by (simp add: sum.atLeast_Suc_lessThan)
  then have "x \<le> 314" using IH(1) by (simp add: forest_def x_def)
  then have m16: "(f (2 * n) + f (2 * n + 1)) mod 2 ^ 16 = x" by (simp add: x_def)
  have last: "f (?jj - 1) \<le> x"
  proof (cases n)
    case 0
    then have "f 313 = 1" "1 \<le> f 0" using ones by (simp_all add: f_def r_def)
    then show ?thesis using 0 by (simp add: x_def)
  next
    case (Suc q)
    then have "hf_son r (?jj - 1) = 2 * q" using IH(3) by simp
    then have "f (?jj - 1) = f (2 * q) + f (2 * q + 1)" using forest_node [OF IH(1), of "?jj - 1"] Suc n by auto
    also have "\<dots> \<le> x" unfolding x_def using Suc n by (intro add_mono forest_sorted [OF IH(1)]) auto
    finally show ?thesis .
  qed
  have low: "\<forall>m<?jj. f m \<le> x"
  proof (intro allI impI)
    fix m assume "m < ?jj"
    then have "f m \<le> f (?jj - 1)" using forest_sorted [OF IH(1), of m "?jj - 1"] by simp
    then show "f m \<le> x" using last by (rule order_trans)
  qed
  have same: "shift_up ?jj ?jj a = a" for a by (auto simp: shift_up_def fun_eq_iff)
  have step: "forest 314 (n + 1) (f(?jj := x)) ((hf_son r)(?jj := 2 * n))"
    using forest_step [OF IH(1) n _ _ x_def low, of] n unfolding same by (simp add: same)
  have "start_nodes (Suc n) h = r\<lparr>hf_freq := f(?jj := x), hf_prnt := (hf_prnt r)(2 * n := ?jj, 2 * n + 1 := ?jj), hf_son := (hf_son r)(?jj := 2 * n)\<rparr>"
    unfolding start_nodes.simps Let_def r_def [symmetric] f_def [symmetric] m16 by (rule refl)
  then have new: "hf_freq (start_nodes (Suc n) h) = f(?jj := x)" "hf_son (start_nodes (Suc n) h) = (hf_son r)(?jj := 2 * n)"
    "hf_prnt (start_nodes (Suc n) h) = (hf_prnt r)(2 * n := ?jj, 2 * n + 1 := ?jj)" by (simp_all del: start_nodes.simps)
  have "k div 2 = n" if "k < 2 * n + 2" "\<not> k < 2 * n" for k using that by auto
  then have "((hf_prnt r)(2 * n := ?jj, 2 * n + 1 := ?jj)) k = (if k < 2 * Suc n then 314 + k div 2 else hf_prnt h k)" for k
    using IH(4) by auto
  moreover have "\<forall>q<Suc n. ((hf_son r)(?jj := 2 * n)) (314 + q) = 2 * q" using IH(3) by (simp add: less_Suc_eq)
  moreover have "\<forall>i<314. ((hf_son r)(?jj := 2 * n)) i = hf_son h i" using IH(2) by simp
  moreover have "forest 314 (Suc n) (f(?jj := x)) ((hf_son r)(?jj := 2 * n))" using step by simp
  ultimately show ?case unfolding new by blast
qed (use fo in simp)


lemma start_huff_ok: "huff_ok start_huff" "hf_freq start_huff 626 = 314"
proof -
  define h where "h = start_leaves 314 \<lparr>hf_freq = \<lambda>_. 0, hf_prnt = \<lambda>_. 0, hf_son = \<lambda>_. 0\<rparr>"
  have leaves: "\<forall>i<314. hf_freq h i = 1" "\<forall>i<314. hf_son h i = 627 + i" "\<forall>i<314. hf_prnt h (627 + i) = i"
    using start_leaves_spec [of 314] by (simp_all add: h_def Let_def)
  define r where "r = start_nodes 313 h"
  have fo: "forest 314 0 (hf_freq h) (hf_son h)" unfolding h_def by (rule start_forest)
  have r: "forest 314 313 (hf_freq r) (hf_son r)" "\<forall>i<314. hf_son r i = 627 + i" "\<forall>q<313. hf_son r (314 + q) = 2 * q"
    "\<forall>k. hf_prnt r k = (if k < 626 then 314 + k div 2 else hf_prnt h k)"
    using start_nodes_forest [OF fo leaves(1), of 313] leaves(2) by (simp_all add: r_def)
  have s: "start_huff = r\<lparr>hf_freq := (hf_freq r)(627 := 0xffff), hf_prnt := (hf_prnt r)(626 := 0)\<rparr>"
    by (simp add: start_huff_def Let_def r_def h_def)
  have ff: "forest 314 313 ((hf_freq r)(627 := 0xffff)) (hf_son r)"
    using r(1) by (rule forest_sentinel)
  have linked: "((hf_prnt r)(626 := 0)) k = i" if i: "i < 627" "is_child (hf_son r) i k" for i k
  proof (cases "i < 314")
    case True
    then have "k = 627 + i" using i(2) r(2) by (auto simp: is_child_def)
    then show ?thesis using r(4) leaves(3) True by simp
  next
    case False
    define q where "q = i - 314"
    then have q: "i = 314 + q" "q < 313" using False i(1) by simp_all
    then have "k = 2 * q \<or> k = 2 * q + 1" using i(2) r(3) by (auto simp: is_child_def)
    then have "k div 2 = q" "k < 626" using q by auto
    then show ?thesis using r(4) q by simp
  qed
  show "huff_ok start_huff" unfolding s by (rule forest_ok(1) [of 314]) (use ff linked in simp_all)
  show "hf_freq start_huff 626 = 314" unfolding s by (rule forest_ok(2) [of 314]) (use ff linked in simp_all)
qed

section \<open>The tree built anew\<close>

lemma collect_leaves_spec:
  fixes s0 f0 :: array
  assumes "\<And>q. q < length ls \<Longrightarrow> hf_freq h q = (f0 (ls ! q) + 1) div 2 \<and> hf_son h q = s0 (ls ! q)"
    and "\<And>m. i \<le> m \<Longrightarrow> hf_freq h m = f0 m \<and> hf_son h m = s0 m" and "length ls \<le> i"
  shows "let all = ls @ filter (\<lambda>m. 627 \<le> s0 m) [i..<i + n] in \<exists>h'. collect_leaves n i (length ls) h = (length all, h') \<and> hf_prnt h' = hf_prnt h
    \<and> (\<forall>q<length all. hf_freq h' q = (f0 (all ! q) + 1) div 2 \<and> hf_son h' q = s0 (all ! q)) \<and> (\<forall>m\<ge>i + n. hf_freq h' m = f0 m)"
  using assms unfolding Let_def
proof (induction n arbitrary: i ls h)
  case (Suc n)
  have up: "[i..<i + Suc n] = i # [Suc i..<Suc i + n]" by (simp add: upt_conv_Cons)
  show ?case
  proof (cases "627 \<le> s0 i")
    case False
    then have "collect_leaves (Suc n) i (length ls) h = collect_leaves n (Suc i) (length ls) h" using Suc.prems(2) [of i] by simp
    then show ?thesis using Suc.IH [of ls h "Suc i"] Suc.prems False unfolding up by simp
  next
    case True
    let ?h = "h\<lparr>hf_freq := (hf_freq h)(length ls := (f0 i + 1) div 2), hf_son := (hf_son h)(length ls := s0 i)\<rparr>"
    have "collect_leaves (Suc n) i (length ls) h = collect_leaves n (Suc i) (length (ls @ [i])) ?h"
      using True Suc.prems(2) [of i] by simp
    moreover have "hf_freq ?h q = (f0 ((ls @ [i]) ! q) + 1) div 2 \<and> hf_son ?h q = s0 ((ls @ [i]) ! q)" if "q < length (ls @ [i])" for q
      using Suc.prems(1) [of q] that by (cases "q = length ls") (auto simp: nth_append)
    moreover have "hf_freq ?h m = f0 m \<and> hf_son ?h m = s0 m" if "Suc i \<le> m" for m using Suc.prems(2) [of m] Suc.prems(3) that by auto
    ultimately show ?thesis using Suc.IH [of "ls @ [i]" ?h "Suc i"] Suc.prems(3) True unfolding up by simp
  qed
qed simp


lemma sum_pairs: "(\<Sum>q<n. f (2 * q) + f (2 * q + 1)) = (\<Sum>k<2 * n. f k :: nat)" for n :: nat
  by (induction n) (simp_all add: algebra_simps)

text \<open>What the leaves count together is what the root counts.\<close>

lemma leaves_sum:
  assumes ok: "huff_ok h"
  shows "sum (hf_freq h) {m \<in> {..<627}. 627 \<le> hf_son h m} = hf_freq h 626"
proof -
  let ?f = "hf_freq h" and ?s = "hf_son h"
  let ?L = "{m \<in> {..<627}. 627 \<le> ?s m}" and ?I = "{m \<in> {..<627}. ?s m < 627}"
  have links: "huff_links h" and sums: "huff_sums 627 h" using ok by (simp_all add: huff_ok_def)
  have inner: "2 * (?s m div 2) = ?s m" "?s m div 2 < 313" "hf_prnt h (?s m) = m" if "m \<in> ?I" for m
    using links_son [OF links, of m] that by auto
  have "bij_betw (\<lambda>m. ?s m div 2) ?I {..<313}"
    unfolding bij_betw_def
  proof
    show "inj_on (\<lambda>m. ?s m div 2) ?I"
    proof (rule inj_onI)
      fix a b assume ab: "a \<in> ?I" "b \<in> ?I" "?s a div 2 = ?s b div 2"
      have "2 * (?s a div 2) = 2 * (?s b div 2)" by (simp only: ab(3))
      then have "?s a = ?s b" by (simp only: inner(1) [OF ab(1)] inner(1) [OF ab(2)])
      then have "hf_prnt h (?s a) = hf_prnt h (?s b)" by (simp only:)
      then show "a = b" by (simp only: inner(3) [OF ab(1)] inner(3) [OF ab(2)])
    qed
    show "(\<lambda>m. ?s m div 2) ` ?I = {..<313}"
    proof (intro equalityI image_subsetI subsetI)
      fix q :: nat assume "q \<in> {..<313}"
      then have "hf_prnt h (2 * q) \<in> ?I" "?s (hf_prnt h (2 * q)) div 2 = q" using links_parent [OF links, of "2 * q"] by simp_all
      then show "q \<in> (\<lambda>m. ?s m div 2) ` ?I" by (intro image_eqI [of q _ "hf_prnt h (2 * q)"]) simp_all
    qed (use inner in auto)
  qed
  then have "(\<Sum>m\<in>?I. ?f (2 * (?s m div 2)) + ?f (2 * (?s m div 2) + 1)) = (\<Sum>q<313. ?f (2 * q) + ?f (2 * q + 1))"
    by (rule sum.reindex_bij_betw)
  also have "\<dots> = sum ?f {..<626}" using sum_pairs [of ?f 313] by simp
  also have "(\<Sum>m\<in>?I. ?f (2 * (?s m div 2)) + ?f (2 * (?s m div 2) + 1)) = sum ?f ?I"
  proof (rule sum.cong)
    fix m assume "m \<in> ?I"
    then show "?f (2 * (?s m div 2)) + ?f (2 * (?s m div 2) + 1) = ?f m" using inner sums by (simp add: huff_sums_def)
  qed simp
  finally have "sum ?f ?I = sum ?f {..<626}" .
  moreover have "sum ?f {..<627} = sum ?f {..<626} + ?f 626" using sum.lessThan_Suc [of ?f 626] by simp
  moreover have "sum ?f {..<627} = sum ?f ?L + sum ?f ?I"
    by (subst sum.union_disjoint [symmetric]) (auto intro: arg_cong [of _ _ "sum ?f"])
  ultimately show ?thesis by linarith
qed

lemma leaves_bij: "huff_links h \<Longrightarrow> bij_betw (hf_son h) {m \<in> {..<627}. 627 \<le> hf_son h m} {627..<941}"
  unfolding bij_betw_def
proof
  assume links: "huff_links h"
  let ?L = "{m \<in> {..<627}. 627 \<le> hf_son h m}"
  have leaf: "hf_son h m < 941 \<and> hf_prnt h (hf_son h m) = m" if "m \<in> ?L" for m using links_son [OF links, of m] that by auto
  show "inj_on (hf_son h) ?L" by (rule inj_onI) (metis leaf)
  show "hf_son h ` ?L = {627..<941}"
  proof (intro equalityI image_subsetI subsetI)
    fix k :: nat assume "k \<in> {627..<941}"
    then have "hf_prnt h k \<in> ?L" "hf_son h (hf_prnt h k) = k" using links_leaf [OF links, of k] by simp_all
    then show "k \<in> hf_son h ` ?L" by (intro image_eqI [of k _ "hf_prnt h k"]) simp_all
  qed (use leaf in auto)
qed

text \<open>The leaves with half their counts start a forest.\<close>

lemma collected_forest:
  assumes ok: "huff_ok h"
  shows "\<exists>w. snd (collect_leaves 627 0 0 h) = r \<longrightarrow> forest w 0 (hf_freq r) (hf_son r) \<and> hf_freq r 627 = 0xffff \<and> hf_prnt r = hf_prnt h
    \<and> 2 * w \<le> hf_freq h 626 + 314"
proof -
  let ?f = "hf_freq h" and ?s = "hf_son h"
  let ?L = "{m \<in> {..<627}. 627 \<le> ?s m}"
  define ls where "ls = filter (\<lambda>m. 627 \<le> ?s m) [0..<627]"
  have links: "huff_links h" and counts: "huff_counts h" using ok by (simp_all add: huff_ok_def)
  have ls: "set ls = ?L" "distinct ls" "sorted_wrt (<) ls"
    by (auto simp: ls_def sorted_wrt_filter)
  have bij: "bij_betw ?s (set ls) {627..<941}" using leaves_bij [OF links] by (simp add: ls)
  have len: "length ls = 314" using bij_betw_same_card [OF bij] distinct_card [OF ls(2)] by simp
  obtain r' where r': "collect_leaves 627 0 0 h = (length ls, r')" "hf_prnt r' = hf_prnt h"
    "\<forall>q<length ls. hf_freq r' q = (?f (ls ! q) + 1) div 2 \<and> hf_son r' q = ?s (ls ! q)" "\<forall>m\<ge>627. hf_freq r' m = ?f m"
    using collect_leaves_spec [of "[]" h ?f ?s 0 627] by (auto simp: ls_def Let_def)
  let ?w = "sum (\<lambda>m. (?f m + 1) div 2) (set ls)"
  have nodes: "bij_betw ((!) ls) {..<314} (set ls)" using bij_betw_nth [OF ls(2), of "{..<314}" "set ls"] len by simp
  have at: "hf_freq r' q = (?f (ls ! q) + 1) div 2" "hf_son r' q = ?s (ls ! q)" "ls ! q \<in> set ls" if "q < 314" for q
    using r'(3) that len by auto
  have w: "sum (hf_freq r') {..<314} = ?w"
    using sum.reindex_bij_betw [OF nodes, of "\<lambda>m. (?f m + 1) div 2"] at(1) by simp
  have "bij_betw (\<lambda>q. ?s (ls ! q)) {..<314} {627..<941}" using bij_betw_trans [OF nodes bij] by (simp add: comp_def)
  then have sons: "bij_betw (hf_son r') {..<314} {627..<941}" by (rule bij_betw_cong [THEN iffD1, rotated]) (simp add: at)
  have mono: "hf_freq r' i \<le> hf_freq r' j" if "i \<le> j" "j < 314" for i j
  proof -
    have "ls ! i \<le> ls ! j" using sorted_wrt_nth_less [OF ls(3), of i j] that len by (cases "i = j") auto
    then have "?f (ls ! i) \<le> ?f (ls ! j)" using sorted_counts [OF counts] at(3) [of j] that ls(1) by auto
    then show ?thesis using at(1) that by (simp add: div_le_mono)
  qed
  have pos: "1 \<le> hf_freq r' i" if "i < 314" for i
  proof -
    have "1 \<le> ?f (ls ! i)" using counts at(3) [OF that] ls(1) by (simp add: huff_counts_def)
    then show ?thesis using at(1) [OF that] by simp
  qed
  have "2 * ?w \<le> sum (\<lambda>m. ?f m + 1) (set ls)" unfolding sum_distrib_left by (rule sum_mono) simp
  also have "\<dots> = sum ?f ?L + 314" using distinct_card [OF ls(2)] len unfolding ls(1) sum.distrib by simp
  finally have "2 * ?w \<le> hf_freq h 626 + 314" using leaves_sum [OF ok] by simp
  moreover have "forest ?w 0 (hf_freq r') (hf_son r')"
    using mono pos sons w by (auto simp: forest_def bij_betw_def lessThan_atLeast0)
  moreover have "hf_freq r' 627 = 0xffff" using r'(4) counts by (simp add: huff_counts_def)
  ultimately show ?thesis using r'(1,2) by auto
qed

lemma reconst_ok:
  assumes ok: "huff_ok h"
  shows "huff_ok (reconst h)" and "hf_freq (reconst h) 626 < 0x8000"
proof -
  let ?r = "snd (collect_leaves 627 0 0 h)" and ?p = "insert_pairs 313 (snd (collect_leaves 627 0 0 h))"
  obtain w where w: "forest w 0 (hf_freq ?r) (hf_son ?r)" "hf_freq ?r 627 = 0xffff" "hf_prnt ?r = hf_prnt h" "2 * w \<le> hf_freq h 626 + 314"
    using collected_forest [OF ok, of ?r] by blast
  have lim: "hf_freq h 626 \<le> 0x8000" "hf_prnt h 626 = 0" using ok by (simp_all add: huff_ok_def huff_counts_def huff_links_def)
  then have wl: "w < 0x8000" using w(4) by simp
  then have p: "forest w 313 (hf_freq ?p) (hf_son ?p)" "hf_freq ?p 627 = 0xffff" "hf_prnt ?p = hf_prnt h"
    using insert_pairs_forest [OF w(1), of 313] w(2,3) by simp_all
  have l: "hf_freq (link_parents 627 ?p) = hf_freq ?p" "hf_son (link_parents 627 ?p) = hf_son ?p" "hf_prnt (link_parents 627 ?p) 626 = hf_prnt ?p 626"
    "\<forall>i k. i < 627 \<longrightarrow> is_child (hf_son ?p) i k \<longrightarrow> hf_prnt (link_parents 627 ?p) k = i"
    using link_parents_linked [OF p(1), of 627] by auto
  have r: "reconst h = link_parents 627 ?p" by (simp add: reconst_def)
  show "huff_ok (reconst h)" unfolding r by (rule forest_ok(1) [of w]) (use p l lim wl in simp_all)
  have "hf_freq (reconst h) 626 = w" unfolding r by (rule forest_ok(2) [of w]) (use p l lim wl in simp_all)
  then show "hf_freq (reconst h) 626 < 0x8000" using wl by simp
qed

lemma huff_update_ok: "huff_ok h \<Longrightarrow> c < 314 \<Longrightarrow> \<exists>h'. huff_update c h = Inr h' \<and> huff_ok h' \<and> (hf_freq h 626 < 0x8000 \<longrightarrow> hf_freq h' 626 = hf_freq h 626 + 1)"
proof -
  assume ok: "huff_ok h" and c: "c < 314"
  let ?h = "if hf_freq h 626 = 0x8000 then reconst h else h"
  have "hf_freq h 626 \<le> 0x8000" using ok by (simp add: huff_ok_def huff_counts_def)
  then have "huff_ok ?h" "hf_freq ?h 626 < 0x8000" using ok reconst_ok [OF ok] by auto
  then have "\<exists>h'. update_path 627 (hf_prnt ?h (c + 627)) ?h = Inr h' \<and> huff_ok h' \<and> hf_freq h' 626 = hf_freq ?h 626 + 1" using c by (rule update_ok)
  then show ?thesis by (auto simp: huff_update_def Let_def MAX_FREQ_def)
qed

end
