(* ===== verification/Lzhuf_Char.thy ===== *)
theory Lzhuf_Char
  imports Lzhuf_Build
begin

text \<open>
  The code of a character: \<open>encodeChar\<close> writes the path from the root to the node of the character, \<open>decodeChar\<close>
  follows it, and both count the character in the same tree. A code is at most sixteen bits long, the register
  it is written from, as long as the tree has counted fewer than 3867 characters.
\<close>

section \<open>The path to a node\<close>

text \<open>The bits that lead from the root to node \<open>k\<close>, through at most \<open>n\<close> nodes.\<close>

fun path_bits :: "nat \<Rightarrow> huff \<Rightarrow> nat \<Rightarrow> bool list" where
  "path_bits 0 h k = []"
| "path_bits (Suc n) h k = (if k = LZ_R then [] else path_bits n h (hf_prnt h k) @ [odd k])"

definition huff_code :: "huff \<Rightarrow> nat \<Rightarrow> bool list" where
  "huff_code h c = path_bits LZ_T h (hf_prnt h (c + LZ_T))"

lemma length_path_bits: "length (path_bits n h k) \<le> n"
  by (induction n arbitrary: k) simp_all

lemma char_node: "huff_links h \<Longrightarrow> c < 314 \<Longrightarrow> hf_prnt h (c + 627) < 626 \<and> hf_son h (hf_prnt h (c + 627)) = c + 627"
proof -
  assume h: "huff_links h" and c: "c < 314"
  then have p: "hf_prnt h (c + 627) < 627 \<and> hf_son h (hf_prnt h (c + 627)) = c + 627" using links_leaf [of h "c + 627"] by simp
  moreover have "hf_prnt h (c + 627) \<noteq> 626"
  proof
    assume "hf_prnt h (c + 627) = 626"
    then show False using p links_root(2) [OF h] by simp
  qed
  ultimately show ?thesis by linarith
qed

lemma climb_path:
  "huff_links h \<Longrightarrow> k < 626 \<Longrightarrow> 626 - k \<le> n \<Longrightarrow>
    climb n h k j (top_bits bs) = Inr (j + length (path_bits n h k), top_bits (path_bits n h k @ bs))"
proof (induction n arbitrary: k j bs)
  case (Suc n)
  let ?p = "hf_prnt h k"
  have p: "?p < 627" "k < ?p" using links_parent [OF Suc.prems(1,2)] by simp_all
  have step: "(if odd k then drop_bit 1 (top_bits bs) + 0x8000 else drop_bit 1 (top_bits bs)) = top_bits (odd k # bs)" by simp
  show ?case
  proof (cases "?p = 626")
    case True
    then have "path_bits n h ?p = []" by (cases n) simp_all
    then show ?thesis using True Suc.prems(2) by (simp add: Let_def)
  next
    case False
    then have "climb n h ?p (j + 1) (top_bits (odd k # bs)) = Inr (j + 1 + length (path_bits n h ?p), top_bits (path_bits n h ?p @ odd k # bs))"
      using p Suc.prems by (intro Suc.IH) auto
    moreover have "climb (Suc n) h k j (top_bits bs) = climb n h ?p (j + 1) (top_bits (odd k # bs))"
      unfolding climb.simps Let_def step using False by simp
    ultimately show ?thesis using Suc.prems(2) by simp
  qed
qed simp

lemma descend_path:
  "huff_links h \<Longrightarrow> k \<le> 626 \<Longrightarrow> 626 - k \<le> n \<Longrightarrow> in_ok b \<Longrightarrow> in_bits b = path_bits n h k @ rest \<Longrightarrow> 16 \<le> length rest \<Longrightarrow>
    \<exists>b'. descend (length (path_bits n h k) + fuel) h (hf_son h 626) b = descend fuel h (hf_son h k) b' \<and> in_ok b' \<and> in_bits b' = rest"
proof (induction n arbitrary: k rest fuel)
  case (Suc n)
  show ?case
  proof (cases "k = 626")
    case True
    then show ?thesis using Suc.prems(4,5) by auto
  next
    case False
    let ?p = "hf_prnt h k"
    have k: "k < 626" using False Suc.prems(2) by simp
    have p: "?p < 627" "hf_son h ?p = 2 * (k div 2)" "k < ?p" using links_parent [OF Suc.prems(1) k] by simp_all
    have bits: "in_bits b = path_bits n h ?p @ odd k # rest" using Suc.prems(5) False by simp
    obtain b1 where b1: "descend (length (path_bits n h ?p) + Suc fuel) h (hf_son h 626) b = descend (Suc fuel) h (hf_son h ?p) b1"
        "in_ok b1" "in_bits b1 = odd k # rest"
    proof -
      have "?p \<le> 626" "626 - ?p \<le> n" "16 \<le> length (odd k # rest)" using p(1,3) Suc.prems(3,6) by simp_all
      then show ?thesis using Suc.IH [OF Suc.prems(1) _ _ Suc.prems(4) bits, of "Suc fuel"] that by blast
    qed
    obtain b2 where b2: "get_bit b1 = Inr (if odd k then 1 else 0, b2)" "in_ok b2" "in_bits b2 = rest"
      using get_bit_bits [OF b1(2,3)] Suc.prems(6) by auto
    have "2 * (k div 2) + (if odd k then 1 else 0) = k" by presburger
    moreover have "\<not> 627 \<le> 2 * (k div 2)" using k by presburger
    ultimately have "descend (Suc fuel) h (hf_son h ?p) b1 = descend fuel h (hf_son h k) b2" using b2(1) by (simp add: p(2) del: One_nat_def)
    moreover have "length (path_bits (Suc n) h k) + fuel = length (path_bits n h ?p) + Suc fuel" using False by simp
    ultimately show ?thesis using b1(1) b2(2,3) by (intro exI [of _ b2]) (simp del: descend.simps path_bits.simps)
  qed
qed auto

section \<open>How long a code is\<close>

text \<open>The counts along a path grow like the Fibonacci numbers: the sibling of a node's parent counts as much as the node.\<close>

fun grown :: "nat \<Rightarrow> nat \<Rightarrow> nat \<Rightarrow> nat" where
  "grown 0 a b = a"
| "grown (Suc n) a b = grown n b (a + b)"

lemma grown_mono: "a \<le> a' \<Longrightarrow> b \<le> b' \<Longrightarrow> grown n a b \<le> grown n a' b'"
  by (induction n arbitrary: a b a' b') simp_all

lemma grown_step: "a \<le> b \<Longrightarrow> grown n a b \<le> grown (Suc n) a b"
  by (induction n arbitrary: a b) simp_all

lemma grown_longer: "a \<le> b \<Longrightarrow> m \<le> n \<Longrightarrow> grown m a b \<le> grown n a b"
  by (rule lift_Suc_mono_le [of "\<lambda>n. grown n a b"]) (use grown_step in auto)

lemma parent_sum: "huff_ok h \<Longrightarrow> k < 626 \<Longrightarrow> hf_freq h (hf_prnt h k) = hf_freq h k + hf_freq h (if even k then k + 1 else k - 1)"
proof -
  assume ok: "huff_ok h" and k: "k < 626"
  have p: "hf_prnt h k < 627" "hf_son h (hf_prnt h k) = 2 * (k div 2)" using links_parent [of h k] ok k by (simp_all add: huff_ok_def)
  moreover have "2 * (k div 2) < 627" using k by simp
  ultimately have "hf_freq h (hf_prnt h k) = hf_freq h (2 * (k div 2)) + hf_freq h (2 * (k div 2) + 1)"
    using ok by (auto simp: huff_ok_def huff_sums_def)
  then show ?thesis by (cases "even k") simp_all
qed

lemma grown_path:
  "huff_ok h \<Longrightarrow> k < 626 \<Longrightarrow> 626 - k \<le> n \<Longrightarrow> a \<le> hf_freq h k \<Longrightarrow> b \<le> hf_freq h (hf_prnt h k) \<Longrightarrow>
    grown (length (path_bits n h k)) a b \<le> hf_freq h 626"
proof (induction n arbitrary: k a b)
  case (Suc n)
  let ?p = "hf_prnt h k"
  have p: "?p < 627" "k < ?p" using links_parent [of h k] Suc.prems(1,2) by (simp_all add: huff_ok_def)
  show ?case
  proof (cases "?p = 626")
    case True
    then have "path_bits n h ?p = []" by (cases n) simp_all
    then show ?thesis using True Suc.prems(2,5) by simp
  next
    case False
    then have p6: "?p < 626" using p(1) by simp
    have "hf_freq h k \<le> hf_freq h (if even ?p then ?p + 1 else ?p - 1)"
      using Suc.prems(1) p(2) p6 by (intro sorted_counts) (auto simp: huff_ok_def)
    then have "a + b \<le> hf_freq h (hf_prnt h ?p)" using parent_sum [OF Suc.prems(1) p6] Suc.prems(4,5) by simp
    then have "grown (length (path_bits n h ?p)) b (a + b) \<le> hf_freq h 626"
      using Suc.prems p(2) p6 by (intro Suc.IH) auto
    then show ?thesis using Suc.prems(2) by simp
  qed
qed simp

lemma huff_code_grown: "huff_ok h \<Longrightarrow> c < 314 \<Longrightarrow> grown (length (huff_code h c)) 1 2 \<le> hf_freq h 626"
proof -
  assume ok: "huff_ok h" and c: "c < 314"
  let ?k = "hf_prnt h (c + 627)"
  have k: "?k < 626" using char_node [of h c] ok c by (simp add: huff_ok_def)
  have pos: "1 \<le> hf_freq h i" if "i < 627" for i using ok that by (simp add: huff_ok_def huff_counts_def)
  have "1 \<le> hf_freq h (if even ?k then ?k + 1 else ?k - 1)" using k by (intro pos) auto
  then have "2 \<le> hf_freq h (hf_prnt h ?k)" using parent_sum [OF ok k] pos [of ?k] k by simp
  then show ?thesis unfolding huff_code_def using pos [of ?k] k ok by (intro grown_path) auto
qed

lemma huff_code_fits: "huff_ok h \<Longrightarrow> c < 314 \<Longrightarrow> hf_freq h 626 < 4181 \<Longrightarrow> length (huff_code h c) \<le> 16"
proof (rule ccontr)
  assume h: "huff_ok h" "c < 314" "hf_freq h 626 < 4181" and "\<not> length (huff_code h c) \<le> 16"
  then have "grown 17 1 2 \<le> grown (length (huff_code h c)) 1 2" by (intro grown_longer) simp_all
  moreover have "grown 17 1 2 = 4181" by code_simp
  ultimately show False using huff_code_grown [OF h(1,2)] h(3) by simp
qed

section \<open>Writing and reading a character\<close>

lemma encode_char_bits:
  assumes ok: "huff_ok h" and c: "c < 314" and few: "hf_freq h 626 < 4181" and b: "out_ok b"
  shows "\<exists>h' b'. encode_char c (h, b) = Inr (h', b') \<and> huff_update c h = Inr h' \<and> huff_ok h' \<and> hf_freq h' 626 = hf_freq h 626 + 1
    \<and> out_ok b' \<and> out_bits b' = out_bits b @ huff_code h c"
proof -
  have links: "huff_links h" using ok by (simp add: huff_ok_def)
  have k: "hf_prnt h (c + 627) < 626" using char_node [OF links c] by simp
  have "climb 627 h (hf_prnt h (c + 627)) 0 0 = Inr (length (huff_code h c), top_bits (huff_code h c))"
    using climb_path [OF links k, of 627 0 "[]"] by (simp add: huff_code_def)
  moreover obtain h' where "huff_update c h = Inr h'" "huff_ok h'" "hf_freq h 626 < 0x8000 \<longrightarrow> hf_freq h' 626 = hf_freq h 626 + 1"
    using huff_update_ok [OF ok c] by blast
  ultimately show ?thesis using putcode_bits [OF b huff_code_fits [OF ok c few]] few by (simp add: encode_char_def)
qed

lemma decode_char_bits:
  assumes ok: "huff_ok h" and c: "c < 314" and h': "huff_update c h = Inr h'"
    and b: "in_ok b" "in_bits b = huff_code h c @ rest" "16 \<le> length rest"
  shows "\<exists>b'. decode_char (h, b) = Inr (c, h', b') \<and> in_ok b' \<and> in_bits b' = rest"
proof -
  have links: "huff_links h" using ok by (simp add: huff_ok_def)
  let ?k = "hf_prnt h (c + 627)"
  have k: "?k < 626" "hf_son h ?k = c + 627" using char_node [OF links c] by simp_all
  let ?l = "length (huff_code h c)"
  have l: "?l \<le> 627" unfolding huff_code_def by (rule length_path_bits)
  have "?k \<le> 626" "626 - ?k \<le> 627" using k(1) by simp_all
  then obtain b' where b': "descend (?l + (628 - ?l)) h (hf_son h 626) b = descend (628 - ?l) h (hf_son h ?k) b'" "in_ok b'" "in_bits b' = rest"
    using descend_path [OF links, of ?k 627 b rest "628 - ?l"] b by (auto simp: huff_code_def)
  moreover have "?l + (628 - ?l) = 628" using l by simp
  moreover have "descend (628 - ?l) h (c + 627) b' = Inr (c + 627, b')"
  proof -
    have "628 - ?l = Suc (627 - ?l)" using l by simp
    then show ?thesis by simp
  qed
  ultimately show ?thesis using k(2) h' by (simp add: decode_char_def)
qed

end
