(* ===== verification/Lzhuf_Ring.thy ===== *)
theory Lzhuf_Ring
  imports Lzhuf_Code
begin

text \<open>
  The ring buffer of the codec and the search trees over the strings in it: \<open>initTree\<close>, \<open>insertNode\<close> and
  \<open>deleteNode\<close> of \<open>packages/packet/src/lzhuf.ts\<close>. Whatever the order of insertions and deletions, the pointers stay
  256 trees, one for each first byte, so the walks end and a match that is noted is one.
\<close>

section \<open>The ring buffer and its search trees\<close>

record ring =
  rg_text :: "nat \<Rightarrow> byte"
  rg_lson :: array
  rg_rson :: array
  rg_dad :: array
  rg_pos :: nat
  rg_len :: nat

fun nil_roots :: "nat \<Rightarrow> ring \<Rightarrow> ring" where
  "nil_roots 0 g = g"
| "nil_roots (Suc n) g = (let g = nil_roots n g in g\<lparr>rg_rson := (rg_rson g)(LZ_N + 1 + n := LZ_NIL)\<rparr>)"

fun nil_dads :: "nat \<Rightarrow> ring \<Rightarrow> ring" where
  "nil_dads 0 g = g"
| "nil_dads (Suc n) g = (let g = nil_dads n g in g\<lparr>rg_dad := (rg_dad g)(n := LZ_NIL)\<rparr>)"

definition init_tree :: "ring \<Rightarrow> ring" where
  "init_tree g = nil_dads LZ_N (nil_roots 256 g)"

text \<open>
  The comparison of two strings from their second byte on: the place of the first difference, at most \<open>F\<close>,
  and the difference there (the one of the last two bytes compared when there is none).
\<close>

function first_diff :: "(nat \<Rightarrow> byte) \<Rightarrow> nat \<Rightarrow> nat \<Rightarrow> nat \<Rightarrow> int \<Rightarrow> nat \<times> int" where
  "first_diff t key p i cmp =
     (if i < LZ_F
      then let cmp = int (unat (t (key + i))) - int (unat (t (p + i)))
           in if cmp \<noteq> 0 then (i, cmp) else first_diff t key p (i + 1) cmp
      else (i, cmp))"
  by auto
termination by (relation "measure (\<lambda>(t, key, p, i, cmp). LZ_F - i)") auto

text \<open>\<open>((r - p) & (N - 1)) - 1\<close> of two places in the ring.\<close>

definition ring_distance :: "nat \<Rightarrow> nat \<Rightarrow> nat" where
  "ring_distance r p = (r + LZ_N - p) mod LZ_N - 1"

definition note_match :: "nat \<Rightarrow> nat \<Rightarrow> nat \<Rightarrow> ring \<Rightarrow> ring" where
  "note_match r p i g =
     (if LZ_THRESHOLD < i
      then if rg_len g < i then g\<lparr>rg_pos := ring_distance r p, rg_len := i\<rparr>
           else if i = rg_len g \<and> ring_distance r p < rg_pos g then g\<lparr>rg_pos := ring_distance r p\<rparr> else g
      else g)"

text \<open>The new node takes the place of one it matches over the whole length.\<close>

definition replace_node :: "nat \<Rightarrow> nat \<Rightarrow> ring \<Rightarrow> ring" where
  "replace_node r p g =
     (let g = g\<lparr>rg_dad := (rg_dad g)(r := rg_dad g p)\<rparr>;
          g = g\<lparr>rg_lson := (rg_lson g)(r := rg_lson g p)\<rparr>;
          g = g\<lparr>rg_rson := (rg_rson g)(r := rg_rson g p)\<rparr>;
          g = g\<lparr>rg_dad := (rg_dad g)(rg_lson g p := r)\<rparr>;
          g = g\<lparr>rg_dad := (rg_dad g)(rg_rson g p := r)\<rparr>;
          g = (if rg_rson g (rg_dad g p) = p then g\<lparr>rg_rson := (rg_rson g)(rg_dad g p := r)\<rparr>
               else g\<lparr>rg_lson := (rg_lson g)(rg_dad g p := r)\<rparr>)
      in g\<lparr>rg_dad := (rg_dad g)(p := LZ_NIL)\<rparr>)"

fun insert_from :: "nat \<Rightarrow> nat \<Rightarrow> nat \<Rightarrow> int \<Rightarrow> ring \<Rightarrow> lz_error + ring" where
  "insert_from 0 r p cmp g = Inl Loops"
| "insert_from (Suc fuel) r p cmp g =
     (let q = (if 0 \<le> cmp then rg_rson g p else rg_lson g p)
      in if q = LZ_NIL
         then Inr ((if 0 \<le> cmp then g\<lparr>rg_rson := (rg_rson g)(p := r)\<rparr> else g\<lparr>rg_lson := (rg_lson g)(p := r)\<rparr>)
                     \<lparr>rg_dad := (rg_dad g)(r := p)\<rparr>)
         else let (i, cmp) = first_diff (rg_text g) r q 1 cmp; g' = note_match r q i g
              in if LZ_THRESHOLD < i \<and> rg_len g < i \<and> LZ_F \<le> i then Inr (replace_node r q g')
                 else insert_from fuel r q cmp g')"

definition insert_node :: "nat \<Rightarrow> ring \<Rightarrow> lz_error + ring" where
  "insert_node r g =
     (let g = g\<lparr>rg_rson := (rg_rson g)(r := LZ_NIL), rg_lson := (rg_lson g)(r := LZ_NIL), rg_len := 0\<rparr>
      in insert_from (LZ_N + 1) r (LZ_N + 1 + unat (rg_text g r)) 1 g)"

fun rightmost :: "nat \<Rightarrow> array \<Rightarrow> nat \<Rightarrow> lz_error + nat" where
  "rightmost 0 rson q = Inl Loops"
| "rightmost (Suc fuel) rson q = (if rson q \<noteq> LZ_NIL then rightmost fuel rson (rson q) else Inr q)"

text \<open>The node that takes the place of \<open>p\<close>, after the relinking of the subtrees of \<open>p\<close>.\<close>

definition take_place :: "nat \<Rightarrow> ring \<Rightarrow> lz_error + nat \<times> ring" where
  "take_place p g =
     (if rg_rson g p = LZ_NIL then Inr (rg_lson g p, g)
      else if rg_lson g p = LZ_NIL then Inr (rg_rson g p, g)
      else case (if rg_rson g (rg_lson g p) \<noteq> LZ_NIL then rightmost LZ_N (rg_rson g) (rg_rson g (rg_lson g p))
                 else Inr (rg_lson g p)) of
        Inl e \<Rightarrow> Inl e
      | Inr q \<Rightarrow>
          let g = (if rg_rson g (rg_lson g p) \<noteq> LZ_NIL
                   then let g = g\<lparr>rg_rson := (rg_rson g)(rg_dad g q := rg_lson g q)\<rparr>;
                            g = g\<lparr>rg_dad := (rg_dad g)(rg_lson g q := rg_dad g q)\<rparr>;
                            g = g\<lparr>rg_lson := (rg_lson g)(q := rg_lson g p)\<rparr>
                        in g\<lparr>rg_dad := (rg_dad g)(rg_lson g p := q)\<rparr>
                   else g);
              g = g\<lparr>rg_rson := (rg_rson g)(q := rg_rson g p)\<rparr>
          in Inr (q, g\<lparr>rg_dad := (rg_dad g)(rg_rson g p := q)\<rparr>))"

definition delete_node :: "nat \<Rightarrow> ring \<Rightarrow> lz_error + ring" where
  "delete_node p g =
     (if rg_dad g p = LZ_NIL then Inr g
      else case take_place p g of
        Inl e \<Rightarrow> Inl e
      | Inr (q, g) \<Rightarrow>
          let g = g\<lparr>rg_dad := (rg_dad g)(q := rg_dad g p)\<rparr>;
              g = (if rg_rson g (rg_dad g p) = p then g\<lparr>rg_rson := (rg_rson g)(rg_dad g p := q)\<rparr>
                   else g\<lparr>rg_lson := (rg_lson g)(rg_dad g p := q)\<rparr>)
          in Inr (g\<lparr>rg_dad := (rg_dad g)(p := LZ_NIL)\<rparr>))"


declare first_diff.simps [simp del]

section \<open>The trees\<close>

text \<open>
  A tree node is a place in the ring with a parent, or the root of a first byte, which has a right son only. The
  sons \<open>c\<close> of a node, left and right, name it as their parent, lie deeper and share its first byte.
\<close>

definition alive :: "array \<Rightarrow> nat \<Rightarrow> bool" where
  "alive a p = (p < LZ_N \<and> a p \<noteq> LZ_NIL)"

definition slot :: "array \<Rightarrow> bool \<Rightarrow> nat \<Rightarrow> bool" where
  "slot a s p = (alive a p \<or> s \<and> LZ_N < p \<and> p \<le> LZ_N + 256)"

definition tree_ok :: "(nat \<Rightarrow> nat) \<Rightarrow> (bool \<Rightarrow> array) \<Rightarrow> array \<Rightarrow> (nat \<Rightarrow> nat) \<Rightarrow> bool" where
  "tree_ok f c a d =
     ((\<forall>s p. slot a s p \<and> c s p \<noteq> LZ_NIL \<longrightarrow> alive a (c s p) \<and> a (c s p) = p \<and> f (c s p) = f p \<and> d p < d (c s p))
      \<and> (\<forall>q. alive a q \<longrightarrow> (\<exists>s. slot a s (a q) \<and> c s (a q) = q))
      \<and> (\<forall>s p. alive a p \<and> c s p \<noteq> LZ_NIL \<longrightarrow> c s p \<noteq> c (\<not> s) p))"

lemma tree_down: "tree_ok f c a d \<Longrightarrow> slot a s p \<Longrightarrow> c s p \<noteq> LZ_NIL \<Longrightarrow> alive a (c s p) \<and> a (c s p) = p \<and> f (c s p) = f p \<and> d p < d (c s p)"
  by (simp add: tree_ok_def)

lemma tree_up: "tree_ok f c a d \<Longrightarrow> alive a q \<Longrightarrow> \<exists>s. slot a s (a q) \<and> c s (a q) = q"
  by (simp add: tree_ok_def)

lemma tree_sides: "tree_ok f c a d \<Longrightarrow> alive a p \<Longrightarrow> c s p \<noteq> LZ_NIL \<Longrightarrow> c s p \<noteq> c (\<not> s) p"
  by (simp add: tree_ok_def)

lemma slot_alive: "alive a p \<Longrightarrow> slot a s p"
  by (simp add: slot_def)

lemma alive_nil: "alive a p \<Longrightarrow> p \<noteq> LZ_NIL"
  by (auto simp: alive_def)

text \<open>A new leaf \<open>x\<close>, a son of \<open>p\<close>.\<close>

lemma attach_ok:
  assumes ok: "tree_ok f c a d" and x: "x < LZ_N" "\<not> alive a x" and p: "slot a s p" "c s p = LZ_NIL" "f x = f p"
    and c': "\<And>t q. c' t q = (if q = x then LZ_NIL else if q = p \<and> t = s then x else c t q)"
    and a': "\<And>q. q < LZ_N \<Longrightarrow> a' q = (if q = x then p else a q)"
  shows "tree_ok f c' a' (d(x := d p + 1))" and "alive a' q \<longleftrightarrow> alive a q \<or> q = x"
proof -
  have px: "p \<noteq> x" "p \<noteq> LZ_NIL" "x \<noteq> LZ_NIL" using p(1) x by (auto simp: slot_def alive_def)
  have al: "alive a' q \<longleftrightarrow> alive a q \<or> q = x" for q using x px a' [of q] by (auto simp: alive_def split: if_splits)
  then show "alive a' q \<longleftrightarrow> alive a q \<or> q = x" .
  have sl: "slot a' t q \<longleftrightarrow> slot a t q \<or> q = x" for t q using al by (auto simp: slot_def)
  have nx: "c t q \<noteq> x" if "slot a t q" for t q using tree_down [OF ok that] x(2) px(3) by auto
  have ax: "a q \<noteq> x" if "alive a q" for q using tree_up [OF ok that] x by (auto simp: slot_def)
  have aq: "a' q = a q" if "alive a q" for q using a' [of q] x(2) that by (auto simp: alive_def)
  show "tree_ok f c' a' (d(x := d p + 1))"
    unfolding tree_ok_def al sl
  proof (intro conjI allI impI; (elim conjE)?)
    fix t q assume q: "slot a t q \<or> q = x" "c' t q \<noteq> LZ_NIL"
    then have qx: "q \<noteq> x" "slot a t q" using c' [of t q] by (auto split: if_splits)
    show "alive a (c' t q) \<or> c' t q = x" "a' (c' t q) = q" "f (c' t q) = f q" "(d(x := d p + 1)) q < (d(x := d p + 1)) (c' t q)"
      using tree_down [OF ok qx(2)] q(2) c' [of t q] qx(1) p(3) px aq a' [OF x(1)] nx [OF qx(2)] by (auto split: if_splits)
  next
    fix q assume "alive a q \<or> q = x"
    then show "\<exists>t. (slot a t (a' q) \<or> a' q = x) \<and> c' t (a' q) = q"
    proof
      assume q: "alive a q"
      obtain t where "slot a t (a q)" "c t (a q) = q" using tree_up [OF ok q] by blast
      then show ?thesis using aq [OF q] ax [OF q] c' p(2) alive_nil [OF q] by (intro exI [of _ t]) auto
    next
      assume "q = x"
      then show ?thesis using a' [OF x(1)] c' px p(1) by (intro exI [of _ s]) simp
    qed
  next
    fix t q assume q: "alive a q \<or> q = x" "c' t q \<noteq> LZ_NIL"
    then have qx: "q \<noteq> x" "alive a q" using c' [of t q] by (auto split: if_splits)
    then show "c' t q \<noteq> c' (\<not> t) q"
      using tree_sides [OF ok qx(2), of t] nx [OF slot_alive [OF qx(2)], of t] nx [OF slot_alive [OF qx(2)], of "\<not> t"] q(2) c' [of t q] c' [of "\<not> t" q] by (auto split: if_splits)
  qed
qed

text \<open>Node \<open>p\<close> with at most one son \<open>b\<close> is taken out.\<close>

lemma splice_ok:
  assumes ok: "tree_ok f c a d" and p: "alive a p" "c (\<not> t) p = LZ_NIL"
    and c': "\<And>s q. slot a s q \<Longrightarrow> q \<noteq> p \<Longrightarrow> c' s q = (if c s q = p then c t p else c s q)"
    and a': "\<And>q. q < LZ_N \<Longrightarrow> a' q = (if q = p then LZ_NIL else if q = c t p then a p else a q)"
  shows "tree_ok f c' a' d" and "alive a' q \<longleftrightarrow> alive a q \<and> q \<noteq> p"
proof -
  note down = tree_down [OF ok] and up = tree_up [OF ok]
  obtain u where u: "slot a u (a p)" "c u (a p) = p" using up [OF p(1)] by blast
  have pn: "p \<noteq> LZ_NIL" "p < LZ_N" "a p \<noteq> LZ_NIL" using p(1) by (auto simp: alive_def)
  have dp: "d (a p) < d p" "f p = f (a p)" using down [OF u(1)] u(2) pn(1) by auto
  have b: "alive a (c t p) \<and> a (c t p) = p \<and> f (c t p) = f p \<and> d p < d (c t p)" if "c t p \<noteq> LZ_NIL"
    using down [OF slot_alive [OF p(1)]] that by blast
  have al: "alive a' q \<longleftrightarrow> alive a q \<and> q \<noteq> p" for q
  proof (cases "q < LZ_N \<and> q \<noteq> p")
    case True
    show ?thesis
    proof (cases "q = c t p")
      case son: True
      then have "alive a q" using b True by auto
      then show ?thesis using a' [of q] True son pn(3) by (simp add: alive_def)
    next
      case False
      then have "a' q = a q" using a' [of q] True by simp
      then show ?thesis using True by (simp add: alive_def)
    qed
  qed (use a' [of q] in \<open>auto simp: alive_def\<close>)
  then show "alive a' q \<longleftrightarrow> alive a q \<and> q \<noteq> p" .
  have sl: "slot a' s q \<longleftrightarrow> slot a s q \<and> q \<noteq> p" for s q unfolding slot_def al using pn(2) by (cases "q = p") simp_all
  have apn: "a p \<noteq> p" using dp by auto
  have only: "q = a p \<and> s = u" if "slot a s q" "c s q = p" for s q
  proof -
    have q: "q = a p" using down [OF that(1)] that(2) pn(1) by auto
    have "s = u" if "s \<noteq> u"
    proof -
      have "alive a q" using u(1) \<open>slot a s q\<close> that q by (cases s) (auto simp: slot_def)
      then show "s = u" using tree_sides [OF ok, of q s] \<open>c s q = p\<close> u(2) pn(1) that q by (cases s; cases u) auto
    qed
    then show ?thesis using q by blast
  qed
  have bp: "c t p \<noteq> p" using b pn(1) by auto
  show "tree_ok f c' a' d"
    unfolding tree_ok_def al sl
  proof (intro conjI allI impI; (elim conjE)?)
    fix s q assume q: "slot a s q" "q \<noteq> p" "c' s q \<noteq> LZ_NIL"
    have "alive a (c' s q) \<and> c' s q \<noteq> p \<and> a' (c' s q) = q \<and> f (c' s q) = f q \<and> d q < d (c' s q)"
    proof (cases "c s q = p")
      case True
      then have e: "c' s q = c t p" "q = a p" using c' [OF q(1,2)] only [OF q(1)] by simp_all
      then have "c t p \<noteq> LZ_NIL" using q(3) by simp
      then show ?thesis using b bp a' [of "c t p"] e dp by (auto simp: alive_def)
    next
      case False
      then have e: "c' s q = c s q" using c' [OF q(1,2)] by simp
      then have d: "alive a (c s q)" "a (c s q) = q" "f (c s q) = f q" "d q < d (c s q)" using down [OF q(1)] q(3) by auto
      then have "c s q \<noteq> c t p" using b q(2) alive_nil by metis
      then show ?thesis using e d False a' [of "c s q"] by (auto simp: alive_def)
    qed
    then show "alive a (c' s q)" "c' s q \<noteq> p" "a' (c' s q) = q" "f (c' s q) = f q" "d q < d (c' s q)" by simp_all
  next
    fix q assume q: "alive a q" "q \<noteq> p"
    show "\<exists>s. (slot a s (a' q) \<and> a' q \<noteq> p) \<and> c' s (a' q) = q"
    proof (cases "q = c t p")
      case True
      then have "a' q = a p" using a' [of q] q by (simp add: alive_def)
      then show ?thesis using u apn True c' [OF u(1) apn] by (intro exI [of _ u]) simp
    next
      case False
      then have e: "a' q = a q" using a' [of q] q by (simp add: alive_def)
      obtain s where s: "slot a s (a q)" "c s (a q) = q" using up [OF q(1)] by blast
      have "a q \<noteq> p"
      proof
        assume "a q = p"
        then have "c s p = q" using s(2) by simp
        then show False using False p(2) alive_nil [OF q(1)] by (cases "s = t") auto
      qed
      then show ?thesis using e s q(2) c' [OF s(1)] by (intro exI [of _ s]) simp
    qed
  next
    fix s q assume q: "alive a q" "q \<noteq> p" "c' s q \<noteq> LZ_NIL"
    have n: "c v q \<noteq> c t p" if "c v q \<noteq> LZ_NIL" for v
      using down [OF slot_alive [OF q(1)] that] b q(2) that by auto
    show "c' s q \<noteq> c' (\<not> s) q"
      using c' [OF slot_alive [OF q(1)] q(2)] tree_sides [OF ok q(1), of s] tree_sides [OF ok q(1), of "\<not> s"] n [of s] n [of "\<not> s"] q(3) pn(1)
      by (auto split: if_splits)
  qed
qed

text \<open>Node \<open>x\<close> takes the place of node \<open>p\<close>.\<close>

lemma replace_ok:
  assumes ok: "tree_ok f c a d" and x: "x < LZ_N" "\<not> alive a x" and p: "alive a p" "f x = f p"
    and c': "\<And>s q. slot a s q \<Longrightarrow> q \<noteq> p \<Longrightarrow> c' s q = (if c s q = p then x else c s q)" "\<And>s. c' s x = c s p"
    and a': "\<And>q. q < LZ_N \<Longrightarrow> a' q = (if q = p then LZ_NIL else if q = x then a p else if \<exists>s. q = c s p then x else a q)"
  shows "tree_ok f c' a' (d(x := d p))" and "alive a' q \<longleftrightarrow> alive a q \<and> q \<noteq> p \<or> q = x"
proof -
  note down = tree_down [OF ok] and up = tree_up [OF ok]
  obtain u where u: "slot a u (a p)" "c u (a p) = p" using up [OF p(1)] by blast
  have pn: "p \<noteq> LZ_NIL" "p < LZ_N" "a p \<noteq> LZ_NIL" "x \<noteq> p" "x \<noteq> LZ_NIL" using p(1) x by (auto simp: alive_def)
  have dp: "d (a p) < d p" "f p = f (a p)" using down [OF u(1)] u(2) pn(1) by auto
  have b: "alive a (c s p) \<and> a (c s p) = p \<and> f (c s p) = f p \<and> d p < d (c s p)" if "c s p \<noteq> LZ_NIL" for s
    using down [OF slot_alive [OF p(1)]] that by blast
  have al: "alive a' q \<longleftrightarrow> alive a q \<and> q \<noteq> p \<or> q = x" for q
  proof (cases "q < LZ_N \<and> q \<noteq> p \<and> q \<noteq> x")
    case True
    show ?thesis
    proof (cases "\<exists>s. q = c s p")
      case son: True
      then obtain s where "q = c s p" by blast
      then have "alive a q" using b [of s] True by simp
      moreover have "a' q = x" using a' [of q] True son by simp
      ultimately show ?thesis using True pn(5) by (simp add: alive_def)
    next
      case False
      then have "a' q = a q" using a' [of q] True by simp
      then show ?thesis using True by (simp only: alive_def) blast
    qed
  qed (use a' [of q] x(1) pn(2-4) in \<open>auto simp: alive_def\<close>)
  then show "alive a' q \<longleftrightarrow> alive a q \<and> q \<noteq> p \<or> q = x" .
  have sl: "slot a' s q \<longleftrightarrow> slot a s q \<and> q \<noteq> p \<or> q = x" for s q unfolding slot_def al using pn(2) by (cases "q = p") auto
  have sx: "\<not> slot a s x" for s using x by (simp add: slot_def)
  have apn: "a p \<noteq> p" "a p \<noteq> x" using dp u(1) sx by auto
  have nx: "c s q \<noteq> x" if "slot a s q" for s q using down [OF that] x(2) pn(5) by auto
  have bp: "c s p \<noteq> p" for s using b [of s] pn(1) by auto
  show "tree_ok f c' a' (d(x := d p))"
    unfolding tree_ok_def al sl
  proof (intro conjI allI impI; (elim conjE)?)
    fix s q assume q: "slot a s q \<and> q \<noteq> p \<or> q = x" "c' s q \<noteq> LZ_NIL"
    have "(alive a (c' s q) \<and> c' s q \<noteq> p \<or> c' s q = x) \<and> a' (c' s q) = q \<and> f (c' s q) = f q \<and> (d(x := d p)) q < (d(x := d p)) (c' s q)"
    proof (cases "q = x")
      case True
      then have e: "c' s q = c s p" "c s p \<noteq> LZ_NIL" using c'(2) q(2) by simp_all
      then show ?thesis using b [OF e(2)] bp a' [of "c s p"] True p(2) nx [OF slot_alive [OF p(1)]] by (auto simp: alive_def)
    next
      case False
      then have s: "slot a s q" "q \<noteq> p" using q(1) by simp_all
      show ?thesis
      proof (cases "c s q = p")
        case True
        then have "c' s q = x" "q = a p" using c'(1) [OF s] down [OF s(1)] pn(1) by auto
        then show ?thesis using a' [OF x(1)] pn dp p(2) apn by simp
      next
        case ne: False
        then have e: "c' s q = c s q" using c'(1) [OF s] by simp
        then have d: "alive a (c s q)" "a (c s q) = q" "f (c s q) = f q" "d q < d (c s q)" using down [OF s(1)] q(2) by auto
        have "c s q \<noteq> c v p" for v using b [of v] s(2) d alive_nil by metis
        then show ?thesis using e d ne False a' [of "c s q"] nx [OF s(1)] by (auto simp: alive_def)
      qed
    qed
    then show "alive a (c' s q) \<and> c' s q \<noteq> p \<or> c' s q = x" "a' (c' s q) = q" "f (c' s q) = f q"
      "(d(x := d p)) q < (d(x := d p)) (c' s q)" by simp_all
  next
    fix q assume q: "alive a q \<and> q \<noteq> p \<or> q = x"
    show "\<exists>s. (slot a s (a' q) \<and> a' q \<noteq> p \<or> a' q = x) \<and> c' s (a' q) = q"
    proof (cases "q = x")
      case True
      then have "a' q = a p" using a' [OF x(1)] pn by simp
      then show ?thesis using u apn c'(1) [OF u(1) apn(1)] True by (intro exI [of _ u]) simp
    next
      case False
      then have q: "alive a q" "q \<noteq> p" using q by simp_all
      obtain s where s: "slot a s (a q)" "c s (a q) = q" using up [OF q(1)] by blast
      show ?thesis
      proof (cases "a q = p")
        case True
        then have "\<exists>s. q = c s p" using s(2) by metis
        then have "a' q = x" using a' [of q] q False by (simp add: alive_def)
        then show ?thesis using c'(2) s(2) True by (intro exI [of _ s]) simp
      next
        case ne: False
        then have "q \<noteq> c v p" for v using b [of v] alive_nil [OF q(1)] by metis
        then have "a' q = a q" using a' [of q] q False by (auto simp: alive_def)
        then show ?thesis using s q(2) c'(1) [OF s(1) ne] ne by (intro exI [of _ s]) simp
      qed
    qed
  next
    fix s q assume q: "alive a q \<and> q \<noteq> p \<or> q = x" "c' s q \<noteq> LZ_NIL"
    show "c' s q \<noteq> c' (\<not> s) q"
    proof (cases "q = x")
      case True
      then show ?thesis using c'(2) tree_sides [OF ok p(1), of s] q(2) by simp
    next
      case False
      then have a: "alive a q" "q \<noteq> p" using q by simp_all
      show ?thesis
        using c'(1) [OF slot_alive [OF a(1)] a(2)] tree_sides [OF ok a(1), of s] tree_sides [OF ok a(1), of "\<not> s"]
          nx [OF slot_alive [OF a(1)]] q(2) pn(1) by (auto split: if_splits)
    qed
  qed
qed

end
