(* ===== verification/Lzhuf_Match.thy ===== *)
theory Lzhuf_Match
  imports Lzhuf_Ring
begin

text \<open>
  Insertion and deletion of the strings of the ring: each keeps the search trees in shape and returns, and a
  match that insertion notes holds a string equal to the one inserted, over the length noted.
\<close>

section \<open>The trees of a ring\<close>

text \<open>The first byte of a string, or the byte of a root.\<close>

definition first_byte :: "(nat \<Rightarrow> byte) \<Rightarrow> nat \<Rightarrow> nat" where
  "first_byte t p = (if p < LZ_N then unat (t p) else p - (LZ_N + 1))"

definition sons :: "ring \<Rightarrow> bool \<Rightarrow> array" where
  "sons g s = (if s then rg_rson g else rg_lson g)"

definition ring_ok :: "(nat \<Rightarrow> nat) \<Rightarrow> ring \<Rightarrow> bool" where
  "ring_ok d g = tree_ok (first_byte (rg_text g)) (sons g) (rg_dad g) d"

abbreviation in_tree :: "ring \<Rightarrow> nat \<Rightarrow> bool" where
  "in_tree g \<equiv> alive (rg_dad g)"

text \<open>The one place that names a node.\<close>

lemma parent_side:
  assumes ok: "tree_ok f c a d" and p: "alive a p" and q: "slot a s q"
  shows "c s q = p \<longleftrightarrow> q = a p \<and> s = (c True (a p) = p)"
proof -
  obtain u where u: "slot a u (a p)" "c u (a p) = p" using tree_up [OF ok p] by blast
  have pn: "p \<noteq> LZ_NIL" using p by (rule alive_nil)
  have both: "\<not> (c True (a p) = p \<and> c False (a p) = p)" if "alive a (a p)"
    using tree_sides [OF ok that, of True] pn by auto
  show ?thesis
  proof
    assume c: "c s q = p"
    then have e: "q = a p" using tree_down [OF ok q] pn by auto
    have "alive a (a p)" if "\<not> s" using q e that by (simp add: slot_def)
    then show "q = a p \<and> s = (c True (a p) = p)" using c e both by (cases s) auto
  next
    assume e: "q = a p \<and> s = (c True (a p) = p)"
    then show "c s q = p" using u(2) by (cases s; cases u) auto
  qed
qed

lemma parent_apart: "tree_ok f c a d \<Longrightarrow> alive a p \<Longrightarrow> d (a p) < d p \<and> f p = f (a p) \<and> a p \<noteq> LZ_NIL"
  using tree_up [of f c a d p] tree_down [of f c a d] alive_nil [of a p] by (metis alive_def)

section \<open>Walks downwards\<close>

definition deeper :: "array \<Rightarrow> (nat \<Rightarrow> nat) \<Rightarrow> nat \<Rightarrow> nat set" where
  "deeper a d p = {y. alive a y \<and> d p < d y}"

lemma deeper_finite: "finite (deeper a d p)" "card (deeper a d p) \<le> LZ_N"
proof -
  have "deeper a d p \<subseteq> {..<LZ_N}" by (auto simp: deeper_def alive_def)
  then show "finite (deeper a d p)" "card (deeper a d p) \<le> LZ_N" using finite_subset [of _ "{..<LZ_N}"] card_mono [of "{..<LZ_N}"] by auto
qed

lemma deeper_less: "alive a q \<Longrightarrow> d p < d q \<Longrightarrow> card (deeper a d q) < card (deeper a d p)"
  by (rule psubset_card_mono [OF deeper_finite(1)]) (auto simp: deeper_def)

lemma deeper_alive: "alive a q \<Longrightarrow> card (deeper a d q) < LZ_N"
proof -
  assume q: "alive a q"
  then have "deeper a d q \<subseteq> {..<LZ_N} - {q}" by (auto simp: deeper_def alive_def)
  then have "card (deeper a d q) \<le> card ({..<LZ_N} - {q})" by (intro card_mono) simp_all
  also have "\<dots> < LZ_N" using q by (simp add: alive_def)
  finally show ?thesis .
qed

lemma rightmost_spec:
  assumes ok: "tree_ok f c a d"
  shows "alive a q \<Longrightarrow> c True (a q) = q \<Longrightarrow> slot a True (a q) \<Longrightarrow> card (deeper a d q) < fuel \<Longrightarrow>
    \<exists>q'. rightmost fuel (c True) q = Inr q' \<and> alive a q' \<and> c True q' = LZ_NIL \<and> c True (a q') = q' \<and> slot a True (a q')
      \<and> f q' = f q \<and> d (a q) \<le> d (a q')"
proof (induction fuel arbitrary: q)
  case (Suc fuel)
  show ?case
  proof (cases "c True q = LZ_NIL")
    case True
    then show ?thesis using Suc.prems by auto
  next
    case False
    let ?n = "c True q"
    have n: "alive a ?n" "a ?n = q" "f ?n = f q" "d q < d ?n" using tree_down [OF ok slot_alive [OF Suc.prems(1)] False] by simp_all
    have "card (deeper a d ?n) < fuel" using deeper_less [OF n(1,4)] Suc.prems(4) by simp
    then obtain q' where q': "rightmost fuel (c True) ?n = Inr q'" "alive a q'" "c True q' = LZ_NIL" "c True (a q') = q'"
      "slot a True (a q')" "f q' = f ?n" "d (a ?n) \<le> d (a q')"
      using Suc.IH [OF n(1)] n(2) slot_alive [OF Suc.prems(1)] by auto
    have "d (a q) < d q" using parent_apart [OF ok Suc.prems(1)] by simp
    then show ?thesis using q' n False by auto
  qed
qed simp

section \<open>Taking a string out\<close>

definition put_at :: "nat \<Rightarrow> nat \<Rightarrow> ring \<Rightarrow> ring" where
  "put_at p q g =
     (if rg_rson g (rg_dad g p) = p then g\<lparr>rg_rson := (rg_rson g)(rg_dad g p := q)\<rparr>
      else g\<lparr>rg_lson := (rg_lson g)(rg_dad g p := q)\<rparr>)"

lemma put_at_facts [simp]:
  "rg_dad (put_at p q g) = rg_dad g" "rg_text (put_at p q g) = rg_text g" "rg_pos (put_at p q g) = rg_pos g" "rg_len (put_at p q g) = rg_len g"
  "sons (put_at p q g) s x = (if x = rg_dad g p \<and> s = (sons g True (rg_dad g p) = p) then q else sons g s x)"
  by (auto simp: put_at_def sons_def)

lemma ring_splice:
  assumes ok: "ring_ok d g" and p: "in_tree g p" and one: "sons g (\<not> t) p = LZ_NIL"
    and a': "\<And>q. q < LZ_N \<Longrightarrow> rg_dad g' q = (if q = p then LZ_NIL else if q = sons g t p then rg_dad g p else rg_dad g q)"
    and c': "\<And>s q. sons g' s q = (if q = rg_dad g p \<and> s = (sons g True (rg_dad g p) = p) then sons g t p else sons g s q)"
    and same: "rg_text g' = rg_text g"
  shows "ring_ok d g' \<and> (\<forall>q. in_tree g' q \<longleftrightarrow> in_tree g q \<and> q \<noteq> p)"
proof -
  have tr: "tree_ok (first_byte (rg_text g)) (sons g) (rg_dad g) d" using ok by (simp add: ring_ok_def)
  have "sons g' s q = (if sons g s q = p then sons g t p else sons g s q)" if "slot (rg_dad g) s q" for s q
    using parent_side [OF tr p that] c' [of s q] by auto
  then show ?thesis
    unfolding ring_ok_def same using splice_ok [OF tr p one _ a', of "sons g'"] by blast
qed

definition closed_up :: "nat \<Rightarrow> nat \<Rightarrow> ring \<Rightarrow> ring" where
  "closed_up p q g =
     (let g = put_at p q (g\<lparr>rg_dad := (rg_dad g)(q := rg_dad g p)\<rparr>) in g\<lparr>rg_dad := (rg_dad g)(p := LZ_NIL)\<rparr>)"

lemma delete_node_steps:
  "delete_node p g = (if rg_dad g p = LZ_NIL then Inr g else case take_place p g of Inl e \<Rightarrow> Inl e | Inr (q, g) \<Rightarrow> Inr (closed_up p q g))"
  by (auto simp: delete_node_def closed_up_def put_at_def Let_def split: sum.splits)

lemma closed_up_facts [simp]:
  "rg_text (closed_up p q g) = rg_text g" "rg_pos (closed_up p q g) = rg_pos g" "rg_len (closed_up p q g) = rg_len g"
  by (simp_all add: closed_up_def Let_def)

lemma sons_dad [simp]: "sons (g\<lparr>rg_dad := a\<rparr>) = sons g"
  by (simp add: sons_def fun_eq_iff)

lemma closed_up_sons:
  "q \<noteq> p \<Longrightarrow> sons (closed_up p q g) s x = (if x = rg_dad g p \<and> s = (sons g True (rg_dad g p) = p) then q else sons g s x)"
  by (simp add: closed_up_def Let_def)

lemma closed_up_dad: "q \<noteq> p \<Longrightarrow> rg_dad (closed_up p q g) x = (if x = p then LZ_NIL else if x = q then rg_dad g p else rg_dad g x)"
  by (simp add: closed_up_def Let_def)

lemma son_apart:
  "tree_ok f c a d \<Longrightarrow> alive a p \<Longrightarrow> c s p \<noteq> p"
  using tree_down [of f c a d s p] slot_alive [of a p s] alive_nil [of a p] by (cases "c s p = LZ_NIL") auto

lemma delete_simple:
  assumes ok: "ring_ok d g" and p: "in_tree g p" and one: "sons g (\<not> t) p = LZ_NIL"
  shows "ring_ok d (closed_up p (sons g t p) g) \<and> (\<forall>q. in_tree (closed_up p (sons g t p) g) q \<longleftrightarrow> in_tree g q \<and> q \<noteq> p)"
proof (rule ring_splice [OF ok p one])
  have np: "sons g t p \<noteq> p" using ok p by (auto simp: ring_ok_def dest: son_apart)
  show "rg_dad (closed_up p (sons g t p) g) q = (if q = p then LZ_NIL else if q = sons g t p then rg_dad g p else rg_dad g q)" for q
    by (rule closed_up_dad [OF np])
  show "sons (closed_up p (sons g t p) g) s q = (if q = rg_dad g p \<and> s = (sons g True (rg_dad g p) = p) then sons g t p else sons g s q)" for s q
    by (rule closed_up_sons [OF np])
qed simp

text \<open>Node \<open>q\<close> without a right son, below the left son of \<open>p\<close> or that son itself, is taken out and takes the place of \<open>p\<close>.\<close>

lemma ring_move:
  assumes ok: "ring_ok d g" and p: "in_tree g p" and q: "in_tree g q" "sons g True q = LZ_NIL" "d p < d q"
      "first_byte (rg_text g) q = first_byte (rg_text g) p"
    and c': "\<And>s x. slot (rg_dad g) s x \<Longrightarrow> x \<noteq> p \<Longrightarrow> x \<noteq> q \<Longrightarrow>
        sons g' s x = (if sons g s x = q then sons g False q else if sons g s x = p then q else sons g s x)"
      "\<And>s. sons g' s q = (if sons g s p = q then sons g False q else sons g s p)"
    and a': "\<And>x. x < LZ_N \<Longrightarrow> rg_dad g' x = (if x = p then LZ_NIL else if x = q then rg_dad g p
        else if x = sons g False q then (if rg_dad g q = p then q else rg_dad g q)
        else if \<exists>s. x = sons g s p then q else rg_dad g x)"
    and same: "rg_text g' = rg_text g"
  shows "\<exists>d'. ring_ok d' g' \<and> (\<forall>x. in_tree g' x \<longleftrightarrow> in_tree g x \<and> x \<noteq> p)"
proof -
  let ?f = "first_byte (rg_text g)" and ?c = "sons g" and ?a = "rg_dad g"
  have tr: "tree_ok ?f ?c ?a d" using ok by (simp add: ring_ok_def)
  define b where "b = ?c False q"
  define c1 where "c1 = (\<lambda>s x. if ?c s x = q then b else ?c s x)"
  define a1 where "a1 = (\<lambda>x. if x = q then LZ_NIL else if x = b then ?a q else ?a x)"
  have s1: "tree_ok ?f c1 a1 d" "\<And>x. alive a1 x \<longleftrightarrow> alive ?a x \<and> x \<noteq> q"
    using splice_ok [OF tr q(1), of False c1 a1] q(2) by (simp_all add: c1_def a1_def b_def)
  have pq: "p \<noteq> q" using q(3) by auto
  have qn: "q < LZ_N" "q \<noteq> LZ_NIL" "p < LZ_N" "p \<noteq> LZ_NIL" using q(1) p by (auto simp: alive_def)
  have bd: "b \<noteq> p" "b \<noteq> q" "b \<noteq> LZ_NIL \<Longrightarrow> alive ?a b \<and> ?a b = q \<and> d q < d b"
    using tree_down [OF tr slot_alive [OF q(1)], of False] q(3) qn by (cases "b = LZ_NIL"; auto simp: b_def)+
  have p1: "alive a1 p" using s1(2) p pq by simp
  have q1: "\<not> alive a1 q" using s1(2) by simp
  have sl1: "slot a1 s x \<Longrightarrow> slot ?a s x \<and> x \<noteq> q" for s x unfolding slot_def s1(2) using qn(1) by (cases "x = q") simp_all
  have cx: "sons g' s x = (if c1 s x = p then q else c1 s x)" if "slot a1 s x" "x \<noteq> p" for s x
    using c'(1) [of s x] sl1 [OF that(1)] that(2) bd(1) by (auto simp: c1_def b_def)
  have cq: "sons g' s q = c1 s p" for s using c'(2) [of s] by (simp add: c1_def b_def)
  have bp: "b = ?c s p \<Longrightarrow> b = LZ_NIL" for s
    using bd(3) tree_down [OF tr slot_alive [OF p], of s] pq by auto
  have ax: "rg_dad g' x = (if x = p then LZ_NIL else if x = q then a1 p else if \<exists>s. x = c1 s p then q else a1 x)" if x: "x < LZ_N" for x
  proof (cases "x = p \<or> x = q")
    case True
    then show ?thesis using a' [OF x] pq bd(1) by (auto simp: a1_def)
  next
    case False
    show ?thesis
    proof (cases "x = b")
      case True
      then have xb: "x = ?c False q" "b \<noteq> LZ_NIL" using x by (auto simp: b_def)
      have "(\<exists>s. x = c1 s p) \<longleftrightarrow> ?a q = p"
      proof
        assume "\<exists>s. x = c1 s p"
        then obtain s where s: "x = c1 s p" by blast
        then have "?c s p = q" using True bp [of s] xb(2) by (auto simp: c1_def split: if_splits)
        then show "?a q = p" using tree_down [OF tr slot_alive [OF p], of s] qn(2) by simp
      next
        assume "?a q = p"
        then obtain s where "?c s p = q" using tree_up [OF tr q(1)] by auto
        then show "\<exists>s. x = c1 s p" using True by (intro exI [of _ s]) (simp add: c1_def)
      qed
      then show ?thesis using a' [OF x] False True xb(1) by (auto simp: a1_def b_def)
    next
      case nb: False
      have "(\<exists>s. x = c1 s p) \<longleftrightarrow> (\<exists>s. x = ?c s p)"
        using nb False by (auto simp: c1_def)
      then show ?thesis using a' [OF x] False nb by (simp add: a1_def b_def)
    qed
  qed
  have "tree_ok ?f (sons g') (rg_dad g') (d(q := d p))" "\<And>x. alive (rg_dad g') x \<longleftrightarrow> alive a1 x \<and> x \<noteq> p \<or> x = q"
    using replace_ok [OF s1(1) qn(1) q1 p1 q(4), of "sons g'" "rg_dad g'"] cx cq ax by blast+
  then show ?thesis using s1(2) q(1) pq unfolding ring_ok_def same by metis
qed

lemma delete_left_son:
  assumes ok: "ring_ok d g" and p: "in_tree g p" and sn: "rg_lson g p \<noteq> LZ_NIL" "rg_rson g p \<noteq> LZ_NIL" and q: "q = rg_lson g p" "rg_rson g q = LZ_NIL"
    and gm: "rg_text gm = rg_text g" "rg_lson gm = rg_lson g" "rg_rson gm = (rg_rson g)(q := rg_rson g p)" "rg_dad gm = (rg_dad g)(rg_rson g p := q)"
  shows "\<exists>d'. ring_ok d' (closed_up p q gm) \<and> (\<forall>x. in_tree (closed_up p q gm) x \<longleftrightarrow> in_tree g x \<and> x \<noteq> p)"
proof -
  have tr: "tree_ok (first_byte (rg_text g)) (sons g) (rg_dad g) d" using ok by (simp add: ring_ok_def)
  have l: "in_tree g q" "rg_dad g q = p" "first_byte (rg_text g) q = first_byte (rg_text g) p" "d p < d q" "q \<noteq> rg_rson g p"
    using tree_down [OF tr slot_alive [OF p], of False] tree_sides [OF tr p, of False] sn q(1) by (auto simp: sons_def)
  have r: "in_tree g (rg_rson g p)" "rg_dad g (rg_rson g p) = p" "d p < d (rg_rson g p)"
    using tree_down [OF tr slot_alive [OF p], of True] sn by (auto simp: sons_def)
  have b: "rg_dad g (rg_lson g q) = q" if "rg_lson g q \<noteq> LZ_NIL"
    using tree_down [OF tr slot_alive [OF l(1)], of False] that by (simp add: sons_def)
  have pd: "d (rg_dad g p) < d p" using parent_apart [OF tr p] by simp
  have ne: "q \<noteq> p" "rg_rson g p \<noteq> p" "rg_dad g p \<noteq> q" "rg_dad g p \<noteq> p" using l(4) r(3) pd by auto
  have sm: "sons gm s x = (if s \<and> x = q then rg_rson g p else sons g s x)" for s x using gm by (simp add: sons_def)
  have dm: "rg_dad gm p = rg_dad g p" using gm(4) ne(2) by simp
  show ?thesis
  proof (rule ring_move [OF ok p l(1) _ l(4,3)])
    show "sons g True q = LZ_NIL" using q(2) by (simp add: sons_def)
  next
    fix s x assume x: "slot (rg_dad g) s x" "x \<noteq> p" "x \<noteq> q"
    have "sons g s x \<noteq> q" using parent_side [OF tr l(1) x(1)] x(2) l(2) by simp
    moreover have "sons g s x = p \<longleftrightarrow> x = rg_dad g p \<and> s = (sons g True (rg_dad g p) = p)" by (rule parent_side [OF tr p x(1)])
    ultimately show "sons (closed_up p q gm) s x = (if sons g s x = q then sons g False q else if sons g s x = p then q else sons g s x)"
      using closed_up_sons [OF ne(1), of gm s x] x(3) ne(3) by (simp add: sm dm)
  next
    fix s show "sons (closed_up p q gm) s q = (if sons g s p = q then sons g False q else sons g s p)"
      using closed_up_sons [OF ne(1), of gm s q] ne(3) l(5) q(1) by (cases s) (simp_all add: sm dm, simp_all add: sons_def)
  next
    fix x :: nat assume x: "x < LZ_N"
    have sx: "(\<exists>s. x = sons g s p) \<longleftrightarrow> x = q \<or> x = rg_rson g p" using q(1) by (auto simp: sons_def)
    have "rg_dad g x = q" if "x = sons g False q" using b x that by (simp add: sons_def)
    then show "rg_dad (closed_up p q gm) x = (if x = p then LZ_NIL else if x = q then rg_dad g p
        else if x = sons g False q then (if rg_dad g q = p then q else rg_dad g q) else if \<exists>s. x = sons g s p then q else rg_dad g x)"
      unfolding sx using closed_up_dad [OF ne(1), of gm x] dm l(2) by (auto simp: gm(4))
  qed (simp add: gm(1))
qed

lemma delete_rightmost:
  assumes ok: "ring_ok d g" and p: "in_tree g p" and sn: "rg_lson g p \<noteq> LZ_NIL" "rg_rson g p \<noteq> LZ_NIL"
    and q: "in_tree g q" "rg_rson g q = LZ_NIL" "rg_rson g (rg_dad g q) = q" "d (rg_lson g p) \<le> d (rg_dad g q)"
      "first_byte (rg_text g) q = first_byte (rg_text g) p"
    and gm: "rg_text gm = rg_text g" "rg_lson gm = (rg_lson g)(q := rg_lson g p)"
      "rg_rson gm = (rg_rson g)(rg_dad g q := rg_lson g q, q := rg_rson g p)"
      "rg_dad gm = (rg_dad g)(rg_lson g q := rg_dad g q, rg_lson g p := q, rg_rson g p := q)"
  shows "\<exists>d'. ring_ok d' (closed_up p q gm) \<and> (\<forall>x. in_tree (closed_up p q gm) x \<longleftrightarrow> in_tree g x \<and> x \<noteq> p)"
proof -
  let ?z = "rg_dad g q"
  have tr: "tree_ok (first_byte (rg_text g)) (sons g) (rg_dad g) d" using ok by (simp add: ring_ok_def)
  have l: "rg_dad g (rg_lson g p) = p" "d p < d (rg_lson g p)" "rg_lson g p \<noteq> rg_rson g p"
    using tree_down [OF tr slot_alive [OF p], of False] tree_sides [OF tr p, of False] sn by (auto simp: sons_def)
  have r: "rg_dad g (rg_rson g p) = p" "d p < d (rg_rson g p)"
    using tree_down [OF tr slot_alive [OF p], of True] sn by (auto simp: sons_def)
  have zq: "d ?z < d q" using parent_apart [OF tr q(1)] by simp
  have b: "rg_dad g (rg_lson g q) = q" "d q < d (rg_lson g q)" if "rg_lson g q \<noteq> LZ_NIL"
    using tree_down [OF tr slot_alive [OF q(1)], of False] that by (simp_all add: sons_def)
  have pd: "d (rg_dad g p) < d p" using parent_apart [OF tr p] by simp
  have z: "?z \<noteq> p" "?z \<noteq> q" using l(2) q(4) zq by auto
  have dpq: "d p < d q" using l(2) q(4) zq by simp
  have pn: "p \<noteq> LZ_NIL" using p by (rule alive_nil)
  have ne: "q \<noteq> p" "rg_rson g p \<noteq> p" "rg_lson g p \<noteq> p" "rg_dad g p \<noteq> q" "rg_lson g q \<noteq> p" "q \<noteq> rg_lson g p" "q \<noteq> rg_rson g p"
    using dpq l r pd b(2) z pn by auto
  have sm: "sons gm s x = (if x = q then sons g s p else if s \<and> x = ?z then rg_lson g q else sons g s x)" for s x
    using gm(2,3) z(2) by (simp add: sons_def)
  have dm: "rg_dad gm p = rg_dad g p" using gm(4) ne by simp
  have side: "(sons gm True (rg_dad g p) = p) = (sons g True (rg_dad g p) = p)"
    using ne(1,4,5) q(3) by (auto simp: sm) (simp_all add: sons_def)
  show ?thesis
  proof (rule ring_move [OF ok p q(1) _ dpq q(5)])
    show "sons g True q = LZ_NIL" using q(2) by (simp add: sons_def)
  next
    fix s x assume x: "slot (rg_dad g) s x" "x \<noteq> p" "x \<noteq> q"
    have zs: "sons g s x = q \<longleftrightarrow> x = ?z \<and> s" using parent_side [OF tr q(1) x(1)] q(3) by (simp add: sons_def)
    have ps: "sons g s x = p \<longleftrightarrow> x = rg_dad g p \<and> s = (sons g True (rg_dad g p) = p)" by (rule parent_side [OF tr p x(1)])
    show "sons (closed_up p q gm) s x = (if sons g s x = q then sons g False q else if sons g s x = p then q else sons g s x)"
    proof (cases "sons g s x = p")
      case True
      then show ?thesis using closed_up_sons [OF ne(1), of gm s x] ps ne(1) by (simp add: dm side)
    next
      case False
      then have "\<not> (x = rg_dad g p \<and> s = (sons g True (rg_dad g p) = p))" using ps by blast
      then have "sons (closed_up p q gm) s x = sons gm s x" unfolding closed_up_sons [OF ne(1)] dm side by (rule if_not_P)
      then show ?thesis using False zs x(3) by (simp add: sm) (simp add: sons_def)
    qed
  next
    fix s
    have "sons g s p \<noteq> q" using ne(6,7) by (auto simp: sons_def)
    then show "sons (closed_up p q gm) s q = (if sons g s p = q then sons g False q else sons g s p)"
      using closed_up_sons [OF ne(1), of gm s q] ne(4) by (simp add: sm dm)
  next
    fix x :: nat assume x: "x < LZ_N"
    have sx: "(\<exists>s. x = sons g s p) \<longleftrightarrow> x = rg_lson g p \<or> x = rg_rson g p"
      by (metis (full_types) sons_def)
    have "x \<noteq> rg_lson g p \<and> x \<noteq> rg_rson g p" if "x = rg_lson g q"
      using b(1) x that l(1) r(1) ne(1) by auto
    then show "rg_dad (closed_up p q gm) x = (if x = p then LZ_NIL else if x = q then rg_dad g p
        else if x = sons g False q then (if rg_dad g q = p then q else rg_dad g q) else if \<exists>s. x = sons g s p then q else rg_dad g x)"
      unfolding sx using closed_up_dad [OF ne(1), of gm x] dm z(1) by (simp add: sons_def gm(4))
  qed (simp add: gm(1))
qed

lemma delete_node_ok:
  assumes ok: "ring_ok d g" and pn: "p < LZ_N"
  shows "\<exists>g' d'. delete_node p g = Inr g' \<and> ring_ok d' g' \<and> (\<forall>x. in_tree g' x \<longleftrightarrow> in_tree g x \<and> x \<noteq> p)
    \<and> rg_text g' = rg_text g \<and> rg_pos g' = rg_pos g \<and> rg_len g' = rg_len g"
proof (cases "rg_dad g p = LZ_NIL")
  case True
  then show ?thesis using ok by (auto simp: delete_node_def alive_def)
next
  case False
  then have p: "in_tree g p" using pn by (simp add: alive_def)
  have tr: "tree_ok (first_byte (rg_text g)) (sons g) (rg_dad g) d" using ok by (simp add: ring_ok_def)
  show ?thesis
  proof (cases "rg_rson g p = LZ_NIL \<or> rg_lson g p = LZ_NIL")
    case True
    then obtain t where t: "take_place p g = Inr (sons g t p, g)" "sons g (\<not> t) p = LZ_NIL"
    proof (cases "rg_rson g p = LZ_NIL")
      case True
      then show ?thesis using that [of False] by (simp add: take_place_def sons_def)
    next
      case False
      then show ?thesis using that [of True] \<open>rg_rson g p = LZ_NIL \<or> rg_lson g p = LZ_NIL\<close> by (simp add: take_place_def sons_def)
    qed
    then show ?thesis using delete_simple [OF ok p t(2)] False by (auto simp: delete_node_steps)
  next
    case both: False
    let ?l = "rg_lson g p"
    show ?thesis
    proof (cases "rg_rson g ?l = LZ_NIL")
      case True
      let ?gm = "g\<lparr>rg_rson := (rg_rson g)(?l := rg_rson g p), rg_dad := (rg_dad g)(rg_rson g p := ?l)\<rparr>"
      have "?l \<noteq> p" using son_apart [OF tr p, of False] by (simp add: sons_def)
      then have t: "take_place p g = Inr (?l, ?gm)" using both True by (simp add: take_place_def Let_def)
      show ?thesis using delete_left_son [OF ok p _ _ refl True, of ?gm] both False t by (auto simp: delete_node_steps)
    next
      case deep: False
      have l: "in_tree g ?l" "rg_dad g ?l = p" "first_byte (rg_text g) ?l = first_byte (rg_text g) p" "d p < d ?l"
        using tree_down [OF tr slot_alive [OF p], of False] both by (auto simp: sons_def)
      let ?s = "rg_rson g ?l"
      have s: "in_tree g ?s" "rg_dad g ?s = ?l" "first_byte (rg_text g) ?s = first_byte (rg_text g) ?l"
        using tree_down [OF tr slot_alive [OF l(1)], of True] deep by (auto simp: sons_def)
      have st: "sons g True = rg_rson g" by (simp add: sons_def fun_eq_iff)
      obtain q where q: "rightmost LZ_N (rg_rson g) ?s = Inr q" "in_tree g q" "rg_rson g q = LZ_NIL" "rg_rson g (rg_dad g q) = q"
        "first_byte (rg_text g) q = first_byte (rg_text g) ?s" "d ?l \<le> d (rg_dad g q)"
        using rightmost_spec [OF tr s(1) _ _ deeper_alive [OF s(1)]] slot_alive [OF l(1)] s(2) unfolding st by auto
      have zq: "d (rg_dad g q) < d q" using parent_apart [OF tr q(2)] by simp
      have ne: "q \<noteq> p" "rg_dad g q \<noteq> p" "q \<noteq> rg_dad g q" "rg_lson g q \<noteq> q" using zq l(4) q(6) son_apart [OF tr q(2), of False] by (auto simp: sons_def)
      let ?gm = "g\<lparr>rg_rson := (rg_rson g)(rg_dad g q := rg_lson g q, q := rg_rson g p), rg_lson := (rg_lson g)(q := ?l),
          rg_dad := (rg_dad g)(rg_lson g q := rg_dad g q, ?l := q, rg_rson g p := q)\<rparr>"
      have t: "take_place p g = Inr (q, ?gm)" using both deep q(1) ne by (simp add: take_place_def Let_def)
      show ?thesis using delete_rightmost [OF ok p _ _ q(2,3,4,6), of ?gm] both False t q(5) s(3) l(3) by (auto simp: delete_node_steps)
    qed
  qed
qed

section \<open>Putting a string in\<close>

lemma replace_node_ok:
  assumes ok: "ring_ok d g" and p: "in_tree g p" and r: "r < LZ_N" "\<not> in_tree g r" "first_byte (rg_text g) r = first_byte (rg_text g) p"
  shows "\<exists>d'. ring_ok d' (replace_node r p g) \<and> (\<forall>x. in_tree (replace_node r p g) x \<longleftrightarrow> in_tree g x \<and> x \<noteq> p \<or> x = r)
    \<and> rg_text (replace_node r p g) = rg_text g \<and> rg_pos (replace_node r p g) = rg_pos g \<and> rg_len (replace_node r p g) = rg_len g"
proof -
  have tr: "tree_ok (first_byte (rg_text g)) (sons g) (rg_dad g) d" using ok by (simp add: ring_ok_def)
  have pr: "r \<noteq> p" "p < LZ_N" using p r by (auto simp: alive_def)
  have sp: "rg_lson g p \<noteq> p" "rg_rson g p \<noteq> p" using son_apart [OF tr p, of True] son_apart [OF tr p, of False] by (simp_all add: sons_def)
  have sr: "sons g s p \<noteq> r" for s
    using tree_down [OF tr slot_alive [OF p], of s] r by (cases "sons g s p = LZ_NIL") auto
  let ?gm = "g\<lparr>rg_lson := (rg_lson g)(r := rg_lson g p), rg_rson := (rg_rson g)(r := rg_rson g p),
    rg_dad := (rg_dad g)(r := rg_dad g p, rg_lson g p := r, rg_rson g p := r)\<rparr>"
  let ?g1 = "put_at p r ?gm"
  have steps: "replace_node r p g = ?g1\<lparr>rg_dad := (rg_dad ?g1)(p := LZ_NIL)\<rparr>"
    using pr(1) sp by (simp add: replace_node_def put_at_def Let_def)
  have sm: "sons (g\<lparr>rg_lson := (rg_lson g)(r := rg_lson g p), rg_rson := (rg_rson g)(r := rg_rson g p)\<rparr>) s x =
      (if x = r then sons g s p else sons g s x)" for s x by (simp add: sons_def)
  have ap: "rg_dad g p \<noteq> r" using tree_up [OF tr p] r by (auto simp: slot_def)
  have dm: "rg_dad ?gm p = rg_dad g p" using pr(1) sp by simp
  have c: "sons (replace_node r p g) s x = (if x = rg_dad g p \<and> s = (sons g True (rg_dad g p) = p) then r else if x = r then sons g s p else sons g s x)" for s x
    using ap sp pr(1) by (simp add: steps sm dm)
  have a: "rg_dad (replace_node r p g) x = (if x = p then LZ_NIL else if x = rg_rson g p \<or> x = rg_lson g p then r else if x = r then rg_dad g p else rg_dad g x)" for x
    by (simp add: steps)
  have "tree_ok (first_byte (rg_text g)) (sons (replace_node r p g)) (rg_dad (replace_node r p g)) (d(r := d p))
    \<and> (\<forall>x. alive (rg_dad (replace_node r p g)) x \<longleftrightarrow> in_tree g x \<and> x \<noteq> p \<or> x = r)"
  proof -
    have 1: "sons (replace_node r p g) s x = (if sons g s x = p then r else sons g s x)" if x: "slot (rg_dad g) s x" "x \<noteq> p" for s x
    proof -
      have "x \<noteq> r" using x(1) r by (auto simp: slot_def)
      then show ?thesis using c [of s x] parent_side [OF tr p x(1)] by simp
    qed
    have 2: "sons (replace_node r p g) s r = sons g s p" for s using c [of s r] ap by simp
    have sx: "(\<exists>s. x = sons g s p) \<longleftrightarrow> x = rg_lson g p \<or> x = rg_rson g p" for x by (metis (full_types) sons_def)
    have 3: "rg_dad (replace_node r p g) x = (if x = p then LZ_NIL else if x = r then rg_dad g p else if \<exists>s. x = sons g s p then r else rg_dad g x)" for x
      unfolding sx using a [of x] sr [of True] sr [of False] by (auto simp: sons_def)
    show ?thesis using replace_ok [OF tr r(1,2) p r(3) 1 2 3] by blast
  qed
  then show ?thesis by (auto simp: ring_ok_def steps)
qed

lemma first_diff_spec:
  "i \<le> LZ_F \<Longrightarrow> first_diff t key p i cmp = (j, cmp') \<Longrightarrow> i \<le> j \<and> j \<le> LZ_F \<and> (\<forall>m. i \<le> m \<and> m < j \<longrightarrow> t (key + m) = t (p + m))"
proof (induction t key p i cmp rule: first_diff.induct)
  case (1 t key p i cmp)
  show ?case
  proof (cases "i < LZ_F")
    case False
    then show ?thesis using 1(2,3) by (subst (asm) first_diff.simps) auto
  next
    case True
    let ?cmp = "int (unat (t (key + i))) - int (unat (t (p + i)))"
    show ?thesis
    proof (cases "?cmp = 0")
      case ne: False
      then have "j = i" using 1(3) True by (subst (asm) first_diff.simps) (auto simp: Let_def)
      then show ?thesis using True by auto
    next
      case eq: True
      then have "first_diff t key p (i + 1) ?cmp = (j, cmp')" using 1(3) True by (subst (asm) first_diff.simps) (simp add: Let_def)
      then have "i + 1 \<le> j \<and> j \<le> LZ_F \<and> (\<forall>m. i + 1 \<le> m \<and> m < j \<longrightarrow> t (key + m) = t (p + m))"
        using 1(1) [OF True refl] eq True by auto
      moreover have "t (key + i) = t (p + i)" using eq by (simp only: word_unat_eq_iff of_nat_eq_iff eq_iff_diff_eq_0 [symmetric])
      ultimately show ?thesis by (metis Suc_eq_plus1 Suc_leI le_eq_less_or_eq Suc_leD)
    qed
  qed
qed

text \<open>A match for the string at \<open>r\<close>: its distance, and the bytes it shares with an older string.\<close>

definition match_ok :: "nat \<Rightarrow> (nat \<Rightarrow> bool) \<Rightarrow> ring \<Rightarrow> bool" where
  "match_ok r old g =
     (rg_len g \<le> LZ_F
      \<and> (rg_len g = 0 \<or> (\<exists>p. old p \<and> rg_pos g = ring_distance r p \<and> (\<forall>i<rg_len g. rg_text g (r + i) = rg_text g (p + i)))))"

lemma note_match_ok:
  assumes "match_ok r old g" "old q" "i \<le> LZ_F" "\<forall>m<i. rg_text g (r + m) = rg_text g (q + m)"
  shows "match_ok r old (note_match r q i g)"
  using assms by (auto simp: note_match_def match_ok_def)

lemma note_match_same [simp]:
  "rg_text (note_match r q i g) = rg_text g" "rg_lson (note_match r q i g) = rg_lson g" "rg_rson (note_match r q i g) = rg_rson g"
  "rg_dad (note_match r q i g) = rg_dad g" "sons (note_match r q i g) = sons g"
  by (auto simp: note_match_def sons_def fun_eq_iff)

lemma match_ok_cong: "rg_text g' = rg_text g \<Longrightarrow> rg_pos g' = rg_pos g \<Longrightarrow> rg_len g' = rg_len g \<Longrightarrow> match_ok r old g' = match_ok r old g"
  by (simp add: match_ok_def)

lemma insert_from_ok:
  "ring_ok d g \<Longrightarrow> r < LZ_N \<Longrightarrow> \<not> in_tree g r \<Longrightarrow> (\<And>s. sons g s r = LZ_NIL) \<Longrightarrow> slot (rg_dad g) (0 \<le> cmp) p \<Longrightarrow>
    first_byte (rg_text g) p = first_byte (rg_text g) r \<Longrightarrow> card (deeper (rg_dad g) d p) < fuel \<Longrightarrow> match_ok r (in_tree g) g \<Longrightarrow>
    \<exists>g' d'. insert_from fuel r p cmp g = Inr g' \<and> ring_ok d' g' \<and> (\<forall>x. in_tree g' x \<longrightarrow> in_tree g x \<or> x = r)
      \<and> rg_text g' = rg_text g \<and> match_ok r (in_tree g) g'"
proof (induction fuel arbitrary: p cmp g)
  case (Suc fuel)
  note ok = Suc.prems(1)
  have tr: "tree_ok (first_byte (rg_text g)) (sons g) (rg_dad g) d" using ok by (simp add: ring_ok_def)
  let ?s = "0 \<le> cmp" and ?q = "if 0 \<le> cmp then rg_rson g p else rg_lson g p"
  have q_def: "sons g ?s p = ?q" by (simp add: sons_def)
  have pr: "p \<noteq> r" using Suc.prems(2,3,5) by (auto simp: slot_def)
  show ?case
  proof (cases "?q = LZ_NIL")
    case True
    let ?g' = "(if 0 \<le> cmp then g\<lparr>rg_rson := (rg_rson g)(p := r)\<rparr> else g\<lparr>rg_lson := (rg_lson g)(p := r)\<rparr>)\<lparr>rg_dad := (rg_dad g)(r := p)\<rparr>"
    have c: "sons ?g' t x = (if x = r then LZ_NIL else if x = p \<and> t = ?s then r else sons g t x)" for t x
      using Suc.prems(4) [of t] pr by (cases "0 \<le> cmp") (auto simp: sons_def)
    have a: "rg_dad ?g' x = (if x = r then p else rg_dad g x)" for x by simp
    have "first_byte (rg_text g) r = first_byte (rg_text g) p" "sons g ?s p = LZ_NIL" using Suc.prems(6) True q_def by simp_all
    then have "tree_ok (first_byte (rg_text g)) (sons ?g') (rg_dad ?g') (d(r := d p + 1)) \<and> (\<forall>x. alive (rg_dad ?g') x \<longleftrightarrow> in_tree g x \<or> x = r)"
      using attach_ok [OF tr Suc.prems(2,3,5), of "sons ?g'" "rg_dad ?g'"] c a by blast
    then have "ring_ok (d(r := d p + 1)) ?g' \<and> (\<forall>x. in_tree ?g' x \<longleftrightarrow> in_tree g x \<or> x = r)"
      unfolding ring_ok_def by (cases "0 \<le> cmp") simp_all
    moreover have "rg_text ?g' = rg_text g" "match_ok r (in_tree g) ?g'" using Suc.prems(8) by (simp_all add: match_ok_def)
    moreover have "insert_from (Suc fuel) r p cmp g = Inr ?g'" using True by (simp add: Let_def)
    ultimately show ?thesis by blast
  next
    case False
    have q: "in_tree g ?q" "first_byte (rg_text g) ?q = first_byte (rg_text g) p" "d p < d ?q"
      using tree_down [OF tr Suc.prems(5)] False q_def by auto
    obtain i cmp' where fd: "first_diff (rg_text g) r ?q 1 cmp = (i, cmp')" by (cases "first_diff (rg_text g) r ?q 1 cmp")
    have i: "1 \<le> i" "i \<le> LZ_F" "\<forall>m. 1 \<le> m \<and> m < i \<longrightarrow> rg_text g (r + m) = rg_text g (?q + m)" using first_diff_spec [OF _ fd] by auto
    have qr: "?q < LZ_N" using q(1) by (simp add: alive_def)
    have "unat (rg_text g r) = unat (rg_text g ?q)" using q(2) Suc.prems(2,6) qr by (simp add: first_byte_def)
    then have t0: "rg_text g r = rg_text g ?q" by (simp add: word_unat_eq_iff)
    have all: "rg_text g (r + m) = rg_text g (?q + m)" if "m < i" for m
      using i(3) t0 that by (cases m) auto
    let ?g1 = "note_match r ?q i g"
    have m1: "match_ok r (in_tree g) ?g1" using note_match_ok [OF Suc.prems(8) q(1) i(2)] all by blast
    have ok1: "ring_ok d ?g1" using ok by (simp add: ring_ok_def)
    have fb: "first_byte (rg_text ?g1) ?q = first_byte (rg_text ?g1) r" using q(2) Suc.prems(6) by simp
    have step: "insert_from (Suc fuel) r p cmp g =
        (if LZ_THRESHOLD < i \<and> rg_len g < i \<and> LZ_F \<le> i then Inr (replace_node r ?q ?g1) else insert_from fuel r ?q cmp' ?g1)"
      unfolding insert_from.simps Let_def if_not_P [OF False] fd by simp
    show ?thesis
    proof (cases "LZ_THRESHOLD < i \<and> rg_len g < i \<and> LZ_F \<le> i")
      case True
      have g1: "in_tree ?g1 ?q" "\<not> in_tree ?g1 r" using q(1) Suc.prems(3) by simp_all
      obtain d' where d': "ring_ok d' (replace_node r ?q ?g1)" "\<forall>x. in_tree (replace_node r ?q ?g1) x \<longleftrightarrow> in_tree ?g1 x \<and> x \<noteq> ?q \<or> x = r"
        "rg_text (replace_node r ?q ?g1) = rg_text ?g1" "rg_pos (replace_node r ?q ?g1) = rg_pos ?g1" "rg_len (replace_node r ?q ?g1) = rg_len ?g1"
        using replace_node_ok [OF ok1 g1(1) Suc.prems(2) g1(2) fb [symmetric]] by blast
      have "match_ok r (in_tree g) (replace_node r ?q ?g1)" using m1 match_ok_cong [OF d'(3-5)] by simp
      then show ?thesis using d'(1-3) step True by auto
    next
      case go: False
      have "card (deeper (rg_dad ?g1) d ?q) < fuel" using deeper_less [OF q(1,3)] Suc.prems(7) by simp
      moreover have "slot (rg_dad ?g1) (0 \<le> cmp') ?q" using slot_alive [OF q(1)] by simp
      moreover have "\<not> in_tree ?g1 r" "\<And>s. sons ?g1 s r = LZ_NIL" "match_ok r (in_tree ?g1) ?g1" using Suc.prems(3,4) m1 by simp_all
      ultimately have "\<exists>g' d'. insert_from fuel r ?q cmp' ?g1 = Inr g' \<and> ring_ok d' g' \<and> (\<forall>x. in_tree g' x \<longrightarrow> in_tree ?g1 x \<or> x = r)
          \<and> rg_text g' = rg_text ?g1 \<and> match_ok r (in_tree ?g1) g'"
        using Suc.IH [OF ok1 Suc.prems(2)] fb by blast
      then show ?thesis unfolding step if_not_P [OF go] by simp
    qed
  qed
qed simp

lemma insert_node_ok:
  assumes ok: "ring_ok d g" and r: "r < LZ_N" "\<not> in_tree g r"
  shows "\<exists>g' d'. insert_node r g = Inr g' \<and> ring_ok d' g' \<and> (\<forall>x. in_tree g' x \<longrightarrow> in_tree g x \<or> x = r)
    \<and> rg_text g' = rg_text g \<and> match_ok r (in_tree g) g'"
proof -
  let ?g = "g\<lparr>rg_rson := (rg_rson g)(r := LZ_NIL), rg_lson := (rg_lson g)(r := LZ_NIL), rg_len := 0\<rparr>"
  let ?p = "LZ_N + 1 + unat (rg_text g r)"
  have tr: "tree_ok (first_byte (rg_text g)) (sons g) (rg_dad g) d" using ok by (simp add: ring_ok_def)
  have "unat (rg_text g r) < 2 ^ LENGTH(8)" by (rule unsigned_less)
  moreover have "(2 :: nat) ^ LENGTH(8) = 256" by simp
  ultimately have u: "unat (rg_text g r) \<le> 255" by linarith
  have same: "sons ?g s x = sons g s x" if "slot (rg_dad g) s x" for s x
    using that r by (auto simp: sons_def slot_def)
  have "tree_ok (first_byte (rg_text g)) (sons ?g) (rg_dad g) d"
    unfolding tree_ok_def
  proof (intro conjI allI impI; (elim conjE)?)
    fix s p assume p: "slot (rg_dad g) s p" "sons ?g s p \<noteq> LZ_NIL"
    show "alive (rg_dad g) (sons ?g s p)" "rg_dad g (sons ?g s p) = p" "first_byte (rg_text g) (sons ?g s p) = first_byte (rg_text g) p"
      "d p < d (sons ?g s p)"
      using tree_down [OF tr p(1)] p(2) unfolding same [OF p(1)] by simp_all
  next
    fix q assume "alive (rg_dad g) q"
    then show "\<exists>s. slot (rg_dad g) s (rg_dad g q) \<and> sons ?g s (rg_dad g q) = q" using tree_up [OF tr] same by metis
  next
    fix s p assume p: "alive (rg_dad g) p" "sons ?g s p \<noteq> LZ_NIL"
    then show "sons ?g s p \<noteq> sons ?g (\<not> s) p" using tree_sides [OF tr p(1), of s] same [OF slot_alive [OF p(1)]] by simp
  qed
  then have "ring_ok d ?g" by (simp add: ring_ok_def)
  moreover have "sons ?g s r = LZ_NIL" for s by (simp add: sons_def)
  moreover have "slot (rg_dad ?g) (0 \<le> (1 :: int)) ?p" using u by (simp add: slot_def)
  moreover have "first_byte (rg_text ?g) ?p = first_byte (rg_text ?g) r" using r(1) by (simp add: first_byte_def)
  moreover have "card (deeper (rg_dad ?g) d ?p) < LZ_N + 1" using deeper_finite(2) [of "rg_dad ?g" d ?p] by linarith
  moreover have "match_ok r (in_tree ?g) ?g" "\<not> in_tree ?g r" using r(2) by (simp_all add: match_ok_def)
  ultimately have "\<exists>g' d'. insert_from (LZ_N + 1) r ?p 1 ?g = Inr g' \<and> ring_ok d' g' \<and> (\<forall>x. in_tree g' x \<longrightarrow> in_tree ?g x \<or> x = r)
      \<and> rg_text g' = rg_text ?g \<and> match_ok r (in_tree ?g) g'"
    using r(1) by (intro insert_from_ok) simp_all
  then show ?thesis by (simp add: insert_node_def Let_def del: insert_from.simps)
qed

text \<open>The trees at the start are empty.\<close>

lemma init_tree_ok: "ring_ok (\<lambda>_. 0) (init_tree g)" "\<not> in_tree (init_tree g) x" "rg_text (init_tree g) = rg_text g"
proof -
  have roots: "x < n \<Longrightarrow> rg_rson (nil_roots n g) (LZ_N + 1 + x) = LZ_NIL" "rg_text (nil_roots n g) = rg_text g" for x n g
    by (induction n) (auto simp: Let_def less_Suc_eq)
  have dads: "x < n \<Longrightarrow> rg_dad (nil_dads n g) x = LZ_NIL" "rg_rson (nil_dads n g) = rg_rson g" "rg_text (nil_dads n g) = rg_text g" for x n g
    by (induction n) (auto simp: Let_def less_Suc_eq)
  have no: "\<not> in_tree (init_tree g) x" for x using dads(1) by (auto simp: init_tree_def alive_def)
  then show "\<not> in_tree (init_tree g) x" .
  show "rg_text (init_tree g) = rg_text g" by (simp add: init_tree_def roots dads)
  have "sons (init_tree g) s p = LZ_NIL" if "slot (rg_dad (init_tree g)) s p" for s p
  proof -
    have p: "s" "LZ_N < p" "p \<le> LZ_N + 256" using that no by (simp_all add: slot_def)
    then show ?thesis using roots(1) [of "p - (LZ_N + 1)" 256 g] by (simp add: sons_def init_tree_def dads)
  qed
  then show "ring_ok (\<lambda>_. 0) (init_tree g)" using no slot_alive unfolding ring_ok_def tree_ok_def by metis
qed

end
