(* ===== verification/Lzhuf.thy ===== *)
theory Lzhuf
  imports Lzhuf_Char Lzhuf_Match
begin

text \<open>
  The compressor and the frames: \<open>encode\<close>, \<open>decode\<close>, \<open>lzhufEncodeB0\<close>, \<open>lzhufDecodeB0\<close>, \<open>lzhufEncodeB1\<close> and
  \<open>lzhufDecodeB1\<close> of \<open>packages/packet/src/lzhuf.ts\<close>. The window the encoder keeps in its ring, and the search trees
  over it, hold exactly the strings it may refer to.
\<close>

section \<open>Compressing\<close>

record lz_encoder =
  en_huff :: huff
  en_bits :: bit_out
  en_ring :: ring
  en_s :: nat
  en_r :: nat
  en_len :: int
  en_src :: "byte list"

fun fill_spaces :: "nat \<Rightarrow> (nat \<Rightarrow> byte) \<Rightarrow> nat \<Rightarrow> byte" where
  "fill_spaces 0 t = t"
| "fill_spaces (Suc n) t = (fill_spaces n t)(n := 0x20)"

fun fill_lookahead :: "nat \<Rightarrow> byte list \<Rightarrow> (nat \<Rightarrow> byte) \<Rightarrow> nat \<Rightarrow> byte" where
  "fill_lookahead a [] t = t"
| "fill_lookahead a (c # cs) t = fill_lookahead (a + 1) cs (t(a := c))"

text \<open>\<open>for (i = 1; i <= F; i++) this.insertNode(r - i)\<close>.\<close>

fun insert_before :: "nat \<Rightarrow> nat \<Rightarrow> ring \<Rightarrow> lz_error + ring" where
  "insert_before 0 r g = Inr g"
| "insert_before (Suc n) r g = (case insert_before n r g of Inl e \<Rightarrow> Inl e | Inr g \<Rightarrow> insert_node (r - Suc n) g)"

definition encode_start :: "byte list \<Rightarrow> lz_error + lz_encoder" where
  "encode_start src =
     (let g = init_tree \<lparr>rg_text = \<lambda>_. 0, rg_lson = \<lambda>_. 0, rg_rson = \<lambda>_. 0, rg_dad = \<lambda>_. 0, rg_pos = 0, rg_len = 0\<rparr>;
          s = 0; r = LZ_N - LZ_F;
          g = g\<lparr>rg_text := fill_lookahead r (take LZ_F src) (fill_spaces r (rg_text g))\<rparr>
      in case insert_before LZ_F r g of
           Inl e \<Rightarrow> Inl e
         | Inr g \<Rightarrow> (case insert_node r g of
             Inl e \<Rightarrow> Inl e
           | Inr g \<Rightarrow> Inr \<lparr>en_huff = start_huff, en_bits = \<lparr>bo_out = [], bo_putbuf = 0, bo_putlen = 0\<rparr>, en_ring = g,
                           en_s = s, en_r = r, en_len = int (length (take LZ_F src)), en_src = drop LZ_F src\<rparr>))"

definition encode_token :: "lz_encoder \<Rightarrow> lz_error + lz_encoder" where
  "encode_token e =
     (let g = en_ring e; g = (if en_len e < int (rg_len g) then g\<lparr>rg_len := nat (en_len e)\<rparr> else g)
      in if rg_len g \<le> LZ_THRESHOLD
         then let g = g\<lparr>rg_len := 1\<rparr>
              in case encode_char (unat (rg_text g (en_r e))) (en_huff e, en_bits e) of
                   Inl x \<Rightarrow> Inl x
                 | Inr (h, b) \<Rightarrow> Inr (e\<lparr>en_huff := h, en_bits := b, en_ring := g\<rparr>)
         else case encode_char (255 - LZ_THRESHOLD + rg_len g) (en_huff e, en_bits e) of
                Inl x \<Rightarrow> Inl x
              | Inr (h, b) \<Rightarrow> Inr (e\<lparr>en_huff := h, en_bits := encode_position (rg_pos g) b, en_ring := g\<rparr>))"

text \<open>The two loops after a token: over the bytes of the source, then over those of the window alone.\<close>

definition slide_in :: "byte \<Rightarrow> lz_encoder \<Rightarrow> lz_error + lz_encoder" where
  "slide_in c e =
     (case delete_node (en_s e) (en_ring e) of
        Inl x \<Rightarrow> Inl x
      | Inr g \<Rightarrow>
          let s = en_s e; g = g\<lparr>rg_text := (rg_text g)(s := c)\<rparr>;
              g = (if s < LZ_F - 1 then g\<lparr>rg_text := (rg_text g)(s + LZ_N := c)\<rparr> else g);
              s = (s + 1) mod LZ_N; r = (en_r e + 1) mod LZ_N
          in case insert_node r g of
               Inl x \<Rightarrow> Inl x
             | Inr g \<Rightarrow> Inr (e\<lparr>en_ring := g, en_s := s, en_r := r\<rparr>))"

fun slide_source :: "nat \<Rightarrow> lz_encoder \<Rightarrow> lz_error + nat \<times> lz_encoder" where
  "slide_source 0 e = Inr (0, e)"
| "slide_source (Suc n) e =
     (case en_src e of
        [] \<Rightarrow> Inr (Suc n, e)
      | c # cs \<Rightarrow> (case slide_in c (e\<lparr>en_src := cs\<rparr>) of Inl x \<Rightarrow> Inl x | Inr e \<Rightarrow> slide_source n e))"

definition slide_out :: "lz_encoder \<Rightarrow> lz_error + lz_encoder" where
  "slide_out e =
     (case delete_node (en_s e) (en_ring e) of
        Inl x \<Rightarrow> Inl x
      | Inr g \<Rightarrow>
          let s = (en_s e + 1) mod LZ_N; r = (en_r e + 1) mod LZ_N; len = en_len e - 1
          in case (if len \<noteq> 0 then insert_node r g else Inr g) of
               Inl x \<Rightarrow> Inl x
             | Inr g \<Rightarrow> Inr (e\<lparr>en_ring := g, en_s := s, en_r := r, en_len := len\<rparr>))"

fun slide_window :: "nat \<Rightarrow> lz_encoder \<Rightarrow> lz_error + lz_encoder" where
  "slide_window 0 e = Inr e"
| "slide_window (Suc n) e = (case slide_out e of Inl x \<Rightarrow> Inl x | Inr e \<Rightarrow> slide_window n e)"

definition encode_step :: "lz_encoder \<Rightarrow> lz_error + lz_encoder" where
  "encode_step e =
     (case encode_token e of
        Inl x \<Rightarrow> Inl x
      | Inr e \<Rightarrow> (case slide_source (rg_len (en_ring e)) e of Inl x \<Rightarrow> Inl x | Inr (n, e) \<Rightarrow> slide_window n e))"

fun encode_loop :: "nat \<Rightarrow> lz_encoder \<Rightarrow> lz_error + lz_encoder" where
  "encode_loop 0 e = Inl Loops"
| "encode_loop (Suc fuel) e =
     (case encode_step e of Inl x \<Rightarrow> Inl x | Inr e \<Rightarrow> if 0 < en_len e then encode_loop fuel e else Inr e)"

definition lz_encode :: "byte list \<Rightarrow> lz_error + byte list" where
  "lz_encode src =
     (case encode_start src of
        Inl x \<Rightarrow> Inl x
      | Inr e \<Rightarrow> (case encode_loop (length src + 1) e of Inl x \<Rightarrow> Inl x | Inr e \<Rightarrow> Inr (encode_end (en_bits e))))"

section \<open>Decompressing\<close>

record lz_decoder =
  de_huff :: huff
  de_bits :: bit_in
  de_text :: "nat \<Rightarrow> byte"
  de_r :: nat
  de_out :: "byte list"

definition decode_put :: "byte \<Rightarrow> lz_decoder \<Rightarrow> lz_decoder" where
  "decode_put c d = d\<lparr>de_text := (de_text d)(de_r d := c), de_r := (de_r d + 1) mod LZ_N, de_out := de_out d @ [c]\<rparr>"

text \<open>\<open>for (k = 0; k < j && op < sz; k++)\<close>: the bytes from \<open>pos + k\<close> on, \<open>n\<close> of them to go.\<close>

fun decode_copy :: "nat \<Rightarrow> nat \<Rightarrow> nat \<Rightarrow> nat \<Rightarrow> lz_decoder \<Rightarrow> lz_decoder" where
  "decode_copy 0 k pos sz d = d"
| "decode_copy (Suc n) k pos sz d =
     (if length (de_out d) < sz then decode_copy n (k + 1) pos sz (decode_put (de_text d ((pos + k) mod LZ_N)) d) else d)"

definition decode_step :: "nat \<Rightarrow> lz_decoder \<Rightarrow> lz_error + lz_decoder" where
  "decode_step sz d =
     (case decode_char (de_huff d, de_bits d) of
        Inl x \<Rightarrow> Inl x
      | Inr (c, h, b) \<Rightarrow>
          if c < 256 then Inr (decode_put (of_nat c) (d\<lparr>de_huff := h, de_bits := b\<rparr>))
          else case decode_position b of
            Inl x \<Rightarrow> Inl x
          | Inr (p, b) \<Rightarrow>
              let pos = (de_r d + 2 * LZ_N - p - 1) mod LZ_N; j = c - 255 + LZ_THRESHOLD
              in Inr (decode_copy j 0 pos sz (d\<lparr>de_huff := h, de_bits := b\<rparr>)))"

fun decode_loop :: "nat \<Rightarrow> nat \<Rightarrow> lz_decoder \<Rightarrow> lz_error + lz_decoder" where
  "decode_loop 0 sz d = (if length (de_out d) < sz then Inl Loops else Inr d)"
| "decode_loop (Suc fuel) sz d =
     (if length (de_out d) < sz
      then case decode_step sz d of Inl x \<Rightarrow> Inl x | Inr d \<Rightarrow> decode_loop fuel sz d
      else Inr d)"

definition decode_start :: "byte list \<Rightarrow> lz_decoder" where
  "decode_start stream =
     \<lparr>de_huff = start_huff, de_bits = \<lparr>bi_inp = stream, bi_pad = 0, bi_getbuf = 0, bi_getlen = 0\<rparr>,
      de_text = fill_spaces (LZ_N - LZ_F) (\<lambda>_. 0), de_r = LZ_N - LZ_F, de_out = []\<rparr>"

definition lz_decode :: "byte list \<Rightarrow> nat \<Rightarrow> lz_error + byte list" where
  "lz_decode stream sz =
     (case decode_loop sz sz (decode_start stream) of Inl x \<Rightarrow> Inl x | Inr d \<Rightarrow> Inr (de_out d))"

section \<open>The frames\<close>

definition lz_le32 :: "nat \<Rightarrow> byte list" where
  "lz_le32 n = (let w = (of_nat n :: 32 word) in [ucast w, ucast (drop_bit 8 w), ucast (drop_bit 16 w), ucast (drop_bit 24 w)])"

definition lz_rd32 :: "byte list \<Rightarrow> nat \<Rightarrow> nat" where
  "lz_rd32 b i = unat ((ucast (b ! i) OR push_bit 8 (ucast (b ! (i + 1))) OR push_bit 16 (ucast (b ! (i + 2)))
     OR push_bit 24 (ucast (b ! (i + 3)))) :: 32 word)"

definition lzhuf_encode_B0 :: "byte list \<Rightarrow> lz_error + byte list" where
  "lzhuf_encode_B0 raw =
     (case (if raw \<noteq> [] then lz_encode raw else Inr []) of Inl x \<Rightarrow> Inl x | Inr stream \<Rightarrow> Inr (lz_le32 (length raw) @ stream))"

definition declared_size :: "byte list \<Rightarrow> nat \<Rightarrow> nat \<Rightarrow> lz_error + nat" where
  "declared_size b i max_size =
     (if length b < i + 4 then Inl Short_size
      else if max_size < lz_rd32 b i then Inl Above_ceiling else Inr (lz_rd32 b i))"

definition lzhuf_decode_B0 :: "byte list \<Rightarrow> nat \<Rightarrow> lz_error + byte list" where
  "lzhuf_decode_B0 frame max_size =
     (case declared_size frame 0 max_size of
        Inl x \<Rightarrow> Inl x
      | Inr sz \<Rightarrow> if sz = 0 then Inr [] else lz_decode (drop 4 frame) sz)"

definition lzhuf_encode_B1 :: "byte list \<Rightarrow> lz_error + byte list" where
  "lzhuf_encode_B1 raw =
     (case lz_encode raw of
        Inl x \<Rightarrow> Inl x
      | Inr stream \<Rightarrow>
          let body = lz_le32 (length raw) @ stream; crc = fbb_crc16 0 body
          in Inr ([ucast crc, ucast (drop_bit 8 crc)] @ body))"

definition lzhuf_decode_B1 :: "byte list \<Rightarrow> nat \<Rightarrow> lz_error + byte list \<times> bool" where
  "lzhuf_decode_B1 frame max_size =
     (if length frame < 6 then Inl Short_header
      else let crc = ucast (frame ! 0) OR push_bit 8 (ucast (frame ! 1)); body = drop 2 frame
      in case declared_size body 0 max_size of
           Inl x \<Rightarrow> Inl x
         | Inr sz \<Rightarrow>
             if fbb_crc16 0 body \<noteq> crc then Inr ([], False)
             else case lz_decode (drop 4 body) sz of Inl x \<Rightarrow> Inl x | Inr raw \<Rightarrow> Inr (raw, True))"

section \<open>The window\<close>

text \<open>
  The ring as an endless tape: the spaces it starts with, then the source; byte \<open>u\<close> of the tape lies at \<open>u mod N\<close>.
  With \<open>k\<close> bytes of the source consumed the next one is byte \<open>N - F + k\<close> of the tape.
\<close>

definition tape :: "byte list \<Rightarrow> nat \<Rightarrow> byte" where
  "tape src u = (if u < LZ_N - LZ_F then 0x20 else src ! (u - (LZ_N - LZ_F)))"

definition on_tape :: "nat \<Rightarrow> nat \<Rightarrow> nat \<Rightarrow> bool" where
  "on_tape k n p = (\<exists>u. k \<le> u \<and> u < LZ_N - LZ_F + k + n \<and> p = u mod LZ_N)"

definition trees_ok :: "nat \<Rightarrow> lz_encoder \<Rightarrow> bool" where
  "trees_ok k e =
     (en_s e = k mod LZ_N \<and> en_r e = (LZ_N - LZ_F + k) mod LZ_N \<and> (\<exists>d. ring_ok d (en_ring e))
      \<and> (\<forall>p. in_tree (en_ring e) p \<longrightarrow> on_tape k 1 p))"

definition text_ok :: "byte list \<Rightarrow> nat \<Rightarrow> ring \<Rightarrow> bool" where
  "text_ok src k g =
     (let v = LZ_N - LZ_F + min (length src) (LZ_F + k)
      in (\<forall>u. k \<le> u \<and> u < v \<longrightarrow> rg_text g (u mod LZ_N) = tape src u)
         \<and> (\<forall>j<LZ_F - 1. LZ_N + j < v \<longrightarrow> rg_text g (LZ_N + j) = rg_text g j))"

definition window_ok :: "byte list \<Rightarrow> nat \<Rightarrow> lz_encoder \<Rightarrow> bool" where
  "window_ok src k e =
     (trees_ok k e \<and> text_ok src k (en_ring e) \<and> en_src e = drop (LZ_F + k) src \<and> en_len e = int (min LZ_F (length src - k)))"

definition matched :: "nat \<Rightarrow> lz_encoder \<Rightarrow> bool" where
  "matched k e = match_ok (en_r e) (on_tape k 0) (en_ring e)"

lemma mod_apart: "u mod n = v mod n \<Longrightarrow> u \<le> v \<Longrightarrow> v < u + n \<Longrightarrow> u = v" for u v n :: nat
proof -
  assume a: "u mod n = v mod n" "u \<le> v" "v < u + n"
  then have "n dvd v - u" using mod_eq_dvd_iff_nat by metis
  moreover have "v - u < n" using a by linarith
  ultimately show "u = v" using a(2) by (metis dvd_imp_le le_antisym diff_is_0_eq linorder_not_less not_gr_zero)
qed

lemma window_next: "on_tape k 1 p \<Longrightarrow> p \<noteq> k mod LZ_N \<Longrightarrow> on_tape (Suc k) 0 p"
  unfolding on_tape_def by (metis Suc_eq_plus1 Suc_leI add_0_right add_Suc_right le_neq_implies_less)

lemma window_wider: "on_tape k 0 p \<or> p = (LZ_N - LZ_F + k) mod LZ_N \<Longrightarrow> on_tape k 1 p"
  unfolding on_tape_def
proof (elim disjE exE conjE)
  fix u assume "k \<le> u" "u < LZ_N - LZ_F + k + 0" "p = u mod LZ_N"
  then show "\<exists>u\<ge>k. u < LZ_N - LZ_F + k + 1 \<and> p = u mod LZ_N" by (intro exI [of _ u]) simp
next
  assume "p = (LZ_N - LZ_F + k) mod LZ_N"
  then show "\<exists>u\<ge>k. u < LZ_N - LZ_F + k + 1 \<and> p = u mod LZ_N" by (intro exI [of _ "LZ_N - LZ_F + k"]) simp
qed

lemma next_not_in_window: "\<not> on_tape k 0 ((LZ_N - LZ_F + k) mod LZ_N)"
proof
  assume "on_tape k 0 ((LZ_N - LZ_F + k) mod LZ_N)"
  then obtain u where "k \<le> u" "u < LZ_N - LZ_F + k" "u mod LZ_N = (LZ_N - LZ_F + k) mod LZ_N" by (auto simp: on_tape_def)
  then show False using mod_apart [of u LZ_N "LZ_N - LZ_F + k"] by simp
qed

lemma match_ok_mono: "match_ok r old g \<Longrightarrow> (\<And>p. old p \<Longrightarrow> new p) \<Longrightarrow> match_ok r new g"
  by (auto simp: match_ok_def)

lemma tree_ok_cong: "(\<And>s p. slot a s p \<Longrightarrow> f p = f' p) \<Longrightarrow> tree_ok f c a d \<Longrightarrow> tree_ok f' c a d"
proof -
  assume f: "\<And>s p. slot a s p \<Longrightarrow> f p = f' p" and ok: "tree_ok f c a d"
  have "alive a (c s p) \<and> a (c s p) = p \<and> f' (c s p) = f' p \<and> d p < d (c s p)" if p: "slot a s p" "c s p \<noteq> LZ_NIL" for s p
  proof -
    note down = tree_down [OF ok p]
    then have "alive a (c s p)" by simp
    then have "f (c s p) = f' (c s p)" using f slot_alive by blast
    then show ?thesis using down f [OF p(1)] by simp
  qed
  then show "tree_ok f' c a d" using tree_up [OF ok] tree_sides [OF ok] by (simp add: tree_ok_def)
qed

text \<open>One place further: the oldest string leaves the trees, the next one enters.\<close>

lemma advance:
  assumes t: "trees_ok k e" and g1: "delete_node (en_s e) (en_ring e) = Inr g1"
    and g2: "rg_lson g2 = rg_lson g1" "rg_rson g2 = rg_rson g1" "rg_dad g2 = rg_dad g1"
      "\<And>p. p < LZ_N \<Longrightarrow> p \<noteq> en_s e \<Longrightarrow> rg_text g2 p = rg_text g1 p"
  shows "(\<exists>d. ring_ok d g2) \<and> (\<forall>p. in_tree g2 p \<longrightarrow> on_tape (Suc k) 0 p)"
    and "\<exists>g3 d. insert_node ((LZ_N - LZ_F + Suc k) mod LZ_N) g2 = Inr g3 \<and> ring_ok d g3 \<and> (\<forall>p. in_tree g3 p \<longrightarrow> on_tape (Suc k) 1 p)
      \<and> rg_text g3 = rg_text g2 \<and> match_ok ((LZ_N - LZ_F + Suc k) mod LZ_N) (on_tape (Suc k) 0) g3"
proof -
  have s: "en_s e = k mod LZ_N" using t by (simp add: trees_ok_def)
  obtain d where d: "ring_ok d (en_ring e)" using t by (auto simp: trees_ok_def)
  obtain d1 where d1: "ring_ok d1 g1" "\<forall>x. in_tree g1 x \<longleftrightarrow> in_tree (en_ring e) x \<and> x \<noteq> en_s e"
    using delete_node_ok [OF d, of "en_s e"] g1 s by auto
  have sn: "sons g2 = sons g1" using g2(1,2) by (simp add: sons_def fun_eq_iff)
  have fb: "first_byte (rg_text g1) p = first_byte (rg_text g2) p" if "slot (rg_dad g1) u p" for u p
  proof (cases "p < LZ_N")
    case True
    then have "in_tree g1 p" using that by (simp add: slot_def)
    then show ?thesis using d1(2) g2(4) [of p] True by (simp add: first_byte_def)
  qed (simp add: first_byte_def)
  have ok2: "ring_ok d1 g2"
    unfolding ring_ok_def sn g2(3) by (rule tree_ok_cong [OF fb]) (use d1(1) in \<open>simp_all add: ring_ok_def\<close>)
  have win: "on_tape (Suc k) 0 p" if "in_tree g2 p" for p
    using that d1(2) t window_next [of k p] s by (simp add: g2(3) trees_ok_def)
  show "(\<exists>d. ring_ok d g2) \<and> (\<forall>p. in_tree g2 p \<longrightarrow> on_tape (Suc k) 0 p)" using ok2 win by blast
  let ?r = "(LZ_N - LZ_F + Suc k) mod LZ_N"
  have r: "?r < LZ_N" "\<not> in_tree g2 ?r" using win next_not_in_window [of "Suc k"] by auto
  obtain g3 d3 where g3: "insert_node ?r g2 = Inr g3" "ring_ok d3 g3" "\<forall>x. in_tree g3 x \<longrightarrow> in_tree g2 x \<or> x = ?r"
      "rg_text g3 = rg_text g2" "match_ok ?r (in_tree g2) g3"
    using insert_node_ok [OF ok2 r] by blast
  have "\<forall>p. in_tree g3 p \<longrightarrow> on_tape (Suc k) 1 p" using g3(3) win window_wider by blast
  moreover have "match_ok ?r (on_tape (Suc k) 0) g3" using match_ok_mono [OF g3(5)] win by blast
  ultimately show "\<exists>g3 d. insert_node ?r g2 = Inr g3 \<and> ring_ok d g3 \<and> (\<forall>p. in_tree g3 p \<longrightarrow> on_tape (Suc k) 1 p)
      \<and> rg_text g3 = rg_text g2 \<and> match_ok ?r (on_tape (Suc k) 0) g3" using g3 by blast
qed

lemma next_s: "(k mod LZ_N + 1) mod LZ_N = Suc k mod LZ_N"
  by (simp add: mod_Suc_eq)

lemma next_r: "((LZ_N - LZ_F + k) mod LZ_N + 1) mod LZ_N = (LZ_N - LZ_F + Suc k) mod LZ_N"
proof -
  have "((LZ_N - LZ_F + k) mod LZ_N + 1) mod LZ_N = (LZ_N - LZ_F + k + 1) mod LZ_N" by (rule mod_add_left_eq)
  then show ?thesis by simp
qed

lemma slide_out_ok:
  assumes t: "trees_ok k e"
  shows "\<exists>e'. slide_out e = Inr e' \<and> trees_ok (Suc k) e' \<and> en_len e' = en_len e - 1 \<and> rg_text (en_ring e') = rg_text (en_ring e)
    \<and> en_src e' = en_src e \<and> en_huff e' = en_huff e \<and> en_bits e' = en_bits e \<and> (en_len e \<noteq> 1 \<longrightarrow> matched (Suc k) e')"
proof -
  have sr: "en_s e = k mod LZ_N" "en_r e = (LZ_N - LZ_F + k) mod LZ_N" using t by (simp_all add: trees_ok_def)
  obtain d where "ring_ok d (en_ring e)" using t by (auto simp: trees_ok_def)
  then obtain g1 where g1: "delete_node (en_s e) (en_ring e) = Inr g1" "rg_text g1 = rg_text (en_ring e)"
    using delete_node_ok [of d "en_ring e" "en_s e"] sr(1) by auto
  note a = advance [OF t g1(1) refl refl refl refl]
  show ?thesis
  proof (cases "en_len e = 1")
    case True
    then have "slide_out e = Inr (e\<lparr>en_ring := g1, en_s := Suc k mod LZ_N, en_r := (LZ_N - LZ_F + Suc k) mod LZ_N, en_len := en_len e - 1\<rparr>)"
      using g1(1) by (simp only: slide_out_def Let_def sr next_s next_r sum.case) simp
    moreover have "\<forall>p. in_tree g1 p \<longrightarrow> on_tape (Suc k) 1 p" using a(1) window_wider by blast
    ultimately show ?thesis using True a(1) g1(2) by (simp add: trees_ok_def)
  next
    case False
    obtain g3 d3 where g3: "insert_node ((LZ_N - LZ_F + Suc k) mod LZ_N) g1 = Inr g3" "ring_ok d3 g3" "\<forall>p. in_tree g3 p \<longrightarrow> on_tape (Suc k) 1 p"
      "rg_text g3 = rg_text g1" "match_ok ((LZ_N - LZ_F + Suc k) mod LZ_N) (on_tape (Suc k) 0) g3" using a(2) by blast
    have "slide_out e = Inr (e\<lparr>en_ring := g3, en_s := Suc k mod LZ_N, en_r := (LZ_N - LZ_F + Suc k) mod LZ_N, en_len := en_len e - 1\<rparr>)"
      using g1(1) g3(1) False by (simp only: slide_out_def Let_def sr next_s next_r sum.case) simp
    then show ?thesis using g3 g1(2) by (auto simp: trees_ok_def matched_def)
  qed
qed

lemma text_ok_slide:
  assumes ok: "text_ok src k g" and more: "LZ_F + k < length src"
    and t: "t = (rg_text g)(k mod LZ_N := src ! (LZ_F + k))"
    and g': "rg_text g' = (if k mod LZ_N < LZ_F - 1 then t(k mod LZ_N + LZ_N := src ! (LZ_F + k)) else t)"
  shows "text_ok src (Suc k) g'"
proof -
  let ?s = "k mod LZ_N"
  have v: "LZ_N - LZ_F + min (length src) (LZ_F + k) = LZ_N + k" "LZ_N - LZ_F + min (length src) (LZ_F + Suc k) = LZ_N + Suc k" using more by simp_all
  have on: "rg_text g (u mod LZ_N) = tape src u" if "k \<le> u" "u < LZ_N + k" for u using ok that v(1) by (simp add: text_ok_def Let_def)
  have mirror: "rg_text g (LZ_N + j) = rg_text g j" if "j < LZ_F - 1" "j < k" for j
  proof -
    have "\<forall>j<LZ_F - 1. LZ_N + j < LZ_N + k \<longrightarrow> rg_text g (LZ_N + j) = rg_text g j" using ok unfolding text_ok_def Let_def v(1) by blast
    then show ?thesis using that by simp
  qed
  have low: "rg_text g' p = (if p = ?s then src ! (LZ_F + k) else rg_text g p)" if "p < LZ_N" for p
    using that by (simp add: g' t)
  have "rg_text g' (u mod LZ_N) = tape src u" if u: "Suc k \<le> u" "u < LZ_N + Suc k" for u
  proof (cases "u = LZ_N + k")
    case True
    then show ?thesis by (simp add: low tape_def add.commute)
  next
    case False
    have "u mod LZ_N \<noteq> ?s"
    proof
      assume "u mod LZ_N = ?s"
      then have "k = u" using u False by (intro mod_apart [of k LZ_N u]) simp_all
      then show False using u(1) by simp
    qed
    then show ?thesis using low [of "u mod LZ_N"] on [of u] u False by simp
  qed
  moreover have "rg_text g' (LZ_N + j) = rg_text g' j" if j: "j < LZ_F - 1" "LZ_N + j < LZ_N + Suc k" for j
  proof (cases "j = ?s")
    case True
    then show ?thesis using j(1) low [of j] by (simp add: g' t add.commute)
  next
    case False
    have "j \<noteq> k" using False j(1) by auto
    then have "rg_text g (LZ_N + j) = rg_text g j" using j by (intro mirror) simp_all
    moreover have "rg_text g' (LZ_N + j) = rg_text g (LZ_N + j)"
    proof -
      have "LZ_N + j \<noteq> ?s" "LZ_N + j \<noteq> ?s + LZ_N" using False mod_less_divisor [of LZ_N k] by linarith+
      then show ?thesis unfolding g' t by simp
    qed
    ultimately show ?thesis using low [of j] False j(1) by simp
  qed
  ultimately show ?thesis unfolding text_ok_def Let_def v(2) by blast
qed

lemma slide_in_ok:
  assumes w: "window_ok src k e" and c: "en_src e = c # cs"
  shows "\<exists>e'. slide_in c (e\<lparr>en_src := cs\<rparr>) = Inr e' \<and> window_ok src (Suc k) e' \<and> matched (Suc k) e' \<and> en_huff e' = en_huff e \<and> en_bits e' = en_bits e"
proof -
  have w': "trees_ok k e" "text_ok src k (en_ring e)" "en_src e = drop (LZ_F + k) src" "en_len e = int (min LZ_F (length src - k))"
    using w by (simp_all add: window_ok_def)
  have more: "LZ_F + k < length src" using c w'(3) by (cases "LZ_F + k < length src") simp_all
  then have "drop (LZ_F + k) src = src ! (LZ_F + k) # drop (LZ_F + Suc k) src" using Cons_nth_drop_Suc [OF more] by simp
  then have cs: "c = src ! (LZ_F + k)" "cs = drop (LZ_F + Suc k) src" using c w'(3) by simp_all
  have sr: "en_s e = k mod LZ_N" "en_r e = (LZ_N - LZ_F + k) mod LZ_N" using w'(1) by (simp_all add: trees_ok_def)
  obtain d where "ring_ok d (en_ring e)" using w'(1) by (auto simp: trees_ok_def)
  then obtain g1 where g1: "delete_node (en_s e) (en_ring e) = Inr g1" "rg_text g1 = rg_text (en_ring e)"
    using delete_node_ok [of d "en_ring e" "en_s e"] sr(1) by auto
  define ga where "ga = g1\<lparr>rg_text := (rg_text g1)(k mod LZ_N := c)\<rparr>"
  define g2 where "g2 = (if k mod LZ_N < LZ_F - 1 then ga\<lparr>rg_text := (rg_text ga)(k mod LZ_N + LZ_N := c)\<rparr> else ga)"
  have tx: "text_ok src (Suc k) g" if "rg_text g = rg_text g2" for g
    using that by (intro text_ok_slide [OF w'(2) more refl]) (simp add: g2_def ga_def g1(2) cs(1))
  have "\<exists>g3 d. insert_node ((LZ_N - LZ_F + Suc k) mod LZ_N) g2 = Inr g3 \<and> ring_ok d g3 \<and> (\<forall>p. in_tree g3 p \<longrightarrow> on_tape (Suc k) 1 p)
      \<and> rg_text g3 = rg_text g2 \<and> match_ok ((LZ_N - LZ_F + Suc k) mod LZ_N) (on_tape (Suc k) 0) g3"
    by (rule advance(2) [OF w'(1) g1(1)]) (simp_all add: g2_def ga_def sr(1))
  then obtain g3 d3 where g3: "insert_node ((LZ_N - LZ_F + Suc k) mod LZ_N) g2 = Inr g3" "ring_ok d3 g3" "\<forall>p. in_tree g3 p \<longrightarrow> on_tape (Suc k) 1 p"
      "rg_text g3 = rg_text g2" "match_ok ((LZ_N - LZ_F + Suc k) mod LZ_N) (on_tape (Suc k) 0) g3" by blast
  have "slide_in c (e\<lparr>en_src := cs\<rparr>) = Inr (e\<lparr>en_src := cs, en_ring := g3, en_s := Suc k mod LZ_N, en_r := (LZ_N - LZ_F + Suc k) mod LZ_N\<rparr>)"
  proof -
    let ?e = "e\<lparr>en_src := cs\<rparr>"
    have f: "en_s ?e = k mod LZ_N" "en_r ?e = (LZ_N - LZ_F + k) mod LZ_N" "en_ring ?e = en_ring e" using sr by simp_all
    define r where "r = (LZ_N - LZ_F + Suc k) mod LZ_N"
    have nr: "((LZ_N - LZ_F + k) mod LZ_N + 1) mod LZ_N = r" unfolding r_def by (rule next_r)
    show ?thesis
      unfolding r_def [symmetric] slide_in_def Let_def f g1(1) [unfolded sr(1)] sum.case nr
      unfolding next_s ga_def [symmetric] g2_def [symmetric] g3(1) [folded r_def] by simp
  qed
  then show ?thesis using g3 tx [OF g3(4)] w'(4) more cs(2)
    by (auto simp: window_ok_def trees_ok_def matched_def)
qed

text \<open>The two loops after a token.\<close>

lemma slide_window_ok:
  "window_ok src k e \<Longrightarrow> en_src e = [] \<Longrightarrow> k + n \<le> length src \<Longrightarrow> n = 0 \<and> k < length src \<longrightarrow> matched k e \<Longrightarrow>
    \<exists>e'. slide_window n e = Inr e' \<and> window_ok src (k + n) e' \<and> (k + n < length src \<longrightarrow> matched (k + n) e')
      \<and> en_huff e' = en_huff e \<and> en_bits e' = en_bits e"
proof (induction n arbitrary: k e)
  case (Suc n)
  note w = Suc.prems(1) [unfolded window_ok_def]
  have less: "length src \<le> LZ_F + k" using Suc.prems(2) w by simp
  then have len: "en_len e = int (length src - k)" using w by simp
  obtain e1 where e1: "slide_out e = Inr e1" "trees_ok (Suc k) e1" "en_len e1 = en_len e - 1" "rg_text (en_ring e1) = rg_text (en_ring e)"
    "en_src e1 = en_src e" "en_huff e1 = en_huff e" "en_bits e1 = en_bits e" "en_len e \<noteq> 1 \<longrightarrow> matched (Suc k) e1"
    using slide_out_ok w by blast
  have "window_ok src (Suc k) e1"
    using e1 w less len Suc.prems(2,3) by (auto simp: window_ok_def text_ok_def Let_def)
  moreover have "matched (Suc k) e1" if "Suc k < length src" using e1(8) len that by auto
  ultimately have "\<exists>e'. slide_window n e1 = Inr e' \<and> window_ok src (Suc k + n) e' \<and> (Suc k + n < length src \<longrightarrow> matched (Suc k + n) e')
      \<and> en_huff e' = en_huff e1 \<and> en_bits e' = en_bits e1"
    using Suc.prems(2,3) e1(5) by (intro Suc.IH) auto
  then show ?case using e1 by simp
qed simp

lemma slides_ok:
  "window_ok src k e \<Longrightarrow> k + n \<le> length src \<Longrightarrow> n = 0 \<longrightarrow> matched k e \<Longrightarrow>
    \<exists>m e1 e'. slide_source n e = Inr (m, e1) \<and> slide_window m e1 = Inr e' \<and> window_ok src (k + n) e'
      \<and> (k + n < length src \<longrightarrow> matched (k + n) e') \<and> en_huff e' = en_huff e \<and> en_bits e' = en_bits e"
proof (induction n arbitrary: k e)
  case (Suc n)
  show ?case
  proof (cases "en_src e")
    case Nil
    then show ?thesis using slide_window_ok [OF Suc.prems(1) Nil Suc.prems(2)] by auto
  next
    case (Cons c cs)
    obtain e1 where e1: "slide_in c (e\<lparr>en_src := cs\<rparr>) = Inr e1" "window_ok src (Suc k) e1" "matched (Suc k) e1" "en_huff e1 = en_huff e" "en_bits e1 = en_bits e"
      using slide_in_ok [OF Suc.prems(1) Cons] by blast
    then have "\<exists>m e2 e'. slide_source n e1 = Inr (m, e2) \<and> slide_window m e2 = Inr e' \<and> window_ok src (Suc k + n) e'
      \<and> (Suc k + n < length src \<longrightarrow> matched (Suc k + n) e') \<and> en_huff e' = en_huff e1 \<and> en_bits e' = en_bits e1"
      using Suc.prems(2) by (intro Suc.IH) simp_all
    then show ?thesis using e1 Cons by simp
  qed
qed simp


text \<open>The start: the spaces, the first bytes of the source, the strings before them in the trees.\<close>

lemma fill_spaces_at: "fill_spaces n t p = (if p < n then 0x20 else t p)"
  by (induction n) auto

lemma fill_lookahead_at: "fill_lookahead a cs t p = (if a \<le> p \<and> p < a + length cs then cs ! (p - a) else t p)"
proof (induction a cs t rule: fill_lookahead.induct)
  case (2 a c cs t)
  show ?case unfolding fill_lookahead.simps 2 by (auto simp: nth_Cons')
qed auto

lemma insert_before_ok:
  "ring_ok d g \<Longrightarrow> (\<And>p. \<not> in_tree g p) \<Longrightarrow> r < LZ_N \<Longrightarrow> n \<le> r \<Longrightarrow>
    \<exists>g' d'. insert_before n r g = Inr g' \<and> ring_ok d' g' \<and> (\<forall>p. in_tree g' p \<longrightarrow> r \<le> p + n \<and> p < r) \<and> rg_text g' = rg_text g"
proof (induction n)
  case (Suc n)
  then obtain g1 d1 where g1: "insert_before n r g = Inr g1" "ring_ok d1 g1" "\<forall>p. in_tree g1 p \<longrightarrow> r \<le> p + n \<and> p < r" "rg_text g1 = rg_text g"
    by auto
  have "\<not> in_tree g1 (r - Suc n)" "r - Suc n < LZ_N" using g1(3) Suc.prems(3,4) by force+
  then obtain g2 d2 where g2: "insert_node (r - Suc n) g1 = Inr g2" "ring_ok d2 g2" "\<forall>x. in_tree g2 x \<longrightarrow> in_tree g1 x \<or> x = r - Suc n" "rg_text g2 = rg_text g1"
    using insert_node_ok [OF g1(2)] by blast
  have "r \<le> p + Suc n \<and> p < r" if "in_tree g2 p" for p
    using g2(3) g1(3) Suc.prems(4) that by fastforce
  then show ?case using g1 g2 by auto
qed auto

lemma encode_start_ok:
  "\<exists>e. encode_start src = Inr e \<and> window_ok src 0 e \<and> matched 0 e \<and> en_huff e = start_huff \<and> en_bits e = \<lparr>bo_out = [], bo_putbuf = 0, bo_putlen = 0\<rparr>"
proof -
  let ?r = "LZ_N - LZ_F"
  define gi where "gi = init_tree \<lparr>rg_text = \<lambda>_. 0, rg_lson = \<lambda>_. 0, rg_rson = \<lambda>_. 0, rg_dad = \<lambda>_. 0, rg_pos = 0, rg_len = 0\<rparr>"
  define g where "g = gi\<lparr>rg_text := fill_lookahead ?r (take LZ_F src) (fill_spaces ?r (rg_text gi))\<rparr>"
  have no: "\<not> in_tree g p" for p using init_tree_ok(2) by (simp add: g_def gi_def)
  have "ring_ok (\<lambda>_. 0) gi" unfolding gi_def by (rule init_tree_ok(1))
  moreover have "sons g = sons gi" by (simp add: sons_def fun_eq_iff g_def)
  ultimately have ok: "ring_ok (\<lambda>_. 0) g"
    using no unfolding ring_ok_def tree_ok_def by (metis alive_def slot_def g_def ring.select_convs(4) ring.surjective ring.update_convs(1))
  obtain g1 d1 where g1: "insert_before LZ_F ?r g = Inr g1" "ring_ok d1 g1" "\<forall>p. in_tree g1 p \<longrightarrow> ?r \<le> p + LZ_F \<and> p < ?r" "rg_text g1 = rg_text g"
    using insert_before_ok [OF ok no, of ?r LZ_F] by auto
  have "\<not> in_tree g1 ?r" using g1(3) by blast
  then obtain g2 d2 where g2: "insert_node ?r g1 = Inr g2" "ring_ok d2 g2" "\<forall>x. in_tree g2 x \<longrightarrow> in_tree g1 x \<or> x = ?r" "rg_text g2 = rg_text g1"
      "match_ok ?r (in_tree g1) g2"
    using insert_node_ok [OF g1(2), of ?r] by auto
  have old: "on_tape 0 0 p" if "in_tree g1 p" for p
    using g1(3) that by (auto simp: on_tape_def intro!: exI [of _ p])
  have tree: "on_tape 0 1 p" if "in_tree g2 p" for p
    using g2(3) that old window_wider [of 0 p] by auto
  have text2: "rg_text g2 p = (if ?r \<le> p \<and> p < ?r + length (take LZ_F src) then take LZ_F src ! (p - ?r) else if p < ?r then 0x20 else rg_text gi p)" for p
    using g2(4) g1(4) by (simp add: g_def fill_lookahead_at fill_spaces_at)
  have "text_ok src 0 g2"
    unfolding text_ok_def Let_def using text2 by (auto simp: tape_def)
  moreover have "match_ok ?r (on_tape 0 0) g2" using match_ok_mono [OF g2(5)] old by blast
  moreover have start: "encode_start src = Inr \<lparr>en_huff = start_huff, en_bits = \<lparr>bo_out = [], bo_putbuf = 0, bo_putlen = 0\<rparr>, en_ring = g2,
      en_s = 0, en_r = ?r, en_len = int (length (take LZ_F src)), en_src = drop LZ_F src\<rparr>"
    unfolding encode_start_def Let_def gi_def [symmetric] g_def [symmetric] g1(1) sum.case g2(1) by (rule refl)
  moreover have "int (length (take LZ_F src)) = int (min LZ_F (length src - 0))" by (simp add: min.commute)
  ultimately show ?thesis using g2(2) tree
    by (auto simp: window_ok_def trees_ok_def matched_def)
qed

lemma encode_char_returns: "huff_ok h \<Longrightarrow> c < 314 \<Longrightarrow> \<exists>h' b'. encode_char c (h, b) = Inr (h', b') \<and> huff_ok h'"
proof -
  assume ok: "huff_ok h" and c: "c < 314"
  then have links: "huff_links h" by (simp add: huff_ok_def)
  have k: "hf_prnt h (c + 627) < 626" using char_node [OF links c] by simp
  have "climb 627 h (hf_prnt h (c + 627)) 0 0 = Inr (length (huff_code h c), top_bits (huff_code h c))"
    using climb_path [OF links k, of 627 0 "[]"] by (simp add: huff_code_def)
  then show ?thesis using huff_update_ok [OF ok c] by (auto simp: encode_char_def)
qed

section \<open>Tokens\<close>

text \<open>What the encoder writes in one round: a byte, or the distance and length of a string of the window.\<close>

datatype lz_token = Literal byte | Copy nat nat

fun token_len :: "lz_token \<Rightarrow> nat" where
  "token_len (Literal c) = 1"
| "token_len (Copy p l) = l"

fun token_char :: "lz_token \<Rightarrow> nat" where
  "token_char (Literal c) = unat c"
| "token_char (Copy p l) = 253 + l"

fun token_place :: "lz_token \<Rightarrow> bit_out \<Rightarrow> bit_out" where
  "token_place (Literal c) b = b"
| "token_place (Copy p l) b = encode_position p b"

fun place_code :: "lz_token \<Rightarrow> bool list" where
  "place_code (Literal c) = []"
| "place_code (Copy p l) = position_code p"

text \<open>The token stands for the next bytes of the source.\<close>

fun token_fits :: "byte list \<Rightarrow> nat \<Rightarrow> lz_token \<Rightarrow> bool" where
  "token_fits src k (Literal c) = (k < length src \<and> c = src ! k)"
| "token_fits src k (Copy p l) =
     (3 \<le> l \<and> l \<le> LZ_F \<and> k + l \<le> length src
      \<and> (\<exists>u. k \<le> u \<and> u < LZ_N - LZ_F + k \<and> p = LZ_N - LZ_F + k - u - 1 \<and> (\<forall>i<l. tape src (LZ_N - LZ_F + k + i) = tape src (u + i))))"

lemma token_char_lt: "token_fits src k t \<Longrightarrow> token_char t < 314"
proof (cases t)
  case (Literal c)
  have "unat c < 2 ^ LENGTH(8)" by (rule unsigned_less)
  moreover have "(2 :: nat) ^ LENGTH(8) = 256" by simp
  ultimately show ?thesis using Literal by (simp only: token_char.simps; linarith)
qed simp

lemma token_len_fits: "token_fits src k t \<Longrightarrow> 1 \<le> token_len t \<and> k + token_len t \<le> length src"
  by (cases t) auto

lemma distance_back:
  assumes "u < v" "v < u + LZ_N"
  shows "ring_distance (v mod LZ_N) (u mod LZ_N) = v - u - 1" and "(v mod LZ_N + 2 * LZ_N - (v - u - 1) - 1) mod LZ_N = u mod LZ_N"
proof -
  have "int ((v mod LZ_N + LZ_N - u mod LZ_N) mod LZ_N) = (int v mod int LZ_N + int LZ_N - int u mod int LZ_N) mod int LZ_N"
    by (simp add: of_nat_diff zmod_int less_imp_le)
  also have "\<dots> = (int v mod int LZ_N - int u mod int LZ_N + int LZ_N) mod int LZ_N" 
    by (rule arg_cong [where f = "\<lambda>x. x mod int LZ_N"]) linarith
  also have "\<dots> = (int v - int u) mod int LZ_N" by (simp only: mod_add_self2 mod_diff_eq)
  also have "\<dots> = int (v - u)" using assms by (simp add: of_nat_diff)
  finally have "(v mod LZ_N + LZ_N - u mod LZ_N) mod LZ_N = v - u" by linarith
  then show "ring_distance (v mod LZ_N) (u mod LZ_N) = v - u - 1" by (simp add: ring_distance_def)
  have "v mod LZ_N + 2 * LZ_N - (v - u - 1) - 1 = v mod LZ_N + 2 * LZ_N - (v - u)" using assms by linarith
  moreover have "int ((v mod LZ_N + 2 * LZ_N - (v - u)) mod LZ_N) = int (u mod LZ_N)"
  proof -
    have "int ((v mod LZ_N + 2 * LZ_N - (v - u)) mod LZ_N) = (int v mod int LZ_N + 2 * int LZ_N - (int v - int u)) mod int LZ_N"
      using assms by (simp add: of_nat_diff zmod_int algebra_simps)
    also have "\<dots> = (int v mod int LZ_N - (int v - int u) + int LZ_N * 2) mod int LZ_N"
      by (rule arg_cong [where f = "\<lambda>x. x mod int LZ_N"]) linarith
    also have "\<dots> = (int v - (int v - int u)) mod int LZ_N" by (simp only: mod_mult_self2 mod_diff_left_eq)
    also have "\<dots> = int (u mod LZ_N)" by (simp add: zmod_int)
    finally show ?thesis .
  qed
  ultimately show "(v mod LZ_N + 2 * LZ_N - (v - u - 1) - 1) mod LZ_N = u mod LZ_N" by (simp only: of_nat_eq_iff)
qed


lemma encode_token_ok:
  assumes w: "window_ok src k e" and m: "matched k e" and k: "k < length src"
  shows "\<exists>t. token_fits src k t \<and> encode_token e =
    (case encode_char (token_char t) (en_huff e, en_bits e) of
       Inl x \<Rightarrow> Inl x
     | Inr (h, b) \<Rightarrow> Inr (e\<lparr>en_huff := h, en_bits := token_place t b, en_ring := (en_ring e)\<lparr>rg_len := token_len t\<rparr>\<rparr>))"
proof -
  let ?g = "en_ring e" and ?v = "LZ_N - LZ_F + k"
  define l where "l = min (rg_len ?g) (min LZ_F (length src - k))"
  have w': "text_ok src k ?g" "en_len e = int (min LZ_F (length src - k))" "en_r e = ?v mod LZ_N"
    using w by (simp_all add: window_ok_def trees_ok_def)
  have g: "(if en_len e < int (rg_len ?g) then ?g\<lparr>rg_len := nat (en_len e)\<rparr> else ?g) = ?g\<lparr>rg_len := l\<rparr>"
    unfolding w'(2) l_def by auto
  have top: "LZ_N - LZ_F + min (length src) (LZ_F + k) = ?v + min LZ_F (length src - k)" using k by (auto simp: min_def)
  have on: "rg_text ?g (u mod LZ_N) = tape src u" if "k \<le> u" "u < ?v + min LZ_F (length src - k)" for u
    using w'(1) that unfolding text_ok_def Let_def top by blast
  have mirror: "rg_text ?g (LZ_N + j) = rg_text ?g j" if "j < LZ_F - 1" "LZ_N + j < ?v + min LZ_F (length src - k)" for j
    using w'(1) that unfolding text_ok_def Let_def top by blast
  have byte: "rg_text ?g (u mod LZ_N + i) = tape src (u + i)" if "k \<le> u" "u \<le> ?v" "i < LZ_F" "u + i < ?v + min LZ_F (length src - k)" for u i
  proof (cases "u mod LZ_N + i < LZ_N")
    case True
    have "(u + i) mod LZ_N = (u mod LZ_N + i) mod LZ_N" by (rule mod_add_left_eq [symmetric])
    also have "\<dots> = u mod LZ_N + i" using True by (rule mod_less)
    finally have "(u + i) mod LZ_N = u mod LZ_N + i" .
    then show ?thesis using on [of "u + i"] that by simp
  next
    case False
    define j where "j = u mod LZ_N + i - LZ_N"
    have j: "u mod LZ_N + i = LZ_N + j" "j < LZ_F - 1" using False that(3) mod_less_divisor [of LZ_N u] unfolding j_def by linarith+
    have "(u + i) mod LZ_N = (u mod LZ_N + i) mod LZ_N" by (rule mod_add_left_eq [symmetric])
    also have "\<dots> = j" unfolding j(1) using j(2) by simp
    finally have jm: "(u + i) mod LZ_N = j" .
    have "u mod LZ_N \<le> u" by simp
    then have "LZ_N + j < ?v + min LZ_F (length src - k)" using j(1) that(4) by linarith
    then have "rg_text ?g (LZ_N + j) = rg_text ?g j" using j(2) by (intro mirror)
    then show ?thesis unfolding j(1) using on [of "u + i"] jm that by simp
  qed
  have at_r: "rg_text ?g (en_r e) = src ! k" using byte [of ?v 0] k by (simp add: w'(3) tape_def)
  show ?thesis
  proof (cases "l \<le> LZ_THRESHOLD")
    case True
    have "encode_token e = (case encode_char (unat (src ! k)) (en_huff e, en_bits e) of
       Inl x \<Rightarrow> Inl x | Inr (h, b) \<Rightarrow> Inr (e\<lparr>en_huff := h, en_bits := b, en_ring := ?g\<lparr>rg_len := 1\<rparr>\<rparr>))"
      unfolding encode_token_def Let_def g using True at_r by (auto split: sum.split)
    then show ?thesis using k
      by (intro exI [of _ "Literal (src ! k)"]) (unfold token_fits.simps token_char.simps token_len.simps token_place.simps, blast)
  next
    case False
    then have l: "3 \<le> l" "l \<le> rg_len ?g" "l \<le> LZ_F" "k + l \<le> length src" using k by (auto simp: l_def)
    then obtain p where p: "on_tape k 0 p" "rg_pos ?g = ring_distance (en_r e) p"
        "\<forall>i<rg_len ?g. rg_text ?g (en_r e + i) = rg_text ?g (p + i)"
      using m by (auto simp: matched_def match_ok_def)
    then obtain u where u: "k \<le> u" "u < ?v" "p = u mod LZ_N" by (auto simp: on_tape_def)
    have pos: "rg_pos ?g = ?v - u - 1" unfolding p(2) w'(3) u(3) by (rule distance_back(1)) (use u in simp_all)
    have "tape src (?v + i) = tape src (u + i)" if i: "i < l" for i
    proof -
      have "i < LZ_F" "i < min LZ_F (length src - k)" using i by (simp_all add: l_def)
      moreover from this have "?v + i < ?v + min LZ_F (length src - k)" "u + i < ?v + min LZ_F (length src - k)" using u(2) by linarith+
      ultimately have "rg_text ?g (?v mod LZ_N + i) = tape src (?v + i)" "rg_text ?g (u mod LZ_N + i) = tape src (u + i)"
        using byte [of ?v i] byte [of u i] u by simp_all
      then show ?thesis using p(3) i l(2) by (simp add: w'(3) u(3))
    qed
    then have "token_fits src k (Copy (rg_pos ?g) l)" using l u pos by auto
    moreover have "encode_token e = (case encode_char (253 + l) (en_huff e, en_bits e) of
       Inl x \<Rightarrow> Inl x | Inr (h, b) \<Rightarrow> Inr (e\<lparr>en_huff := h, en_bits := encode_position (rg_pos ?g) b, en_ring := ?g\<lparr>rg_len := l\<rparr>\<rparr>))"
      unfolding encode_token_def Let_def g using False by (auto split: sum.split)
    ultimately show ?thesis
      by (intro exI [of _ "Copy (rg_pos ?g) l"]) (unfold token_char.simps token_len.simps token_place.simps, blast)
  qed
qed

text \<open>A round of the encoder: a token, the window past it.\<close>

lemma encode_step_ok:
  assumes w: "window_ok src k e" and m: "matched k e" and k: "k < length src" and h: "huff_ok (en_huff e)"
  shows "\<exists>t h' b e'. token_fits src k t \<and> encode_char (token_char t) (en_huff e, en_bits e) = Inr (h', b) \<and> encode_step e = Inr e'
    \<and> window_ok src (k + token_len t) e' \<and> (k + token_len t < length src \<longrightarrow> matched (k + token_len t) e')
    \<and> en_huff e' = h' \<and> en_bits e' = token_place t b"
proof -
  obtain t where t: "token_fits src k t" "encode_token e =
    (case encode_char (token_char t) (en_huff e, en_bits e) of
       Inl x \<Rightarrow> Inl x
     | Inr (h, b) \<Rightarrow> Inr (e\<lparr>en_huff := h, en_bits := token_place t b, en_ring := (en_ring e)\<lparr>rg_len := token_len t\<rparr>\<rparr>))"
    using encode_token_ok [OF w m k] by blast
  obtain h' b where c: "encode_char (token_char t) (en_huff e, en_bits e) = Inr (h', b)"
    using encode_char_returns [OF h token_char_lt [OF t(1)]] by blast
  let ?e = "e\<lparr>en_huff := h', en_bits := token_place t b, en_ring := (en_ring e)\<lparr>rg_len := token_len t\<rparr>\<rparr>"
  have "sons (en_ring ?e) = sons (en_ring e)" by (simp add: sons_def fun_eq_iff)
  then have "window_ok src k ?e"
    using w by (simp add: window_ok_def trees_ok_def text_ok_def ring_ok_def)
  then obtain n e1 e' where s: "slide_source (token_len t) ?e = Inr (n, e1)" "slide_window n e1 = Inr e'" "window_ok src (k + token_len t) e'"
      "k + token_len t < length src \<longrightarrow> matched (k + token_len t) e'" "en_huff e' = en_huff ?e" "en_bits e' = en_bits ?e"
    using slides_ok [of src k ?e "token_len t"] token_len_fits [OF t(1)] by auto
  then show ?thesis using t c by (intro exI [of _ t] exI [of _ h'] exI [of _ b] exI [of _ e']) (simp add: encode_step_def)
qed

end
