(* ===== verification/Lzhuf_Roundtrip.thy ===== *)
theory Lzhuf_Roundtrip
  imports Lzhuf
begin

text \<open>
  What the decoder of \<open>packages/packet/src/lzhuf.ts\<close> reads: the tokens the encoder wrote, from a window that holds
  the same bytes, so a message of at most 3867 bytes comes back as it was; and any other stream is decoded to its
  declared size or refused.
\<close>

section \<open>Reading the tokens\<close>

definition reader_ok :: "byte list \<Rightarrow> nat \<Rightarrow> lz_decoder \<Rightarrow> bool" where
  "reader_ok src k d =
     (de_r d = (LZ_N - LZ_F + k) mod LZ_N \<and> de_out d = take k src
      \<and> (\<forall>u. u < LZ_N - LZ_F + k \<and> LZ_N - LZ_F + k \<le> u + LZ_N \<longrightarrow> de_text d (u mod LZ_N) = tape src u))"

lemma decode_put_ok:
  assumes d: "reader_ok src k d" and k: "k < length src"
  shows "reader_ok src (Suc k) (decode_put (src ! k) d)"
proof -
  let ?v = "LZ_N - LZ_F + k"
  have "de_text (decode_put (src ! k) d) (u mod LZ_N) = tape src u" if u: "u < Suc ?v" "Suc ?v \<le> u + LZ_N" for u
  proof (cases "u = ?v")
    case True
    then show ?thesis using d by (simp add: decode_put_def reader_ok_def tape_def)
  next
    case False
    have "u mod LZ_N \<noteq> ?v mod LZ_N"
    proof
      assume "u mod LZ_N = ?v mod LZ_N"
      then have "u = ?v" using u False by (intro mod_apart [of u LZ_N ?v]) simp_all
      then show False using False by simp
    qed
    then show ?thesis using d u False by (simp add: decode_put_def reader_ok_def)
  qed
  moreover have "(de_r d + 1) mod LZ_N = (LZ_N - LZ_F + Suc k) mod LZ_N" using d next_r [of k] by (simp add: reader_ok_def)
  ultimately show ?thesis using d k by (simp add: reader_ok_def decode_put_def take_Suc_conv_app_nth)
qed

lemma decode_copy_ok:
  "reader_ok src (k + j) d \<Longrightarrow> u < LZ_N - LZ_F + k \<Longrightarrow> k \<le> u \<Longrightarrow> k + j + n \<le> length src \<Longrightarrow>
    (\<And>i. i < j + n \<Longrightarrow> tape src (LZ_N - LZ_F + k + i) = tape src (u + i)) \<Longrightarrow>
    reader_ok src (k + j + n) (decode_copy n j (u mod LZ_N) (length src) d)
    \<and> de_huff (decode_copy n j (u mod LZ_N) (length src) d) = de_huff d \<and> de_bits (decode_copy n j (u mod LZ_N) (length src) d) = de_bits d"
proof (induction n arbitrary: j d)
  case (Suc n)
  have kj: "k + j < length src" using Suc.prems(4) by simp
  have out: "length (de_out d) = k + j" using Suc.prems(1) kj by (simp add: reader_ok_def)
  have "(u mod LZ_N + j) mod LZ_N = (u + j) mod LZ_N" by (rule mod_add_left_eq)
  moreover have "de_text d ((u + j) mod LZ_N) = tape src (u + j)" using Suc.prems(1-3) by (simp add: reader_ok_def)
  moreover have "tape src (u + j) = tape src (LZ_N - LZ_F + k + j)" using Suc.prems(5) [of j] by simp
  moreover have "tape src (LZ_N - LZ_F + k + j) = src ! (k + j)" by (simp add: tape_def)
  ultimately have c: "de_text d ((u mod LZ_N + j) mod LZ_N) = src ! (k + j)" by simp
  let ?d = "decode_put (src ! (k + j)) d"
  have "reader_ok src (k + Suc j) ?d" using decode_put_ok [OF Suc.prems(1) kj] by simp
  then have "reader_ok src (k + Suc j + n) (decode_copy n (Suc j) (u mod LZ_N) (length src) ?d)
    \<and> de_huff (decode_copy n (Suc j) (u mod LZ_N) (length src) ?d) = de_huff ?d \<and> de_bits (decode_copy n (Suc j) (u mod LZ_N) (length src) ?d) = de_bits ?d"
    using Suc.prems by (intro Suc.IH) auto
  moreover have "decode_copy (Suc n) j (u mod LZ_N) (length src) d = decode_copy n (Suc j) (u mod LZ_N) (length src) ?d"
    using out kj c by simp
  ultimately show ?case by (simp add: decode_put_def)
qed simp

lemma decode_token:
  assumes t: "token_fits src k t" and d: "reader_ok src k d" and h: "huff_ok (de_huff d)" "huff_update (token_char t) (de_huff d) = Inr h'"
    and b: "in_ok (de_bits d)" "in_bits (de_bits d) = huff_code (de_huff d) (token_char t) @ place_code t @ rest" "16 \<le> length rest"
  shows "\<exists>d'. decode_step (length src) d = Inr d' \<and> reader_ok src (k + token_len t) d' \<and> de_huff d' = h' \<and> in_ok (de_bits d') \<and> in_bits (de_bits d') = rest"
proof -
  obtain b1 where b1: "decode_char (de_huff d, de_bits d) = Inr (token_char t, h', b1)" "in_ok b1" "in_bits b1 = place_code t @ rest"
    using decode_char_bits [OF h(1) token_char_lt [OF t] h(2) b(1,2)] b(3) by auto
  show ?thesis
  proof (cases t)
    case (Literal c)
    have c: "k < length src" "c = src ! k" using t Literal by simp_all
    have "unat c < 2 ^ LENGTH(8)" by (rule unsigned_less)
    then have "unat c < 256" by (simp only: len_num0 len_bit0 len_num1) simp
    then have "decode_step (length src) d = Inr (decode_put c (d\<lparr>de_huff := h', de_bits := b1\<rparr>))"
      using b1(1) Literal by (simp add: decode_step_def)
    moreover have "reader_ok src k (d\<lparr>de_huff := h', de_bits := b1\<rparr>)" using d by (simp add: reader_ok_def)
    then have "reader_ok src (Suc k) (decode_put c (d\<lparr>de_huff := h', de_bits := b1\<rparr>))" unfolding c(2) by (rule decode_put_ok) (rule c(1))
    ultimately show ?thesis using b1 Literal by (intro exI [of _ "decode_put c (d\<lparr>de_huff := h', de_bits := b1\<rparr>)"]) (simp add: decode_put_def)
  next
    case (Copy p l)
    let ?v = "LZ_N - LZ_F + k"
    obtain u where u: "3 \<le> l" "k + l \<le> length src" "k \<le> u" "u < ?v" "p = ?v - u - 1" "\<forall>i<l. tape src (?v + i) = tape src (u + i)"
      using t Copy by auto
    have "p < 4096" using u(3,5) by simp
    then obtain b2 where b2: "decode_position b1 = Inr (p, b2)" "in_ok b2" "in_bits b2 = rest"
      using decode_position_bits [OF b1(2), of p rest] b1(3) b(3) Copy by auto
    have r: "de_r d = ?v mod LZ_N" using d by (simp add: reader_ok_def)
    have pos: "(de_r d + 2 * LZ_N - p - 1) mod LZ_N = u mod LZ_N" unfolding r u(5) by (rule distance_back(2)) (use u in simp_all)
    let ?d = "d\<lparr>de_huff := h', de_bits := b2\<rparr>"
    have jl: "l - 2 + 2 = l" using u(1) by simp
    have "decode_step (length src) d = Inr (decode_copy l 0 (u mod LZ_N) (length src) ?d)"
      using b1(1) b2(1) Copy u(1) pos jl by (simp add: decode_step_def Let_def del: decode_copy.simps add_2_eq_Suc')
    moreover have "reader_ok src (k + 0) ?d" using d by (simp add: reader_ok_def)
    then have "reader_ok src (k + 0 + l) (decode_copy l 0 (u mod LZ_N) (length src) ?d)
        \<and> de_huff (decode_copy l 0 (u mod LZ_N) (length src) ?d) = de_huff ?d \<and> de_bits (decode_copy l 0 (u mod LZ_N) (length src) ?d) = de_bits ?d"
      using u by (intro decode_copy_ok) simp_all
    ultimately show ?thesis using b2 Copy by simp
  qed
qed


section \<open>The round trip\<close>

text \<open>Compressing returns for every source.\<close>

lemma encode_loop_returns:
  "window_ok src k e \<Longrightarrow> matched k e \<Longrightarrow> k < length src \<Longrightarrow> huff_ok (en_huff e) \<Longrightarrow> length src - k \<le> fuel \<Longrightarrow> \<exists>e'. encode_loop fuel e = Inr e'"
proof (induction fuel arbitrary: k e)
  case (Suc fuel)
  obtain t h' b e' where e': "token_fits src k t" "encode_char (token_char t) (en_huff e, en_bits e) = Inr (h', b)" "encode_step e = Inr e'"
    "window_ok src (k + token_len t) e'" "k + token_len t < length src \<longrightarrow> matched (k + token_len t) e'" "en_huff e' = h'"
    using encode_step_ok [OF Suc.prems(1-4)] by blast
  have "huff_ok h'" using encode_char_returns [OF Suc.prems(4) token_char_lt [OF e'(1)], of "en_bits e"] e'(2) by auto
  have l: "1 \<le> token_len t" "k + token_len t \<le> length src" using token_len_fits [OF e'(1)] by simp_all
  have n: "en_len e' = int (min LZ_F (length src - (k + token_len t)))" using e'(4) by (simp add: window_ok_def)
  show ?case
  proof (cases "k + token_len t < length src")
    case True
    then have "\<exists>e''. encode_loop fuel e' = Inr e''" using e' \<open>huff_ok h'\<close> l Suc.prems(5) by (intro Suc.IH [of "k + token_len t"]) auto
    then show ?thesis using e'(3) n True by simp
  next
    case False
    then show ?thesis using e'(3) n by simp
  qed
qed simp

text \<open>
  With fewer than 4181 counted in the tree, as long as every code fits its register, what the encoder writes the
  decoder reads back.
\<close>

lemma encode_loop_read:
  "window_ok src k e \<Longrightarrow> matched k e \<Longrightarrow> k < length src \<Longrightarrow> huff_ok (en_huff e) \<Longrightarrow> out_ok (en_bits e) \<Longrightarrow>
    hf_freq (en_huff e) 626 + (length src - k) \<le> 4181 \<Longrightarrow> length src - k \<le> fuel \<Longrightarrow>
    \<exists>e' bits. encode_loop fuel e = Inr e' \<and> out_ok (en_bits e') \<and> out_bits (en_bits e') = out_bits (en_bits e) @ bits
      \<and> (\<forall>d rest n. reader_ok src k d \<and> de_huff d = en_huff e \<and> in_ok (de_bits d) \<and> in_bits (de_bits d) = bits @ rest \<and> 16 \<le> length rest
            \<and> length src - k \<le> n \<longrightarrow> (\<exists>d'. decode_loop n (length src) d = Inr d' \<and> de_out d' = src))"
proof (induction fuel arbitrary: k e)
  case (Suc fuel)
  obtain t h' b e1 where e1: "token_fits src k t" "encode_char (token_char t) (en_huff e, en_bits e) = Inr (h', b)" "encode_step e = Inr e1"
    "window_ok src (k + token_len t) e1" "k + token_len t < length src \<longrightarrow> matched (k + token_len t) e1" "en_huff e1 = h'" "en_bits e1 = token_place t b"
    using encode_step_ok [OF Suc.prems(1-4)] by blast
  let ?c = "huff_code (en_huff e) (token_char t)" and ?k = "k + token_len t"
  have h: "huff_update (token_char t) (en_huff e) = Inr h'" "huff_ok h'" "hf_freq h' 626 = hf_freq (en_huff e) 626 + 1"
    "out_ok b" "out_bits b = out_bits (en_bits e) @ ?c"
    using encode_char_bits [OF Suc.prems(4) token_char_lt [OF e1(1)] _ Suc.prems(5)] Suc.prems(3,6) e1(2) by auto
  have p: "out_ok (en_bits e1)" "out_bits (en_bits e1) = out_bits (en_bits e) @ ?c @ place_code t"
  proof -
    have "out_ok (token_place t b) \<and> out_bits (token_place t b) = out_bits b @ place_code t"
    proof (cases t)
      case (Copy q l)
      then have "q < 4096" using e1(1) by auto
      then show ?thesis using encode_position_bits [OF h(4), of q] Copy by simp
    qed (use h(4) in simp)
    then show "out_ok (en_bits e1)" "out_bits (en_bits e1) = out_bits (en_bits e) @ ?c @ place_code t" using h(5) e1(7) by simp_all
  qed
  have l: "1 \<le> token_len t" "?k \<le> length src" using token_len_fits [OF e1(1)] by simp_all
  have n: "en_len e1 = int (min LZ_F (length src - ?k))" using e1(4) by (simp add: window_ok_def)
  have read: "\<exists>d'. decode_step (length src) d = Inr d' \<and> reader_ok src ?k d' \<and> de_huff d' = h' \<and> in_ok (de_bits d') \<and> in_bits (de_bits d') = rest"
    if "reader_ok src k d" "de_huff d = en_huff e" "in_ok (de_bits d)" "in_bits (de_bits d) = ?c @ place_code t @ rest" "16 \<le> length rest" for d rest
    using decode_token [OF e1(1) that(1)] that Suc.prems(4) h(1) by auto
  have more: "length (de_out d) < length src" if "reader_ok src k d" for d using that Suc.prems(3) by (simp add: reader_ok_def)
  show ?case
  proof (cases "?k < length src")
    case False
    then have fin: "?k = length src" using l(2) by simp
    have "encode_loop (Suc fuel) e = Inr e1" using e1(3) n False by simp
    moreover have "\<exists>d'. decode_loop n (length src) d = Inr d' \<and> de_out d' = src"
      if d: "reader_ok src k d" "de_huff d = en_huff e" "in_ok (de_bits d)" "in_bits (de_bits d) = (?c @ place_code t) @ rest" "16 \<le> length rest"
        "length src - k \<le> n" for d rest n
    proof -
      obtain d1 where d1: "decode_step (length src) d = Inr d1" "reader_ok src ?k d1" using read [OF d(1-3) _ d(5)] d(4) by auto
      obtain m where m: "n = Suc m" using d(6) Suc.prems(3) by (cases n) auto
      have "de_out d1 = src" using d1(2) fin by (simp add: reader_ok_def)
      moreover from this have "decode_loop m (length src) d1 = Inr d1" by (cases m) simp_all
      ultimately show ?thesis using d1(1) more [OF d(1)] m by simp
    qed
    ultimately show ?thesis using p by blast
  next
    case True
    obtain e2 bits where e2: "encode_loop fuel e1 = Inr e2" "out_ok (en_bits e2)" "out_bits (en_bits e2) = out_bits (en_bits e1) @ bits"
      "\<forall>d rest n. reader_ok src ?k d \<and> de_huff d = en_huff e1 \<and> in_ok (de_bits d) \<and> in_bits (de_bits d) = bits @ rest \<and> 16 \<le> length rest
            \<and> length src - ?k \<le> n \<longrightarrow> (\<exists>d'. decode_loop n (length src) d = Inr d' \<and> de_out d' = src)"
    proof -
      have "hf_freq (en_huff e1) 626 + (length src - ?k) \<le> 4181" "length src - ?k \<le> fuel" "huff_ok (en_huff e1)" "matched ?k e1"
        using h(2,3) e1(5,6) l Suc.prems(6,7) True by auto
      then show ?thesis using Suc.IH [OF e1(4) _ True _ p(1)] that by blast
    qed
    have "encode_loop (Suc fuel) e = Inr e2" using e1(3) n True e2(1) by simp
    moreover have "\<exists>d'. decode_loop n (length src) d = Inr d' \<and> de_out d' = src"
      if d: "reader_ok src k d" "de_huff d = en_huff e" "in_ok (de_bits d)" "in_bits (de_bits d) = (?c @ place_code t @ bits) @ rest" "16 \<le> length rest"
        "length src - k \<le> n" for d rest n
    proof -
      have "in_bits (de_bits d) = ?c @ place_code t @ bits @ rest" "16 \<le> length (bits @ rest)" using d(4,5) by simp_all
      then obtain d1 where d1: "decode_step (length src) d = Inr d1" "reader_ok src ?k d1" "de_huff d1 = h'" "in_ok (de_bits d1)"
        "in_bits (de_bits d1) = bits @ rest" using read [OF d(1-3)] by blast
      obtain m where m: "n = Suc m" using d(6) Suc.prems(3) by (cases n) auto
      then have "length src - ?k \<le> m" using d(6) l(1) by simp
      moreover have "de_huff d1 = en_huff e1" using d1(3) e1(6) by simp
      ultimately have "\<exists>d'. decode_loop m (length src) d1 = Inr d' \<and> de_out d' = src" using e2(4) d1(2,4,5) d(5) by blast
      then show ?thesis using d1(1) more [OF d(1)] m by simp
    qed
    moreover have "out_bits (en_bits e2) = out_bits (en_bits e) @ ?c @ place_code t @ bits" using e2(3) p(2) by simp
    ultimately show ?thesis using e2(2) by blast
  qed
qed simp


lemma encode_end_bits: "out_ok b \<Longrightarrow> \<exists>pad. concat (map byte_bits (encode_end b)) = out_bits b @ pad"
proof (cases "bo_putlen b = 0")
  case False
  assume "out_ok b"
  then have "bo_putlen b < 8" by (simp add: out_ok_def)
  then have "take 8 (word_bits (bo_putbuf b)) = take (bo_putlen b) (word_bits (bo_putbuf b)) @ drop (bo_putlen b) (take 8 (word_bits (bo_putbuf b)))"
    by (metis append_take_drop_id less_imp_le min.absorb1 take_take)
  then have "\<exists>pad. take 8 (word_bits (bo_putbuf b)) = take (bo_putlen b) (word_bits (bo_putbuf b)) @ pad" by blast
  then show ?thesis using False by (simp add: encode_end_def out_bits_def high_byte)
qed (simp add: encode_end_def out_bits_def)

lemma decode_start_reads:
  "reader_ok src 0 (decode_start stream)" "de_huff (decode_start stream) = start_huff" "in_ok (de_bits (decode_start stream))"
  "in_bits (de_bits (decode_start stream)) = concat (map byte_bits stream) @ replicate 32 False"
proof -
  show "reader_ok src 0 (decode_start stream)" by (auto simp: reader_ok_def decode_start_def fill_spaces_at tape_def)
  have "word_bits 0 = pad16 []" by (rule word_bits_eqI) (simp_all add: nth_word_bits nth_pad16)
  then show "in_ok (de_bits (decode_start stream))" by (simp add: in_ok_def decode_start_def)
qed (simp_all add: decode_start_def in_bits_def MAX_PAD_def)

lemma lz_roundtrip:
  assumes raw: "raw \<noteq> []" "length raw \<le> 3867"
  shows "\<exists>stream. lz_encode raw = Inr stream \<and> lz_decode stream (length raw) = Inr raw"
proof -
  obtain e where e: "encode_start raw = Inr e" "window_ok raw 0 e" "matched 0 e" "en_huff e = start_huff" "en_bits e = \<lparr>bo_out = [], bo_putbuf = 0, bo_putlen = 0\<rparr>"
    using encode_start_ok by blast
  have "word_bits 0 = pad16 []" by (rule word_bits_eqI) (simp_all add: nth_word_bits nth_pad16)
  then have b: "out_ok (en_bits e)" "out_bits (en_bits e) = []" by (simp_all add: e(5) out_ok_def out_bits_def)
  have "huff_ok (en_huff e)" "hf_freq (en_huff e) 626 + (length raw - 0) \<le> 4181" using start_huff_ok raw(2) e(4) by simp_all
  then obtain e' bits where e': "encode_loop (length raw + 1) e = Inr e'" "out_ok (en_bits e')" "out_bits (en_bits e') = bits"
      "\<forall>d rest n. reader_ok raw 0 d \<and> de_huff d = en_huff e \<and> in_ok (de_bits d) \<and> in_bits (de_bits d) = bits @ rest \<and> 16 \<le> length rest
            \<and> length raw - 0 \<le> n \<longrightarrow> (\<exists>d'. decode_loop n (length raw) d = Inr d' \<and> de_out d' = raw)"
    using encode_loop_read [OF e(2,3) _ _ b(1), of "length raw + 1"] raw(1) b(2) by auto
  let ?stream = "encode_end (en_bits e')"
  obtain pad where pad: "concat (map byte_bits ?stream) = bits @ pad" using encode_end_bits [OF e'(2)] e'(3) by auto
  have "\<exists>d'. decode_loop (length raw) (length raw) (decode_start ?stream) = Inr d' \<and> de_out d' = raw"
  proof -
    have "in_bits (de_bits (decode_start ?stream)) = bits @ pad @ replicate 32 False" using decode_start_reads(4) pad by simp
    moreover have "16 \<le> length (pad @ replicate 32 False)" "length raw - 0 \<le> length raw" by simp_all
    moreover have "de_huff (decode_start ?stream) = en_huff e" using decode_start_reads(2) e(4) by simp
    ultimately show ?thesis using e'(4) decode_start_reads(1,3) by blast
  qed
  then have "lz_decode ?stream (length raw) = Inr raw" by (auto simp: lz_decode_def)
  moreover have "lz_encode raw = Inr ?stream" using e(1) e'(1) by (simp add: lz_encode_def del: encode_loop.simps)
  ultimately show ?thesis by blast
qed

lemma lz_encode_returns: "\<exists>stream. lz_encode raw = Inr stream"
proof -
  obtain e where e: "encode_start raw = Inr e" "window_ok raw 0 e" "matched 0 e" "en_huff e = start_huff"
    using encode_start_ok by blast
  have h: "huff_ok (en_huff e)" using start_huff_ok e(4) by simp
  have "\<exists>e'. encode_loop (length raw + 1) e = Inr e'"
  proof (cases "raw = []")
    case False
    then show ?thesis using encode_loop_returns [OF e(2,3) _ h, of "length raw + 1"] by simp
  next
    case True
    then have z: "en_len e = 0" "en_src e = []" "trees_ok 0 e" using e(2) by (simp_all add: window_ok_def)
    let ?c = "unat (rg_text (en_ring e) (en_r e))"
    have "?c < 2 ^ LENGTH(8)" by (rule unsigned_less)
    moreover have "(2 :: nat) ^ LENGTH(8) = 256" by simp
    ultimately have "?c < 314" by linarith
    then obtain h' b where c: "encode_char ?c (en_huff e, en_bits e) = Inr (h', b)" using encode_char_returns [OF h] by blast
    let ?e = "e\<lparr>en_huff := h', en_bits := b, en_ring := (en_ring e)\<lparr>rg_len := 1\<rparr>\<rparr>"
    have t: "encode_token e = Inr ?e" using c z(1) by (simp add: encode_token_def Let_def)
    have "sons (en_ring ?e) = sons (en_ring e)" by (simp add: sons_def fun_eq_iff)
    then have "trees_ok 0 ?e" using z(3) by (simp add: trees_ok_def ring_ok_def)
    then obtain e' where e': "slide_out ?e = Inr e'" "en_len e' = -1" using slide_out_ok [of 0 ?e] z(1) by auto
    have "encode_step e = Inr e'" using t z(2) e'(1) by (simp add: encode_step_def)
    then show ?thesis using True e'(2) by simp
  qed
  then show ?thesis using e(1) by (auto simp: lz_encode_def simp del: encode_loop.simps)
qed

section \<open>Any stream is read or refused\<close>

lemma next_byte_error: "next_byte b = Inl x \<Longrightarrow> x = Stream_ends"
  by (auto simp: next_byte_def split: list.splits if_splits)

lemma refill_error: "refill b = Inl x \<Longrightarrow> x = Stream_ends"
  by (auto simp: refill_def refill_once_def dest: next_byte_error split: sum.splits if_splits)

lemma get_bit_total: "case get_bit b of Inl x \<Rightarrow> x = Stream_ends | Inr (n, b') \<Rightarrow> n \<le> 1"
  by (auto simp: get_bit_def top_bit dest: refill_error split: sum.splits)

lemma position_bits_total: "position_bits j i b = Inl x \<Longrightarrow> x = Stream_ends"
proof (induction j arbitrary: i b)
  case (Suc j)
  then show ?case using get_bit_total [of b] by (auto split: sum.splits)
qed simp

lemma decode_position_total: "decode_position b = Inl x \<Longrightarrow> x = Stream_ends"
  by (auto simp: decode_position_def get_byte_def Let_def dest: refill_error position_bits_total split: sum.splits)

lemma descend_total:
  "huff_links h \<Longrightarrow> c < 941 \<Longrightarrow> c < 627 \<longrightarrow> even c \<and> c < 626 \<Longrightarrow> c < 627 \<longrightarrow> c + 1 < fuel \<Longrightarrow> 0 < fuel \<Longrightarrow>
    case descend fuel h c b of Inl x \<Rightarrow> x = Stream_ends | Inr (c', b') \<Rightarrow> 627 \<le> c' \<and> c' < 941"
proof (induction fuel arbitrary: c b)
  case (Suc fuel)
  show ?case
  proof (cases "627 \<le> c")
    case True
    then show ?thesis using Suc.prems(2) by simp
  next
    case False
    then have c: "even c" "c < 626" "c + 1 < Suc fuel" using Suc.prems by simp_all
    show ?thesis
    proof (cases "get_bit b")
      case (Inl x)
      then show ?thesis using get_bit_total [of b] False by simp
    next
      case (Inr r)
      obtain n b' where r: "r = (n, b')" by (cases r)
      then have n: "n \<le> 1" using get_bit_total [of b] Inr by simp
      let ?s = "hf_son h (c + n)"
      have i: "c + n < 627" using c n by simp
      have s: "627 \<le> ?s \<and> ?s < 941 \<or> ?s < 627 \<and> even ?s \<and> ?s + 1 < c + n" using links_son [OF Suc.prems(1) i] by blast
      have "0 < fuel" using c(3) by simp
      then have "case descend fuel h ?s b' of Inl x \<Rightarrow> x = Stream_ends | Inr (c', b') \<Rightarrow> 627 \<le> c' \<and> c' < 941"
        using s c n by (intro Suc.IH [OF Suc.prems(1)]) auto
      then show ?thesis using Inr r False by simp
    qed
  qed
qed simp


lemma decode_char_total:
  assumes "huff_ok h"
  shows "case decode_char (h, b) of Inl x \<Rightarrow> x = Stream_ends | Inr (c, h', b') \<Rightarrow> c < 314 \<and> huff_ok h'"
proof -
  have links: "huff_links h" using assms by (simp add: huff_ok_def)
  have d: "case descend 628 h 624 b of Inl x \<Rightarrow> x = Stream_ends | Inr (c', b') \<Rightarrow> 627 \<le> c' \<and> c' < 941"
    by (rule descend_total [OF links]) simp_all
  show ?thesis
  proof (cases "descend 628 h 624 b")
    case (Inl x)
    then show ?thesis using d by (simp add: decode_char_def links_root(2) [OF links] del: descend.simps)
  next
    case (Inr r)
    obtain c b' where r: "r = (c, b')" by (cases r)
    then have c: "627 \<le> c" "c < 941" using d Inr by simp_all
    then have "c - 627 < 314" by simp
    then obtain h' where "huff_update (c - 627) h = Inr h'" "huff_ok h'" using huff_update_ok [OF assms] by blast
    then show ?thesis using Inr r \<open>c - 627 < 314\<close> by (simp add: decode_char_def links_root(2) [OF links] del: descend.simps)
  qed
qed

lemma decode_copy_grows:
  "length (de_out d) \<le> sz \<Longrightarrow> length (de_out (decode_copy n k pos sz d)) \<le> sz \<and> length (de_out d) \<le> length (de_out (decode_copy n k pos sz d))
    \<and> (0 < n \<and> length (de_out d) < sz \<longrightarrow> length (de_out d) < length (de_out (decode_copy n k pos sz d)))
    \<and> de_huff (decode_copy n k pos sz d) = de_huff d"
proof (induction n arbitrary: k d)
  case (Suc n)
  show ?case
  proof (cases "length (de_out d) < sz")
    case True
    let ?d = "decode_put (de_text d ((pos + k) mod LZ_N)) d"
    have "length (de_out ?d) = Suc (length (de_out d))" "de_huff ?d = de_huff d" by (simp_all add: decode_put_def)
    then show ?thesis using Suc.IH [of ?d "k + 1"] True by simp
  qed (use Suc.prems in simp)
qed simp

lemma decode_step_total:
  assumes h: "huff_ok (de_huff d)" and l: "length (de_out d) < sz"
  shows "case decode_step sz d of Inl x \<Rightarrow> x = Stream_ends
    | Inr d' \<Rightarrow> huff_ok (de_huff d') \<and> length (de_out d) < length (de_out d') \<and> length (de_out d') \<le> sz"
proof (cases "decode_char (de_huff d, de_bits d)")
  case (Inl x)
  then show ?thesis using decode_char_total [OF h, of "de_bits d"] by (simp add: decode_step_def)
next
  case (Inr r)
  obtain c h' b where r: "r = (c, h', b)" by (cases r)
  have h': "huff_ok h'" using decode_char_total [OF h, of "de_bits d"] Inr r by simp
  show ?thesis
  proof (cases "c < 256")
    case True
    then show ?thesis using Inr r h' l by (simp add: decode_step_def decode_put_def)
  next
    case False
    show ?thesis
    proof (cases "decode_position b")
      case (Inl x)
      then show ?thesis using Inr r False decode_position_total [OF Inl] by (simp add: decode_step_def)
    next
      case (Inr q)
      obtain p b2 where q: "q = (p, b2)" by (cases q)
      let ?d = "d\<lparr>de_huff := h', de_bits := b2\<rparr>" and ?pos = "(de_r d + 2 * LZ_N - p - 1) mod LZ_N" and ?j = "c - 255 + LZ_THRESHOLD"
      have "decode_step sz d = Inr (decode_copy ?j 0 ?pos sz ?d)"
        using \<open>decode_char (de_huff d, de_bits d) = Inr r\<close> r False Inr q by (simp add: decode_step_def Let_def del: decode_copy.simps add_2_eq_Suc')
      then show ?thesis using decode_copy_grows [of ?d sz ?j 0 ?pos] l h' by (simp del: decode_copy.simps add_2_eq_Suc')
    qed
  qed
qed

lemma decode_loop_total:
  "huff_ok (de_huff d) \<Longrightarrow> length (de_out d) \<le> sz \<Longrightarrow> sz - length (de_out d) \<le> n \<Longrightarrow>
    case decode_loop n sz d of Inl x \<Rightarrow> x = Stream_ends | Inr d' \<Rightarrow> length (de_out d') = sz"
proof (induction n arbitrary: d)
  case (Suc n)
  show ?case
  proof (cases "length (de_out d) < sz")
    case True
    show ?thesis
    proof (cases "decode_step sz d")
      case (Inl x)
      then show ?thesis using decode_step_total [OF Suc.prems(1) True] True by simp
    next
      case (Inr d')
      then have d': "huff_ok (de_huff d')" "length (de_out d) < length (de_out d')" "length (de_out d') \<le> sz"
        using decode_step_total [OF Suc.prems(1) True] by simp_all
      then have "sz - length (de_out d') \<le> n" using Suc.prems(3) by simp
      then show ?thesis using Suc.IH [OF d'(1,3)] Inr True by simp
    qed
  qed (use Suc.prems in simp)
qed simp

lemma lz_decode_total: "case lz_decode stream sz of Inl x \<Rightarrow> x = Stream_ends | Inr out \<Rightarrow> length out = sz"
proof -
  have "case decode_loop sz sz (decode_start stream) of Inl x \<Rightarrow> x = Stream_ends | Inr d' \<Rightarrow> length (de_out d') = sz"
    by (rule decode_loop_total) (simp_all add: decode_start_def start_huff_ok)
  then show ?thesis by (simp add: lz_decode_def split: sum.splits)
qed

section \<open>The frames round trip\<close>

lemma length_lz_le32 [simp]: "length (lz_le32 n) = 4"
  by (simp add: lz_le32_def Let_def)

lemma byte_at: "bit (push_bit k (ucast (ucast (drop_bit k w) :: byte)) :: 'a word) n \<longleftrightarrow> k \<le> n \<and> n < k + 8 \<and> bit w n"
  if "n < LENGTH('a)" for w :: "'a :: len word"
  using that by (cases "k \<le> n") (auto simp: bit_push_bit_iff bit_ucast_iff bit_drop_bit_eq)

lemma le32_bytes: "ucast (ucast w :: byte) OR push_bit 8 (ucast (ucast (drop_bit 8 w) :: byte)) OR push_bit 16 (ucast (ucast (drop_bit 16 w) :: byte))
    OR push_bit 24 (ucast (ucast (drop_bit 24 w) :: byte)) = w" for w :: "32 word"
proof (rule bit_word_eqI)
  fix n assume n: "n < LENGTH(32)"
  have "bit (ucast (ucast w :: byte) :: 32 word) n \<longleftrightarrow> n < 8 \<and> bit w n" using byte_at [OF n, of 0 w] by simp
  then show "bit (ucast (ucast w :: byte) OR push_bit 8 (ucast (ucast (drop_bit 8 w) :: byte)) OR push_bit 16 (ucast (ucast (drop_bit 16 w) :: byte))
    OR push_bit 24 (ucast (ucast (drop_bit 24 w) :: byte)) :: 32 word) n = bit w n"
    unfolding bit_or_iff byte_at [OF n] using n by auto
qed

lemma lz_rd32_le32: "n < 2 ^ 32 \<Longrightarrow> lz_rd32 (lz_le32 n @ xs) 0 = n"
proof -
  assume n: "n < 2 ^ 32"
  have "lz_rd32 (lz_le32 n @ xs) 0 = unat (of_nat n :: 32 word)"
    unfolding lz_rd32_def lz_le32_def Let_def by (simp add: le32_bytes)
  then show ?thesis using n by (simp add: unat_of_nat take_bit_nat_eq_self)
qed

lemma declared_size_lz_le32: "n < 2 ^ 32 \<Longrightarrow> n \<le> m \<Longrightarrow> declared_size (lz_le32 n @ xs) 0 m = Inr n"
  by (simp add: declared_size_def lz_rd32_le32)

lemma crc_bytes: "ucast (ucast w :: byte) OR push_bit 8 (ucast (ucast (drop_bit 8 w) :: byte)) = w" for w :: "16 word"
proof (rule bit_word_eqI)
  fix n assume n: "n < LENGTH(16)"
  have "bit (ucast (ucast w :: byte) :: 16 word) n \<longleftrightarrow> n < 8 \<and> bit w n" using byte_at [OF n, of 0 w] by simp
  then show "bit (ucast (ucast w :: byte) OR push_bit 8 (ucast (ucast (drop_bit 8 w) :: byte)) :: 16 word) n = bit w n"
    unfolding bit_or_iff byte_at [OF n] using n by auto
qed


lemma frame_read_back:
  assumes "length raw \<le> 3867" "length raw \<le> max_size"
  shows "\<exists>frame. lzhuf_encode_B1 raw = Inr frame \<and> lzhuf_decode_B1 frame max_size = Inr (raw, True)"
proof -
  have "\<exists>stream. lz_encode raw = Inr stream \<and> lz_decode stream (length raw) = Inr raw"
    using lz_roundtrip [of raw] lz_encode_returns [of raw] assms(1) by (cases "raw = []") (auto simp: lz_decode_def decode_start_def)
  then obtain stream where s: "lz_encode raw = Inr stream" "lz_decode stream (length raw) = Inr raw" by blast
  define body where "body = lz_le32 (length raw) @ stream"
  define crc where "crc = fbb_crc16 0 body"
  let ?frame = "[ucast crc, ucast (drop_bit 8 crc)] @ body"
  have e: "lzhuf_encode_B1 raw = Inr ?frame" by (simp add: lzhuf_encode_B1_def s(1) Let_def body_def crc_def)
  have "declared_size body 0 max_size = Inr (length raw)" using assms unfolding body_def by (intro declared_size_lz_le32) simp_all
  moreover have "drop 4 body = stream" by (simp add: body_def)
  moreover have "\<not> length ?frame < 6" by (simp add: body_def)
  ultimately have "lzhuf_decode_B1 ?frame max_size = Inr (raw, True)"
    using s(2) by (simp add: lzhuf_decode_B1_def Let_def crc_def [symmetric] crc_bytes)
  then show ?thesis using e by blast
qed

text \<open>C5: 
  A message of at most 3867 bytes comes back from its B1 frame as it was, with its CRC accepted, and the frame of
  any message is made: below that size no code of the adaptive tree is longer than its 16-bit register.
\<close>

theorem lzhuf_B1_roundtrip:
  assumes "length raw \<le> 3867" "length raw \<le> max_size"
  shows "\<exists>frame. lzhuf_encode_B1 raw = Inr frame \<and> lzhuf_decode_B1 frame max_size = Inr (raw, True)"
  by (rule frame_read_back [OF assms])

lemma lzhuf_B1_roundtrip_witness:
  "\<exists>frame. lzhuf_encode_B1 [0x48, 0x69, 0x48, 0x69] = Inr frame \<and> lzhuf_decode_B1 frame 100 = Inr ([0x48, 0x69, 0x48, 0x69], True)"
  by (rule lzhuf_B1_roundtrip) simp_all

text \<open>C7: 
  Whatever comes over the air, a frame is decompressed to exactly the size it declares, which the ceiling bounds,
  or refused: the decoder never loops, however the stream is made. A B1 frame is decompressed exactly when its checksum
  is right; with a wrong one it comes back empty and marked.
\<close>

theorem lzhuf_decode_bounded:
  "(case lzhuf_decode_B0 frame max_size of
      Inl x \<Rightarrow> x \<noteq> Loops
    | Inr out \<Rightarrow> length out = lz_rd32 frame 0 \<and> length out \<le> max_size)
   \<and> (case lzhuf_decode_B1 frame max_size of
        Inl x \<Rightarrow> x \<noteq> Loops
      | Inr (out, ok) \<Rightarrow> length out = (if ok then lz_rd32 (drop 2 frame) 0 else 0) \<and> length out \<le> max_size
          \<and> (ok \<longleftrightarrow> fbb_crc16 0 (drop 2 frame) = ucast (frame ! 0) OR push_bit 8 (ucast (frame ! 1))))"
proof
  have s: "case declared_size b 0 max_size of Inl x \<Rightarrow> x \<noteq> Loops | Inr n \<Rightarrow> n = lz_rd32 b 0 \<and> n \<le> max_size" for b
    by (simp add: declared_size_def)
  show "case lzhuf_decode_B0 frame max_size of Inl x \<Rightarrow> x \<noteq> Loops | Inr out \<Rightarrow> length out = lz_rd32 frame 0 \<and> length out \<le> max_size"
    using s [of frame] lz_decode_total [where stream = "drop 4 frame" and sz = "lz_rd32 frame 0"] by (auto simp: lzhuf_decode_B0_def split: sum.splits)
  show "case lzhuf_decode_B1 frame max_size of Inl x \<Rightarrow> x \<noteq> Loops
      | Inr (out, ok) \<Rightarrow> length out = (if ok then lz_rd32 (drop 2 frame) 0 else 0) \<and> length out \<le> max_size
          \<and> (ok \<longleftrightarrow> fbb_crc16 0 (drop 2 frame) = ucast (frame ! 0) OR push_bit 8 (ucast (frame ! 1)))"
    using s [of "drop 2 frame"] lz_decode_total [where stream = "drop 4 (drop 2 frame)" and sz = "lz_rd32 (drop 2 frame) 0"]
    by (auto simp: lzhuf_decode_B1_def Let_def split: sum.splits)
qed

fun count_all :: "nat list \<Rightarrow> huff \<Rightarrow> lz_error + huff" where
  "count_all [] h = Inr h"
| "count_all (c # cs) h = (case huff_update c h of Inl e \<Rightarrow> Inl e | Inr h \<Rightarrow> count_all cs h)"

lemma count_all_ok: "huff_ok h \<Longrightarrow> \<forall>c\<in>set cs. c < N_CHAR \<Longrightarrow> \<exists>h'. count_all cs h = Inr h' \<and> huff_ok h'"
proof (induction cs arbitrary: h)
  case (Cons c cs)
  then obtain h' where "huff_update c h = Inr h'" "huff_ok h'" using huff_update_ok [of h c] by auto
  then show ?case using Cons by simp
qed simp

text \<open>C28: The adaptive tree stays a tree whatever is counted: any sequence of characters is counted without the walk
  to the root running on, and leaves every node with its place, its parent, the sum of its sons and the counts in order.
\<close>

theorem huffman_tree_kept:
  assumes "\<forall>c\<in>set cs. c < N_CHAR"
  shows "\<exists>h. count_all cs start_huff = Inr h \<and> huff_ok h"
  using count_all_ok [OF start_huff_ok(1) assms] .

lemma huffman_tree_kept_witness: "\<exists>h. count_all [72, 105, 105, 256] start_huff = Inr h \<and> huff_ok h"
  by (rule huffman_tree_kept) simp

text \<open>C31: Compressing returns for every source, through every insertion into and deletion from the search trees.\<close>

theorem lzhuf_encode_returns: "(\<exists>f. lzhuf_encode_B0 raw = Inr f) \<and> (\<exists>f. lzhuf_encode_B1 raw = Inr f)"
  using lz_encode_returns [of raw] by (auto simp: lzhuf_encode_B0_def lzhuf_encode_B1_def Let_def)

end
