(* ===== verification/Fbb_Compressed.thy ===== *)
theory Fbb_Compressed
  imports Fbb_Exchange Lzhuf_Roundtrip
begin

text \<open>
  Compressed forwarding of a message, \<open>encodeFbbCompressed\<close>, \<open>fbbCompressedLength\<close> and \<open>decodeFbbCompressed\<close> of
  \<open>packages/packet/src/fbb-binary.ts\<close>: the body through LZHUF, the stream in blocks behind a header. With it the
  forwarding session's interface to a compression is the code's own.
\<close>

section \<open>Compressed messages\<close>

definition encode_fbb_compressed :: "string \<Rightarrow> string \<Rightarrow> nat option \<Rightarrow> lz_error + byte list" where
  "encode_fbb_compressed title body off =
     (let offset = (case off of None \<Rightarrow> 0 | Some n \<Rightarrow> n)
      in case lzhuf_encode_B1 (to_crlf body) of
           Inl e \<Rightarrow> Inl e
         | Inr stream \<Rightarrow>
             Inr (encode_binary_transfer (build_header title offset)
                    (if 0 < offset then drop (min offset (length stream)) stream else stream)))"

definition fbb_compressed_length :: "string \<Rightarrow> lz_error + nat" where
  "fbb_compressed_length body = (case lzhuf_encode_B1 (to_crlf body) of Inl e \<Rightarrow> Inl e | Inr stream \<Rightarrow> Inr (length stream))"

definition decode_fbb_compressed :: "binary_transfer \<Rightarrow> byte list option \<Rightarrow> nat \<Rightarrow> lz_error + string \<times> string \<times> bool" where
  "decode_fbb_compressed t prior max_size =
     (let (title, offset) = parse_binary_header (bt_header t);
          head = (case prior of Some p \<Rightarrow> if 0 < offset then take (nat offset) p else [] | None \<Rightarrow> []);
          stream = head @ bt_data t
      in case lzhuf_decode_B1 stream max_size of
           Inl e \<Rightarrow> Inl e
         | Inr (data, crc_ok) \<Rightarrow> Inr (title, from_crlf data, crc_ok \<and> bt_checksum_ok t))"

text \<open>As the session calls them; the catch around the decoder is the option. The encoder never fails.\<close>

definition lzhuf_codec :: fbb_codec where
  "lzhuf_codec =
     \<lparr>cz_compress = (\<lambda>title body off. case encode_fbb_compressed title body off of Inl e \<Rightarrow> [] | Inr bs \<Rightarrow> bs),
      cz_decompress = (\<lambda>t n. case decode_fbb_compressed t None n of Inl e \<Rightarrow> None | Inr r \<Rightarrow> Some r)\<rparr>"

section \<open>The session over it\<close>

lemma crlf_lf_shorter: "length (crlf_lf s) \<le> length s"
  by (induction s rule: crlf_lf.induct) auto

lemma decode_B1_bounded: "lzhuf_decode_B1 frame n = Inr (data, ok) \<Longrightarrow> length data \<le> n"
  using lz_decode_total [where stream = "drop 4 (drop 2 frame)" and sz = "lz_rd32 (drop 2 frame) 0"]
  by (auto simp: lzhuf_decode_B1_def declared_size_def Let_def split: sum.splits if_splits)

lemma decompressed_bounded: "cz_decompress lzhuf_codec t n = Some (title, body, ok) \<Longrightarrow> length body \<le> n"
proof -
  assume "cz_decompress lzhuf_codec t n = Some (title, body, ok)"
  then obtain data c where d: "lzhuf_decode_B1 (bt_data t) n = Inr (data, c)" "body = from_crlf data"
    by (auto simp: lzhuf_codec_def decode_fbb_compressed_def Let_def split_beta split: sum.splits)
  have "length body \<le> length data" using crlf_lf_shorter [of "bytes_text data"] by (simp add: d(2) from_crlf_def bytes_text_def)
  then show ?thesis using decode_B1_bounded [OF d(1)] by simp
qed

interpretation fbb: bounded_codec lzhuf_codec
  by unfold_locales (rule decompressed_bounded)

lemma new_session_inv: "fbb_inv (set held \<union> set (map fm_bid queue)) [] (new_fbb_session (new_session_store queue held) opts)"
  by (auto simp: fbb_inv_def new_fbb_session_def new_session_store_def fbb_store_inv_def MAX_BLOCK_def)

lemma between_blocks: "fbb_inv held base s \<Longrightarrow> fs_phase s \<notin> {Recv_Block, Done} \<Longrightarrow> fbb_inv (set (ss_held (fs_store s))) (ss_inbox (fs_store s)) s"
  by (auto simp: fbb_inv_def fbb_store_inv_def)

text \<open>C35: 
  Whatever lines and transfers a partner sends, a session with the code's compression stores no message it held
  when it began, no body above the ceiling, offers at most five messages at a time, never waits for bodies
  nobody announced, and holds the identifier of each message it has stored. And from any moment at which it is not inside
  a block, whatever comes next, it stores nothing whose identifier it then holds: a message stored in one block is not
  stored again in a later one (within one block it can be, \<open>block_stores_twice\<close>).
\<close>

theorem compressed_session_inv:
  fixes held :: "string list" and queue :: "fbb_message list" and opts :: fbb_opts and before later :: "fbb_event list"
  defines "s \<equiv> foldl (fbb_step lzhuf_codec) (new_fbb_session (new_session_store queue held) opts) before"
  shows "fbb_inv (set held \<union> set (map fm_bid queue)) [] s
    \<and> (fs_phase s \<notin> {Recv_Block, Done} \<longrightarrow>
        (\<exists>new. ss_inbox (fs_store (foldl (fbb_step lzhuf_codec) s later)) = ss_inbox (fs_store s) @ new
           \<and> list_all (\<lambda>m. fm_bid m \<notin> set (ss_held (fs_store s)) \<and> fm_bid m \<notin> fm_bid ` set (ss_inbox (fs_store s))) new))"
proof
  show i: "fbb_inv (set held \<union> set (map fm_bid queue)) [] s"
    unfolding s_def by (rule fbb.session.run_inv_foldl [OF new_session_inv]) simp
  show "fs_phase s \<notin> {Recv_Block, Done} \<longrightarrow>
        (\<exists>new. ss_inbox (fs_store (foldl (fbb_step lzhuf_codec) s later)) = ss_inbox (fs_store s) @ new
           \<and> list_all (\<lambda>m. fm_bid m \<notin> set (ss_held (fs_store s)) \<and> fm_bid m \<notin> fm_bid ` set (ss_inbox (fs_store s))) new)"
  proof
    assume "fs_phase s \<notin> {Recv_Block, Done}"
    then have "fbb_inv (set (ss_held (fs_store s))) (ss_inbox (fs_store s)) (foldl (fbb_step lzhuf_codec) s later)"
      using between_blocks [OF i] by (intro fbb.session.run_inv_foldl) simp_all
    then obtain new where n: "ss_inbox (fs_store (foldl (fbb_step lzhuf_codec) s later)) = ss_inbox (fs_store s) @ new"
      "\<forall>m\<in>set new. fm_bid m \<notin> set (ss_held (fs_store s))" by (auto simp: fbb_inv_def fbb_store_inv_def)
    moreover have "fm_bid ` set (ss_inbox (fs_store s)) \<subseteq> set (ss_held (fs_store s))" using i by (simp add: fbb_inv_def fbb_store_inv_def)
    ultimately have "list_all (\<lambda>m. fm_bid m \<notin> set (ss_held (fs_store s)) \<and> fm_bid m \<notin> fm_bid ` set (ss_inbox (fs_store s))) new"
      unfolding list_all_iff by blast
    with n(1) show "\<exists>new. ss_inbox (fs_store (foldl (fbb_step lzhuf_codec) s later)) = ss_inbox (fs_store s) @ new
           \<and> list_all (\<lambda>m. fm_bid m \<notin> set (ss_held (fs_store s)) \<and> fm_bid m \<notin> fm_bid ` set (ss_inbox (fs_store s))) new" by blast
  qed
qed

text \<open>A message offered, stored, and offered again.\<close>

definition offered :: "fbb_event list" where
  "offered = map Line (build_proposal (map offer_of [sample_message]) @ message_text sample_message)"

lemma feed_lines_steps: "snd (feed_lines cz s ls) = foldl (fbb_step cz) s (map Line ls)"
  by (induction ls arbitrary: s) (simp_all add: split_beta Let_def)

lemma offered_once:
  assumes "s = foldl (fbb_step cz) (new_fbb_session (new_session_store [] []) (called_opts True)) (Line default_sid # offered)"
  shows "fs_phase s \<notin> {Recv_Block, Done}" "ss_inbox (fs_store s) = [received sample_message]"
proof -
  obtain reply b where b: "fbb_feed cz (called True []) default_sid = (reply, False, b)" "listening b" "fs_store b = new_session_store [] []"
    using called_hears_sid by blast
  have w: "wanted_of (fs_store b) [sample_message] = [sample_message]" by (simp add: b(3) wanted_of_def has_bid_def new_session_store_def)
  let ?b = "b\<lparr>fs_pending_rx := map (\<lambda>m. upper_proposal (offer_of m)) [sample_message], fs_phase := Recv_Block\<rparr>"
  have o: "feed_lines cz b (build_proposal (map offer_of [sample_message])) = ([answer_to (fs_store b) [sample_message]], ?b)"
    using hear_offer [OF b(2), of "[sample_message]" cz] sendable_sample w by (simp add: sendable_def)
  have "feed_lines cz ?b (concat (map message_text [sample_message])) =
      propose_block (?b\<lparr>fs_pending_rx := [], fs_store := fold (\<lambda>m. store_accept (received m)) [sample_message] (fs_store ?b)\<rparr>)"
    using b(2) sendable_sample by (intro feed_messages) (simp_all add: listening_def ready_rx_def)
  then have m: "feed_lines cz ?b (message_text sample_message) =
      propose_block (?b\<lparr>fs_pending_rx := [], fs_store := store_accept (received sample_message) (fs_store b)\<rparr>)" by simp
  have "s = foldl (fbb_step cz) b offered" using b(1) by (simp add: assms called_def)
  also have "\<dots> = snd (feed_lines cz ?b (message_text sample_message))"
    unfolding offered_def feed_lines_steps [symmetric] feed_lines_append o by simp
  finally have "s = snd (propose_block (?b\<lparr>fs_pending_rx := [], fs_store := store_accept (received sample_message) (fs_store b)\<rparr>))"
    unfolding m .
  then show "fs_phase s \<notin> {Recv_Block, Done}" "ss_inbox (fs_store s) = [received sample_message]"
    using propose_block_phase(1) [of "?b\<lparr>fs_pending_rx := [], fs_store := store_accept (received sample_message) (fs_store b)\<rparr>"]
    by (auto simp: propose_block_phase(2) store_accept_def b(3) new_session_store_def)
qed

lemma compressed_session_inv_witness:
  "\<exists>s new. s = foldl (fbb_step lzhuf_codec) (new_fbb_session (new_session_store [] []) (called_opts True)) (Line default_sid # offered)
    \<and> ss_inbox (fs_store s) = [received sample_message]
    \<and> ss_inbox (fs_store (foldl (fbb_step lzhuf_codec) s offered)) = received sample_message # new
    \<and> list_all (\<lambda>m. fm_bid m \<noteq> ''17_X'') new"
proof -
  let ?s = "foldl (fbb_step lzhuf_codec) (new_fbb_session (new_session_store [] []) (called_opts True)) (Line default_sid # offered)"
  have "fm_bid (received sample_message) = ''17_X''" by (simp add: received_def sample_message_def)
  then show ?thesis using compressed_session_inv [where held = "[]" and queue = "[]" and opts = "called_opts True" and before = "Line default_sid # offered" and later = offered] offered_once [of ?s lzhuf_codec]
    by (auto simp: list_all_iff simp del: foldl_Cons)
qed

text \<open>C32: 
  A message of at most 3867 bytes with its line ends as CR LF, in ASCII, without a carriage return in its body or a NUL in
  its title, whose header fits its length byte, and within the size limits of the receiver, sent compressed, from its start or
  resumed at an offset the receiver holds the stream up to (and perhaps past), comes out of the receiver's block reader and
  decoder with its title and body as they were and both checksums accepted.
\<close>

theorem compressed_message_roundtrip:
  assumes "CHR 0x00 \<notin> set title" "CHR 0x0d \<notin> set body" "length (to_crlf body) \<le> 3867"
    and "length (build_header title (case off of None \<Rightarrow> 0 | Some n \<Rightarrow> n)) < 256"
    and "lzhuf_encode_B1 (to_crlf body) = Inr stream" "length stream \<le> limit" "256 \<le> limit" "length (to_crlf body) \<le> max_size"
    and "case off of None \<Rightarrow> True | Some n \<Rightarrow> n \<le> length stream"
  shows "\<exists>bytes t. encode_fbb_compressed title body off = Inr bytes
    \<and> bd_push (new_bt_decoder limit) bytes = (new_bt_decoder limit, [t])
    \<and> decode_fbb_compressed t (map_option (\<lambda>n. take n stream @ extra) off) max_size = Inr (title, body, True)"
proof -
  define offset where "offset = (case off of None \<Rightarrow> 0 | Some n \<Rightarrow> n)"
  let ?h = "build_header title offset"
  have offset: "offset \<le> length stream" using assms(9) by (cases off) (simp_all add: offset_def)
  have data: "(if 0 < offset then drop (min offset (length stream)) stream else stream) = drop offset stream" using offset by simp
  let ?t = "\<lparr>bt_header = ?h, bt_data = drop offset stream, bt_checksum_ok = True\<rparr>"
  have e: "encode_fbb_compressed title body off = Inr (encode_binary_transfer ?h (drop offset stream))"
    using data by (simp add: encode_fbb_compressed_def Let_def offset_def [symmetric] assms(5))
  have p: "bd_push (new_bt_decoder limit) (encode_binary_transfer ?h (drop offset stream)) = (new_bt_decoder limit, [?t])"
    using transfer_read_back [of "new_bt_decoder limit" ?h "drop offset stream"] assms(4,6,7) by (simp add: new_bt_decoder_def offset_def)
  have head: "(case map_option (\<lambda>n. take n stream @ extra) off of Some p \<Rightarrow> if 0 < int offset then take (nat (int offset)) p else [] | None \<Rightarrow> []) @ drop offset stream = stream"
    using assms(9) by (cases off) (simp_all add: offset_def)
  have "lzhuf_decode_B1 stream max_size = Inr (to_crlf body, True)"
    using frame_read_back [OF assms(3,8)] assms(5) by simp
  then have "decode_fbb_compressed ?t (map_option (\<lambda>n. take n stream @ extra) off) max_size = Inr (title, body, True)"
    using header_roundtrip [OF assms(1), of offset] head crlf_roundtrip [OF assms(2)] by (simp add: decode_fbb_compressed_def Let_def)
  then show ?thesis using e p by blast
qed


lemma compressed_message_roundtrip_witness:
  "\<exists>stream limit bytes t. lzhuf_encode_B1 (to_crlf ''Hello there'') = Inr stream \<and> encode_fbb_compressed ''Test'' ''Hello there'' (Some 3) = Inr bytes
    \<and> bd_push (new_bt_decoder limit) bytes = (new_bt_decoder limit, [t])
    \<and> decode_fbb_compressed t (Some (take 3 stream @ [9])) 65536 = Inr (''Test'', ''Hello there'', True)"
proof -
  obtain body where "lz_encode (to_crlf ''Hello there'') = Inr body" using lz_encode_returns by blast
  then obtain stream where s: "lzhuf_encode_B1 (to_crlf ''Hello there'') = Inr stream" by (simp add: lzhuf_encode_B1_def Let_def)
  have "6 \<le> length stream" using s by (auto simp: lzhuf_encode_B1_def Let_def split: sum.splits)
  moreover have "length (to_crlf ''Hello there'') = 11" by (simp add: to_crlf_def)
  moreover have "length (build_header ''Test'' 3) < 256" by (simp add: build_header_def nat_str.simps)
  ultimately have "\<exists>bytes t. encode_fbb_compressed ''Test'' ''Hello there'' (Some 3) = Inr bytes
    \<and> bd_push (new_bt_decoder (length stream + 256)) bytes = (new_bt_decoder (length stream + 256), [t])
    \<and> decode_fbb_compressed t (map_option (\<lambda>n. take n stream @ [9]) (Some 3)) 65536 = Inr (''Test'', ''Hello there'', True)"
    using s by (intro compressed_message_roundtrip) simp_all
  then obtain bytes t where "encode_fbb_compressed ''Test'' ''Hello there'' (Some 3) = Inr bytes"
    "bd_push (new_bt_decoder (length stream + 256)) bytes = (new_bt_decoder (length stream + 256), [t])"
    "decode_fbb_compressed t (Some (take 3 stream @ [9])) 65536 = Inr (''Test'', ''Hello there'', True)" by auto
  then show ?thesis using s by blast
qed

end
