(* ===== verification/Bbs_Link.thy ===== *)
theory Bbs_Link
  imports Bbs_Session Line_Driver Fbb_Compressed
begin

text \<open>
  The BBS on a link: the session as the application of a line driver, and the gate of
  \<open>packages/packet/src/bbs-fbb-gate.ts\<close> in front of it, which turns a session whose caller announces itself with a SID
  into a forwarding session.
\<close>

section \<open>The BBS as a line application\<close>

definition reply_of :: "bbs_reply \<Rightarrow> line_reply" where
  "reply_of r = \<lparr>lr_lines = br_lines r, lr_disconnect = br_disconnect r, lr_connect = None\<rparr>"

definition bbs_app :: "'s store_ops \<Rightarrow> 's bbs line_app" where
  "bbs_app ops = \<lparr>la_greeting = greeting ops, la_handle = (\<lambda>b l. let (b', r) = bbs_handle ops l b in (b', Now (reply_of r)))\<rparr>"

definition sync :: "'a line_app \<Rightarrow> bool" where
  "sync ap = (\<forall>a l. \<exists>r. snd (la_handle ap a l) = Now r)"

text \<open>The text of lines each with the line break that ends it, and what a synchronous application makes of the lines.\<close>

definition typed :: "(string \<times> char) list \<Rightarrow> string" where
  "typed ls = concat (map (\<lambda>(l, c). l @ [c]) ls)"

definition line_ok :: "string \<times> char \<Rightarrow> bool" where
  "line_ok x = (plain_line (fst x) \<and> is_line_break (snd x))"

fun answers :: "'a line_app \<Rightarrow> on_connect \<Rightarrow> string list \<Rightarrow> 'a driver \<Rightarrow> 'a driver" where
  "answers ap oc [] d = d"
| "answers ap oc (l # ls) d =
     (case la_handle ap (dr_app d) l of (a, Now r) \<Rightarrow> answers ap oc ls (apply_reply oc r (d\<lparr>dr_app := a\<rparr>)) | (a, Later _) \<Rightarrow> d)"

lemma next_typed: "line_ok (l, c) \<Longrightarrow> next_line (l @ c # rest) = Some (l, rest)"
  by (auto simp: next_line_Some plain_line_def line_ok_def)

lemma apply_none_buf: "apply_reply None r (d\<lparr>dr_buf := x\<rparr>) = (apply_reply None r d)\<lparr>dr_buf := x\<rparr>"
  by (auto simp: apply_reply_def Let_def emit_def push_lines_def split: option.split)

lemma pump_typed:
  assumes "sync ap" "\<forall>x\<in>set ls. line_ok x" "\<not> dr_busy d"
  shows "pump ap None (d\<lparr>dr_buf := typed ls\<rparr>) = (answers ap None (map fst ls) d)\<lparr>dr_buf := []\<rparr>"
  using assms(2,3)
proof (induction ls arbitrary: d)
  case Nil
  then show ?case by (simp add: pump_stop typed_def next_line_def)
next
  case (Cons x ls)
  obtain l c where x: "x = (l, c)" by (cases x)
  obtain a r where h: "la_handle ap (dr_app d) l = (a, Now r)" using assms(1) unfolding sync_def by (metis prod.collapse)
  have n: "next_line (dr_buf (d\<lparr>dr_buf := typed (x # ls)\<rparr>)) = Some (l, typed ls)"
    using next_typed [of l c "typed ls"] Cons.prems(1) x by (simp add: typed_def)
  have "(d\<lparr>dr_buf := typed (x # ls)\<rparr>)\<lparr>dr_app := a, dr_buf := typed ls\<rparr> = (d\<lparr>dr_app := a\<rparr>)\<lparr>dr_buf := typed ls\<rparr>" by (cases d) simp
  then have "pump ap None (d\<lparr>dr_buf := typed (x # ls)\<rparr>) = pump ap None ((apply_reply None r (d\<lparr>dr_app := a\<rparr>))\<lparr>dr_buf := typed ls\<rparr>)"
    using pump_now [OF _ n, of ap a r None] h Cons.prems(2) by (simp add: apply_none_buf)
  then show ?case using Cons.IH [of "apply_reply None r (d\<lparr>dr_app := a\<rparr>)"] Cons.prems h x by simp
qed

text \<open>A line within the limit of the driver keeps every read within it, wherever the text is cut.\<close>

lemma tail_of_prefix:
  "\<forall>x\<in>set ls. line_ok x \<and> length (fst x) \<le> n \<Longrightarrow> prefix t (typed ls) \<Longrightarrow> tail_len t \<le> n"
proof (induction ls arbitrary: t)
  case Nil
  then show ?case by (simp add: typed_def tail_len_def)
next
  case (Cons x ls)
  obtain l c where x: "x = (l, c)" by (cases x)
  have "prefix t (l @ c # typed ls)" using Cons.prems(2) x by (simp add: typed_def)
  then have "prefix t l \<or> (\<exists>us. t = l @ us \<and> prefix us (c # typed ls))" by (simp add: prefix_append)
  then consider "prefix t l" | u where "t = l @ c # u" "prefix u (typed ls)"
    by (auto simp: prefix_Cons)
  then show ?case
  proof cases
    case 1
    then have "length t \<le> n" using Cons.prems(1) prefix_length_le [of t l] x by simp
    then show ?thesis using tail_len_le [of t] by simp
  next
    case 2
    have "is_line_break c" using Cons.prems(1) x by (simp add: line_ok_def)
    from tail_len_break [OF this, of l u] have "tail_len t = tail_len u" using 2(1) by simp
    then show ?thesis using Cons.IH [of u] Cons.prems(1) 2(2) by simp
  qed
qed

lemma pump_tail: "tail_len (dr_buf (pump ap None d)) = tail_len (dr_buf d)"
proof (induction d rule: pump_induct [where ap = ap and oc = None])
  case (now d l rest a r)
  then show ?case using pump_now [OF now(1-3)] tail_len_next [OF now(2)] by simp
next
  case (later d l rest a out)
  then show ?case using pump_later [OF later(1-3)] tail_len_next [OF later(2)] by simp
qed (simp add: pump_stop)

lemma pump_sync_idle: "sync ap \<Longrightarrow> \<not> dr_busy d \<Longrightarrow> \<not> dr_busy (pump ap None d) \<and> next_line (dr_buf (pump ap None d)) = None"
proof (induction d rule: pump_induct [where ap = ap and oc = None])
  case (now d l rest a r)
  then show ?case using pump_now [OF now(1-3)] by simp
next
  case (later d l rest a out)
  then show ?case unfolding sync_def by (metis answer.distinct(1) snd_conv)
qed (simp add: pump_stop)

lemma sync_reads:
  assumes "sync ap" "\<not> dr_relay d" "\<not> dr_busy d" "\<forall>t. prefix t (dr_buf d @ bytes_text (concat cs)) \<longrightarrow> tail_len t \<le> MAX_LINE_BUF"
  shows "foldl (drv_step ap None) (pump ap None d) (map Data cs) = pump ap None (with_text (bytes_text (concat cs)) d)"
  using assms(2-4)
proof (induction cs arbitrary: d)
  case Nil
  then show ?case by (simp add: bytes_text_def)
next
  case (Cons c cs)
  let ?e = "with_text (bytes_text c) d"
  have p: "pump ap None (with_text (bytes_text c) (pump ap None d)) = pump ap None ?e" by (rule pump_more)
  have idle: "\<not> dr_busy (pump ap None ?e)" "next_line (dr_buf (pump ap None ?e)) = None"
    using pump_sync_idle [OF assms(1), of ?e] Cons.prems(2) by simp_all
  have "tail_len (dr_buf ?e) \<le> MAX_LINE_BUF" using Cons.prems(3) by (simp add: bytes_text_def)
  then have "tail_len (dr_buf (pump ap None ?e)) \<le> MAX_LINE_BUF" by (simp add: pump_tail)
  moreover have "tail_len (dr_buf (pump ap None ?e)) = length (dr_buf (pump ap None ?e))"
    using idle(2) by (intro tail_len_all) (simp add: next_line_None)
  ultimately have "buf_ok (pump ap None ?e)" by (simp add: buf_ok_def MAX_LINE_BUF_def MAX_PENDING_BUF_def)
  then have "drv_step ap None (pump ap None d) (Data c) = pump ap None ?e"
    using drv_data_fits [of "pump ap None d" ap c] p Cons.prems(1) by simp
  moreover have "foldl (drv_step ap None) (pump ap None ?e) (map Data cs) = pump ap None (with_text (bytes_text (concat cs)) ?e)"
    using Cons.IH [of ?e] Cons.prems by (simp add: bytes_text_def)
  ultimately show ?case by (simp add: bytes_text_def)
qed

lemma bbs_app_sync: "sync (bbs_app ops)"
  by (simp add: sync_def bbs_app_def split_beta)

text \<open>What the caller receives: the lines of each reply in one transmission, then the disconnect.\<close>

definition sent_lines :: "string list \<Rightarrow> drv_event list" where
  "sent_lines ls = (if ls = [] then [] else [Send_bytes (text_bytes (join_with [CHR 0x0d] ls @ [CHR 0x0d]))])"

definition reply_events :: "bbs_reply \<Rightarrow> drv_event list" where
  "reply_events r = sent_lines (br_lines r) @ (if br_disconnect r then [Disconnect_link] else [])"

lemma apply_reply_trace: "dr_trace (apply_reply None (reply_of r) d) = dr_trace d @ reply_events r"
  by (simp add: apply_reply_def reply_of_def push_lines_def emit_def reply_events_def sent_lines_def Let_def)

lemma answers_bbs:
  "dr_app (answers (bbs_app ops) None ls d) = fst (bbs_run ops ls (dr_app d))
   \<and> dr_trace (answers (bbs_app ops) None ls d) = dr_trace d @ concat (map reply_events (snd (bbs_run ops ls (dr_app d))))"
proof (induction ls arbitrary: d)
  case (Cons l ls)
  obtain b r where h: "bbs_handle ops l (dr_app d) = (b, r)" by (cases "bbs_handle ops l (dr_app d)")
  have "answers (bbs_app ops) None (l # ls) d = answers (bbs_app ops) None ls (apply_reply None (reply_of r) (d\<lparr>dr_app := b\<rparr>))"
    using h by (simp add: bbs_app_def)
  then show ?case using Cons.IH [of "apply_reply None (reply_of r) (d\<lparr>dr_app := b\<rparr>)"] h by (simp add: apply_reply_trace split_beta Let_def)
qed simp

text \<open>C29: Over a link that cuts the text into any reads, the session reaches the state and sends the replies of the command
  interpreter run on the lines typed, each of at most 8 KiB and ended by one CR or one LF: of a CR LF pair the LF ends an
  empty line.\<close>

theorem bbs_over_link:
  assumes "\<forall>x\<in>set ls. line_ok x \<and> length (fst x) \<le> MAX_LINE_BUF" "concat reads = text_bytes (typed ls)"
  shows "let d = drv_run (bbs_app ops) None (drv_up (bbs_app ops) (new_driver b)) (map Data reads)
    in dr_app d = fst (bbs_run ops (map fst ls) b) \<and> dr_buf d = []
      \<and> dr_trace d = sent_lines (greeting ops b) @ concat (map reply_events (snd (bbs_run ops (map fst ls) b)))"
proof -
  let ?ap = "bbs_app ops"
  let ?up = "drv_up ?ap (new_driver b)"
  have up: "dr_app ?up = b" "dr_buf ?up = []" "\<not> dr_busy ?up" "\<not> dr_relay ?up" "dr_trace ?up = sent_lines (greeting ops b)"
    by (simp_all add: drv_up_def new_driver_def push_lines_def emit_def bbs_app_def sent_lines_def)
  have idle: "pump ?ap None ?up = ?up" using up(2) by (simp add: pump_stop next_line_def)
  have "\<forall>t. prefix t (dr_buf ?up @ bytes_text (concat reads)) \<longrightarrow> tail_len t \<le> MAX_LINE_BUF"
    using tail_of_prefix [OF assms(1)] up(2) assms(2) by simp
  from sync_reads [OF bbs_app_sync [of ops] up(4,3) this]
  have "drv_run ?ap None ?up (map Data reads) = pump ?ap None (with_text (typed ls) ?up)"
    unfolding drv_run_def idle assms(2) by simp
  also have "with_text (typed ls) ?up = ?up\<lparr>dr_buf := typed ls\<rparr>" using up(2) by (simp add: with_text_def)
  also have "pump ?ap None (?up\<lparr>dr_buf := typed ls\<rparr>) = (answers ?ap None (map fst ls) ?up)\<lparr>dr_buf := []\<rparr>"
    using assms(1) up(3) by (intro pump_typed bbs_app_sync) auto
  finally show ?thesis using answers_bbs [of ops "map fst ls" ?up] up by (simp add: Let_def)
qed

lemma bbs_over_link_witness:
  "dr_app (drv_run (bbs_app cached_ops) None (drv_up (bbs_app cached_ops) (new_driver (new_bbs ''N0CALL'' ''BBS'' False (new_cached_store ''N0CALL'' 3 True True))))
     (map Data [text_bytes ''X'', text_bytes [CHR 0x0d]]))
   = fst (bbs_run cached_ops [''X''] (new_bbs ''N0CALL'' ''BBS'' False (new_cached_store ''N0CALL'' 3 True True)))"
proof -
  have "\<forall>x\<in>set [(''X'', CHR 0x0d)]. line_ok x \<and> length (fst x) \<le> MAX_LINE_BUF"
    by (simp add: line_ok_def plain_line_def is_line_break_def MAX_LINE_BUF_def)
  moreover have "concat [text_bytes ''X'', text_bytes [CHR 0x0d]] = text_bytes (typed [(''X'', CHR 0x0d)])" by (simp add: typed_def text_bytes_def)
  ultimately show ?thesis
    using bbs_over_link [of "[(''X'', CHR 0x0d)]" "[text_bytes ''X'', text_bytes [CHR 0x0d]]" cached_ops
        "new_bbs ''N0CALL'' ''BBS'' False (new_cached_store ''N0CALL'' 3 True True)"] by (simp add: Let_def del: bbs_run.simps)
qed

text \<open>
  A caller whose terminal ends lines with carriage return and line feed sends an empty line after each: the
  empty line after \<open>SP\<close> is taken for the subject, and what the caller types as the subject becomes text.
\<close>

theorem line_feed_skips_subject:
  assumes "bs_pending b = None" "word_text to"
  shows "\<exists>p. bs_pending (dr_app (pump (bbs_app ops) None (with_text (''SP '' @ to @ [CHR 0x0d, CHR 0x0a]) (new_driver b)))) = Some p
    \<and> pd_subject p = None \<and> pd_stage p = Body_stage"
proof -
  let ?ls = "[(''SP '' @ to, CHR 0x0d), ([], CHR 0x0a)]"
  have "plain_line (''SP '' @ to)" using word_plain [OF assms(2)] by (auto simp: plain_line_def is_line_break_def)
  then have ok: "\<forall>x\<in>set ?ls. line_ok x" by (simp add: line_ok_def) (simp add: plain_line_def is_line_break_def)
  have "with_text (''SP '' @ to @ [CHR 0x0d, CHR 0x0a]) (new_driver b) = (new_driver b)\<lparr>dr_buf := typed ?ls\<rparr>"
    by (simp add: with_text_def new_driver_def typed_def)
  then have "dr_app (pump (bbs_app ops) None (with_text (''SP '' @ to @ [CHR 0x0d, CHR 0x0a]) (new_driver b)))
      = fst (bbs_run ops ([''SP '' @ to, []] @ []) b)"
    using pump_typed [OF bbs_app_sync ok, of "new_driver b"] answers_bbs [of ops "map fst ?ls" "new_driver b"]
    by (simp add: new_driver_def del: bbs_run.simps)
  also have "\<dots> = b\<lparr>bs_pending := Some (sent_message b to [] [])\<rparr>"
    by (rule typed_message [OF assms]) (simp_all add: plain_line_def)
  finally show ?thesis by (simp add: sent_message_def js_trim_def trim_end_where_def)
qed

lemma line_feed_skips_subject_witness:
  "\<exists>p. bs_pending (dr_app (pump (bbs_app cached_ops) None (with_text (''SP '' @ ''W1AW'' @ [CHR 0x0d, CHR 0x0a])
     (new_driver (new_bbs ''N0CALL'' ''BBS'' False (new_cached_store ''N0CALL'' 3 True True)))))) = Some p \<and> pd_subject p = None \<and> pd_stage p = Body_stage"
  by (rule line_feed_skips_subject) (simp_all add: new_bbs_def word_text_def is_space_def char_code_def)

section \<open>The gate in front of the BBS\<close>

text \<open>
  \<open>FbbGatedBbs\<close>: the application behind it, the store \<open>makeStore\<close> gives (\<^const>\<open>None\<close> when it fails), and the stores
  handed to \<open>onSessionEnd\<close>. Every answer is a promise.
\<close>

record 'a gate =
  gt_inner :: 'a
  gt_sid :: string
  gt_store :: "session_store option"
  gt_fbb :: "fbb_session option"
  gt_ended :: bool
  gt_persisted :: "session_store list"

definition new_gate :: "'a \<Rightarrow> string option \<Rightarrow> session_store option \<Rightarrow> 'a gate" where
  "new_gate a sid st = \<lparr>gt_inner = a, gt_sid = (case sid of None \<Rightarrow> ''[ACG-1.0-F$]'' | Some x \<Rightarrow> x), gt_store = st,
     gt_fbb = None, gt_ended = False, gt_persisted = []\<rparr>"

text \<open>\<open>/^\[[^\]]+\]$/\<close>\<close>

definition is_sid :: "string \<Rightarrow> bool" where
  "is_sid t = (3 \<le> length t \<and> hd t = CHR ''['' \<and> last t = CHR '']'' \<and> CHR '']'' \<notin> set (butlast (tl t)))"

definition gate_greeting :: "'a line_app \<Rightarrow> 'a gate \<Rightarrow> string list" where
  "gate_greeting ap g = gt_sid g # la_greeting ap (gt_inner g)"

definition responder :: "string \<Rightarrow> session_store \<Rightarrow> fbb_session" where
  "responder sid st = new_fbb_session st \<lparr>fo_initiator = False, fo_sid = Some sid, fo_sid_already_sent = True, fo_compress = False\<rparr>"

definition fbb_answer :: "string list \<Rightarrow> bool \<Rightarrow> answer" where
  "fbb_answer ls over = Later (Resolved \<lparr>lr_lines = ls, lr_disconnect = over, lr_connect = None\<rparr>)"

definition gate_handle :: "'a line_app \<Rightarrow> 'a gate \<Rightarrow> string \<Rightarrow> 'a gate \<times> answer" where
  "gate_handle ap g line =
     (case gt_fbb g of
        None \<Rightarrow>
          let t = js_trim line
          in if is_sid t
             then (case gt_store g of
                     None \<Rightarrow> (g, Later Rejected)
                   | Some st \<Rightarrow> let (ls, over, s) = fbb_feed lzhuf_codec (responder (gt_sid g) st) t
                               in (g\<lparr>gt_fbb := Some s\<rparr>, fbb_answer ls over))
             else let (a, ans) = la_handle ap (gt_inner g) line
                  in (g\<lparr>gt_inner := a\<rparr>, Later (case ans of Now r \<Rightarrow> Resolved r | Later o1 \<Rightarrow> o1))
      | Some s \<Rightarrow>
          let (ls, over, s) = fbb_feed lzhuf_codec s line;
              g = g\<lparr>gt_fbb := Some s\<rparr>;
              g = (if over \<and> \<not> gt_ended g then g\<lparr>gt_ended := True, gt_persisted := gt_persisted g @ [fs_store s]\<rparr> else g)
          in (g, fbb_answer ls over))"

definition gate_app :: "'a line_app \<Rightarrow> 'a gate line_app" where
  "gate_app ap = \<lparr>la_greeting = gate_greeting ap, la_handle = gate_handle ap\<rparr>"

fun gate_run :: "'a line_app \<Rightarrow> 'a gate \<Rightarrow> string list \<Rightarrow> 'a gate" where
  "gate_run ap g [] = g"
| "gate_run ap g (l # ls) = gate_run ap (fst (gate_handle ap g l)) ls"

subsection \<open>What is persisted\<close>

text \<open>A responder is over exactly when it says so, and then for good.\<close>

definition over_iff_done :: "string list \<times> bool \<times> fbb_session \<Rightarrow> bool" where
  "over_iff_done r = (fs_phase (snd (snd r)) = Done \<longleftrightarrow> fst (snd r))"

lemma propose_not_done: "fs_phase (snd (propose_block s)) \<noteq> Done"
  using propose_block_phase(1) [of s] by auto

lemma sid_line_over: "fs_phase s \<noteq> Done \<Longrightarrow> over_iff_done (fbb_sid_line s t)"
  by (simp add: over_iff_done_def fbb_sid_line_def Let_def split_beta propose_not_done)

lemma proposal_line_over: "fs_phase s \<noteq> Done \<Longrightarrow> over_iff_done (fbb_proposal_line s t)"
  by (simp add: over_iff_done_def fbb_proposal_line_def Let_def split_beta propose_not_done split: option.split)

lemma body_line_over: "fs_phase s \<noteq> Done \<Longrightarrow> over_iff_done (fbb_body_line s raw t)"
  by (simp add: over_iff_done_def fbb_body_line_def Let_def split_beta propose_not_done split: list.split)

lemma feed_over: "fs_phase s \<noteq> Done \<Longrightarrow> over_iff_done (fbb_feed cz s line)"
  unfolding fbb_feed_def Let_def
  by (cases "fs_phase s") (simp_all add: sid_line_over proposal_line_over body_line_over split_beta, simp_all add: over_iff_done_def send_accepted_def split_beta)

lemma feed_after: "fs_phase s = Done \<Longrightarrow> fbb_feed cz s line = ([], False, s)"
  by (simp add: fbb_feed_def Let_def)

definition gate_ok :: "'a gate \<Rightarrow> bool" where
  "gate_ok g = (case gt_fbb g of
     None \<Rightarrow> \<not> gt_ended g \<and> gt_persisted g = []
   | Some s \<Rightarrow> gt_ended g = (fs_phase s = Done) \<and> gt_persisted g = (if gt_ended g then [fs_store s] else []))"

lemma gate_handle_ok: "gate_ok g \<Longrightarrow> gate_ok (fst (gate_handle ap g line))"
proof (cases "gt_fbb g")
  case None
  assume g: "gate_ok g"
  have "fs_phase (snd (snd (fbb_feed lzhuf_codec (responder (gt_sid g) st) t))) \<noteq> Done" for st t
    by (simp add: fbb_feed_def responder_def new_fbb_session_def fbb_sid_line_def Let_def split_beta)
  then show ?thesis using g None by (auto simp: gate_handle_def gate_ok_def Let_def split_beta split: option.split)
next
  case (Some s)
  assume g: "gate_ok g"
  show ?thesis
  proof (cases "fs_phase s = Done")
    case True
    then show ?thesis using g Some feed_after [OF True] by (simp add: gate_handle_def gate_ok_def)
  next
    case False
    then show ?thesis using g Some feed_over [OF False, of lzhuf_codec line]
      by (auto simp: gate_handle_def gate_ok_def Let_def split_beta over_iff_done_def)
  qed
qed

text \<open>A forwarding session is handed to persistence once, exactly when it is over, with everything it has collected.\<close>

theorem gate_persists_once:
  "gate_ok (gate_run ap (new_gate a sid st) lines)"
proof -
  have "gate_ok g \<Longrightarrow> gate_ok (gate_run ap g lines)" for g :: "'a gate"
    by (induction lines arbitrary: g) (auto intro: gate_handle_ok)
  then show ?thesis by (simp add: gate_ok_def new_gate_def)
qed

text \<open>Until a line is a SID the gate is not there; afterwards the application behind it is not.\<close>

theorem gate_transparent:
  assumes "\<forall>l\<in>set lines. \<not> is_sid (js_trim l)" "gt_fbb g = None"
  shows "gate_run ap g lines = g\<lparr>gt_inner := foldl (\<lambda>a l. fst (la_handle ap a l)) (gt_inner g) lines\<rparr>"
  using assms
proof (induction lines arbitrary: g)
  case (Cons l ls)
  have "fst (gate_handle ap g l) = g\<lparr>gt_inner := fst (la_handle ap (gt_inner g) l)\<rparr>"
    using Cons.prems by (simp add: gate_handle_def split_beta)
  then show ?case using Cons.IH [of "g\<lparr>gt_inner := fst (la_handle ap (gt_inner g) l)\<rparr>"] Cons.prems by simp
qed simp

lemma gate_forwarding: "gt_fbb g \<noteq> None \<Longrightarrow> gt_inner (gate_run ap g lines) = gt_inner g"
proof (induction lines arbitrary: g)
  case (Cons l ls)
  have "gt_fbb (fst (gate_handle ap g l)) \<noteq> None \<and> gt_inner (fst (gate_handle ap g l)) = gt_inner g"
    using Cons.prems by (auto simp: gate_handle_def Let_def split_beta)
  then show ?case using Cons.IH [of "fst (gate_handle ap g l)"] by simp
qed simp

text \<open>
  Any line in brackets is taken for a SID, a line of a message as well: the caller who is typing one is switched to
  forwarding, what was typed is never posted, and no later line reaches the BBS.
\<close>

theorem bracketed_line_ends_the_message:
  assumes "gt_fbb g = None" "gt_store g = Some st" "is_sid (js_trim line)"
  shows "gt_inner (gate_run ap g (line # later)) = gt_inner g"
proof -
  have "gt_fbb (fst (gate_handle ap g line)) \<noteq> None" "gt_inner (fst (gate_handle ap g line)) = gt_inner g"
    using assms by (simp_all add: gate_handle_def split_beta Let_def)
  then show ?thesis using gate_forwarding [of "fst (gate_handle ap g line)" ap later] by simp
qed

lemma gate_transparent_witness:
  "gate_run (bbs_app cached_ops) (new_gate (new_bbs ''N0CALL'' ''BBS'' False (new_cached_store ''N0CALL'' 3 True True)) None None) [''[]'', ''H'']
   = new_gate (foldl (\<lambda>a l. fst (la_handle (bbs_app cached_ops) a l)) (new_bbs ''N0CALL'' ''BBS'' False (new_cached_store ''N0CALL'' 3 True True)) [''[]'', ''H'']) None None"
proof -
  have "\<forall>l\<in>set [''[]'', ''H'']. \<not> is_sid (js_trim l)"
    by (simp add: is_sid_def js_trim_def trim_end_where_def is_space_def char_code_def)
  then show ?thesis
    using gate_transparent [of "[''[]'', ''H'']" "new_gate (new_bbs ''N0CALL'' ''BBS'' False (new_cached_store ''N0CALL'' 3 True True)) None None" "bbs_app cached_ops"]
    by (simp add: new_gate_def del: foldl.simps gate_run.simps)
qed

lemma bracketed_line_ends_the_message_witness:
  "bs_pending (gt_inner (gate_run (bbs_app cached_ops) (new_gate (fst (bbs_run cached_ops ([''SP '' @ ''W1AW'', ''Hi''] @ [''Hello''])
      (new_bbs ''N0CALL'' ''BBS'' False (new_cached_store ''N0CALL'' 3 True True)))) None (Some (new_session_store [] [])))
     [''[73 de N0CALL]'', ''/EX''])) \<noteq> None"
proof -
  let ?b = "new_bbs ''N0CALL'' ''BBS'' False (new_cached_store ''N0CALL'' 3 True True)"
  have "word_text ''W1AW''" "plain_line ''Hi''" "\<forall>l\<in>set [''Hello'']. body_line l"
    by (simp_all add: word_text_def plain_line_def body_line_def is_line_break_def is_space_def char_code_def js_trim_def trim_end_where_def)
  then have typing: "fst (bbs_run cached_ops ([''SP '' @ ''W1AW'', ''Hi''] @ [''Hello'']) ?b) = ?b\<lparr>bs_pending := Some (sent_message ?b ''W1AW'' ''Hi'' [''Hello''])\<rparr>"
    by (intro typed_message) (simp_all add: new_bbs_def MAX_BODY_BYTES_def)
  have "is_sid (js_trim ''[73 de N0CALL]'')" by (simp add: is_sid_def js_trim_def trim_end_where_def is_space_def char_code_def)
  then show ?thesis
    using bracketed_line_ends_the_message [of "new_gate (?b\<lparr>bs_pending := Some (sent_message ?b ''W1AW'' ''Hi'' [''Hello''])\<rparr>) None (Some (new_session_store [] []))"
        "new_session_store [] []" "''[73 de N0CALL]''" "bbs_app cached_ops" "[''/EX'']"] typing
    by (simp add: new_gate_def del: gate_run.simps bbs_run.simps)
qed

text \<open>
  A partner hands over a message, is told so, and the link goes down before the closing \<open>FQ\<close>: the message is in
  the store of the responder, and nothing has been persisted.
\<close>

lemma gate_opens:
  "gt_fbb g = None \<Longrightarrow> gt_store g = Some st \<Longrightarrow> is_sid (js_trim l) \<Longrightarrow>
   fbb_feed lzhuf_codec (responder (gt_sid g) st) (js_trim l) = (ls, over, s) \<Longrightarrow> fst (gate_handle ap g l) = g\<lparr>gt_fbb := Some s\<rparr>"
  by (simp add: gate_handle_def)

lemma gate_feeds: "gt_fbb g = Some s \<Longrightarrow> fbb_feed lzhuf_codec s l = (ls, False, s') \<Longrightarrow> fst (gate_handle ap g l) = g\<lparr>gt_fbb := Some s'\<rparr>"
  by (simp add: gate_handle_def)

theorem link_loss_drops_inbox:
  "let g = gate_run ap (new_gate a None (Some (new_session_store [] [])))
       [''[FBB-7.0-F$]'', ''FB P W1AW BBS N0CALL B1 5'', ''F>'', ''Hi'', ''Hello'', CTRLZ]
   in gt_persisted g = [] \<and> map fm_body (ss_inbox (fs_store (the (gt_fbb g)))) = [''Hello'']"
proof -
  let ?l = "''FB P W1AW BBS N0CALL B1 5''" and ?p = "\<lparr>pr_type = Personal, pr_from = ''W1AW'', pr_to = ''N0CALL'', pr_at = ''BBS'', pr_bid = ''B1'', pr_size = 5\<rparr>"
  note text_eval = js_trim_def trim_end_where_def is_space_def is_line_break_def char_code_def CTRLZ_def
  have trims: "js_trim ''[FBB-7.0-F$]'' = ''[FBB-7.0-F$]''" "js_trim ?l = ?l" "js_trim ''F>'' = ''F>''" "js_trim ''Hi'' = ''Hi''"
    "js_trim ''Hello'' = ''Hello''" "js_trim CTRLZ = CTRLZ"
    "trim_end_where is_line_break ''[FBB-7.0-F$]'' = ''[FBB-7.0-F$]''" "trim_end_where is_line_break ?l = ?l"
    "trim_end_where is_line_break ''F>'' = ''F>''" "trim_end_where is_line_break ''Hi'' = ''Hi''"
    "trim_end_where is_line_break ''Hello'' = ''Hello''" "trim_end_where is_line_break CTRLZ = CTRLZ"
    by (simp_all add: text_eval)
  have p: "parse_proposal ?l = Some ?p"
    by (simp add: parse_proposal_def split_ws.simps text_eval js_upper_def upper_char_def js_number_def is_digit_def digits_value_def Let_def)
  have sid: "is_sid ''[FBB-7.0-F$]''" "has_bracket_pair ''[FBB-7.0-F$]''"
    by (simp_all add: is_sid_def has_bracket_pair_def split_breaks_def is_line_break_def last_index_of_def Let_def)
  have f: "parse_proposal ''F>'' = None" by (simp add: parse_proposal_def split_ws.simps text_eval Let_def)
  let ?s = "\<lambda>ph acc title pend box. \<lparr>fs_store = box, fs_opts = \<lparr>fo_initiator = False, fo_sid = Some ''[ACG-1.0-F$]'', fo_sid_already_sent = True, fo_compress = False\<rparr>,
     fs_phase = ph, fs_sent_sid = False, fs_offered = [], fs_accepting = acc, fs_rx_acc = fst title, fs_rx_title = fst (snd title), fs_rx_bytes = snd (snd title),
     fs_pending_rx = pend, fs_compressed = False, fs_pending_binary = [], fs_deferred = []\<rparr>"
  let ?st = "new_session_store [] []"
  let ?none = "([], None, 0)"
  have f1: "fbb_feed cz (?s Await_Sid [] ?none [] ?st) ''[FBB-7.0-F$]'' = ([], False, ?s Await_Proposals [] ?none [] ?st)" for cz
    using sid(2) by (simp add: trims fbb_feed_def fbb_sid_line_def)
  have f2: "fbb_feed cz (?s Await_Proposals [] ?none [] ?st) ?l = ([], False, ?s Await_Proposals [?p] ?none [] ?st)" for cz
    by (simp add: trims fbb_feed_def fbb_proposal_line_def p js_upper_def upper_char_def char_code_def)
  have f3: "fbb_feed cz (?s Await_Proposals [?p] ?none [] ?st) ''F>'' = ([''FS +''], False, ?s Recv_Block [] ?none [?p] ?st)" for cz
    by (simp add: trims fbb_feed_def fbb_proposal_line_def f js_upper_def upper_char_def char_code_def has_bid_def new_session_store_def)
  have f4: "fbb_feed cz (?s Recv_Block [] ?none [?p] ?st) ''Hi'' = ([], False, ?s Recv_Block [] ([], Some ''Hi'', 0) [?p] ?st)" for cz
    by (simp add: trims fbb_feed_def fbb_body_line_def CTRLZ_def)
  have f5: "fbb_feed cz (?s Recv_Block [] ([], Some ''Hi'', 0) [?p] ?st) ''Hello'' = ([], False, ?s Recv_Block [] ([''Hello''], Some ''Hi'', 6) [?p] ?st)" for cz
    by (simp add: trims fbb_feed_def fbb_body_line_def CTRLZ_def MAX_RECV_BYTES_def Let_def)
  let ?m = "message_of ?p ''Hi'' ''Hello''"
  have f6: "fbb_feed cz (?s Recv_Block [] ([''Hello''], Some ''Hi'', 6) [?p] ?st) CTRLZ = ([''FF''], False, ?s Await_Proposals [] ?none [] (store_accept ?m ?st))" for cz
    by (simp add: trims fbb_feed_def fbb_body_line_def propose_block_def new_session_store_def store_accept_def Let_def)
  have r: "responder ''[ACG-1.0-F$]'' ?st = ?s Await_Sid [] ?none [] ?st" by (simp add: responder_def new_fbb_session_def)
  let ?g = "\<lambda>s. (new_gate a None (Some ?st))\<lparr>gt_fbb := Some s\<rparr>"
  have g1: "fst (gate_handle ap (new_gate a None (Some ?st)) ''[FBB-7.0-F$]'') = ?g (?s Await_Proposals [] ?none [] ?st)"
    using gate_opens [of "new_gate a None (Some ?st)" ?st "''[FBB-7.0-F$]''" "[]" False "?s Await_Proposals [] ?none [] ?st" ap] sid(1) f1 r
    unfolding trims by (simp add: new_gate_def)
  have g: "fst (gate_handle ap (?g s) l) = ?g s'" if "fbb_feed lzhuf_codec s l = (ls, False, s')" for s l ls s'
    using gate_feeds [OF _ that, of "?g s" ap] by simp
  show ?thesis unfolding Let_def gate_run.simps g1 g [OF f2] g [OF f3] g [OF f4] g [OF f5] g [OF f6]
    by (simp add: new_gate_def store_accept_def new_session_store_def message_of_def)
qed

end
