(* ===== verification/Cbor.thy ===== *)
theory Cbor
  imports Prelude Interfaces "HOL-Library.List_Lexorder"
begin

text \<open>
  The deterministic CBOR codec of the federation wire format, \<open>packages/shared/src/cbor.ts\<close>. A text string is
  the list of its UTF-8 bytes, so that \<open>TextEncoder\<close> is the identity and the fatal \<open>TextDecoder\<close> the test
  that the bytes are UTF-8; strings with lone surrogates are outside the model. A \<open>Map\<close> is its entries in
  insertion order. The growing buffer of the writer is a list of bytes.
\<close>

section \<open>Values\<close>

datatype cbor_key = IKey int | TKey "byte list"

datatype cbor = CNull | CBool bool | CInt int | CText "byte list" | CBytes "byte list" | CArr "cbor list" | CMap "(cbor_key \<times> cbor) list"

datatype cbor_error = Unsafe_number | Truncated | Unsafe_range | Indefinite | Too_long | Bad_key | Too_deep | Bad_text | Bad_simple | Tagged | Trailing | Not_canonical

definition MAX_SAFE :: nat where
  "MAX_SAFE = 2 ^ 53 - 1"

definition MAX_NESTING :: nat where
  "MAX_NESTING = 32"

definition is_safe :: "int \<Rightarrow> bool" where
  "is_safe i = (\<bar>i\<bar> \<le> int MAX_SAFE)"

text \<open>UTF-8 as the decoder accepts it: shortest forms, no surrogates, nothing above U+10FFFF.\<close>

definition in_range :: "nat \<Rightarrow> nat \<Rightarrow> byte \<Rightarrow> bool" where
  "in_range lo hi b = (lo \<le> unat b \<and> unat b \<le> hi)"

fun utf8_ok :: "byte list \<Rightarrow> bool" where
  "utf8_ok [] = True"
| "utf8_ok (a # r) =
     (if unat a < 0x80 then utf8_ok r
      else if in_range 0xc2 0xdf a then (case r of b # r1 \<Rightarrow> in_range 0x80 0xbf b \<and> utf8_ok r1 | _ \<Rightarrow> False)
      else if in_range 0xe0 0xef a then
        (case r of b # c # r2 \<Rightarrow>
           in_range (if unat a = 0xe0 then 0xa0 else 0x80) (if unat a = 0xed then 0x9f else 0xbf) b \<and> in_range 0x80 0xbf c \<and> utf8_ok r2
         | _ \<Rightarrow> False)
      else if in_range 0xf0 0xf4 a then
        (case r of b # c # e # r3 \<Rightarrow>
           in_range (if unat a = 0xf0 then 0x90 else 0x80) (if unat a = 0xf4 then 0x8f else 0xbf) b \<and> in_range 0x80 0xbf c
             \<and> in_range 0x80 0xbf e \<and> utf8_ok r3
         | _ \<Rightarrow> False)
      else False)"

section \<open>Encoding\<close>

fun be_bytes :: "nat \<Rightarrow> nat \<Rightarrow> byte list" where
  "be_bytes 0 n = []"
| "be_bytes (Suc k) n = byte_of (n div 256 ^ k) # be_bytes k n"

definition write_head :: "nat \<Rightarrow> nat \<Rightarrow> byte list" where
  "write_head major arg =
     (let mt = 32 * major
      in if arg < 24 then [byte_of (mt + arg)]
         else if arg < 0x100 then byte_of (mt + 24) # be_bytes 1 arg
         else if arg < 0x10000 then byte_of (mt + 25) # be_bytes 2 arg
         else if arg < 0x100000000 then byte_of (mt + 26) # be_bytes 4 arg
         else byte_of (mt + 27) # be_bytes 8 arg)"

definition encode_int :: "int \<Rightarrow> cbor_error + byte list" where
  "encode_int i =
     (if \<not> is_safe i then Inl Unsafe_number
      else if 0 \<le> i then Inr (write_head 0 (nat i)) else Inr (write_head 1 (nat (- 1 - i))))"

definition encode_key :: "cbor_key \<Rightarrow> cbor_error + byte list" where
  "encode_key k = (case k of IKey i \<Rightarrow> encode_int i | TKey t \<Rightarrow> Inr (write_head 3 (length t) @ t))"

fun encode :: "cbor \<Rightarrow> cbor_error + byte list"
  and encode_all :: "cbor list \<Rightarrow> cbor_error + byte list"
  and encode_entries :: "(cbor_key \<times> cbor) list \<Rightarrow> cbor_error + (byte list \<times> byte list) list" where
  "encode CNull = Inr [0xf6]"
| "encode (CBool b) = Inr [if b then 0xf5 else 0xf4]"
| "encode (CInt i) = encode_int i"
| "encode (CText t) = Inr (write_head 3 (length t) @ t)"
| "encode (CBytes b) = Inr (write_head 2 (length b) @ b)"
| "encode (CArr xs) = (case encode_all xs of Inl e \<Rightarrow> Inl e | Inr bs \<Rightarrow> Inr (write_head 4 (length xs) @ bs))"
| "encode (CMap m) = (case encode_entries m of Inl e \<Rightarrow> Inl e
     | Inr es \<Rightarrow> Inr (write_head 5 (length es) @ concat (map (\<lambda>(k, b). k @ b) (sort_key fst es))))"
| "encode_all [] = Inr []"
| "encode_all (x # xs) = (case encode x of Inl e \<Rightarrow> Inl e
     | Inr b \<Rightarrow> (case encode_all xs of Inl e \<Rightarrow> Inl e | Inr bs \<Rightarrow> Inr (b @ bs)))"
| "encode_entries [] = Inr []"
| "encode_entries ((k, v) # es) = (case encode_key k of Inl e \<Rightarrow> Inl e
     | Inr kb \<Rightarrow> (case encode v of Inl e \<Rightarrow> Inl e
       | Inr vb \<Rightarrow> (case encode_entries es of Inl e \<Rightarrow> Inl e | Inr bs \<Rightarrow> Inr ((kb, vb) # bs))))"

text \<open>The order of the entries is that of \<open>compareBytes\<close>.\<close>

fun compare_bytes :: "byte list \<Rightarrow> byte list \<Rightarrow> int" where
  "compare_bytes (a # as) (b # bs) = (if a \<noteq> b then int (unat a) - int (unat b) else compare_bytes as bs)"
| "compare_bytes as bs = int (length as) - int (length bs)"

lemma Nil_less_list: "[] < (bs :: byte list) \<longleftrightarrow> bs \<noteq> []"
  by (cases bs) simp_all

lemma compare_bytes_order: "compare_bytes a b < 0 \<longleftrightarrow> a < b" "compare_bytes a b = 0 \<longleftrightarrow> a = b"
proof -
  have "(compare_bytes a b < 0 \<longleftrightarrow> a < b) \<and> (compare_bytes a b = 0 \<longleftrightarrow> a = b)"
    by (induction a b rule: compare_bytes.induct) (auto simp: word_less_def word_uint_eq_iff Nil_less_list)
  then show "compare_bytes a b < 0 \<longleftrightarrow> a < b" "compare_bytes a b = 0 \<longleftrightarrow> a = b" by simp_all
qed

section \<open>Decoding\<close>

definition be_nat :: "byte list \<Rightarrow> nat" where
  "be_nat bs = foldl (\<lambda>n b. 256 * n + unat b) 0 bs"

definition read_be :: "nat \<Rightarrow> byte list \<Rightarrow> cbor_error + nat \<times> byte list" where
  "read_be k r = (if length r < k then Inl Truncated else Inr (be_nat (take k r), drop k r))"

definition read_arg :: "nat \<Rightarrow> byte list \<Rightarrow> cbor_error + nat \<times> byte list" where
  "read_arg info r =
     (if info < 24 then Inr (info, r)
      else if info = 24 then read_be 1 r
      else if info = 25 then read_be 2 r
      else if info = 26 then read_be 4 r
      else if info = 27 then (case read_be 8 r of Inl e \<Rightarrow> Inl e | Inr (n, r) \<Rightarrow> if MAX_SAFE < n then Inl Unsafe_range else Inr (n, r))
      else Inl Indefinite)"

definition slice_of :: "nat \<Rightarrow> byte list \<Rightarrow> cbor_error + byte list \<times> byte list" where
  "slice_of n r = (if length r < n then Inl Truncated else Inr (take n r, drop n r))"

definition key_of :: "cbor \<Rightarrow> cbor_error + cbor_key" where
  "key_of v = (case v of CInt i \<Rightarrow> Inr (IKey i) | CText t \<Rightarrow> Inr (TKey t) | _ \<Rightarrow> Inl Bad_key)"

function decode_item :: "nat \<Rightarrow> byte list \<Rightarrow> cbor_error + cbor \<times> byte list"
  and decode_items :: "nat \<Rightarrow> nat \<Rightarrow> byte list \<Rightarrow> cbor_error + cbor list \<times> byte list"
  and decode_pairs :: "nat \<Rightarrow> nat \<Rightarrow> byte list \<Rightarrow> (cbor_key, cbor) jsmap \<Rightarrow> cbor_error + (cbor_key, cbor) jsmap \<times> byte list" where
  "decode_item depth r =
     (if MAX_NESTING < depth then Inl Too_deep
      else case r of [] \<Rightarrow> Inl Truncated
      | b0 # r \<Rightarrow>
          (let major = unat b0 div 32; info = unat b0 mod 32
           in if major = 6 then Inl Tagged
              else if major = 7 then (if b0 = 0xf4 then Inr (CBool False, r) else if b0 = 0xf5 then Inr (CBool True, r)
                                      else if b0 = 0xf6 then Inr (CNull, r) else Inl Bad_simple)
              else case read_arg info r of Inl e \<Rightarrow> Inl e
              | Inr (n, r) \<Rightarrow>
                  if major = 0 then Inr (CInt (int n), r)
                  else if major = 1 then (if MAX_SAFE - 1 < n then Inl Unsafe_range else Inr (CInt (- 1 - int n), r))
                  else if major = 2 then (case slice_of n r of Inl e \<Rightarrow> Inl e | Inr (b, r) \<Rightarrow> Inr (CBytes b, r))
                  else if major = 3 then (case slice_of n r of Inl e \<Rightarrow> Inl e | Inr (b, r) \<Rightarrow> if utf8_ok b then Inr (CText b, r) else Inl Bad_text)
                  else if major = 4 then (if length r < n then Inl Too_long
                     else case decode_items (depth + 1) n r of Inl e \<Rightarrow> Inl e | Inr (xs, r) \<Rightarrow> Inr (CArr xs, r))
                  else (if length r < n * 2 then Inl Too_long
                     else case decode_pairs (depth + 1) n r [] of Inl e \<Rightarrow> Inl e | Inr (m, r) \<Rightarrow> Inr (CMap m, r))))"
| "decode_items depth 0 r = Inr ([], r)"
| "decode_items depth (Suc n) r = (case decode_item depth r of Inl e \<Rightarrow> Inl e
     | Inr (x, r) \<Rightarrow> (case decode_items depth n r of Inl e \<Rightarrow> Inl e | Inr (xs, r) \<Rightarrow> Inr (x # xs, r)))"
| "decode_pairs depth 0 r m = Inr (m, r)"
| "decode_pairs depth (Suc n) r m = (case decode_item depth r of Inl e \<Rightarrow> Inl e
     | Inr (k, r) \<Rightarrow> (case key_of k of Inl e \<Rightarrow> Inl e
       | Inr k \<Rightarrow> (case decode_item depth r of Inl e \<Rightarrow> Inl e
         | Inr (v, r) \<Rightarrow> decode_pairs depth n r (jm_set k v m))))"
  by pat_completeness auto
termination
  by (relation "inv_image (less_than <*lex*> less_than <*lex*> less_than)
      (\<lambda>x. case x of Inl (d, r) \<Rightarrow> (MAX_NESTING + 1 - d, 0, 0) | Inr (Inl (d, n, r)) \<Rightarrow> (MAX_NESTING + 1 - d, 1, n)
         | Inr (Inr (d, n, r, m)) \<Rightarrow> (MAX_NESTING + 1 - d, 1, n))") auto

declare decode_item.simps [simp del]

definition cbor_decode :: "byte list \<Rightarrow> cbor_error + cbor" where
  "cbor_decode bytes =
     (case decode_item 0 bytes of Inl e \<Rightarrow> Inl e
      | Inr (v, rest) \<Rightarrow>
          if rest \<noteq> [] then Inl Trailing
          else case encode v of Inl e \<Rightarrow> Inl e | Inr b \<Rightarrow> if compare_bytes b bytes \<noteq> 0 then Inl Not_canonical else Inr v)"

section \<open>Heads\<close>

lemma be_nat_Nil [simp]: "be_nat [] = 0"
  by (simp add: be_nat_def)

lemma be_nat_foldl: "foldl (\<lambda>n b. 256 * n + unat b) k bs = k * 256 ^ length bs + be_nat bs"
proof (induction bs arbitrary: k)
  case (Cons b bs)
  have "be_nat (b # bs) = unat b * 256 ^ length bs + be_nat bs" using Cons [of "unat b"] by (simp add: be_nat_def)
  moreover have "foldl (\<lambda>n b. 256 * n + unat b) k (b # bs) = (256 * k + unat b) * 256 ^ length bs + be_nat bs" using Cons by simp
  ultimately show ?case by (simp add: algebra_simps)
qed (simp add: be_nat_def)

lemma be_nat_Cons: "be_nat (b # bs) = unat b * 256 ^ length bs + be_nat bs"
  using be_nat_foldl [of "unat b" bs] by (simp add: be_nat_def)

lemma length_be_bytes [simp]: "length (be_bytes k n) = k"
  by (induction k) simp_all

lemma be_nat_bytes: "be_nat (be_bytes k n) = n mod 256 ^ k"
proof (induction k)
  case (Suc k)
  have "be_nat (be_bytes (Suc k) n) = n div 256 ^ k mod 256 * 256 ^ k + n mod 256 ^ k" using Suc by (simp add: be_nat_Cons)
  also have "\<dots> = n mod (256 ^ k * 256)" using mod_mult2_eq [of n "256 ^ k" 256] by (simp add: mult.commute)
  finally show ?case by (simp add: mult.commute)
qed simp

lemma read_be_bytes: "n < 256 ^ k \<Longrightarrow> read_be k (be_bytes k n @ rest) = Inr (n, rest)"
  by (simp add: read_be_def be_nat_bytes)

lemma head_shape:
  "write_head major arg = (let mt = 32 * major in
     if arg < 24 then [byte_of (mt + arg)] else if arg < 256 then byte_of (mt + 24) # be_bytes 1 arg
     else if arg < 65536 then byte_of (mt + 25) # be_bytes 2 arg else if arg < 4294967296 then byte_of (mt + 26) # be_bytes 4 arg
     else byte_of (mt + 27) # be_bytes 8 arg)"
  by (simp add: write_head_def)

lemma write_head_not_Nil [simp]: "write_head major arg \<noteq> []"
  by (simp add: head_shape Let_def)

text \<open>Reading a head back.\<close>

definition head_of :: "byte list \<Rightarrow> cbor_error + nat \<times> nat \<times> byte list" where
  "head_of r = (case r of [] \<Rightarrow> Inl Truncated
     | b # r \<Rightarrow> (case read_arg (unat b mod 32) r of Inl e \<Rightarrow> Inl e | Inr (n, r) \<Rightarrow> Inr (unat b div 32, n, r)))"

lemma head_roundtrip:
  assumes "major < 8" "arg \<le> MAX_SAFE"
  shows "head_of (write_head major arg @ rest) = Inr (major, arg, rest)"
proof -
  have b: "(32 * major + i) mod 256 = 32 * major + i" "(32 * major + i) div 32 = major" "(32 * major + i) mod 32 = i" if "i < 32" for i
    using assms(1) that by simp_all
  consider "arg < 24" | "24 \<le> arg" "arg < 256" | "256 \<le> arg" "arg < 65536" | "65536 \<le> arg" "arg < 4294967296" | "4294967296 \<le> arg"
    by linarith
  then show ?thesis
  proof cases
    case 1
    then show ?thesis using b [of arg] by (simp add: head_of_def head_shape read_arg_def)
  next
    case 2
    then show ?thesis using b [of 24] read_be_bytes [of arg 1 rest] by (simp add: head_of_def head_shape read_arg_def del: be_bytes.simps)
  next
    case 3
    then show ?thesis using b [of 25] read_be_bytes [of arg 2 rest] by (simp add: head_of_def head_shape read_arg_def del: be_bytes.simps)
  next
    case 4
    then show ?thesis using b [of 26] read_be_bytes [of arg 4 rest] by (simp add: head_of_def head_shape read_arg_def del: be_bytes.simps)
  next
    case 5
    have "arg < 256 ^ 8" using assms(2) by (simp add: MAX_SAFE_def)
    with 5 show ?thesis using b [of 27] read_be_bytes [of arg 8 rest] assms(2) by (simp add: head_of_def head_shape read_arg_def del: be_bytes.simps)
  qed
qed

section \<open>Values the codec carries\<close>

definition key_ok :: "cbor_key \<Rightarrow> bool" where
  "key_ok k = (case k of IKey i \<Rightarrow> is_safe i | TKey t \<Rightarrow> utf8_ok t \<and> length t \<le> MAX_SAFE)"

fun cbor_wf :: "cbor \<Rightarrow> bool" and cbor_wf_all :: "cbor list \<Rightarrow> bool" and cbor_wf_entries :: "(cbor_key \<times> cbor) list \<Rightarrow> bool" where
  "cbor_wf (CInt i) = is_safe i"
| "cbor_wf (CText t) = (utf8_ok t \<and> length t \<le> MAX_SAFE)"
| "cbor_wf (CBytes b) = (length b \<le> MAX_SAFE)"
| "cbor_wf (CArr xs) = (length xs \<le> MAX_SAFE \<and> cbor_wf_all xs)"
| "cbor_wf (CMap m) = (length m \<le> MAX_SAFE \<and> jm_ok m \<and> cbor_wf_entries m)"
| "cbor_wf _ = True"
| "cbor_wf_all [] = True"
| "cbor_wf_all (x # xs) = (cbor_wf x \<and> cbor_wf_all xs)"
| "cbor_wf_entries [] = True"
| "cbor_wf_entries ((k, v) # es) = (key_ok k \<and> cbor_wf v \<and> cbor_wf_entries es)"

text \<open>A value nested no deeper than the decoder reads, at depth \<open>d\<close>.\<close>

fun shallow :: "nat \<Rightarrow> cbor \<Rightarrow> bool" and shallow_all :: "nat \<Rightarrow> cbor list \<Rightarrow> bool" and shallow_entries :: "nat \<Rightarrow> (cbor_key \<times> cbor) list \<Rightarrow> bool" where
  "shallow d (CArr xs) = (d \<le> MAX_NESTING \<and> shallow_all (Suc d) xs)"
| "shallow d (CMap m) = (d \<le> MAX_NESTING \<and> shallow_entries (Suc d) m)"
| "shallow d _ = (d \<le> MAX_NESTING)"
| "shallow_all d [] = True"
| "shallow_all d (x # xs) = (shallow d x \<and> shallow_all d xs)"
| "shallow_entries d [] = True"
| "shallow_entries d ((k, v) # es) = (shallow d v \<and> shallow_entries d es)"

definition int_bytes :: "int \<Rightarrow> byte list" where
  "int_bytes i = (if 0 \<le> i then write_head 0 (nat i) else write_head 1 (nat (- 1 - i)))"

definition key_bytes :: "cbor_key \<Rightarrow> byte list" where
  "key_bytes k = (case k of IKey i \<Rightarrow> int_bytes i | TKey t \<Rightarrow> write_head 3 (length t) @ t)"

text \<open>The value with every map in the order of its encoded keys.\<close>

fun canon :: "cbor \<Rightarrow> cbor" and canon_all :: "cbor list \<Rightarrow> cbor list" and canon_entries :: "(cbor_key \<times> cbor) list \<Rightarrow> (cbor_key \<times> cbor) list" where
  "canon (CArr xs) = CArr (canon_all xs)"
| "canon (CMap m) = CMap (sort_key (\<lambda>e. key_bytes (fst e)) (canon_entries m))"
| "canon v = v"
| "canon_all [] = []"
| "canon_all (x # xs) = canon x # canon_all xs"
| "canon_entries [] = []"
| "canon_entries ((k, v) # es) = (k, canon v) # canon_entries es"

text \<open>The bytes written for a value that can be written.\<close>

fun enc :: "cbor \<Rightarrow> byte list" and enc_all :: "cbor list \<Rightarrow> byte list" and enc_entries :: "(cbor_key \<times> cbor) list \<Rightarrow> (byte list \<times> byte list) list" where
  "enc CNull = [0xf6]"
| "enc (CBool b) = [if b then 0xf5 else 0xf4]"
| "enc (CInt i) = int_bytes i"
| "enc (CText t) = write_head 3 (length t) @ t"
| "enc (CBytes b) = write_head 2 (length b) @ b"
| "enc (CArr xs) = write_head 4 (length xs) @ enc_all xs"
| "enc (CMap m) = write_head 5 (length m) @ concat (map (\<lambda>(k, b). k @ b) (sort_key fst (enc_entries m)))"
| "enc_all [] = []"
| "enc_all (x # xs) = enc x @ enc_all xs"
| "enc_entries [] = []"
| "enc_entries ((k, v) # es) = (key_bytes k, enc v) # enc_entries es"

lemma length_enc_entries [simp]: "length (enc_entries es) = length es"
  by (induction es) auto

lemma encode_key_ok: "key_ok k \<Longrightarrow> encode_key k = Inr (key_bytes k)"
  by (auto simp: encode_key_def key_ok_def key_bytes_def encode_int_def int_bytes_def split: cbor_key.splits)

lemma encode_wf:
  "cbor_wf v \<Longrightarrow> encode v = Inr (enc v)"
  "cbor_wf_all xs \<Longrightarrow> encode_all xs = Inr (enc_all xs)"
  "cbor_wf_entries es \<Longrightarrow> encode_entries es = Inr (enc_entries es)"
proof (induction v and xs and es rule: encode_encode_all_encode_entries.induct)
  case (3 i)
  then show ?case by (simp add: encode_int_def int_bytes_def)
qed (simp_all add: encode_key_ok)

lemma enc_entries_map: "enc_entries es = map (\<lambda>(k, v). (key_bytes k, enc v)) es"
  by (induction es) auto

lemma canon_entries_map: "canon_entries es = map (\<lambda>(k, v). (k, canon v)) es"
  by (induction es) auto

lemma insort_map: "insort_key f (g x) (map g xs) = map g (insort_key (\<lambda>y. f (g y)) x xs)"
  by (induction xs) simp_all

lemma sort_map: "sort_key f (map g xs) = map g (sort_key (\<lambda>y. f (g y)) xs)"
  by (induction xs) (simp_all add: insort_map)

lemma enc_not_Nil: "enc v \<noteq> []"
  by (cases v) (simp_all add: int_bytes_def)

lemma key_bytes_not_Nil: "key_bytes k \<noteq> []"
  by (cases k) (simp_all add: key_bytes_def int_bytes_def)

lemma length_enc_all: "length xs \<le> length (enc_all xs)"
proof (induction xs)
  case (Cons x xs)
  have "1 \<le> length (enc x)" using enc_not_Nil [of x] by (cases "enc x") simp_all
  then show ?case using Cons by simp
qed simp

section \<open>Reading back what was written\<close>

lemma decode_item_head:
  assumes "head_of r = Inr (major, n, r')" "major < 6" "d \<le> MAX_NESTING"
  shows "decode_item d r =
    (if major = 0 then Inr (CInt (int n), r')
     else if major = 1 then (if MAX_SAFE - 1 < n then Inl Unsafe_range else Inr (CInt (- 1 - int n), r'))
     else if major = 2 then (case slice_of n r' of Inl e \<Rightarrow> Inl e | Inr (b, r) \<Rightarrow> Inr (CBytes b, r))
     else if major = 3 then (case slice_of n r' of Inl e \<Rightarrow> Inl e | Inr (b, r) \<Rightarrow> if utf8_ok b then Inr (CText b, r) else Inl Bad_text)
     else if major = 4 then (if length r' < n then Inl Too_long
        else case decode_items (Suc d) n r' of Inl e \<Rightarrow> Inl e | Inr (xs, r) \<Rightarrow> Inr (CArr xs, r))
     else (if length r' < n * 2 then Inl Too_long
        else case decode_pairs (Suc d) n r' [] of Inl e \<Rightarrow> Inl e | Inr (m, r) \<Rightarrow> Inr (CMap m, r)))"
proof -
  obtain b t where r: "r = b # t" "unat b div 32 = major" "read_arg (unat b mod 32) t = Inr (n, r')"
    using assms(1) by (auto simp: head_of_def split: list.splits sum.splits prod.splits)
  show ?thesis using assms(2,3) r(2,3) unfolding r(1) by (subst decode_item.simps) (simp add: Let_def)
qed

lemma slice_front [simp]: "slice_of (length b) (b @ rest) = Inr (b, rest)"
  by (simp add: slice_of_def)

lemma decode_int: "is_safe i \<Longrightarrow> d \<le> MAX_NESTING \<Longrightarrow> decode_item d (int_bytes i @ rest) = Inr (CInt i, rest)"
proof (cases "0 \<le> i")
  case True
  assume i: "is_safe i" "d \<le> MAX_NESTING"
  then have "nat i \<le> MAX_SAFE" using True by (simp add: is_safe_def)
  then have "head_of (write_head 0 (nat i) @ rest) = Inr (0, nat i, rest)" by (intro head_roundtrip) simp
  from decode_item_head [OF this _ i(2)] show ?thesis using True by (simp add: int_bytes_def)
next
  case False
  assume i: "is_safe i" "d \<le> MAX_NESTING"
  then have n: "nat (- 1 - i) \<le> MAX_SAFE - 1" using False by (simp add: is_safe_def MAX_SAFE_def)
  then have "nat (- 1 - i) \<le> MAX_SAFE" by simp
  then have "head_of (write_head 1 (nat (- 1 - i)) @ rest) = Inr (1, nat (- 1 - i), rest)" by (intro head_roundtrip) simp
  from decode_item_head [OF this _ i(2)] show ?thesis using False n by (simp add: int_bytes_def)
qed

lemma decode_text: "utf8_ok t \<Longrightarrow> length t \<le> MAX_SAFE \<Longrightarrow> d \<le> MAX_NESTING \<Longrightarrow> decode_item d (write_head 3 (length t) @ t @ rest) = Inr (CText t, rest)"
  using head_roundtrip [of 3 "length t" "t @ rest"] decode_item_head [of "write_head 3 (length t) @ t @ rest" 3 "length t" "t @ rest" d] by simp

lemma decode_bytes: "length b \<le> MAX_SAFE \<Longrightarrow> d \<le> MAX_NESTING \<Longrightarrow> decode_item d (write_head 2 (length b) @ b @ rest) = Inr (CBytes b, rest)"
  using head_roundtrip [of 2 "length b" "b @ rest"] decode_item_head [of "write_head 2 (length b) @ b @ rest" 2 "length b" "b @ rest" d] by simp

lemma decode_key: "key_ok k \<Longrightarrow> d \<le> MAX_NESTING \<Longrightarrow> \<exists>x. decode_item d (key_bytes k @ rest) = Inr (x, rest) \<and> key_of x = Inr k"
  using decode_int decode_text by (cases k) (auto simp: key_ok_def key_bytes_def key_of_def)

lemma shallow_depth: "shallow d v \<Longrightarrow> d \<le> MAX_NESTING"
  by (cases v) simp_all

lemma jm_set_fresh: "k \<notin> set (map fst m) \<Longrightarrow> jm_set k v m = m @ [(k, v)]"
  by (induction m) auto

text \<open>The entries in the order they are written.\<close>

definition in_order :: "(cbor_key \<times> 'a) list \<Rightarrow> (cbor_key \<times> 'a) list" where
  "in_order m = sort_key (\<lambda>e. key_bytes (fst e)) m"

lemma set_in_order [simp]: "set (in_order m) = set m" "length (in_order m) = length m"
  by (simp_all add: in_order_def)

lemma distinct_in_order: "distinct (map fst m) \<Longrightarrow> distinct (map fst (in_order m))"
  by (metis in_order_def distinct_map set_sort distinct_sort)

definition pair_bytes :: "(cbor_key \<times> cbor) list \<Rightarrow> byte list" where
  "pair_bytes es = concat (map (\<lambda>(k, v). key_bytes k @ enc v) es)"

lemma enc_CMap: "enc (CMap m) = write_head 5 (length m) @ pair_bytes (in_order m)"
proof -
  have "(\<lambda>y. fst ((\<lambda>(k, v). (key_bytes k, enc v)) y)) = (\<lambda>e. key_bytes (fst e))" by (auto simp: fun_eq_iff)
  then show ?thesis by (simp add: pair_bytes_def in_order_def enc_entries_map sort_map o_def case_prod_beta')
qed

lemma canon_CMap: "canon (CMap m) = CMap (canon_entries (in_order m))"
proof -
  have "(\<lambda>y. key_bytes (fst ((\<lambda>(k, v). (k, canon v)) y))) = (\<lambda>e. key_bytes (fst e))" by (auto simp: fun_eq_iff)
  then show ?thesis by (simp add: in_order_def canon_entries_map sort_map)
qed

lemma length_pair_bytes: "length es * 2 \<le> length (pair_bytes es)"
proof (induction es)
  case (Cons e es)
  have "1 \<le> length (key_bytes (fst e))" using key_bytes_not_Nil [of "fst e"] by (cases "key_bytes (fst e)") simp_all
  moreover have "1 \<le> length (enc (snd e))" using enc_not_Nil [of "snd e"] by (cases "enc (snd e)") simp_all
  ultimately show ?case using Cons by (simp add: pair_bytes_def case_prod_beta)
qed simp

lemma decode_pairs_written:
  assumes "\<And>k v. (k, v) \<in> set es \<Longrightarrow> key_ok k \<and> d \<le> MAX_NESTING \<and> (\<forall>rest. decode_item d (enc v @ rest) = Inr (canon v, rest))"
    and "distinct (map fst acc @ map fst es)"
  shows "decode_pairs d (length es) (pair_bytes es @ rest) acc = Inr (acc @ canon_entries es, rest)"
  using assms
proof (induction es arbitrary: acc)
  case (Cons e es)
  obtain k v where e: "e = (k, v)" by (cases e)
  have kv: "key_ok k" "d \<le> MAX_NESTING" "\<And>rest. decode_item d (enc v @ rest) = Inr (canon v, rest)"
    using Cons.prems(1) [of k v] e by auto
  obtain x where x: "decode_item d (key_bytes k @ (enc v @ pair_bytes es @ rest)) = Inr (x, enc v @ pair_bytes es @ rest)" "key_of x = Inr k"
    using decode_key [OF kv(1,2)] by blast
  have fresh: "k \<notin> set (map fst acc)" using Cons.prems(2) e by auto
  have "decode_pairs d (length es) (pair_bytes es @ rest) (acc @ [(k, canon v)]) = Inr ((acc @ [(k, canon v)]) @ canon_entries es, rest)"
    using Cons.prems e by (intro Cons.IH) auto
  then show ?case using x kv(3) jm_set_fresh [OF fresh] by (simp add: pair_bytes_def e)
qed (simp add: pair_bytes_def)

lemma decode_enc:
  "cbor_wf v \<Longrightarrow> shallow d v \<Longrightarrow> decode_item d (enc v @ rest) = Inr (canon v, rest)"
  "cbor_wf_all xs \<Longrightarrow> shallow_all d xs \<Longrightarrow> decode_items d (length xs) (enc_all xs @ rest) = Inr (canon_all xs, rest)"
  "cbor_wf_entries es \<Longrightarrow> shallow_entries d es \<Longrightarrow> (k, x) \<in> set es \<Longrightarrow> key_ok k \<and> d \<le> MAX_NESTING \<and> (\<forall>rest. decode_item d (enc x @ rest) = Inr (canon x, rest))"
proof (induction v and xs and es arbitrary: d rest and d rest and d k x rule: canon_canon_all_canon_entries.induct)
  case (1 xs)
  have d: "d \<le> MAX_NESTING" and n: "length xs \<le> MAX_SAFE" using 1(2,3) by simp_all
  have "head_of (write_head 4 (length xs) @ (enc_all xs @ rest)) = Inr (4, length xs, enc_all xs @ rest)" using n by (intro head_roundtrip) simp_all
  from decode_item_head [OF this _ d] show ?case using 1 length_enc_all [of xs] by simp
next
  case (2 m)
  have d: "d \<le> MAX_NESTING" and n: "length m \<le> MAX_SAFE" and j: "distinct (map fst m)" using 2(2,3) by (simp_all add: jm_ok_def)
  have "decode_pairs (Suc d) (length (in_order m)) (pair_bytes (in_order m) @ rest) [] = Inr ([] @ canon_entries (in_order m), rest)"
    using 2 distinct_in_order [OF j] by (intro decode_pairs_written) auto
  moreover have "head_of (write_head 5 (length m) @ (pair_bytes (in_order m) @ rest)) = Inr (5, length m, pair_bytes (in_order m) @ rest)"
    using n by (intro head_roundtrip) simp_all
  from decode_item_head [OF this _ d] have "decode_item d (enc (CMap m) @ rest) =
     (case decode_pairs (Suc d) (length m) (pair_bytes (in_order m) @ rest) [] of Inl e \<Rightarrow> Inl e | Inr (m, r) \<Rightarrow> Inr (CMap m, r))"
    using length_pair_bytes [of "in_order m"] by (simp add: enc_CMap del: enc.simps)
  ultimately show ?case by (simp add: canon_CMap del: canon.simps enc.simps)
next
  case "3_1"
  then show ?case by (subst decode_item.simps) simp
next
  case "3_2"
  then show ?case by (subst decode_item.simps) simp
qed (auto dest: shallow_depth simp: decode_int decode_text decode_bytes)

section \<open>The canonical form\<close>

lemma in_order_idem [simp]: "in_order (in_order m) = in_order m"
  by (simp add: in_order_def sort_key_id_if_sorted)

lemma in_order_canon: "in_order (canon_entries m) = canon_entries (in_order m)"
proof -
  have "(\<lambda>y. key_bytes (fst ((\<lambda>(k, v). (k, canon v)) y))) = (\<lambda>e. key_bytes (fst e))" by (auto simp: fun_eq_iff)
  then show ?thesis by (simp add: in_order_def canon_entries_map sort_map)
qed

lemma length_canon_entries [simp]: "length (canon_entries es) = length es"
  by (simp add: canon_entries_map)

lemma length_canon_all [simp]: "length (canon_all xs) = length xs"
  by (induction xs) simp_all

lemma enc_canon:
  "enc (canon v) = enc v"
  "enc_all (canon_all xs) = enc_all xs"
  "((k :: cbor_key), x) \<in> set es \<Longrightarrow> enc (canon x) = enc x"
proof (induction v and xs and es arbitrary: and and k x rule: canon_canon_all_canon_entries.induct)
  case (2 m)
  have "\<And>k x. (k, x) \<in> set (in_order m) \<Longrightarrow> enc (canon x) = enc x" using 2 by auto
  then have "pair_bytes (canon_entries (in_order m)) = pair_bytes (in_order m)"
    by (fastforce simp: pair_bytes_def canon_entries_map intro!: arg_cong [where f = concat])
  then show ?case by (simp add: canon_CMap enc_CMap in_order_canon del: canon.simps enc.simps)
qed auto

lemma canon_idem:
  "canon (canon v) = canon v"
  "canon_all (canon_all xs) = canon_all xs"
  "((k :: cbor_key), x) \<in> set es \<Longrightarrow> canon (canon x) = canon x"
proof (induction v and xs and es arbitrary: and and k x rule: canon_canon_all_canon_entries.induct)
  case (2 m)
  have "\<And>k x. (k, x) \<in> set (in_order m) \<Longrightarrow> canon (canon x) = canon x" using 2 by auto
  then have "canon_entries (canon_entries (in_order m)) = canon_entries (in_order m)" by (fastforce simp: canon_entries_map)
  then show ?case by (simp add: canon_CMap in_order_canon del: canon.simps)
qed auto

lemma key_bytes_inj: "key_ok k \<Longrightarrow> key_ok l \<Longrightarrow> key_bytes k = key_bytes l \<Longrightarrow> k = l"
  using decode_key [of k 0 "[]"] decode_key [of l 0 "[]"] by auto

lemma wf_entries_all: "cbor_wf_entries m \<longleftrightarrow> (\<forall>(k, v) \<in> set m. key_ok k \<and> cbor_wf v)"
  by (induction m) auto

lemma in_order_set:
  assumes "cbor_wf_entries m" "jm_ok m" "jm_ok m'" "set m' = set m"
  shows "in_order m' = in_order m"
proof -
  let ?f = "\<lambda>e. key_bytes (fst e)"
  have ok: "\<And>e. e \<in> set m \<Longrightarrow> key_ok (fst e)" using assms(1) by (auto simp: wf_entries_all)
  have inj: "inj_on ?f (set m)"
    by (rule inj_onI) (metis ok assms(2) key_bytes_inj eq_key_imp_eq_value jm_ok_def prod.collapse)
  have dist: "distinct (in_order m)" "distinct (in_order m')" using assms(2,3) by (auto simp: in_order_def jm_ok_def distinct_map)
  show ?thesis by (rule map_sorted_distinct_set_unique [of ?f])
    (use inj dist assms(4) in \<open>simp_all add: in_order_def distinct_map\<close>)
qed

section \<open>What the decoder accepts\<close>

lemma be_nat_less: "be_nat bs < 256 ^ length bs"
proof (induction bs)
  case (Cons b bs)
  have "unat b * 256 ^ length bs + be_nat bs < (unat b + 1) * 256 ^ length bs" using Cons by (simp add: algebra_simps)
  also have "\<dots> \<le> 256 * 256 ^ length bs" using unat_byte_lt [of b] by (intro mult_le_mono1) linarith
  finally show ?case by (simp add: be_nat_Cons)
qed simp

lemma read_be_Inr: "read_be k r = Inr (n, r') \<Longrightarrow> n < 256 ^ k"
  using be_nat_less [of "take k r"] by (auto simp: read_be_def min_def split: if_splits)

lemma read_arg_Inr: "read_arg info r = Inr (n, r') \<Longrightarrow> n \<le> MAX_SAFE"
  by (auto simp: read_arg_def MAX_SAFE_def dest: read_be_Inr split: if_splits sum.splits)

lemma slice_Inr: "slice_of n r = Inr (b, r') \<Longrightarrow> length b = n"
  by (auto simp: slice_of_def split: if_splits)

lemma wf_entries_set: "cbor_wf_entries m \<Longrightarrow> key_ok k \<Longrightarrow> cbor_wf v \<Longrightarrow> cbor_wf_entries (jm_set k v m)"
  by (induction m) auto

lemma fits_entries_set: "shallow_entries d m \<Longrightarrow> shallow d v \<Longrightarrow> shallow_entries d (jm_set k v m)"
  by (induction m) auto

lemma key_of_ok: "key_of x = Inr k \<Longrightarrow> cbor_wf x \<Longrightarrow> key_ok k"
  by (auto simp: key_of_def key_ok_def split: cbor.splits)

lemma length_set_le: "length (jm_set k v m) \<le> Suc (length m)"
  by (induction m) auto

lemma decoded_wf:
  "decode_item d r = Inr (v, r') \<Longrightarrow> cbor_wf v \<and> shallow d v"
  "decode_items d n r = Inr (xs, r') \<Longrightarrow> cbor_wf_all xs \<and> shallow_all d xs \<and> length xs = n"
  "decode_pairs d n r m = Inr (m', r') \<Longrightarrow> cbor_wf_entries m \<Longrightarrow> shallow_entries d m \<Longrightarrow> jm_ok m \<Longrightarrow>
     cbor_wf_entries m' \<and> shallow_entries d m' \<and> jm_ok m' \<and> length m' \<le> n + length m"
proof (induction d r and d n r and d n r m arbitrary: v r' and xs r' and m' r' rule: decode_item_decode_items_decode_pairs.induct)
  case (1 d r)
  have d: "d \<le> MAX_NESTING" using 1(3) by (subst (asm) decode_item.simps) (simp split: if_splits)
  obtain b0 t where r: "r = b0 # t" using 1(3) by (subst (asm) decode_item.simps) (auto split: if_splits list.splits)
  define major where "major = unat b0 div 32"
  consider "major = 6" | "major = 7" | "major < 6" unfolding major_def using unat_byte_lt [of b0] by linarith
  then show ?case
  proof cases
    case 1
    then show ?thesis using "1.prems" unfolding r major_def by (subst (asm) decode_item.simps) (simp split: if_splits)
  next
    case 2
    then show ?thesis using "1.prems" d unfolding r major_def by (subst (asm) decode_item.simps) (auto split: if_splits)
  next
    case 3
    obtain n u where a: "read_arg (unat b0 mod 32) t = Inr (n, u)"
      using "1.prems" 3 unfolding r major_def by (subst (asm) decode_item.simps) (auto simp: Let_def split: if_splits sum.splits)
    have n: "n \<le> MAX_SAFE" by (rule read_arg_Inr [OF a])
    have h: "head_of r = Inr (major, n, u)" using a by (simp add: head_of_def r major_def)
    note step = decode_item_head [OF h 3 d]
    have items: "cbor_wf_all xs \<and> shallow_all (Suc d) xs \<and> length xs = n" if "major = 4" "decode_items (Suc d) n u = Inr (xs, r')" "n \<le> length u" for xs r'
      using "1.IH"(1) [of b0 t major "unat b0 mod 32" "(n, u)" n u] that d r a 3 by (simp add: major_def)
    have pairs: "cbor_wf_entries m \<and> shallow_entries (Suc d) m \<and> jm_ok m \<and> length m \<le> n" if "major = 5" "decode_pairs (Suc d) n u [] = Inr (m, r')" "n * 2 \<le> length u" for m r'
      using "1.IH"(2) [of b0 t major "unat b0 mod 32" "(n, u)" n u] that d r a 3 by (simp add: major_def)
    from 3 consider "major = 0" | "major = 1" | "major = 2" | "major = 3" | "major = 4" | "major = 5" by linarith
    then show ?thesis using "1.prems" n d slice_Inr [of n u] items pairs unfolding step
      by cases (fastforce simp: is_safe_def MAX_SAFE_def split: if_splits sum.splits prod.splits)+
  qed
next
  case (5 d n r m)
  obtain x t k v u where s: "decode_item d r = Inr (x, t)" "key_of x = Inr k" "decode_item d t = Inr (v, u)"
      "decode_pairs d n u (jm_set k v m) = Inr (m', r')"
    using 5(4) by (auto split: sum.splits prod.splits)
  have "cbor_wf x" "cbor_wf v" "shallow d v" using 5(1,2) s by auto
  then have "cbor_wf_entries m' \<and> shallow_entries d m' \<and> jm_ok m' \<and> length m' \<le> n + length (jm_set k v m)"
    using 5(3) s 5(5,6,7) by (auto simp: wf_entries_set fits_entries_set key_of_ok)
  then show ?case using length_set_le [of k v m] by linarith
qed (auto split: sum.splits prod.splits)

section \<open>The codec\<close>

definition cbor_ok :: "cbor \<Rightarrow> bool" where
  "cbor_ok v = (cbor_wf v \<and> shallow 0 v \<and> canon v = v)"

definition cbor_write :: "cbor \<Rightarrow> byte list" where
  "cbor_write v = (case encode v of Inl e \<Rightarrow> [] | Inr b \<Rightarrow> b)"

definition cbor_read :: "byte list \<Rightarrow> cbor option" where
  "cbor_read b = (case cbor_decode b of Inl e \<Rightarrow> None | Inr v \<Rightarrow> Some v)"

lemma wf_canon:
  "cbor_wf v \<Longrightarrow> cbor_wf (canon v)"
  "cbor_wf_all xs \<Longrightarrow> cbor_wf_all (canon_all xs)"
  "cbor_wf_entries es \<Longrightarrow> cbor_wf_entries (canon_entries es)"
proof (induction v and xs and es rule: canon_canon_all_canon_entries.induct)
  case (2 m)
  have "map fst (canon_entries (in_order m)) = map fst (in_order m)" by (simp add: canon_entries_map case_prod_beta')
  then have "jm_ok (canon_entries (in_order m))" using 2 distinct_in_order [of m] by (simp add: jm_ok_def)
  moreover have "cbor_wf_entries (canon_entries (in_order m))" using 2 by (auto simp: wf_entries_all canon_entries_map)
  ultimately show ?case using 2 by (simp add: canon_CMap del: canon.simps)
qed auto

lemma decode_written: "cbor_wf v \<Longrightarrow> shallow 0 v \<Longrightarrow> cbor_decode (enc v) = Inr (canon v)"
  using decode_enc(1) [of v 0 "[]"] by (simp add: cbor_decode_def encode_wf(1) wf_canon(1) enc_canon compare_bytes_order)

interpretation cbor: codec cbor_write cbor_read cbor_ok
proof
  fix v assume "cbor_ok v"
  then show "cbor_read (cbor_write v) = Some v" by (simp add: cbor_ok_def cbor_write_def cbor_read_def encode_wf decode_written)
qed

section \<open>Properties\<close>

text \<open>C8: The decoder accepts a byte string exactly when it is the encoding of a well-formed value (safe integers, UTF-8
  text, no repeated key) nested at most 32 deep with its maps in canonical order, and that value is what it returns:
  what is signed has one parse, and each value one accepted form.\<close>

theorem cbor_accepts_canonical: "cbor_decode b = Inr v \<longleftrightarrow> cbor_wf v \<and> shallow 0 v \<and> canon v = v \<and> encode v = Inr b"
proof
  assume b: "cbor_decode b = Inr v"
  then have d: "decode_item 0 b = Inr (v, [])" and e: "encode v = Inr b"
    by (auto simp: cbor_decode_def compare_bytes_order split: sum.splits if_splits)
  have w: "cbor_wf v \<and> shallow 0 v" using decoded_wf(1) [OF d] .
  then have "enc v = b" using e by (simp add: encode_wf)
  with w e d show "cbor_wf v \<and> shallow 0 v \<and> canon v = v \<and> encode v = Inr b" using decode_enc(1) [of v 0 "[]"] by simp
next
  assume "cbor_wf v \<and> shallow 0 v \<and> canon v = v \<and> encode v = Inr b"
  then show "cbor_decode b = Inr v" using decode_written [of v] by (metis encode_wf(1) sum.inject(2))
qed

text \<open>A well-formed value within the nesting limit encodes, the bytes decode to it with every map in canonical order,
  and each value that differs only in the order of its maps encodes to the same bytes.\<close>

theorem cbor_roundtrip:
  assumes "cbor_wf v" "shallow 0 v"
  shows "\<exists>b. encode v = Inr b \<and> cbor_decode b = Inr (canon v) \<and> (\<forall>w. canon w = canon v \<and> cbor_wf w \<longrightarrow> encode w = Inr b)"
  using assms decode_written encode_wf(1) enc_canon(1) by metis

text \<open>The insertion order of a map does not show in its encoding.\<close>

theorem cbor_map_order_free:
  assumes "cbor_wf (CMap m)" "jm_ok m'" "set m' = set m"
  shows "encode (CMap m') = encode (CMap m)"
proof -
  have n: "length m' = length m" using assms by (metis distinct_card distinct_map jm_ok_def cbor_wf.simps(5))
  then have "cbor_wf (CMap m')" using assms by (simp add: wf_entries_all)
  moreover have "in_order m' = in_order m" using assms by (intro in_order_set) simp_all
  ultimately show ?thesis using assms(1) n by (simp add: encode_wf(1) enc_CMap del: cbor_wf.simps encode.simps enc.simps)
qed

text \<open>Arrays nested one in the other.\<close>

fun nested :: "nat \<Rightarrow> cbor" where
  "nested 0 = CNull"
| "nested (Suc n) = CArr [nested n]"

lemma wf_nested: "cbor_wf (nested n)"
  by (induction n) (simp_all add: MAX_SAFE_def)

lemma nested_too_deep: "MAX_NESTING < d + n \<Longrightarrow> d \<le> Suc MAX_NESTING \<Longrightarrow> decode_item d (enc (nested n) @ rest) = Inl Too_deep"
proof (induction n arbitrary: d)
  case 0
  then show ?case by (subst decode_item.simps) simp
next
  case (Suc n)
  show ?case
  proof (cases "d = Suc MAX_NESTING")
    case True
    then show ?thesis by (subst decode_item.simps) simp
  next
    case False
    have h: "head_of (write_head 4 1 @ (enc (nested n) @ rest)) = Inr (4, 1, enc (nested n) @ rest)" by (intro head_roundtrip) (simp_all add: MAX_SAFE_def)
    have "1 \<le> length (enc (nested n))" using enc_not_Nil [of "nested n"] by (cases "enc (nested n)") simp_all
    then show ?thesis using Suc False enc_not_Nil [of "nested n"] decode_item_head [OF h, of d] by simp
  qed
qed

text \<open>The encoder has no nesting limit: 33 nested arrays or more encode to bytes the decoder refuses.\<close>

theorem cbor_writes_what_it_cannot_read: "\<exists>b. encode (nested (MAX_NESTING + 1 + n)) = Inr b \<and> cbor_decode b = Inl Too_deep"
  using nested_too_deep [of 0 "MAX_NESTING + 1 + n" "[]"] by (simp add: encode_wf(1) wf_nested cbor_decode_def del: nested.simps)

section \<open>A concrete map\<close>

text \<open>\<open>{ "b": true, 1: [] }\<close>, written with the integer key first.\<close>

definition demo_map :: cbor where
  "demo_map = CMap [(TKey [0x62], CBool True), (IKey 1, CArr [])]"

lemma demo_map_ok: "cbor_wf demo_map" "shallow 0 demo_map"
  by (simp_all add: demo_map_def key_ok_def is_safe_def MAX_SAFE_def MAX_NESTING_def jm_ok_def)

lemma demo_map_canon: "canon demo_map = CMap [(IKey 1, CArr []), (TKey [0x62], CBool True)]"
  by (simp add: demo_map_def key_bytes_def int_bytes_def head_shape Nil_less_list word_less_nat_alt word_le_nat_alt)

lemma cbor_roundtrip_witness:
  "\<exists>b. encode demo_map = Inr b \<and> cbor_decode b = Inr (CMap [(IKey 1, CArr []), (TKey [0x62], CBool True)])"
  using cbor_roundtrip [OF demo_map_ok] unfolding demo_map_canon by blast

lemma cbor_map_order_free_witness:
  "encode (CMap [(IKey 1, CArr []), (TKey [0x62], CBool True)]) = encode demo_map"
  unfolding demo_map_def by (rule cbor_map_order_free) (use demo_map_ok in \<open>auto simp: demo_map_def jm_ok_def\<close>)

end
