(* ===== verification/Fbb_Forwarder.thy ===== *)
theory Fbb_Forwarder
  imports Fbb_Exchange
begin

text \<open>
  The byte-stream driver of a forwarding session, \<open>packages/packet/src/fbb-forward.ts\<close>: command lines
  cut out of the received bytes, compressed bodies handed to the block decoder, the ceiling on a line.
  The received bytes not yet consumed are one list; how the code grows the array that holds them is not modelled.
\<close>

section \<open>The forwarder\<close>

definition FBB_MAX_LINE :: nat where "FBB_MAX_LINE = 8192"

record forwarder =
  fw_session :: fbb_session
  fw_held :: "byte list"
  fw_decoder :: "bt_decoder option"
  fw_remaining :: nat
  fw_scanned :: nat
  fw_done :: bool
  fw_aborted :: bool

definition new_forwarder :: "session_store \<Rightarrow> fbb_opts \<Rightarrow> forwarder" where
  "new_forwarder st opts =
     \<lparr>fw_session = new_fbb_session st opts, fw_held = [], fw_decoder = None, fw_remaining = 0, fw_scanned = 0,
      fw_done = False, fw_aborted = False\<rparr>"

definition frame_lines :: "string list \<Rightarrow> byte list" where
  "frame_lines ls = concat (map (\<lambda>l. text_bytes l @ [0x0d]) ls)"

definition fw_drain :: "forwarder \<Rightarrow> byte list \<times> forwarder" where
  "fw_drain f = (let (blocks, s) = take_binary (fw_session f) in (concat blocks, f\<lparr>fw_session := s\<rparr>))"

definition fw_start :: "forwarder \<Rightarrow> byte list \<times> forwarder" where
  "fw_start f =
     (let (ls, s) = fbb_start (fw_session f); (bin, f) = fw_drain (f\<lparr>fw_session := s\<rparr>)
      in (frame_lines ls @ bin, f))"

definition is_newline :: "byte \<Rightarrow> bool" where
  "is_newline b = (b = 0x0d \<or> b = 0x0a)"

text \<open>The next line break at or after \<open>from\<close>, looked for only behind what was searched before.\<close>

definition next_newline :: "byte list \<Rightarrow> nat \<Rightarrow> nat \<Rightarrow> nat option \<times> nat" where
  "next_newline buf from scanned =
     (case find (\<lambda>i. is_newline (buf ! i)) [max from scanned..<length buf] of
        Some i \<Rightarrow> (Some i, i + 1)
      | None \<Rightarrow> (None, length buf))"

fun fw_transfers :: "fbb_codec \<Rightarrow> binary_transfer list \<Rightarrow> forwarder \<Rightarrow> forwarder \<times> byte list" where
  "fw_transfers cz [] f = (f, [])"
| "fw_transfers cz (t # ts) f =
     (let (ls, ended, s) = fbb_feed_binary cz (fw_session f) t;
          (bin, f) = fw_drain (f\<lparr>fw_session := s\<rparr>);
          out = frame_lines ls @ bin
      in if ended then (f\<lparr>fw_remaining := 0, fw_decoder := None, fw_done := True, fw_aborted := True\<rparr>, out)
         else let f = f\<lparr>fw_remaining := fw_remaining f - 1\<rparr>
              in if fw_remaining f = 0 then (f\<lparr>fw_decoder := None\<rparr>, out)
                 else let (f, out') = fw_transfers cz ts f in (f, out @ out'))"

definition fw_binary :: "fbb_codec \<Rightarrow> byte \<Rightarrow> forwarder \<Rightarrow> forwarder \<times> byte list" where
  "fw_binary cz b f =
     (case fw_decoder f of
        None \<Rightarrow> (f, [])
      | Some d \<Rightarrow> let (d, ts) = bd_push d [b] in fw_transfers cz ts (f\<lparr>fw_decoder := Some d\<rparr>))"

definition fw_line :: "fbb_codec \<Rightarrow> string \<Rightarrow> forwarder \<Rightarrow> forwarder \<times> byte list" where
  "fw_line cz l f =
     (let (ls, ended, s) = fbb_feed cz (fw_session f) l;
          (bin, f) = fw_drain (f\<lparr>fw_session := s\<rparr>);
          out = frame_lines ls @ bin
      in if ended then (f\<lparr>fw_done := True\<rparr>, out)
         else let expect = expecting_binary (fw_session f)
              in if expect > 0
                 then (f\<lparr>fw_remaining := expect, fw_decoder := Some (new_bt_decoder 1048576)\<rparr>, out)
                 else (f, out))"

function fw_loop :: "fbb_codec \<Rightarrow> byte list \<Rightarrow> nat \<Rightarrow> forwarder \<Rightarrow> nat \<times> forwarder \<times> byte list" where
  "fw_loop cz buf pos f =
     (if length buf \<le> pos then (pos, f, [])
      else if fw_remaining f > 0 then
        (let (f, out) = fw_binary cz (buf ! pos) f
         in if fw_done f then (length buf, f, out)
            else let (p, f', out') = fw_loop cz buf (pos + 1) f in (p, f', out @ out'))
      else
        (let (nl, sc) = next_newline buf pos (fw_scanned f); f = f\<lparr>fw_scanned := sc\<rparr>
         in if (case nl of None \<Rightarrow> length buf | Some i \<Rightarrow> i) - pos > FBB_MAX_LINE
            then (length buf, f\<lparr>fw_done := True, fw_aborted := True\<rparr>, frame_lines [''FQ''])
            else case nl of
              None \<Rightarrow> (pos, f, [])
            | Some i \<Rightarrow>
                let line = bytes_text (sub_bytes pos i buf)
                in if i < pos then (pos, f, [])
                   else if line = [] then fw_loop cz buf (i + 1) f
                   else let (f, out) = fw_line cz line f
                        in if fw_done f then (length buf, f, out)
                           else let (p, f', out') = fw_loop cz buf (i + 1) f in (p, f', out @ out')))"
  by pat_completeness auto
termination
  by (relation "measure (\<lambda>(cz, buf, pos, f). length buf - pos)") auto

declare fw_loop.simps [simp del]

definition fw_on_data :: "fbb_codec \<Rightarrow> forwarder \<Rightarrow> byte list \<Rightarrow> forwarder \<times> byte list" where
  "fw_on_data cz f bytes =
     (if fw_done f then (f, [])
      else let buf = fw_held f @ bytes; (pos, f, out) = fw_loop cz buf 0 f
           in (f\<lparr>fw_held := (if fw_done f then [] else drop pos buf), fw_scanned := fw_scanned f - pos\<rparr>, out))"

section \<open>The same, byte by byte\<close>

text \<open>
  The reference: each byte is handled when it arrives, a line when its line break does. No buffer is
  searched and nothing is handled twice.
\<close>

definition fw_byte :: "fbb_codec \<Rightarrow> forwarder \<Rightarrow> byte \<Rightarrow> forwarder \<times> byte list" where
  "fw_byte cz f b =
     (if fw_done f then (f, [])
      else if fw_remaining f > 0 then fw_binary cz b f
      else if is_newline b then
        (if fw_held f = [] then (f, [])
         else fw_line cz (bytes_text (fw_held f)) (f\<lparr>fw_held := [], fw_scanned := 0\<rparr>))
      else if length (fw_held f) + 1 > FBB_MAX_LINE
      then (f\<lparr>fw_held := [], fw_scanned := 0, fw_done := True, fw_aborted := True\<rparr>, frame_lines [''FQ''])
      else (f\<lparr>fw_held := fw_held f @ [b], fw_scanned := fw_scanned f + 1\<rparr>, []))"

fun fw_bytes :: "fbb_codec \<Rightarrow> forwarder \<Rightarrow> byte list \<Rightarrow> forwarder \<times> byte list" where
  "fw_bytes cz f [] = (f, [])"
| "fw_bytes cz f (b # bs) = (let (f1, o1) = fw_byte cz f b; (f2, o2) = fw_bytes cz f1 bs in (f2, o1 @ o2))"

lemma fw_bytes_append:
  "fw_bytes cz f (xs @ ys) =
     (fst (fw_bytes cz (fst (fw_bytes cz f xs)) ys), snd (fw_bytes cz f xs) @ snd (fw_bytes cz (fst (fw_bytes cz f xs)) ys))"
  by (induction xs arbitrary: f) (simp_all add: split_beta Let_def)

lemma fw_bytes_done: "fw_done f \<Longrightarrow> fw_bytes cz f bs = (f, [])"
  by (induction bs) (simp_all add: fw_byte_def)

text \<open>A part of a line: it is held, or it is too long.\<close>

lemma fw_bytes_line:
  assumes "\<not> fw_done f" "fw_remaining f = 0" "\<forall>b\<in>set bs. \<not> is_newline b" "length (fw_held f) + length bs \<le> FBB_MAX_LINE"
  shows "fw_bytes cz f bs = (f\<lparr>fw_held := fw_held f @ bs, fw_scanned := fw_scanned f + length bs\<rparr>, [])"
  using assms
proof (induction bs arbitrary: f)
  case (Cons b bs)
  let ?f = "f\<lparr>fw_held := fw_held f @ [b], fw_scanned := fw_scanned f + 1\<rparr>"
  have "fw_byte cz f b = (?f, [])" using Cons.prems by (simp add: fw_byte_def)
  then show ?case using Cons.prems Cons.IH [of ?f] by simp
qed simp

lemma fw_bytes_too_long:
  assumes "\<not> fw_done f" "fw_remaining f = 0" "\<forall>b\<in>set bs. \<not> is_newline b" "FBB_MAX_LINE < length (fw_held f) + length bs"
    "length (fw_held f) \<le> FBB_MAX_LINE"
  shows "fw_bytes cz f (bs @ cs) =
    (f\<lparr>fw_held := [], fw_scanned := 0, fw_done := True, fw_aborted := True\<rparr>, frame_lines [''FQ''])"
proof -
  let ?k = "FBB_MAX_LINE - length (fw_held f)"
  let ?f = "f\<lparr>fw_held := fw_held f @ take ?k bs, fw_scanned := fw_scanned f + length (take ?k bs)\<rparr>"
  have k: "?k < length bs" using assms(4,5) by simp
  have l: "fw_bytes cz f (take ?k bs) = (?f, [])"
    using assms k by (intro fw_bytes_line) (auto dest: in_set_takeD)
  have b: "\<not> is_newline (bs ! ?k)" using assms(3) k by simp
  have one: "fw_byte cz ?f (bs ! ?k) = (f\<lparr>fw_held := [], fw_scanned := 0, fw_done := True, fw_aborted := True\<rparr>, frame_lines [''FQ''])"
    using assms b k by (simp add: fw_byte_def)
  have "bs @ cs = take ?k bs @ bs ! ?k # (drop (Suc ?k) bs @ cs)"
    using id_take_nth_drop [OF k] by (metis append.assoc append_Cons)
  then have "fw_bytes cz f (bs @ cs) = fw_bytes cz ?f (bs ! ?k # (drop (Suc ?k) bs @ cs))"
    using l by (simp only: fw_bytes_append [of cz f "take ?k bs"] fst_conv snd_conv append_Nil prod.collapse)
  then show ?thesis using one by (simp add: fw_bytes_done)
qed

lemma fw_drain_keeps:
  "fw_held (snd (fw_drain f)) = fw_held f" "fw_scanned (snd (fw_drain f)) = fw_scanned f" "fw_done (snd (fw_drain f)) = fw_done f"
  "fw_remaining (snd (fw_drain f)) = fw_remaining f" "fw_decoder (snd (fw_drain f)) = fw_decoder f"
  by (simp_all add: fw_drain_def split_beta)

text \<open>
  The handling of a line or a block byte neither sees nor changes what is held: \<open>fw_at\<close>, which
  sets that, moves out of every step.
\<close>

definition fw_at :: "byte list \<Rightarrow> nat \<Rightarrow> forwarder \<Rightarrow> forwarder" where
  "fw_at h n f = f\<lparr>fw_held := h, fw_scanned := n\<rparr>"

lemma fw_at_sel [simp]:
  "fw_session (fw_at h n f) = fw_session f" "fw_decoder (fw_at h n f) = fw_decoder f" "fw_remaining (fw_at h n f) = fw_remaining f"
  "fw_done (fw_at h n f) = fw_done f" "fw_held (fw_at h n f) = h" "fw_scanned (fw_at h n f) = n"
  "fw_at h n (fw_at h' n' f) = fw_at h n f"
  by (simp_all add: fw_at_def)

lemma fw_at_out [simp]:
  "(fw_at h n f)\<lparr>fw_session := s\<rparr> = fw_at h n (f\<lparr>fw_session := s\<rparr>)"
  "(fw_at h n f)\<lparr>fw_decoder := d\<rparr> = fw_at h n (f\<lparr>fw_decoder := d\<rparr>)"
  "(fw_at h n f)\<lparr>fw_remaining := r\<rparr> = fw_at h n (f\<lparr>fw_remaining := r\<rparr>)"
  "(fw_at h n f)\<lparr>fw_done := b\<rparr> = fw_at h n (f\<lparr>fw_done := b\<rparr>)"
  "(fw_at h n f)\<lparr>fw_aborted := b\<rparr> = fw_at h n (f\<lparr>fw_aborted := b\<rparr>)"
  "(fw_at h n f)\<lparr>fw_held := h'\<rparr> = fw_at h' n f"
  "(fw_at h n f)\<lparr>fw_scanned := n'\<rparr> = fw_at h n' f"
  by (simp_all add: fw_at_def)

lemma fw_at_self: "fw_at (fw_held f) (fw_scanned f) f = f"
  by (simp add: fw_at_def)

lemma fw_drain_at: "fw_drain (fw_at h n f) = (fst (fw_drain f), fw_at h n (snd (fw_drain f)))"
  by (simp add: fw_drain_def split_beta)

lemma fw_line_at: "fw_line cz l (fw_at h n f) = (fw_at h n (fst (fw_line cz l f)), snd (fw_line cz l f))"
  by (simp add: fw_line_def fw_drain_at split_beta Let_def)

lemma fw_transfers_at:
  "fw_transfers cz ts (fw_at h n f) = (fw_at h n (fst (fw_transfers cz ts f)), snd (fw_transfers cz ts f))"
  by (induction ts arbitrary: f) (simp_all add: fw_drain_at split_beta Let_def)

lemma fw_binary_at: "fw_binary cz b (fw_at h n f) = (fw_at h n (fst (fw_binary cz b f)), snd (fw_binary cz b f))"
  by (simp add: fw_binary_def fw_transfers_at split_beta Let_def split: option.splits)

text \<open>One search of the buffer, resumed where the last one stopped, finds what a full search would.\<close>

lemma next_newline_exact:
  assumes "\<forall>i. pos \<le> i \<and> i < scanned \<longrightarrow> i < length buf \<longrightarrow> \<not> is_newline (buf ! i)"
  shows "next_newline buf pos scanned =
    (case find (\<lambda>i. is_newline (buf ! i)) [pos..<length buf] of Some i \<Rightarrow> (Some i, i + 1) | None \<Rightarrow> (None, length buf))"
proof -
  let ?p = "\<lambda>i. is_newline (buf ! i)" and ?m = "max pos scanned"
  have "find ?p [pos..<length buf] = find ?p [?m..<length buf]"
  proof (cases "?m \<le> length buf")
    case True
    then obtain k where "length buf = ?m + k" using le_iff_add by blast
    then have "[pos..<length buf] = [pos..<?m] @ [?m..<length buf]" by (simp only: upt_add_eq_append [of pos ?m] max.cobounded1)
    moreover have "find ?p [pos..<?m] = None" using assms True by (auto simp: find_None_iff)
    ultimately show ?thesis by (simp add: find_append)
  next
    case False
    then have "find ?p [pos..<length buf] = None" using assms by (auto simp: find_None_iff)
    moreover have "length buf \<le> ?m" using False by linarith
    then have "[?m..<length buf] = []" by (rule upt_conv_Nil)
    ultimately show ?thesis by (simp del: upt_eq_Nil_conv)
  qed
  then show ?thesis by (simp add: next_newline_def split: option.splits)
qed

lemma find_from_Some:
  "find p [a..<n] = Some i \<longleftrightarrow> a \<le> i \<and> i < n \<and> p i \<and> (\<forall>j. a \<le> j \<and> j < i \<longrightarrow> \<not> p j)"
proof (induction n arbitrary: i)
  case (Suc n)
  show ?case
  proof (cases "a \<le> n")
    case False
    then show ?thesis by auto
  next
    case True
    then have step: "find p [a..<Suc n] = (case find p [a..<n] of None \<Rightarrow> if p n then Some n else None | Some x \<Rightarrow> Some x)"
      by (simp add: find_append split: option.splits)
    show ?thesis
    proof (cases "find p [a..<n]")
      case None
      then have "\<forall>j. a \<le> j \<and> j < n \<longrightarrow> \<not> p j" by (auto simp: find_None_iff)
      then show ?thesis using None True unfolding step by (auto simp: less_Suc_eq)
    next
      case (Some k)
      then have k: "a \<le> k" "k < n" "p k" "\<forall>j. a \<le> j \<and> j < k \<longrightarrow> \<not> p j" using Suc.IH by auto
      have "(k = i) \<longleftrightarrow> a \<le> i \<and> i < Suc n \<and> p i \<and> (\<forall>j. a \<le> j \<and> j < i \<longrightarrow> \<not> p j)"
        using k by (meson less_SucI linorder_neqE_nat)
      then show ?thesis using Some unfolding step by simp
    qed
  qed
qed simp

lemma fw_line_scanned: "fw_line cz l (f\<lparr>fw_scanned := n\<rparr>) = ((fst (fw_line cz l f))\<lparr>fw_scanned := n\<rparr>, snd (fw_line cz l f))"
proof -
  have "fw_held (fst (fw_line cz l f)) = fw_held f"
    using fw_line_at [of cz l "fw_held f" "fw_scanned f" f] unfolding fw_at_self by (metis fst_conv fw_at_sel(5))
  then have "fw_at (fw_held f) n (fst (fw_line cz l f)) = (fst (fw_line cz l f))\<lparr>fw_scanned := n\<rparr>" by (simp add: fw_at_def)
  moreover have "f\<lparr>fw_scanned := n\<rparr> = fw_at (fw_held f) n f" by (simp add: fw_at_def)
  ultimately show ?thesis by (simp only: fw_line_at)
qed

lemma fw_loop_bytes:
  assumes "\<forall>i. pos \<le> i \<and> i < fw_scanned f \<longrightarrow> i < length buf \<longrightarrow> \<not> is_newline (buf ! i)"
    and "fw_scanned f \<le> length buf" "pos \<le> length buf" "\<not> fw_done f"
  shows "fw_bytes cz (fw_at [] 0 f) (drop pos buf) =
    (case fw_loop cz buf pos f of (p, f', out) \<Rightarrow>
       (fw_at (if fw_done f' then [] else drop p buf) (fw_scanned f' - p) f', out))"
  using assms
proof (induction cz buf pos f rule: fw_loop.induct)
  case (1 cz buf pos f)
  note prems = "1.prems"
  show ?case
  proof (cases "length buf \<le> pos")
    case True
    then show ?thesis using prems by (simp add: fw_loop.simps [of cz buf pos f])
  next
    case False
    then have cons: "drop pos buf = buf ! pos # drop (pos + 1) buf" by (simp add: Cons_nth_drop_Suc)
    show ?thesis
    proof (cases "fw_remaining f > 0")
      case True
      let ?g = "fst (fw_binary cz (buf ! pos) f)" and ?o = "snd (fw_binary cz (buf ! pos) f)"
      have sc: "fw_scanned ?g = fw_scanned f"
        using fw_binary_at [of cz "buf ! pos" "fw_held f" "fw_scanned f" f] unfolding fw_at_self
        by (metis fst_conv fw_at_sel(6))
      have byte: "fw_byte cz (fw_at [] 0 f) (buf ! pos) = (fw_at [] 0 ?g, ?o)"
        using True prems by (simp add: fw_byte_def fw_binary_at)
      show ?thesis
      proof (cases "fw_done ?g")
        case d: True
        have "fw_loop cz buf pos f = (length buf, ?g, ?o)"
          using False True d by (subst fw_loop.simps) (simp add: split_beta)
        then show ?thesis using byte d sc prems unfolding cons by (simp add: fw_bytes_done split_beta)
      next
        case d: False
        have IH: "fw_bytes cz (fw_at [] 0 ?g) (drop (pos + 1) buf) =
          (case fw_loop cz buf (pos + 1) ?g of (p, f', out) \<Rightarrow>
             (fw_at (if fw_done f' then [] else drop p buf) (fw_scanned f' - p) f', out))"
          using False True d sc prems by (intro "1.IH"(1)) (auto simp: prod_eq_iff)
        have "fw_loop cz buf pos f = (case fw_loop cz buf (pos + 1) ?g of (p, f', out) \<Rightarrow> (p, f', ?o @ out))"
          using False True d by (subst fw_loop.simps) (simp add: split_beta)
        then show ?thesis using byte IH unfolding cons by (simp add: split_beta)
      qed
    next
      case r: False
      let ?find = "find (\<lambda>i. is_newline (buf ! i)) [pos..<length buf]"
      have nn: "next_newline buf pos (fw_scanned f) = (case ?find of Some i \<Rightarrow> (Some i, i + 1) | None \<Rightarrow> (None, length buf))"
        using prems(1) by (rule next_newline_exact)
      show ?thesis
      proof (cases ?find)
        case None
        then have no: "\<forall>b\<in>set (drop pos buf). \<not> is_newline b"
          by (auto simp: find_None_iff in_set_conv_nth)
        show ?thesis
        proof (cases "length buf - pos > FBB_MAX_LINE")
          case True
          have "fw_loop cz buf pos f = (length buf, f\<lparr>fw_scanned := length buf, fw_done := True, fw_aborted := True\<rparr>, frame_lines [''FQ''])"
            using False r nn None True by (subst fw_loop.simps) simp
          moreover have "fw_bytes cz (fw_at [] 0 f) (drop pos buf) =
              ((fw_at [] 0 f)\<lparr>fw_held := [], fw_scanned := 0, fw_done := True, fw_aborted := True\<rparr>, frame_lines [''FQ''])"
            using fw_bytes_too_long [of "fw_at [] 0 f" "drop pos buf" cz "[]"] no True r prems(4) by simp
          ultimately show ?thesis by (simp add: fw_at_def)
        next
          case l: False
          have "fw_loop cz buf pos f = (pos, f\<lparr>fw_scanned := length buf\<rparr>, [])"
            using False r nn None l by (subst fw_loop.simps) simp
          moreover have "fw_bytes cz (fw_at [] 0 f) (drop pos buf) = (fw_at (drop pos buf) (length buf - pos) f, [])"
            using fw_bytes_line [of "fw_at [] 0 f" "drop pos buf" cz] no l r prems(4) by simp
          ultimately show ?thesis using prems(4) by (simp add: fw_at_def)
        qed
      next
        case (Some i)
        then have i: "pos \<le> i" "i < length buf" "is_newline (buf ! i)" "\<forall>j. pos \<le> j \<and> j < i \<longrightarrow> \<not> is_newline (buf ! j)"
          by (auto simp: find_from_Some)
        let ?l = "sub_bytes pos i buf"
        have nol: "\<forall>b\<in>set ?l. \<not> is_newline b" using i by (auto simp: sub_bytes_def in_set_conv_nth)
        have cut: "drop pos buf = ?l @ buf ! i # drop (i + 1) buf"
        proof -
          have "drop pos buf = take (i - pos) (drop pos buf) @ drop (i - pos) (drop pos buf)" by (simp only: append_take_drop_id)
          then show ?thesis using i by (simp add: sub_bytes_def Cons_nth_drop_Suc)
        qed
        have ll: "length ?l = i - pos" using i by simp
        show ?thesis
        proof (cases "i - pos > FBB_MAX_LINE")
          case True
          have "fw_loop cz buf pos f = (length buf, f\<lparr>fw_scanned := i + 1, fw_done := True, fw_aborted := True\<rparr>, frame_lines [''FQ''])"
            using False r nn Some True by (subst fw_loop.simps) simp
          moreover have "fw_bytes cz (fw_at [] 0 f) (drop pos buf) =
              ((fw_at [] 0 f)\<lparr>fw_held := [], fw_scanned := 0, fw_done := True, fw_aborted := True\<rparr>, frame_lines [''FQ''])"
            unfolding cut using fw_bytes_too_long [of "fw_at [] 0 f" ?l cz "buf ! i # drop (i + 1) buf"] nol ll True r prems(4) by simp
          ultimately show ?thesis using i by (simp add: fw_at_def)
        next
          case l: False
          let ?f = "f\<lparr>fw_scanned := i + 1\<rparr>"
          have held: "fw_bytes cz (fw_at [] 0 f) ?l = (fw_at ?l (i - pos) f, [])"
            using fw_bytes_line [of "fw_at [] 0 f" ?l cz] nol ll l r prems(4) by simp
          have empty: "bytes_text ?l = [] \<longleftrightarrow> ?l = []" by (simp add: bytes_text_def)
          show ?thesis
          proof (cases "?l = []")
            case True
            have loop: "fw_loop cz buf pos f = fw_loop cz buf (i + 1) ?f"
              using False r nn Some l i True empty by (subst fw_loop.simps) (simp add: Let_def)
            have IH: "fw_bytes cz (fw_at [] 0 ?f) (drop (i + 1) buf) =
              (case fw_loop cz buf (i + 1) ?f of (p, f', out) \<Rightarrow>
                 (fw_at (if fw_done f' then [] else drop p buf) (fw_scanned f' - p) f', out))"
              using False r nn Some l i True empty prems by (intro "1.IH"(2)) (auto simp: prod_eq_iff)
            have "fw_byte cz (fw_at [] 0 f) (buf ! i) = (fw_at [] 0 f, [])" using i(3) r prems(4) by (simp add: fw_byte_def)
            moreover have "fw_at [] 0 f = fw_at [] 0 ?f" by (simp add: fw_at_def)
            ultimately show ?thesis unfolding cut True loop using IH by simp
          next
            case ne: False
            let ?g = "fst (fw_line cz (bytes_text ?l) ?f)" and ?o = "snd (fw_line cz (bytes_text ?l) ?f)"
            have sc: "fw_scanned ?g = i + 1" by (simp add: fw_line_scanned)
            have "fw_byte cz (fw_at ?l (i - pos) f) (buf ! i) = fw_line cz (bytes_text ?l) (fw_at [] 0 f)"
              using i(3) r prems(4) ne by (simp add: fw_byte_def)
            also have "\<dots> = fw_line cz (bytes_text ?l) (fw_at [] 0 ?f)" by (simp add: fw_at_def)
            finally have byte: "fw_byte cz (fw_at ?l (i - pos) f) (buf ! i) = (fw_at [] 0 ?g, ?o)" by (simp only: fw_line_at)
            have b: "fw_bytes cz (fw_at [] 0 f) (drop pos buf) =
                (fst (fw_bytes cz (fw_at [] 0 ?g) (drop (i + 1) buf)), ?o @ snd (fw_bytes cz (fw_at [] 0 ?g) (drop (i + 1) buf)))"
              unfolding cut fw_bytes_append held fst_conv snd_conv fw_bytes.simps byte by (simp add: split_beta)
            show ?thesis
            proof (cases "fw_done ?g")
              case d: True
              have "fw_loop cz buf pos f = (length buf, ?g, ?o)"
                using False r nn Some l i ne empty d by (subst fw_loop.simps) (simp add: Let_def split_beta)
              then show ?thesis using b d sc i by (simp add: fw_bytes_done split_beta)
            next
              case d: False
              have loop: "fw_loop cz buf pos f = (case fw_loop cz buf (i + 1) ?g of (p, f', out) \<Rightarrow> (p, f', ?o @ out))"
                using False r nn Some l i ne empty d by (subst fw_loop.simps) (simp add: Let_def split_beta)
              have IH: "fw_bytes cz (fw_at [] 0 ?g) (drop (i + 1) buf) =
                (case fw_loop cz buf (i + 1) ?g of (p, f', out) \<Rightarrow>
                   (fw_at (if fw_done f' then [] else drop p buf) (fw_scanned f' - p) f', out))"
                using False r nn Some l i ne empty d sc prems by (intro "1.IH"(3)) (auto simp: prod_eq_iff)
              show ?thesis unfolding b loop IH by (simp add: split_beta)
            qed
          qed
        qed
      qed
    qed
  qed
qed

section \<open>Any cut of the stream gives the same session\<close>

text \<open>
  The state between two reads: nothing held once the session has ended, nothing held while a compressed
  body is read, and otherwise a part of a line within the ceiling, all of it searched.
\<close>

definition fw_ready :: "forwarder \<Rightarrow> bool" where
  "fw_ready f = (fw_scanned f = length (fw_held f) \<and> (fw_done f \<or> fw_remaining f > 0 \<longrightarrow> fw_held f = [])
     \<and> (\<forall>b\<in>set (fw_held f). \<not> is_newline b) \<and> length (fw_held f) \<le> FBB_MAX_LINE)"

text \<open>
  The driver that buffers, searches and resumes is, on every read and from every state between reads,
  the machine that takes the bytes one at a time: the same session, the same bytes to transmit.
\<close>

theorem forwarder_is_bytewise:
  assumes "fw_ready f"
  shows "fw_on_data cz f bytes = fw_bytes cz f bytes"
proof (cases "fw_done f")
  case True
  then show ?thesis by (simp add: fw_on_data_def fw_bytes_done)
next
  case False
  let ?h = "fw_held f"
  have "fw_bytes cz (fw_at [] 0 f) (?h @ bytes) = fw_bytes cz f bytes"
  proof (cases "?h = []")
    case True
    then have "fw_at [] 0 f = f" using assms fw_at_self [of f] by (simp add: fw_ready_def)
    then show ?thesis using True by simp
  next
    case ne: False
    then have "fw_bytes cz (fw_at [] 0 f) ?h = (fw_at ?h (length ?h) f, [])"
      using fw_bytes_line [of "fw_at [] 0 f" ?h cz] assms False by (auto simp: fw_ready_def)
    moreover have "fw_at ?h (length ?h) f = f" using assms fw_at_self [of f] by (simp add: fw_ready_def)
    ultimately show ?thesis by (simp add: fw_bytes_append)
  qed
  moreover have "fw_bytes cz (fw_at [] 0 f) (drop 0 (?h @ bytes)) =
    (case fw_loop cz (?h @ bytes) 0 f of (p, f', out) \<Rightarrow>
       (fw_at (if fw_done f' then [] else drop p (?h @ bytes)) (fw_scanned f' - p) f', out))"
    using assms False by (intro fw_loop_bytes) (auto simp: fw_ready_def nth_append)
  ultimately show ?thesis using False by (simp add: fw_on_data_def fw_at_def split_beta Let_def)
qed

lemma fw_line_held:
  "fw_held (fst (fw_line cz l f)) = fw_held f \<and> fw_scanned (fst (fw_line cz l f)) = fw_scanned f"
  using fw_line_at [of cz l "fw_held f" "fw_scanned f" f] unfolding fw_at_self by (metis fst_conv fw_at_sel(5,6))

lemma fw_binary_held:
  "fw_held (fst (fw_binary cz b f)) = fw_held f \<and> fw_scanned (fst (fw_binary cz b f)) = fw_scanned f"
  using fw_binary_at [of cz b "fw_held f" "fw_scanned f" f] unfolding fw_at_self by (metis fst_conv fw_at_sel(5,6))

lemma fw_byte_ready: "fw_ready f \<Longrightarrow> fw_ready (fst (fw_byte cz f b))"
  using fw_line_held [of cz "bytes_text (fw_held f)" "f\<lparr>fw_held := [], fw_scanned := 0\<rparr>"] fw_binary_held [of cz b f]
  by (auto simp: fw_byte_def fw_ready_def)

lemma fw_bytes_ready: "fw_ready f \<Longrightarrow> fw_ready (fst (fw_bytes cz f bs))"
  by (induction bs arbitrary: f) (simp_all add: split_beta Let_def fw_byte_ready)

interpretation forwarder: stream_decoder "fw_on_data cz" fw_ready for cz
proof
  fix s xs ys
  assume s: "fw_ready s"
  show "fw_on_data cz s [] = (s, [])" using s by (simp add: forwarder_is_bytewise)
  show "fw_ready (fst (fw_on_data cz s xs))" using s by (simp add: forwarder_is_bytewise fw_bytes_ready)
  then have "fw_ready (fst (fw_bytes cz s xs))" using s by (simp add: forwarder_is_bytewise)
  then show "fw_on_data cz s (xs @ ys) =
      (fst (fw_on_data cz (fst (fw_on_data cz s xs)) ys), snd (fw_on_data cz s xs) @ snd (fw_on_data cz (fst (fw_on_data cz s xs)) ys))"
    using s by (simp add: forwarder_is_bytewise fw_bytes_append)
qed

lemma started_ready: "fw_ready (snd (fw_start (new_forwarder st opts)))"
  by (simp add: fw_start_def fw_drain_def new_forwarder_def fw_ready_def split_beta Let_def)

text \<open>C12: 
  From the opening of a session on, and however the link cuts the received stream into reads, the
  forwarder ends in the state and has transmitted the bytes of the machine that takes one byte at a
  time: no line, block or ceiling depends on where a read ends.
\<close>

theorem forwarder_cut_free:
  "forwarder.push_all cz (snd (fw_start (new_forwarder st opts))) reads =
     fw_bytes cz (snd (fw_start (new_forwarder st opts))) (concat reads)"
  by (simp add: forwarder.push_all_concat [OF started_ready] forwarder_is_bytewise [OF started_ready])

section \<open>Lines of a text session on the link\<close>

lemma ended_sid_line: "\<not> fst (snd (fbb_sid_line s t))"
  by (simp add: fbb_sid_line_def Let_def split_beta)

lemma ended_proposal_line: "fst (snd (fbb_proposal_line s t)) \<Longrightarrow> fs_phase (snd (snd (fbb_proposal_line s t))) = Done"
proof (cases "js_upper (take 2 t) = ''FQ''")
  case fq: False
  assume e: "fst (snd (fbb_proposal_line s t))"
  show ?thesis
  proof (cases "js_upper (take 2 t) = ''FF''")
    case True
    then show ?thesis using fq e by (cases "fst (propose_block s) = [''FF'']") (simp_all add: fbb_proposal_line_def Let_def split_beta)
  next
    case False
    then have "\<not> fst (snd (fbb_proposal_line s t))" using fq
      by (cases "parse_proposal t"; cases "take 2 t = ''F>''") (simp_all add: fbb_proposal_line_def Let_def split_beta)
    then show ?thesis using e by simp
  qed
qed (simp add: fbb_proposal_line_def)

lemma ended_body_line: "fst (snd (fbb_body_line s raw t)) \<Longrightarrow> fs_phase (snd (snd (fbb_body_line s raw t))) = Done"
  by (cases "fs_pending_rx s"; cases "fs_rx_title s") (auto simp: fbb_body_line_def Let_def split_beta split: if_splits)

lemma ended_is_done: "fst (snd (fbb_feed cz s l)) \<Longrightarrow> fs_phase (snd (snd (fbb_feed cz s l))) = Done"
  using ended_sid_line ended_proposal_line ended_body_line
  by (cases "fs_phase s") (simp_all add: fbb_feed_def Let_def split_beta split: if_splits)

lemma feed_lines_done: "fs_phase s = Done \<Longrightarrow> feed_lines cz s ls = ([], s)"
  by (induction ls) (simp_all add: fbb_feed_def)

text \<open>A session that does not compress.\<close>

definition plain :: "fbb_session \<Rightarrow> bool" where
  "plain s = (\<not> fo_compress (fs_opts s) \<and> \<not> fs_compressed s \<and> fs_pending_binary s = [])"

lemma plain_propose [simp]: "plain (snd (propose_block s)) = plain s"
  by (simp add: plain_def propose_block_def Let_def)

lemma plain_send_loop: "plain s \<Longrightarrow> plain (snd (send_loop cz ps vs s))"
proof (induction ps arbitrary: vs s)
  case (Cons p ps)
  have "plain (s\<lparr>fs_deferred := x\<rparr>)" "plain (s\<lparr>fs_store := st\<rparr>)" for x st using Cons.prems by (simp_all add: plain_def)
  then show ?case using Cons by (cases vs) (auto simp: plain_def Let_def split_beta split: option.splits)
qed simp

lemma plain_upd:
  "plain (s\<lparr>fs_phase := x\<rparr>) = plain s" "plain (s\<lparr>fs_sent_sid := b\<rparr>) = plain s" "plain (s\<lparr>fs_offered := o'\<rparr>) = plain s"
  "plain (s\<lparr>fs_accepting := a\<rparr>) = plain s" "plain (s\<lparr>fs_rx_acc := acc\<rparr>) = plain s" "plain (s\<lparr>fs_rx_title := t\<rparr>) = plain s"
  "plain (s\<lparr>fs_rx_bytes := n\<rparr>) = plain s" "plain (s\<lparr>fs_pending_rx := ps\<rparr>) = plain s" "plain (s\<lparr>fs_store := st\<rparr>) = plain s"
  by (simp_all add: plain_def)

lemma plain_sid_line: "plain s \<Longrightarrow> plain (snd (snd (fbb_sid_line s t)))"
proof -
  assume p: "plain s"
  then have c: "s\<lparr>fs_compressed := fo_compress (fs_opts s) \<and> b\<rparr> = s" for b by (cases s) (simp add: plain_def)
  have "\<not> fo_compress (fs_opts s)" using p by (simp add: plain_def)
  then show ?thesis
    using p c [of "compression_agreed (session_sid s) t"] by (simp add: fbb_sid_line_def plain_upd Let_def split_beta)
qed

lemma plain_proposal_line: "plain s \<Longrightarrow> plain (snd (snd (fbb_proposal_line s t)))"
  by (simp add: fbb_proposal_line_def plain_upd Let_def split_beta split: option.split)

lemma plain_body_line: "plain s \<Longrightarrow> plain (snd (snd (fbb_body_line s raw t)))"
  by (simp add: fbb_body_line_def plain_upd Let_def split_beta split: list.split)

lemma plain_feed: "plain s \<Longrightarrow> plain (snd (snd (fbb_feed cz s l)))"
  using plain_sid_line plain_proposal_line plain_body_line plain_send_loop
  by (cases "fs_phase s") (simp_all add: fbb_feed_def send_accepted_def plain_upd Let_def split_beta)

text \<open>
  On the link each line is ended by a carriage return, and a line with nothing in it is skipped: the
  session hears the others.
\<close>

definition text_mode :: "forwarder \<Rightarrow> bool" where
  "text_mode f = (fw_remaining f = 0 \<and> fw_held f = [] \<and> fw_scanned f = 0 \<and> plain (fw_session f)
     \<and> (fw_done f \<longrightarrow> fs_phase (fw_session f) = Done))"

lemma newline_char: "is_newline (byte_of (char_code c)) \<longleftrightarrow> is_line_break c"
proof -
  have b: "byte_of (char_code c) = byte_of n \<longleftrightarrow> char_code c = n" if "n < 256" for n
    using that by (intro byte_of_inj) simp_all
  have "char_code (CHR 0x0a) = 10" "char_code (CHR 0x0d) = 13" by (simp_all add: char_code_def)
  then have "is_line_break c \<longleftrightarrow> char_code c = 10 \<or> char_code c = 13"
    unfolding is_line_break_def by (metis char_code_inject)
  moreover have "is_newline (byte_of (char_code c)) \<longleftrightarrow> byte_of (char_code c) = byte_of 10 \<or> byte_of (char_code c) = byte_of 13"
    by (auto simp: is_newline_def byte_of_def)
  ultimately show ?thesis using b by simp
qed

lemma fw_line_text:
  assumes "text_mode f" "\<not> fw_done f"
  shows "fw_line cz l f =
    (f\<lparr>fw_session := snd (snd (fbb_feed cz (fw_session f) l)), fw_done := fst (snd (fbb_feed cz (fw_session f) l))\<rparr>,
     frame_lines (fst (fbb_feed cz (fw_session f) l)))"
proof -
  let ?s = "snd (snd (fbb_feed cz (fw_session f) l))"
  have "plain ?s" using assms(1) by (intro plain_feed) (simp add: text_mode_def)
  then have "take_binary ?s = ([], ?s)" "expecting_binary ?s = 0"
    by (cases ?s; simp add: plain_def take_binary_def expecting_binary_def)+
  moreover have "f\<lparr>fw_session := x\<rparr> = f\<lparr>fw_session := x, fw_done := False\<rparr>" for x using assms(2) by (cases f) simp
  ultimately show ?thesis by (simp add: fw_line_def fw_drain_def Let_def split_beta)
qed

lemma fw_bytes_framed_line:
  assumes "text_mode f" "\<not> fw_done f" "\<forall>c\<in>set l. \<not> is_line_break c" "length l \<le> FBB_MAX_LINE"
  shows "fw_bytes cz f (text_bytes l @ [0x0d]) = (if l = [] then (f, []) else fw_line cz l f)"
proof -
  have n: "\<forall>b\<in>set (text_bytes l). \<not> is_newline b" using assms(3) by (auto simp: text_bytes_def newline_char)
  have f: "f\<lparr>fw_held := [], fw_scanned := 0\<rparr> = f" using assms(1) by (cases f) (simp add: text_mode_def)
  have "fw_bytes cz f (text_bytes l) = (f\<lparr>fw_held := text_bytes l, fw_scanned := length l\<rparr>, [])"
    using fw_bytes_line [OF assms(2) _ n, of cz] assms(1,4) by (simp add: text_mode_def)
  moreover have "fw_byte cz (f\<lparr>fw_held := text_bytes l, fw_scanned := length l\<rparr>) 0x0d = (if l = [] then (f, []) else fw_line cz l f)"
  proof -
    have "text_bytes l = [] \<longleftrightarrow> l = []" by (simp add: text_bytes_def)
    then have "fw_byte cz (f\<lparr>fw_held := text_bytes l, fw_scanned := length l\<rparr>) 0x0d =
        (if l = [] then (f\<lparr>fw_held := [], fw_scanned := 0\<rparr>, []) else fw_line cz l (f\<lparr>fw_held := [], fw_scanned := 0\<rparr>))"
      using assms(1,2) by (auto simp: fw_byte_def is_newline_def text_mode_def)
    then show ?thesis unfolding f .
  qed
  ultimately show ?thesis by (simp add: fw_bytes_append)
qed

lemma fw_bytes_frame:
  assumes "text_mode f" "\<forall>l\<in>set ls. (\<forall>c\<in>set l. \<not> is_line_break c) \<and> length l \<le> FBB_MAX_LINE"
  shows "fw_session (fst (fw_bytes cz f (frame_lines ls))) = snd (feed_lines cz (fw_session f) (filter (\<lambda>l. l \<noteq> []) ls))
    \<and> snd (fw_bytes cz f (frame_lines ls)) = frame_lines (fst (feed_lines cz (fw_session f) (filter (\<lambda>l. l \<noteq> []) ls)))
    \<and> text_mode (fst (fw_bytes cz f (frame_lines ls)))"
  using assms
proof (induction ls arbitrary: f)
  case (Cons l ls)
  have frame: "frame_lines (l # ls) = (text_bytes l @ [0x0d]) @ frame_lines ls" by (simp add: frame_lines_def)
  show ?case
  proof (cases "fw_done f")
    case True
    then show ?thesis using Cons.prems(1) by (simp add: fw_bytes_done text_mode_def feed_lines_done frame_lines_def)
  next
    case d: False
    let ?r = "fbb_feed cz (fw_session f) l"
    let ?f = "f\<lparr>fw_session := snd (snd ?r), fw_done := fst (snd ?r)\<rparr>"
    have step: "fw_bytes cz f (text_bytes l @ [0x0d]) = (if l = [] then (f, []) else (?f, frame_lines (fst ?r)))"
      using fw_bytes_framed_line [OF Cons.prems(1) d, of l cz] fw_line_text [OF Cons.prems(1) d, of cz l] Cons.prems(2) by simp
    have app: "frame_lines (xs @ ys) = frame_lines xs @ frame_lines ys" for xs ys by (simp add: frame_lines_def)
    show ?thesis
    proof (cases "l = []")
      case True
      then show ?thesis using step Cons.IH [OF Cons.prems(1)] Cons.prems(2) unfolding frame fw_bytes_append by simp
    next
      case False
      have m: "text_mode ?f"
        using Cons.prems(1) plain_feed ended_is_done [of cz "fw_session f" l] by (simp add: text_mode_def)
      show ?thesis using step False Cons.IH [OF m] Cons.prems(2) unfolding frame fw_bytes_append
        by (simp add: split_beta Let_def app)
    qed
  qed
qed (simp add: frame_lines_def)

section \<open>Blank lines are lost\<close>

definition nonblank :: "string list \<Rightarrow> string list" where
  "nonblank ls = filter (\<lambda>l. l \<noteq> []) ls"

lemma rx_size_nonblank: "rx_size (nonblank ls) \<le> rx_size ls"
  by (induction ls) (simp_all add: nonblank_def)

text \<open>
  A text message arrives without its blank lines: the sender writes an empty line as a lone carriage
  return, and the receiver's line cutter skips it as a separator, so paragraphs run together.
\<close>

theorem forwarder_drops_blank_lines:
  assumes f: "text_mode f" "\<not> fw_done f"
    and s: "fs_phase (fw_session f) = Recv_Block" "ready_rx (fw_session f)"
      "fs_pending_rx (fw_session f) = upper_proposal (offer_of m) # ps"
    and m: "sendable m" "fm_title m \<noteq> []" "\<forall>l\<in>set (message_text m). length l \<le> FBB_MAX_LINE"
  shows "ss_inbox (fs_store (fw_session (fst (fw_on_data cz f (frame_lines (message_text m)))))) =
    ss_inbox (fs_store (fw_session f))
      @ [(received m)\<lparr>fm_body := join_with [CHR 0x0a] (nonblank (split_on (CHR 0x0a) (fm_body m)))\<rparr>]"
proof -
  let ?ls = "split_on (CHR 0x0a) (fm_body m)"
  have ready: "fw_ready f" using f(1) by (simp add: fw_ready_def text_mode_def)
  have lines: "\<forall>l\<in>set (message_text m). (\<forall>c\<in>set l. \<not> is_line_break c) \<and> length l \<le> FBB_MAX_LINE"
    using m body_lines_ok [OF m(1)]
    by (auto simp: message_text_def sendable_def offerable_def CTRLZ_def is_line_break_def FBB_MAX_LINE_def)
  have heard: "filter (\<lambda>l. l \<noteq> []) (message_text m) = fm_title m # nonblank ?ls @ [CTRLZ]"
    using m(2) by (simp add: message_text_def nonblank_def CTRLZ_def)
  have sz: "pr_size (upper_proposal (offer_of m)) = int (length (fm_body m))" by (simp add: upper_proposal_def offer_of_def)
  have n: "rx_size (nonblank ?ls) \<le> length (fm_body m) + 1" using rx_size_nonblank [of ?ls] by (simp add: rx_size_split_on)
  have msg: "message_of (upper_proposal (offer_of m)) (fm_title m) b = (received m)\<lparr>fm_body := b\<rparr>" for b
  proof -
    have "message_of p t b = (message_of p t (fm_body m))\<lparr>fm_body := b\<rparr>" for p t by (simp add: message_of_def)
    then show ?thesis using message_of_offer [OF m(1)] by metis
  qed
  have "feed_lines cz (fw_session f) (fm_title m # nonblank ?ls @ [CTRLZ]) =
    (let s' = (fw_session f)\<lparr>fs_pending_rx := ps, fs_store := store_accept
         (message_of (upper_proposal (offer_of m)) (fm_title m) (join_with [CHR 0x0a] (nonblank ?ls))) (fs_store (fw_session f))\<rparr>
     in if ps = [] then propose_block s' else ([], s'))"
    by (rule feed_text [OF s]) (use m n sz body_lines_ok [OF m(1)] in \<open>auto simp: sendable_def offerable_def nonblank_def\<close>)
  then have "ss_inbox (fs_store (snd (feed_lines cz (fw_session f) (fm_title m # nonblank ?ls @ [CTRLZ])))) =
      ss_inbox (fs_store (fw_session f)) @ [(received m)\<lparr>fm_body := join_with [CHR 0x0a] (nonblank ?ls)\<rparr>]"
    unfolding msg by (simp add: Let_def propose_block_phase store_accept_def)
  then show ?thesis
    using fw_bytes_frame [OF f(1) lines, of cz] unfolding heard by (simp add: forwarder_is_bytewise [OF ready])
qed

definition paragraphs :: fbb_message where
  "paragraphs = sample_message\<lparr>fm_body := ''one'' @ [CHR 0x0a, CHR 0x0a] @ ''two''\<rparr>"

definition receiving :: "fbb_message \<Rightarrow> forwarder" where
  "receiving m = (new_forwarder (new_session_store [] []) (called_opts True))\<lparr>fw_session :=
     (called True [])\<lparr>fs_phase := Recv_Block, fs_pending_rx := [upper_proposal (offer_of m)]\<rparr>\<rparr>"

lemma forwarder_drops_blank_lines_witness:
  "ss_inbox (fs_store (fw_session (fst (fw_on_data no_codec (receiving paragraphs) (frame_lines (message_text paragraphs)))))) =
    [(received paragraphs)\<lparr>fm_body := ''one'' @ [CHR 0x0a] @ ''two''\<rparr>]"
proof -
  have w: "js_trim ''Hi'' = ''Hi''" "js_trim ''one'' = ''one''" "js_trim ''two'' = ''two''" "js_trim [] = []"
    by (intro js_trim_no_space, simp add: is_space_def char_code_def)+
  have sp: "split_on (CHR 0x0a) (fm_body paragraphs) = [''one'', [], ''two'']" by (simp add: paragraphs_def)
  have "sendable paragraphs"
    using sendable_sample sp w by (simp add: sendable_def offerable_def paragraphs_def sample_message_def CTRLZ_def MAX_RECV_BYTES_def)
  moreover have "text_mode (receiving paragraphs)" "\<not> fw_done (receiving paragraphs)" "fs_phase (fw_session (receiving paragraphs)) = Recv_Block"
    "ready_rx (fw_session (receiving paragraphs))" "ss_inbox (fs_store (fw_session (receiving paragraphs))) = []"
    "fs_pending_rx (fw_session (receiving paragraphs)) = upper_proposal (offer_of paragraphs) # []"
    by (simp_all add: receiving_def new_forwarder_def text_mode_def plain_def ready_rx_def called_def called_opts_def
        new_fbb_session_def new_session_store_def)
  moreover have "fm_title paragraphs \<noteq> []" "\<forall>l\<in>set (message_text paragraphs). length l \<le> FBB_MAX_LINE"
    by (simp_all add: message_text_def paragraphs_def sample_message_def CTRLZ_def FBB_MAX_LINE_def)
  ultimately show ?thesis
    using forwarder_drops_blank_lines [of "receiving paragraphs" paragraphs "[]" no_codec] sp by (simp add: nonblank_def)
qed

end
