(* ===== verification/Hub_Arbiter.thy ===== *)
theory Hub_Arbiter
  imports Interfaces
begin

text \<open>
  Who transmits next on a shared radio port: \<open>TxArbiter\<close> of
  \<open>packages/hub/src/arbiter.ts\<close>. A client is a key of any type. The clock is the first
  argument of the operations that read it.
\<close>

section \<open>State\<close>

datatype drop_reason = Frame_Budget | Byte_Budget | Queue_Full | Stale

record arbiter_opts =
  ao_frames_per_minute :: nat
  ao_bytes_per_minute :: nat
  ao_max_queue :: nat
  ao_max_age_ms :: int

definition ARBITER_DEFAULTS :: arbiter_opts where
  "ARBITER_DEFAULTS = \<lparr>ao_frames_per_minute = 10, ao_bytes_per_minute = 4096, ao_max_queue = 16, ao_max_age_ms = 60000\<rparr>"

definition MINUTE :: int where "MINUTE = 60000"

record offer_result =
  of_queued :: bool
  of_dropped :: "drop_reason option"

record queued =
  qd_frame :: "byte list"
  qd_at :: int

record 'c rotation =
  ro_ring :: "'c list"
  ro_turn :: nat
  ro_queues :: "('c, queued list) jsmap"

type_synonym drop_counts = "(drop_reason, nat) jsmap"

definition zero_drops :: drop_counts where
  "zero_drops = [(Frame_Budget, 0), (Byte_Budget, 0), (Queue_Full, 0), (Stale, 0)]"

record 'c arbiter =
  ar_o :: arbiter_opts
  ar_rotations :: "(string, 'c rotation) jsmap"
  ar_spent :: "('c, (int \<times> nat) list) jsmap"
  ar_drops :: "('c, drop_counts) jsmap"

definition new_arbiter :: "arbiter_opts \<Rightarrow> 'c arbiter" where
  "new_arbiter opts = \<lparr>ar_o = opts, ar_rotations = [], ar_spent = [], ar_drops = []\<rparr>"

definition new_rotation :: "'c rotation" where
  "new_rotation = \<lparr>ro_ring = [], ro_turn = 0, ro_queues = []\<rparr>"

section \<open>Operations\<close>

definition get_or :: "'v \<Rightarrow> ('k, 'v) jsmap \<Rightarrow> 'k \<Rightarrow> 'v" where
  "get_or v m k = (case jm_get m k of None \<Rightarrow> v | Some w \<Rightarrow> w)"

definition ar_count :: "'c \<Rightarrow> drop_reason \<Rightarrow> 'c arbiter \<Rightarrow> 'c arbiter" where
  "ar_count client reason a =
     (let d = get_or zero_drops (ar_drops a) client
      in a\<lparr>ar_drops := jm_set client (jm_set reason (get_or 0 d reason + 1) d) (ar_drops a)\<rparr>)"

definition still_spent :: "int \<Rightarrow> (int \<times> nat) list \<Rightarrow> (int \<times> nat) list" where
  "still_spent now ss = filter (\<lambda>(at, bytes). now - at < MINUTE) ss"

text \<open>The queue of one client on one port takes a frame; a full queue gives its oldest up.\<close>

definition enqueue :: "nat \<Rightarrow> 'c \<Rightarrow> queued \<Rightarrow> 'c rotation \<Rightarrow> bool \<times> 'c rotation" where
  "enqueue max_queue client item r =
     (let r1 = (case jm_get (ro_queues r) client of
                  None \<Rightarrow> r\<lparr>ro_queues := jm_set client [] (ro_queues r), ro_ring := ro_ring r @ [client]\<rparr>
                | Some _ \<Rightarrow> r);
          q = get_or [] (ro_queues r1) client @ [item];
          full = (length q > max_queue)
      in (full, r1\<lparr>ro_queues := jm_set client (if full then tl q else q) (ro_queues r1)\<rparr>))"

definition offer :: "int \<Rightarrow> 'c \<Rightarrow> string \<Rightarrow> byte list \<Rightarrow> 'c arbiter \<Rightarrow> offer_result \<times> 'c arbiter" where
  "offer now client port frame a =
     (let spent = still_spent now (get_or [] (ar_spent a) client);
          a = a\<lparr>ar_spent := jm_set client spent (ar_spent a)\<rparr>
      in if length spent + 1 > ao_frames_per_minute (ar_o a)
         then (\<lparr>of_queued = False, of_dropped = Some Frame_Budget\<rparr>, ar_count client Frame_Budget a)
         else if sum_list (map snd spent) + length frame > ao_bytes_per_minute (ar_o a)
         then (\<lparr>of_queued = False, of_dropped = Some Byte_Budget\<rparr>, ar_count client Byte_Budget a)
         else let a = a\<lparr>ar_spent := jm_set client (spent @ [(now, length frame)]) (ar_spent a)\<rparr>;
                  r = get_or new_rotation (ar_rotations a) port;
                  (full, r) = enqueue (ao_max_queue (ar_o a)) client \<lparr>qd_frame = frame, qd_at = now\<rparr> r;
                  a = a\<lparr>ar_rotations := jm_set port r (ar_rotations a)\<rparr>
              in if full then (\<lparr>of_queued = True, of_dropped = Some Queue_Full\<rparr>, ar_count client Queue_Full a)
                 else (\<lparr>of_queued = True, of_dropped = None\<rparr>, a))"

text \<open>
  One pass of the loop of \<open>next\<close>: the item whose turn it is and the rotation after it. A ring
  entry without a queued item makes the code throw, which is \<^const>\<open>None\<close>.
\<close>

definition take_turn :: "'c rotation \<Rightarrow> ('c \<times> queued \<times> 'c rotation) option" where
  "take_turn r =
     (if ro_turn r < length (ro_ring r)
      then let client = ro_ring r ! ro_turn r
           in case jm_get (ro_queues r) client of
                Some (item # q) \<Rightarrow>
                  let r1 = (if q \<noteq> []
                            then r\<lparr>ro_queues := jm_set client q (ro_queues r), ro_turn := ro_turn r + 1\<rparr>
                            else r\<lparr>ro_queues := jm_delete client (ro_queues r),
                                   ro_ring := take (ro_turn r) (ro_ring r) @ drop (ro_turn r + 1) (ro_ring r)\<rparr>);
                      r2 = (if ro_turn r1 \<ge> length (ro_ring r1) then r1\<lparr>ro_turn := 0\<rparr> else r1)
                  in Some (client, item, r2)
              | _ \<Rightarrow> None
      else None)"

datatype 'c turn_result = Turn 'c "byte list" | No_Turn | Turn_Throws

definition waiting_items :: "'c rotation \<Rightarrow> nat" where
  "waiting_items r = sum_list (map length (jm_values (ro_queues r)))"

lemma sum_list_set_less:
  "jm_get m k = Some (x # q) \<Longrightarrow>
   sum_list (map length (jm_values (jm_set k q m))) < sum_list (map length (jm_values m))"
  by (induction m) (auto split: if_splits)

lemma sum_list_delete_le:
  "sum_list (map length (jm_values (jm_delete k m))) \<le> sum_list (map length (jm_values (m :: ('k, 'v list) jsmap)))"
  by (induction m) auto

lemma sum_list_delete_less:
  "jm_get m k = Some (x # q) \<Longrightarrow>
   sum_list (map length (jm_values (jm_delete k m))) < sum_list (map length (jm_values m))"
proof (induction m)
  case (Cons a m)
  then show ?case using sum_list_delete_le [of k m] by (cases a) (auto split: if_splits)
qed simp

lemma take_turn_less: "take_turn r = Some (c, item, r') \<Longrightarrow> waiting_items r' < waiting_items r"
  using sum_list_set_less [of "ro_queues r"] sum_list_delete_less [of "ro_queues r"]
  by (auto simp: take_turn_def waiting_items_def Let_def split: if_splits option.splits list.splits)

text \<open>The loop itself: stale items are counted and passed over.\<close>

function next_loop :: "int \<Rightarrow> 'c rotation \<Rightarrow> 'c arbiter \<Rightarrow> 'c turn_result \<times> 'c rotation \<times> 'c arbiter" where
  "next_loop now r a =
     (if ro_ring r = [] then (No_Turn, r, a)
      else case take_turn r of
        None \<Rightarrow> (Turn_Throws, r, a)
      | Some (client, item, r') \<Rightarrow>
          if now - qd_at item > ao_max_age_ms (ar_o a)
          then next_loop now r' (ar_count client Stale a)
          else (Turn client (qd_frame item), r', a))"
  by pat_completeness auto
termination
  by (relation "measure (\<lambda>(now, r, a). waiting_items r)") (auto dest: take_turn_less)

declare next_loop.simps [simp del]

definition next_turn :: "int \<Rightarrow> string \<Rightarrow> 'c arbiter \<Rightarrow> 'c turn_result \<times> 'c arbiter" where
  "next_turn now port a =
     (case jm_get (ar_rotations a) port of
        None \<Rightarrow> (No_Turn, a)
      | Some r \<Rightarrow> let (t, r', a') = next_loop now r a
                  in (t, a'\<lparr>ar_rotations := jm_set port r' (ar_rotations a')\<rparr>))"

definition pending :: "string \<Rightarrow> 'c arbiter \<Rightarrow> nat" where
  "pending port a = (case jm_get (ar_rotations a) port of None \<Rightarrow> 0 | Some r \<Rightarrow> waiting_items r)"

definition ports :: "'c arbiter \<Rightarrow> string list" where
  "ports a = filter (\<lambda>p. pending p a > 0) (jm_keys (ar_rotations a))"

definition remove_from_rotation :: "'c \<Rightarrow> 'c rotation \<Rightarrow> 'c rotation" where
  "remove_from_rotation client r =
     (case index_of client (ro_ring r) of
        None \<Rightarrow> r
      | Some i \<Rightarrow>
          let ring = take i (ro_ring r) @ drop (i + 1) (ro_ring r);
              turn = (if i < ro_turn r then ro_turn r - 1 else ro_turn r)
          in r\<lparr>ro_ring := ring, ro_queues := jm_delete client (ro_queues r),
               ro_turn := (if turn \<ge> length ring then 0 else turn)\<rparr>)"

definition ar_remove :: "'c \<Rightarrow> 'c arbiter \<Rightarrow> 'c arbiter" where
  "ar_remove client a =
     a\<lparr>ar_rotations := map (\<lambda>(p, r). (p, remove_from_rotation client r)) (ar_rotations a),
       ar_spent := jm_delete client (ar_spent a), ar_drops := jm_delete client (ar_drops a)\<rparr>"

definition dropped :: "'c \<Rightarrow> 'c arbiter \<Rightarrow> drop_counts" where
  "dropped client a = get_or zero_drops (ar_drops a) client"

datatype 'c arbiter_op = Ar_Offer 'c string "byte list" | Ar_Next string | Ar_Remove 'c

fun arbiter_step :: "'c arbiter \<Rightarrow> int \<times> 'c arbiter_op \<Rightarrow> 'c arbiter" where
  "arbiter_step a (now, Ar_Offer c port frame) = snd (offer now c port frame a)"
| "arbiter_step a (now, Ar_Next port) = snd (next_turn now port a)"
| "arbiter_step a (now, Ar_Remove c) = ar_remove c a"

section \<open>The invariant\<close>

text \<open>
  A rotation is consistent when its ring lists each client with a queue once, every queue has
  an item and at most the limit, and the turn points into the ring.
\<close>

definition rotation_ok :: "nat \<Rightarrow> 'c rotation \<Rightarrow> bool" where
  "rotation_ok m r = (distinct (ro_ring r) \<and> jm_ok (ro_queues r)
     \<and> set (ro_ring r) = set (jm_keys (ro_queues r))
     \<and> (\<forall>(c, q)\<in>set (ro_queues r). q \<noteq> [] \<and> length q \<le> m)
     \<and> (if ro_ring r = [] then ro_turn r = 0 else ro_turn r < length (ro_ring r)))"

definition arbiter_ok :: "'c arbiter \<Rightarrow> bool" where
  "arbiter_ok a = (1 \<le> ao_max_queue (ar_o a) \<and> jm_ok (ar_rotations a)
     \<and> (\<forall>(p, r)\<in>set (ar_rotations a). rotation_ok (ao_max_queue (ar_o a)) r))"

lemma rotation_ok_queue:
  "rotation_ok m r \<Longrightarrow> jm_get (ro_queues r) c = Some q \<Longrightarrow> q \<noteq> [] \<and> length q \<le> m"
  using jm_get_Some_in [of "ro_queues r" c q] unfolding rotation_ok_def by blast

lemma rotation_ok_ring:
  "rotation_ok m r \<Longrightarrow> c \<in> set (ro_ring r) \<longleftrightarrow> (\<exists>q. jm_get (ro_queues r) c = Some q)"
proof -
  assume "rotation_ok m r"
  then have "c \<in> set (ro_ring r) \<longleftrightarrow> c \<in> fst ` set (ro_queues r)" by (simp add: rotation_ok_def)
  also have "\<dots> \<longleftrightarrow> jm_get (ro_queues r) c \<noteq> None" by (simp only: map_of_eq_None_iff)  simp
  finally show ?thesis by simp
qed

lemma rotation_okI:
  assumes "distinct ring" "jm_ok qs" "set ring = set (jm_keys qs)"
    "\<And>c q. jm_get qs c = Some q \<Longrightarrow> q \<noteq> [] \<and> length q \<le> m"
    "if ring = [] then turn = 0 else turn < length ring"
  shows "rotation_ok m \<lparr>ro_ring = ring, ro_turn = turn, ro_queues = qs\<rparr>"
proof -
  have "q \<noteq> [] \<and> length q \<le> m" if "(c, q) \<in> set qs" for c q
    by (rule assms(4) [OF jm_get_in [OF assms(2) that]])
  then show ?thesis using assms(1,2,3,5) by (auto simp: rotation_ok_def)
qed

lemma new_rotation_ok: "rotation_ok m new_rotation"
  by (simp add: rotation_ok_def new_rotation_def)

lemma enqueue_ok:
  assumes "rotation_ok m r" "1 \<le> m"
  shows "rotation_ok m (snd (enqueue m c item r))"
proof -
  define ring where "ring = (if jm_get (ro_queues r) c = None then ro_ring r @ [c] else ro_ring r)"
  define q where "q = get_or [] (ro_queues r) c @ [item]"
  define q' where "q' = (if length q > m then tl q else q)"
  define base where "base = (if jm_get (ro_queues r) c = None then jm_set c [] (ro_queues r) else ro_queues r)"
  have e: "snd (enqueue m c item r) = \<lparr>ro_ring = ring, ro_turn = ro_turn r, ro_queues = jm_set c q' base\<rparr>"
    by (cases r) (auto simp: enqueue_def Let_def ring_def q_def q'_def base_def get_or_def split: option.splits)
  have lq: "length (get_or [] (ro_queues r) c) \<le> m"
    using rotation_ok_queue [OF assms(1)] by (auto simp: get_or_def split: option.split)
  have q': "q' \<noteq> [] \<and> length q' \<le> m"
    using lq assms(2) by (auto simp: q'_def q_def simp flip: length_greater_0_conv)
  have ok: "jm_ok (ro_queues r)" "set (ro_ring r) = fst ` set (ro_queues r)" "distinct (ro_ring r)"
    using assms(1) by (simp_all add: rotation_ok_def)
  show ?thesis unfolding e
  proof (rule rotation_okI)
    show "distinct ring" using ok by (auto simp: ring_def jm_get_None_iff)
    show "jm_ok (jm_set c q' base)" using ok by (simp add: base_def)
    show "set ring = set (jm_keys (jm_set c q' base))"
      using ok(2) by (auto simp: ring_def base_def jm_get_None_iff)
    show "x \<noteq> [] \<and> length x \<le> m" if "jm_get (jm_set c q' base) d = Some x" for d x
      using that q' rotation_ok_queue [OF assms(1), of d] by (auto simp: base_def split: if_splits)
    show "if ring = [] then ro_turn r = 0 else ro_turn r < length ring"
      using assms(1) by (auto simp: ring_def rotation_ok_def split: if_splits)
  qed
qed

lemma take_turn_ok:
  assumes "rotation_ok m r" "ro_ring r \<noteq> []"
  shows "\<exists>c item r'. take_turn r = Some (c, item, r') \<and> rotation_ok m r' \<and> c = ro_ring r ! ro_turn r
    \<and> (\<exists>q. jm_get (ro_queues r) c = Some (item # q))"
proof -
  have t: "ro_turn r < length (ro_ring r)" using assms by (simp add: rotation_ok_def)
  let ?c = "ro_ring r ! ro_turn r"
  have c: "?c \<in> set (ro_ring r)" using t by simp
  then obtain qs where g: "jm_get (ro_queues r) ?c = Some qs" using rotation_ok_ring [OF assms(1)] by blast
  then obtain item q where qs: "qs = item # q" "length qs \<le> m"
    using rotation_ok_queue [OF assms(1) g] by (cases qs) auto
  have ok: "jm_ok (ro_queues r)" "set (ro_ring r) = fst ` set (ro_queues r)" "distinct (ro_ring r)"
    using assms(1) by (simp_all add: rotation_ok_def)
  let ?ring = "if q \<noteq> [] then ro_ring r else take (ro_turn r) (ro_ring r) @ drop (ro_turn r + 1) (ro_ring r)"
  let ?queues = "if q \<noteq> [] then jm_set ?c q (ro_queues r) else jm_delete ?c (ro_queues r)"
  let ?turn = "if q \<noteq> [] then ro_turn r + 1 else ro_turn r"
  let ?turn' = "if ?turn \<ge> length ?ring then 0 else ?turn"
  let ?r = "\<lparr>ro_ring = ?ring, ro_turn = ?turn', ro_queues = ?queues\<rparr>"
  have e: "take_turn r = Some (?c, item, ?r)"
    using t g qs by (cases r) (simp add: take_turn_def Let_def)
  have split: "ro_ring r = take (ro_turn r) (ro_ring r) @ ?c # drop (ro_turn r + 1) (ro_ring r)"
    using t by (simp add: id_take_nth_drop)
  have d: "distinct (take (ro_turn r) (ro_ring r) @ ?c # drop (ro_turn r + 1) (ro_ring r))"
    using ok(3) split by simp
  have s: "set (take (ro_turn r) (ro_ring r) @ drop (ro_turn r + 1) (ro_ring r)) = set (ro_ring r) - {?c}"
    using d arg_cong [OF split, of set] by auto
  have "rotation_ok m ?r"
  proof (rule rotation_okI)
    show "distinct ?ring" using ok(3) d by simp
    show "jm_ok ?queues" using ok(1) by simp
    show "set ?ring = set (jm_keys ?queues)" using ok(2) s c by auto
    show "x \<noteq> [] \<and> length x \<le> m" if "jm_get ?queues k = Some x" for k x
      using that qs rotation_ok_queue [OF assms(1), of k] by (auto split: if_splits)
    show "if ?ring = [] then ?turn' = 0 else ?turn' < length ?ring" by auto
  qed
  with e g qs(1) show ?thesis by blast
qed

lemma next_loop_ok:
  "rotation_ok m r \<Longrightarrow> fst (next_loop now r a) \<noteq> Turn_Throws
    \<and> rotation_ok m (fst (snd (next_loop now r a)))
    \<and> ar_o (snd (snd (next_loop now r a))) = ar_o a
    \<and> ar_rotations (snd (snd (next_loop now r a))) = ar_rotations a"
proof (induction now r a rule: next_loop.induct)
  case (1 now r a)
  show ?case
  proof (cases "ro_ring r = []")
    case True
    then show ?thesis using "1.prems" by (simp add: next_loop.simps [of now r a])
  next
    case False
    then obtain c item r' where t: "take_turn r = Some (c, item, r')" "rotation_ok m r'"
      using take_turn_ok [OF "1.prems"] by blast
    show ?thesis
      using False t "1.IH" [OF False t(1) refl refl] by (simp add: next_loop.simps [of now r a]) (simp add: ar_count_def Let_def)
  qed
qed

lemma remove_ok:
  assumes "rotation_ok m r"
  shows "rotation_ok m (remove_from_rotation c r) \<and> c \<notin> set (ro_ring (remove_from_rotation c r))"
proof (cases "index_of c (ro_ring r)")
  case None
  then show ?thesis using assms index_of_None [of c "ro_ring r"] by (simp add: remove_from_rotation_def)
next
  case (Some i)
  then have i: "i < length (ro_ring r)" "ro_ring r ! i = c" by (simp_all add: index_of_Some)
  have ok: "jm_ok (ro_queues r)" "set (ro_ring r) = fst ` set (ro_queues r)" "distinct (ro_ring r)"
    using assms by (simp_all add: rotation_ok_def)
  let ?ring = "take i (ro_ring r) @ drop (i + 1) (ro_ring r)"
  let ?t = "if i < ro_turn r then ro_turn r - 1 else ro_turn r"
  let ?t' = "if ?t \<ge> length ?ring then 0 else ?t"
  have e: "remove_from_rotation c r = \<lparr>ro_ring = ?ring, ro_turn = ?t', ro_queues = jm_delete c (ro_queues r)\<rparr>"
    using Some by (cases r) (simp add: remove_from_rotation_def Let_def)
  have split: "ro_ring r = take i (ro_ring r) @ c # drop (i + 1) (ro_ring r)"
    using id_take_nth_drop [OF i(1)] i(2) by simp
  have d: "distinct (take i (ro_ring r) @ c # drop (i + 1) (ro_ring r))" using ok(3) split by simp
  have s: "set ?ring = set (ro_ring r) - {c}"
    using d arg_cong [OF split, of set] by auto
  have "rotation_ok m (remove_from_rotation c r)"
    unfolding e
  proof (rule rotation_okI)
    show "distinct ?ring" using d by simp
    show "jm_ok (jm_delete c (ro_queues r))" using ok(1) by simp
    show "set ?ring = set (jm_keys (jm_delete c (ro_queues r)))" using ok(2) s by simp
    show "x \<noteq> [] \<and> length x \<le> m" if "jm_get (jm_delete c (ro_queues r)) k = Some x" for k x
      using that rotation_ok_queue [OF assms, of k] by (auto split: if_splits)
    show "if ?ring = [] then ?t' = 0 else ?t' < length ?ring" by auto
  qed
  then show ?thesis using s e by auto
qed

lemma arbiter_ok_set:
  assumes "arbiter_ok a" "rotation_ok (ao_max_queue (ar_o a)) r" "ar_o b = ar_o a" "ar_rotations b = jm_set port r (ar_rotations a)"
  shows "arbiter_ok b"
proof -
  have "rotation_ok (ao_max_queue (ar_o a)) x" if "(p, x) \<in> set (jm_set port r (ar_rotations a))" for p x
    using set_jm_set_cases [OF that] assms(1,2) by (auto simp: arbiter_ok_def)
  then show ?thesis using assms by (auto simp: arbiter_ok_def)
qed

lemma get_rotation_ok:
  "arbiter_ok a \<Longrightarrow> jm_get (ar_rotations a) p = Some r \<Longrightarrow> rotation_ok (ao_max_queue (ar_o a)) r"
  using jm_get_Some_in [of "ar_rotations a" p r] unfolding arbiter_ok_def by blast

lemma ar_count_fields [simp]:
  "ar_o (ar_count c x a) = ar_o a" "ar_rotations (ar_count c x a) = ar_rotations a" "ar_spent (ar_count c x a) = ar_spent a"
  by (simp_all add: ar_count_def Let_def)

lemma arbiter_ok_cong: "ar_o b = ar_o a \<Longrightarrow> ar_rotations b = ar_rotations a \<Longrightarrow> arbiter_ok b = arbiter_ok a"
  by (simp add: arbiter_ok_def)

lemma offer_ok [inv_intros]:
  assumes "arbiter_ok a"
  shows "arbiter_ok (snd (offer now c port frame a))"
proof -
  let ?r = "get_or new_rotation (ar_rotations a) port"
  have r: "rotation_ok (ao_max_queue (ar_o a)) ?r"
    using get_rotation_ok [OF assms] new_rotation_ok by (auto simp: get_or_def split: option.split)
  obtain full r' where e: "enqueue (ao_max_queue (ar_o a)) c \<lparr>qd_frame = frame, qd_at = now\<rparr> ?r = (full, r')"
    by (cases "enqueue (ao_max_queue (ar_o a)) c \<lparr>qd_frame = frame, qd_at = now\<rparr> ?r")
  then have r': "rotation_ok (ao_max_queue (ar_o a)) r'"
    using enqueue_ok [OF r, of c "\<lparr>qd_frame = frame, qd_at = now\<rparr>"] assms by (simp add: arbiter_ok_def)
  consider "ar_o (snd (offer now c port frame a)) = ar_o a \<and> ar_rotations (snd (offer now c port frame a)) = ar_rotations a"
    | "ar_o (snd (offer now c port frame a)) = ar_o a
       \<and> ar_rotations (snd (offer now c port frame a)) = jm_set port r' (ar_rotations a)"
    by (atomize_elim) (simp add: offer_def Let_def e)
  then show ?thesis
  proof cases
    case 1
    then show ?thesis using assms arbiter_ok_cong by blast
  next
    case 2
    then show ?thesis using arbiter_ok_set [OF assms r'] by blast
  qed
qed

lemma next_turn_ok [inv_intros]:
  assumes "arbiter_ok a"
  shows "arbiter_ok (snd (next_turn now port a)) \<and> fst (next_turn now port a) \<noteq> Turn_Throws"
proof (cases "jm_get (ar_rotations a) port")
  case None
  then show ?thesis using assms by (simp add: next_turn_def)
next
  case (Some r)
  have r: "rotation_ok (ao_max_queue (ar_o a)) r" using get_rotation_ok [OF assms Some] .
  obtain t r' a' where l: "next_loop now r a = (t, r', a')" by (cases "next_loop now r a") auto
  have "rotation_ok (ao_max_queue (ar_o a)) r'" "ar_o a' = ar_o a" "ar_rotations a' = ar_rotations a" "t \<noteq> Turn_Throws"
    using next_loop_ok [OF r, of now a] l by auto
  then show ?thesis
    using Some l arbiter_ok_set [OF assms, of r' "a'\<lparr>ar_rotations := jm_set port r' (ar_rotations a')\<rparr>" port]
    by (simp add: next_turn_def)
qed

lemma ar_remove_ok [inv_intros]:
  assumes "arbiter_ok a"
  shows "arbiter_ok (ar_remove c a)"
proof -
  have "jm_ok (map (\<lambda>(p, r). (p, remove_from_rotation c r)) (ar_rotations a))"
    using assms by (simp add: arbiter_ok_def)
  moreover have "rotation_ok (ao_max_queue (ar_o a)) (remove_from_rotation c r)" if "(p, r) \<in> set (ar_rotations a)" for p r
    using remove_ok that assms by (fastforce simp: arbiter_ok_def)
  ultimately show ?thesis using assms by (auto simp: arbiter_ok_def ar_remove_def)
qed

interpretation arbiter: invariant_machine arbiter_step arbiter_ok "\<lambda>_ _. True"
proof
  fix a :: "'a arbiter" and e assume "arbiter_ok a"
  then show "arbiter_ok (arbiter_step a e)"
    by (cases "(a, e)" rule: arbiter_step.cases) (auto intro: offer_ok ar_remove_ok dest: next_turn_ok)
qed

section \<open>The order of service\<close>

definition service_order :: "'c rotation \<Rightarrow> 'c list" where
  "service_order r = drop (ro_turn r) (ro_ring r) @ take (ro_turn r) (ro_ring r)"

lemma index_of_append: "index_of c (A @ c # B) = Some (length A) \<longleftrightarrow> c \<notin> set A"
  by (auto simp: index_of_Some nth_append in_set_conv_nth)

lemma remove_service_order:
  assumes "rotation_ok m r"
  shows "service_order (remove_from_rotation c r) = filter (\<lambda>x. x \<noteq> c) (service_order r)"
proof (cases "c \<in> set (ro_ring r)")
  case False
  then have "index_of c (ro_ring r) = None" by (simp add: index_of_None)
  moreover have "filter (\<lambda>x. x \<noteq> c) xs = xs" if "c \<notin> set xs" for xs using that by (induction xs) auto
  moreover have "c \<notin> set (drop k (ro_ring r))" "c \<notin> set (take k (ro_ring r))" for k
    using False by (auto dest: in_set_dropD in_set_takeD)
  ultimately show ?thesis by (simp add: remove_from_rotation_def service_order_def)
next
  case True
  then obtain A B where ring: "ro_ring r = A @ c # B" and A: "c \<notin> set A" by (meson split_list_first)
  have "distinct (ro_ring r)" using assms by (simp add: rotation_ok_def)
  then have B: "c \<notin> set B" using ring by simp
  have i: "index_of c (ro_ring r) = Some (length A)" using ring A index_of_append by metis
  have t: "ro_turn r < length A + length B + 1" using assms ring by (auto simp: rotation_ok_def)
  have noA: "filter (\<lambda>x. x \<noteq> c) (take k A) = take k A" "filter (\<lambda>x. x \<noteq> c) (drop k A) = drop k A" for k
    using A by (auto simp: filter_id_conv dest: in_set_takeD in_set_dropD)
  have noB: "filter (\<lambda>x. x \<noteq> c) (take k B) = take k B" "filter (\<lambda>x. x \<noteq> c) (drop k B) = drop k B" for k
    using B by (auto simp: filter_id_conv dest: in_set_takeD in_set_dropD)
  note no = noA noB noA(1) [of "length A"] noB(1) [of "length B"]
  consider "ro_turn r < length A" | "ro_turn r = length A" | k where "ro_turn r = length A + Suc k" "k < length B"
  proof (cases "ro_turn r \<le> length A")
    case True
    then show thesis using that(1,2) by linarith
  next
    case False
    then show thesis using that(3) [of "ro_turn r - length A - 1"] t by simp
  qed
  then show ?thesis
  proof cases
    case 1
    then show ?thesis
      using i ring no by (simp add: remove_from_rotation_def service_order_def Let_def)
  next
    case 2
    then show ?thesis
      using i ring no by (simp add: remove_from_rotation_def service_order_def Let_def)
  next
    case (3 k)
    then show ?thesis
      using i ring no by (simp add: remove_from_rotation_def service_order_def Let_def)
  qed
qed

section \<open>Taking turns\<close>

definition head_item :: "'c rotation \<Rightarrow> 'c \<Rightarrow> queued" where
  "head_item r c = hd (get_or [] (ro_queues r) c)"

definition fresh :: "int \<Rightarrow> int \<Rightarrow> 'c rotation \<Rightarrow> bool" where
  "fresh now age r = (\<forall>(c, q)\<in>set (ro_queues r). \<forall>x\<in>set q. now - qd_at x \<le> age)"

lemma serve_one:
  assumes "rotation_ok m r" "ro_ring r = P @ c # B" "ro_turn r = length P"
  shows "\<exists>r' D. take_turn r = Some (c, head_item r c, r') \<and> rotation_ok m r'
    \<and> D \<in> {[], [c]} \<and> ro_ring r' = P @ D @ B \<and> ro_turn r' = (if B = [] then 0 else length (P @ D))
    \<and> (\<forall>d. d \<noteq> c \<longrightarrow> head_item r' d = head_item r d)
    \<and> (\<forall>now age. fresh now age r \<longrightarrow> fresh now age r' \<and> now - qd_at (head_item r c) \<le> age)"
proof -
  obtain item r' q where t: "take_turn r = Some (c, item, r')" "rotation_ok m r'"
      "jm_get (ro_queues r) c = Some (item # q)"
    using take_turn_ok [OF assms(1)] assms(2,3) by auto
  have h: "head_item r c = item" using t(3) by (simp add: head_item_def get_or_def)
  have "r' = (if q \<noteq> [] then \<lparr>ro_ring = P @ [c] @ B, ro_turn = (if B = [] then 0 else length P + 1),
                ro_queues = jm_set c q (ro_queues r)\<rparr>
              else \<lparr>ro_ring = P @ [] @ B, ro_turn = (if B = [] then 0 else length P), ro_queues = jm_delete c (ro_queues r)\<rparr>)"
    using t(1,3) assms(2,3) by (cases r) (auto simp: take_turn_def Let_def nth_append)
  then have r': "ro_ring r' = P @ (if q \<noteq> [] then [c] else []) @ B"
      "ro_turn r' = (if B = [] then 0 else length (P @ (if q \<noteq> [] then [c] else [])))"
      "ro_queues r' = (if q \<noteq> [] then jm_set c q (ro_queues r) else jm_delete c (ro_queues r))"
    by auto
  have "head_item r' d = head_item r d" if "d \<noteq> c" for d
    using that by (auto simp: head_item_def get_or_def r'(3))
  moreover have "fresh now age r' \<and> now - qd_at item \<le> age" if f: "fresh now age r" for now age
  proof -
    have i: "\<forall>x\<in>set (item # q). now - qd_at x \<le> age"
      using f jm_get_Some_in [OF t(3)] unfolding fresh_def by blast
    have "\<forall>x\<in>set v. now - qd_at x \<le> age" if "(k, v) \<in> set (ro_queues r')" for k v
    proof (cases "q \<noteq> []")
      case True
      then show ?thesis using that i f set_jm_set_cases [of "(k, v)" c q "ro_queues r"] by (auto simp: r'(3) fresh_def)
    next
      case False
      then show ?thesis using that f set_jm_delete_subset [of c "ro_queues r"] by (auto simp: r'(3) fresh_def)
    qed
    then show ?thesis using i by (auto simp: fresh_def)
  qed
  moreover have "(if q \<noteq> [] then [c] else []) \<in> {[], [c]}" by simp
  ultimately show ?thesis
    by (intro exI [of _ r'] exI [of _ "if q \<noteq> [] then [c] else []"]) (use t(1,2) h r'(1,2) in simp)
qed

fun serve :: "nat \<Rightarrow> 'c rotation \<Rightarrow> ('c \<times> queued) list \<times> 'c rotation" where
  "serve 0 r = ([], r)"
| "serve (Suc n) r =
     (case take_turn r of
        None \<Rightarrow> ([], r)
      | Some (c, item, r') \<Rightarrow> let (ts, r2) = serve n r' in ((c, item) # ts, r2))"

lemma serve_run:
  "rotation_ok m r \<Longrightarrow> ro_ring r = P @ B \<Longrightarrow> ro_turn r = length P \<Longrightarrow> B \<noteq> [] \<Longrightarrow> k \<le> length B \<Longrightarrow>
   fst (serve k r) = map (\<lambda>c. (c, head_item r c)) (take k B)
   \<and> rotation_ok m (snd (serve k r))
   \<and> (k = length B \<longrightarrow> (\<exists>D. ro_ring (snd (serve k r)) = P @ D) \<and> ro_turn (snd (serve k r)) = 0
        \<and> (\<forall>d\<in>set P. head_item (snd (serve k r)) d = head_item r d))
   \<and> (fresh now age r \<longrightarrow> fresh now age (snd (serve k r)))"
proof (induction B arbitrary: r P k)
  case (Cons c B)
  show ?case
  proof (cases k)
    case 0
    then show ?thesis using Cons.prems by simp
  next
    case (Suc k')
    obtain r' D where s: "take_turn r = Some (c, head_item r c, r')" "rotation_ok m r'"
      "D \<in> {[], [c]}" "ro_ring r' = P @ D @ B" "ro_turn r' = (if B = [] then 0 else length (P @ D))"
      "\<And>d. d \<noteq> c \<Longrightarrow> head_item r' d = head_item r d" "fresh now age r \<Longrightarrow> fresh now age r'"
      using serve_one [OF Cons.prems(1,2,3)] by blast
    have dist: "distinct (P @ c # B)" using Cons.prems(1,2) by (simp add: rotation_ok_def)
    show ?thesis
    proof (cases "B = []")
      case True
      then have "k' = 0" using Cons.prems(5) Suc by simp
      have "head_item r' d = head_item r d" if "d \<in> set P" for d using that dist by (intro s(6)) auto
      then show ?thesis using s(1-5,7) True Suc \<open>k' = 0\<close> by auto
    next
      case False
      have IH: "fst (serve k' r') = map (\<lambda>c. (c, head_item r' c)) (take k' B)
        \<and> rotation_ok m (snd (serve k' r'))
        \<and> (k' = length B \<longrightarrow> (\<exists>E. ro_ring (snd (serve k' r')) = (P @ D) @ E) \<and> ro_turn (snd (serve k' r')) = 0
            \<and> (\<forall>d\<in>set (P @ D). head_item (snd (serve k' r')) d = head_item r' d))
        \<and> (fresh now age r' \<longrightarrow> fresh now age (snd (serve k' r')))"
        using s False Cons.prems(5) Suc by (intro Cons.IH) auto
      have heads: "map (\<lambda>c. (c, head_item r' c)) (take k' B) = map (\<lambda>c. (c, head_item r c)) (take k' B)"
      proof (rule map_cong [OF refl])
        fix x assume "x \<in> set (take k' B)"
        then have "x \<in> set B" by (rule in_set_takeD)
        then have "x \<noteq> c" using dist by auto
        then show "(x, head_item r' x) = (x, head_item r x)" using s(6) by simp
      qed
      have headP: "\<forall>d\<in>set P. head_item r' d = head_item r d"
        using dist by (intro ballI s(6)) auto
      have "serve k r = ((c, head_item r c) # fst (serve k' r'), snd (serve k' r'))"
        by (simp add: Suc s(1) split_beta)
      then show ?thesis using IH heads headP s(7) Suc by auto
    qed
  qed
qed simp

lemma serve_add: "length (fst (serve j r)) = j \<Longrightarrow>
  serve (j + k) r = (fst (serve j r) @ fst (serve k (snd (serve j r))), snd (serve k (snd (serve j r))))"
  by (induction j arbitrary: r) (auto simp: split_beta split: option.splits)

lemma serve_round:
  assumes "rotation_ok m r" "k \<le> length (ro_ring r)"
  shows "fst (serve k r) = map (\<lambda>c. (c, head_item r c)) (take k (service_order r))"
proof (cases "ro_ring r = []")
  case True
  then show ?thesis using assms by (simp add: service_order_def)
next
  case False
  define P where "P = take (ro_turn r) (ro_ring r)"
  define B where "B = drop (ro_turn r) (ro_ring r)"
  have t: "ro_turn r < length (ro_ring r)" using assms(1) False by (simp add: rotation_ok_def)
  then have PB: "ro_ring r = P @ B" "ro_turn r = length P" "B \<noteq> []" by (simp_all add: P_def B_def)
  have so: "service_order r = B @ P" by (simp add: service_order_def P_def B_def)
  note run = serve_run [OF assms(1) PB]
  show ?thesis
  proof (cases "k \<le> length B")
    case True
    then show ?thesis using run [of k] by (simp add: so)
  next
    case far: False
    let ?r = "snd (serve (length B) r)"
    obtain D where r1: "fst (serve (length B) r) = map (\<lambda>c. (c, head_item r c)) B" "rotation_ok m ?r"
        "ro_ring ?r = P @ D" "ro_turn ?r = 0" "\<forall>d\<in>set P. head_item ?r d = head_item r d"
      using run [OF order_refl, unfolded take_all_iff [THEN iffD2, OF order_refl]] by blast
    define j where "j = k - length B"
    have j: "k = length B + j" "0 < j" "j \<le> length P" using far assms(2) PB(1) by (auto simp: j_def)
    have "P @ D \<noteq> []" using j by auto
    then have "fst (serve j ?r) = map (\<lambda>c. (c, head_item ?r c)) (take j (P @ D))"
      using serve_run [OF r1(2), of "[]" "P @ D" j] r1(3,4) j by simp
    also have "\<dots> = map (\<lambda>c. (c, head_item r c)) (take j P)"
      using j r1(5) by (auto dest: in_set_takeD)
    finally have "fst (serve k r) = map (\<lambda>c. (c, head_item r c)) (B @ take j P)"
      using serve_add [of "length B" r j] r1(1) j(1) by simp
    then show ?thesis using j by (simp add: so)
  qed
qed

text \<open>The same through \<open>next\<close>, when nothing waiting is stale.\<close>

fun turns :: "int \<Rightarrow> string \<Rightarrow> nat \<Rightarrow> 'c arbiter \<Rightarrow> 'c turn_result list" where
  "turns now port 0 a = []"
| "turns now port (Suc n) a = (let (t, a') = next_turn now port a in t # turns now port n a')"

lemma fresh_serve_next:
  assumes "rotation_ok m r" "fresh now (ao_max_age_ms (ar_o a)) r" "take_turn r = Some (c, item, r')"
  shows "next_loop now r a = (Turn c (qd_frame item), r', a)"
proof -
  have ne: "ro_ring r \<noteq> []" using assms(3) by (auto simp: take_turn_def split: if_splits)
  then obtain q where "jm_get (ro_queues r) c = Some (item # q)"
    using take_turn_ok [OF assms(1) ne] assms(3) by auto
  from jm_get_Some_in [OF this] assms(2) have "now - qd_at item \<le> ao_max_age_ms (ar_o a)"
    by (auto simp: fresh_def)
  then show ?thesis using ne assms(3) by (simp add: next_loop.simps [of now r a])
qed

lemma turns_serve:
  "jm_get (ar_rotations a) port = Some r \<Longrightarrow> rotation_ok m r \<Longrightarrow> fresh now (ao_max_age_ms (ar_o a)) r \<Longrightarrow>
   length (fst (serve k r)) = k \<Longrightarrow>
   turns now port k a = map (\<lambda>(c, x). Turn c (qd_frame x)) (fst (serve k r))"
proof (induction k arbitrary: a r)
  case (Suc k)
  obtain c item r' where t: "take_turn r = Some (c, item, r')"
    using Suc.prems(4) by (cases "take_turn r") auto
  have n: "next_turn now port a = (Turn c (qd_frame item), a\<lparr>ar_rotations := jm_set port r' (ar_rotations a)\<rparr>)"
    using Suc.prems(1) fresh_serve_next [OF Suc.prems(2,3) t] by (simp add: next_turn_def)
  have ne: "ro_ring r \<noteq> []" using t by (auto simp: take_turn_def split: if_splits)
  have ok: "rotation_ok m r'" using take_turn_ok [OF Suc.prems(2) ne] t by auto
  have tl: "ro_turn r < length (ro_ring r)" using Suc.prems(2) ne by (simp add: rotation_ok_def)
  have "ro_ring r = take (ro_turn r) (ro_ring r) @ (ro_ring r ! ro_turn r) # drop (Suc (ro_turn r)) (ro_ring r)"
    using id_take_nth_drop [OF tl] .
  from serve_one [OF Suc.prems(2) this] tl t Suc.prems(3)
  have fr: "fresh now (ao_max_age_ms (ar_o a)) r'" by auto
  have "turns now port k (a\<lparr>ar_rotations := jm_set port r' (ar_rotations a)\<rparr>)
      = map (\<lambda>(c, x). Turn c (qd_frame x)) (fst (serve k r'))"
    using Suc.prems(4) t ok fr by (intro Suc.IH) (auto simp: split_beta)
  then show ?case using t n by (simp add: split_beta)
qed simp

section \<open>The budget over a sliding minute\<close>

text \<open>What the arbiter accepts from one client in a run, with the times and the sizes.\<close>

fun accepted :: "'c \<Rightarrow> 'c arbiter \<Rightarrow> (int \<times> 'c arbiter_op) list \<Rightarrow> (int \<times> nat) list" where
  "accepted c a [] = []"
| "accepted c a ((now, op) # es) =
     (case op of
        Ar_Offer d port frame \<Rightarrow>
          if d = c \<and> of_queued (fst (offer now d port frame a)) then [(now, length frame)] else []
      | _ \<Rightarrow> []) @ accepted c (arbiter_step a (now, op)) es"

definition within_budget :: "arbiter_opts \<Rightarrow> (int \<times> nat) list \<Rightarrow> bool" where
  "within_budget opts xs = (length xs \<le> ao_frames_per_minute opts \<and> sum_list (map snd xs) \<le> ao_bytes_per_minute opts)"

definition spent_of :: "'c \<Rightarrow> 'c arbiter \<Rightarrow> (int \<times> nat) list" where
  "spent_of c a = get_or [] (ar_spent a) c"

lemma spent_of_count [simp]: "spent_of c (ar_count d x a) = spent_of c a"
  by (simp add: spent_of_def)

lemma offer_spent:
  fixes a :: "'c arbiter" and d :: 'c and now :: int
  defines "ss \<equiv> still_spent now (spent_of d a)"
  shows "spent_of d (snd (offer now d port frame a)) =
      ss @ (if of_queued (fst (offer now d port frame a)) then [(now, length frame)] else [])
      \<and> (\<forall>c. c \<noteq> d \<longrightarrow> spent_of c (snd (offer now d port frame a)) = spent_of c a)" (is ?s)
    and "of_queued (fst (offer now d port frame a)) \<Longrightarrow> within_budget (ar_o a) (ss @ [(now, length frame)])" (is "?q \<Longrightarrow> ?b")
    and "ar_o (snd (offer now d port frame a)) = ar_o a" (is ?o)
proof -
  let ?a1 = "a\<lparr>ar_spent := jm_set d ss (ar_spent a)\<rparr>"
  have ss: "still_spent now (get_or [] (ar_spent a) d) = ss" by (simp add: ss_def spent_of_def)
  have "?s \<and> (?q \<longrightarrow> ?b) \<and> ?o"
  proof (cases "length ss + 1 > ao_frames_per_minute (ar_o a) \<or> sum_list (map snd ss) + length frame > ao_bytes_per_minute (ar_o a)")
    case True
    then have "offer now d port frame a = (\<lparr>of_queued = False, of_dropped = Some Frame_Budget\<rparr>, ar_count d Frame_Budget ?a1)
      \<or> offer now d port frame a = (\<lparr>of_queued = False, of_dropped = Some Byte_Budget\<rparr>, ar_count d Byte_Budget ?a1)"
      unfolding offer_def Let_def ss by auto
    then show ?thesis by (elim disjE) (simp_all add: spent_of_def get_or_def)
  next
    case False
    then have r: "\<not> length ss + 1 > ao_frames_per_minute (ar_o ?a1)"
      "\<not> sum_list (map snd ss) + length frame > ao_bytes_per_minute (ar_o ?a1)" by simp_all
    let ?a2 = "?a1\<lparr>ar_spent := jm_set d (ss @ [(now, length frame)]) (ar_spent ?a1)\<rparr>"
    have o: "of_queued (fst (offer now d port frame a))"
        "ar_spent (snd (offer now d port frame a)) = ar_spent ?a2" "ar_o (snd (offer now d port frame a)) = ar_o a"
      unfolding offer_def Let_def ss if_not_P [OF r(1)] if_not_P [OF r(2)] by (simp_all add: split_beta)
    have "ar_spent ?a2 = jm_set d (ss @ [(now, length frame)]) (jm_set d ss (ar_spent a))" by simp
    then show ?thesis using o False by (simp add: spent_of_def get_or_def within_budget_def)
  qed
  then show ?s "?q \<Longrightarrow> ?b" ?o by blast+
qed

lemma next_loop_spent: "ar_spent (snd (snd (next_loop now r a))) = ar_spent a
    \<and> ar_o (snd (snd (next_loop now r a))) = ar_o a"
proof (induction now r a rule: next_loop.induct)
  case (1 now r a)
  show ?case
  proof (cases "ro_ring r = [] \<or> take_turn r = None")
    case True
    then show ?thesis by (auto simp: next_loop.simps [of now r a])
  next
    case False
    then obtain c item r' where t: "take_turn r = Some (c, item, r')" by (cases "take_turn r") auto
    then show ?thesis
      using False "1.IH" [OF _ t refl refl] by (simp add: next_loop.simps [of now r a])
  qed
qed

lemma next_turn_spent: "ar_spent (snd (next_turn now port a)) = ar_spent a \<and> ar_o (snd (next_turn now port a)) = ar_o a"
  using next_loop_spent [of now _ a] by (auto simp: next_turn_def split_beta split: option.split)

lemma remove_spent: "d \<noteq> c \<Longrightarrow> spent_of c (ar_remove d a) = spent_of c a"
  by (simp add: spent_of_def ar_remove_def get_or_def)

lemma still_spent_twice: "now \<le> later \<Longrightarrow> still_spent later (still_spent now xs) = still_spent later xs"
  by (induction xs) (auto simp: still_spent_def)

lemma still_spent_append: "still_spent now (xs @ ys) = still_spent now xs @ still_spent now ys"
  by (simp add: still_spent_def)

text \<open>Every accepted frame, with those still in its minute before it, is within the budget.\<close>

definition log_ok :: "arbiter_opts \<Rightarrow> (int \<times> nat) list \<Rightarrow> bool" where
  "log_ok opts xs = (\<forall>i < length xs. within_budget opts (still_spent (fst (xs ! i)) (take (Suc i) xs)))"

lemma accepted_ok:
  assumes "sorted (map fst es)" "\<And>now. (now, Ar_Remove c) \<notin> set es"
    and "\<And>t. (\<exists>e\<in>set es. fst e \<le> t) \<Longrightarrow> still_spent t (spent_of c a) = still_spent t seen"
    and "log_ok (ar_o a) seen"
  shows "log_ok (ar_o a) (seen @ accepted c a es)"
  using assms
proof (induction es arbitrary: a seen)
  case (Cons e es)
  obtain now op where e: "e = (now, op)" by (cases e)
  have later: "now \<le> t" if "\<exists>e\<in>set es. fst e \<le> t" for t
    using that Cons.prems(1) e by auto
  have inv: "still_spent t (spent_of c a) = still_spent t seen" if "now \<le> t" for t
    using Cons.prems(3) [of t] that e by auto
  have srt: "sorted (map fst es)" and rm: "\<And>now. (now, Ar_Remove c) \<notin> set es"
    using Cons.prems(1,2) e by auto
  show ?case
  proof (cases op)
    case (Ar_Offer d port frame)
    let ?a = "snd (offer now d port frame a)"
    show ?thesis
    proof (cases "d = c \<and> of_queued (fst (offer now d port frame a))")
      case True
      let ?x = "(now, length frame)"
      have "within_budget (ar_o a) (still_spent now (seen @ [?x]))"
      proof -
        have "of_queued (fst (offer now c port frame a))" using True by auto
        moreover have "still_spent now [?x] = [?x]" by (simp add: still_spent_def MINUTE_def)
        ultimately show ?thesis
          using offer_spent(2) [where now = now and d = c and port = port and frame = frame and a = a] inv [of now] by (simp add: still_spent_append)
      qed
      then have ok: "log_ok (ar_o ?a) (seen @ [?x])"
        using Cons.prems(4) by (auto simp: log_ok_def less_Suc_eq nth_append offer_spent(3))
      have "still_spent t (spent_of c ?a) = still_spent t (seen @ [?x])" if "now \<le> t" for t
      proof -
        have "of_queued (fst (offer now c port frame a))" "d = c" using True by auto
        then show ?thesis
          using offer_spent(1) [where now = now and d = c and port = port and frame = frame and a = a] inv [OF that] still_spent_twice [OF that]
          by (simp add: still_spent_append)
      qed
      then have "log_ok (ar_o ?a) ((seen @ [?x]) @ accepted c ?a es)"
        using later by (intro Cons.IH srt rm ok) auto
      moreover have "of_queued (fst (offer now c port frame a))" "d = c" using True by auto
      ultimately show ?thesis using Ar_Offer e by (simp add: offer_spent(3))
    next
      case False
      have "still_spent t (spent_of c ?a) = still_spent t seen" if "now \<le> t" for t
      proof (cases "d = c")
        case True
        then have "\<not> of_queued (fst (offer now c port frame a))" using False by auto
        then show ?thesis
          using True offer_spent(1) [where now = now and d = c and port = port and frame = frame and a = a] inv [OF that] still_spent_twice [OF that] by simp
      next
        case False
        then show ?thesis using offer_spent(1) [where now = now and d = d and port = port and frame = frame and a = a] inv [OF that] by auto
      qed
      then have "log_ok (ar_o ?a) (seen @ accepted c ?a es)"
        using later Cons.prems(4) by (intro Cons.IH srt rm) (auto simp: offer_spent(3))
      moreover have "accepted c a (e # es) = accepted c ?a es" using False Ar_Offer e by auto
      ultimately show ?thesis by (simp add: offer_spent(3))
    qed
  next
    case (Ar_Next port)
    let ?a = "snd (next_turn now port a)"
    have s: "spent_of c ?a = spent_of c a" "ar_o ?a = ar_o a"
      using next_turn_spent [of now port a] by (simp_all add: spent_of_def)
    have "log_ok (ar_o ?a) (seen @ accepted c ?a es)"
      using later inv Cons.prems(4) s by (intro Cons.IH srt rm) auto
    then show ?thesis using Ar_Next e s by simp
  next
    case (Ar_Remove d)
    let ?a = "ar_remove d a"
    have "d \<noteq> c" using Cons.prems(2) [of now] e Ar_Remove by auto
    then have s: "spent_of c ?a = spent_of c a" "ar_o ?a = ar_o a"
      using remove_spent by (fast, simp add: ar_remove_def)
    have "log_ok (ar_o ?a) (seen @ accepted c ?a es)"
      using later inv Cons.prems(4) s by (intro Cons.IH srt rm) auto
    then show ?thesis using Ar_Remove e s by simp
  qed
qed simp

lemma filter_mono_sum:
  "(\<And>x. x \<in> set xs \<Longrightarrow> P x \<Longrightarrow> Q x) \<Longrightarrow>
   length (filter P xs) \<le> length (filter Q xs) \<and> sum_list (map snd (filter P xs)) \<le> sum_list (map (snd :: 'a \<times> nat \<Rightarrow> nat) (filter Q xs))"
  by (induction xs) (auto intro: le_SucI trans_le_add2)

lemma window_budget:
  assumes "log_ok opts xs"
  shows "within_budget opts (filter (\<lambda>(at, n). T - MINUTE < at \<and> at \<le> T) xs)"
proof (cases "filter (\<lambda>(at, n). T - MINUTE < at \<and> at \<le> T) xs = []")
  case True
  then show ?thesis by (simp add: within_budget_def)
next
  case False
  let ?P = "\<lambda>(at, n :: nat). T - MINUTE < at \<and> at \<le> T"
  have "\<exists>x\<in>set xs. ?P x" using False by (auto simp: filter_empty_conv)
  then obtain ys x zs where xs: "xs = ys @ x # zs" "?P x" "\<forall>z\<in>set zs. \<not> ?P z"
    using split_list_last_prop [of xs ?P] by blast
  have "filter ?P zs = []" using xs(3) by (auto simp: filter_empty_conv)
  then have w: "filter ?P xs = filter ?P (ys @ [x])" using xs by simp
  have "within_budget opts (still_spent (fst (xs ! length ys)) (take (Suc (length ys)) xs))"
    using assms xs(1) unfolding log_ok_def by (metis length_append length_Cons less_add_Suc1 add_Suc_right)
  then have b: "within_budget opts (still_spent (fst x) (ys @ [x]))" by (simp add: xs(1))
  have "length (filter ?P (ys @ [x])) \<le> length (still_spent (fst x) (ys @ [x]))
      \<and> sum_list (map snd (filter ?P (ys @ [x]))) \<le> sum_list (map snd (still_spent (fst x) (ys @ [x])))"
    unfolding still_spent_def using xs(2) by (intro filter_mono_sum) auto
  then show ?thesis using b w by (simp add: within_budget_def)
qed

section \<open>Properties\<close>

text \<open>C6: From a new arbiter with room for at least one waiting frame, whatever is offered, served
  and removed: on every port the ring lists each waiting client once, no queue is empty or
  longer than the limit, the turn points into the ring, and asking for the next frame of any
  port never fails.\<close>

theorem arbiter_invariant:
  fixes es :: "(int \<times> 'c arbiter_op) list"
  assumes "1 \<le> ao_max_queue opts"
  defines "a \<equiv> arbiter.run (new_arbiter opts) es"
  shows "fst (next_turn now port a) \<noteq> Turn_Throws
    \<and> (\<forall>(p, r)\<in>set (ar_rotations a). rotation_ok (ao_max_queue (ar_o a)) r)"
proof -
  have "arbiter_ok (new_arbiter opts)" using assms(1) by (simp add: arbiter_ok_def new_arbiter_def)
  moreover have "arbiter.legal_run b es" for b by (induction es arbitrary: b) simp_all
  ultimately have "arbiter_ok a" unfolding a_def by (rule arbiter.run_inv)
  with next_turn_ok [OF this] show ?thesis by (auto simp: arbiter_ok_def)
qed

theorem arbiter_invariant_witness:
  "fst (next_turn 9 ''p'' (arbiter.run (new_arbiter ARBITER_DEFAULTS) [(1, Ar_Offer (0 :: nat) ''p'' [1]), (2, Ar_Offer 1 ''p'' [2]), (3, Ar_Remove 0)]))
     \<noteq> Turn_Throws"
proof -
  have "1 \<le> ao_max_queue ARBITER_DEFAULTS" by (simp add: ARBITER_DEFAULTS_def)
  from arbiter_invariant [OF this] show ?thesis by blast
qed

text \<open>C9: In every run whose clock does not go back, and in every minute of it, wherever the minute
  starts, the arbiter accepts at most its frame budget and its byte budget from a client that
  is not removed, counted over all ports.\<close>

theorem arbiter_budget:
  fixes c :: 'a
  assumes "sorted (map fst es)" "\<And>now. (now, Ar_Remove c) \<notin> set es"
  shows "within_budget opts (filter (\<lambda>(at, n). T - MINUTE < at \<and> at \<le> T) (accepted c (new_arbiter opts) es))"
proof -
  have "log_ok (ar_o (new_arbiter opts :: 'a arbiter)) ([] @ accepted c (new_arbiter opts) es)"
    by (rule accepted_ok [OF assms]) (simp_all add: new_arbiter_def spent_of_def get_or_def log_ok_def)
  then show ?thesis by (intro window_budget) (simp add: new_arbiter_def)
qed

theorem arbiter_budget_witness:
  "within_budget ARBITER_DEFAULTS (filter (\<lambda>(at, n). 61000 - MINUTE < at \<and> at \<le> 61000)
     (accepted (0 :: nat) (new_arbiter ARBITER_DEFAULTS) (map (\<lambda>i. (5000 * int i, Ar_Offer 0 ''p'' [1, 2])) [0..<20])))"
  by (rule arbiter_budget) (auto simp: upt_rec)

text \<open>C16: The rotation is fair to the clients that wait: with nothing stale and nobody joining,
  the next frames of a port come from the waiting clients in turn order, each client once
  and with its oldest frame, before anyone is served again.\<close>

theorem arbiter_round_robin:
  assumes "arbiter_ok a" "jm_get (ar_rotations a) port = Some r"
    "\<forall>(c, q)\<in>set (ro_queues r). \<forall>x\<in>set q. now - qd_at x \<le> ao_max_age_ms (ar_o a)"
    "k \<le> length (ro_ring r)"
  shows "turns now port k a = map (\<lambda>c. Turn c (qd_frame (head_item r c))) (take k (service_order r))"
proof -
  have ok: "rotation_ok (ao_max_queue (ar_o a)) r" by (rule get_rotation_ok [OF assms(1,2)])
  note s = serve_round [OF ok assms(4)]
  have "length (service_order r) = length (ro_ring r)" by (simp add: service_order_def)
  then have "length (fst (serve k r)) = k" using s assms(4) by simp
  from turns_serve [OF assms(2) ok _ this] assms(3) show ?thesis by (simp add: fresh_def s)
qed

definition three_waiting :: "nat arbiter" where
  "three_waiting = \<lparr>ar_o = ARBITER_DEFAULTS, ar_rotations = [(''p'', \<lparr>ro_ring = [7, 8, 9], ro_turn = 1, ro_queues =
      [(7, [\<lparr>qd_frame = [2], qd_at = 2\<rparr>]), (8, [\<lparr>qd_frame = [3], qd_at = 3\<rparr>]), (9, [\<lparr>qd_frame = [4], qd_at = 4\<rparr>])]\<rparr>)],
     ar_spent = [], ar_drops = []\<rparr>"

lemma three_waiting_rotation:
  "ar_rotations three_waiting = [(''p'', \<lparr>ro_ring = [7, 8, 9], ro_turn = 1, ro_queues =
      [(7, [\<lparr>qd_frame = [2], qd_at = 2\<rparr>]), (8, [\<lparr>qd_frame = [3], qd_at = 3\<rparr>]), (9, [\<lparr>qd_frame = [4], qd_at = 4\<rparr>])]\<rparr>)]
   \<and> ar_o three_waiting = ARBITER_DEFAULTS"
  by (simp add: three_waiting_def)

theorem arbiter_round_robin_witness:
  "turns 6 ''p'' 3 three_waiting = [Turn 8 [3], Turn 9 [4], Turn 7 [2]]"
proof -
  have "arbiter_ok three_waiting"
    using three_waiting_rotation by (simp add: arbiter_ok_def rotation_ok_def jm_ok_def ARBITER_DEFAULTS_def)
  from arbiter_round_robin [OF this, of "''p''" _ 6 3] three_waiting_rotation
  show ?thesis
    by (simp add: ARBITER_DEFAULTS_def service_order_def head_item_def get_or_def numeral_3_eq_3 del: turns.simps)
qed

text \<open>Removing a client that went away takes its frames from every port and leaves the turn
  where it was: the other clients keep their queues and the order in which they will be
  served.\<close>

theorem arbiter_remove_keeps_order:
  assumes "arbiter_ok a" "jm_get (ar_rotations a) port = Some r"
  shows "\<exists>r'. jm_get (ar_rotations (ar_remove c a)) port = Some r'
    \<and> service_order r' = filter (\<lambda>x. x \<noteq> c) (service_order r)
    \<and> (\<forall>d. jm_get (ro_queues r') d = (if d = c then None else jm_get (ro_queues r) d))"
proof -
  have ok: "rotation_ok (ao_max_queue (ar_o a)) r" by (rule get_rotation_ok [OF assms])
  let ?r = "remove_from_rotation c r"
  have "jm_get (map (\<lambda>(p, r). (p, remove_from_rotation c r)) m) port = map_option (remove_from_rotation c) (jm_get m port)"
    for m by (induction m) auto
  then have "jm_get (ar_rotations (ar_remove c a)) port = Some ?r" using assms(2) by (simp add: ar_remove_def)
  moreover have "jm_get (ro_queues ?r) d = (if d = c then None else jm_get (ro_queues r) d)" for d
  proof (cases "index_of c (ro_ring r)")
    case None
    then have "jm_get (ro_queues r) c = None"
      using rotation_ok_ring [OF ok, of c] index_of_None [of c "ro_ring r"] by auto
    then show ?thesis using None by (simp add: remove_from_rotation_def)
  qed (simp add: remove_from_rotation_def Let_def)
  ultimately show ?thesis using remove_service_order [OF ok, of c] by blast
qed

theorem arbiter_remove_keeps_order_witness:
  "\<exists>r'. jm_get (ar_rotations (ar_remove 9 three_waiting)) ''p'' = Some r' \<and> service_order r' = [8, 7]"
proof -
  have "arbiter_ok three_waiting"
    using three_waiting_rotation by (simp add: arbiter_ok_def rotation_ok_def jm_ok_def ARBITER_DEFAULTS_def)
  from arbiter_remove_keeps_order [OF this, of "''p''" _ 9] three_waiting_rotation
  show ?thesis by (auto simp: service_order_def)
qed

text \<open>One round: one client joins and a turn is taken, then the other joins and a turn is taken.\<close>

definition join_and_serve :: "nat \<Rightarrow> 'c \<Rightarrow> queued \<Rightarrow> 'c rotation \<Rightarrow> ('c \<times> queued \<times> 'c rotation) option" where
  "join_and_serve m c item r = take_turn (snd (enqueue m c item r))"

fun alternate :: "nat \<Rightarrow> 'c \<Rightarrow> 'c \<Rightarrow> (queued \<times> queued) list \<Rightarrow> 'c rotation \<Rightarrow> ('c \<times> queued) list \<times> 'c rotation" where
  "alternate m b c [] r = ([], r)"
| "alternate m b c ((x, y) # xs) r =
     (case join_and_serve m c x r of
        None \<Rightarrow> ([], r)
      | Some (d, i, r1) \<Rightarrow>
          case join_and_serve m b y r1 of
            None \<Rightarrow> ([(d, i)], r1)
          | Some (e, j, r2) \<Rightarrow> let (ts, r3) = alternate m b c xs r2 in ((d, i) # (e, j) # ts, r3))"

text \<open>Joining at the end of the ring is not always joining at the end of the turn order. While
  one client's frame waits at the start of the ring, two clients that each rejoin with one
  frame whenever the other has just been served are served alternately for as long as they
  go on, and the waiting frame never moves.\<close>

theorem rotation_starves_waiting_client:
  assumes "distinct [a, b, c]" "1 \<le> m"
    "r = \<lparr>ro_ring = [a, b], ro_turn = 1, ro_queues = [(a, [old]), (b, [y0])]\<rparr>"
  shows "map fst (fst (alternate m b c xs r)) = concat (replicate (length xs) [b, c])
    \<and> ro_ring (snd (alternate m b c xs r)) = [a, b]
    \<and> jm_get (ro_queues (snd (alternate m b c xs r))) a = Some [old]"
proof -
  have "map fst (fst (alternate m b c xs \<lparr>ro_ring = [a, b], ro_turn = 1, ro_queues = [(a, [old]), (b, [y])]\<rparr>))
      = concat (replicate (length xs) [b, c])
    \<and> (\<exists>z. snd (alternate m b c xs \<lparr>ro_ring = [a, b], ro_turn = 1, ro_queues = [(a, [old]), (b, [y])]\<rparr>)
        = \<lparr>ro_ring = [a, b], ro_turn = 1, ro_queues = [(a, [old]), (b, [z])]\<rparr>)" for y
  proof (induction xs arbitrary: y)
    case (Cons p xs)
    obtain u v where p: "p = (u, v)" by (cases p)
    have ne: "a \<noteq> b" "a \<noteq> c" "b \<noteq> c" "b \<noteq> a" "c \<noteq> a" "c \<noteq> b" using assms(1) by auto
    have 1: "join_and_serve m c u \<lparr>ro_ring = [a, b], ro_turn = 1, ro_queues = [(a, [old]), (b, [y])]\<rparr>
        = Some (b, y, \<lparr>ro_ring = [a, c], ro_turn = 1, ro_queues = [(a, [old]), (c, [u])]\<rparr>)"
      using ne assms(2) by (simp add: join_and_serve_def enqueue_def take_turn_def get_or_def Let_def)
    have 2: "join_and_serve m b v \<lparr>ro_ring = [a, c], ro_turn = 1, ro_queues = [(a, [old]), (c, [u])]\<rparr>
        = Some (c, u, \<lparr>ro_ring = [a, b], ro_turn = 1, ro_queues = [(a, [old]), (b, [v])]\<rparr>)"
      using ne assms(2) by (simp add: join_and_serve_def enqueue_def take_turn_def get_or_def Let_def)
    show ?case using Cons.IH [of v] by (simp add: p 1 2 split_beta del: One_nat_def)
  qed simp
  from this [of y0] show ?thesis by (auto simp: assms(3))
qed

theorem rotation_starves_waiting_client_witness:
  "map fst (fst (alternate 16 2 3 [(\<lparr>qd_frame = [3], qd_at = 1\<rparr>, \<lparr>qd_frame = [2], qd_at = 2\<rparr>)]
     \<lparr>ro_ring = [1 :: nat, 2], ro_turn = 1, ro_queues = [(1, [\<lparr>qd_frame = [1], qd_at = 0\<rparr>]), (2, [\<lparr>qd_frame = [2], qd_at = 0\<rparr>])]\<rparr>))
   = [2, 3]"
  using rotation_starves_waiting_client [of "1 :: nat" 2 3 16 _ "\<lparr>qd_frame = [1], qd_at = 0\<rparr>" "\<lparr>qd_frame = [2], qd_at = 0\<rparr>"
      "[(\<lparr>qd_frame = [3], qd_at = 1\<rparr>, \<lparr>qd_frame = [2], qd_at = 2\<rparr>)]"]
  by simp

end
