(* ===== verification/Kiss.thy ===== *)
theory Kiss
  imports Interfaces
begin

text \<open>
  KISS framing, the first half of \<open>packages/aprs/src/ax25.ts\<close>: the incremental decoder
  \<open>KissDecoder\<close>, the wrapping of a frame and of a TNC command, and the stripping of a host
  CRC. \<open>throw new RangeError\<close> is \<^const>\<open>None\<close>.
\<close>

section \<open>The stream decoder\<close>

definition FEND :: byte where "FEND = 0xc0"
definition FESC :: byte where "FESC = 0xdb"
definition TFEND :: byte where "TFEND = 0xdc"
definition TFESC :: byte where "TFESC = 0xdd"

lemmas kiss_bytes = FEND_def FESC_def TFEND_def TFESC_def

record kiss_frame =
  kf_port :: nat
  kf_command :: nat
  kf_frame :: "byte list"

text \<open>The limit is fixed at construction; \<^const>\<open>None\<close> is \<open>Infinity\<close>.\<close>

record kiss_decoder =
  kd_max :: "nat option"
  kd_cur :: "byte list option"
  kd_esc :: bool
  kd_overflows :: nat

definition new_kiss_decoder :: "nat option \<Rightarrow> kiss_decoder" where
  "new_kiss_decoder max_bytes = \<lparr>kd_max = max_bytes, kd_cur = None, kd_esc = False, kd_overflows = 0\<rparr>"

definition kiss_reset :: "kiss_decoder \<Rightarrow> kiss_decoder" where
  "kiss_reset d = d\<lparr>kd_cur := None, kd_esc := False\<rparr>"

definition over_limit :: "nat option \<Rightarrow> nat \<Rightarrow> bool" where
  "over_limit m n = (case m of None \<Rightarrow> False | Some k \<Rightarrow> n > k)"

definition kiss_close :: "byte list option \<Rightarrow> kiss_frame list" where
  "kiss_close cur =
     (case cur of
        Some (t # b # bs) \<Rightarrow>
          [\<lparr>kf_port = unat (drop_bit 4 t), kf_command = unat (t AND 0x0f), kf_frame = b # bs\<rparr>]
      | _ \<Rightarrow> [])"

definition kiss_byte :: "kiss_decoder \<Rightarrow> byte \<Rightarrow> kiss_decoder \<times> kiss_frame list" where
  "kiss_byte d b =
     (if b = FEND then (d\<lparr>kd_cur := Some [], kd_esc := False\<rparr>, kiss_close (kd_cur d))
      else case kd_cur d of
        None \<Rightarrow> (d, [])
      | Some cur \<Rightarrow>
          let d1 = (if kd_esc d
                    then d\<lparr>kd_cur := Some (cur @ [if b = TFEND then FEND else if b = TFESC then FESC else b]),
                           kd_esc := False\<rparr>
                    else if b = FESC then d\<lparr>kd_esc := True\<rparr>
                    else d\<lparr>kd_cur := Some (cur @ [b])\<rparr>);
              n = (case kd_cur d1 of None \<Rightarrow> 0 | Some c \<Rightarrow> length c)
          in if over_limit (kd_max d1) n
             then (kiss_reset (d1\<lparr>kd_overflows := kd_overflows d1 + 1\<rparr>), [])
             else (d1, []))"

fun kiss_push :: "kiss_decoder \<Rightarrow> byte list \<Rightarrow> kiss_decoder \<times> kiss_frame list" where
  "kiss_push d [] = (d, [])"
| "kiss_push d (b # bs) =
     (let (d1, o1) = kiss_byte d b; (d2, o2) = kiss_push d1 bs in (d2, o1 @ o2))"

definition kiss_decode :: "byte list \<Rightarrow> kiss_frame list" where
  "kiss_decode buf = snd (kiss_push (new_kiss_decoder None) buf)"

definition kiss_frames :: "byte list \<Rightarrow> byte list list" where
  "kiss_frames buf = map kf_frame (kiss_decode buf)"

section \<open>Writing frames\<close>

definition kiss_escape :: "byte \<Rightarrow> byte list" where
  "kiss_escape b = (if b = FEND then [FESC, TFEND] else if b = FESC then [FESC, TFESC] else [b])"

text \<open>The port may be any JavaScript number; one that is no integer is \<^const>\<open>None\<close> here.\<close>

definition kiss_wrap :: "byte list \<Rightarrow> int option \<Rightarrow> byte list option" where
  "kiss_wrap ax25 port =
     (case port of
        None \<Rightarrow> None
      | Some p \<Rightarrow>
          if p < 0 \<or> p > 0x0f then None
          else Some ([FEND, push_bit 4 (byte_of (nat p))] @ concat (map kiss_escape ax25) @ [FEND]))"

definition KISS_TXDELAY :: nat where "KISS_TXDELAY = 1"
definition KISS_PERSIST :: nat where "KISS_PERSIST = 2"
definition KISS_SLOTTIME :: nat where "KISS_SLOTTIME = 3"

record kiss_timing =
  kt_tx_delay :: "int option"
  kt_persist :: "int option"
  kt_slot_time :: "int option"

definition KISS_TIMING_DEFAULTS :: kiss_timing where
  "KISS_TIMING_DEFAULTS = \<lparr>kt_tx_delay = Some 30, kt_persist = Some 63, kt_slot_time = Some 10\<rparr>"

definition kiss_command :: "int option \<Rightarrow> int option \<Rightarrow> int option \<Rightarrow> byte list option" where
  "kiss_command command val port =
     (case command of None \<Rightarrow> None | Some c \<Rightarrow>
        if c < 1 \<or> c > 0x0e then None
        else case port of None \<Rightarrow> None | Some p \<Rightarrow>
          if p < 0 \<or> p > 0x0f then None
          else case val of None \<Rightarrow> None | Some v \<Rightarrow>
            if v < 0 \<or> v > 255 then None
            else Some ([FEND, push_bit 4 (byte_of (nat p)) OR byte_of (nat c)]
                       @ kiss_escape (byte_of (nat v)) @ [FEND]))"

definition kiss_timing_frames :: "kiss_timing \<Rightarrow> int option \<Rightarrow> byte list option" where
  "kiss_timing_frames t port =
     (case kiss_command (Some (int KISS_TXDELAY)) (kt_tx_delay t) port of None \<Rightarrow> None | Some a \<Rightarrow>
        case kiss_command (Some (int KISS_PERSIST)) (kt_persist t) port of None \<Rightarrow> None | Some b \<Rightarrow>
          case kiss_command (Some (int KISS_SLOTTIME)) (kt_slot_time t) port of None \<Rightarrow> None
          | Some c \<Rightarrow> Some (a @ b @ c))"

section \<open>The CRC of a SMACK or FlexNet host\<close>

definition crc_table_entry :: "16 word \<Rightarrow> 16 word \<Rightarrow> 16 word \<Rightarrow> 16 word" where
  "crc_table_entry poly x i =
     ((\<lambda>c. if c AND 1 \<noteq> 0 then drop_bit 1 c XOR poly else drop_bit 1 c) ^^ 8) i XOR x"

definition smack_step :: "16 word \<Rightarrow> byte \<Rightarrow> 16 word" where
  "smack_step crc b = drop_bit 8 crc XOR crc_table_entry 0xa001 0 ((crc XOR ucast b) AND 0xff)"

definition flex_step :: "16 word \<Rightarrow> byte \<Rightarrow> 16 word" where
  "flex_step crc b =
     push_bit 8 crc XOR crc_table_entry 0x8408 0x0f87 ((drop_bit 8 crc XOR ucast b) AND 0xff)"

definition strip_two :: "nat \<Rightarrow> kiss_frame \<Rightarrow> kiss_frame" where
  "strip_two t k = \<lparr>kf_port = t div 16, kf_command = t mod 16, kf_frame = butlast (butlast (kf_frame k))\<rparr>"

definition kiss_strip_crc :: "kiss_frame \<Rightarrow> kiss_frame" where
  "kiss_strip_crc k =
     (let type_byte = byte_of (kf_port k * 16) OR byte_of (kf_command k)
      in if unat type_byte \<le> 0x0f \<or> length (kf_frame k) < 2 then k
         else let all = type_byte # kf_frame k
              in if type_byte AND 0x80 \<noteq> 0
                 then (if foldl smack_step 0 all = 0
                       then strip_two (unat (type_byte AND NOT 0x80)) k else k)
                 else if type_byte AND 0x20 \<noteq> 0 \<and> foldl flex_step 0xffff all = 0x7070
                 then strip_two (unat (type_byte AND NOT 0x20)) k else k)"

section \<open>Reading in pieces\<close>

lemma kiss_push_append:
  "kiss_push d (xs @ ys) = (fst (kiss_push (fst (kiss_push d xs)) ys),
     snd (kiss_push d xs) @ snd (kiss_push (fst (kiss_push d xs)) ys))"
  by (induction xs arbitrary: d) (simp_all add: split_beta Let_def)

interpretation kiss: stream_decoder kiss_push "\<lambda>_. True"
  by unfold_locales (simp_all add: kiss_push_append)

section \<open>What a wrapped frame does to the decoder\<close>

lemma kiss_push_Cons: "kiss_push d (b # bs) =
   (fst (kiss_push (fst (kiss_byte d b)) bs), snd (kiss_byte d b) @ snd (kiss_push (fst (kiss_byte d b)) bs))"
  by (simp add: split_beta Let_def)

lemma kiss_push_escaped:
  assumes "kd_cur d = Some cur" "\<not> kd_esc d" "\<not> over_limit (kd_max d) (length cur + 1)" "kd_max d = Some m \<longrightarrow> length cur \<le> m"
  shows "kiss_push d (kiss_escape b) = (d\<lparr>kd_cur := Some (cur @ [b]), kd_esc := False\<rparr>, [])"
proof -
  have e: "d\<lparr>kd_esc := False\<rparr> = d" using assms(2) by (cases d) simp
  have n: "\<not> over_limit (kd_max d) (length cur)" using assms(3) by (cases "kd_max d") (auto simp: over_limit_def)
  show ?thesis
    using assms n e
    by (auto simp: kiss_escape_def kiss_byte_def kiss_bytes Let_def)
qed

definition fits :: "nat option \<Rightarrow> nat \<Rightarrow> bool" where
  "fits m n = (case m of None \<Rightarrow> True | Some k \<Rightarrow> n \<le> k)"

lemma fits_not_over: "fits m n = (\<not> over_limit m n)"
  by (simp add: fits_def over_limit_def not_less split: option.split)

lemma kiss_push_body:
  "kd_cur d = Some cur \<Longrightarrow> \<not> kd_esc d \<Longrightarrow> fits (kd_max d) (length cur + length bs) \<Longrightarrow>
   kiss_push d (concat (map kiss_escape bs)) = (d\<lparr>kd_cur := Some (cur @ bs), kd_esc := False\<rparr>, [])"
proof (induction bs arbitrary: d cur)
  case Nil
  then show ?case by (cases d) simp
next
  case (Cons b bs)
  have f: "\<not> over_limit (kd_max d) (length cur + 1)" "\<forall>m. kd_max d = Some m \<longrightarrow> length cur \<le> m"
    using Cons.prems(3) by (auto simp: fits_def over_limit_def split: option.splits)
  let ?d = "d\<lparr>kd_cur := Some (cur @ [b]), kd_esc := False\<rparr>"
  have b: "kiss_push d (kiss_escape b) = (?d, [])"
    using f by (intro kiss_push_escaped [OF Cons.prems(1,2)]) auto
  have "kiss_push ?d (concat (map kiss_escape bs)) =
      (?d\<lparr>kd_cur := Some ((cur @ [b]) @ bs), kd_esc := False\<rparr>, [])"
    using Cons.prems(3) by (intro Cons.IH) simp_all
  then show ?case by (simp add: kiss_push_append b)
qed

lemma nibbles_disjoint: "c \<le> 15 \<Longrightarrow> push_bit 4 x AND byte_of c = 0"
proof -
  assume "c \<le> 15"
  then have "take_bit 4 (byte_of c) = byte_of c"
    by (simp only: word_unat_eq_iff unsigned_take_bit_eq) (simp add: take_bit_eq_mod)
  then have "push_bit 4 x AND byte_of c = push_bit 4 x AND take_bit 4 (byte_of c)" by simp
  also have "\<dots> = 0" by (rule bit_eqI) (auto simp: bit_and_iff bit_push_bit_iff bit_take_bit_iff)
  finally show ?thesis .
qed

lemma kiss_type_field:
  assumes "p \<le> 15" "c \<le> 15"
  shows "unat (drop_bit 4 (push_bit 4 (byte_of p) OR byte_of c)) = p"
    and "unat ((push_bit 4 (byte_of p) OR byte_of c) AND 0x0f) = c"
    and "push_bit 4 (byte_of p) OR byte_of c = byte_of (16 * p + c)"
proof -
  have u: "unat (push_bit 4 (byte_of p) OR byte_of c) = 16 * p + c"
    unfolding unat_or_disjoint [OF nibbles_disjoint [OF assms(2)]] unat_push_byte using assms by simp
  show "unat (drop_bit 4 (push_bit 4 (byte_of p) OR byte_of c)) = p"
    unfolding unat_drop_byte u using assms by simp
  have "(0x0f :: byte) = mask 4" by (simp add: mask_eq_exp_minus_1)
  then show "unat ((push_bit 4 (byte_of p) OR byte_of c) AND 0x0f) = c"
    unfolding u unat_and_mask [of _ 4, unfolded] by (simp only: unat_and_mask u) (use assms in simp)
  show "push_bit 4 (byte_of p) OR byte_of c = byte_of (16 * p + c)"
    using u assms by (simp add: word_unat_eq_iff)
qed

text \<open>From any state, a FEND, a type byte that is no KISS byte, an escaped body and a FEND.\<close>

lemma kiss_push_frame:
  assumes "t \<noteq> FEND" "t \<noteq> FESC" "fits (kd_max d) (Suc (length body))"
  shows "kiss_push d ([FEND, t] @ concat (map kiss_escape body) @ [FEND]) =
    (d\<lparr>kd_cur := Some [], kd_esc := False\<rparr>, kiss_close (kd_cur d) @ kiss_close (Some (t # body)))"
proof -
  let ?d1 = "d\<lparr>kd_cur := Some [], kd_esc := False\<rparr>"
  let ?d2 = "d\<lparr>kd_cur := Some [t], kd_esc := False\<rparr>"
  let ?d3 = "d\<lparr>kd_cur := Some (t # body), kd_esc := False\<rparr>"
  have "\<not> over_limit (kd_max d) (Suc 0)"
    using assms(3) by (auto simp: fits_def over_limit_def split: option.splits)
  then have 2: "kiss_byte ?d1 t = (?d2, [])" using assms(1,2) by (simp add: kiss_byte_def Let_def)
  have 1: "kiss_byte d FEND = (?d1, kiss_close (kd_cur d))" by (simp add: kiss_byte_def)
  have "kiss_push ?d2 (concat (map kiss_escape body)) = (?d2\<lparr>kd_cur := Some ([t] @ body), kd_esc := False\<rparr>, [])"
    using assms(3) by (intro kiss_push_body) simp_all
  then have 3: "kiss_push ?d2 (concat (map kiss_escape body)) = (?d3, [])" by simp
  have 4: "kiss_byte ?d3 FEND = (?d1, kiss_close (Some (t # body)))" by (simp add: kiss_byte_def)
  show ?thesis by (simp add: 1 2 kiss_push_append 3 4 del: kiss_push.simps add: kiss_push_Cons)
    (simp add: 4)
qed

definition data_frame :: "nat \<Rightarrow> byte list \<Rightarrow> kiss_frame" where
  "data_frame p f = \<lparr>kf_port = p, kf_command = 0, kf_frame = f\<rparr>"

lemma kiss_close_type:
  assumes "p \<le> 15" "c \<le> 15" "f \<noteq> []"
  shows "kiss_close (Some (byte_of (16 * p + c) # f)) = [\<lparr>kf_port = p, kf_command = c, kf_frame = f\<rparr>]"
  using assms(3) kiss_type_field [OF assms(1,2)] by (cases f) (simp_all add: kiss_close_def)

lemma byte_of_kiss:
  "n < 256 \<Longrightarrow> byte_of n = FEND \<longleftrightarrow> n = 192" "n < 256 \<Longrightarrow> byte_of n = FESC \<longleftrightarrow> n = 219"
  using byte_of_inj [of n 192] byte_of_inj [of n 219] by (simp_all add: kiss_bytes byte_of_def)

lemma kiss_wrap_some:
  assumes "p \<le> 15"
  shows "kiss_wrap f (Some (int p)) = Some ([FEND, byte_of (16 * p)] @ concat (map kiss_escape f) @ [FEND])"
  using assms kiss_type_field(3) [OF assms, of 0] by (simp add: kiss_wrap_def byte_of_def)

lemma kiss_push_wrap:
  assumes "p \<le> 15" "p \<noteq> 12" "f \<noteq> []" "fits (kd_max d) (Suc (length f))"
  shows "kiss_push d (the (kiss_wrap f (Some (int p)))) =
    (d\<lparr>kd_cur := Some [], kd_esc := False\<rparr>, kiss_close (kd_cur d) @ [data_frame p f])"
proof -
  have "16 * p < 256" "16 * p \<noteq> 192" "16 * p \<noteq> 219" using assms(1,2) by (simp_all, presburger)
  then have "byte_of (16 * p) \<noteq> FEND" "byte_of (16 * p) \<noteq> FESC"
    using byte_of_kiss [of "16 * p"] by simp_all
  from kiss_push_frame [OF this assms(4)] kiss_close_type [OF assms(1) _ assms(3), of 0]
  show ?thesis unfolding kiss_wrap_some [OF assms(1)] by (simp add: data_frame_def)
qed

section \<open>Properties\<close>

text \<open>C14: Frames that are not empty and within the size limit, wrapped for any port from 0 to 15 but 12 (which
  \<open>kiss_port_12_corrupts\<close>) and sent one after the other, are decoded to exactly those frames, with their ports, in order, however the byte stream is cut into reads and
  whatever bytes a KISS byte must be escaped for.\<close>

theorem kiss_stream_roundtrip:
  assumes "\<forall>(p, f)\<in>set pfs. p \<le> 15 \<and> p \<noteq> 12 \<and> f \<noteq> [] \<and> fits max_bytes (Suc (length f))"
    and "concat reads = concat (map (\<lambda>(p, f). the (kiss_wrap f (Some (int p)))) pfs)"
  shows "snd (kiss.push_all (new_kiss_decoder max_bytes) reads) = map (\<lambda>(p, f). data_frame p f) pfs"
proof -
  have "snd (kiss_push d (concat (map (\<lambda>(p, f). the (kiss_wrap f (Some (int p)))) pfs)))
      = map (\<lambda>(p, f). data_frame p f) pfs"
    if "kd_max d = max_bytes" "kiss_close (kd_cur d) = []" for d
    using assms(1) that
  proof (induction pfs arbitrary: d)
    case (Cons x pfs)
    obtain p f where x: "x = (p, f)" by (cases x)
    let ?d = "d\<lparr>kd_cur := Some [], kd_esc := False\<rparr>"
    have "kiss_push d (the (kiss_wrap f (Some (int p)))) = (?d, [data_frame p f])"
      using Cons.prems x kiss_push_wrap [of p f d] by simp
    moreover have "snd (kiss_push ?d (concat (map (\<lambda>(p, f). the (kiss_wrap f (Some (int p)))) pfs)))
        = map (\<lambda>(p, f). data_frame p f) pfs"
      using Cons.prems by (intro Cons.IH) (simp_all add: kiss_close_def)
    ultimately show ?case by (simp add: x kiss_push_append)
  qed simp
  then show ?thesis
    by (simp add: kiss.push_all_concat assms(2) new_kiss_decoder_def kiss_close_def)
qed

theorem kiss_stream_roundtrip_witness:
  "snd (kiss.push_all (new_kiss_decoder (Some 64)) [[0xc0, 0x00, 0xdb], [0xdc, 0xdb, 0xdd, 0xc0, 0xc0], [0x50, 0x07, 0xc0]])
     = [data_frame 0 [0xc0, 0xdb], data_frame 5 [7]]"
  using kiss_stream_roundtrip [of "[(0, [0xc0, 0xdb]), (5, [7])]" "Some 64"
      "[[0xc0, 0x00, 0xdb], [0xdc, 0xdb, 0xdd, 0xc0, 0xc0], [0x50, 0x07, 0xc0]]"]
  by (simp add: fits_def kiss_wrap_def kiss_escape_def kiss_bytes byte_of_def)

lemma kiss_byte_bounded:
  assumes "kd_max d = Some m" "length (case kd_cur d of None \<Rightarrow> [] | Some c \<Rightarrow> c) \<le> m"
  shows "kd_max (fst (kiss_byte d b)) = Some m
    \<and> length (case kd_cur (fst (kiss_byte d b)) of None \<Rightarrow> [] | Some c \<Rightarrow> c) \<le> m"
  using assms by (auto simp: kiss_byte_def Let_def over_limit_def kiss_reset_def split: option.splits)

lemma kiss_push_bounded:
  "kd_max d = Some m \<Longrightarrow> length (case kd_cur d of None \<Rightarrow> [] | Some c \<Rightarrow> c) \<le> m \<Longrightarrow>
   kd_max (fst (kiss_push d bs)) = Some m
   \<and> length (case kd_cur (fst (kiss_push d bs)) of None \<Rightarrow> [] | Some c \<Rightarrow> c) \<le> m"
proof (induction bs arbitrary: d)
  case (Cons b bs)
  from kiss_byte_bounded [OF Cons.prems, of b] Cons.IH [of "fst (kiss_byte d b)"]
  show ?case by (simp add: split_beta Let_def)
qed simp

lemma kiss_push_max [simp]: "kd_max (fst (kiss_push d bs)) = kd_max d"
proof (induction bs arbitrary: d)
  case (Cons b bs)
  have "kd_max (fst (kiss_byte d b)) = kd_max d"
    by (simp add: kiss_byte_def Let_def kiss_reset_def split: option.split)
  then show ?case using Cons by (simp add: split_beta Let_def)
qed simp

text \<open>The decoder resynchronises and stays bounded: whatever bytes came before, a wrapped
  frame is decoded as the last thing the decoder gives, and the bytes it holds never exceed
  its limit.\<close>

theorem kiss_decoder_resynchronises:
  fixes noise :: "byte list"
  assumes "p \<le> 15" "p \<noteq> 12" "f \<noteq> []" "Suc (length f) \<le> m"
  defines "d \<equiv> fst (kiss_push (new_kiss_decoder (Some m)) noise)"
  shows "length (case kd_cur d of None \<Rightarrow> [] | Some c \<Rightarrow> c) \<le> m
    \<and> (\<exists>before. snd (kiss_push d (the (kiss_wrap f (Some (int p))))) = before @ [data_frame p f] \<and> length before \<le> 1)"
proof -
  have "length (case kd_cur d of None \<Rightarrow> [] | Some c \<Rightarrow> c) \<le> m"
    unfolding d_def
    using kiss_push_bounded [of "new_kiss_decoder (Some m)" m noise] by (simp add: new_kiss_decoder_def)
  moreover have "kd_max d = Some m" by (simp add: d_def new_kiss_decoder_def)
  then have "snd (kiss_push d (the (kiss_wrap f (Some (int p))))) = kiss_close (kd_cur d) @ [data_frame p f]"
    using kiss_push_wrap [OF assms(1,2,3), of d] assms(4) by (simp add: fits_def)
  moreover have "length (kiss_close (kd_cur d)) \<le> 1"
    by (simp add: kiss_close_def split: option.split list.split)
  ultimately show ?thesis by blast
qed

theorem kiss_decoder_resynchronises_witness:
  "length (case kd_cur (fst (kiss_push (new_kiss_decoder (Some 4)) [1, 0xc0, 2, 3])) of None \<Rightarrow> [] | Some c \<Rightarrow> c) \<le> 4"
  using kiss_decoder_resynchronises [of 0 "[1, 2, 3]" 4 "[1, 0xc0, 2, 3]"] by simp

text \<open>A frame wrapped for port 12 is not decoded as written: its type byte is the frame
  delimiter itself and is sent unescaped, so the decoder takes the first octet of the frame for
  the type byte and hands up the rest under another port.\<close>

theorem kiss_port_12_corrupts:
  assumes "fits max_bytes (length (x # y # f))"
  shows "snd (kiss_push (new_kiss_decoder max_bytes) (the (kiss_wrap (x # y # f) (Some 12))))
    = [\<lparr>kf_port = unat (drop_bit 4 x), kf_command = unat (x AND 0x0f), kf_frame = y # f\<rparr>]"
proof -
  let ?new = "new_kiss_decoder max_bytes"
  let ?d = "?new\<lparr>kd_cur := Some [], kd_esc := False\<rparr>"
  have t: "push_bit 4 (byte_of 12) = FEND" by (simp add: byte_of_def kiss_bytes)
  have w: "the (kiss_wrap (x # y # f) (Some 12)) = [FEND, FEND] @ concat (map kiss_escape (x # y # f)) @ [FEND]"
    by (simp add: kiss_wrap_def t)
  have 1: "kiss_push ?new [FEND, FEND] = (?d, [])"
    by (simp add: kiss_byte_def new_kiss_decoder_def kiss_close_def)
  have 2: "kiss_push ?d (concat (map kiss_escape (x # y # f))) = (?d\<lparr>kd_cur := Some ([] @ x # y # f), kd_esc := False\<rparr>, [])"
    using assms by (intro kiss_push_body) (simp_all add: new_kiss_decoder_def)
  have 3: "snd (kiss_push (?d\<lparr>kd_cur := Some (x # y # f), kd_esc := False\<rparr>) [FEND]) = kiss_close (Some (x # y # f))"
    by (simp add: kiss_byte_def)
  have "snd (kiss_push ?d (concat (map kiss_escape (x # y # f)) @ [FEND])) = kiss_close (Some (x # y # f))"
    unfolding kiss_push_append [of ?d "concat (map kiss_escape (x # y # f))"] 2 using 3 by (simp del: kiss_push.simps)
  then have "snd (kiss_push ?new ([FEND, FEND] @ concat (map kiss_escape (x # y # f)) @ [FEND])) = kiss_close (Some (x # y # f))"
    unfolding kiss_push_append [of ?new "[FEND, FEND]"] 1 by (simp del: kiss_push.simps)
  then have "snd (kiss_push ?new (the (kiss_wrap (x # y # f) (Some 12)))) = kiss_close (Some (x # y # f))"
    by (simp only: w)
  then show ?thesis by (simp only: kiss_close_def option.case list.case)
qed

theorem kiss_port_12_corrupts_witness:
  "snd (kiss_push (new_kiss_decoder None) (the (kiss_wrap [0x9c, 0x60, 1] (Some 12))))
     = [\<lparr>kf_port = 9, kf_command = 12, kf_frame = [0x60, 1]\<rparr>]"
  using kiss_port_12_corrupts [where max_bytes = None and x = "0x9c" and y = "0x60" and f = "[1]"] by (simp add: fits_def)

end
