(* ===== verification/Hub_Clients.thy ===== *)
theory Hub_Clients
  imports Kiss
begin

text \<open>
  The clients of a KISS server and the radio ports each one sees:
  \<open>packages/hub/src/clients.ts\<close>. A \<open>throw new Error(msg)\<close> is \<^const>\<open>Inl\<close> of the
  message.
\<close>

section \<open>The port map\<close>

record port_map_entry =
  pm_kiss :: nat
  pm_radio :: string

definition is_kiss_port :: "nat \<Rightarrow> bool" where
  "is_kiss_port n = (n \<le> 15)"

definition list_items :: "string option \<Rightarrow> string list" where
  "list_items spec =
     filter (\<lambda>s. s \<noteq> []) (map js_trim (split_on (CHR '','') (case spec of None \<Rightarrow> [] | Some s \<Rightarrow> s)))"

text \<open>
  \<open>/^(?:(\d{1,2})\s*=\s*)?(\S+)$/\<close>: the optional group takes all leading digits or none,
  since what follows it is a space or the equals sign.
\<close>

definition after_equals :: "string \<Rightarrow> nat \<Rightarrow> (string \<times> string) option" where
  "after_equals item most =
     (let ds = takeWhile is_digit item; rest = dropWhile is_space (dropWhile is_digit item)
      in if ds \<noteq> [] \<and> length ds \<le> most \<and> rest \<noteq> [] \<and> hd rest = CHR ''=''
         then Some (ds, dropWhile is_space (tl rest)) else None)"

definition no_space :: "string \<Rightarrow> bool" where
  "no_space s = (s \<noteq> [] \<and> list_all (\<lambda>c. \<not> is_space c) s)"

definition match_map_item :: "string \<Rightarrow> (string option \<times> string) option" where
  "match_map_item item =
     (case after_equals item 2 of
        Some (ds, r) \<Rightarrow> if no_space r then Some (Some ds, r)
                        else if no_space item then Some (None, item) else None
      | None \<Rightarrow> if no_space item then Some (None, item) else None)"

fun map_entries :: "nat \<Rightarrow> string list \<Rightarrow> string + port_map_entry list" where
  "map_entries i [] = Inr []"
| "map_entries i (item # items) =
     (case match_map_item item of
        None \<Rightarrow> Inl (CHR 0x22 # item @ CHR 0x22 # '' is not [<kiss port>=]<radio port>'')
      | Some (ds, radio) \<Rightarrow>
          case map_entries (i + 1) items of
            Inl e \<Rightarrow> Inl e
          | Inr es \<Rightarrow> Inr (\<lparr>pm_kiss = (case ds of None \<Rightarrow> i | Some d \<Rightarrow> digits_value d), pm_radio = radio\<rparr> # es))"

fun check_entries :: "string list \<Rightarrow> nat list \<Rightarrow> string list \<Rightarrow> port_map_entry list \<Rightarrow> string option" where
  "check_entries radios kiss named [] = None"
| "check_entries radios kiss named (e # es) =
     (if \<not> is_kiss_port (pm_kiss e) then Some (''KISS port '' @ nat_str (pm_kiss e) @ '' is not 0-15'')
      else if pm_radio e \<notin> set radios
      then Some (CHR 0x22 # pm_radio e @ CHR 0x22 # '' is not a radio port of this box (''
                 @ (if join_with '', '' radios = [] then ''none'' else join_with '', '' radios) @ '')'')
      else if pm_kiss e \<in> set kiss then Some (''KISS port '' @ nat_str (pm_kiss e) @ '' is mapped twice'')
      else if pm_radio e \<in> set named then Some (''radio port '' @ pm_radio e @ '' is mapped twice'')
      else check_entries radios (pm_kiss e # kiss) (pm_radio e # named) es)"

definition parse_port_map :: "string option \<Rightarrow> string list \<Rightarrow> string + port_map_entry list" where
  "parse_port_map spec radios =
     (let items = list_items spec
      in case (if items \<noteq> [] then map_entries 0 items
               else Inr (map (\<lambda>(i, radio). \<lparr>pm_kiss = i, pm_radio = radio\<rparr>) (zip [0..<length radios] radios))) of
           Inl e \<Rightarrow> Inl e
         | Inr entries \<Rightarrow>
             if length entries > 16
             then Inl (nat_str (length entries) @ '' radio ports: KISS numbers only sixteen (0-15)'')
             else case check_entries radios [] [] entries of Some e \<Rightarrow> Inl e | None \<Rightarrow> Inr entries)"

record single_port_listener =
  sl_tcp_port :: nat
  sl_kiss :: nat

text \<open>\<open>/^(\d{1,5})\s*=\s*(\d{1,2})$/\<close>.\<close>

definition match_listener :: "string \<Rightarrow> (nat \<times> nat) option" where
  "match_listener item =
     (case after_equals item 5 of
        None \<Rightarrow> None
      | Some (ds, r) \<Rightarrow>
          if r \<noteq> [] \<and> length r \<le> 2 \<and> list_all is_digit r
          then Some (digits_value ds, digits_value r) else None)"

fun listeners_loop :: "port_map_entry list \<Rightarrow> single_port_listener list \<Rightarrow> string list
    \<Rightarrow> string + single_port_listener list" where
  "listeners_loop m out [] = Inr out"
| "listeners_loop m out (item # items) =
     (case match_listener item of
        None \<Rightarrow> Inl (CHR 0x22 # item @ CHR 0x22 # '' is not <tcp port>=<kiss port>'')
      | Some (tcp, kiss) \<Rightarrow>
          if tcp < 1 \<or> tcp > 65535 then Inl (''TCP port '' @ nat_str tcp @ '' is not 1-65535'')
          else if list_ex (\<lambda>l. sl_tcp_port l = tcp) out then Inl (''TCP port '' @ nat_str tcp @ '' is listed twice'')
          else if \<not> list_ex (\<lambda>e. pm_kiss e = kiss) m
          then Inl (''KISS port '' @ nat_str kiss @ '' is not mapped to a radio port'')
          else listeners_loop m (out @ [\<lparr>sl_tcp_port = tcp, sl_kiss = kiss\<rparr>]) items)"

definition parse_listeners :: "string option \<Rightarrow> port_map_entry list \<Rightarrow> string + single_port_listener list" where
  "parse_listeners spec m = listeners_loop m [] (list_items spec)"

section \<open>The clients\<close>

record client_view =
  cv_out :: "(string, nat) jsmap"
  cv_in :: "(nat, string) jsmap"

record 'c kiss_clients =
  kc_map :: "port_map_entry list"
  kc_max :: nat
  kc_clients :: "('c, client_view) jsmap"

definition new_clients :: "port_map_entry list \<Rightarrow> nat \<Rightarrow> 'c kiss_clients" where
  "new_clients m max_clients = \<lparr>kc_map = m, kc_max = max_clients, kc_clients = []\<rparr>"

text \<open>\<open>new Map(entries)\<close>.\<close>

definition map_of_entries :: "('k \<times> 'v) list \<Rightarrow> ('k, 'v) jsmap" where
  "map_of_entries es = foldl (\<lambda>m (k, v). jm_set k v m) [] es"

definition kc_size :: "'c kiss_clients \<Rightarrow> nat" where
  "kc_size k = length (kc_clients k)"

definition client_view_of :: "port_map_entry list \<Rightarrow> nat option \<Rightarrow> client_view" where
  "client_view_of m only =
     (let seen = (case only of None \<Rightarrow> m | Some n \<Rightarrow> filter (\<lambda>e. pm_kiss e = n) m);
          out = map_of_entries (map (\<lambda>e. (pm_radio e, case only of None \<Rightarrow> pm_kiss e | Some _ \<Rightarrow> 0)) seen)
      in \<lparr>cv_out = out, cv_in = map_of_entries (map (\<lambda>(radio, n). (n, radio)) out)\<rparr>)"

definition kc_add :: "'c \<Rightarrow> nat option \<Rightarrow> 'c kiss_clients \<Rightarrow> bool \<times> 'c kiss_clients" where
  "kc_add conn only k =
     (if length (kc_clients k) \<ge> kc_max k then (False, k)
      else (True, k\<lparr>kc_clients := jm_set conn (client_view_of (kc_map k) only) (kc_clients k)\<rparr>))"

definition kc_remove :: "'c \<Rightarrow> 'c kiss_clients \<Rightarrow> 'c kiss_clients" where
  "kc_remove conn k = k\<lparr>kc_clients := jm_delete conn (kc_clients k)\<rparr>"

definition radio_for :: "'c \<Rightarrow> nat \<Rightarrow> 'c kiss_clients \<Rightarrow> string option" where
  "radio_for conn kiss_port k =
     (case jm_get (kc_clients k) conn of None \<Rightarrow> None | Some v \<Rightarrow> jm_get (cv_in v) kiss_port)"

text \<open>
  Each client that sees the radio port gets the frame under its own number; \<^const>\<open>None\<close>
  stands for the \<open>RangeError\<close> of wrapping for a number above 15. The code wraps the frame
  once per number and shares the bytes.
\<close>

fun heard_by :: "string \<Rightarrow> byte list \<Rightarrow> ('c \<times> client_view) list \<Rightarrow> ('c \<times> byte list) list option" where
  "heard_by radio frame [] = Some []"
| "heard_by radio frame ((conn, v) # cs) =
     (case jm_get (cv_out v) radio of
        None \<Rightarrow> heard_by radio frame cs
      | Some n \<Rightarrow>
          case kiss_wrap frame (Some (int n)) of
            None \<Rightarrow> None
          | Some bytes \<Rightarrow> map_option (\<lambda>ds. (conn, bytes) # ds) (heard_by radio frame cs))"

definition kc_heard :: "string \<Rightarrow> byte list \<Rightarrow> 'c kiss_clients \<Rightarrow> ('c \<times> byte list) list option" where
  "kc_heard radio frame k = heard_by radio frame (kc_clients k)"

section \<open>What an accepted port map is\<close>

definition valid_map :: "string list \<Rightarrow> port_map_entry list \<Rightarrow> bool" where
  "valid_map radios es = (length es \<le> 16 \<and> distinct (map pm_kiss es) \<and> distinct (map pm_radio es)
     \<and> (\<forall>e\<in>set es. pm_kiss e \<le> 15 \<and> pm_radio e \<in> set radios))"

lemma check_entries_None:
  "check_entries radios kiss named es = None \<Longrightarrow>
     distinct (map pm_kiss es) \<and> distinct (map pm_radio es)
   \<and> (\<forall>e\<in>set es. pm_kiss e \<le> 15 \<and> pm_radio e \<in> set radios \<and> pm_kiss e \<notin> set kiss \<and> pm_radio e \<notin> set named)"
proof (induction es arbitrary: kiss named)
  case (Cons e es)
  then have "check_entries radios (pm_kiss e # kiss) (pm_radio e # named) es = None"
    "pm_kiss e \<le> 15" "pm_radio e \<in> set radios" "pm_kiss e \<notin> set kiss" "pm_radio e \<notin> set named"
    by (auto simp: is_kiss_port_def split: if_splits)
  with Cons.IH [of "pm_kiss e # kiss" "pm_radio e # named"] show ?case by auto
qed simp

lemma map_of_entries_append:
  "distinct (map fst (m @ es)) \<Longrightarrow> foldl (\<lambda>m (k, v). jm_set k v m) m es = m @ es"
proof (induction es arbitrary: m)
  case (Cons a es)
  obtain k v where a: "a = (k, v)" by (cases a)
  have "k \<notin> fst ` set m" using Cons.prems a by auto
  then have "jm_set k v m = m @ [(k, v)]" by (induction m) auto
  then show ?case using Cons a by simp
qed simp

lemma map_of_entries_distinct: "distinct (map fst es) \<Longrightarrow> map_of_entries es = es"
  using map_of_entries_append [of "[]" es] by (simp add: map_of_entries_def)

section \<open>The views of a valid map\<close>

lemma view_all:
  assumes "valid_map radios m"
  shows "cv_out (client_view_of m None) = map (\<lambda>e. (pm_radio e, pm_kiss e)) m"
    and "cv_in (client_view_of m None) = map (\<lambda>e. (pm_kiss e, pm_radio e)) m"
proof -
  have o: "map_of_entries (map (\<lambda>e. (pm_radio e, pm_kiss e)) m) = map (\<lambda>e. (pm_radio e, pm_kiss e)) m"
    and i: "map_of_entries (map (\<lambda>e. (pm_kiss e, pm_radio e)) m) = map (\<lambda>e. (pm_kiss e, pm_radio e)) m"
    using assms by (auto intro!: map_of_entries_distinct simp: valid_map_def comp_def)
  show "cv_out (client_view_of m None) = map (\<lambda>e. (pm_radio e, pm_kiss e)) m"
    "cv_in (client_view_of m None) = map (\<lambda>e. (pm_kiss e, pm_radio e)) m"
    by (simp_all add: client_view_of_def Let_def o comp_def i)
qed

lemma filter_key_distinct: "distinct (map f xs) \<Longrightarrow> filter (\<lambda>x. f x = n) xs = [] \<or> (\<exists>x\<in>set xs. filter (\<lambda>x. f x = n) xs = [x] \<and> f x = n)"
proof (induction xs)
  case (Cons x xs)
  show ?case
  proof (cases "f x = n")
    case True
    then have "filter (\<lambda>x. f x = n) xs = []" using Cons.prems by (auto simp: filter_empty_conv image_iff)
    then show ?thesis using True by simp
  qed (use Cons in auto)
qed simp

lemma view_one:
  assumes "valid_map radios m"
  shows "(cv_out (client_view_of m (Some n)) = [] \<and> cv_in (client_view_of m (Some n)) = [])
    \<or> (\<exists>e\<in>set m. cv_out (client_view_of m (Some n)) = [(pm_radio e, 0)] \<and> cv_in (client_view_of m (Some n)) = [(0, pm_radio e)])"
  using filter_key_distinct [of pm_kiss m n] assms
  by (auto simp: valid_map_def client_view_of_def Let_def map_of_entries_def)

text \<open>A client that knows a radio port by a number means that port by the number.\<close>

lemma view_answers:
  assumes "valid_map radios m" "jm_get (cv_out (client_view_of m only)) radio = Some n"
  shows "n \<le> 15 \<and> jm_get (cv_in (client_view_of m only)) n = Some radio \<and> (only \<noteq> None \<longrightarrow> n = 0)"
proof (cases only)
  case None
  have "(radio, n) \<in> set (map (\<lambda>e. (pm_radio e, pm_kiss e)) m)"
    using jm_get_Some_in [OF assms(2)] view_all(1) [OF assms(1)] None by simp
  then obtain e where e: "e \<in> set m" "radio = pm_radio e" "n = pm_kiss e" by auto
  have "jm_ok (map (\<lambda>e. (pm_kiss e, pm_radio e)) m)" using assms(1) by (simp add: jm_ok_def valid_map_def comp_def)
  from jm_get_in [OF this] e have "jm_get (map (\<lambda>e. (pm_kiss e, pm_radio e)) m) n = Some radio" by auto
  then show ?thesis using None e assms(1) view_all(2) [OF assms(1)] by (auto simp: valid_map_def)
next
  case (Some k)
  then show ?thesis using view_one [OF assms(1), of k] assms(2) by (auto split: if_splits)
qed

section \<open>The set of clients\<close>

datatype 'c clients_op = Kc_Add 'c "nat option" | Kc_Remove 'c

fun clients_step :: "'c kiss_clients \<Rightarrow> 'c clients_op \<Rightarrow> 'c kiss_clients" where
  "clients_step k (Kc_Add c only) = snd (kc_add c only k)"
| "clients_step k (Kc_Remove c) = kc_remove c k"

definition clients_ok :: "port_map_entry list \<Rightarrow> nat \<Rightarrow> 'c kiss_clients \<Rightarrow> bool" where
  "clients_ok m n k = (kc_map k = m \<and> kc_max k = n \<and> jm_ok (kc_clients k) \<and> length (kc_clients k) \<le> n
     \<and> (\<forall>(c, v)\<in>set (kc_clients k). v \<in> client_view_of m ` UNIV))"

lemma kc_add_ok:
  assumes "clients_ok m n k"
  shows "clients_ok m n (snd (kc_add c only k))"
proof (cases "length (kc_clients k) \<ge> kc_max k")
  case True
  then show ?thesis using assms by (simp add: kc_add_def)
next
  case False
  have "v' \<in> client_view_of m ` UNIV" if "(c', v') \<in> set (jm_set c (client_view_of m only) (kc_clients k))" for c' v'
    using set_jm_set_cases [OF that] assms by (auto simp: clients_ok_def)
  moreover have "length (jm_set c (client_view_of m only) (kc_clients k)) \<le> n"
    using False assms by (auto simp: length_jm_set clients_ok_def)
  ultimately show ?thesis using assms False by (auto simp: kc_add_def clients_ok_def)
qed

lemma kc_remove_ok: "clients_ok m n k \<Longrightarrow> clients_ok m n (kc_remove c k)"
  using set_jm_delete_subset [of c "kc_clients k"] length_jm_delete_le [of c "kc_clients k"]
  by (fastforce simp: kc_remove_def clients_ok_def)

interpretation clients: invariant_machine clients_step "clients_ok m n" "\<lambda>_ _. True"
proof
  fix k :: "'a kiss_clients" and e assume "clients_ok m n k"
  then show "clients_ok m n (clients_step k e)" by (cases e) (simp_all add: kc_add_ok kc_remove_ok)
qed

lemma new_clients_ok: "clients_ok m n (new_clients m n)"
  by (simp add: clients_ok_def new_clients_def)

lemma heard_by_spec:
  assumes "valid_map radios m" "distinct (map fst cs)" "\<forall>(c, v)\<in>set cs. v \<in> client_view_of m ` UNIV"
  shows "\<exists>ds. heard_by radio frame cs = Some ds \<and> distinct (map fst ds)
    \<and> (\<forall>(c, bytes)\<in>set ds. \<exists>v n. (c, v) \<in> set cs \<and> n \<le> 15 \<and> jm_get (cv_out v) radio = Some n
          \<and> jm_get (cv_in v) n = Some radio \<and> bytes = the (kiss_wrap frame (Some (int n))))
    \<and> (\<forall>(c, v)\<in>set cs. (c \<in> set (map fst ds)) = (jm_get (cv_out v) radio \<noteq> None))"
  using assms(2,3)
proof (induction cs)
  case (Cons a cs)
  obtain c v where a: "a = (c, v)" by (cases a)
  obtain ds where ds: "heard_by radio frame cs = Some ds" "distinct (map fst ds)"
      "\<forall>(c, bytes)\<in>set ds. \<exists>v n. (c, v) \<in> set cs \<and> n \<le> 15 \<and> jm_get (cv_out v) radio = Some n
          \<and> jm_get (cv_in v) n = Some radio \<and> bytes = the (kiss_wrap frame (Some (int n)))"
      "\<forall>(c, v)\<in>set cs. (c \<in> set (map fst ds)) = (jm_get (cv_out v) radio \<noteq> None)"
    using Cons by auto
  have fresh: "c \<notin> fst ` set ds" using ds(3) Cons.prems(1) a by force
  have other: "c' \<noteq> c" if "(c', v') \<in> set cs" for c' v' using that Cons.prems(1) a by force
  show ?case
  proof (cases "jm_get (cv_out v) radio")
    case None
    then show ?thesis using ds fresh a by fastforce
  next
    case (Some n)
    obtain only where "v = client_view_of m only" using Cons.prems(2) a by auto
    from view_answers [OF assms(1) Some [unfolded this]] this
    have n: "n \<le> 15" "jm_get (cv_in v) n = Some radio" by auto
    have w: "kiss_wrap frame (Some (int n)) \<noteq> None" using n(1) by (simp add: kiss_wrap_def)
    then obtain b where b: "kiss_wrap frame (Some (int n)) = Some b" by auto
    have "heard_by radio frame (a # cs) = Some ((c, b) # ds)" using a Some b ds(1) by simp
    moreover have "\<forall>(c', v')\<in>set (a # cs). (c' \<in> set (map fst ((c, b) # ds))) = (jm_get (cv_out v') radio \<noteq> None)"
      using ds(4) a Some other by fastforce
    ultimately show ?thesis using ds(2,3) fresh n a b Some by fastforce
  qed
qed simp

section \<open>Properties\<close>

text \<open>Whatever text the operator writes, a port map the parser accepts has at most sixteen
  entries, no KISS number and no radio port twice, and names only KISS numbers 0 to 15 and
  radio ports the box has.\<close>

theorem parse_port_map_valid:
  assumes "parse_port_map spec radios = Inr es"
  shows "length es \<le> 16 \<and> distinct (map pm_kiss es) \<and> distinct (map pm_radio es)
    \<and> (\<forall>e\<in>set es. pm_kiss e \<le> 15 \<and> pm_radio e \<in> set radios)"
  using assms check_entries_None [of radios "[]" "[]" es]
  by (auto simp: parse_port_map_def Let_def split: sum.splits if_splits option.splits)

theorem parse_port_map_valid_witness:
  "distinct (map pm_kiss [\<lparr>pm_kiss = 3, pm_radio = ''vhf''\<rparr>, \<lparr>pm_kiss = 1, pm_radio = ''hf''\<rparr>])"
proof -
  have "parse_port_map (Some ''3 = vhf, hf'') [''hf'', ''vhf''] = Inr [\<lparr>pm_kiss = 3, pm_radio = ''vhf''\<rparr>, \<lparr>pm_kiss = 1, pm_radio = ''hf''\<rparr>]"
    by code_simp
  from parse_port_map_valid [OF this] show ?thesis by blast
qed

text \<open>C34: From a server with a valid map, after any connections and disconnections: at most the
  allowed number of clients is connected, every client that sees a radio port gets each frame
  heard there exactly once, and the KISS number it comes under is one the client's answers
  on reach the same radio port by.\<close>

theorem clients_hear_and_answer:
  fixes ops :: "'c clients_op list" and m :: "port_map_entry list" and most :: nat
  assumes "valid_map radios m"
  defines "k \<equiv> clients.run (new_clients m most) ops"
  shows "kc_size k \<le> most
    \<and> (\<exists>ds. kc_heard radio frame k = Some ds \<and> distinct (map fst ds)
        \<and> (\<forall>(c, bytes)\<in>set ds. \<exists>n \<le> 15. bytes = the (kiss_wrap frame (Some (int n))) \<and> radio_for c n k = Some radio)
        \<and> (\<forall>(c, v)\<in>set (kc_clients k). (c \<in> set (map fst ds)) = (jm_get (cv_out v) radio \<noteq> None)))"
proof -
  have "clients.legal_run k' ops" for k' :: "'c kiss_clients" by (induction ops arbitrary: k') simp_all
  then have ok: "clients_ok m most k" unfolding k_def by (intro clients.run_inv [OF new_clients_ok])
  then obtain ds where ds: "kc_heard radio frame k = Some ds" "distinct (map fst ds)"
    "\<forall>(c, bytes)\<in>set ds. \<exists>v n. (c, v) \<in> set (kc_clients k) \<and> n \<le> 15 \<and> jm_get (cv_out v) radio = Some n
        \<and> jm_get (cv_in v) n = Some radio \<and> bytes = the (kiss_wrap frame (Some (int n)))"
    "\<forall>(c, v)\<in>set (kc_clients k). (c \<in> set (map fst ds)) = (jm_get (cv_out v) radio \<noteq> None)"
    using heard_by_spec [OF assms(1), of "kc_clients k" radio frame]
    by (auto simp: clients_ok_def jm_ok_def kc_heard_def)
  have jm: "jm_ok (kc_clients k)" using ok by (simp add: clients_ok_def)
  have "\<exists>n \<le> 15. bytes = the (kiss_wrap frame (Some (int n))) \<and> radio_for c n k = Some radio"
    if cb: "(c, bytes) \<in> set ds" for c bytes
  proof -
    obtain v n where v: "(c, v) \<in> set (kc_clients k)" "n \<le> 15" "jm_get (cv_in v) n = Some radio"
        "bytes = the (kiss_wrap frame (Some (int n)))"
      using ds(3) cb by fast
    then show ?thesis using jm_get_in [OF jm v(1)] by (auto simp: radio_for_def)
  qed
  then show ?thesis using ok ds(1,2,4) by (auto simp: clients_ok_def kc_size_def)
qed

theorem clients_hear_and_answer_witness:
  "kc_size (clients.run (new_clients [\<lparr>pm_kiss = 3, pm_radio = ''vhf''\<rparr>] 1) [Kc_Add (0 :: nat) None, Kc_Add 1 (Some 3)]) \<le> 1"
proof -
  have "valid_map [''vhf''] [\<lparr>pm_kiss = 3, pm_radio = ''vhf''\<rparr>]" by (simp add: valid_map_def)
  from clients_hear_and_answer [OF this] show ?thesis by blast
qed

end
