(* ===== verification/Hub_Server.thy ===== *)
theory Hub_Server
  imports Ax25_Frame Callsign Hub_Arbiter Hub_Clients
begin

text \<open>
  The core of the shared KISS server: the stream of one client and the address field of the
  frames it carries (\<open>packages/hub/src/framing.ts\<close>), and the admission of client frames to
  the arbiter (\<open>packages/hub/src/kissserver.ts\<close>). A JavaScript exception is \<^const>\<open>None\<close>
  of \<open>receive\<close> and \<open>Tx_Throws\<close> of \<open>ks_next\<close>.
\<close>

section \<open>The stream of one client\<close>

record stream_counts =
  sc_commands :: nat
  sc_overflows :: nat

definition KISS_CLIENT_MAX_BYTES :: nat where
  "KISS_CLIENT_MAX_BYTES = 4096"

record client_stream =
  cs_rx :: kiss_decoder
  cs_counts :: stream_counts

definition new_client_stream :: client_stream where
  "new_client_stream = \<lparr>cs_rx = new_kiss_decoder (Some KISS_CLIENT_MAX_BYTES), cs_counts = \<lparr>sc_commands = 0, sc_overflows = 0\<rparr>\<rparr>"

text \<open>The data frames of a read: a KISS port and the raw bytes each.\<close>

definition cs_push :: "byte list \<Rightarrow> client_stream \<Rightarrow> (nat \<times> byte list) list \<times> client_stream" where
  "cs_push chunk s =
     (let (rx, raws) = kiss_push (cs_rx s) chunk;
          ks = map kiss_strip_crc raws;
          data = filter (\<lambda>k. kf_command k = 0) ks;
          commands = filter (\<lambda>k. kf_command k \<noteq> 0) ks;
          c = cs_counts s
      in (map (\<lambda>k. (kf_port k, kf_frame k)) data,
          \<lparr>cs_rx = rx, cs_counts = \<lparr>sc_commands = sc_commands c + length commands,
             sc_overflows = sc_overflows c + (kd_overflows rx - kd_overflows (cs_rx s))\<rparr>\<rparr>))"

definition kiss_data_frame :: "byte list \<Rightarrow> int option \<Rightarrow> byte list option" where
  "kiss_data_frame frame port = kiss_wrap frame port"

section \<open>The address field\<close>

record frame_addresses =
  fa_dst :: string
  fa_src :: string
  fa_digis :: "string list"

text \<open>\<open>/^[A-Z0-9]{1,6}$/\<close>.\<close>

definition call_char :: "char \<Rightarrow> bool" where
  "call_char c = (is_digit c \<or> (65 \<le> char_code c \<and> char_code c \<le> 90))"

definition valid_call :: "string \<Rightarrow> bool" where
  "valid_call s = (1 \<le> length s \<and> length s \<le> 6 \<and> list_all call_char s)"

text \<open>The loop: at most the given number of addresses, with the bytes after the last one.\<close>

fun address_field :: "nat \<Rightarrow> byte list \<Rightarrow> (string list \<times> byte list) option" where
  "address_field 0 bs = None"
| "address_field (Suc n) bs =
     (if length bs < 7 then None
      else if list_ex (\<lambda>b. b AND 1 \<noteq> 0) (take 6 bs) then None
      else let a = decode_address bs
           in if \<not> valid_call (addr_call (da_addr a)) then None
              else if da_last a then Some ([addr_str (da_addr a)], drop 7 bs)
              else case address_field n (drop 7 bs) of
                     None \<Rightarrow> None
                   | Some (calls, rest) \<Rightarrow> Some (addr_str (da_addr a) # calls, rest))"

definition frame_addresses_of :: "byte list \<Rightarrow> frame_addresses option" where
  "frame_addresses_of bytes =
     (case address_field 10 bytes of
        Some (dst # src # digis, r # rest) \<Rightarrow> Some \<lparr>fa_dst = dst, fa_src = src, fa_digis = digis\<rparr>
      | _ \<Rightarrow> None)"

section \<open>The server\<close>

datatype tx_refusal = Tx_Off | No_Port | Invalid_Frame | Not_Listed | Gate | Dropped drop_reason

record kiss_server_opts =
  so_map :: "port_map_entry list"
  so_max_clients :: nat
  so_tx :: bool
  so_tx_calls :: "string list"
  so_arbiter :: arbiter_opts

record client_counts =
  cc_stream :: stream_counts
  cc_refused :: "(tx_refusal, nat) jsmap"
  cc_queued :: nat

definition zero_counts :: client_counts where
  "zero_counts = \<lparr>cc_stream = \<lparr>sc_commands = 0, sc_overflows = 0\<rparr>, cc_refused = [], cc_queued = 0\<rparr>"

record 'c kiss_server =
  ks_tx :: bool
  ks_calls :: "string list"
  ks_clients :: "'c kiss_clients"
  ks_arbiter :: "'c arbiter"
  ks_streams :: "('c, client_stream) jsmap"
  ks_counts :: "('c, client_counts) jsmap"

definition new_kiss_server :: "kiss_server_opts \<Rightarrow> 'c kiss_server" where
  "new_kiss_server opts =
     \<lparr>ks_tx = so_tx opts, ks_calls = filter (\<lambda>c. c \<noteq> []) (map base_call (so_tx_calls opts)),
      ks_clients = new_clients (so_map opts) (so_max_clients opts), ks_arbiter = new_arbiter (so_arbiter opts),
      ks_streams = [], ks_counts = []\<rparr>"

definition ks_connect :: "'c \<Rightarrow> nat option \<Rightarrow> 'c kiss_server \<Rightarrow> bool \<times> 'c kiss_server" where
  "ks_connect conn only k =
     (let (added, clients) = kc_add conn only (ks_clients k)
      in if \<not> added then (False, k)
         else (True, k\<lparr>ks_clients := clients, ks_streams := jm_set conn new_client_stream (ks_streams k),
                       ks_counts := jm_set conn zero_counts (ks_counts k)\<rparr>))"

definition ks_read :: "'c \<Rightarrow> 'c kiss_server \<Rightarrow> client_counts" where
  "ks_read conn k =
     (let c = get_or zero_counts (ks_counts k) conn;
          stale = get_or 0 (dropped conn (ks_arbiter k)) Stale
      in c\<lparr>cc_stream := (case jm_get (ks_streams k) conn of None \<Rightarrow> cc_stream c | Some s \<Rightarrow> cs_counts s),
           cc_refused := (if stale \<noteq> 0 then jm_set (Dropped Stale) stale (cc_refused c) else cc_refused c)\<rparr>)"

definition ks_disconnect :: "'c \<Rightarrow> 'c kiss_server \<Rightarrow> client_counts \<times> 'c kiss_server" where
  "ks_disconnect conn k =
     (ks_read conn k,
      k\<lparr>ks_clients := kc_remove conn (ks_clients k), ks_arbiter := ar_remove conn (ks_arbiter k),
        ks_streams := jm_delete conn (ks_streams k), ks_counts := jm_delete conn (ks_counts k)\<rparr>)"

definition ks_heard :: "string \<Rightarrow> byte list \<Rightarrow> 'c kiss_server \<Rightarrow> ('c \<times> byte list) list option" where
  "ks_heard radio frame k = kc_heard radio frame (ks_clients k)"

definition ks_refuse :: "'c \<Rightarrow> tx_refusal \<Rightarrow> 'c kiss_server \<Rightarrow> 'c kiss_server" where
  "ks_refuse conn why k =
     (case jm_get (ks_counts k) conn of
        None \<Rightarrow> k
      | Some c \<Rightarrow> k\<lparr>ks_counts := jm_set conn (c\<lparr>cc_refused := jm_set why (get_or 0 (cc_refused c) why + 1) (cc_refused c)\<rparr>) (ks_counts k)\<rparr>)"

definition ks_gate_refused :: "'c \<Rightarrow> 'c kiss_server \<Rightarrow> 'c kiss_server" where
  "ks_gate_refused conn k = ks_refuse conn Gate k"

text \<open>
  One data frame of a read. The result is the radio port that has a new frame, if any;
  \<^const>\<open>None\<close> outside is the \<open>TypeError\<close> of a client without counts.
\<close>

definition ks_frame :: "int \<Rightarrow> 'c \<Rightarrow> nat \<times> byte list \<Rightarrow> 'c kiss_server \<Rightarrow> (string option \<times> 'c kiss_server) option" where
  "ks_frame now conn f k =
     (if \<not> ks_tx k then Some (None, ks_refuse conn Tx_Off k)
      else case radio_for conn (fst f) (ks_clients k) of
        None \<Rightarrow> Some (None, ks_refuse conn No_Port k)
      | Some radio \<Rightarrow>
          if radio = [] then Some (None, ks_refuse conn No_Port k)
          else case frame_addresses_of (snd f) of
            None \<Rightarrow> Some (None, ks_refuse conn Invalid_Frame k)
          | Some addrs \<Rightarrow>
              if base_call (fa_src addrs) \<notin> set (ks_calls k) then Some (None, ks_refuse conn Not_Listed k)
              else let (r, a) = offer now conn radio (snd f) (ks_arbiter k);
                       k = k\<lparr>ks_arbiter := a\<rparr>;
                       k = (case of_dropped r of None \<Rightarrow> k | Some why \<Rightarrow> ks_refuse conn (Dropped why) k)
                   in if of_queued r
                      then case jm_get (ks_counts k) conn of
                             None \<Rightarrow> None
                           | Some c \<Rightarrow> Some (Some radio, k\<lparr>ks_counts := jm_set conn (c\<lparr>cc_queued := cc_queued c + 1\<rparr>) (ks_counts k)\<rparr>)
                      else Some (None, k))"

fun ks_frames :: "int \<Rightarrow> 'c \<Rightarrow> (nat \<times> byte list) list \<Rightarrow> string list \<Rightarrow> 'c kiss_server \<Rightarrow> (string list \<times> 'c kiss_server) option" where
  "ks_frames now conn [] found k = Some (found, k)"
| "ks_frames now conn (f # fs) found k =
     (case ks_frame now conn f k of
        None \<Rightarrow> None
      | Some (p, k') \<Rightarrow>
          ks_frames now conn fs (case p of None \<Rightarrow> found | Some radio \<Rightarrow> if radio \<in> set found then found else found @ [radio]) k')"

definition ks_receive :: "int \<Rightarrow> 'c \<Rightarrow> byte list \<Rightarrow> 'c kiss_server \<Rightarrow> (string list \<times> 'c kiss_server) option" where
  "ks_receive now conn chunk k =
     (case jm_get (ks_streams k) conn of
        None \<Rightarrow> Some ([], k)
      | Some s \<Rightarrow> let (fs, s') = cs_push chunk s
                  in ks_frames now conn fs [] (k\<lparr>ks_streams := jm_set conn s' (ks_streams k)\<rparr>))"

datatype 'c tx_turn = Tx_Turn 'c "byte list" string | Tx_Idle | Tx_Throws

definition ks_next :: "int \<Rightarrow> string \<Rightarrow> 'c kiss_server \<Rightarrow> 'c tx_turn \<times> 'c kiss_server" where
  "ks_next now radio k =
     (let (t, a) = next_turn now radio (ks_arbiter k)
      in ((case t of
             No_Turn \<Rightarrow> Tx_Idle
           | Turn_Throws \<Rightarrow> Tx_Throws
           | Turn c f \<Rightarrow> (case frame_addresses_of f of
                           None \<Rightarrow> Tx_Throws
                         | Some addrs \<Rightarrow> Tx_Turn c f (base_call (fa_src addrs)))),
          k\<lparr>ks_arbiter := a\<rparr>))"

definition ks_waiting :: "'c kiss_server \<Rightarrow> string list" where
  "ks_waiting k = ports (ks_arbiter k)"

section \<open>What waits in the arbiter\<close>

definition queues_all :: "('c \<Rightarrow> byte list \<Rightarrow> bool) \<Rightarrow> 'c rotation \<Rightarrow> bool" where
  "queues_all P r = (\<forall>(c, q)\<in>set (ro_queues r). \<forall>x\<in>set q. P c (qd_frame x))"

definition waits :: "('c \<Rightarrow> byte list \<Rightarrow> bool) \<Rightarrow> 'c arbiter \<Rightarrow> bool" where
  "waits P a = (\<forall>(p, r)\<in>set (ar_rotations a). queues_all P r)"

lemma queues_all_mono: "queues_all P r \<Longrightarrow> (\<And>c f. P c f \<Longrightarrow> Q c f) \<Longrightarrow> queues_all Q r"
  unfolding queues_all_def by blast

lemma queues_all_get: "queues_all P r \<Longrightarrow> jm_get (ro_queues r) c = Some q \<Longrightarrow> x \<in> set q \<Longrightarrow> P c (qd_frame x)"
  using jm_get_Some_in [of "ro_queues r" c q] unfolding queues_all_def by blast

lemma queues_all_set:
  assumes "queues_all P r" "\<And>x. x \<in> set q \<Longrightarrow> P c (qd_frame x)" "ro_queues r' = jm_set c q (ro_queues r)"
  shows "queues_all P r'"
proof -
  have "P d (qd_frame x)" if "(d, q') \<in> set (ro_queues r')" "x \<in> set q'" for d q' x
    using set_jm_set_cases [OF that(1) [unfolded assms(3)]] that(2) assms(1,2) by (auto simp: queues_all_def)
  then show ?thesis by (auto simp: queues_all_def)
qed

lemma queues_all_delete:
  "queues_all P r \<Longrightarrow> ro_queues r' = jm_delete c (ro_queues r) \<Longrightarrow> queues_all P r'"
  using set_jm_delete_subset [of c "ro_queues r"] unfolding queues_all_def by auto

lemma take_turn_all:
  assumes "queues_all P r" "take_turn r = Some (c, item, r')"
  shows "P c (qd_frame item) \<and> queues_all P r'"
proof -
  obtain q where g: "jm_get (ro_queues r) c = Some (item # q)"
    "ro_queues r' = (if q \<noteq> [] then jm_set c q (ro_queues r) else jm_delete c (ro_queues r))"
    using assms(2) by (auto simp: take_turn_def Let_def split: if_splits option.splits list.splits)
  have "queues_all P r'"
  proof (cases "q = []")
    case True
    then show ?thesis using g(2) assms(1) by (intro queues_all_delete [of P r r' c]) auto
  next
    case False
    then show ?thesis using g queues_all_get [OF assms(1) g(1)]
      by (intro queues_all_set [OF assms(1), of q c r']) auto
  qed
  then show ?thesis using queues_all_get [OF assms(1) g(1)] by simp
qed

lemma next_loop_all:
  "queues_all P r \<Longrightarrow> queues_all P (fst (snd (next_loop now r a)))
    \<and> (\<forall>c f. fst (next_loop now r a) = Turn c f \<longrightarrow> P c f)"
proof (induction now r a rule: next_loop.induct)
  case (1 now r a)
  show ?case
  proof (cases "ro_ring r = [] \<or> take_turn r = None")
    case True
    then show ?thesis using "1.prems" by (auto simp: next_loop.simps [of now r a])
  next
    case False
    then obtain c item r' where t: "ro_ring r \<noteq> []" "take_turn r = Some (c, item, r')" by (cases "take_turn r") auto
    have p: "P c (qd_frame item)" "queues_all P r'" using take_turn_all [OF "1.prems" t(2)] by simp_all
    show ?thesis using t p "1.IH" [OF t(1,2) refl refl] by (simp add: next_loop.simps [of now r a])
  qed
qed

lemma enqueue_all:
  assumes "queues_all P r" "P c (qd_frame item)"
  shows "queues_all P (snd (enqueue m c item r))"
proof -
  obtain r1 where r1: "r1 = (case jm_get (ro_queues r) c of
      None \<Rightarrow> r\<lparr>ro_queues := jm_set c [] (ro_queues r), ro_ring := ro_ring r @ [c]\<rparr> | Some _ \<Rightarrow> r)" by blast
  have q1: "queues_all P r1"
    using assms(1) queues_all_set [OF assms(1), of "[]" c r1] r1 by (auto split: option.splits)
  obtain q where q: "q = get_or [] (ro_queues r1) c @ [item]" by blast
  have "P c (qd_frame x)" if "x \<in> set q" for x
    using that assms(2) q queues_all_get [OF q1, of c] by (auto simp: get_or_def split: option.splits)
  then have "P c (qd_frame x)" if "x \<in> set (if length q > m then tl q else q)" for x
    using that by (auto split: if_splits dest: list.set_sel(2) [rotated])
  then show ?thesis
    by (intro queues_all_set [OF q1]) (auto simp: enqueue_def Let_def r1 q split: if_splits)
qed

lemma remove_all:
  assumes "queues_all P r" "rotation_ok m r"
  shows "queues_all (\<lambda>d f. P d f \<and> d \<noteq> c) (remove_from_rotation c r)"
proof -
  have sub: "set (ro_queues (remove_from_rotation c r)) \<subseteq> set (ro_queues r)"
    using set_jm_delete_subset [of c "ro_queues r"] by (auto simp: remove_from_rotation_def Let_def split: option.split)
  have "set (ro_ring (remove_from_rotation c r)) = fst ` set (ro_queues (remove_from_rotation c r))"
      "c \<notin> set (ro_ring (remove_from_rotation c r))"
    using remove_ok [OF assms(2), of c] unfolding rotation_ok_def set_map by blast+
  then have "c \<notin> fst ` set (ro_queues (remove_from_rotation c r))" by simp
  then have "c \<noteq> d" if "(d, q) \<in> set (ro_queues (remove_from_rotation c r))" for d q using that by force
  then show ?thesis using sub assms(1) unfolding queues_all_def by fast
qed

lemma waits_get: "waits P a \<Longrightarrow> jm_get (ar_rotations a) p = Some r \<Longrightarrow> queues_all P r"
  using jm_get_Some_in [of "ar_rotations a" p r] unfolding waits_def by blast

lemma waits_set:
  assumes "waits P a" "queues_all P r" "ar_rotations b = jm_set p r (ar_rotations a)"
  shows "waits P b"
proof -
  have "queues_all P x" if "(q, x) \<in> set (ar_rotations b)" for q x
    using set_jm_set_cases [OF that [unfolded assms(3)]] assms(1,2) by (auto simp: waits_def)
  then show ?thesis by (auto simp: waits_def)
qed

lemma waits_cong: "ar_rotations b = ar_rotations a \<Longrightarrow> waits P b = waits P a"
  by (simp add: waits_def)

lemma offer_waits:
  assumes "waits P a" "P c frame"
  shows "waits P (snd (offer now c port frame a))"
proof -
  let ?r = "get_or new_rotation (ar_rotations a) port"
  have r: "queues_all P ?r"
    using waits_get [OF assms(1)] by (auto simp: get_or_def queues_all_def new_rotation_def split: option.split)
  let ?e = "enqueue (ao_max_queue (ar_o a)) c \<lparr>qd_frame = frame, qd_at = now\<rparr> ?r"
  have e: "queues_all P (snd ?e)" by (rule enqueue_all [OF r]) (simp add: assms(2))
  have "ar_rotations (snd (offer now c port frame a)) = ar_rotations a
    \<or> ar_rotations (snd (offer now c port frame a)) = jm_set port (snd ?e) (ar_rotations a)"
    by (simp add: offer_def Let_def split_beta)
  then show ?thesis using waits_set [OF assms(1) e] waits_cong [of _ a P] assms(1) by blast
qed

lemma next_turn_waits:
  assumes "waits P a"
  shows "waits P (snd (next_turn now port a)) \<and> (\<forall>c f. fst (next_turn now port a) = Turn c f \<longrightarrow> P c f)"
proof (cases "jm_get (ar_rotations a) port")
  case None
  then show ?thesis using assms by (simp add: next_turn_def)
next
  case (Some r)
  have l: "queues_all P (fst (snd (next_loop now r a)))" "\<forall>c f. fst (next_loop now r a) = Turn c f \<longrightarrow> P c f"
    using next_loop_all [OF waits_get [OF assms Some]] by blast+
  have "waits P (snd (next_turn now port a))"
  proof (rule waits_set [OF assms l(1)])
    have "ar_rotations (snd (snd (next_loop now r a'))) = ar_rotations a'" for a'
    proof (induction now r a' rule: next_loop.induct)
      case (1 now r a)
      then show ?case by (cases "ro_ring r = []"; cases "take_turn r") (auto simp: next_loop.simps [of now r a])
    qed
    then show "ar_rotations (snd (next_turn now port a)) = jm_set port (fst (snd (next_loop now r a))) (ar_rotations a)"
      using Some by (simp add: next_turn_def split_beta Let_def)
  qed
  then show ?thesis using Some l(2) by (simp add: next_turn_def split_beta Let_def)
qed

lemma ar_remove_waits:
  assumes "waits P a" "arbiter_ok a"
  shows "waits (\<lambda>d f. P d f \<and> d \<noteq> c) (ar_remove c a)"
  using assms remove_all [of P _ "ao_max_queue (ar_o a)" c]
  by (fastforce simp: waits_def ar_remove_def arbiter_ok_def)

section \<open>Runs of the server\<close>

text \<open>A run is \<^const>\<open>None\<close> from an exception on.\<close>

datatype 'c server_op =
  Ks_Connect 'c "nat option" | Ks_Disconnect 'c | Ks_Receive 'c "byte list" | Ks_Next string | Ks_Gate 'c

fun server_step :: "'c kiss_server option \<Rightarrow> int \<times> 'c server_op \<Rightarrow> 'c kiss_server option" where
  "server_step None _ = None"
| "server_step (Some k) (now, Ks_Connect c only) = Some (snd (ks_connect c only k))"
| "server_step (Some k) (now, Ks_Disconnect c) = Some (snd (ks_disconnect c k))"
| "server_step (Some k) (now, Ks_Receive c chunk) = map_option snd (ks_receive now c chunk k)"
| "server_step (Some k) (now, Ks_Next radio) =
     (let (t, k') = ks_next now radio k in if t = Tx_Throws then None else Some k')"
| "server_step (Some k) (now, Ks_Gate c) = Some (ks_gate_refused c k)"

definition connected :: "'c kiss_server \<Rightarrow> 'c set" where
  "connected k = fst ` set (ks_streams k)"

text \<open>A frame the server may have queued: from a client that is there, under a listed call.\<close>

definition may_send :: "'c set \<Rightarrow> bool \<Rightarrow> string list \<Rightarrow> 'c \<Rightarrow> byte list \<Rightarrow> bool" where
  "may_send there tx calls c f = (c \<in> there \<and> tx
     \<and> (\<exists>a. frame_addresses_of f = Some a \<and> base_call (fa_src a) \<in> set calls))"

definition server_ok :: "bool \<Rightarrow> string list \<Rightarrow> 'c kiss_server \<Rightarrow> bool" where
  "server_ok tx calls k = (ks_tx k = tx \<and> ks_calls k = calls \<and> arbiter_ok (ks_arbiter k)
     \<and> fst ` set (ks_counts k) = connected k
     \<and> waits (may_send (connected k) tx calls) (ks_arbiter k))"

lemma ks_refuse_fields [simp]:
  "ks_tx (ks_refuse c w k) = ks_tx k" "ks_calls (ks_refuse c w k) = ks_calls k"
  "ks_arbiter (ks_refuse c w k) = ks_arbiter k" "connected (ks_refuse c w k) = connected k"
  "ks_clients (ks_refuse c w k) = ks_clients k"
  by (simp_all add: ks_refuse_def connected_def split: option.split)

lemma ks_refuse_counts [simp]: "fst ` set (ks_counts (ks_refuse c w k)) = fst ` set (ks_counts k)"
  by (auto simp: ks_refuse_def insert_absorb split: option.split dest!: jm_get_Some_in) force

lemma ks_refuse_ok [inv_intros]: "server_ok tx calls k \<Longrightarrow> server_ok tx calls (ks_refuse c w k)"
  by (simp add: server_ok_def)

lemma waits_mono: "waits P a \<Longrightarrow> (\<And>c f. P c f \<Longrightarrow> Q c f) \<Longrightarrow> waits Q a"
  unfolding waits_def using queues_all_mono [of P _ Q] by blast

lemma ks_frame_ok:
  assumes "server_ok tx calls k" "c \<in> connected k"
  shows "\<exists>p k'. ks_frame now c f k = Some (p, k') \<and> server_ok tx calls k' \<and> connected k' = connected k"
proof -
  note ok = assms(1) [unfolded server_ok_def]
  consider "\<not> ks_tx k" | "radio_for c (fst f) (ks_clients k) = None" | "radio_for c (fst f) (ks_clients k) = Some []"
    | "frame_addresses_of (snd f) = None"
    | a where "frame_addresses_of (snd f) = Some a" "base_call (fa_src a) \<notin> set (ks_calls k)"
    | radio a where "ks_tx k" "radio_for c (fst f) (ks_clients k) = Some radio" "radio \<noteq> []"
        "frame_addresses_of (snd f) = Some a" "base_call (fa_src a) \<in> set (ks_calls k)"
    by (cases "radio_for c (fst f) (ks_clients k)"; cases "frame_addresses_of (snd f)") auto
  then show ?thesis
  proof cases
    case (6 radio a)
    let ?o = "offer now c radio (snd f) (ks_arbiter k)"
    let ?k1 = "k\<lparr>ks_arbiter := snd ?o\<rparr>"
    let ?k2 = "case of_dropped (fst ?o) of None \<Rightarrow> ?k1 | Some why \<Rightarrow> ks_refuse c (Dropped why) ?k1"
    have "may_send (connected k) tx calls c (snd f)" using 6 ok assms(2) by (auto simp: may_send_def)
    then have "waits (may_send (connected k) tx calls) (snd ?o)" using ok by (intro offer_waits) simp_all
    then have k1: "server_ok tx calls ?k1" using ok by (simp add: server_ok_def connected_def offer_ok)
    then have k2: "server_ok tx calls ?k2" "connected ?k2 = connected k"
      by (auto simp: ks_refuse_ok connected_def [of ?k1] connected_def [of k] split: option.split)
    have e: "ks_frame now c f k = (if of_queued (fst ?o)
        then case jm_get (ks_counts ?k2) c of None \<Rightarrow> None
             | Some x \<Rightarrow> Some (Some radio, ?k2\<lparr>ks_counts := jm_set c (x\<lparr>cc_queued := cc_queued x + 1\<rparr>) (ks_counts ?k2)\<rparr>)
        else Some (None, ?k2))"
      using 6 by (simp add: ks_frame_def split_beta Let_def)
    have "c \<in> fst ` set (ks_counts ?k2)" using k2 assms(2) by (simp add: server_ok_def)
    then obtain x where x: "jm_get (ks_counts ?k2) c = Some x" using jm_get_None_iff [of "ks_counts ?k2" c] by (cases "jm_get (ks_counts ?k2) c") auto
    have "server_ok tx calls (?k2\<lparr>ks_counts := jm_set c y (ks_counts ?k2)\<rparr>)" for y
      using k2 assms(2) by (auto simp: server_ok_def connected_def insert_absorb)
    moreover have "connected (?k2\<lparr>ks_counts := z\<rparr>) = connected k" for z using k2(2) by (simp add: connected_def)
    ultimately show ?thesis unfolding e x using k2 by auto
  qed (use assms in \<open>auto simp: ks_frame_def ks_refuse_ok split: option.split\<close>)
qed

lemma ks_frames_ok:
  "server_ok tx calls k \<Longrightarrow> c \<in> connected k \<Longrightarrow>
   \<exists>ps k'. ks_frames now c fs found k = Some (ps, k') \<and> server_ok tx calls k' \<and> connected k' = connected k"
proof (induction fs arbitrary: found k)
  case (Cons f fs)
  obtain p k1 where s: "ks_frame now c f k = Some (p, k1)" "server_ok tx calls k1" "connected k1 = connected k"
    using ks_frame_ok [OF Cons.prems] by blast
  from Cons.IH [OF s(2), of "case p of None \<Rightarrow> found | Some radio \<Rightarrow> if radio \<in> set found then found else found @ [radio]"]
  show ?case using s Cons.prems(2) by auto
qed simp

lemma ks_receive_ok:
  assumes "server_ok tx calls k"
  shows "\<exists>ps k'. ks_receive now c chunk k = Some (ps, k') \<and> server_ok tx calls k'"
proof (cases "jm_get (ks_streams k) c")
  case None
  then show ?thesis using assms by (simp add: ks_receive_def)
next
  case (Some s)
  let ?k = "k\<lparr>ks_streams := jm_set c (snd (cs_push chunk s)) (ks_streams k)\<rparr>"
  have c: "c \<in> connected k" using jm_get_Some_in [OF Some] by (force simp: connected_def)
  then have k: "connected ?k = connected k" by (auto simp: connected_def)
  have "server_ok tx calls ?k" using assms k by (simp add: server_ok_def)
  from ks_frames_ok [OF this, of c now "fst (cs_push chunk s)" "[]"] c k
  show ?thesis using Some by (auto simp: ks_receive_def split_beta Let_def)
qed

lemma ks_next_ok:
  assumes "server_ok tx calls k"
  shows "fst (ks_next now radio k) \<noteq> Tx_Throws \<and> server_ok tx calls (snd (ks_next now radio k))
    \<and> (\<forall>c f call. fst (ks_next now radio k) = Tx_Turn c f call \<longrightarrow> c \<in> connected k \<and> tx
        \<and> (\<exists>a. frame_addresses_of f = Some a \<and> call = base_call (fa_src a) \<and> call \<in> set calls))"
proof -
  let ?n = "next_turn now radio (ks_arbiter k)"
  have ok: "arbiter_ok (ks_arbiter k)" "waits (may_send (connected k) tx calls) (ks_arbiter k)"
    using assms by (simp_all add: server_ok_def)
  from next_turn_waits [OF ok(2)]
  have w: "waits (may_send (connected k) tx calls) (snd ?n)"
    and t: "\<And>c f. fst ?n = Turn c f \<Longrightarrow> may_send (connected k) tx calls c f" by blast+
  from next_turn_ok [OF ok(1)] have a: "arbiter_ok (snd ?n)" "fst ?n \<noteq> Turn_Throws" by blast+
  have "server_ok tx calls (k\<lparr>ks_arbiter := snd ?n\<rparr>)"
    using assms w a(1) by (simp add: server_ok_def connected_def)
  moreover have "snd (ks_next now radio k) = k\<lparr>ks_arbiter := snd ?n\<rparr>" by (simp add: ks_next_def split_beta Let_def)
  moreover have "fst (ks_next now radio k) = (case fst ?n of No_Turn \<Rightarrow> Tx_Idle | Turn_Throws \<Rightarrow> Tx_Throws
      | Turn c f \<Rightarrow> (case frame_addresses_of f of None \<Rightarrow> Tx_Throws | Some addrs \<Rightarrow> Tx_Turn c f (base_call (fa_src addrs))))"
    by (simp add: ks_next_def split_beta Let_def)
  ultimately show ?thesis using a(2) t by (cases "fst ?n") (fastforce simp: may_send_def)+
qed

lemma server_step_ok:
  assumes "\<exists>k. s = Some k \<and> server_ok tx calls k"
  shows "\<exists>k. server_step s e = Some k \<and> server_ok tx calls k"
proof -
  obtain k where k: "s = Some k" "server_ok tx calls k" using assms by blast
  note ok = k(2) [unfolded server_ok_def]
  obtain now op where e: "e = (now, op)" by (cases e)
  show ?thesis
  proof (cases op)
    case (Ks_Connect c only)
    have m: "waits (may_send (insert c (connected k)) tx calls) (ks_arbiter k)"
      using ok by (auto intro: waits_mono [of "may_send (connected k) tx calls"] simp: may_send_def)
    show ?thesis using k ok m Ks_Connect e
      by (auto simp: ks_connect_def split_beta Let_def server_ok_def connected_def)
  next
    case (Ks_Disconnect c)
    have "waits (\<lambda>d f. may_send (connected k) tx calls d f \<and> d \<noteq> c) (ar_remove c (ks_arbiter k))"
      using ok by (intro ar_remove_waits) simp_all
    then have "waits (may_send (connected k - {c}) tx calls) (ar_remove c (ks_arbiter k))"
      by (rule waits_mono) (auto simp: may_send_def)
    then show ?thesis using k ok Ks_Disconnect e
      by (auto simp: ks_disconnect_def server_ok_def connected_def ar_remove_ok)
  next
    case (Ks_Receive c chunk)
    then show ?thesis using ks_receive_ok [OF k(2), of now c chunk] k e by auto
  next
    case (Ks_Next radio)
    then show ?thesis using ks_next_ok [OF k(2), of now radio] k e by (auto simp: split_beta Let_def)
  next
    case (Ks_Gate c)
    then show ?thesis using k e by (simp add: ks_gate_refused_def ks_refuse_ok)
  qed
qed

interpretation server: invariant_machine server_step "\<lambda>s. \<exists>k. s = Some k \<and> server_ok tx calls k" "\<lambda>_ _. True"
  by unfold_locales (rule server_step_ok)

lemma new_kiss_server_ok:
  "1 \<le> ao_max_queue (so_arbiter opts) \<Longrightarrow>
   server_ok (so_tx opts) (filter (\<lambda>c. c \<noteq> []) (map base_call (so_tx_calls opts))) (new_kiss_server opts)"
  by (simp add: server_ok_def new_kiss_server_def connected_def waits_def arbiter_ok_def new_arbiter_def)

section \<open>Properties\<close>

text \<open>C4: Whatever the clients send and whenever they come and go, the server never throws and a
  turn is given only with transmit on, to a client that is connected, for a frame with a
  valid address field whose source's base call is one the policy lists; the base call the
  station's gate judges is that call.\<close>

theorem server_sends_listed_calls_only:
  fixes ops :: "(int \<times> 'c server_op) list"
  assumes "1 \<le> ao_max_queue (so_arbiter opts)"
  shows "\<exists>k. server.run (Some (new_kiss_server opts)) ops = Some k
    \<and> fst (ks_next now radio k) \<noteq> Tx_Throws
    \<and> (\<forall>c f call. fst (ks_next now radio k) = Tx_Turn c f call \<longrightarrow>
         so_tx opts \<and> c \<in> connected k
         \<and> (\<exists>a. frame_addresses_of f = Some a \<and> call = base_call (fa_src a) \<and> call \<in> base_call ` set (so_tx_calls opts)))"
proof -
  let ?calls = "filter (\<lambda>c. c \<noteq> []) (map base_call (so_tx_calls opts))"
  have "server.legal_run s ops" for s :: "'c kiss_server option" by (induction ops arbitrary: s) simp_all
  with new_kiss_server_ok [OF assms]
  have "\<exists>k. server.run (Some (new_kiss_server opts :: 'c kiss_server)) ops = Some k \<and> server_ok (so_tx opts) ?calls k"
    by (intro server.run_inv) auto
  then obtain k where k: "server.run (Some (new_kiss_server opts :: 'c kiss_server)) ops = Some k" "server_ok (so_tx opts) ?calls k"
    by blast
  show ?thesis using k(1) ks_next_ok [OF k(2), of now radio] by fastforce
qed

definition demo_server_opts :: kiss_server_opts where
  "demo_server_opts = \<lparr>so_map = [\<lparr>pm_kiss = 0, pm_radio = ''vhf''\<rparr>], so_max_clients = 2, so_tx = True,
     so_tx_calls = [''N0CALL-7''], so_arbiter = ARBITER_DEFAULTS\<rparr>"

theorem server_sends_listed_calls_only_witness:
  "\<exists>k. server.run (Some (new_kiss_server demo_server_opts)) [(0, Ks_Connect (0 :: nat) None), (1, Ks_Receive 0 [0xc0, 0, 1, 0xc0])] = Some k
     \<and> fst (ks_next 2 ''vhf'' k) \<noteq> Tx_Throws"
proof -
  have "1 \<le> ao_max_queue (so_arbiter demo_server_opts)" by (simp add: demo_server_opts_def ARBITER_DEFAULTS_def)
  from server_sends_listed_calls_only [OF this, where now = 2 and radio = "''vhf''"
      and ops = "[(0, Ks_Connect (0 :: nat) None), (1, Ks_Receive 0 [0xc0, 0, 1, 0xc0])]"]
  show ?thesis by blast
qed

end
