(* ===== verification/Netrom_Wire.thy ===== *)
theory Netrom_Wire
  imports Ax25_Frame
begin

text \<open>
  The NET/ROM wire formats: \<open>packages/packet/src/netrom-wire.ts\<close>. Header fields are naturals;
  the encoder keeps their low octet, as \<open>& 0xff\<close> does.
\<close>

section \<open>Inter-node packets\<close>

definition NETROM_PID :: byte where "NETROM_PID = 0xcf"

definition Op_ConnReq :: nat where "Op_ConnReq = 1"
definition Op_ConnAck :: nat where "Op_ConnAck = 2"
definition Op_DiscReq :: nat where "Op_DiscReq = 3"
definition Op_DiscAck :: nat where "Op_DiscAck = 4"
definition Op_Info :: nat where "Op_Info = 5"
definition Op_InfoAck :: nat where "Op_InfoAck = 6"

lemmas nr_ops = Op_ConnReq_def Op_ConnAck_def Op_DiscReq_def Op_DiscAck_def Op_Info_def Op_InfoAck_def

definition NR_CHOKE :: byte where "NR_CHOKE = 0x80"
definition NR_NAK :: byte where "NR_NAK = 0x40"
definition NR_MORE :: byte where "NR_MORE = 0x20"

record nr_net =
  nn_origin :: address
  nn_dest :: address
  nn_ttl :: nat

record nr_transport =
  tp_opcode :: nat
  tp_flags :: byte
  tp_circuit_index :: nat
  tp_circuit_id :: nat
  tp_tx_seq :: nat
  tp_rx_seq :: nat

record nr_packet =
  np_net :: nr_net
  np_tp :: nr_transport
  np_info :: "byte list"

definition put_call :: "address \<Rightarrow> bool \<Rightarrow> byte list" where
  "put_call a last_addr = encode_address a False last_addr"

definition get_call :: "byte list \<Rightarrow> nat \<Rightarrow> address" where
  "get_call b off = da_addr (decode_address (drop off b))"

definition encode_netrom :: "nr_packet \<Rightarrow> byte list" where
  "encode_netrom p =
     (let tp = np_tp p
      in put_call (nn_origin (np_net p)) False @ put_call (nn_dest (np_net p)) True
         @ [byte_of (nn_ttl (np_net p)), byte_of (tp_circuit_index tp), byte_of (tp_circuit_id tp),
            byte_of (tp_tx_seq tp), byte_of (tp_rx_seq tp),
            (tp_flags tp AND 0xe0) OR (byte_of (tp_opcode tp) AND 0x0f)]
         @ np_info p)"

definition decode_netrom :: "byte list \<Rightarrow> nr_packet option" where
  "decode_netrom b =
     (if length b < 20 then None
      else let op_byte = b ! 19
           in Some \<lparr>np_net = \<lparr>nn_origin = get_call b 0, nn_dest = get_call b 7, nn_ttl = unat (b ! 14)\<rparr>,
                    np_tp = \<lparr>tp_opcode = unat (op_byte AND 0x0f), tp_flags = op_byte AND 0xe0,
                             tp_circuit_index = unat (b ! 15), tp_circuit_id = unat (b ! 16),
                             tp_tx_seq = unat (b ! 17), tp_rx_seq = unat (b ! 18)\<rparr>,
                    np_info = drop 20 b\<rparr>)"

section \<open>NODES broadcasts\<close>

record nodes_dest =
  nd_dest :: address
  nd_alias :: string
  nd_neighbor :: address
  nd_quality :: nat

definition NODES_SIG :: byte where "NODES_SIG = 0xff"
definition MAX_DESTS_PER_FRAME :: nat where "MAX_DESTS_PER_FRAME = 11"

definition alias_char :: "char \<Rightarrow> bool" where
  "alias_char c = (is_digit c \<or> (65 \<le> char_code c \<and> char_code c \<le> 90))"

definition put_alias :: "string \<Rightarrow> byte list" where
  "put_alias s = map (\<lambda>c. byte_of (char_code c)) (pad_end 6 (CHR '' '') (take 6 (filter alias_char (js_upper s))))"

text \<open>\<open>trimEnd\<close> on any octets: the no-break space is white space too.\<close>

definition js_space :: "char \<Rightarrow> bool" where
  "js_space c = (is_space c \<or> char_code c = 160)"

definition get_alias :: "byte list \<Rightarrow> nat \<Rightarrow> string" where
  "get_alias b off = trim_end_where js_space (map (\<lambda>i. from_char_code (unat (js_byte b (off + i)))) [0..<6])"

definition encode_nodes_dest :: "nodes_dest \<Rightarrow> byte list" where
  "encode_nodes_dest d =
     put_call (nd_dest d) True @ put_alias (nd_alias d) @ put_call (nd_neighbor d) True @ [byte_of (nd_quality d)]"

definition encode_nodes_frame :: "string \<Rightarrow> nodes_dest list \<Rightarrow> byte list" where
  "encode_nodes_frame sender chunk =
     NODES_SIG # put_alias sender
     @ concat (map encode_nodes_dest chunk)"

definition encode_nodes_broadcast :: "string \<Rightarrow> nodes_dest list \<Rightarrow> byte list list" where
  "encode_nodes_broadcast sender dests = map (encode_nodes_frame sender) (chunks MAX_DESTS_PER_FRAME dests)"

fun nodes_records :: "byte list \<Rightarrow> nodes_dest list" where
  "nodes_records b =
     (if length b < 21 then []
      else \<lparr>nd_dest = get_call b 0, nd_alias = get_alias b 7, nd_neighbor = get_call b 13, nd_quality = unat (b ! 20)\<rparr>
           # nodes_records (drop 21 b))"

declare nodes_records.simps [simp del]

definition decode_nodes_broadcast :: "byte list \<Rightarrow> (string \<times> nodes_dest list) option" where
  "decode_nodes_broadcast info =
     (if length info < 7 \<or> info ! 0 \<noteq> NODES_SIG then None
      else Some (get_alias info 1, nodes_records (drop 7 info)))"

definition combine_quality :: "nat \<Rightarrow> nat \<Rightarrow> nat" where
  "combine_quality broadcast path = (broadcast * path + 128) div 256"

section \<open>What the decoders read back\<close>

lemma length_put_call [simp]: "length (put_call a l) = 7"
  by (simp add: put_call_def)

lemma get_call_put [codec_simps]: "wf_address a \<Longrightarrow> get_call (put_call a l @ rest) 0 = a"
  using decode_encode_address [of a False l rest] by (simp add: get_call_def put_call_def)

lemma get_call_skip [codec_simps]: "length xs = off \<Longrightarrow> get_call (xs @ ys) off = get_call ys 0"
  by (simp add: get_call_def)

definition wf_nr_packet :: "nr_packet \<Rightarrow> bool" where
  "wf_nr_packet p = (wf_address (nn_origin (np_net p)) \<and> wf_address (nn_dest (np_net p)) \<and> nn_ttl (np_net p) < 256
     \<and> tp_opcode (np_tp p) < 16 \<and> tp_flags (np_tp p) AND 0xe0 = tp_flags (np_tp p)
     \<and> tp_circuit_index (np_tp p) < 256 \<and> tp_circuit_id (np_tp p) < 256
     \<and> tp_tx_seq (np_tp p) < 256 \<and> tp_rx_seq (np_tp p) < 256)"

lemma low_nibble: "n < 16 \<Longrightarrow> byte_of n AND 0x0f = byte_of n"
proof -
  assume n: "n < 16"
  have "(0x0f :: byte) = mask 4" by (simp add: mask_eq_exp_minus_1)
  then have "unat (byte_of n AND 0x0f) = unat (byte_of n)" using unat_and_mask [of "byte_of n" 4] n by simp
  then show ?thesis by (simp add: word_unat_eq_iff)
qed

lemma op_flags_byte:
  assumes "n < 16" "f AND 0xe0 = (f :: byte)"
  shows "unat ((f AND 0xe0 OR byte_of n AND 0x0f) AND 0x0f) = n"
    and "(f AND 0xe0 OR byte_of n AND 0x0f) AND 0xe0 = f"
proof -
  have z: "f AND 0x0f = 0"
  proof -
    have "f AND 0x0f = f AND (0xe0 AND 0x0f)" using assms(2) by (metis and.assoc)
    then show ?thesis by simp
  qed
  have "(f AND 0xe0 OR byte_of n AND 0x0f) AND 0x0f = byte_of n AND 0x0f"
    using z assms(2) by (simp only: bit.conj_disj_distrib2 and.assoc and.idem) simp
  then show "unat ((f AND 0xe0 OR byte_of n AND 0x0f) AND 0x0f) = n"
    using low_nibble [OF assms(1)] assms(1) by simp
  have "byte_of n AND 0x0f AND 0xe0 = (0 :: byte)" by (simp add: and.assoc)
  then show "(f AND 0xe0 OR byte_of n AND 0x0f) AND 0xe0 = f"
    using assms(2) by (simp only: bit.conj_disj_distrib2 and.assoc and.idem) simp
qed

lemma decode_encode_netrom:
  assumes "wf_nr_packet p"
  shows "decode_netrom (encode_netrom p) = Some p"
proof -
  let ?o = "put_call (nn_origin (np_net p)) False" and ?d = "put_call (nn_dest (np_net p)) True"
  have nth: "(?o @ ?d @ rest) ! (14 + i) = rest ! i" for rest :: "byte list" and i by (simp add: nth_append)
  note at = nth [of _ 0, simplified] nth [of _ 1, simplified] nth [of _ 2, simplified] nth [of _ 3, simplified]
    nth [of _ 4, simplified] nth [of _ 5, simplified]
  note w = assms [unfolded wf_nr_packet_def]
  have calls: "get_call (?o @ ?d @ rest) 0 = nn_origin (np_net p)" "get_call (?o @ ?d @ rest) 7 = nn_dest (np_net p)" for rest
    using w by (simp_all add: codec_simps)
  show ?thesis
    using w calls op_flags_byte [of "tp_opcode (np_tp p)" "tp_flags (np_tp p)"]
    by (simp add: decode_netrom_def encode_netrom_def Let_def at)
qed

interpretation netrom: codec encode_netrom decode_netrom wf_nr_packet
  by unfold_locales (rule decode_encode_netrom)

subsection \<open>Mnemonics and broadcasts\<close>

definition wf_alias :: "string \<Rightarrow> bool" where
  "wf_alias s = (length s \<le> 6 \<and> (\<forall>c\<in>set s. alias_char c))"

lemma alias_char_upper: "alias_char c \<Longrightarrow> upper_char c = c"
  by (auto simp: alias_char_def upper_char_def is_digit_def)

lemma alias_char_space: "alias_char c \<Longrightarrow> \<not> js_space c"
  by (auto simp: alias_char_def js_space_def is_space_def is_digit_def)

lemma length_put_alias [simp]: "length (put_alias s) = 6"
  by (simp add: put_alias_def)

lemma put_alias_wf: "wf_alias s \<Longrightarrow> put_alias s = map (\<lambda>c. byte_of (char_code c)) (s @ replicate (6 - length s) (CHR '' ''))"
proof -
  assume w: "wf_alias s"
  then have "js_upper s = s" by (simp add: js_upper_def map_idI wf_alias_def alias_char_upper)
  moreover have "filter alias_char s = s" using w by (simp add: wf_alias_def filter_all_id)
  ultimately show ?thesis using w by (simp add: put_alias_def pad_end_def wf_alias_def)
qed

lemma get_alias_put [codec_simps]:
  assumes "wf_alias s" "length xs = off"
  shows "get_alias (xs @ put_alias s @ rest) off = s"
proof -
  let ?t = "s @ replicate (6 - length s) (CHR '' '')"
  have l: "length ?t = 6" using assms(1) by (simp add: wf_alias_def)
  have "map (\<lambda>i. from_char_code (unat (js_byte (xs @ put_alias s @ rest) (off + i)))) [0..<6]
    = map (\<lambda>i. ?t ! i) [0..<length ?t]"
    using l assms by (intro map_cong) (auto simp: put_alias_wf nth_append simp del: upt_Suc)
  then have "get_alias (xs @ put_alias s @ rest) off = trim_end_where js_space ?t"
    by (simp only: get_alias_def map_nth)
  also have "\<dots> = trim_end_where js_space s"
    by (rule trim_end_where_append_drop) (auto simp: js_space_def is_space_def char_code_def)
  also have "\<dots> = s"
    using assms(1) by (intro trim_end_where_id) (auto simp: wf_alias_def dest: alias_char_space last_in_set)
  finally show ?thesis .
qed

definition wf_nodes_dest :: "nodes_dest \<Rightarrow> bool" where
  "wf_nodes_dest d = (wf_address (nd_dest d) \<and> wf_alias (nd_alias d) \<and> wf_address (nd_neighbor d) \<and> nd_quality d < 256)"

lemma nodes_records_write [codec_simps]:
  assumes "\<forall>d\<in>set ds. wf_nodes_dest d"
  shows "nodes_records (concat (map encode_nodes_dest ds)) = ds"
  using assms
proof (induction ds)
  case (Cons d ds)
  let ?r = "put_call (nd_dest d) True @ put_alias (nd_alias d) @ put_call (nd_neighbor d) True @ [byte_of (nd_quality d)]"
  let ?rest = "concat (map encode_nodes_dest ds)"
  have w: "wf_address (nd_dest d)" "wf_alias (nd_alias d)" "wf_address (nd_neighbor d)" "nd_quality d < 256"
    using Cons.prems by (simp_all add: wf_nodes_dest_def)
  have "get_call (?r @ ?rest) 0 = nd_dest d" using w by (simp add: codec_simps)
  moreover have "get_alias (?r @ ?rest) 7 = nd_alias d"
    using get_alias_put [OF w(2), of "put_call (nd_dest d) True" 7] by simp
  moreover have "get_call (?r @ ?rest) 13 = nd_neighbor d"
    using get_call_skip [of "put_call (nd_dest d) True @ put_alias (nd_alias d)" 13] get_call_put [OF w(3)] by simp
  moreover have "unat ((?r @ ?rest) ! 20) = nd_quality d" using w(4) by (simp add: nth_append)
  moreover have "length (?r @ ?rest) \<ge> 21" "drop 21 (?r @ ?rest) = ?rest" by simp_all
  moreover have "nodes_records ?rest = ds" using Cons by simp
  ultimately have "nodes_records (?r @ ?rest) = d # ds"
    by (subst nodes_records.simps) (simp only: not_less if_False, simp)
  then show ?case by (simp add: encode_nodes_dest_def [of d])
qed (simp add: nodes_records.simps)

lemma decode_nodes_frame:
  assumes "wf_alias sender" "\<forall>d\<in>set ds. wf_nodes_dest d"
  shows "decode_nodes_broadcast (encode_nodes_frame sender ds) = Some (sender, ds)"
  using get_alias_put [OF assms(1), of "[NODES_SIG]" 1] nodes_records_write [OF assms(2)]
  by (simp add: decode_nodes_broadcast_def encode_nodes_frame_def)

lemma length_nodes_records: "length (nodes_records b) = length b div 21"
proof (induction b rule: nodes_records.induct)
  case (1 b)
  show ?case
  proof (cases "length b < 21")
    case False
    then have "length b div 21 = Suc ((length b - 21) div 21)" by (simp add: le_div_geq)
    then show ?thesis using 1 False by (subst nodes_records.simps) simp
  qed (simp add: nodes_records.simps)
qed

section \<open>Properties\<close>

text \<open>C36: A routing table of any size survives its NODES broadcast: every frame fits in 238 octets
  and names the sender, and the destinations of the frames together are the table, in order.\<close>

theorem nodes_broadcast_roundtrip:
  assumes "wf_alias sender" "\<forall>d\<in>set dests. wf_nodes_dest d"
  shows "\<exists>parts. map decode_nodes_broadcast (encode_nodes_broadcast sender dests) = map (\<lambda>ds. Some (sender, ds)) parts
    \<and> concat parts = dests \<and> (\<forall>f\<in>set (encode_nodes_broadcast sender dests). length f \<le> 238)"
proof (intro exI conjI ballI)
  let ?parts = "chunks MAX_DESTS_PER_FRAME dests"
  have "\<forall>d\<in>set ds. wf_nodes_dest d" if "ds \<in> set ?parts" for ds
  proof -
    have "set ds \<subseteq> \<Union> (set ` set ?parts)" using that by blast
    also have "\<dots> = set dests" by (simp only: set_concat [symmetric] concat_chunks)
    finally show ?thesis using assms(2) by auto
  qed
  then show "map decode_nodes_broadcast (encode_nodes_broadcast sender dests) = map (\<lambda>ds. Some (sender, ds)) ?parts"
    using decode_nodes_frame [OF assms(1)] by (simp add: encode_nodes_broadcast_def)
  show "concat ?parts = dests" by simp
  fix f assume "f \<in> set (encode_nodes_broadcast sender dests)"
  then obtain ds where ds: "ds \<in> set ?parts" "f = encode_nodes_frame sender ds" by (auto simp: encode_nodes_broadcast_def)
  have "length (concat (map encode_nodes_dest xs)) = 21 * length xs" for xs
    by (induction xs) (simp_all add: encode_nodes_dest_def)
  then show "length f \<le> 238"
    using length_in_chunks [of MAX_DESTS_PER_FRAME ds dests] ds by (simp add: encode_nodes_frame_def MAX_DESTS_PER_FRAME_def)
qed

theorem nodes_broadcast_roundtrip_witness:
  "\<exists>parts. map decode_nodes_broadcast (encode_nodes_broadcast ''HUB'' [\<lparr>nd_dest = \<lparr>addr_call = ''N0CALL'', addr_ssid = 7\<rparr>,
      nd_alias = ''TOWN'', nd_neighbor = \<lparr>addr_call = ''Q1TEST'', addr_ssid = 0\<rparr>, nd_quality = 192\<rparr>]) = map (\<lambda>ds. Some (''HUB'', ds)) parts"
proof -
  have "wf_alias ''HUB''"
    "\<forall>d\<in>set [\<lparr>nd_dest = \<lparr>addr_call = ''N0CALL'', addr_ssid = 7\<rparr>, nd_alias = ''TOWN'',
      nd_neighbor = \<lparr>addr_call = ''Q1TEST'', addr_ssid = 0\<rparr>, nd_quality = 192\<rparr>]. wf_nodes_dest d"
    by (simp_all add: wf_alias_def wf_nodes_dest_def wf_address_def alias_char_def is_digit_def char_code_def js_upper_def upper_char_def is_space_def)
  from nodes_broadcast_roundtrip [OF this] show ?thesis by blast
qed

text \<open>An inter-node packet is read back from its octets as it was written.\<close>

theorem netrom_packet_roundtrip:
  assumes "wf_nr_packet p"
  shows "decode_netrom (encode_netrom p) = Some p \<and> length (encode_netrom p) = 20 + length (np_info p)"
  using netrom.dec_enc [OF assms] by (simp add: encode_netrom_def Let_def)

definition demo_nr_packet :: nr_packet where
  "demo_nr_packet = \<lparr>np_net = \<lparr>nn_origin = \<lparr>addr_call = ''N0CALL'', addr_ssid = 7\<rparr>, nn_dest = \<lparr>addr_call = ''Q1TEST'', addr_ssid = 0\<rparr>, nn_ttl = 16\<rparr>,
     np_tp = \<lparr>tp_opcode = 5, tp_flags = NR_MORE, tp_circuit_index = 1, tp_circuit_id = 2, tp_tx_seq = 3, tp_rx_seq = 4\<rparr>,
     np_info = [1, 2, 3]\<rparr>"

theorem netrom_packet_roundtrip_witness:
  "decode_netrom (encode_netrom demo_nr_packet) = Some demo_nr_packet"
proof -
  have "wf_nr_packet demo_nr_packet"
    by (simp add: wf_nr_packet_def demo_nr_packet_def wf_address_def char_code_def js_upper_def upper_char_def is_space_def NR_MORE_def)
  from netrom_packet_roundtrip [OF this] show ?thesis by blast
qed

end
