(* ===== verification/Inp3.thy ===== *)
theory Inp3
  imports Netrom_Wire Interfaces
begin

text \<open>
  The INP3 routing wire, \<open>packages/packet/src/inp3.ts\<close>, and the routing table it feeds,
  \<open>packages/packet/src/inp3-table.ts\<close>. Text octets are ASCII; transport times are naturals,
  in units of 10 ms.
\<close>

section \<open>Routing information frames\<close>

definition INP_RIF :: byte where "INP_RIF = 0xff"
definition INP_EOP :: byte where "INP_EOP = 0x00"
definition INP_OPT_ALIAS :: byte where "INP_OPT_ALIAS = 0"
definition INP_OPT_IP :: byte where "INP_OPT_IP = 1"
definition INP_MAX_HOPS :: nat where "INP_MAX_HOPS = 30"
definition INP_TT_WITHDRAW :: nat where "INP_TT_WITHDRAW = 60000"
definition INP_TT_DIRECT :: nat where "INP_TT_DIRECT = 1"

lemmas inp_consts = INP_RIF_def INP_EOP_def INP_OPT_ALIAS_def INP_OPT_IP_def

record rip_ip =
  ip_addr :: "byte list"
  ip_bits :: nat

record rip =
  rip_dest :: address
  rip_hops :: nat
  rip_tt :: nat
  rip_alias :: "string option"
  rip_ip :: "rip_ip option"

definition is_pad :: "char \<Rightarrow> bool" where
  "is_pad c = (char_code c = 0 \<or> is_space c)"

definition pad_ascii :: "string \<Rightarrow> nat \<Rightarrow> byte list" where
  "pad_ascii s n = text_bytes (take n s) @ replicate (n - length (take n s)) 0x20"

definition encode_rip :: "rip \<Rightarrow> byte list" where
  "encode_rip r =
     encode_address (rip_dest r) False False
     @ [byte_of (rip_hops r), byte_of (rip_tt r div 256), byte_of (rip_tt r)]
     @ (case rip_alias r of
          None \<Rightarrow> []
        | Some al \<Rightarrow> if al = [] then []
                     else let a = pad_ascii al 6 in [byte_of (2 + length a), INP_OPT_ALIAS] @ a)
     @ (case rip_ip r of None \<Rightarrow> [] | Some ip \<Rightarrow> [byte_of (2 + 5), INP_OPT_IP] @ ip_addr ip @ [byte_of (ip_bits ip)])
     @ [INP_EOP]"

definition encode_rif :: "rip list \<Rightarrow> byte list" where
  "encode_rif rips = INP_RIF # concat (map encode_rip rips)"

text \<open>The options of an entry, up to the closing zero: the entry with them and the octets after it.\<close>

function rif_options :: "rip \<Rightarrow> byte list \<Rightarrow> rip \<times> byte list" where
  "rif_options r bs =
     (case bs of
        [] \<Rightarrow> (r, [])
      | l # _ \<Rightarrow>
          if l = INP_EOP then (r, tl bs)
          else let kind = (if length bs > 1 then Some (bs ! 1) else None);
                   data = sub_bytes 2 (unat l) bs;
                   r' = (if kind = Some INP_OPT_ALIAS then r\<lparr>rip_alias := Some (trim_end_where is_pad (bytes_text data))\<rparr>
                         else if kind = Some INP_OPT_IP \<and> length data \<ge> 5
                         then r\<lparr>rip_ip := Some \<lparr>ip_addr = take 4 data, ip_bits = unat (data ! 4)\<rparr>\<rparr>
                         else r)
               in rif_options r' (drop (unat l) bs))"
  by pat_completeness auto
termination
  by (relation "measure (\<lambda>(r, bs). length bs)") (auto simp: INP_EOP_def unat_gt_0 intro!: diff_less)

declare rif_options.simps [simp del]

lemma rif_options_shorter: "length (snd (rif_options r bs)) \<le> length bs"
proof (induction r bs rule: rif_options.induct)
  case (1 r bs)
  show ?case
  proof (cases bs)
    case (Cons l rest)
    let ?kind = "if length bs > 1 then Some (bs ! 1) else None" and ?data = "sub_bytes 2 (unat l) bs"
    let ?r = "if ?kind = Some INP_OPT_ALIAS then r\<lparr>rip_alias := Some (trim_end_where is_pad (bytes_text ?data))\<rparr>
        else if ?kind = Some INP_OPT_IP \<and> length ?data \<ge> 5
        then r\<lparr>rip_ip := Some \<lparr>ip_addr = take 4 ?data, ip_bits = unat (?data ! 4)\<rparr>\<rparr> else r"
    show ?thesis
    proof (cases "l = INP_EOP")
      case False
      have "rif_options r bs = rif_options ?r (drop (unat l) bs)"
        using Cons False by (subst rif_options.simps) (simp add: Let_def)
      moreover have "length (snd (rif_options ?r (drop (unat l) bs))) \<le> length (drop (unat l) bs)"
        by (rule "1.IH" [OF Cons False refl refl refl])
      ultimately show ?thesis by simp
    qed (simp add: Cons rif_options.simps)
  qed (simp add: rif_options.simps)
qed

function rif_entries :: "byte list \<Rightarrow> rip list" where
  "rif_entries bs =
     (if length bs < 10 then []
      else let r = \<lparr>rip_dest = da_addr (decode_address bs), rip_hops = unat (bs ! 7),
                    rip_tt = unat (bs ! 8) * 256 + unat (bs ! 9), rip_alias = None, rip_ip = None\<rparr>;
               (r', rest) = rif_options r (drop 10 bs)
           in r' # rif_entries rest)"
  by pat_completeness auto
termination
proof (relation "measure length", simp, goal_cases)
  case (1 bs r p r' rest)
  have "length rest \<le> length (drop 10 bs)"
    using rif_options_shorter [of r "drop 10 bs"] 1(3,4) by (metis snd_conv)
  then show ?case using 1(1) by simp
qed

declare rif_entries.simps [simp del]

definition decode_rif :: "byte list \<Rightarrow> rip list option" where
  "decode_rif info = (if length info < 1 \<or> info ! 0 \<noteq> INP_RIF then None else Some (rif_entries (drop 1 info)))"

section \<open>Round-trip probes\<close>

record l3rtt =
  l3_origin :: string
  l3_seq :: nat
  l3_alias :: string

definition L3RTT_DEST :: string where "L3RTT_DEST = ''L3RTT''"

definition encode_l3rtt :: "l3rtt \<Rightarrow> byte list" where
  "encode_l3rtt p = text_bytes (''L3RTT:'' @ nat_str (l3_seq p) @ '' '' @ l3_origin p @ '' '' @ take 6 (l3_alias p) @ '' LEVEL3_V2.1'')"

text \<open>A run of white space, at least one, and the run of other characters after it, at least one.\<close>

definition next_word :: "string \<Rightarrow> (string \<times> string) option" where
  "next_word s =
     (let rest = dropWhile is_space s; w = takeWhile (\<lambda>c. \<not> is_space c) rest
      in if s = [] \<or> \<not> is_space (hd s) \<or> w = [] then None else Some (w, dropWhile (\<lambda>c. \<not> is_space c) rest))"

definition decode_l3rtt :: "byte list \<Rightarrow> l3rtt option" where
  "decode_l3rtt info =
     (let s = bytes_text info; t = drop 6 s; ds = takeWhile is_digit t
      in if take 6 s \<noteq> ''L3RTT:'' \<or> ds = [] then None
         else case next_word (dropWhile is_digit t) of
                None \<Rightarrow> None
              | Some (origin, rest) \<Rightarrow>
                  case next_word rest of
                    None \<Rightarrow> None
                  | Some (al, _) \<Rightarrow> Some \<lparr>l3_origin = origin, l3_seq = digits_value ds, l3_alias = trim_end_where is_pad al\<rparr>)"

definition encode_l3rtt_frame :: "address \<Rightarrow> l3rtt \<Rightarrow> byte list" where
  "encode_l3rtt_frame origin p =
     encode_netrom \<lparr>np_net = \<lparr>nn_origin = origin, nn_dest = parse_addr L3RTT_DEST, nn_ttl = 2\<rparr>,
       np_tp = \<lparr>tp_opcode = 5, tp_flags = 0, tp_circuit_index = 0, tp_circuit_id = 0, tp_tx_seq = 0, tp_rx_seq = 0\<rparr>,
       np_info = encode_l3rtt p\<rparr>"

definition decode_l3rtt_frame :: "byte list \<Rightarrow> (address \<times> l3rtt) option" where
  "decode_l3rtt_frame bytes =
     (case decode_netrom bytes of
        None \<Rightarrow> None
      | Some nr \<Rightarrow>
          if js_trim_end (js_upper (addr_call (nn_dest (np_net nr)))) \<noteq> L3RTT_DEST then None
          else map_option (\<lambda>rtt. (nn_origin (np_net nr), rtt)) (decode_l3rtt (np_info nr)))"

text \<open>\<open>Math.round\<close> of a quotient of naturals.\<close>

definition smooth_rtt :: "nat option \<Rightarrow> nat \<Rightarrow> nat" where
  "smooth_rtt prev sample =
     (case prev of None \<Rightarrow> sample | Some p \<Rightarrow> if p = 0 then sample else (7 * p + sample + 4) div 8)"

definition tt_from_rtt :: "nat \<Rightarrow> nat" where
  "tt_from_rtt srtt = max INP_TT_DIRECT ((srtt + 1) div 2)"

section \<open>The routing table\<close>

record inp3_route =
  ir_dest :: string
  ir_alias :: string
  ir_neighbor :: string
  ir_tt :: nat
  ir_hops :: nat
  ir_ip :: "rip_ip option"
  ir_dirty :: bool

record inp3_config =
  ic_max_routes :: nat
  ic_max_learns :: nat
  ic_learn_window :: int

definition INP3_DEFAULTS :: inp3_config where
  "INP3_DEFAULTS = \<lparr>ic_max_routes = 500, ic_max_learns = 200, ic_learn_window = 60000\<rparr>"

record inp3_budget =
  ib_count :: nat
  ib_reset_at :: int

record inp3_table =
  it_opts :: inp3_config
  it_routes :: "(string, inp3_route) jsmap"
  it_budget :: "(string, inp3_budget) jsmap"

definition new_inp3_table :: "inp3_config \<Rightarrow> inp3_table" where
  "new_inp3_table opts = \<lparr>it_opts = opts, it_routes = [], it_budget = []\<rparr>"

definition inp3_learn_allowed :: "int \<Rightarrow> string \<Rightarrow> inp3_table \<Rightarrow> bool \<times> inp3_table" where
  "inp3_learn_allowed now nb t =
     (let fresh = (let kept = filter (\<lambda>(k, v). \<not> now \<ge> ib_reset_at v) (it_budget t)
                   in t\<lparr>it_budget := jm_set nb \<lparr>ib_count = 1, ib_reset_at = now + ic_learn_window (it_opts t)\<rparr> kept\<rparr>)
      in case jm_get (it_budget t) nb of
           None \<Rightarrow> (True, fresh)
         | Some b \<Rightarrow>
             if now \<ge> ib_reset_at b then (True, fresh)
             else if ib_count b \<ge> ic_max_learns (it_opts t) then (False, t)
             else (True, t\<lparr>it_budget := jm_set nb (b\<lparr>ib_count := ib_count b + 1\<rparr>) (it_budget t)\<rparr>))"

datatype rip_change = Rip_Added | Rip_Updated | Rip_Withdrawn | Rip_Ignored

definition rip_key :: "address \<Rightarrow> string" where
  "rip_key a = js_upper (addr_call a) @ (if addr_ssid a \<noteq> 0 then ''-'' @ nat_str (addr_ssid a) else [])"

text \<open>The slowest route, the first of them: the loop over the values.\<close>

definition slowest :: "inp3_route list \<Rightarrow> inp3_route option" where
  "slowest rs = foldl (\<lambda>w r. case w of None \<Rightarrow> Some r | Some x \<Rightarrow> if ir_tt r > ir_tt x then Some r else w) None rs"

definition or_else :: "'a option \<Rightarrow> 'a option \<Rightarrow> 'a option" where
  "or_else x y = (case x of None \<Rightarrow> y | Some _ \<Rightarrow> x)"

definition apply_rip :: "int \<Rightarrow> rip \<Rightarrow> string \<Rightarrow> nat \<Rightarrow> inp3_table \<Rightarrow> rip_change \<times> inp3_table" where
  "apply_rip now r neighbor link_tt t =
     (let key = rip_key (rip_dest r); nb = js_upper neighbor; cur = jm_get (it_routes t) key
      in if rip_tt r \<ge> INP_TT_WITHDRAW
         then (case cur of
                 Some c \<Rightarrow> if ir_neighbor c = nb then (Rip_Withdrawn, t\<lparr>it_routes := jm_delete key (it_routes t)\<rparr>)
                           else (Rip_Ignored, t)
               | None \<Rightarrow> (Rip_Ignored, t))
         else if rip_hops r + 1 > INP_MAX_HOPS then (Rip_Ignored, t)
         else let (allowed, t) = inp3_learn_allowed now nb t
         in if \<not> allowed then (Rip_Ignored, t)
         else let tt = rip_tt r + link_tt; hops = rip_hops r + 1;
                  al = (case or_else (rip_alias r) (map_option ir_alias cur) of None \<Rightarrow> [] | Some a \<Rightarrow> a);
                  route = \<lparr>ir_dest = key, ir_alias = js_upper al, ir_neighbor = nb, ir_tt = tt, ir_hops = hops,
                           ir_ip = or_else (rip_ip r) (Option.bind cur ir_ip), ir_dirty = True\<rparr>
         in case cur of
              None \<Rightarrow>
                if length (it_routes t) \<ge> ic_max_routes (it_opts t)
                then (case slowest (jm_values (it_routes t)) of
                        None \<Rightarrow> (Rip_Ignored, t)
                      | Some worst \<Rightarrow>
                          if tt \<ge> ir_tt worst then (Rip_Ignored, t)
                          else (Rip_Added, t\<lparr>it_routes := jm_set key route (jm_delete (ir_dest worst) (it_routes t))\<rparr>))
                else (Rip_Added, t\<lparr>it_routes := jm_set key route (it_routes t)\<rparr>)
            | Some c \<Rightarrow>
                if tt < ir_tt c \<or> ir_neighbor c = nb
                then let changed = (ir_neighbor c \<noteq> nb \<or> ir_tt c \<noteq> tt \<or> ir_hops c \<noteq> hops)
                     in (if changed then Rip_Updated else Rip_Ignored,
                         t\<lparr>it_routes := jm_set key (route\<lparr>ir_dirty := changed\<rparr>) (it_routes t)\<rparr>)
                else (Rip_Ignored, t))"

definition inp3_best :: "string \<Rightarrow> inp3_table \<Rightarrow> inp3_route option" where
  "inp3_best dest_or_alias t =
     (let k = js_upper dest_or_alias
      in or_else (jm_get (it_routes t) k) (find (\<lambda>r. ir_alias r = k) (jm_values (it_routes t))))"

definition inp3_list :: "inp3_table \<Rightarrow> inp3_route list" where
  "inp3_list t = sort_key ir_tt (jm_values (it_routes t))"

text \<open>\<open>Number(ssid)\<close> of the text after the hyphen, which a key of the table has as digits.\<close>

definition parse_call :: "string \<Rightarrow> address" where
  "parse_call s =
     (let parts = split_on (CHR ''-'') s
      in \<lparr>addr_call = hd parts, addr_ssid = (if length parts > 1 \<and> parts ! 1 \<noteq> [] then digits_value (parts ! 1) else 0)\<rparr>)"

definition to_rip :: "inp3_route \<Rightarrow> rip" where
  "to_rip r = \<lparr>rip_dest = parse_call (ir_dest r), rip_hops = ir_hops r, rip_tt = ir_tt r,
     rip_alias = (if ir_alias r = [] then None else Some (ir_alias r)), rip_ip = ir_ip r\<rparr>"

definition drain_dirty :: "inp3_table \<Rightarrow> rip list \<times> inp3_table" where
  "drain_dirty t =
     (map to_rip (filter ir_dirty (jm_values (it_routes t))),
      t\<lparr>it_routes := map (\<lambda>(k, r). (k, r\<lparr>ir_dirty := False\<rparr>)) (it_routes t)\<rparr>)"

definition snapshot :: "inp3_table \<Rightarrow> rip list" where
  "snapshot t = map to_rip (jm_values (it_routes t))"

definition expire :: "(inp3_route \<Rightarrow> bool) \<Rightarrow> inp3_table \<Rightarrow> string list \<times> inp3_table" where
  "expire should_expire t =
     (map fst (filter (\<lambda>(k, r). should_expire r) (it_routes t)),
      t\<lparr>it_routes := filter (\<lambda>(k, r). \<not> should_expire r) (it_routes t)\<rparr>)"

section \<open>What a frame is read back as\<close>

definition wf_rip :: "rip \<Rightarrow> bool" where
  "wf_rip r = (wf_address (rip_dest r) \<and> rip_hops r < 256 \<and> rip_tt r < 65536
     \<and> (case rip_alias r of None \<Rightarrow> True | Some al \<Rightarrow> al \<noteq> [] \<and> length al \<le> 6 \<and> \<not> is_pad (last al))
     \<and> (case rip_ip r of None \<Rightarrow> True | Some ip \<Rightarrow> length (ip_addr ip) = 4 \<and> ip_bits ip < 256))"

lemma bytes_text_text [simp]: "bytes_text (text_bytes s) = s"
  by (simp add: bytes_text_def text_bytes_def comp_def)

lemma pad_ascii_read: "length al \<le> 6 \<Longrightarrow> \<not> is_pad (last al) \<Longrightarrow> trim_end_where is_pad (bytes_text (pad_ascii al 6)) = al"
proof -
  assume a: "length al \<le> 6" "\<not> is_pad (last al)"
  have sp: "is_pad (from_char_code 32)" by (simp add: is_pad_def is_space_def)
  have "bytes_text (pad_ascii al 6) = al @ replicate (6 - length al) (from_char_code 32)"
    using a(1) by (simp add: pad_ascii_def) (simp add: bytes_text_def text_bytes_def comp_def)
  then have "trim_end_where is_pad (bytes_text (pad_ascii al 6)) = trim_end_where is_pad al"
    using sp by (simp add: trim_end_where_append_drop)
  also have "\<dots> = al" using a(2) by (intro trim_end_where_id) simp
  finally show ?thesis .
qed

lemma length_pad_ascii [simp]: "length al \<le> 6 \<Longrightarrow> length (pad_ascii al 6) = 6"
  by (simp add: pad_ascii_def text_bytes_def)

lemma rif_options_end: "rif_options r (INP_EOP # rest) = (r, rest)"
  by (simp add: rif_options.simps)

lemma rif_options_alias:
  assumes "length a = 6"
  shows "rif_options r ([8, INP_OPT_ALIAS] @ a @ rest)
    = rif_options (r\<lparr>rip_alias := Some (trim_end_where is_pad (bytes_text a))\<rparr>) rest"
proof -
  obtain b c d e f g where "a = [b, c, d, e, f, g]" using assms by (auto simp: length_Suc_conv eval_nat_numeral)
  then show ?thesis by (subst rif_options.simps) (simp add: inp_consts sub_bytes_def)
qed

lemma rif_options_ip:
  assumes "length a = 4" "n < 256"
  shows "rif_options r ([7, INP_OPT_IP] @ a @ [byte_of n] @ rest) = rif_options (r\<lparr>rip_ip := Some \<lparr>ip_addr = a, ip_bits = n\<rparr>\<rparr>) rest"
proof -
  obtain b c d e where "a = [b, c, d, e]" using assms(1) by (auto simp: length_Suc_conv eval_nat_numeral)
  then show ?thesis using assms(2) by (subst rif_options.simps) (simp add: inp_consts sub_bytes_def)
qed

lemma byte_of_small: "byte_of 8 = 8" "byte_of 7 = 7"
  by (simp_all add: byte_of_def)

lemma rif_entries_encode:
  "\<forall>r\<in>set rips. wf_rip r \<Longrightarrow> rif_entries (concat (map encode_rip rips)) = rips"
proof (induction rips)
  case (Cons r rips)
  let ?rest = "concat (map encode_rip rips)"
  let ?A = "case rip_alias r of None \<Rightarrow> [] | Some al \<Rightarrow> [8, INP_OPT_ALIAS] @ pad_ascii al 6"
  let ?I = "case rip_ip r of None \<Rightarrow> [] | Some ip \<Rightarrow> [7, INP_OPT_IP] @ ip_addr ip @ [byte_of (ip_bits ip)]"
  let ?hd = "encode_address (rip_dest r) False False" and ?b = "[byte_of (rip_hops r), byte_of (rip_tt r div 256), byte_of (rip_tt r)]"
  let ?bs = "?hd @ ?b @ ?A @ ?I @ [INP_EOP] @ ?rest"
  note w = Cons.prems [simplified, THEN conjunct1, unfolded wf_rip_def]
  have e: "concat (map encode_rip (r # rips)) = ?bs"
    using w by (simp add: encode_rip_def Let_def byte_of_small split: option.splits)
  have nth: "(?hd @ xs) ! (7 + i) = xs ! i" for xs i by (simp add: nth_append)
  note at = nth [of _ 0, simplified] nth [of _ 1, simplified] nth [of _ 2, simplified]
  let ?r0 = "\<lparr>rip_dest = rip_dest r, rip_hops = rip_hops r, rip_tt = rip_tt r, rip_alias = None, rip_ip = None\<rparr>"
  have tt: "rip_tt r div 256 mod 256 * 256 + rip_tt r mod 256 = rip_tt r"
  proof -
    have "rip_tt r div 256 < 256" using w by (simp add: less_mult_imp_div_less)
    then show ?thesis by simp
  qed
  have r0: "\<lparr>rip_dest = da_addr (decode_address ?bs), rip_hops = unat (?bs ! 7),
      rip_tt = unat (?bs ! 8) * 256 + unat (?bs ! 9), rip_alias = None, rip_ip = None\<rparr> = ?r0"
    using w decode_encode_address [of "rip_dest r" False False "?b @ ?A @ ?I @ [INP_EOP] @ ?rest"]
    by (simp add: at tt)
  have ip: "rif_options x (?I @ [INP_EOP] @ ?rest) = (x\<lparr>rip_ip := rip_ip r\<rparr>, ?rest)" if "rip_ip x = None" for x
  proof (cases "rip_ip r")
    case None
    then have "x\<lparr>rip_ip := rip_ip r\<rparr> = x" using that by (cases x) simp
    then show ?thesis using None by (simp add: rif_options_end)
  next
    case (Some ip)
    then show ?thesis using w rif_options_ip [of "ip_addr ip" "ip_bits ip" x "[INP_EOP] @ ?rest"] by (simp add: rif_options_end)
  qed
  have al: "rif_options ?r0 (?A @ ?I @ [INP_EOP] @ ?rest) = (r, ?rest)"
  proof (cases "rip_alias r")
    case None
    then show ?thesis using ip [of ?r0] by (cases r) simp
  next
    case (Some al)
    then have "rif_options ?r0 (?A @ ?I @ [INP_EOP] @ ?rest) = rif_options (?r0\<lparr>rip_alias := Some al\<rparr>) (?I @ [INP_EOP] @ ?rest)"
      using w rif_options_alias [of "pad_ascii al 6" ?r0 "?I @ [INP_EOP] @ ?rest"] pad_ascii_read [of al] by simp
    then show ?thesis using ip [of "?r0\<lparr>rip_alias := Some al\<rparr>"] Some by (cases r) simp
  qed
  have "drop 10 ?bs = ?A @ ?I @ [INP_EOP] @ ?rest" by simp
  then have "rif_entries ?bs = r # rif_entries ?rest"
    using al r0 by (subst rif_entries.simps) (simp add: Let_def)
  then show ?case unfolding e using Cons by simp
qed (simp add: rif_entries.simps)

lemma decode_encode_rif: "\<forall>r\<in>set rips. wf_rip r \<Longrightarrow> decode_rif (encode_rif rips) = Some rips"
  by (simp add: decode_rif_def encode_rif_def rif_entries_encode)

interpretation rif: codec encode_rif decode_rif "list_all wf_rip"
  by unfold_locales (simp add: decode_encode_rif list_all_iff)

section \<open>The invariant of the table\<close>

definition inp3_route_ok :: "nat \<Rightarrow> string \<Rightarrow> inp3_route \<Rightarrow> bool" where
  "inp3_route_ok L k r = (ir_dest r = k \<and> 1 \<le> ir_hops r \<and> ir_hops r \<le> INP_MAX_HOPS \<and> ir_tt r < INP_TT_WITHDRAW + L)"

text \<open>\<open>L\<close> bounds the transport times of the links.\<close>

definition inp3_ok :: "nat \<Rightarrow> inp3_config \<Rightarrow> inp3_table \<Rightarrow> bool" where
  "inp3_ok L opts t = (it_opts t = opts \<and> jm_ok (it_routes t) \<and> length (it_routes t) \<le> ic_max_routes opts
     \<and> (\<forall>(k, r)\<in>set (it_routes t). inp3_route_ok L k r))"

lemma inp3_ok_budget [simp]: "inp3_ok L opts (t\<lparr>it_budget := b\<rparr>) = inp3_ok L opts t"
  by (simp add: inp3_ok_def)

lemma learn_allowed_routes: "it_routes (snd (inp3_learn_allowed now nb t)) = it_routes t \<and> it_opts (snd (inp3_learn_allowed now nb t)) = it_opts t"
  by (auto simp: inp3_learn_allowed_def Let_def split: option.split)

lemma inp3_ok_cong: "it_routes u = it_routes t \<Longrightarrow> it_opts u = it_opts t \<Longrightarrow> inp3_ok L opts u = inp3_ok L opts t"
  by (simp add: inp3_ok_def)

lemma slowest_in: "slowest rs = Some w \<Longrightarrow> w \<in> set rs"
proof -
  have "foldl (\<lambda>w r. case w of None \<Rightarrow> Some r | Some x \<Rightarrow> if ir_tt r > ir_tt x then Some r else w) a rs = Some w \<Longrightarrow> w \<in> set rs \<or> a = Some w" for a
    by (induction rs arbitrary: a) (auto split: option.splits if_splits)
  then show "slowest rs = Some w \<Longrightarrow> w \<in> set rs" unfolding slowest_def by blast
qed

lemma inp3_set_ok:
  assumes "inp3_ok L opts t" "inp3_route_ok L k r" "rs = it_routes t \<or> (\<exists>d. rs = jm_delete d (it_routes t))"
    "length (jm_set k r rs) \<le> ic_max_routes opts"
  shows "inp3_ok L opts (t\<lparr>it_routes := jm_set k r rs\<rparr>)"
proof -
  have sub: "set rs \<subseteq> set (it_routes t)" using assms(3) set_jm_delete_subset by fastforce
  have "jm_ok rs" using assms(1,3) by (auto simp: inp3_ok_def)
  moreover have "inp3_route_ok L k' r'" if "(k', r') \<in> set (jm_set k r rs)" for k' r'
    using set_jm_set_cases [OF that] sub assms(1,2) by (auto simp: inp3_ok_def)
  ultimately show ?thesis using assms(1,4) by (auto simp: inp3_ok_def)
qed

lemma apply_rip_ok [inv_intros]:
  assumes "inp3_ok L opts t" "l \<le> L"
  shows "inp3_ok L opts (snd (apply_rip now r nb l t))"
proof -
  let ?key = "rip_key (rip_dest r)" and ?nb = "js_upper nb"
  let ?u = "snd (inp3_learn_allowed now ?nb t)"
  have u: "inp3_ok L opts ?u" "it_routes ?u = it_routes t" "it_opts ?u = it_opts t"
    using learn_allowed_routes [of now ?nb t] inp3_ok_cong [of ?u t] assms(1) by simp_all
  note ok = assms(1) [unfolded inp3_ok_def]
  have del: "inp3_ok L opts (t\<lparr>it_routes := jm_delete k (it_routes t)\<rparr>)" for k
    using ok set_jm_delete_subset [of k "it_routes t"] length_jm_delete_le [of k "it_routes t"]
    by (auto simp: inp3_ok_def)
  consider "rip_tt r \<ge> INP_TT_WITHDRAW" | "rip_hops r + 1 > INP_MAX_HOPS" | "\<not> fst (inp3_learn_allowed now ?nb t)"
    | "rip_tt r < INP_TT_WITHDRAW" "rip_hops r + 1 \<le> INP_MAX_HOPS" "fst (inp3_learn_allowed now ?nb t)" by linarith
  then show ?thesis
  proof cases
    case 4
    define route where "route d = \<lparr>ir_dest = ?key,
      ir_alias = js_upper (case or_else (rip_alias r) (map_option ir_alias (jm_get (it_routes t) ?key)) of None \<Rightarrow> [] | Some a \<Rightarrow> a),
      ir_neighbor = ?nb, ir_tt = rip_tt r + l, ir_hops = rip_hops r + 1,
      ir_ip = or_else (rip_ip r) (Option.bind (jm_get (it_routes t) ?key) ir_ip), ir_dirty = d\<rparr>" for d
    have rok: "inp3_route_ok L ?key (route d)" for d using 4 assms(2) by (simp add: inp3_route_ok_def route_def)
    show ?thesis
    proof (cases "jm_get (it_routes t) ?key")
      case (Some c)
      have "?key \<in> fst ` set (it_routes t)" using jm_get_Some_in [OF Some] by force
      then have "length (jm_set ?key x (it_routes t)) \<le> ic_max_routes opts" for x using ok by (simp add: length_jm_set)
      then have s: "inp3_ok L opts (?u\<lparr>it_routes := jm_set ?key (route d) (it_routes t)\<rparr>)" for d
        using inp3_set_ok [OF u(1) rok] u(2) by simp
      have "snd (apply_rip now r nb l t) = (if rip_tt r + l < ir_tt c \<or> ir_neighbor c = ?nb
        then ?u\<lparr>it_routes := jm_set ?key (route (ir_neighbor c \<noteq> ?nb \<or> ir_tt c \<noteq> rip_tt r + l \<or> ir_hops c \<noteq> rip_hops r + 1)) (it_routes t)\<rparr> else ?u)"
        using 4 Some u(2) by (simp add: apply_rip_def Let_def split_beta route_def)
      then show ?thesis using s u(1) by (simp split: if_split)
    next
      case None
      have nk: "?key \<notin> fst ` set (it_routes t)" using None by (simp add: jm_get_None_iff)
      have cases: "snd (apply_rip now r nb l t) = ?u
        \<or> (length (it_routes t) < ic_max_routes opts \<and> snd (apply_rip now r nb l t) = ?u\<lparr>it_routes := jm_set ?key (route True) (it_routes t)\<rparr>)
        \<or> (\<exists>w. slowest (jm_values (it_routes t)) = Some w \<and>
             snd (apply_rip now r nb l t) = ?u\<lparr>it_routes := jm_set ?key (route True) (jm_delete (ir_dest w) (it_routes t))\<rparr>)"
        using 4 None u(2,3) ok by (auto simp: apply_rip_def Let_def split_beta route_def split: option.splits)
      have full: "inp3_ok L opts (?u\<lparr>it_routes := jm_set ?key (route True) (jm_delete (ir_dest w) (it_routes t))\<rparr>)"
        if sw: "slowest (jm_values (it_routes t)) = Some w" for w
      proof -
        obtain k where "(k, w) \<in> set (it_routes t)" using slowest_in [OF sw] by auto
        then have "ir_dest w \<in> set (jm_keys (it_routes t))" using ok by (force simp: inp3_route_ok_def)
        then have "Suc (length (jm_delete (ir_dest w) (it_routes t))) = length (it_routes t)" using ok by (intro length_jm_delete) simp_all
        moreover have "?key \<notin> set (jm_keys (jm_delete (ir_dest w) (it_routes t)))" using nk by simp
        ultimately have "length (jm_set ?key (route True) (jm_delete (ir_dest w) (it_routes t))) \<le> ic_max_routes opts"
          using ok by (simp only: length_jm_set if_False simp_thms)
        then show ?thesis using inp3_set_ok [OF u(1) rok] u(2) by auto
      qed
      have "inp3_ok L opts (?u\<lparr>it_routes := jm_set ?key (route True) (it_routes t)\<rparr>)" if "length (it_routes t) < ic_max_routes opts"
        using inp3_set_ok [OF u(1) rok, of "it_routes t"] u(2) that nk by (simp add: length_jm_set)
      then show ?thesis using cases u(1) full by metis
    qed
  qed (use assms u del in \<open>auto simp: apply_rip_def Let_def split_beta split: option.splits\<close>)
qed

datatype inp3_op = Ip_Apply rip string nat | Ip_Drain | Ip_Expire "inp3_route \<Rightarrow> bool"

fun inp3_step :: "inp3_table \<Rightarrow> int \<times> inp3_op \<Rightarrow> inp3_table" where
  "inp3_step t (now, Ip_Apply r nb l) = snd (apply_rip now r nb l t)"
| "inp3_step t (now, Ip_Drain) = snd (drain_dirty t)"
| "inp3_step t (now, Ip_Expire p) = snd (expire p t)"

fun inp3_legal :: "nat \<Rightarrow> inp3_table \<Rightarrow> int \<times> inp3_op \<Rightarrow> bool" where
  "inp3_legal L t (now, Ip_Apply r nb l) = (l \<le> L)"
| "inp3_legal L t _ = True"

lemma drain_keys: "map fst (map (\<lambda>(k, r). (k, r\<lparr>ir_dirty := False\<rparr>)) rs) = map fst rs"
  by (induction rs) auto

lemma drain_ok [inv_intros]: "inp3_ok L opts t \<Longrightarrow> inp3_ok L opts (snd (drain_dirty t))"
  by (auto simp: inp3_ok_def drain_dirty_def jm_ok_def drain_keys inp3_route_ok_def simp del: map_map)

lemma expire_ok [inv_intros]: "inp3_ok L opts t \<Longrightarrow> inp3_ok L opts (snd (expire p t))"
  by (auto simp: inp3_ok_def expire_def intro: order_trans [OF length_filter_le])

interpretation inp3: invariant_machine inp3_step "inp3_ok L opts" "inp3_legal L"
proof
  fix t e assume "inp3_ok L opts t" "inp3_legal L t e"
  then show "inp3_ok L opts (inp3_step t e)"
    by (cases "(t, e)" rule: inp3_step.cases) (auto intro: inv_intros)
qed

lemma new_inp3_ok: "inp3_ok L opts (new_inp3_table opts)"
  by (simp add: inp3_ok_def new_inp3_table_def)

text \<open>A key of the table is read back as the address it was made of.\<close>

lemma parse_call_key:
  assumes "js_upper (addr_call a) = addr_call a" "CHR ''-'' \<notin> set (addr_call a)"
  shows "parse_call (rip_key a) = a"
proof (cases "addr_ssid a = 0")
  case True
  then show ?thesis using assms by (simp add: parse_call_def rip_key_def split_on_none)
next
  case False
  have "CHR ''-'' \<notin> set (nat_str (addr_ssid a))" by (auto dest: nat_str_digits is_digit_not)
  then have "split_on (CHR ''-'') (addr_call a @ ''-'' @ nat_str (addr_ssid a)) = [addr_call a, nat_str (addr_ssid a)]"
    using assms(2) by (simp add: split_on_append split_on_none)
  then show ?thesis using False assms(1) by (simp add: parse_call_def rip_key_def)
qed

section \<open>Properties\<close>

text \<open>A routing information frame is read back as the entries it was made of, options included.\<close>

theorem rif_roundtrip:
  assumes "\<forall>r\<in>set rips. wf_rip r"
  shows "decode_rif (encode_rif rips) = Some rips"
  using rif.dec_enc [of rips] assms by (simp add: list_all_iff)

theorem rif_roundtrip_witness:
  "decode_rif (encode_rif [\<lparr>rip_dest = \<lparr>addr_call = ''Q1TEST'', addr_ssid = 7\<rparr>, rip_hops = 2, rip_tt = 300, rip_alias = Some ''HUB'',
      rip_ip = Some \<lparr>ip_addr = [44, 0, 0, 1], ip_bits = 32\<rparr>\<rparr>]) =
    Some [\<lparr>rip_dest = \<lparr>addr_call = ''Q1TEST'', addr_ssid = 7\<rparr>, rip_hops = 2, rip_tt = 300, rip_alias = Some ''HUB'',
      rip_ip = Some \<lparr>ip_addr = [44, 0, 0, 1], ip_bits = 32\<rparr>\<rparr>]"
  by (rule rif_roundtrip) (simp add: wf_rip_def wf_address_def js_upper_def upper_char_def char_code_def is_pad_def is_space_def)

text \<open>Over all runs the INP3 table stays within its cap, files each route under its own
  destination, and holds no route beyond the horizon of 30 hops.\<close>

theorem inp3_table_invariant:
  assumes "inp3.legal_run L (new_inp3_table opts) es"
  defines "t \<equiv> inp3.run (new_inp3_table opts) es"
  shows "length (it_routes t) \<le> ic_max_routes opts
    \<and> (\<forall>(k, r)\<in>set (it_routes t). ir_dest r = k \<and> 1 \<le> ir_hops r \<and> ir_hops r \<le> 30 \<and> ir_tt r < 60000 + L)"
proof -
  have "inp3_ok L opts t" unfolding t_def by (rule inp3.run_inv [OF new_inp3_ok assms(1)])
  then show ?thesis by (auto simp: inp3_ok_def inp3_route_ok_def INP_MAX_HOPS_def INP_TT_WITHDRAW_def)
qed

definition demo_rip :: "nat \<Rightarrow> rip" where
  "demo_rip tt = \<lparr>rip_dest = \<lparr>addr_call = ''Q1TEST'', addr_ssid = 7\<rparr>, rip_hops = 2, rip_tt = tt, rip_alias = None, rip_ip = None\<rparr>"

theorem inp3_table_invariant_witness:
  "length (it_routes (inp3.run (new_inp3_table INP3_DEFAULTS) [(0, Ip_Apply (demo_rip 300) ''NODEB'' 5), (1, Ip_Drain), (2, Ip_Expire (\<lambda>r. ir_tt r > 9))])) \<le> 500"
proof -
  have "inp3.legal_run 5 (new_inp3_table INP3_DEFAULTS) [(0, Ip_Apply (demo_rip 300) ''NODEB'' 5), (1, Ip_Drain), (2, Ip_Expire (\<lambda>r. ir_tt r > 9))]"
    by simp
  from inp3_table_invariant [OF this, THEN conjunct1] show ?thesis by (simp add: INP3_DEFAULTS_def)
qed

text \<open>An offer changes only the route to its destination, and it changes the next hop only to
  a strictly faster one.\<close>

theorem rip_only_improves:
  assumes "inp3_ok L opts t" "jm_get (it_routes t) k = Some c" "rip_tt r < INP_TT_WITHDRAW" "k = rip_key (rip_dest r)"
  shows "\<exists>c'. jm_get (it_routes (snd (apply_rip now r nb l t))) k = Some c'
    \<and> (ir_neighbor c' \<noteq> ir_neighbor c \<longrightarrow> ir_tt c' < ir_tt c)
    \<and> (\<forall>k'. k' \<noteq> k \<longrightarrow> jm_get (it_routes (snd (apply_rip now r nb l t))) k' = jm_get (it_routes t) k')"
  using assms(2,3,4) learn_allowed_routes [of now "js_upper nb" t]
  by (auto simp: apply_rip_def Let_def split_beta)

theorem rip_only_improves_witness:
  "\<exists>c'. jm_get (it_routes (snd (apply_rip 1 (demo_rip 10) ''NODEC'' 5 (snd (apply_rip 0 (demo_rip 300) ''NODEB'' 5 (new_inp3_table INP3_DEFAULTS)))))) (rip_key (rip_dest (demo_rip 10))) = Some c'"
proof -
  let ?t = "snd (apply_rip 0 (demo_rip 300) ''NODEB'' 5 (new_inp3_table INP3_DEFAULTS))"
  have "inp3_ok 5 INP3_DEFAULTS ?t" by (rule apply_rip_ok [OF new_inp3_ok order_refl])
  moreover have "\<exists>c. jm_get (it_routes ?t) (rip_key (rip_dest (demo_rip 10))) = Some c"
    by (simp add: apply_rip_def Let_def demo_rip_def new_inp3_table_def INP3_DEFAULTS_def INP_TT_WITHDRAW_def INP_MAX_HOPS_def
      inp3_learn_allowed_def split_beta)
  ultimately show ?thesis using rip_only_improves [of 5 INP3_DEFAULTS ?t _ _ "demo_rip 10" 1 "''NODEC''" 5]
    by (auto simp: demo_rip_def INP_TT_WITHDRAW_def)
qed

text \<open>The transport time of a learned route is not kept below the withdrawal value: a route
  over a slow link whose time reaches 65536 is told to the neighbours with the time modulo
  65536, as one of the fastest there is.\<close>

theorem slow_route_told_as_fast:
  assumes "wf_address a" "CHR ''-'' \<notin> set (addr_call a)" "ir_dest r = rip_key a" "ir_hops r < 256" "ir_alias r = []" "ir_ip r = None"
  shows "decode_rif (encode_rif [to_rip r]) = Some [(to_rip r)\<lparr>rip_tt := ir_tt r mod 65536\<rparr>]"
proof -
  have p: "parse_call (ir_dest r) = a" unfolding assms(3) using assms(1,2) by (intro parse_call_key) (simp_all add: wf_address_def)
  have "byte_of (ir_tt r div 256) = byte_of (ir_tt r mod 65536 div 256)"
  proof -
    have "ir_tt r mod 65536 div 256 = ir_tt r div 256 mod 256" using mod_mult2_eq [of "ir_tt r" 256 256] by simp
    then show ?thesis by simp
  qed
  moreover have "byte_of (ir_tt r) = byte_of (ir_tt r mod 65536)"
    by (simp add: word_unat_eq_iff mod_mod_cancel)
  ultimately have "encode_rif [to_rip r] = encode_rif [(to_rip r)\<lparr>rip_tt := ir_tt r mod 65536\<rparr>]"
    by (simp add: encode_rif_def encode_rip_def to_rip_def)
  moreover have "wf_rip ((to_rip r)\<lparr>rip_tt := ir_tt r mod 65536\<rparr>)"
    using assms p by (simp add: wf_rip_def to_rip_def)
  ultimately show ?thesis using decode_encode_rif [of "[(to_rip r)\<lparr>rip_tt := ir_tt r mod 65536\<rparr>]"] by simp
qed

lemma slow_route_learned:
  "jm_get (it_routes (snd (apply_rip 0 (demo_rip 59999) ''NODEB'' 5540 (new_inp3_table INP3_DEFAULTS)))) (rip_key (rip_dest (demo_rip 59999)))
    = Some \<lparr>ir_dest = rip_key (rip_dest (demo_rip 59999)), ir_alias = [], ir_neighbor = js_upper ''NODEB'', ir_tt = 65539, ir_hops = 3,
        ir_ip = None, ir_dirty = True\<rparr>"
  by (simp add: apply_rip_def Let_def demo_rip_def new_inp3_table_def INP3_DEFAULTS_def INP_TT_WITHDRAW_def INP_MAX_HOPS_def
      inp3_learn_allowed_def split_beta or_else_def)

theorem slow_route_told_as_fast_witness:
  "\<exists>r. decode_rif (encode_rif [to_rip \<lparr>ir_dest = rip_key \<lparr>addr_call = ''Q1TEST'', addr_ssid = 7\<rparr>, ir_alias = [], ir_neighbor = ''NODEB'',
      ir_tt = 65539, ir_hops = 3, ir_ip = None, ir_dirty = True\<rparr>]) = Some [r] \<and> rip_tt r = 3"
proof -
  have "wf_address \<lparr>addr_call = ''Q1TEST'', addr_ssid = 7\<rparr>"
    by (simp add: wf_address_def js_upper_def upper_char_def char_code_def is_space_def)
  from slow_route_told_as_fast [OF this, of "\<lparr>ir_dest = rip_key \<lparr>addr_call = ''Q1TEST'', addr_ssid = 7\<rparr>, ir_alias = [], ir_neighbor = ''NODEB'',
      ir_tt = 65539, ir_hops = 3, ir_ip = None, ir_dirty = True\<rparr>"]
  show ?thesis by simp
qed

end
