(* ===== verification/Msg_Retry.thy ===== *)
theory Msg_Retry
  imports Aprs_Message Interfaces
begin

text \<open>
  The repetition of numbered messages, \<open>packages/aprs/src/msgretry.ts\<close>. The clock is an argument of each
  operation, the caller's \<open>resend\<close> an argument of \<open>retry_tick\<close>; the calls of \<open>onSettle\<close> and \<open>resend\<close> are
  recorded in the state. A callback that calls back into the retrier is not modelled.
\<close>

section \<open>The state\<close>

definition RETRY_GAPS_VHF_SEC :: "int list" where
  "RETRY_GAPS_VHF_SEC = [30, 60, 120, 240, 480]"

definition RETRY_GAPS_HF_SEC :: "int list" where
  "RETRY_GAPS_HF_SEC = [120, 240, 480, 960, 1800, 1800, 1800, 1800, 1800, 1800]"

definition RETRY_HELD_SEC :: int where
  "RETRY_HELD_SEC = 15"

definition RETRY_MAX_PENDING :: nat where
  "RETRY_MAX_PENDING = 100"

datatype retry_outcome = Acked | Rejected | Expired | Cancelled

record retry_message =
  rm_from :: string
  rm_to :: string
  rm_msg_no :: string
  rm_hf :: bool
  rm_ref :: "string option"

record pending_retry = retry_message +
  pr_tries :: nat
  pr_first_at :: int
  pr_next_at :: int

record retry_stats =
  st_messages :: nat
  st_retries :: nat
  st_acked :: nat
  st_rejected :: nat
  st_expired :: nat
  st_cancelled :: nat

datatype try_result = Sent | Held | Stop

record retrier =
  rt_pending :: "(string, pending_retry) jsmap"
  rt_stats :: retry_stats
  rt_max :: nat
  rt_settled :: "(pending_retry \<times> retry_outcome) list"
  rt_resent :: "pending_retry list"

definition new_retrier :: "nat option \<Rightarrow> retrier" where
  "new_retrier max_pending =
     \<lparr>rt_pending = [],
      rt_stats = \<lparr>st_messages = 0, st_retries = 0, st_acked = 0, st_rejected = 0, st_expired = 0, st_cancelled = 0\<rparr>,
      rt_max = (case max_pending of None \<Rightarrow> RETRY_MAX_PENDING | Some m \<Rightarrow> m), rt_settled = [], rt_resent = []\<rparr>"

definition retry_key :: "string \<Rightarrow> string \<Rightarrow> string \<Rightarrow> string" where
  "retry_key from to no = js_upper (from @ ''|'' @ to @ ''|'' @ no)"

definition retry_gaps :: "bool \<Rightarrow> int list" where
  "retry_gaps hf = (if hf then RETRY_GAPS_HF_SEC else RETRY_GAPS_VHF_SEC)"

definition retry_span_ms :: "bool \<Rightarrow> int" where
  "retry_span_ms hf = foldl (+) 0 (retry_gaps hf) * 1000"

section \<open>The operations\<close>

fun count_outcome :: "retry_outcome \<Rightarrow> retry_stats \<Rightarrow> retry_stats" where
  "count_outcome Acked s = s\<lparr>st_acked := st_acked s + 1\<rparr>"
| "count_outcome Rejected s = s\<lparr>st_rejected := st_rejected s + 1\<rparr>"
| "count_outcome Expired s = s\<lparr>st_expired := st_expired s + 1\<rparr>"
| "count_outcome Cancelled s = s\<lparr>st_cancelled := st_cancelled s + 1\<rparr>"

definition retry_settle :: "string \<Rightarrow> retry_outcome \<Rightarrow> retrier \<Rightarrow> retrier" where
  "retry_settle k outcome st =
     (case jm_get (rt_pending st) k of
        None \<Rightarrow> st
      | Some m \<Rightarrow> st\<lparr>rt_pending := jm_delete k (rt_pending st), rt_stats := count_outcome outcome (rt_stats st),
                     rt_settled := rt_settled st @ [(m, outcome)]\<rparr>)"

text \<open>
  \<open>while (this.pending.size >= max)\<close>: the oldest gives way. With nothing pending left the loop settles no
  key and goes on.
\<close>

partial_function (option) retry_evict :: "retrier \<Rightarrow> retrier option" where
  "retry_evict st =
     (if length (rt_pending st) < rt_max st then Some st
      else case rt_pending st of
        [] \<Rightarrow> retry_evict st
      | (k, m) # rest \<Rightarrow> retry_evict (retry_settle k Cancelled st))"

definition pending_of :: "retry_message \<Rightarrow> int \<Rightarrow> pending_retry" where
  "pending_of m now =
     \<lparr>rm_from = rm_from m, rm_to = rm_to m, rm_msg_no = rm_msg_no m, rm_hf = rm_hf m, rm_ref = rm_ref m,
      pr_tries = 1, pr_first_at = now, pr_next_at = now + retry_gaps (rm_hf m) ! 0 * 1000\<rparr>"

definition retry_track :: "retry_message \<Rightarrow> int \<Rightarrow> retrier \<Rightarrow> retrier option" where
  "retry_track m now st =
     (let k = retry_key (rm_from m) (rm_to m) (rm_msg_no m)
      in case retry_evict (st\<lparr>rt_pending := jm_delete k (rt_pending st)\<rparr>) of
           None \<Rightarrow> None
         | Some st \<Rightarrow> Some (st\<lparr>rt_pending := jm_set k (pending_of m now) (rt_pending st),
                               rt_stats := (rt_stats st)\<lparr>st_messages := st_messages (rt_stats st) + 1\<rparr>\<rparr>))"

definition retry_heard :: "string \<Rightarrow> string \<Rightarrow> retrier \<Rightarrow> retrier \<times> bool" where
  "retry_heard src payload st =
     (case ack_of src payload of
        None \<Rightarrow> (st, False)
      | Some a \<Rightarrow>
          let k = retry_key (ai_to a) (ai_from a) (ai_msg_no a)
          in case jm_get (rt_pending st) k of
               None \<Rightarrow> (st, False)
             | Some _ \<Rightarrow> (retry_settle k (if ai_rej a then Rejected else Acked) st, True))"

fun cancel_entries :: "string option \<Rightarrow> (string \<times> pending_retry) list \<Rightarrow> retrier \<Rightarrow> retrier" where
  "cancel_entries from [] st = st"
| "cancel_entries from ((k, m) # ms) st =
     cancel_entries from ms
       (if (case from of None \<Rightarrow> True | Some f \<Rightarrow> f = [] \<or> js_upper (rm_from m) = js_upper f)
        then retry_settle k Cancelled st else st)"

definition retry_cancel :: "string option \<Rightarrow> retrier \<Rightarrow> retrier" where
  "retry_cancel from st = cancel_entries from (rt_pending st) st"

definition tick_entry :: "int \<Rightarrow> (pending_retry \<Rightarrow> try_result) \<Rightarrow> string \<Rightarrow> pending_retry \<Rightarrow> retrier \<Rightarrow> retrier" where
  "tick_entry now resend k m st =
     (if now < pr_next_at m then st
      else let g = retry_gaps (rm_hf m)
      in if length g \<le> pr_tries m \<or> retry_span_ms (rm_hf m) + 3600000 < now - pr_first_at m
         then retry_settle k Expired st
         else let st = st\<lparr>rt_resent := rt_resent st @ [m]\<rparr>
         in case resend m of
              Stop \<Rightarrow> retry_settle k Cancelled st
            | Held \<Rightarrow> st\<lparr>rt_pending := jm_set k (m\<lparr>pr_next_at := now + RETRY_HELD_SEC * 1000\<rparr>) (rt_pending st)\<rparr>
            | Sent \<Rightarrow> st\<lparr>rt_pending := jm_set k (m\<lparr>pr_tries := pr_tries m + 1, pr_next_at := now + g ! pr_tries m * 1000\<rparr>) (rt_pending st),
                         rt_stats := (rt_stats st)\<lparr>st_retries := st_retries (rt_stats st) + 1\<rparr>\<rparr>)"

fun tick_entries :: "int \<Rightarrow> (pending_retry \<Rightarrow> try_result) \<Rightarrow> (string \<times> pending_retry) list \<Rightarrow> retrier \<Rightarrow> retrier" where
  "tick_entries now resend [] st = st"
| "tick_entries now resend ((k, m) # ms) st = tick_entries now resend ms (tick_entry now resend k m st)"

definition retry_tick :: "int \<Rightarrow> (pending_retry \<Rightarrow> try_result) \<Rightarrow> retrier \<Rightarrow> retrier" where
  "retry_tick now resend st = tick_entries now resend (rt_pending st) st"

section \<open>What a settlement does\<close>

lemma gaps_facts [simp]: "retry_gaps hf \<noteq> []" "0 < length (retry_gaps hf)"
  by (simp_all add: retry_gaps_def RETRY_GAPS_VHF_SEC_def RETRY_GAPS_HF_SEC_def)

lemma gaps_bound: "i < length (retry_gaps hf) \<Longrightarrow> 30 \<le> retry_gaps hf ! i \<and> retry_gaps hf ! i \<le> 1800"
proof -
  assume "i < length (retry_gaps hf)"
  then have "retry_gaps hf ! i \<in> set (retry_gaps hf)" by simp
  then show ?thesis by (auto simp: retry_gaps_def RETRY_GAPS_VHF_SEC_def RETRY_GAPS_HF_SEC_def split: if_splits)
qed

definition settled_count :: "retry_stats \<Rightarrow> nat" where
  "settled_count s = st_acked s + st_rejected s + st_expired s + st_cancelled s"

lemma settled_count_outcome [simp]: "settled_count (count_outcome out s) = settled_count s + 1"
  "st_messages (count_outcome out s) = st_messages s"
  by (cases out; simp add: settled_count_def)+

lemma settle_facts [simp]:
  "rt_max (retry_settle k out st) = rt_max st" "rt_resent (retry_settle k out st) = rt_resent st"
  "rt_pending (retry_settle k out st) = (case jm_get (rt_pending st) k of None \<Rightarrow> rt_pending st | Some _ \<Rightarrow> jm_delete k (rt_pending st))"
  by (simp_all add: retry_settle_def split: option.splits)

lemma settle_get [simp]: "jm_get (rt_pending (retry_settle k out st)) k' = (if k' = k then None else jm_get (rt_pending st) k')"
  by (auto split: option.splits)

definition pending_ok :: "string \<Rightarrow> pending_retry \<Rightarrow> bool" where
  "pending_ok k m = (k = retry_key (rm_from m) (rm_to m) (rm_msg_no m) \<and> 1 \<le> pr_tries m \<and> pr_tries m \<le> length (retry_gaps (rm_hf m)))"

text \<open>
  The invariant: one entry per key, filed under its own key, sent between once and as often as its schedule
  has gaps; no more entries than the ceiling; every message counted, and counted once when it is settled.
\<close>

definition retrier_ok :: "retrier \<Rightarrow> bool" where
  "retrier_ok st =
     (jm_ok (rt_pending st) \<and> length (rt_pending st) \<le> rt_max st
      \<and> (\<forall>(k, m)\<in>set (rt_pending st). pending_ok k m)
      \<and> (\<forall>(m, out)\<in>set (rt_settled st). 1 \<le> pr_tries m \<and> pr_tries m \<le> length (retry_gaps (rm_hf m)))
      \<and> length (rt_settled st) = settled_count (rt_stats st)
      \<and> length (rt_pending st) + settled_count (rt_stats st) \<le> st_messages (rt_stats st))"

lemma settle_ok: "retrier_ok st \<Longrightarrow> retrier_ok (retry_settle k out st)"
proof (cases "jm_get (rt_pending st) k")
  case (Some m)
  assume ok: "retrier_ok st"
  have "k \<in> set (jm_keys (rt_pending st))" using Some by (metis domI dom_map_of_conv_image_fst list.set_map)
  then have "Suc (length (jm_delete k (rt_pending st))) = length (rt_pending st)"
    using ok by (intro length_jm_delete) (simp_all add: retrier_ok_def)
  moreover have "(k, m) \<in> set (rt_pending st)" using Some by (rule map_of_SomeD)
  moreover have "set (jm_delete k (rt_pending st)) \<subseteq> set (rt_pending st)" by (auto simp: AList.delete_eq)
  ultimately show ?thesis using ok Some by (auto simp: retrier_ok_def retry_settle_def pending_ok_def)
qed (simp add: retry_settle_def)

lemma settle_again: "jm_get (rt_pending st) k = None \<Longrightarrow> retry_settle k out st = st"
  by (simp add: retry_settle_def)

section \<open>Making room\<close>

lemma evict_diverges: "rt_max st = 0 \<Longrightarrow> retry_evict st = None"
proof (rule ccontr)
  have "length (rt_pending y) < rt_max y \<and> rt_max y = rt_max st" if "retry_evict st = Some y" for y
    using that by (rule retry_evict.raw_induct [rotated]) (fastforce split: if_splits list.splits prod.splits)
  moreover assume "rt_max st = 0" "retry_evict st \<noteq> None"
  ultimately show False by fastforce
qed

lemma evict_room: "length (rt_pending st) < rt_max st \<Longrightarrow> retry_evict st = Some st"
  by (subst retry_evict.simps) simp

lemma evict_returns:
  "0 < rt_max st \<Longrightarrow> retrier_ok st \<Longrightarrow>
    \<exists>st'. retry_evict st = Some st' \<and> retrier_ok st' \<and> rt_max st' = rt_max st \<and> length (rt_pending st') < rt_max st'
      \<and> rt_resent st' = rt_resent st \<and> (\<exists>n. rt_pending st' = drop n (rt_pending st))
      \<and> st_messages (rt_stats st') = st_messages (rt_stats st)"
proof (induction "length (rt_pending st)" arbitrary: st rule: less_induct)
  case less
  show ?case
  proof (cases "length (rt_pending st) < rt_max st")
    case True
    then have "retry_evict st = Some st" by (rule evict_room)
    then show ?thesis using True less.prems(2) by (intro exI [of _ st]) (auto intro: exI [of _ 0])
  next
    case False
    then obtain k m rest where p: "rt_pending st = (k, m) # rest" using less.prems(1) by (cases "rt_pending st") auto
    let ?s = "retry_settle k Cancelled st"
    have "k \<notin> fst ` set rest" using less.prems(2) by (auto simp: retrier_ok_def jm_ok_def p)
    then have rest: "rt_pending ?s = rest" by (simp add: p AList.delete_eq filter_id_conv) force
    have "length (rt_pending ?s) < length (rt_pending st)" "0 < rt_max ?s" unfolding rest using less.prems(1) by (simp_all add: p)
    from less.hyps [OF this settle_ok [OF less.prems(2)]]
    obtain st' n where r: "retry_evict ?s = Some st'" "retrier_ok st'" "rt_max st' = rt_max ?s" "length (rt_pending st') < rt_max st'"
      "rt_resent st' = rt_resent ?s" "rt_pending st' = drop n rest" "st_messages (rt_stats st') = st_messages (rt_stats ?s)"
      unfolding rest by blast
    have "retry_evict st = retry_evict ?s" using False p by (subst retry_evict.simps) simp
    moreover have "st_messages (rt_stats ?s) = st_messages (rt_stats st)" by (simp add: retry_settle_def p)
    ultimately show ?thesis using r by (auto simp: p intro: exI [of _ "Suc n"])
  qed
qed

lemma delete_ok: "retrier_ok (st\<lparr>rt_pending := jm_delete k (rt_pending st)\<rparr>)" if "retrier_ok st"
proof -
  have "set (jm_delete k (rt_pending st)) \<subseteq> set (rt_pending st)" by (auto simp: AList.delete_eq)
  then show ?thesis using that length_jm_delete_le [of k "rt_pending st"] by (auto simp: retrier_ok_def)
qed

lemma jm_set_new: "k \<notin> fst ` set m \<Longrightarrow> jm_set k v m = m @ [(k, v)]"
  by (induction m) auto

lemma set_ok:
  assumes "retrier_ok st" "pending_ok k m" "k \<notin> fst ` set (rt_pending st)" "length (rt_pending st) < rt_max st"
  shows "retrier_ok (st\<lparr>rt_pending := jm_set k m (rt_pending st),
    rt_stats := (rt_stats st)\<lparr>st_messages := st_messages (rt_stats st) + 1\<rparr>\<rparr>)"
proof -
  have "jm_set k m (rt_pending st) = rt_pending st @ [(k, m)]" using assms(3) by (rule jm_set_new)
  then show ?thesis using assms by (auto simp: retrier_ok_def settled_count_def jm_ok_def)
qed

definition track_key :: "retry_message \<Rightarrow> string" where
  "track_key m = retry_key (rm_from m) (rm_to m) (rm_msg_no m)"

lemma pending_of_ok: "pending_ok (track_key m) (pending_of m now)"
  by (simp add: pending_ok_def track_key_def pending_of_def Suc_leI)

lemma track_facts:
  assumes "retrier_ok st" "0 < rt_max st"
  shows "\<exists>st'. retry_track m now st = Some st' \<and> retrier_ok st' \<and> rt_max st' = rt_max st
    \<and> jm_get (rt_pending st') (track_key m) = Some (pending_of m now)
    \<and> st_messages (rt_stats st') = st_messages (rt_stats st) + 1"
proof -
  let ?k = "track_key m"
  let ?d = "st\<lparr>rt_pending := jm_delete ?k (rt_pending st)\<rparr>"
  obtain e n where e: "retry_evict ?d = Some e" "retrier_ok e" "rt_max e = rt_max st" "length (rt_pending e) < rt_max e"
    "rt_pending e = drop n (jm_delete ?k (rt_pending st))" "st_messages (rt_stats e) = st_messages (rt_stats st)"
    using evict_returns [of ?d] delete_ok [OF assms(1), of ?k] assms(2) by auto
  have "?k \<notin> fst ` set (rt_pending e)" unfolding e(5) using in_set_dropD by (fastforce simp: AList.delete_eq)
  then show ?thesis
    using set_ok [OF e(2) pending_of_ok _ e(4), of m now] e by (simp add: retry_track_def track_key_def [symmetric] Let_def)
qed

lemma heard_ok: "retrier_ok st \<Longrightarrow> retrier_ok (fst (retry_heard src payload st))"
  by (auto simp: retry_heard_def Let_def settle_ok split: option.splits)

lemma cancel_entries_ok: "retrier_ok st \<Longrightarrow> retrier_ok (cancel_entries frm ms st)"
  by (induction frm ms st rule: cancel_entries.induct) (simp_all add: settle_ok)

lemma update_present:
  assumes "jm_ok m" "jm_get m k = Some v"
  shows "set (jm_set k w m) \<subseteq> insert (k, w) (set m)" "length (jm_set k w m) = length m"
proof -
  show "set (jm_set k w m) \<subseteq> insert (k, w) (set m)" by (induction m) auto
  have "k \<in> set (jm_keys m)" using assms(2) by (metis domI dom_map_of_conv_image_fst list.set_map)
  then show "length (jm_set k w m) = length m" by (simp add: length_jm_set)
qed

lemma tick_entry_ok:
  assumes "retrier_ok st" "jm_get (rt_pending st) k = Some m"
  shows "retrier_ok (tick_entry now resend k m st)"
proof -
  have ok: "pending_ok k m" using assms map_of_SomeD [OF assms(2)] by (fastforce simp: retrier_ok_def)
  have held: "retrier_ok (st\<lparr>rt_resent := r, rt_pending := jm_set k m' (rt_pending st)\<rparr>)"
    "retrier_ok (st\<lparr>rt_resent := r, rt_pending := jm_set k m' (rt_pending st), rt_stats := (rt_stats st)\<lparr>st_retries := c\<rparr>\<rparr>)"
    if "pending_ok k m'" for m' r c
    using assms(1) that update_present [OF _ assms(2), of m'] by (auto simp: retrier_ok_def settled_count_def)
  have r: "retrier_ok (st\<lparr>rt_resent := r\<rparr>)" for r using assms(1) by (simp add: retrier_ok_def)
  have h: "pending_ok k (m\<lparr>pr_next_at := x\<rparr>)" for x using ok by (simp add: pending_ok_def)
  have s: "pr_tries m < length (retry_gaps (rm_hf m)) \<Longrightarrow> pending_ok k (m\<lparr>pr_tries := Suc (pr_tries m), pr_next_at := x\<rparr>)" for x
    using ok by (simp add: pending_ok_def)
  show ?thesis
    unfolding tick_entry_def Let_def
    by (simp add: settle_ok assms(1) r held(1) [OF h] held(2) [OF s] split: try_result.split)
qed

lemma tick_entry_others: "k' \<noteq> k \<Longrightarrow> jm_get (rt_pending (tick_entry now resend k m st)) k' = jm_get (rt_pending st) k'"
  by (simp add: tick_entry_def Let_def split: try_result.splits option.splits)

lemma tick_entries_ok:
  "retrier_ok st \<Longrightarrow> distinct (map fst ms) \<Longrightarrow> \<forall>(k, m)\<in>set ms. jm_get (rt_pending st) k = Some m \<Longrightarrow>
    retrier_ok (tick_entries now resend ms st)"
proof (induction now resend ms st rule: tick_entries.induct)
  case (2 now resend k m ms st)
  have "\<forall>(k', m')\<in>set ms. jm_get (rt_pending (tick_entry now resend k m st)) k' = Some m'"
    using 2(3,4) tick_entry_others by (fastforce simp: image_iff)
  then show ?case using 2 tick_entry_ok by auto
qed simp

lemma tick_ok: "retrier_ok st \<Longrightarrow> retrier_ok (retry_tick now resend st)"
  unfolding retry_tick_def by (rule tick_entries_ok) (auto simp: retrier_ok_def jm_ok_def)

lemma tick_max [simp]: "rt_max (retry_tick now resend st) = rt_max st"
proof -
  have "rt_max (tick_entry now resend k m st) = rt_max st" for k m st
    by (simp add: tick_entry_def Let_def split: try_result.split)
  then have "rt_max (tick_entries now resend ms st) = rt_max st" for ms st
    by (induction now resend ms st rule: tick_entries.induct) simp_all
  then show ?thesis by (simp add: retry_tick_def)
qed

section \<open>Runs of the engine\<close>

text \<open>What a caller does with the engine; a \<open>track\<close> that does not return leaves the state as it was.\<close>

datatype retry_event =
    RTrack retry_message int
  | RHeard string string
  | RCancel "string option"
  | RTick int "pending_retry \<Rightarrow> try_result"

fun retry_step :: "retrier \<Rightarrow> retry_event \<Rightarrow> retrier" where
  "retry_step st (RTrack m now) = (case retry_track m now st of None \<Rightarrow> st | Some st' \<Rightarrow> st')"
| "retry_step st (RHeard src payload) = fst (retry_heard src payload st)"
| "retry_step st (RCancel from) = retry_cancel from st"
| "retry_step st (RTick now resend) = retry_tick now resend st"

lemma cancel_max [simp]: "rt_max (cancel_entries frm ms st) = rt_max st"
  by (induction frm ms st rule: cancel_entries.induct) simp_all

lemma heard_max [simp]: "rt_max (fst (retry_heard src payload st)) = rt_max st"
  by (simp add: retry_heard_def Let_def split: option.split)

definition retrier_at :: "nat \<Rightarrow> retrier \<Rightarrow> bool" where
  "retrier_at n st = (retrier_ok st \<and> rt_max st = n)"

lemma track_none: "rt_max st = 0 \<Longrightarrow> retry_track m now st = None"
  by (simp add: retry_track_def evict_diverges Let_def)

lemma step_ok: "retrier_at n st \<Longrightarrow> retrier_at n (retry_step st e)"
proof (cases e)
  case (RTrack m now)
  assume "retrier_at n st"
  then show ?thesis using track_facts [of st m now] track_none [of st m now]
    by (cases "rt_max st = 0") (auto simp: RTrack retrier_at_def)
qed (auto simp: retrier_at_def heard_ok retry_cancel_def cancel_entries_ok tick_ok)

interpretation retrying: invariant_machine retry_step "retrier_at n" "\<lambda>_ _. True" for n
  by unfold_locales (rule step_ok)

lemma new_retrier_at: "retrier_at (case n of None \<Rightarrow> RETRY_MAX_PENDING | Some k \<Rightarrow> k) (new_retrier n)"
  by (simp add: retrier_at_def retrier_ok_def new_retrier_def settled_count_def split: option.split)

lemma retrying_at: "retrier_at (case n of None \<Rightarrow> RETRY_MAX_PENDING | Some k \<Rightarrow> k) (foldl retry_step (new_retrier n) es)"
  using retrying.run_inv_foldl [OF new_retrier_at] by blast

text \<open>C17: 
  In every run at most the ceiling's number of messages wait, each under a key of its own; no message goes out more
  often than its schedule has gaps, waiting or settled; and no message is settled twice: the settlements and the
  messages waiting are together no more than the messages handed over.
\<close>

theorem retrier_invariant:
  "let st = foldl retry_step (new_retrier (Some n)) es
   in length (rt_pending st) \<le> n \<and> distinct (map fst (rt_pending st))
     \<and> list_all (\<lambda>m. pr_tries m \<le> length (retry_gaps (rm_hf m))) (map snd (rt_pending st) @ map fst (rt_settled st))
     \<and> length (rt_settled st) + length (rt_pending st) \<le> st_messages (rt_stats st)"
proof -
  let ?st = "foldl retry_step (new_retrier (Some n)) es"
  have "retrier_ok ?st" "rt_max ?st = n" using retrying_at [of "Some n" es] by (simp_all add: retrier_at_def)
  then show ?thesis by (auto simp: retrier_ok_def jm_ok_def Let_def list_all_iff pending_ok_def)
qed

text \<open>
  Handing a message over returns in every state of every run, but for an engine made with room for no message:
  it waits for ever for room.
\<close>

theorem track_returns: "retry_track m now (foldl retry_step (new_retrier n) es) = None \<longleftrightarrow> n = Some 0"
  using retrying_at [of n es] track_facts [of "foldl retry_step (new_retrier n) es" m now] track_none [of "foldl retry_step (new_retrier n) es" m now]
  by (cases "n = Some 0") (auto simp: retrier_at_def RETRY_MAX_PENDING_def split: option.splits)

section \<open>The acknowledgement finds its message\<close>

text \<open>
  An acknowledgement as the engine hears it: from the addressee's station itself, or in the third-party frame an
  IGate made of it.
\<close>

definition heard_ack :: "string \<Rightarrow> string \<Rightarrow> string \<Rightarrow> string \<Rightarrow> bool" where
  "heard_ack from info src payload =
     ((src = from \<and> payload = info)
      \<or> (\<exists>f gate tocall path. payload = uf_payload (tx_igate_frame f gate tocall path) \<and> pf_src f = from \<and> pf_payload f = info
           \<and> CHR '':'' \<notin> set (pf_dst f) \<and> CHR '':'' \<notin> set gate))"

lemma upper_no_colon: "CHR '':'' \<notin> set (js_upper gate)" if "CHR '':'' \<notin> set gate"
proof -
  have "upper_char c = CHR '':'' \<longrightarrow> c = CHR '':''" for c by (rule upper_char_other) (simp add: char_code_def)
  then show ?thesis using that unfolding js_upper_def set_map image_iff by metis
qed

lemma heard_ack_of:
  assumes "heard_ack from (encode_message to (ack_text rej no) None) src payload"
    and "addressable to" "addressable from" "sendable_number no"
  shows "ack_of src payload = Some \<lparr>ai_from = from, ai_to = to, ai_msg_no = no, ai_rej = rej\<rparr>"
proof -
  let ?info = "encode_message to (ack_text rej no) None"
  have up: "js_upper from = from" using assms(3) upper_call by (simp add: addressable_def)
  have direct: "ack_of from ?info = Some \<lparr>ai_from = from, ai_to = to, ai_msg_no = no, ai_rej = rej\<rparr>"
    using assms(2,4) up by (rule ack_of_ack)
  have "ack_of src payload = ack_of from ?info" if "payload = uf_payload (tx_igate_frame f gate tocall path)" "pf_src f = from"
    "pf_payload f = ?info" "CHR '':'' \<notin> set (pf_dst f)" "CHR '':'' \<notin> set gate" for f gate tocall path
  proof -
    let ?hdr = "pf_dst f @ '',TCPIP,'' @ js_upper gate @ ''*''"
    have "payload = ''}'' @ from @ ''>'' @ ?hdr @ '':'' @ ?info" using that by (simp add: tx_igate_frame_def Let_def)
    moreover have "\<forall>c\<in>set ?hdr. c \<noteq> CHR '':''" using that(4) upper_no_colon [OF that(5)] by auto
    ultimately have "third_party_inner payload = Some (from, ?info)" and "is_third_party payload"
      using third_party_inner_gated [OF assms(3)] by (simp_all only:) (simp add: is_third_party_def)
    moreover have "\<not> is_third_party ?info" by (simp add: is_third_party_def encode_message_def Let_def)
    ultimately show ?thesis by (simp add: ack_of_def)
  qed
  then show ?thesis using assms(1) direct unfolding heard_ack_def by metis
qed

text \<open>C19: 
  The acknowledgement the addressee sends settles the message it answers, heard from the addressee itself or
  gated down by whatever IGate, and nothing else: every other message waits on unchanged, and the same
  acknowledgement heard again settles nothing.
\<close>

theorem ack_settles_its_message:
  assumes run: "st = foldl retry_step (new_retrier n) es" "retry_track m now st = Some st1"
    and calls: "addressable (rm_from m)" "addressable (rm_to m)" "sendable_number (rm_msg_no m)"
    and ack: "heard_ack (rm_to m) (encode_message (rm_from m) (ack_text rej (rm_msg_no m)) None) src payload"
  shows "\<exists>st2. retry_heard src payload st1 = (st2, True)
    \<and> rt_settled st2 = rt_settled st1 @ [(pending_of m now, if rej then Rejected else Acked)]
    \<and> (\<forall>k. jm_get (rt_pending st2) k = (if k = track_key m then None else jm_get (rt_pending st1) k))
    \<and> retry_heard src payload st2 = (st2, False)"
proof -
  have "n \<noteq> Some 0" using run track_returns [of m now n es] by auto
  then have "retrier_ok st" "0 < rt_max st"
    using retrying_at [of n es] run(1) by (auto simp: retrier_at_def RETRY_MAX_PENDING_def split: option.splits)
  then have get: "jm_get (rt_pending st1) (track_key m) = Some (pending_of m now)"
    using track_facts [of st m now] run(2) by auto
  have heard: "ack_of src payload = Some \<lparr>ai_from = rm_to m, ai_to = rm_from m, ai_msg_no = rm_msg_no m, ai_rej = rej\<rparr>"
    using ack calls by (intro heard_ack_of)
  let ?st2 = "retry_settle (track_key m) (if rej then Rejected else Acked) st1"
  have h: "retry_heard src payload s = (case jm_get (rt_pending s) (track_key m) of None \<Rightarrow> (s, False)
      | Some _ \<Rightarrow> (retry_settle (track_key m) (if rej then Rejected else Acked) s, True))" for s
    by (simp add: retry_heard_def heard track_key_def Let_def split: option.split)
  have "rt_settled ?st2 = rt_settled st1 @ [(pending_of m now, if rej then Rejected else Acked)]"
    by (simp add: retry_settle_def get)
  moreover have "\<forall>k. jm_get (rt_pending ?st2) k = (if k = track_key m then None else jm_get (rt_pending st1) k)"
    by (simp del: settle_facts)
  moreover have "retry_heard src payload st1 = (?st2, True)" "retry_heard src payload ?st2 = (?st2, False)"
    unfolding h using get by (simp_all del: settle_facts)
  ultimately show ?thesis by blast
qed

lemma ack_settles_its_message_witness:
  "\<exists>st1 st2. retry_track \<lparr>rm_from = ''OE6ABC-9'', rm_to = ''OE6XYZ'', rm_msg_no = ''7'', rm_hf = False, rm_ref = None\<rparr> 0 (new_retrier None) = Some st1
    \<and> retry_heard ''OE6XGR-10'' ''}OE6XYZ>APRS,TCPIP,OE6XGR-10*::OE6ABC-9 :ack7'' st1 = (st2, True) \<and> rt_pending st2 = []"
proof -
  let ?m = "\<lparr>rm_from = ''OE6ABC-9'', rm_to = ''OE6XYZ'', rm_msg_no = ''7'', rm_hf = False, rm_ref = None\<rparr>"
  let ?info = "encode_message ''OE6ABC-9'' (ack_text False ''7'') None"
  have t: "retry_track ?m 0 (new_retrier None) \<noteq> None" using track_returns [of ?m 0 None "[]"] by simp
  then obtain st1 where st1: "retry_track ?m 0 (new_retrier None) = Some st1" by blast
  have calls: "addressable ''OE6ABC-9''" "addressable ''OE6XYZ''" "sendable_number ''7''" by code_simp+
  have "''}OE6XYZ>APRS,TCPIP,OE6XGR-10*::OE6ABC-9 :ack7'' = uf_payload (tx_igate_frame
      \<lparr>pf_src = ''OE6XYZ'', pf_dst = ''APRS'', pf_path = [], pf_payload = ?info, pf_raw = []\<rparr> ''OE6XGR-10'' None None)"
    by code_simp
  then have h: "heard_ack ''OE6XYZ'' ?info ''OE6XGR-10'' ''}OE6XYZ>APRS,TCPIP,OE6XGR-10*::OE6ABC-9 :ack7''"
    unfolding heard_ack_def by (intro disjI2) (rule exI, rule exI [of _ "''OE6XGR-10''"], rule exI, rule exI, rule conjI, assumption, simp)
  obtain st2 where st2: "retry_heard ''OE6XGR-10'' ''}OE6XYZ>APRS,TCPIP,OE6XGR-10*::OE6ABC-9 :ack7'' st1 = (st2, True)"
    "\<forall>k. jm_get (rt_pending st2) k = (if k = track_key ?m then None else jm_get (rt_pending st1) k)"
    using ack_settles_its_message [of "new_retrier None" None "[]" ?m 0 st1 False "''OE6XGR-10''"
        "''}OE6XYZ>APRS,TCPIP,OE6XGR-10*::OE6ABC-9 :ack7''"] st1 calls h by auto
  have "retry_track ?m 0 (new_retrier None) = Some ((new_retrier None)\<lparr>rt_pending := [(track_key ?m, pending_of ?m 0)],
      rt_stats := (rt_stats (new_retrier None))\<lparr>st_messages := 1\<rparr>\<rparr>)"
    by (simp add: retry_track_def evict_room new_retrier_def RETRY_MAX_PENDING_def Let_def track_key_def)
  then have "rt_pending st1 = [(track_key ?m, pending_of ?m 0)]" using st1 by simp
  then have "jm_get (rt_pending st2) k = None" for k using st2(2) by simp
  then have "rt_pending st2 = []" by (cases "rt_pending st2") (auto, metis option.distinct(1))
  then show ?thesis using st1 st2(1) by blast
qed

section \<open>Giving up\<close>

text \<open>An entry as long as it waits: since when, and the latest time its next turn can be.\<close>

definition waits_since :: "string \<Rightarrow> int \<Rightarrow> bool \<Rightarrow> int \<Rightarrow> retrier \<Rightarrow> bool" where
  "waits_since k start hf t st =
     (\<forall>m. jm_get (rt_pending st) k = Some m \<longrightarrow> pr_first_at m = start \<and> rm_hf m = hf \<and> pr_next_at m \<le> t + 1800000)"

lemma tick_entry_waits:
  assumes "waits_since k start hf t st" "jm_get (rt_pending st) k' = Some m" "t \<le> now"
  shows "waits_since k start hf now (tick_entry now resend k' m st)"
proof (cases "k' = k")
  case True
  have m: "pr_first_at m = start" "rm_hf m = hf" "pr_next_at m \<le> t + 1800000" using assms(1,2) by (simp_all add: waits_since_def True)
  have g: "pr_tries m < length (retry_gaps hf) \<Longrightarrow> retry_gaps hf ! pr_tries m * 1000 \<le> 1800000"
    using gaps_bound [of "pr_tries m" hf] by linarith
  show ?thesis using m g assms(2,3) unfolding waits_since_def tick_entry_def Let_def True
    by (auto simp: RETRY_HELD_SEC_def m(2) split: try_result.split)
next
  case False
  then show ?thesis using assms(1,3) tick_entry_others [of k k'] by (fastforce simp: waits_since_def)
qed

lemma tick_entry_settles:
  assumes "jm_get (rt_pending st) k = Some m" "pr_next_at m \<le> now" "retry_span_ms (rm_hf m) + 3600000 < now - pr_first_at m"
  shows "jm_get (rt_pending (tick_entry now resend k m st)) k = None"
  using assms by (simp add: tick_entry_def)

lemma tick_entries_others: "k \<notin> fst ` set ms \<Longrightarrow> jm_get (rt_pending (tick_entries now resend ms st)) k = jm_get (rt_pending st) k"
  by (induction now resend ms st rule: tick_entries.induct) (simp_all add: tick_entry_others)

lemma entries_rest:
  "distinct (map fst ((k, m) # ms)) \<Longrightarrow> \<forall>(k', m')\<in>set ((k, m) # ms). jm_get (rt_pending st) k' = Some m' \<Longrightarrow>
    \<forall>(k', m')\<in>set ms. jm_get (rt_pending (tick_entry now resend k m st)) k' = Some m'"
  using tick_entry_others by (fastforce simp: image_iff)

lemma tick_entries_waits:
  "distinct (map fst ms) \<Longrightarrow> \<forall>(k, m)\<in>set ms. jm_get (rt_pending st) k = Some m \<Longrightarrow> waits_since k start hf t st \<Longrightarrow> t \<le> now \<Longrightarrow>
    waits_since k start hf now (tick_entries now resend ms st)"
proof (induction now resend ms st arbitrary: t rule: tick_entries.induct)
  case (1 now resend st)
  then show ?case by (fastforce simp: waits_since_def)
next
  case (2 now resend k' m ms st)
  have "waits_since k start hf now (tick_entry now resend k' m st)" using 2(3-5) by (intro tick_entry_waits) auto
  then show ?case using 2(1) [OF _ entries_rest [OF 2(2,3)]] 2(2) by simp
qed

lemma tick_entries_settles:
  "distinct (map fst ms) \<Longrightarrow> \<forall>(k, m)\<in>set ms. jm_get (rt_pending st) k = Some m \<Longrightarrow> (k, m) \<in> set ms \<Longrightarrow>
    pr_next_at m \<le> now \<Longrightarrow> retry_span_ms (rm_hf m) + 3600000 < now - pr_first_at m \<Longrightarrow>
    jm_get (rt_pending (tick_entries now resend ms st)) k = None"
proof (induction now resend ms st rule: tick_entries.induct)
  case (2 now resend k' m' ms st)
  show ?case
  proof (cases "k' = k")
    case True
    then have "m' = m" "k \<notin> fst ` set ms" using 2(2,4) by (auto simp: image_iff)
    then show ?thesis using 2(3,5,6) True by (simp add: tick_entries_others tick_entry_settles)
  next
    case False
    then show ?thesis using 2(1) [OF _ entries_rest [OF 2(2,3)]] 2(2,4-6) by simp
  qed
qed simp

text \<open>Ticks at the times given, with whatever the radio answers to each try.\<close>

fun ticks :: "(int \<times> (pending_retry \<Rightarrow> try_result)) list \<Rightarrow> retrier \<Rightarrow> retrier" where
  "ticks [] st = st"
| "ticks ((now, resend) # ts) st = ticks ts (retry_tick now resend st)"

lemma tick_pending_ok: "retrier_ok st \<Longrightarrow> distinct (map fst (rt_pending st)) \<and> (\<forall>(k, m)\<in>set (rt_pending st). jm_get (rt_pending st) k = Some m)"
  by (auto simp: retrier_ok_def jm_ok_def)

lemma ticks_waits:
  "retrier_ok st \<Longrightarrow> waits_since k start hf t st \<Longrightarrow> sorted (t # map fst ts) \<Longrightarrow>
    retrier_ok (ticks ts st) \<and> waits_since k start hf (last (t # map fst ts)) (ticks ts st)"
proof (induction ts st arbitrary: t rule: ticks.induct)
  case (2 now resend ts st)
  have "waits_since k start hf now (retry_tick now resend st)"
    using tick_pending_ok [OF 2(2)] 2(3,4) unfolding retry_tick_def by (intro tick_entries_waits) auto
  then show ?case using 2(1) [OF tick_ok [OF 2(2)]] 2(4) by simp
qed simp

text \<open>
  No message is repeated for ever: whatever the radio answers, and however often it is held, once a tick has come
  an hour and the length of the schedule after the message first went out, the first tick half an hour later
  finds it settled or settles it.
\<close>

theorem retry_gives_up:
  assumes run: "st = foldl retry_step (new_retrier n) es" "retry_track m start st = Some st1"
    and times: "sorted (start # map fst ts @ [now])"
    and late: "start + retry_span_ms (rm_hf m) + 3600000 < now" "last (start # map fst ts) + 1800000 \<le> now"
  shows "jm_get (rt_pending (retry_tick now resend (ticks ts st1))) (track_key m) = None"
proof -
  have "n \<noteq> Some 0" using run track_returns [of m start n es] by auto
  then have "retrier_ok st" "0 < rt_max st"
    using retrying_at [of n es] run(1) by (auto simp: retrier_at_def RETRY_MAX_PENDING_def split: option.splits)
  then have "retrier_ok st1" and get: "jm_get (rt_pending st1) (track_key m) = Some (pending_of m start)"
    using track_facts [of st m start] run(2) by auto
  moreover have "waits_since (track_key m) start (rm_hf m) start st1"
    using get gaps_bound [of 0 "rm_hf m"] by (auto simp: waits_since_def pending_of_def)
  ultimately have w: "retrier_ok (ticks ts st1)" "waits_since (track_key m) start (rm_hf m) (last (start # map fst ts)) (ticks ts st1)"
    using ticks_waits [of st1] times by (auto simp: sorted_append)
  show ?thesis
  proof (cases "jm_get (rt_pending (ticks ts st1)) (track_key m)")
    case None
    then show ?thesis unfolding retry_tick_def by (subst tick_entries_others) (simp_all add: jm_get_None_iff)
  next
    case (Some p)
    then have "pr_first_at p = start" "rm_hf p = rm_hf m" "pr_next_at p \<le> now"
      using w(2) late(2) by (auto simp: waits_since_def)
    then show ?thesis unfolding retry_tick_def using tick_pending_ok [OF w(1)] map_of_SomeD [OF Some] late(1)
      by (intro tick_entries_settles) auto
  qed
qed

lemma retry_gives_up_witness:
  "\<exists>st1. retry_track \<lparr>rm_from = ''OE6ABC-9'', rm_to = ''OE6XYZ'', rm_msg_no = ''7'', rm_hf = False, rm_ref = None\<rparr> 0 (new_retrier None) = Some st1
    \<and> jm_get (rt_pending (retry_tick 4530001 (\<lambda>_. Sent) (ticks [(30000, \<lambda>_. Held)] st1))) ''OE6ABC-9|OE6XYZ|7'' = None"
proof -
  let ?m = "\<lparr>rm_from = ''OE6ABC-9'', rm_to = ''OE6XYZ'', rm_msg_no = ''7'', rm_hf = False, rm_ref = None\<rparr>"
  obtain st1 where st1: "retry_track ?m 0 (new_retrier None) = Some st1" using track_returns [of ?m 0 None "[]"] by auto
  have k: "track_key ?m = ''OE6ABC-9|OE6XYZ|7''" "retry_span_ms False = 930000" by code_simp+
  have "jm_get (rt_pending (retry_tick 4530001 (\<lambda>_. Sent) (ticks [(30000, \<lambda>_. Held)] st1))) (track_key ?m) = None"
    by (rule retry_gives_up [of "new_retrier None" None "[]" ?m 0 st1]) (simp_all add: st1 k)
  then show ?thesis using st1 unfolding k(1) by blast
qed

end
