(* ===== verification/Netrom_Circuit.thy ===== *)
theory Netrom_Circuit
  imports Netrom_Wire Interfaces
begin

text \<open>
  The NET/ROM transport circuit: \<open>packages/packet/src/netrom-circuit.ts\<close>. The host's clock is the
  argument \<open>now\<close> of the operations that read it; the calls of the host's \<open>send\<close>,
  \<open>deliver\<close> and \<open>state\<close> are recorded in order in \<open>ci_log\<close>.
\<close>

section \<open>State\<close>

definition NR_MAX_INFO :: nat where "NR_MAX_INFO = 236"
definition MOD256 :: nat where "MOD256 = 256"
definition MAX_TXQ :: nat where "MAX_TXQ = 2048"

datatype circuit_state = Cs_Disconnected | Cs_Connecting | Cs_Connected | Cs_Disconnecting

datatype circuit_event =
    Ce_Send nr_transport "byte list"
  | Ce_Deliver "byte list"
  | Ce_State circuit_state circuit_state

record circuit =
  ci_state :: circuit_state
  ci_my_index :: nat
  ci_my_id :: nat
  ci_your_index :: nat
  ci_your_id :: nat
  ci_vs :: nat
  ci_va :: nat
  ci_vr :: nat
  ci_window :: nat
  ci_choked :: bool
  ci_txq :: "(byte list \<times> bool) list"
  ci_sent :: "(nat \<times> byte list \<times> bool) list"
  ci_rx_frag :: "byte list list"
  ci_t1_ms :: int
  ci_n2 :: nat
  ci_t1 :: int
  ci_rc :: nat
  ci_conn_req_info :: "byte list option"
  ci_origin :: "(address \<times> address) option"
  ci_log :: "circuit_event list"

definition new_circuit :: "nat \<Rightarrow> nat \<Rightarrow> (address \<times> address) option \<Rightarrow> int \<Rightarrow> nat \<Rightarrow> circuit" where
  "new_circuit index cid origin t1_ms n2 =
     \<lparr>ci_state = Cs_Disconnected, ci_my_index = index, ci_my_id = cid, ci_your_index = 0, ci_your_id = 0,
      ci_vs = 0, ci_va = 0, ci_vr = 0, ci_window = 4, ci_choked = False, ci_txq = [], ci_sent = [], ci_rx_frag = [],
      ci_t1_ms = t1_ms, ci_n2 = n2, ci_t1 = 0, ci_rc = 0, ci_conn_req_info = None, ci_origin = origin, ci_log = []\<rparr>"

section \<open>Timer and output\<close>

definition arm_fresh :: "int \<Rightarrow> circuit \<Rightarrow> circuit" where
  "arm_fresh now c = c\<lparr>ci_t1 := now + ci_t1_ms c, ci_rc := 0\<rparr>"

definition rearm :: "int \<Rightarrow> circuit \<Rightarrow> circuit" where
  "rearm now c = c\<lparr>ci_t1 := now + ci_t1_ms c\<rparr>"

definition disarm :: "circuit \<Rightarrow> circuit" where
  "disarm c = c\<lparr>ci_t1 := 0, ci_rc := 0\<rparr>"

definition ci_tx :: "nr_transport \<Rightarrow> byte list \<Rightarrow> circuit \<Rightarrow> circuit" where
  "ci_tx tp info c = c\<lparr>ci_log := ci_log c @ [Ce_Send tp info]\<rparr>"

definition ci_to :: "circuit_state \<Rightarrow> circuit \<Rightarrow> circuit" where
  "ci_to s c = (if s \<noteq> ci_state c then c\<lparr>ci_state := s, ci_log := ci_log c @ [Ce_State s (ci_state c)]\<rparr> else c)"

definition to_peer :: "circuit \<Rightarrow> nat \<Rightarrow> nat \<Rightarrow> nat \<Rightarrow> byte \<Rightarrow> nr_transport" where
  "to_peer c tx rx op flags =
     \<lparr>tp_opcode = op, tp_flags = flags, tp_circuit_index = ci_your_index c, tp_circuit_id = ci_your_id c,
      tp_tx_seq = tx, tp_rx_seq = rx\<rparr>"

definition conn_req :: "circuit \<Rightarrow> nr_transport" where
  "conn_req c =
     \<lparr>tp_opcode = Op_ConnReq, tp_flags = 0, tp_circuit_index = ci_my_index c, tp_circuit_id = ci_my_id c,
      tp_tx_seq = 0, tp_rx_seq = 0\<rparr>"

definition outstanding :: "circuit \<Rightarrow> nat" where
  "outstanding c = (ci_vs c + MOD256 - ci_va c) mod MOD256"

definition more_flag :: "bool \<Rightarrow> byte" where
  "more_flag mf = (if mf then NR_MORE else 0)"

function pump_loop :: "circuit \<Rightarrow> circuit" where
  "pump_loop c =
     (case ci_txq c of
        [] \<Rightarrow> c
      | (info, mf) # q \<Rightarrow>
          if ci_choked c \<or> \<not> outstanding c < ci_window c then c
          else let s = ci_vs c;
                   c = c\<lparr>ci_txq := q, ci_vs := (s + 1) mod MOD256, ci_sent := ci_sent c @ [(s, info, mf)]\<rparr>
               in pump_loop (ci_tx (to_peer c s (ci_vr c) Op_Info (more_flag mf)) info c))"
  by pat_completeness auto
termination
  by (relation "measure (\<lambda>c. length (ci_txq c))") (auto simp: ci_tx_def)

declare pump_loop.simps [simp del]

definition pump :: "int \<Rightarrow> circuit \<Rightarrow> circuit" where
  "pump now c = (let c = pump_loop c in if ci_sent c \<noteq> [] \<and> ci_t1 c = 0 then arm_fresh now c else c)"

section \<open>Operations\<close>

fun resend :: "(nat \<times> byte list \<times> bool) list \<Rightarrow> circuit \<Rightarrow> circuit" where
  "resend [] c = c"
| "resend ((s, info, mf) # ss) c = resend ss (ci_tx (to_peer c s (ci_vr c) Op_Info (more_flag mf)) info c)"

definition ci_poll :: "int \<Rightarrow> circuit \<Rightarrow> circuit" where
  "ci_poll now c =
     (if ci_t1 c = 0 \<or> now < ci_t1 c then c
      else if ci_rc c \<ge> ci_n2 c then ci_to Cs_Disconnected (disarm c)
      else let c = c\<lparr>ci_rc := ci_rc c + 1\<rparr>
           in rearm now
                (case (ci_state c, ci_conn_req_info c) of
                   (Cs_Connecting, Some info) \<Rightarrow> ci_tx (conn_req c) info c
                 | (Cs_Disconnecting, _) \<Rightarrow> ci_tx (to_peer c 0 0 Op_DiscReq 0) [] c
                 | (Cs_Connected, _) \<Rightarrow> resend (ci_sent c) c
                 | _ \<Rightarrow> c))"

definition ci_connect :: "int \<Rightarrow> nat \<Rightarrow> circuit \<Rightarrow> circuit" where
  "ci_connect now window c =
     (case (ci_state c, ci_origin c) of
        (Cs_Disconnected, Some (user, node)) \<Rightarrow>
          let info = [byte_of window] @ encode_address user False False @ encode_address node False True;
              c = c\<lparr>ci_window := window, ci_conn_req_info := Some info\<rparr>
          in ci_to Cs_Connecting (arm_fresh now (ci_tx (conn_req c) info c))
      | _ \<Rightarrow> c)"

definition ci_disconnect :: "int \<Rightarrow> circuit \<Rightarrow> circuit" where
  "ci_disconnect now c =
     (if ci_state c = Cs_Disconnected \<or> ci_state c = Cs_Disconnecting then c
      else ci_to Cs_Disconnecting (arm_fresh now (ci_tx (to_peer c 0 0 Op_DiscReq 0) [] c)))"

text \<open>Every fragment but the last is marked as having more to follow.\<close>

definition fragments :: "byte list \<Rightarrow> (byte list \<times> bool) list" where
  "fragments info = (let fs = chunks NR_MAX_INFO info in map (\<lambda>f. (f, True)) (butlast fs) @ [(last fs, False)])"

definition ci_send :: "int \<Rightarrow> byte list \<Rightarrow> circuit \<Rightarrow> circuit" where
  "ci_send now info c =
     (let frags = fragments info
      in if length (ci_txq c) + length frags > MAX_TXQ then c
         else let c = c\<lparr>ci_txq := ci_txq c @ frags\<rparr>
              in if ci_state c = Cs_Connected then pump now c else c)"

definition on_conn_req :: "int \<Rightarrow> nr_transport \<Rightarrow> byte list \<Rightarrow> circuit \<Rightarrow> circuit" where
  "on_conn_req now tp info c =
     (let proposed = (case info of [] \<Rightarrow> ci_window c | b # _ \<Rightarrow> unat b);
          c = c\<lparr>ci_your_index := tp_circuit_index tp, ci_your_id := tp_circuit_id tp,
                ci_window := min (if proposed = 0 then ci_window c else proposed) (ci_window c)\<rparr>
      in pump now (ci_to Cs_Connected
           (ci_tx (to_peer c (ci_my_index c) (ci_my_id c) Op_ConnAck 0) [byte_of (ci_window c)] c)))"

definition on_conn_ack :: "int \<Rightarrow> nr_transport \<Rightarrow> byte list \<Rightarrow> circuit \<Rightarrow> circuit" where
  "on_conn_ack now tp info c =
     (if ci_state c \<noteq> Cs_Connecting then c
      else if odd (tp_opcode tp div 128) then ci_to Cs_Disconnected (disarm c)
      else let w = (case info of [] \<Rightarrow> 0 | b # _ \<Rightarrow> unat b);
               c = c\<lparr>ci_your_index := tp_tx_seq tp, ci_your_id := tp_rx_seq tp,
                     ci_window := max 1 (min (if w = 0 then ci_window c else w) (ci_window c))\<rparr>
           in pump now (ci_to Cs_Connected (disarm c)))"

definition on_disc_req :: "circuit \<Rightarrow> circuit" where
  "on_disc_req c = ci_to Cs_Disconnected (disarm (ci_tx (to_peer c 0 0 Op_DiscAck 0) [] c))"

definition on_disc_ack :: "circuit \<Rightarrow> circuit" where
  "on_disc_ack c = (if ci_state c = Cs_Disconnecting then ci_to Cs_Disconnected (disarm c) else c)"

definition accept_info :: "nr_transport \<Rightarrow> byte list \<Rightarrow> circuit \<Rightarrow> circuit" where
  "accept_info tp info c =
     (if tp_tx_seq tp \<noteq> ci_vr c then c
      else let c = c\<lparr>ci_vr := (ci_vr c + 1) mod MOD256, ci_rx_frag := ci_rx_frag c @ [info]\<rparr>
           in if tp_flags tp AND NR_MORE \<noteq> 0 then c
              else c\<lparr>ci_rx_frag := [], ci_log := ci_log c @ [Ce_Deliver (concat (ci_rx_frag c))]\<rparr>)"

definition on_info :: "nr_transport \<Rightarrow> byte list \<Rightarrow> circuit \<Rightarrow> circuit" where
  "on_info tp info c =
     (if ci_state c \<noteq> Cs_Connected then c
      else let c = accept_info tp info c
           in ci_tx (to_peer c 0 (ci_vr c) Op_InfoAck 0) [] c)"

fun ack_loop :: "nat \<Rightarrow> nat \<Rightarrow> (nat \<times> byte list \<times> bool) list \<Rightarrow> nat \<times> (nat \<times> byte list \<times> bool) list" where
  "ack_loop rx va [] = (va, [])"
| "ack_loop rx va ((s, f) # ss) =
     (if va \<noteq> rx \<and> s = va then ack_loop rx ((va + 1) mod MOD256) ss else (va, (s, f) # ss))"

definition on_info_ack :: "int \<Rightarrow> nr_transport \<Rightarrow> circuit \<Rightarrow> circuit" where
  "on_info_ack now tp c =
     (let choked = (tp_flags tp AND NR_CHOKE \<noteq> 0);
          (va, sent) = ack_loop (tp_rx_seq tp) (ci_va c) (ci_sent c);
          c = c\<lparr>ci_choked := choked, ci_va := va, ci_sent := sent\<rparr>;
          c = (if sent \<noteq> [] then arm_fresh now c else disarm c)
      in if ci_state c = Cs_Connected \<and> \<not> choked then pump now c else c)"

definition on_packet :: "int \<Rightarrow> nr_transport \<Rightarrow> byte list \<Rightarrow> circuit \<Rightarrow> circuit" where
  "on_packet now tp info c =
     (if tp_opcode tp = Op_ConnReq then on_conn_req now tp info c
      else if tp_opcode tp = Op_ConnAck then on_conn_ack now tp info c
      else if tp_opcode tp = Op_DiscReq then on_disc_req c
      else if tp_opcode tp = Op_DiscAck then on_disc_ack c
      else if tp_opcode tp = Op_Info then on_info tp info c
      else if tp_opcode tp = Op_InfoAck then on_info_ack now tp c
      else c)"

text \<open>The window and the calls a connect request carries.\<close>

definition origin_of :: "byte list \<Rightarrow> (nat \<times> address \<times> address) option" where
  "origin_of info =
     (if length info < 15 then None
      else Some (unat (info ! 0), da_addr (decode_address (drop 1 info)), da_addr (decode_address (drop 8 info))))"

section \<open>The sending half\<close>

text \<open>
  \<open>S\<close> is every fragment the circuit ever took over for sending; \<open>a\<close> of them are
  acknowledged and \<open>n\<close> have been sent, counted without wrap-around. The half is
  consistent when the numbers on the wire are these modulo 256, the unacknowledged fragments
  are the ones in between, the queue holds the rest and no mf than the window \<open>W\<close> is out.
\<close>

definition numbered :: "(byte list \<times> bool) list \<Rightarrow> nat \<Rightarrow> nat \<Rightarrow> (nat \<times> byte list \<times> bool) list" where
  "numbered S a n = map (\<lambda>i. (i mod MOD256, S ! i)) [a..<n]"

definition tx_half :: "nat \<Rightarrow> (byte list \<times> bool) list \<Rightarrow> nat \<Rightarrow> nat \<Rightarrow> circuit \<Rightarrow> bool" where
  "tx_half W S a n c = (a \<le> n \<and> n \<le> length S \<and> n \<le> a + W \<and> ci_window c \<le> W \<and> W < 128
     \<and> ci_va c = a mod MOD256 \<and> ci_vs c = n mod MOD256
     \<and> ci_sent c = numbered S a n \<and> ci_txq c = drop n S)"

text \<open>The receiving half: what is waiting for its last fragment and the number expected.\<close>

definition rx_half :: "nat \<Rightarrow> byte list list \<Rightarrow> circuit \<Rightarrow> bool" where
  "rx_half r frags c = (ci_vr c = r mod MOD256 \<and> ci_rx_frag c = frags)"

text \<open>What an operation may put on the wire: information from the unacknowledged part of the stream and acknowledgements of what was received.\<close>

definition info_at :: "(byte list \<times> bool) list \<Rightarrow> nat \<Rightarrow> nr_transport \<Rightarrow> byte list \<Rightarrow> bool" where
  "info_at S i tp info = (tp_tx_seq tp = i mod MOD256 \<and> S ! i = (info, tp_flags tp AND NR_MORE \<noteq> 0))"

definition sound_out :: "(byte list \<times> bool) list \<Rightarrow> nat \<Rightarrow> nat \<Rightarrow> nat \<Rightarrow> circuit_event \<Rightarrow> bool" where
  "sound_out S a n r e = (case e of
     Ce_Send tp info \<Rightarrow> (tp_opcode tp = Op_Info \<longrightarrow> (\<exists>i. a \<le> i \<and> i < n \<and> info_at S i tp info))
        \<and> (tp_opcode tp = Op_InfoAck \<longrightarrow> tp_rx_seq tp = r mod MOD256)
   | Ce_Deliver _ \<Rightarrow> False
   | Ce_State _ _ \<Rightarrow> True)"

definition quiet :: "nat \<Rightarrow> (byte list \<times> bool) list \<Rightarrow> nat \<Rightarrow> nat \<Rightarrow> nat \<Rightarrow> circuit \<Rightarrow> circuit \<Rightarrow> bool" where
  "quiet W S a n r c c' = (\<exists>n' es. n \<le> n' \<and> tx_half W S a n' c' \<and> ci_vr c' = ci_vr c \<and> ci_rx_frag c' = ci_rx_frag c
     \<and> ci_log c' = ci_log c @ es \<and> (\<forall>e\<in>set es. sound_out S a n' r e))"

lemma numbered_snoc: "a \<le> n \<Longrightarrow> numbered S a (Suc n) = numbered S a n @ [(n mod MOD256, S ! n)]"
  by (simp add: numbered_def)

lemma numbered_Cons: "a < n \<Longrightarrow> numbered S a n = (a mod MOD256, S ! a) # numbered S (Suc a) n"
  by (simp add: numbered_def upt_conv_Cons)

lemma numbered_empty [simp]: "numbered S a a = []"
  by (simp add: numbered_def)

lemma numbered_append: "n \<le> length S \<Longrightarrow> numbered (S @ T) a n = numbered S a n"
  by (auto simp: numbered_def nth_append)

lemma mod_once: "x < 512 \<Longrightarrow> x mod 256 = (if x < 256 then x else x - 256)" for x :: nat
  by (auto simp: le_mod_geq)

lemma outstanding_half: "tx_half W S a n c \<Longrightarrow> outstanding c = n - a"
proof -
  assume h: "tx_half W S a n c"
  have "(n mod 256 + 256 - a mod 256) mod 256 = n - a" if "a \<le> n" "n - a < 256"
  proof -
    have k: "n = a + (n - a)" "n - a < 256" using that by simp_all
    then obtain k where k: "n = a + k" "k < 256" by blast
    let ?b = "a mod 256"
    have b: "?b < 256" by simp
    have "n mod 256 = (?b + k) mod 256" unfolding k(1) by (simp only: mod_add_left_eq)
    also have "\<dots> = (if ?b + k < 256 then ?b + k else ?b + k - 256)"
      using b k(2) by (intro mod_once) linarith
    finally have m: "n mod 256 = (if ?b + k < 256 then ?b + k else ?b + k - 256)" .
    have "(n mod 256 + 256 - ?b) mod 256 = k"
    proof (cases "?b + k < 256")
      case True
      then have "n mod 256 + 256 - ?b = k + 256" using m by simp
      then show ?thesis using k(2) by simp
    next
      case False
      then have "n mod 256 + 256 - ?b = k" using m k(2) b by simp
      then show ?thesis using k(2) by simp
    qed
    then show ?thesis using k by simp
  qed
  moreover have "a \<le> n" "n - a < 256" using h by (auto simp: tx_half_def)
  ultimately show ?thesis using h by (simp add: outstanding_def tx_half_def MOD256_def)
qed

lemma more_flag_bit [simp]: "(more_flag m AND NR_MORE \<noteq> 0) = m"
  by (simp add: more_flag_def NR_MORE_def)

lemma to_peer_fields [simp]:
  "tp_opcode (to_peer c t r op f) = op" "tp_flags (to_peer c t r op f) = f"
  "tp_tx_seq (to_peer c t r op f) = t" "tp_rx_seq (to_peer c t r op f) = r"
  by (simp_all add: to_peer_def)

lemma pump_loop_half:
  "tx_half W S a n c \<Longrightarrow> ci_vr c = r mod MOD256 \<Longrightarrow>
   \<exists>n' es. n \<le> n' \<and> tx_half W S a n' (pump_loop c) \<and> ci_vr (pump_loop c) = ci_vr c \<and> ci_rx_frag (pump_loop c) = ci_rx_frag c
     \<and> ci_log (pump_loop c) = ci_log c @ es \<and> (\<forall>e\<in>set es. sound_out S a n' r e)
     \<and> ci_t1 (pump_loop c) = ci_t1 c \<and> ci_state (pump_loop c) = ci_state c"
proof (induction c arbitrary: n rule: pump_loop.induct)
  case (1 c)
  show ?case
  proof (cases "ci_txq c")
    case Nil
    then show ?thesis using "1.prems" by (intro exI [of _ n] exI [of _ "[]"]) (simp add: pump_loop.simps [of c])
  next
    case (Cons x q)
    obtain info mf where x: "x = (info, mf)" by (cases x)
    show ?thesis
    proof (cases "ci_choked c \<or> \<not> outstanding c < ci_window c")
      case True
      then show ?thesis using "1.prems" Cons x
        by (intro exI [of _ n] exI [of _ "[]"]) (auto simp: pump_loop.simps [of c])
    next
      case False
      note h = "1.prems"(1) [unfolded tx_half_def]
      let ?c = "c\<lparr>ci_txq := q, ci_vs := (ci_vs c + 1) mod MOD256, ci_sent := ci_sent c @ [(ci_vs c, info, mf)]\<rparr>"
      let ?tp = "to_peer ?c (ci_vs c) (ci_vr ?c) Op_Info (more_flag mf)"
      have e: "pump_loop c = pump_loop (ci_tx ?tp info ?c)"
        using False Cons x by (subst pump_loop.simps) (simp add: Let_def)
      have d: "drop n S = (info, mf) # q" using h Cons x by simp
      then have n: "n < length S" by (metis drop_eq_Nil list.distinct(1) not_le)
      then have S: "S ! n = (info, mf)" "drop (Suc n) S = q"
        using d by (metis Cons_nth_drop_Suc list.inject)+
      have out: "n - a < ci_window c" using False outstanding_half [OF "1.prems"(1)] by simp
      have "n < a + W" using out h by linarith
      then have half: "tx_half W S a (Suc n) (ci_tx ?tp info ?c)"
        using h n S by (simp add: tx_half_def ci_tx_def numbered_snoc) (simp add: MOD256_def mod_simps)
      have vr: "ci_vr (ci_tx ?tp info ?c) = r mod MOD256" using "1.prems"(2) by (simp add: ci_tx_def)
      have nc: "\<not> (ci_choked c \<or> \<not> outstanding c < ci_window c)" using False by simp
      from "1.IH" [OF Cons x [symmetric] nc refl refl half vr] obtain n' es where i: "Suc n \<le> n'"
        "tx_half W S a n' (pump_loop (ci_tx ?tp info ?c))"
        "ci_vr (pump_loop (ci_tx ?tp info ?c)) = ci_vr (ci_tx ?tp info ?c)"
        "ci_rx_frag (pump_loop (ci_tx ?tp info ?c)) = ci_rx_frag (ci_tx ?tp info ?c)"
        "ci_log (pump_loop (ci_tx ?tp info ?c)) = ci_log (ci_tx ?tp info ?c) @ es"
        "\<forall>e\<in>set es. sound_out S a n' r e"
        "ci_t1 (pump_loop (ci_tx ?tp info ?c)) = ci_t1 (ci_tx ?tp info ?c)"
        "ci_state (pump_loop (ci_tx ?tp info ?c)) = ci_state (ci_tx ?tp info ?c)" by blast
      have s: "sound_out S a n' r (Ce_Send ?tp info)"
        using h S i(1) by (auto simp: sound_out_def info_at_def nr_ops intro!: exI [of _ n])
      show ?thesis unfolding e
        using i s by (intro exI [of _ n'] exI [of _ "Ce_Send ?tp info # es"]) (auto simp: ci_tx_def)
    qed
  qed
qed

lemma tx_half_timer [simp]:
  "tx_half W S a n (arm_fresh now c) = tx_half W S a n c" "tx_half W S a n (rearm now c) = tx_half W S a n c"
  "tx_half W S a n (disarm c) = tx_half W S a n c" "tx_half W S a n (ci_tx tp info c) = tx_half W S a n c"
  "tx_half W S a n (ci_to s c) = tx_half W S a n c"
  by (simp_all add: tx_half_def arm_fresh_def rearm_def disarm_def ci_tx_def ci_to_def)

lemma rx_fields [simp]:
  "ci_vr (arm_fresh now c) = ci_vr c" "ci_vr (rearm now c) = ci_vr c" "ci_vr (disarm c) = ci_vr c" "ci_vr (ci_tx tp info c) = ci_vr c" "ci_vr (ci_to s c) = ci_vr c"
  "ci_rx_frag (arm_fresh now c) = ci_rx_frag c" "ci_rx_frag (rearm now c) = ci_rx_frag c" "ci_rx_frag (disarm c) = ci_rx_frag c" "ci_rx_frag (ci_tx tp info c) = ci_rx_frag c" "ci_rx_frag (ci_to s c) = ci_rx_frag c"
  by (simp_all add: arm_fresh_def rearm_def disarm_def ci_tx_def ci_to_def)

lemma log_fields [simp]:
  "ci_log (arm_fresh now c) = ci_log c" "ci_log (rearm now c) = ci_log c" "ci_log (disarm c) = ci_log c"
  "ci_log (ci_tx tp info c) = ci_log c @ [Ce_Send tp info]"
  by (simp_all add: arm_fresh_def rearm_def disarm_def ci_tx_def)

lemma pump_quiet:
  assumes "tx_half W S a n c" "ci_vr c = r mod MOD256"
  shows "quiet W S a n r c (pump now c)"
proof -
  from pump_loop_half [OF assms] obtain n' es where p: "n \<le> n'"
    "tx_half W S a n' (pump_loop c)" "ci_vr (pump_loop c) = ci_vr c" "ci_rx_frag (pump_loop c) = ci_rx_frag c"
    "ci_log (pump_loop c) = ci_log c @ es" "\<forall>e\<in>set es. sound_out S a n' r e" by blast
  then show ?thesis unfolding quiet_def
    by (intro exI [of _ n'] exI [of _ es]) (simp add: pump_def Let_def)
qed

lemma quiet_refl: "tx_half W S a n c \<Longrightarrow> quiet W S a n r c c"
  by (auto simp: quiet_def intro!: exI [of _ n])

lemma sound_out_mono: "sound_out S a n r e \<Longrightarrow> n \<le> n' \<Longrightarrow> sound_out S a n' r e"
  by (fastforce simp: sound_out_def split: circuit_event.splits)

text \<open>Control packets, state changes and timers do not touch either half.\<close>

definition control :: "circuit \<Rightarrow> circuit \<Rightarrow> bool" where
  "control c c' = (\<exists>es. ci_vr c' = ci_vr c \<and> ci_rx_frag c' = ci_rx_frag c \<and> ci_log c' = ci_log c @ es
     \<and> (\<forall>e\<in>set es. case e of Ce_Send tp _ \<Rightarrow> tp_opcode tp \<noteq> Op_Info \<and> tp_opcode tp \<noteq> Op_InfoAck
                   | Ce_Deliver _ \<Rightarrow> False | Ce_State _ _ \<Rightarrow> True))"

lemma control_quiet:
  assumes "control c c'" "tx_half W S a n c'"
  shows "quiet W S a n r c c'"
proof -
  obtain es where e: "ci_vr c' = ci_vr c" "ci_rx_frag c' = ci_rx_frag c" "ci_log c' = ci_log c @ es"
    "\<forall>e\<in>set es. case e of Ce_Send tp _ \<Rightarrow> tp_opcode tp \<noteq> Op_Info \<and> tp_opcode tp \<noteq> Op_InfoAck
       | Ce_Deliver _ \<Rightarrow> False | Ce_State _ _ \<Rightarrow> True"
    using assms(1) by (auto simp: control_def)
  have "\<forall>e\<in>set es. sound_out S a n r e"
    using e(4) by (fastforce simp: sound_out_def split: circuit_event.splits)
  then show ?thesis using e assms(2) unfolding quiet_def by blast
qed

lemma quiet_control_trans:
  assumes "control c c1" "quiet W S a n r c1 c2" "a \<le> length S"
  shows "quiet W S a n r c c2"
proof -
  obtain n' es where q: "n \<le> n'" "tx_half W S a n' c2" "ci_vr c2 = ci_vr c1" "ci_rx_frag c2 = ci_rx_frag c1"
     "ci_log c2 = ci_log c1 @ es" "\<forall>e\<in>set es. sound_out S a n' r e"
    using assms(2) by (auto simp: quiet_def)
  obtain es1 where e: "ci_vr c1 = ci_vr c" "ci_rx_frag c1 = ci_rx_frag c" "ci_log c1 = ci_log c @ es1"
    "\<forall>e\<in>set es1. case e of Ce_Send tp _ \<Rightarrow> tp_opcode tp \<noteq> Op_Info \<and> tp_opcode tp \<noteq> Op_InfoAck
       | Ce_Deliver _ \<Rightarrow> False | Ce_State _ _ \<Rightarrow> True"
    using assms(1) by (auto simp: control_def)
  have "\<forall>e\<in>set es1. sound_out S a n' r e"
    using e(4) by (fastforce simp: sound_out_def split: circuit_event.splits)
  then show ?thesis using q e unfolding quiet_def
    by (intro exI [of _ n'] exI [of _ "es1 @ es"]) auto
qed

lemma control_simps [simp]:
  "control c (ci_to s c)" "control c (disarm c)" "control c (arm_fresh now c)" "control c (rearm now c)"
  "tp_opcode tp \<noteq> Op_Info \<Longrightarrow> tp_opcode tp \<noteq> Op_InfoAck \<Longrightarrow> control c (ci_tx tp info c)"
  by (simp_all add: control_def ci_to_def)

lemma control_trans [trans]: "control c d \<Longrightarrow> control d e \<Longrightarrow> control c e"
  by (force simp: control_def)

lemma conn_req_opcode [simp]: "tp_opcode (conn_req c) = Op_ConnReq"
  by (simp add: conn_req_def)

section \<open>What each operation does\<close>

lemma tx_half_le: "tx_half W S a n c \<Longrightarrow> a \<le> length S"
  by (simp add: tx_half_def)

lemma in_numbered: "(s, x) \<in> set (numbered S a n) \<Longrightarrow> \<exists>i. a \<le> i \<and> i < n \<and> s = i mod MOD256 \<and> x = S ! i"
  by (auto simp: numbered_def)

lemma resend_log:
  assumes "\<forall>(s, x)\<in>set ss. \<exists>i. a \<le> i \<and> i < n \<and> s = i mod MOD256 \<and> x = S ! i"
  shows "\<exists>es. ci_log (resend ss c) = ci_log c @ es \<and> (\<forall>e\<in>set es. sound_out S a n r e)
    \<and> tx_half W S a n (resend ss c) = tx_half W S a n c \<and> ci_vr (resend ss c) = ci_vr c \<and> ci_rx_frag (resend ss c) = ci_rx_frag c"
  using assms
proof (induction ss arbitrary: c)
  case (Cons x ss)
  obtain s info mf where x: "x = (s, info, mf)" by (cases x)
  obtain i where i: "a \<le> i" "i < n" "s = i mod MOD256" "S ! i = (info, mf)" using Cons.prems x by force
  let ?tp = "to_peer c s (ci_vr c) Op_Info (more_flag mf)"
  have s: "sound_out S a n r (Ce_Send ?tp info)"
    using i by (auto simp: sound_out_def info_at_def nr_ops intro!: exI [of _ i])
  have "\<forall>(s, x)\<in>set ss. \<exists>i. a \<le> i \<and> i < n \<and> s = i mod MOD256 \<and> x = S ! i" using Cons.prems by simp
  from Cons.IH [OF this, of "ci_tx ?tp info c"] obtain es where
    "ci_log (resend ss (ci_tx ?tp info c)) = ci_log (ci_tx ?tp info c) @ es" "\<forall>e\<in>set es. sound_out S a n r e"
    "tx_half W S a n (resend ss (ci_tx ?tp info c)) = tx_half W S a n (ci_tx ?tp info c)"
    "ci_vr (resend ss (ci_tx ?tp info c)) = ci_vr (ci_tx ?tp info c)"
    "ci_rx_frag (resend ss (ci_tx ?tp info c)) = ci_rx_frag (ci_tx ?tp info c)" by blast
  then show ?case using x s by (intro exI [of _ "Ce_Send ?tp info # es"]) simp
qed simp

lemma quietI:
  "tx_half W S a n c' \<Longrightarrow> ci_vr c' = ci_vr c \<Longrightarrow> ci_rx_frag c' = ci_rx_frag c \<Longrightarrow> ci_log c' = ci_log c @ es \<Longrightarrow>
   \<forall>e\<in>set es. sound_out S a n r e \<Longrightarrow> quiet W S a n r c c'"
  unfolding quiet_def by blast

lemma poll_quiet:
  assumes "tx_half W S a n c"
  shows "quiet W S a n r c (ci_poll now c)"
proof -
  let ?c = "c\<lparr>ci_rc := Suc (ci_rc c)\<rparr>"
  have h: "tx_half W S a n ?c" "control c ?c" using assms by (simp_all add: tx_half_def control_def)
  consider "ci_t1 c = 0 \<or> now < ci_t1 c" | "\<not> (ci_t1 c = 0 \<or> now < ci_t1 c)" "ci_rc c \<ge> ci_n2 c"
    | "\<not> (ci_t1 c = 0 \<or> now < ci_t1 c)" "ci_rc c < ci_n2 c" by linarith
  then show ?thesis
  proof cases
    case 1
    then show ?thesis using quiet_refl [OF assms] by (auto simp: ci_poll_def)
  next
    case 2
    then have e: "ci_poll now c = ci_to Cs_Disconnected (disarm c)" by (auto simp: ci_poll_def)
    have "control c (ci_to Cs_Disconnected (disarm c))" by (rule control_trans [OF control_simps(2) control_simps(1)])
    then show ?thesis unfolding e by (rule control_quiet [where n = n]) (simp add: assms)
  next
    case 3
    have e: "ci_poll now c = rearm now (case (ci_state c, ci_conn_req_info c) of
        (Cs_Connecting, Some info) \<Rightarrow> ci_tx (conn_req ?c) info ?c
      | (Cs_Disconnecting, _) \<Rightarrow> ci_tx (to_peer ?c 0 0 Op_DiscReq 0) [] ?c
      | (Cs_Connected, _) \<Rightarrow> resend (ci_sent ?c) ?c | _ \<Rightarrow> ?c)"
      using 3 by (simp add: ci_poll_def Let_def split: circuit_state.split option.split)
    have t: "control c (rearm now (ci_tx tp info ?c))"
      if "tp_opcode tp \<noteq> Op_Info" "tp_opcode tp \<noteq> Op_InfoAck" for tp info
      by (rule control_trans [OF h(2) control_trans [OF control_simps(5) control_simps(4)]]) (simp_all add: that)
    have r: "control c (rearm now ?c)" by (rule control_trans [OF h(2) control_simps(4)])
    show ?thesis
    proof (cases "ci_state c")
      case Cs_Connected
      have "\<forall>(s, x)\<in>set (ci_sent ?c). \<exists>i. a \<le> i \<and> i < n \<and> s = i mod MOD256 \<and> x = S ! i"
        using assms in_numbered [of _ _ S a n] by (auto simp: tx_half_def)
      from resend_log [OF this, of ?c r W] obtain es where s:
        "ci_log (resend (ci_sent ?c) ?c) = ci_log ?c @ es" "\<forall>e\<in>set es. sound_out S a n r e"
        "tx_half W S a n (resend (ci_sent ?c) ?c) = tx_half W S a n ?c"
        "ci_vr (resend (ci_sent ?c) ?c) = ci_vr ?c" "ci_rx_frag (resend (ci_sent ?c) ?c) = ci_rx_frag ?c" by blast
      have e2: "ci_poll now c = rearm now (resend (ci_sent ?c) ?c)" using e Cs_Connected by simp
      show ?thesis unfolding e2 by (rule quietI [of W S a n _ c es]) (use s h(1) in simp_all)
    next
      case Cs_Disconnecting
      then have e2: "ci_poll now c = rearm now (ci_tx (to_peer ?c 0 0 Op_DiscReq 0) [] ?c)" using e by simp
      show ?thesis unfolding e2 by (intro control_quiet [where n = n] t) (simp_all add: h nr_ops)
    next
      case Cs_Connecting
      show ?thesis
      proof (cases "ci_conn_req_info c")
        case None
        then have e2: "ci_poll now c = rearm now ?c" using e Cs_Connecting by simp
        show ?thesis unfolding e2 by (intro control_quiet [where n = n] r) (simp add: h)
      next
        case (Some info)
        then have e2: "ci_poll now c = rearm now (ci_tx (conn_req ?c) info ?c)" using e Cs_Connecting by simp
        show ?thesis unfolding e2 by (intro control_quiet [where n = n] t) (simp_all add: h nr_ops)
      qed
    next
      case Cs_Disconnected
      then have e2: "ci_poll now c = rearm now ?c" using e by simp
      show ?thesis unfolding e2 by (intro control_quiet [where n = n] r) (simp add: h)
    qed
  qed
qed

lemma connect_quiet:
  assumes "tx_half W S a n c" "w \<le> W"
  shows "quiet W S a n r c (ci_connect now w c)"
proof -
  consider "ci_connect now w c = c" | info where "ci_connect now w c =
      ci_to Cs_Connecting (arm_fresh now (ci_tx (conn_req (c\<lparr>ci_window := w, ci_conn_req_info := Some info\<rparr>)) info (c\<lparr>ci_window := w, ci_conn_req_info := Some info\<rparr>)))"
  proof (cases "ci_state c = Cs_Disconnected \<and> ci_origin c \<noteq> None")
    case True
    then obtain u v where "ci_state c = Cs_Disconnected" "ci_origin c = Some (u, v)" by auto
    then show ?thesis
      by (intro that(2) [of "[byte_of w] @ encode_address u False False @ encode_address v False True"])
        (simp add: ci_connect_def Let_def)
  next
    case False
    then have "ci_connect now w c = c" by (simp add: ci_connect_def split: circuit_state.split option.split)
    then show ?thesis by (rule that(1))
  qed
  then show ?thesis
  proof cases
    case 1
    then show ?thesis using quiet_refl [OF assms(1)] by simp
  next
    case (2 info)
    let ?c = "c\<lparr>ci_window := w, ci_conn_req_info := Some info\<rparr>"
    have h: "tx_half W S a n ?c" using assms by (simp add: tx_half_def)
    have "control c ?c" by (simp add: control_def)
    also have "control ?c (ci_tx (conn_req ?c) info ?c)" by (simp add: nr_ops)
    also have "control \<dots> (arm_fresh now \<dots>)" by simp
    also have "control \<dots> (ci_to Cs_Connecting \<dots>)" by simp
    finally show ?thesis unfolding 2 by (rule control_quiet [where n = n]) (simp add: h)
  qed
qed

lemma disconnect_quiet:
  assumes "tx_half W S a n c"
  shows "quiet W S a n r c (ci_disconnect now c)"
proof (cases "ci_state c = Cs_Disconnected \<or> ci_state c = Cs_Disconnecting")
  case True
  then show ?thesis using quiet_refl [OF assms] by (simp add: ci_disconnect_def)
next
  case False
  have "control c (ci_tx (to_peer c 0 0 Op_DiscReq 0) [] c)" by (simp add: nr_ops)
  also have "control \<dots> (arm_fresh now \<dots>)" by simp
  also have "control \<dots> (ci_to Cs_Disconnecting \<dots>)" by simp
  finally have "quiet W S a n r c (ci_to Cs_Disconnecting (arm_fresh now (ci_tx (to_peer c 0 0 Op_DiscReq 0) [] c)))"
    by (rule control_quiet [where n = n]) (simp add: assms)
  then show ?thesis using False by (simp add: ci_disconnect_def)
qed

lemma control_vr: "control c c' \<Longrightarrow> ci_vr c' = ci_vr c"
  by (auto simp: control_def)

lemma conn_req_quiet:
  assumes "tx_half W S a n c" "ci_vr c = r mod MOD256"
  shows "quiet W S a n r c (on_conn_req now tp info c)"
proof -
  define w where "w = (let proposed = (case info of [] \<Rightarrow> ci_window c | b # _ \<Rightarrow> unat b) in min (if proposed = 0 then ci_window c else proposed) (ci_window c))"
  let ?c = "c\<lparr>ci_your_index := tp_circuit_index tp, ci_your_id := tp_circuit_id tp, ci_window := w\<rparr>"
  let ?t = "ci_to Cs_Connected (ci_tx (to_peer ?c (ci_my_index ?c) (ci_my_id ?c) Op_ConnAck 0) [byte_of (ci_window ?c)] ?c)"
  have e: "on_conn_req now tp info c = pump now ?t"
    by (simp add: on_conn_req_def Let_def w_def)
  have "w \<le> ci_window c" by (simp add: w_def Let_def)
  then have h: "tx_half W S a n ?c" using assms by (simp add: tx_half_def)
  have "control c ?c" by (simp add: control_def)
  also have "control ?c (ci_tx (to_peer ?c (ci_my_index ?c) (ci_my_id ?c) Op_ConnAck 0) [byte_of (ci_window ?c)] ?c)" by (simp add: nr_ops)
  also have "control \<dots> (ci_to Cs_Connected \<dots>)" by simp
  finally have ct: "control c ?t" .
  have "quiet W S a n r ?t (pump now ?t)"
    by (rule pump_quiet [of W S a n]) (use h assms(2) control_vr [OF ct] in simp_all)
  then show ?thesis unfolding e by (rule quiet_control_trans [OF ct _ tx_half_le [OF assms(1)]])
qed

lemma conn_ack_quiet:
  assumes "tx_half W S a n c" "ci_vr c = r mod MOD256" "1 \<le> W"
  shows "quiet W S a n r c (on_conn_ack now tp info c)"
proof -
  define w where "w = (let w = (case info of [] \<Rightarrow> 0 | b # _ \<Rightarrow> unat b) in max 1 (min (if w = 0 then ci_window c else w) (ci_window c)))"
  let ?c = "c\<lparr>ci_your_index := tp_tx_seq tp, ci_your_id := tp_rx_seq tp, ci_window := w\<rparr>"
  let ?t = "ci_to Cs_Connected (disarm ?c)"
  have e: "on_conn_ack now tp info c = (if ci_state c \<noteq> Cs_Connecting then c
      else if odd (tp_opcode tp div 128) then ci_to Cs_Disconnected (disarm c) else pump now ?t)"
    unfolding on_conn_ack_def w_def Let_def by (rule refl)
  consider "on_conn_ack now tp info c = c" | "on_conn_ack now tp info c = ci_to Cs_Disconnected (disarm c)"
    | "on_conn_ack now tp info c = pump now ?t"
    by (cases "ci_state c \<noteq> Cs_Connecting"; cases "odd (tp_opcode tp div 128)") (use e in simp_all)
  then show ?thesis
  proof cases
    case 1
    then show ?thesis using quiet_refl [OF assms(1)] by simp
  next
    case 2
    have "control c (ci_to Cs_Disconnected (disarm c))" by (rule control_trans [OF control_simps(2) control_simps(1)])
    then show ?thesis unfolding 2 by (rule control_quiet [where n = n]) (simp add: assms)
  next
    case 3
    have "w \<le> max 1 (ci_window c)" unfolding w_def Let_def by linarith
    then have h: "tx_half W S a n ?c" using assms by (auto simp: tx_half_def)
    have "control c ?c" by (simp add: control_def)
    also have "control ?c (disarm ?c)" by simp
    also have "control \<dots> ?t" by simp
    finally have ct: "control c ?t" .
    have "quiet W S a n r ?t (pump now ?t)"
      by (rule pump_quiet [of W S a n]) (use h assms(2) control_vr [OF ct] in simp_all)
    then show ?thesis unfolding 3 by (rule quiet_control_trans [OF ct _ tx_half_le [OF assms(1)]])
  qed
qed

lemma disc_quiet:
  assumes "tx_half W S a n c"
  shows "quiet W S a n r c (on_disc_req c)" "quiet W S a n r c (on_disc_ack c)"
proof -
  have "control c (ci_tx (to_peer c 0 0 Op_DiscAck 0) [] c)" by (simp add: nr_ops)
  also have "control \<dots> (disarm \<dots>)" by simp
  also have "control \<dots> (ci_to Cs_Disconnected \<dots>)" by simp
  finally show "quiet W S a n r c (on_disc_req c)"
    unfolding on_disc_req_def by (rule control_quiet [where n = n]) (simp add: assms)
  have "control c (ci_to Cs_Disconnected (disarm c))" by (rule control_trans [OF control_simps(2) control_simps(1)])
  then have "quiet W S a n r c (ci_to Cs_Disconnected (disarm c))" by (rule control_quiet [where n = n]) (simp add: assms)
  then show "quiet W S a n r c (on_disc_ack c)" using quiet_refl [OF assms] by (simp add: on_disc_ack_def)
qed

lemma send_quiet:
  assumes "tx_half W S a n c" "ci_vr c = r mod MOD256"
  shows "quiet W (if length (ci_txq c) + length (fragments m) > MAX_TXQ then S else S @ fragments m) a n r c (ci_send now m c)"
proof (cases "length (ci_txq c) + length (fragments m) > MAX_TXQ")
  case True
  then show ?thesis using quiet_refl [OF assms(1)] by (simp add: ci_send_def)
next
  case False
  let ?c = "c\<lparr>ci_txq := ci_txq c @ fragments m\<rparr>"
  have h: "tx_half W (S @ fragments m) a n ?c"
    using assms(1) by (simp add: tx_half_def numbered_append)
  have ct: "control c ?c" by (simp add: control_def)
  have "quiet W (S @ fragments m) a n r ?c (pump now ?c)"
    by (rule pump_quiet [OF h]) (simp add: assms)
  then have "quiet W (S @ fragments m) a n r c (pump now ?c)"
    by (rule quiet_control_trans [OF ct]) (use tx_half_le [OF h] in simp)
  then show ?thesis using False control_quiet [OF ct h] by (simp add: ci_send_def Let_def)
qed

lemma ack_loop_exact:
  "a \<le> x \<Longrightarrow> x \<le> n \<Longrightarrow> n - a < MOD256 \<Longrightarrow>
   ack_loop (x mod MOD256) (a mod MOD256) (numbered S a n) = (x mod MOD256, numbered S x n)"
proof (induction "x - a" arbitrary: a)
  case 0
  then have "x = a" by simp
  then show ?case by (cases "numbered S a n") auto
next
  case (Suc d)
  then have "a < n" "a < x" by simp_all
  have "a mod MOD256 \<noteq> x mod MOD256"
  proof
    assume "a mod MOD256 = x mod MOD256"
    then have "MOD256 dvd x - a" using \<open>a < x\<close> by (metis mod_eq_dvd_iff_nat less_imp_le_nat)
    then show False using \<open>a < x\<close> Suc.prems by (auto dest: dvd_imp_le)
  qed
  moreover have "(a mod MOD256 + 1) mod MOD256 = Suc a mod MOD256" by (simp add: mod_simps)
  moreover have "ack_loop (x mod MOD256) (Suc a mod MOD256) (numbered S (Suc a) n) = (x mod MOD256, numbered S x n)"
    using Suc by (intro Suc.hyps) simp_all
  ultimately show ?case using numbered_Cons [OF \<open>a < n\<close>] by simp
qed

lemma info_ack_quiet:
  assumes "tx_half W S a n c" "ci_vr c = r mod MOD256" "tp_rx_seq tp = x mod MOD256" "a \<le> x" "x \<le> n"
  shows "quiet W S x n r c (on_info_ack now tp c)"
proof -
  let ?c = "c\<lparr>ci_choked := (tp_flags tp AND NR_CHOKE \<noteq> 0), ci_va := x mod MOD256, ci_sent := numbered S x n\<rparr>"
  let ?t = "if numbered S x n \<noteq> [] then arm_fresh now ?c else disarm ?c"
  have "n - a < MOD256" using assms(1) by (auto simp: tx_half_def MOD256_def)
  from ack_loop_exact [OF assms(4,5) this, of S]
  have l: "ack_loop (tp_rx_seq tp) (ci_va c) (ci_sent c) = (x mod MOD256, numbered S x n)"
    using assms(1,3) by (simp add: tx_half_def)
  have e: "on_info_ack now tp c = (if ci_state ?t = Cs_Connected \<and> \<not> ci_choked ?c then pump now ?t else ?t)"
    by (simp add: on_info_ack_def l Let_def)
  have h: "tx_half W S x n ?t" using assms(1,4,5) by (auto simp: tx_half_def arm_fresh_def disarm_def)
  have "control c ?c" by (simp add: control_def)
  also have "control ?c ?t" by simp
  finally have ct: "control c ?t" .
  have "quiet W S x n r ?t (pump now ?t)"
    by (rule pump_quiet [OF h]) (use assms(2) control_vr [OF ct] in simp)
  then have "quiet W S x n r c (pump now ?t)"
    by (rule quiet_control_trans [OF ct]) (use tx_half_le [OF h] in simp)
  then show ?thesis using control_quiet [OF ct h] by (simp only: e split: if_split) blast
qed

end
