(* ===== verification/Netrom_Network.thy ===== *)
theory Netrom_Network
  imports Netrom_Circuit
begin

text \<open>
  Two NET/ROM circuits (\<open>packages/packet/src/netrom-circuit.ts\<close>) and a network that keeps
  packets in order and may lose any of them: the circuits implement a message queue in each direction.
\<close>

section \<open>The receiving half\<close>

fun asm_step :: "byte list list \<times> byte list list \<Rightarrow> byte list \<times> bool \<Rightarrow> byte list list \<times> byte list list" where
  "asm_step (msgs, frags) (f, mf) = (if mf then (msgs, frags @ [f]) else (msgs @ [concat (frags @ [f])], []))"

definition reassemble :: "(byte list \<times> bool) list \<Rightarrow> byte list list \<times> byte list list" where
  "reassemble xs = foldl asm_step ([], []) xs"

lemma reassemble_more: "foldl asm_step (msgs, frags) (map (\<lambda>f. (f, True)) fs) = (msgs, frags @ fs)"
  by (induction fs arbitrary: frags) auto

lemma reassemble_message: "foldl asm_step (msgs, []) (fragments m) = (msgs @ [m], [])"
proof -
  have "concat xs = concat (butlast xs) @ last xs" if "xs \<noteq> []" for xs :: "byte list list"
    using arg_cong [OF append_butlast_last_id [OF that], of concat] by simp
  from this [OF chunks_not_Nil [of NR_MAX_INFO m]] show ?thesis
    by (simp add: fragments_def Let_def reassemble_more)
qed

lemma reassemble_messages: "foldl asm_step (msgs, []) (concat (map fragments ms)) = (msgs @ ms, [])"
  by (induction ms arbitrary: msgs) (simp_all add: reassemble_message)

lemma asm_prefix: "prefix (fst acc) (fst (foldl asm_step acc xs))"
proof (induction xs arbitrary: acc)
  case (Cons x xs)
  have "prefix (fst acc) (fst (asm_step acc x))" by (cases acc; cases x) auto
  then show ?case using Cons [of "asm_step acc x"] by (simp add: prefix_order.order_trans)
qed simp

lemma reassemble_take_prefix: "prefix (fst (reassemble (take r (concat (map fragments ms))))) ms"
proof -
  let ?S = "concat (map fragments ms)"
  have "fst (reassemble ?S) = ms" by (simp add: reassemble_def reassemble_messages)
  moreover have "reassemble ?S = foldl asm_step (reassemble (take r ?S)) (drop r ?S)"
    by (simp add: reassemble_def flip: foldl_append)
  ultimately show ?thesis using asm_prefix [of "reassemble (take r ?S)" "drop r ?S"] by simp
qed

text \<open>What the arrival of an information packet does.\<close>

lemma on_info_ignored: "ci_state c \<noteq> Cs_Connected \<Longrightarrow> on_info tp info c = c"
  by (simp add: on_info_def)

lemma on_info_refused:
  assumes "ci_state c = Cs_Connected" "tp_tx_seq tp \<noteq> ci_vr c"
  shows "on_info tp info c = ci_tx (to_peer c 0 (ci_vr c) Op_InfoAck 0) [] c"
  using assms by (simp add: on_info_def accept_info_def Let_def)

lemma tx_half_rx [simp]:
  "tx_half W S a n (ci_vr_update f c) = tx_half W S a n c" "tx_half W S a n (ci_rx_frag_update g c) = tx_half W S a n c"
  "tx_half W S a n (ci_log_update h c) = tx_half W S a n c"
  by (simp_all add: tx_half_def)

lemma on_info_accepted:
  assumes "ci_state c = Cs_Connected" "tp_tx_seq tp = ci_vr c"
    "reassemble xs = (msgs, ci_rx_frag c)" "mf = (tp_flags tp AND NR_MORE \<noteq> 0)"
  shows "\<exists>d ack. ci_log (on_info tp info c) = ci_log c @ map Ce_Deliver d @ [Ce_Send ack []]
     \<and> tp_opcode ack = Op_InfoAck \<and> tp_rx_seq ack = (ci_vr c + 1) mod MOD256
     \<and> reassemble (xs @ [(info, mf)]) = (msgs @ d, ci_rx_frag (on_info tp info c))
     \<and> ci_vr (on_info tp info c) = (ci_vr c + 1) mod MOD256
     \<and> (\<forall>W S a n. tx_half W S a n (on_info tp info c) = tx_half W S a n c)"
proof (cases mf)
  case True
  let ?c = "c\<lparr>ci_vr := (ci_vr c + 1) mod MOD256, ci_rx_frag := ci_rx_frag c @ [info]\<rparr>"
  have e: "on_info tp info c = ci_tx (to_peer ?c 0 (ci_vr ?c) Op_InfoAck 0) [] ?c"
    using assms True by (simp add: on_info_def accept_info_def Let_def)
  show ?thesis unfolding e using assms(3) True
    by (intro exI [of _ "[]"] exI [of _ "to_peer ?c 0 (ci_vr ?c) Op_InfoAck 0"]) (simp add: reassemble_def)
next
  case False
  let ?m = "concat (ci_rx_frag c @ [info])"
  let ?c = "c\<lparr>ci_vr := (ci_vr c + 1) mod MOD256, ci_rx_frag := [], ci_log := ci_log c @ [Ce_Deliver ?m]\<rparr>"
  have e: "on_info tp info c = ci_tx (to_peer ?c 0 (ci_vr ?c) Op_InfoAck 0) [] ?c"
    using assms False by (simp add: on_info_def accept_info_def Let_def)
  show ?thesis unfolding e using assms(3) False
    by (intro exI [of _ "[?m]"] exI [of _ "to_peer ?c 0 (ci_vr ?c) Op_InfoAck 0"]) (simp add: reassemble_def)
qed

section \<open>What is under way\<close>

type_synonym packets = "(nr_transport \<times> byte list) list"

text \<open>Information under way towards a receiver that expects fragment \<open>m\<close> or a later one.\<close>

fun fwd_ok :: "nat \<Rightarrow> (byte list \<times> bool) list \<Rightarrow> nat \<Rightarrow> nat \<Rightarrow> packets \<Rightarrow> bool" where
  "fwd_ok W S k m [] = True"
| "fwd_ok W S k m ((tp, info) # ps) =
     (if tp_opcode tp = Op_Info
      then \<exists>i < k. info_at S i tp info \<and> m \<le> i + W \<and> fwd_ok W S k (max m (Suc i)) ps
      else fwd_ok W S k m ps)"

text \<open>Acknowledgements under way: between what the sender knows and what was received, in order.\<close>

fun back_ok :: "nat \<Rightarrow> nat \<Rightarrow> packets \<Rightarrow> bool" where
  "back_ok m r [] = True"
| "back_ok m r ((tp, info) # ps) =
     (if tp_opcode tp = Op_InfoAck
      then \<exists>x. m \<le> x \<and> x \<le> r \<and> tp_rx_seq tp = x mod MOD256 \<and> back_ok x r ps
      else back_ok m r ps)"

lemma info_at_append: "i < length S \<Longrightarrow> info_at (S @ T) i tp info = info_at S i tp info"
  by (simp add: info_at_def nth_append)

lemma fwd_ok_mono:
  "fwd_ok W S k m ps \<Longrightarrow> m' \<le> m \<Longrightarrow> k \<le> k' \<Longrightarrow> k \<le> length S \<Longrightarrow> fwd_ok W (S @ T) k' m' ps"
proof (induction ps arbitrary: m m')
  case (Cons p ps)
  obtain tp info where p: "p = (tp, info)" by (cases p)
  show ?case
  proof (cases "tp_opcode tp = Op_Info")
    case True
    then obtain i where i: "i < k" "info_at S i tp info" "m \<le> i + W" "fwd_ok W S k (max m (Suc i)) ps"
      using Cons.prems(1) p by auto
    have "fwd_ok W (S @ T) k' (max m' (Suc i)) ps"
      by (rule Cons.IH [OF i(4) _ Cons.prems(3,4)]) (use Cons.prems(2) in auto)
    then show ?thesis using True p i Cons.prems(2,3,4) by (auto simp: info_at_append intro!: exI [of _ i])
  next
    case False
    then show ?thesis using Cons p by simp
  qed
qed simp

lemma fwd_ok_snocs:
  assumes "m \<le> k" "k \<le> a + W" "\<forall>(tp, info)\<in>set qs. tp_opcode tp = Op_Info \<longrightarrow> (\<exists>i. a \<le> i \<and> i < k \<and> info_at S i tp info)"
  shows "fwd_ok W S k m qs"
  using assms(1,3)
proof (induction qs arbitrary: m)
  case (Cons p ps)
  obtain tp info where p: "p = (tp, info)" by (cases p)
  show ?case
  proof (cases "tp_opcode tp = Op_Info")
    case True
    then obtain i where i: "a \<le> i" "i < k" "info_at S i tp info" using Cons.prems(2) p by auto
    then have "fwd_ok W S k (max m (Suc i)) ps" using Cons by (intro Cons.IH) auto
    then show ?thesis using True p i Cons.prems(1) assms(2) by (auto intro!: exI [of _ i])
  next
    case False
    then show ?thesis using Cons p by simp
  qed
qed simp

lemma fwd_ok_append:
  "fwd_ok W S k m ps \<Longrightarrow> m \<le> k \<Longrightarrow> k \<le> a + W \<Longrightarrow>
   \<forall>(tp, info)\<in>set qs. tp_opcode tp = Op_Info \<longrightarrow> (\<exists>i. a \<le> i \<and> i < k \<and> info_at S i tp info) \<Longrightarrow>
   fwd_ok W S k m (ps @ qs)"
proof (induction ps arbitrary: m)
  case Nil
  then show ?case using fwd_ok_snocs [of m k a W qs S] by simp
next
  case (Cons p ps)
  obtain tp info where p: "p = (tp, info)" by (cases p)
  show ?case using Cons p by (cases "tp_opcode tp = Op_Info") auto
qed

lemma fwd_ok_mono_m: "fwd_ok W S k m ps \<Longrightarrow> m' \<le> m \<Longrightarrow> fwd_ok W S k m' ps"
proof (induction ps arbitrary: m m')
  case (Cons p ps)
  obtain tp info where p: "p = (tp, info)" by (cases p)
  show ?case
  proof (cases "tp_opcode tp = Op_Info")
    case True
    then obtain i where i: "i < k" "info_at S i tp info" "m \<le> i + W" "fwd_ok W S k (max m (Suc i)) ps"
      using Cons.prems(1) p by auto
    have "fwd_ok W S k (max m' (Suc i)) ps" by (rule Cons.IH [OF i(4)]) (use Cons.prems(2) in auto)
    then show ?thesis using True p i Cons.prems(2) by auto
  next
    case False
    then show ?thesis using Cons p by simp
  qed
qed simp

lemma fwd_ok_lose: "fwd_ok W S k m (xs @ p # ys) \<Longrightarrow> fwd_ok W S k m (xs @ ys)"
proof (induction xs arbitrary: m)
  case Nil
  obtain tp info where p: "p = (tp, info)" by (cases p)
  then show ?case using Nil by (auto split: if_splits intro: fwd_ok_mono_m)
next
  case (Cons q xs)
  obtain tp info where q: "q = (tp, info)" by (cases q)
  show ?case using Cons q by (cases "tp_opcode tp = Op_Info") auto
qed

lemma back_ok_mono: "back_ok m r ps \<Longrightarrow> m' \<le> m \<Longrightarrow> r \<le> r' \<Longrightarrow> back_ok m' r' ps"
proof (induction ps arbitrary: m m')
  case (Cons p ps)
  obtain tp info where p: "p = (tp, info)" by (cases p)
  show ?case
  proof (cases "tp_opcode tp = Op_InfoAck")
    case True
    then obtain x where x: "m \<le> x" "x \<le> r" "tp_rx_seq tp = x mod MOD256" "back_ok x r ps" using Cons.prems(1) p by auto
    then show ?thesis using True p Cons.IH [OF x(4) order_refl Cons.prems(3)] Cons.prems(2,3) by (auto intro!: exI [of _ x])
  next
    case False
    then show ?thesis using Cons p by simp
  qed
qed simp

lemma back_ok_append:
  "back_ok m r ps \<Longrightarrow> m \<le> r \<Longrightarrow> \<forall>(tp, info)\<in>set qs. tp_opcode tp = Op_InfoAck \<longrightarrow> tp_rx_seq tp = r mod MOD256 \<Longrightarrow>
   back_ok m r (ps @ qs)"
proof (induction ps arbitrary: m)
  case Nil
  then show ?case
  proof (induction qs arbitrary: m)
    case (Cons p ps)
    obtain tp info where p: "p = (tp, info)" by (cases p)
    have "back_ok r r ps" "back_ok m r ps" using Cons by simp_all
    then show ?case using p Cons.prems by auto
  qed simp
next
  case (Cons p ps)
  obtain tp info where p: "p = (tp, info)" by (cases p)
  show ?case using Cons p by (cases "tp_opcode tp = Op_InfoAck") auto
qed

lemma back_ok_lose: "back_ok m r (xs @ p # ys) \<Longrightarrow> back_ok m r (xs @ ys)"
proof (induction xs arbitrary: m)
  case Nil
  obtain tp info where p: "p = (tp, info)" by (cases p)
  then show ?case using Nil by (auto split: if_splits intro: back_ok_mono)
next
  case (Cons q xs)
  obtain tp info where q: "q = (tp, info)" by (cases q)
  show ?case using Cons q by (cases "tp_opcode tp = Op_InfoAck") auto
qed

section \<open>Two circuits and the network between them\<close>

text \<open>
  The network keeps packets in order and may lose any. Beside the two circuits and the packets
  under way, the state notes the messages each side took over for sending and the messages it delivered.
\<close>

record net =
  nt_a :: circuit
  nt_b :: circuit
  nt_ab :: packets
  nt_ba :: packets
  nt_sent_a :: "byte list list"
  nt_sent_b :: "byte list list"
  nt_got_a :: "byte list list"
  nt_got_b :: "byte list list"

definition swap_net :: "net \<Rightarrow> net" where
  "swap_net n = \<lparr>nt_a = nt_b n, nt_b = nt_a n, nt_ab = nt_ba n, nt_ba = nt_ab n,
     nt_sent_a = nt_sent_b n, nt_sent_b = nt_sent_a n, nt_got_a = nt_got_b n, nt_got_b = nt_got_a n\<rparr>"

fun packets_of :: "circuit_event list \<Rightarrow> packets" where
  "packets_of [] = []"
| "packets_of (Ce_Send tp info # es) = (tp, info) # packets_of es"
| "packets_of (_ # es) = packets_of es"

fun deliveries :: "circuit_event list \<Rightarrow> byte list list" where
  "deliveries [] = []"
| "deliveries (Ce_Deliver m # es) = m # deliveries es"
| "deliveries (_ # es) = deliveries es"

definition at_a :: "(circuit \<Rightarrow> circuit) \<Rightarrow> net \<Rightarrow> net" where
  "at_a f n = (let c = f (nt_a n\<lparr>ci_log := []\<rparr>)
     in n\<lparr>nt_a := c, nt_ab := nt_ab n @ packets_of (ci_log c), nt_got_a := nt_got_a n @ deliveries (ci_log c)\<rparr>)"

datatype net_op = Nt_Connect nat | Nt_Disconnect | Nt_Send "byte list" | Nt_Poll | Nt_Arrive | Nt_Lose nat

fun step_a :: "int \<Rightarrow> net_op \<Rightarrow> net \<Rightarrow> net" where
  "step_a now (Nt_Connect w) n = at_a (ci_connect now w) n"
| "step_a now Nt_Disconnect n = at_a (ci_disconnect now) n"
| "step_a now (Nt_Send m) n =
     at_a (ci_send now m)
       (if length (ci_txq (nt_a n)) + length (fragments m) > MAX_TXQ then n else n\<lparr>nt_sent_a := nt_sent_a n @ [m]\<rparr>)"
| "step_a now Nt_Poll n = at_a (ci_poll now) n"
| "step_a now Nt_Arrive n =
     (case nt_ba n of [] \<Rightarrow> n | (tp, info) # ps \<Rightarrow> at_a (on_packet now tp info) (n\<lparr>nt_ba := ps\<rparr>))"
| "step_a now (Nt_Lose i) n = n\<lparr>nt_ab := take i (nt_ab n) @ drop (Suc i) (nt_ab n)\<rparr>"

text \<open>An operation at the first circuit, or at the second.\<close>

fun net_step :: "net \<Rightarrow> bool \<times> int \<times> net_op \<Rightarrow> net" where
  "net_step n (True, now, e) = step_a now e n"
| "net_step n (False, now, e) = swap_net (step_a now e (swap_net n))"

fun net_legal :: "nat \<Rightarrow> net \<Rightarrow> bool \<times> int \<times> net_op \<Rightarrow> bool" where
  "net_legal W n (_, _, Nt_Connect w) = (w \<le> W)"
| "net_legal W n _ = True"

lemma deliveries_map [simp]: "deliveries (map Ce_Deliver d @ es) = d @ deliveries es" "packets_of (map Ce_Deliver d @ es) = packets_of es"
  by (induction d) auto

lemma in_packets_of: "(tp, info) \<in> set (packets_of es) \<longleftrightarrow> Ce_Send tp info \<in> set es"
  by (induction es rule: packets_of.induct) auto

lemma no_deliveries: "\<forall>e\<in>set es. sound_out S a n r e \<Longrightarrow> deliveries es = []"
  by (induction es rule: deliveries.induct) (auto simp: sound_out_def)

lemma swap_net_swap [simp]: "swap_net (swap_net n) = n"
  by (simp add: swap_net_def)

section \<open>One direction of the network\<close>

definition dir_ok :: "nat \<Rightarrow> net \<Rightarrow> bool" where
  "dir_ok W n = (\<exists>S a k r. S = concat (map fragments (nt_sent_a n)) \<and> tx_half W S a k (nt_a n) \<and> a \<le> r \<and> r \<le> k
     \<and> ci_vr (nt_b n) = r mod MOD256 \<and> reassemble (take r S) = (nt_got_b n, ci_rx_frag (nt_b n))
     \<and> fwd_ok W S k r (nt_ab n) \<and> back_ok a r (nt_ba n))"

definition net_ok :: "nat \<Rightarrow> net \<Rightarrow> bool" where
  "net_ok W n = (dir_ok W n \<and> dir_ok W (swap_net n))"

definition log0 :: "circuit \<Rightarrow> circuit" where
  "log0 c = c\<lparr>ci_log := []\<rparr>"

lemma at_a_fields:
  "nt_a (at_a f n) = f (log0 (nt_a n))" "nt_b (at_a f n) = nt_b n"
  "nt_ab (at_a f n) = nt_ab n @ packets_of (ci_log (f (log0 (nt_a n))))" "nt_ba (at_a f n) = nt_ba n"
  "nt_sent_a (at_a f n) = nt_sent_a n" "nt_sent_b (at_a f n) = nt_sent_b n"
  "nt_got_a (at_a f n) = nt_got_a n @ deliveries (ci_log (f (log0 (nt_a n))))" "nt_got_b (at_a f n) = nt_got_b n"
  by (simp_all add: at_a_def log0_def Let_def)

lemma log0_fields [simp]:
  "tx_half W S a k (log0 c) = tx_half W S a k c" "ci_vr (log0 c) = ci_vr c" "ci_rx_frag (log0 c) = ci_rx_frag c"
  "ci_log (log0 c) = []" "ci_txq (log0 c) = ci_txq c" "ci_state (log0 c) = ci_state c"
  by (simp_all add: log0_def tx_half_def)

text \<open>As the sending side of a direction.\<close>

lemma sender_step:
  assumes "tx_half W S a k (nt_a n)" "r \<le> k" "a' \<le> r"
    "ci_vr (nt_b n) = r mod MOD256" "reassemble (take r S) = (nt_got_b n, ci_rx_frag (nt_b n))"
    "fwd_ok W S k r (nt_ab n)" "back_ok a' r (nt_ba n')"
    "nt_b n' = nt_b n" "nt_got_b n' = nt_got_b n" "nt_ab n' = nt_ab n @ packets_of es"
    "S @ T = concat (map fragments (nt_sent_a n'))"
    "tx_half W (S @ T) a' k' (nt_a n')" "k \<le> k'" "\<forall>e\<in>set es. sound_out (S @ T) a' k' r' e"
  shows "dir_ok W n'"
proof -
  have k: "k \<le> length S" using assms(1) by (simp add: tx_half_def)
  have f: "fwd_ok W (S @ T) k' r (nt_ab n)" by (rule fwd_ok_mono [OF assms(6) order_refl assms(13) k])
  have "\<forall>(tp, info)\<in>set (packets_of es). tp_opcode tp = Op_Info \<longrightarrow> (\<exists>i. a' \<le> i \<and> i < k' \<and> info_at (S @ T) i tp info)"
    using assms(14) by (fastforce simp: in_packets_of sound_out_def)
  then have "fwd_ok W (S @ T) k' r (nt_ab n')"
    unfolding assms(10) using assms(2,12,13) by (intro fwd_ok_append [OF f, of a']) (auto simp: tx_half_def)
  moreover have "take r (S @ T) = take r S" using assms(2) k by simp
  ultimately show ?thesis unfolding dir_ok_def
    using assms by (intro exI [of _ "S @ T"] exI [of _ a'] exI [of _ k'] exI [of _ r]) auto
qed

text \<open>As the receiving side.\<close>

lemma receiver_step:
  assumes "tx_half W S a k (nt_b n)" "a \<le> r" "r \<le> r'" "r' \<le> k"
    "S = concat (map fragments (nt_sent_b n'))" "nt_b n' = nt_b n"
    "ci_vr (nt_a n') = r' mod MOD256" "reassemble (take r' S) = (nt_got_a n', ci_rx_frag (nt_a n'))"
    "fwd_ok W S k r' (nt_ba n')" "back_ok a r (nt_ab n)" "nt_ab n' = nt_ab n @ packets_of es"
    "\<forall>(tp, info)\<in>set (packets_of es). tp_opcode tp = Op_InfoAck \<longrightarrow> tp_rx_seq tp = r' mod MOD256"
  shows "dir_ok W (swap_net n')"
proof -
  have "back_ok a r' (nt_ab n)" by (rule back_ok_mono [OF assms(10)]) (use assms(3) in auto)
  then have "back_ok a r' (nt_ab n')" unfolding assms(11) using assms(2,3,12) by (intro back_ok_append) auto
  then show ?thesis unfolding dir_ok_def swap_net_def
    using assms by (intro exI [of _ S] exI [of _ a] exI [of _ k] exI [of _ r']) simp
qed

text \<open>An operation that is quiet for both halves.\<close>

lemma quiet_step:
  assumes "net_ok W n" "ps = nt_ba n \<or> (\<exists>p. nt_ba n = p # ps \<and> tp_opcode (fst p) \<noteq> Op_InfoAck)"
    and quiet: "\<And>a k r. tx_half W (concat (map fragments (nt_sent_a n))) a k (nt_a n) \<Longrightarrow> ci_vr (nt_a n) = r mod MOD256 \<Longrightarrow>
        quiet W (concat (map fragments sent)) a k r (log0 (nt_a n)) (f (log0 (nt_a n)))"
    and "prefix (nt_sent_a n) sent"
  shows "net_ok W (at_a f (n\<lparr>nt_ba := ps, nt_sent_a := sent\<rparr>))"
proof -
  let ?n = "at_a f (n\<lparr>nt_ba := ps, nt_sent_a := sent\<rparr>)" and ?c = "f (log0 (nt_a n))"
  let ?S = "concat (map fragments (nt_sent_a n))"
  obtain new_sent where sent: "sent = nt_sent_a n @ new_sent" using assms(4) by (auto simp: prefix_def)
  let ?T = "concat (map fragments new_sent)"
  obtain a k r where A: "tx_half W ?S a k (nt_a n)" "a \<le> r" "r \<le> k" "ci_vr (nt_b n) = r mod MOD256"
      "reassemble (take r ?S) = (nt_got_b n, ci_rx_frag (nt_b n))" "fwd_ok W ?S k r (nt_ab n)" "back_ok a r (nt_ba n)"
    using assms(1) by (auto simp: net_ok_def dir_ok_def)
  obtain S2 a2 k2 r2 where B: "S2 = concat (map fragments (nt_sent_b n))" "tx_half W S2 a2 k2 (nt_b n)" "a2 \<le> r2" "r2 \<le> k2"
      "ci_vr (nt_a n) = r2 mod MOD256" "reassemble (take r2 S2) = (nt_got_a n, ci_rx_frag (nt_a n))"
      "fwd_ok W S2 k2 r2 (nt_ba n)" "back_ok a2 r2 (nt_ab n)"
    using assms(1) by (auto simp: net_ok_def dir_ok_def swap_net_def)
  from quiet [OF A(1) B(5)] obtain k' es where q: "k \<le> k'" "tx_half W (?S @ ?T) a k' ?c" "ci_vr ?c = ci_vr (nt_a n)"
      "ci_rx_frag ?c = ci_rx_frag (nt_a n)" "ci_log ?c = es" "\<forall>e\<in>set es. sound_out (?S @ ?T) a k' r2 e"
    by (auto simp: quiet_def sent)
  have bk: "back_ok a r ps" using A(7) assms(2) by (auto simp: split_beta)
  have fwd: "fwd_ok W S2 k2 r2 ps"
  proof (cases "ps = nt_ba n")
    case False
    then obtain tp info where p: "nt_ba n = (tp, info) # ps" using assms(2) by auto
    show ?thesis using B(7) unfolding p by (auto split: if_splits intro: fwd_ok_mono_m)
  qed (use B in simp)
  have d: "deliveries es = []" using no_deliveries [OF q(6)] .
  have acks: "\<forall>(tp, info)\<in>set (packets_of es). tp_opcode tp = Op_InfoAck \<longrightarrow> tp_rx_seq tp = r2 mod MOD256"
    using q(6) by (fastforce simp: in_packets_of sound_out_def)
  have "dir_ok W ?n"
    by (rule sender_step [of W ?S a k n r a ?n es ?T k' r2]) (use A q bk sent in \<open>simp_all add: at_a_fields\<close>)
  moreover have "dir_ok W (swap_net ?n)"
    by (rule receiver_step [of W S2 a2 k2 n r2 r2 ?n es]) (use B q fwd d acks in \<open>simp_all add: at_a_fields\<close>)
  ultimately show ?thesis by (simp add: net_ok_def)
qed

lemma quiet_same:
  assumes "net_ok W n" "ps = nt_ba n \<or> (\<exists>p. nt_ba n = p # ps \<and> tp_opcode (fst p) \<noteq> Op_InfoAck)"
    and "\<And>S a k r. tx_half W S a k (nt_a n) \<Longrightarrow> ci_vr (nt_a n) = r mod MOD256 \<Longrightarrow> quiet W S a k r (log0 (nt_a n)) (f (log0 (nt_a n)))"
  shows "net_ok W (at_a f (n\<lparr>nt_ba := ps\<rparr>))"
  using quiet_step [OF assms(1,2), of "nt_sent_a n" f] assms(3) by simp

lemma quiet_here:
  assumes "net_ok W n"
    and "\<And>S a k r. tx_half W S a k (nt_a n) \<Longrightarrow> ci_vr (nt_a n) = r mod MOD256 \<Longrightarrow> quiet W S a k r (log0 (nt_a n)) (f (log0 (nt_a n)))"
  shows "net_ok W (at_a f n)"
  using quiet_same [OF assms(1), of "nt_ba n" f] assms(2) by simp

text \<open>The arrival of an acknowledgement.\<close>

lemma ack_step:
  assumes "net_ok W n" "nt_ba n = (tp, info) # ps" "tp_opcode tp = Op_InfoAck"
  shows "net_ok W (at_a (on_packet now tp info) (n\<lparr>nt_ba := ps\<rparr>))"
proof -
  let ?f = "on_packet now tp info"
  let ?n = "at_a ?f (n\<lparr>nt_ba := ps\<rparr>)" and ?c = "?f (log0 (nt_a n))"
  let ?S = "concat (map fragments (nt_sent_a n))"
  obtain a k r where A: "tx_half W ?S a k (nt_a n)" "a \<le> r" "r \<le> k" "ci_vr (nt_b n) = r mod MOD256"
      "reassemble (take r ?S) = (nt_got_b n, ci_rx_frag (nt_b n))" "fwd_ok W ?S k r (nt_ab n)" "back_ok a r (nt_ba n)"
    using assms(1) by (auto simp: net_ok_def dir_ok_def)
  obtain S2 a2 k2 r2 where B: "S2 = concat (map fragments (nt_sent_b n))" "tx_half W S2 a2 k2 (nt_b n)" "a2 \<le> r2" "r2 \<le> k2"
      "ci_vr (nt_a n) = r2 mod MOD256" "reassemble (take r2 S2) = (nt_got_a n, ci_rx_frag (nt_a n))"
      "fwd_ok W S2 k2 r2 (nt_ba n)" "back_ok a2 r2 (nt_ab n)"
    using assms(1) by (auto simp: net_ok_def dir_ok_def swap_net_def)
  obtain x where x: "a \<le> x" "x \<le> r" "tp_rx_seq tp = x mod MOD256" "back_ok x r ps"
    using A(7) assms(2,3) by auto
  have e: "?c = on_info_ack now tp (log0 (nt_a n))" using assms(3) by (simp add: on_packet_def nr_ops)
  have "quiet W ?S x k r2 (log0 (nt_a n)) ?c" unfolding e
    using A B x by (intro info_ack_quiet [of W ?S a]) simp_all
  then obtain k' es where q: "k \<le> k'" "tx_half W ?S x k' ?c" "ci_vr ?c = ci_vr (nt_a n)"
      "ci_rx_frag ?c = ci_rx_frag (nt_a n)" "ci_log ?c = es" "\<forall>e\<in>set es. sound_out ?S x k' r2 e"
    by (auto simp: quiet_def)
  have fwd: "fwd_ok W S2 k2 r2 ps" using B(7) assms(2,3) by (simp add: nr_ops)
  have d: "deliveries es = []" using no_deliveries [OF q(6)] .
  have acks: "\<forall>(tp, info)\<in>set (packets_of es). tp_opcode tp = Op_InfoAck \<longrightarrow> tp_rx_seq tp = r2 mod MOD256"
    using q(6) by (fastforce simp: in_packets_of sound_out_def)
  have "dir_ok W ?n"
    by (rule sender_step [of W ?S a k n r x ?n es "[]" k' r2]) (use A q x in \<open>simp_all add: at_a_fields\<close>)
  moreover have "dir_ok W (swap_net ?n)"
    by (rule receiver_step [of W S2 a2 k2 n r2 r2 ?n es]) (use B q fwd d acks in \<open>simp_all add: at_a_fields\<close>)
  ultimately show ?thesis by (simp add: net_ok_def)
qed

text \<open>Two numbers less than a window apart are equal when they are equal on the wire.\<close>

lemma same_number:
  assumes "i mod MOD256 = r mod MOD256" "i < r + W" "r \<le> i + W" "W < 128"
  shows "i = r"
proof (rule ccontr)
  assume ne: "i \<noteq> r"
  have "MOD256 dvd (if i < r then r - i else i - r)"
    using assms(1) mod_eq_dvd_iff_nat [of i r MOD256] mod_eq_dvd_iff_nat [of r i MOD256] by auto
  then have "256 \<le> (if i < r then r - i else i - r)"
    using ne by (intro dvd_imp_le) (auto simp: MOD256_def split: if_splits)
  then show False using assms by (auto split: if_splits)
qed

text \<open>The arrival of information.\<close>

lemma info_step:
  assumes "net_ok W n" "nt_ba n = (tp, info) # ps" "tp_opcode tp = Op_Info"
  shows "net_ok W (at_a (on_packet now tp info) (n\<lparr>nt_ba := ps\<rparr>))"
proof -
  let ?f = "on_packet now tp info"
  let ?n = "at_a ?f (n\<lparr>nt_ba := ps\<rparr>)" and ?c = "?f (log0 (nt_a n))"
  let ?S = "concat (map fragments (nt_sent_a n))"
  have e: "?f (log0 (nt_a n)) = on_info tp info (log0 (nt_a n))" using assms(3) by (simp add: on_packet_def nr_ops)
  have other: "ps = nt_ba n \<or> (\<exists>p. nt_ba n = p # ps \<and> tp_opcode (fst p) \<noteq> Op_InfoAck)"
    using assms by (simp add: nr_ops)
  show ?thesis
  proof (cases "ci_state (nt_a n) = Cs_Connected \<and> tp_tx_seq tp = ci_vr (nt_a n)")
    case False
    show ?thesis
    proof (rule quiet_same [OF assms(1) other])
      fix S a k r assume h: "tx_half W S a k (nt_a n)" "ci_vr (nt_a n) = r mod MOD256"
      show "quiet W S a k r (log0 (nt_a n)) (?f (log0 (nt_a n)))"
      proof (cases "ci_state (nt_a n) = Cs_Connected")
        case True
        with False have "tp_tx_seq tp \<noteq> ci_vr (log0 (nt_a n))" by simp
        from on_info_refused [OF _ this] True have "?f (log0 (nt_a n)) =
          ci_tx (to_peer (log0 (nt_a n)) 0 (ci_vr (nt_a n)) Op_InfoAck 0) [] (log0 (nt_a n))" by (simp add: e)
        then show ?thesis using h
          by (auto simp: quiet_def sound_out_def nr_ops intro!: exI [of _ k])
      next
        case False
        then show ?thesis unfolding e using quiet_refl [of W S a k "log0 (nt_a n)" r] h(1) by (simp add: on_info_ignored)
      qed
    qed
  next
    case True
    obtain a k r where A: "tx_half W ?S a k (nt_a n)" "a \<le> r" "r \<le> k" "ci_vr (nt_b n) = r mod MOD256"
        "reassemble (take r ?S) = (nt_got_b n, ci_rx_frag (nt_b n))" "fwd_ok W ?S k r (nt_ab n)" "back_ok a r (nt_ba n)"
      using assms(1) by (auto simp: net_ok_def dir_ok_def)
    obtain S2 a2 k2 r2 where B: "S2 = concat (map fragments (nt_sent_b n))" "tx_half W S2 a2 k2 (nt_b n)" "a2 \<le> r2" "r2 \<le> k2"
        "ci_vr (nt_a n) = r2 mod MOD256" "reassemble (take r2 S2) = (nt_got_a n, ci_rx_frag (nt_a n))"
        "fwd_ok W S2 k2 r2 (nt_ba n)" "back_ok a2 r2 (nt_ab n)"
      using assms(1) by (auto simp: net_ok_def dir_ok_def swap_net_def)
    obtain i where i: "i < k2" "info_at S2 i tp info" "r2 \<le> i + W" "fwd_ok W S2 k2 (max r2 (Suc i)) ps"
      using B(7) assms(2,3) by auto
    have w: "W < 128" "k2 \<le> a2 + W" "k2 \<le> length S2" using B(2) by (simp_all add: tx_half_def)
    have ir: "i = r2"
      by (rule same_number [of i r2 W]) (use True i B w in \<open>auto simp: info_at_def\<close>)
    let ?mf = "tp_flags tp AND NR_MORE \<noteq> 0"
    have "ci_state (log0 (nt_a n)) = Cs_Connected" "tp_tx_seq tp = ci_vr (log0 (nt_a n))"
      "reassemble (take r2 S2) = (nt_got_a n, ci_rx_frag (log0 (nt_a n)))" using True B(6) by simp_all
    from on_info_accepted [OF this refl, of info] obtain d ack where acc:
      "ci_log ?c = map Ce_Deliver d @ [Ce_Send ack []]" "tp_opcode ack = Op_InfoAck" "tp_rx_seq ack = (ci_vr (nt_a n) + 1) mod MOD256"
      "reassemble (take r2 S2 @ [(info, ?mf)]) = (nt_got_a n @ d, ci_rx_frag ?c)" "ci_vr ?c = (ci_vr (nt_a n) + 1) mod MOD256"
      "\<And>W S a k. tx_half W S a k ?c = tx_half W S a k (nt_a n)"
      unfolding e by auto
    have S: "take r2 S2 @ [(info, ?mf)] = take (Suc r2) S2"
      using i(2) ir i(1) w(3) by (simp add: info_at_def take_Suc_conv_app_nth)
    have vr: "(ci_vr (nt_a n) + 1) mod MOD256 = Suc r2 mod MOD256" using B(5) by (simp add: mod_simps)
    let ?es = "[Ce_Send ack []]"
    have log: "packets_of (ci_log ?c) = packets_of ?es" "deliveries (ci_log ?c) = d" using acc(1) by simp_all
    have "dir_ok W ?n"
      by (rule sender_step [of W ?S a k n r a ?n ?es "[]" k "Suc r2"])
        (use A acc(2,3,6) vr log assms(2,3) in \<open>simp_all add: at_a_fields sound_out_def nr_ops\<close>)
    moreover have "dir_ok W (swap_net ?n)"
      by (rule receiver_step [of W S2 a2 k2 n r2 "Suc r2" ?n ?es])
        (use B acc log i ir vr S in \<open>simp_all add: at_a_fields max_def\<close>)
    ultimately show ?thesis by (simp add: net_ok_def)
  qed
qed

lemma fragments_not_Nil: "fragments m \<noteq> []"
  by (simp add: fragments_def Let_def)

lemma send_step:
  assumes "net_ok W n"
  shows "net_ok W (step_a now (Nt_Send m) n)"
proof -
  let ?over = "length (ci_txq (nt_a n)) + length (fragments m) > MAX_TXQ"
  let ?sent = "if ?over then nt_sent_a n else nt_sent_a n @ [m]"
  have e: "step_a now (Nt_Send m) n = at_a (ci_send now m) (n\<lparr>nt_ba := nt_ba n, nt_sent_a := ?sent\<rparr>)" by simp
  show ?thesis unfolding e
  proof (rule quiet_step [OF assms])
    fix a k r assume h: "tx_half W (concat (map fragments (nt_sent_a n))) a k (nt_a n)" "ci_vr (nt_a n) = r mod MOD256"
    have "quiet W (if length (ci_txq (log0 (nt_a n))) + length (fragments m) > MAX_TXQ then concat (map fragments (nt_sent_a n))
        else concat (map fragments (nt_sent_a n)) @ fragments m) a k r (log0 (nt_a n)) (ci_send now m (log0 (nt_a n)))"
      by (rule send_quiet) (use h in simp_all)
    then show "quiet W (concat (map fragments ?sent)) a k r (log0 (nt_a n)) (ci_send now m (log0 (nt_a n)))"
      by (cases ?over) simp_all
  qed simp_all
qed

lemma arrive_step:
  assumes "net_ok W n" "1 \<le> W"
  shows "net_ok W (step_a now Nt_Arrive n)"
proof (cases "nt_ba n")
  case Nil
  then show ?thesis using assms by simp
next
  case (Cons p ps)
  obtain tp info where p: "nt_ba n = (tp, info) # ps" using Cons by (cases p) auto
  have e: "step_a now Nt_Arrive n = at_a (on_packet now tp info) (n\<lparr>nt_ba := ps\<rparr>)" using p by simp
  show ?thesis
  proof (cases "tp_opcode tp = Op_Info \<or> tp_opcode tp = Op_InfoAck")
    case True
    then show ?thesis unfolding e using info_step [OF assms(1) p] ack_step [OF assms(1) p] by blast
  next
    case False
    have "quiet W S a k r (log0 (nt_a n)) (on_packet now tp info (log0 (nt_a n)))"
      if "tx_half W S a k (nt_a n)" "ci_vr (nt_a n) = r mod MOD256" for S a k r
      using False that assms(2) conn_req_quiet [of W S a k "log0 (nt_a n)" r] conn_ack_quiet [of W S a k "log0 (nt_a n)" r]
        disc_quiet [of W S a k "log0 (nt_a n)" r] quiet_refl [of W S a k "log0 (nt_a n)" r]
      by (simp add: on_packet_def)
    then show ?thesis unfolding e using False p by (intro quiet_same [OF assms(1)]) auto
  qed
qed

lemma lose_step:
  assumes "net_ok W n"
  shows "net_ok W (step_a now (Nt_Lose i) n)"
proof (cases "i < length (nt_ab n)")
  case True
  then have e: "nt_ab n = take i (nt_ab n) @ nt_ab n ! i # drop (Suc i) (nt_ab n)" by (rule id_take_nth_drop)
  have f: "fwd_ok W S k m (nt_ab n) \<Longrightarrow> fwd_ok W S k m (take i (nt_ab n) @ drop (Suc i) (nt_ab n))" for S k m
    by (rule fwd_ok_lose) (subst (asm) e)
  have b: "back_ok m r (nt_ab n) \<Longrightarrow> back_ok m r (take i (nt_ab n) @ drop (Suc i) (nt_ab n))" for m r
    by (rule back_ok_lose) (subst (asm) e)
  show ?thesis using assms f b unfolding net_ok_def dir_ok_def swap_net_def by simp blast
next
  case False
  then show ?thesis using assms by simp
qed

lemma step_a_ok:
  assumes "net_ok W n" "1 \<le> W" "net_legal W n (s, now, e)"
  shows "net_ok W (step_a now e n)"
proof (cases e)
  case (Nt_Connect w)
  then have "net_ok W (at_a (ci_connect now w) n)" using assms(3) by (intro quiet_here [OF assms(1)] connect_quiet) simp_all
  then show ?thesis using Nt_Connect by simp
next
  case Nt_Disconnect
  have "net_ok W (at_a (ci_disconnect now) n)" by (intro quiet_here [OF assms(1)] disconnect_quiet) simp
  then show ?thesis using Nt_Disconnect by simp
next
  case Nt_Poll
  have "net_ok W (at_a (ci_poll now) n)" by (intro quiet_here [OF assms(1)] poll_quiet) simp
  then show ?thesis using Nt_Poll by simp
next
  case (Nt_Send m)
  show ?thesis unfolding Nt_Send by (rule send_step [OF assms(1)])
next
  case Nt_Arrive
  show ?thesis unfolding Nt_Arrive by (rule arrive_step [OF assms(1,2)])
next
  case (Nt_Lose i)
  show ?thesis unfolding Nt_Lose by (rule lose_step [OF assms(1)])
qed

lemma net_ok_swap: "net_ok W n \<Longrightarrow> net_ok W (swap_net n)"
  by (simp add: net_ok_def conj_commute)

lemma net_step_ok:
  assumes "net_ok W n \<and> 1 \<le> W" "net_legal W n e"
  shows "net_ok W (net_step n e) \<and> 1 \<le> W"
proof -
  obtain s now x where e: "e = (s, now, x)" by (cases e)
  have l: "net_legal W m (s', now, x)" for m s' using assms(2) e by (cases x) simp_all
  show ?thesis using assms(1) e step_a_ok [of W n] step_a_ok [of W "swap_net n", OF net_ok_swap] l
    by (cases s) (auto intro: net_ok_swap)
qed

interpretation network: invariant_machine net_step "\<lambda>n. net_ok W n \<and> 1 \<le> W" "net_legal W"
  by unfold_locales (rule net_step_ok)

definition new_net :: "circuit \<Rightarrow> circuit \<Rightarrow> net" where
  "new_net a b = \<lparr>nt_a = a, nt_b = b, nt_ab = [], nt_ba = [], nt_sent_a = [], nt_sent_b = [], nt_got_a = [], nt_got_b = []\<rparr>"

lemma new_net_ok:
  assumes "4 \<le> W" "W < 128"
  shows "net_ok W (new_net (new_circuit i j o1 t n) (new_circuit i' j' o2 t' n'))"
proof -
  have "tx_half W [] 0 0 (new_circuit x y z u v)" for x y z u v
    using assms by (simp add: tx_half_def new_circuit_def MOD256_def)
  then show ?thesis
    unfolding net_ok_def dir_ok_def swap_net_def new_net_def
    by (auto intro!: exI [of _ 0] simp: reassemble_def) (simp_all add: new_circuit_def MOD256_def)
qed

lemma dir_ok_prefix: "dir_ok W n \<Longrightarrow> prefix (nt_got_b n) (nt_sent_a n)"
proof -
  assume "dir_ok W n"
  then obtain r where "reassemble (take r (concat (map fragments (nt_sent_a n)))) = (nt_got_b n, ci_rx_frag (nt_b n))"
    by (auto simp: dir_ok_def)
  then show ?thesis using reassemble_take_prefix [of r "nt_sent_a n"] by simp
qed

section \<open>Properties\<close>

text \<open>C11: Two circuits over a network that may lose any packet implement two message queues:
  from their creation on, through connects, disconnects, retransmissions and losses in any
  order and at any times, what either end delivers is a prefix of the messages the other end
  took over for sending - whole, in order, none twice. (Windows up to 127; the network does
  not reorder.)\<close>

theorem circuits_implement_queues:
  assumes "network.legal_run 127 (new_net (new_circuit i j o1 t n) (new_circuit i' j' o2 t' n')) es"
  shows "prefix (nt_got_b (network.run (new_net (new_circuit i j o1 t n) (new_circuit i' j' o2 t' n')) es))
      (nt_sent_a (network.run (new_net (new_circuit i j o1 t n) (new_circuit i' j' o2 t' n')) es))
    \<and> prefix (nt_got_a (network.run (new_net (new_circuit i j o1 t n) (new_circuit i' j' o2 t' n')) es))
      (nt_sent_b (network.run (new_net (new_circuit i j o1 t n) (new_circuit i' j' o2 t' n')) es))"
proof -
  let ?n = "network.run (new_net (new_circuit i j o1 t n) (new_circuit i' j' o2 t' n')) es"
  have "net_ok 127 ?n" using network.run_inv [OF _ assms] new_net_ok [of 127] by simp
  then have "dir_ok 127 ?n" "dir_ok 127 (swap_net ?n)" by (simp_all add: net_ok_def)
  from this(1) this(2) [THEN dir_ok_prefix] show ?thesis by (simp add: dir_ok_prefix swap_net_def)
qed

definition demo_origin :: "(address \<times> address) option" where
  "demo_origin = Some (\<lparr>addr_call = ''N0CALL'', addr_ssid = 0\<rparr>, \<lparr>addr_call = ''Q1TEST'', addr_ssid = 7\<rparr>)"

definition demo_net_run :: "(bool \<times> int \<times> net_op) list" where
  "demo_net_run = [(True, 1, Nt_Connect 4), (False, 2, Nt_Arrive), (True, 3, Nt_Arrive), (True, 4, Nt_Send [1, 2]),
     (True, 5, Nt_Lose 0), (True, 6000, Nt_Poll), (False, 6001, Nt_Arrive)]"

theorem circuits_implement_queues_witness:
  "prefix (nt_got_b (network.run (new_net (new_circuit 0 1 demo_origin 5000 5) (new_circuit 3 4 None 5000 5)) demo_net_run))
     (nt_sent_a (network.run (new_net (new_circuit 0 1 demo_origin 5000 5) (new_circuit 3 4 None 5000 5)) demo_net_run))"
proof -
  have "network.legal_run 127 (new_net (new_circuit 0 1 demo_origin 5000 5) (new_circuit 3 4 None 5000 5)) demo_net_run"
    by (simp add: demo_net_run_def)
  from circuits_implement_queues [OF this] show ?thesis by blast
qed

lemma demo_net_delivers:
  "nt_got_b (network.run (new_net (new_circuit 0 1 demo_origin 5000 5) (new_circuit 3 4 None 5000 5)) demo_net_run) = [[1, 2]]"
  unfolding network.run_foldl by code_simp

text \<open>The order of the network matters: an information acknowledgement whose number lies
  outside the unacknowledged part of the stream - one that was overtaken, say - makes the
  circuit give up everything it still had to resend.\<close>

theorem stale_ack_discards_window:
  assumes "tx_half W S a n c" "\<forall>i. a \<le> i \<and> i \<le> n \<longrightarrow> tp_rx_seq tp \<noteq> i mod MOD256" "ci_txq c = []"
  shows "ci_sent (on_info_ack now tp c) = [] \<and> ci_va (on_info_ack now tp c) = n mod MOD256
    \<and> ci_t1 (on_info_ack now tp c) = 0"
proof -
  have "a \<le> n" using assms(1) by (simp add: tx_half_def)
  then have "ack_loop (tp_rx_seq tp) (a mod MOD256) (numbered S a n) = (n mod MOD256, [])"
    using assms(2)
  proof (induction "n - a" arbitrary: a)
    case (Suc d)
    then have "a < n" by simp
    moreover have "(a mod MOD256 + 1) mod MOD256 = Suc a mod MOD256" by (simp add: mod_simps)
    moreover have "tp_rx_seq tp \<noteq> a mod MOD256" using Suc.prems by blast
    moreover have "ack_loop (tp_rx_seq tp) (Suc a mod MOD256) (numbered S (Suc a) n) = (n mod MOD256, [])"
      using Suc \<open>a < n\<close> by (intro Suc.hyps) auto
    ultimately show ?case by (simp add: numbered_Cons)
  qed simp
  then have l: "ack_loop (tp_rx_seq tp) (ci_va c) (ci_sent c) = (n mod MOD256, [])"
    using assms(1) by (simp add: tx_half_def)
  have "pump_loop d = d" if "ci_txq d = []" for d using that by (simp add: pump_loop.simps)
  then show ?thesis using assms(3) by (simp add: on_info_ack_def l Let_def disarm_def pump_def)
qed

theorem stale_ack_discards_window_witness:
  "ci_sent (on_info_ack 0 \<lparr>tp_opcode = 6, tp_flags = 0, tp_circuit_index = 0, tp_circuit_id = 0, tp_tx_seq = 0, tp_rx_seq = 3\<rparr>
     (new_circuit 0 1 None 5000 5\<lparr>ci_va := 5, ci_vs := 6, ci_sent := [(5, [9], False)]\<rparr>)) = []"
proof -
  let ?S = "replicate 5 ([], False) @ [([9], False)]"
  let ?c = "new_circuit 0 1 None 5000 5\<lparr>ci_va := 5, ci_vs := 6, ci_sent := [(5, [9], False)]\<rparr>"
  have "tx_half 4 ?S 5 6 ?c" by (simp add: tx_half_def new_circuit_def MOD256_def numbered_def nth_append)
  moreover have "\<forall>i. 5 \<le> i \<and> i \<le> 6 \<longrightarrow> (3 :: nat) \<noteq> i mod MOD256"
  proof (intro allI impI)
    fix i :: nat assume "5 \<le> i \<and> i \<le> 6"
    then have "i = 5 \<or> i = 6" by linarith
    then show "3 \<noteq> i mod MOD256" by (auto simp: MOD256_def)
  qed
  ultimately show ?thesis
    using stale_ack_discards_window [of 4 ?S 5 6 ?c
      "\<lparr>tp_opcode = 6, tp_flags = 0, tp_circuit_index = 0, tp_circuit_id = 0, tp_tx_seq = 0, tp_rx_seq = 3\<rparr>" 0]
    by (simp add: new_circuit_def)
qed

end
