(* ===== verification/Netrom_Node.thy ===== *)
theory Netrom_Node
  imports Netrom_Wire Interfaces
begin

text \<open>
  The NET/ROM routing tables: \<open>NodesTable\<close> and \<open>reversePath\<close> of
  \<open>packages/packet/src/netrom.ts\<close>, and the automatic routing of a node, \<open>NetromNode\<close> of
  \<open>packages/packet/src/netrom-node.ts\<close>. Qualities are naturals; a stable sort is \<^const>\<open>sort_key\<close>.
\<close>

section \<open>The NODES table\<close>

record node_route =
  nr_dest :: string
  nr_alias :: string
  nr_neighbor :: string
  nr_quality :: nat
  nr_port :: "string option"

type_synonym nodes_table = "(string, node_route) jsmap"

definition nt_learn :: "node_route \<Rightarrow> nodes_table \<Rightarrow> nodes_table" where
  "nt_learn r t =
     (let key = js_upper (nr_dest r)
      in case jm_get t key of
           Some cur \<Rightarrow> if nr_quality r > nr_quality cur
                       then jm_set key (r\<lparr>nr_dest := key, nr_alias := js_upper (nr_alias r)\<rparr>) t else t
         | None \<Rightarrow> jm_set key (r\<lparr>nr_dest := key, nr_alias := js_upper (nr_alias r)\<rparr>) t)"

definition new_nodes_table :: "node_route list \<Rightarrow> nodes_table" where
  "new_nodes_table seed = foldl (\<lambda>t r. nt_learn r t) [] seed"

definition nt_best :: "string \<Rightarrow> nodes_table \<Rightarrow> node_route option" where
  "nt_best dest_or_alias t =
     (let k = js_upper dest_or_alias
      in case jm_get t k of Some r \<Rightarrow> Some r | None \<Rightarrow> find (\<lambda>r. nr_alias r = k) (jm_values t))"

definition nt_list :: "nodes_table \<Rightarrow> node_route list" where
  "nt_list t = sort_key (\<lambda>r. - int (nr_quality r)) (jm_values t)"

text \<open>
  The factor is the fraction \<open>num/den\<close> (the default 0.9 is 9/10): for qualities up to 255 the
  floor of the floating-point product is the floor of the exact one.
\<close>

definition nt_decay :: "nat \<Rightarrow> nat \<Rightarrow> nodes_table \<Rightarrow> nodes_table" where
  "nt_decay num den t =
     filter (\<lambda>(k, r). nr_quality r > 0) (map (\<lambda>(k, r). (k, r\<lparr>nr_quality := nr_quality r * num div den\<rparr>)) t)"

definition reverse_path :: "string list \<Rightarrow> string list" where
  "reverse_path path =
     rev (filter (\<lambda>s. s \<noteq> [])
       (map (\<lambda>p. js_upper (if p \<noteq> [] \<and> last p = CHR ''*'' then butlast p else p)) path))"

section \<open>The routing of a node\<close>

record node_ident =
  ni_call :: address
  ni_alias :: string

record learned_route =
  lr_dest :: address
  lr_alias :: string
  lr_neighbor :: address
  lr_quality :: nat
  lr_port :: "string option"
  lr_obsolescence :: nat
  lr_locked :: bool

definition OBS_INIT :: nat where "OBS_INIT = 6"

record node_config =
  nc_path_quality :: nat
  nc_top_n :: nat
  nc_min_obs :: nat
  nc_max_routes :: nat
  nc_max_learns :: nat
  nc_learn_window :: int

definition NODE_DEFAULTS :: node_config where
  "NODE_DEFAULTS = \<lparr>nc_path_quality = 192, nc_top_n = 3, nc_min_obs = 5, nc_max_routes = 500,
     nc_max_learns = 200, nc_learn_window = 60000\<rparr>"

record learn_budget =
  lb_count :: nat
  lb_reset_at :: int

record netrom_node =
  nd_ident :: node_ident
  nd_opts :: node_config
  nd_routes :: "(string, learned_route) jsmap"
  nd_budget :: "(string, learn_budget) jsmap"

definition new_node :: "node_ident \<Rightarrow> node_config \<Rightarrow> netrom_node" where
  "new_node ident opts = \<lparr>nd_ident = ident, nd_opts = opts, nd_routes = [], nd_budget = []\<rparr>"

definition node_key :: "address \<Rightarrow> string" where
  "node_key a = js_upper (addr_str a)"

definition learn_allowed :: "int \<Rightarrow> address \<Rightarrow> netrom_node \<Rightarrow> bool \<times> netrom_node" where
  "learn_allowed now neighbor n =
     (let k = node_key neighbor;
          fresh = \<lparr>lb_count = 1, lb_reset_at = now + nc_learn_window (nd_opts n)\<rparr>
      in case jm_get (nd_budget n) k of
           None \<Rightarrow> (True, n\<lparr>nd_budget := jm_set k fresh (nd_budget n)\<rparr>)
         | Some b \<Rightarrow>
             if now \<ge> lb_reset_at b then (True, n\<lparr>nd_budget := jm_set k fresh (nd_budget n)\<rparr>)
             else if lb_count b \<ge> nc_max_learns (nd_opts n) then (False, n)
             else (True, n\<lparr>nd_budget := jm_set k (b\<lparr>lb_count := lb_count b + 1\<rparr>) (nd_budget n)\<rparr>))"

text \<open>What is learned: a route without its obsolescence, and a lock if one is given.\<close>

record heard_route =
  hr_dest :: address
  hr_alias :: string
  hr_neighbor :: address
  hr_quality :: nat
  hr_port :: "string option"
  hr_locked :: "bool option"

definition route_of :: "heard_route \<Rightarrow> bool \<Rightarrow> learned_route" where
  "route_of r locked =
     \<lparr>lr_dest = hr_dest r, lr_alias = js_upper (hr_alias r), lr_neighbor = hr_neighbor r, lr_quality = hr_quality r,
      lr_port = hr_port r, lr_obsolescence = OBS_INIT,
      lr_locked = (case hr_locked r of None \<Rightarrow> locked | Some l \<Rightarrow> l)\<rparr>"

definition worst_unlocked :: "(string, learned_route) jsmap \<Rightarrow> learned_route option" where
  "worst_unlocked rs =
     (case sort_key lr_quality (filter (\<lambda>r. \<not> lr_locked r) (jm_values rs)) of [] \<Rightarrow> None | w # _ \<Rightarrow> Some w)"

definition node_learn :: "heard_route \<Rightarrow> netrom_node \<Rightarrow> netrom_node" where
  "node_learn r n =
     (let k = node_key (hr_dest r)
      in case jm_get (nd_routes n) k of
           Some cur \<Rightarrow>
             if hr_quality r \<ge> lr_quality cur
             then n\<lparr>nd_routes := jm_set k (route_of r (lr_locked cur)) (nd_routes n)\<rparr>
             else n\<lparr>nd_routes := jm_set k (cur\<lparr>lr_obsolescence := OBS_INIT\<rparr>) (nd_routes n)\<rparr>
         | None \<Rightarrow>
             if length (nd_routes n) \<ge> nc_max_routes (nd_opts n)
             then case worst_unlocked (nd_routes n) of
                    None \<Rightarrow> n
                  | Some worst \<Rightarrow>
                      if hr_quality r \<le> lr_quality worst then n
                      else n\<lparr>nd_routes := jm_set k (route_of r False) (jm_delete (node_key (lr_dest worst)) (nd_routes n))\<rparr>
             else n\<lparr>nd_routes := jm_set k (route_of r False) (nd_routes n)\<rparr>)"

definition node_lock :: "address \<Rightarrow> string \<Rightarrow> address \<Rightarrow> nat \<Rightarrow> string option \<Rightarrow> netrom_node \<Rightarrow> netrom_node" where
  "node_lock dest alias neighbor quality port =
     node_learn \<lparr>hr_dest = dest, hr_alias = alias, hr_neighbor = neighbor, hr_quality = quality, hr_port = port, hr_locked = Some True\<rparr>"

text \<open>The destinations of a broadcast, until the budget of the neighbour is spent; the count goes along.\<close>

fun consume_dests :: "int \<Rightarrow> address \<Rightarrow> string option \<Rightarrow> nodes_dest list \<Rightarrow> nat \<Rightarrow> netrom_node \<Rightarrow> nat \<times> netrom_node" where
  "consume_dests now neighbor port [] count n = (count, n)"
| "consume_dests now neighbor port (d # ds) count n =
     (if node_key (nd_dest d) = node_key (ni_call (nd_ident n)) then consume_dests now neighbor port ds count n
      else let (allowed, n) = learn_allowed now neighbor n
           in if \<not> allowed then (count, n)
              else consume_dests now neighbor port ds (count + 1)
                (node_learn \<lparr>hr_dest = nd_dest d, hr_alias = nd_alias d, hr_neighbor = neighbor,
                   hr_quality = combine_quality (nd_quality d) (nc_path_quality (nd_opts n)), hr_port = port, hr_locked = None\<rparr> n))"

definition node_consume :: "int \<Rightarrow> byte list \<Rightarrow> address \<Rightarrow> string option \<Rightarrow> netrom_node \<Rightarrow> nat \<times> netrom_node" where
  "node_consume now info neighbor port n =
     (case decode_nodes_broadcast info of
        None \<Rightarrow> (0, n)
      | Some (sender_alias, dests) \<Rightarrow>
          let (allowed, n) = learn_allowed now neighbor n
          in if \<not> allowed then (0, n)
             else consume_dests now neighbor port dests 1
               (node_learn \<lparr>hr_dest = neighbor, hr_alias = (if sender_alias \<noteq> [] then sender_alias else addr_str neighbor),
                  hr_neighbor = neighbor, hr_quality = nc_path_quality (nd_opts n), hr_port = port, hr_locked = None\<rparr> n))"

definition best_first :: "learned_route list \<Rightarrow> learned_route list" where
  "best_first rs = sort_key (\<lambda>r. - int (lr_quality r)) rs"

definition node_best :: "string \<Rightarrow> netrom_node \<Rightarrow> learned_route option" where
  "node_best dest_or_alias n =
     (let k = js_upper dest_or_alias
      in case jm_get (nd_routes n) k of
           Some r \<Rightarrow> Some r
         | None \<Rightarrow> (case best_first (filter (\<lambda>r. lr_alias r = k) (jm_values (nd_routes n))) of [] \<Rightarrow> None | r # _ \<Rightarrow> Some r))"

definition node_list :: "netrom_node \<Rightarrow> learned_route list" where
  "node_list n = best_first (jm_values (nd_routes n))"

definition advertised :: "netrom_node \<Rightarrow> nodes_dest list" where
  "advertised n =
     \<lparr>nd_dest = ni_call (nd_ident n), nd_alias = ni_alias (nd_ident n), nd_neighbor = ni_call (nd_ident n), nd_quality = 0\<rparr>
     # map (\<lambda>r. \<lparr>nd_dest = lr_dest r, nd_alias = lr_alias r, nd_neighbor = lr_neighbor r, nd_quality = lr_quality r\<rparr>)
         (take (nc_top_n (nd_opts n)) (filter (\<lambda>r. lr_obsolescence r \<ge> nc_min_obs (nd_opts n)) (node_list n)))"

definition node_broadcast :: "netrom_node \<Rightarrow> byte list list" where
  "node_broadcast n = encode_nodes_broadcast (ni_alias (nd_ident n)) (advertised n)"

definition age :: "learned_route \<Rightarrow> learned_route" where
  "age r = (if lr_locked r then r else r\<lparr>lr_obsolescence := lr_obsolescence r - 1\<rparr>)"

definition node_decay :: "netrom_node \<Rightarrow> netrom_node" where
  "node_decay n =
     n\<lparr>nd_routes := filter (\<lambda>(k, r). lr_locked r \<or> lr_obsolescence r > 0) (map (\<lambda>(k, r). (k, age r)) (nd_routes n))\<rparr>"

section \<open>The invariant of the routing table\<close>

definition route_ok :: "string \<Rightarrow> learned_route \<Rightarrow> bool" where
  "route_ok k r = (k = node_key (lr_dest r) \<and> 1 \<le> lr_obsolescence r \<and> lr_obsolescence r \<le> OBS_INIT \<and> lr_quality r \<le> 255)"

definition node_ok :: "node_config \<Rightarrow> netrom_node \<Rightarrow> bool" where
  "node_ok opts n = (nd_opts n = opts \<and> nc_path_quality opts \<le> 255 \<and> jm_ok (nd_routes n)
     \<and> (\<forall>(k, r)\<in>set (nd_routes n). route_ok k r) \<and> length (nd_routes n) \<le> nc_max_routes opts
     \<and> jm_ok (nd_budget n) \<and> (\<forall>(k, b)\<in>set (nd_budget n). lb_count b \<le> max 1 (nc_max_learns opts)))"

lemma route_ok_of: "hr_quality r \<le> 255 \<Longrightarrow> route_ok (node_key (hr_dest r)) (route_of r l)"
  by (simp add: route_ok_def route_of_def OBS_INIT_def)

lemma routes_set_ok:
  assumes "\<forall>(k, r)\<in>set rs. route_ok k r" "route_ok k r"
  shows "\<forall>(k, r)\<in>set (jm_set k r rs). route_ok k r"
  using assms by (auto dest!: set_jm_set_cases)

lemma worst_unlocked_in: "worst_unlocked rs = Some w \<Longrightarrow> \<exists>k. (k, w) \<in> set rs \<and> \<not> lr_locked w"
proof -
  assume "worst_unlocked rs = Some w"
  then obtain ws where e: "sort_key lr_quality (filter (\<lambda>r. \<not> lr_locked r) (jm_values rs)) = w # ws"
    by (auto simp: worst_unlocked_def split: list.splits)
  from arg_cong [OF e, of set] have "w \<in> set (filter (\<lambda>r. \<not> lr_locked r) (jm_values rs))" by simp
  then show ?thesis by auto
qed

lemma combine_quality_le: "q \<le> 255 \<Longrightarrow> p \<le> 255 \<Longrightarrow> combine_quality q p \<le> p"
proof -
  assume "q \<le> 255" "p \<le> 255"
  then have "q * p \<le> 255 * p" by (intro mult_right_mono) simp_all
  then have "q * p + 128 < 255 * p + 256" by linarith
  then have "q * p + 128 < 256 * (p + 1)" by simp
  then show ?thesis unfolding combine_quality_def
    by (metis less_Suc_eq_le Suc_eq_plus1 less_mult_imp_div_less mult.commute)
qed

lemma node_learn_ok [inv_intros]:
  assumes "node_ok opts n" "hr_quality r \<le> 255"
  shows "node_ok opts (node_learn r n)"
proof -
  let ?k = "node_key (hr_dest r)"
  note ok = assms(1) [unfolded node_ok_def]
  have set_ok: "node_ok opts (n\<lparr>nd_routes := jm_set ?k x rs\<rparr>)"
    if "jm_ok rs" "\<forall>(k, r)\<in>set rs. route_ok k r" "route_ok ?k x" "length (jm_set ?k x rs) \<le> nc_max_routes opts" for x rs
    using ok that routes_set_ok [OF that(2,3)] by (simp add: node_ok_def)
  show ?thesis
  proof (cases "jm_get (nd_routes n) ?k")
    case (Some cur)
    have "(?k, cur) \<in> set (nd_routes n)" by (rule jm_get_Some_in [OF Some])
    then have c: "route_ok ?k cur" "?k \<in> set (jm_keys (nd_routes n))" using ok by force+
    have l: "length (jm_set ?k x (nd_routes n)) \<le> nc_max_routes opts" for x
      using ok c(2) by (simp add: length_jm_set)
    have "route_ok ?k (cur\<lparr>lr_obsolescence := OBS_INIT\<rparr>)" using c(1) by (simp add: route_ok_def OBS_INIT_def)
    then show ?thesis using Some set_ok [OF _ _ _ l] ok route_ok_of [OF assms(2)] by (simp add: node_learn_def Let_def)
  next
    case None
    have nk: "?k \<notin> set (jm_keys rs)" if "set rs \<subseteq> set (nd_routes n)" for rs
      using None that by (auto simp: jm_get_None_iff)
    show ?thesis
    proof (cases "length (nd_routes n) \<ge> nc_max_routes (nd_opts n)")
      case False
      then have "length (jm_set ?k x (nd_routes n)) \<le> nc_max_routes opts" for x
        using ok nk [OF order_refl] by (simp add: length_jm_set)
      then show ?thesis using None False set_ok ok route_ok_of [OF assms(2)] by (simp add: node_learn_def Let_def)
    next
      case full: True
      show ?thesis
      proof (cases "worst_unlocked (nd_routes n)")
        case None
        then show ?thesis using \<open>jm_get (nd_routes n) ?k = None\<close> full assms(1) by (simp add: node_learn_def Let_def)
      next
        case (Some w)
        obtain k where w: "(k, w) \<in> set (nd_routes n)" using worst_unlocked_in [OF Some] by blast
        then have k: "k = node_key (lr_dest w)" using ok by (auto simp: route_ok_def)
        let ?rs = "jm_delete k (nd_routes n)"
        have sub: "set ?rs \<subseteq> set (nd_routes n)" by (rule set_jm_delete_subset)
        have "Suc (length ?rs) = length (nd_routes n)" using w ok by (intro length_jm_delete) force+
        moreover have "length (jm_set ?k x ?rs) = Suc (length ?rs)" for x
          unfolding length_jm_set by (rule if_not_P) (rule nk [OF sub])
        ultimately have l: "length (jm_set ?k x ?rs) \<le> nc_max_routes opts" for x using ok by simp
        have "\<forall>(k, r)\<in>set ?rs. route_ok k r" using sub ok by blast
        then have "node_ok opts (n\<lparr>nd_routes := jm_set ?k (route_of r False) ?rs\<rparr>)"
          using ok route_ok_of [OF assms(2)] l by (intro set_ok) simp_all
        then show ?thesis using None full Some assms(1) k by (simp add: node_learn_def Let_def)
      qed
    qed
  qed
qed

lemma learn_allowed_ok [inv_intros]:
  assumes "node_ok opts n"
  shows "node_ok opts (snd (learn_allowed now nb n))"
proof -
  have set: "node_ok opts (n\<lparr>nd_budget := jm_set k b (nd_budget n)\<rparr>)" if "lb_count b \<le> max 1 (nc_max_learns opts)" for k b
    using assms that by (auto simp: node_ok_def dest!: set_jm_set_cases)
  moreover have "node_ok opts (n\<lparr>nd_budget := jm_set k (b\<lparr>lb_count := Suc (lb_count b)\<rparr>) (nd_budget n)\<rparr>)"
    if "\<not> lb_count b \<ge> nc_max_learns (nd_opts n)" for b k
    using that assms by (intro set) (auto simp: node_ok_def)
  ultimately show ?thesis using assms by (auto simp: learn_allowed_def Let_def split: option.split)
qed

lemma consume_dests_ok:
  "node_ok opts n \<Longrightarrow> \<forall>d\<in>set ds. nd_quality d \<le> 255 \<Longrightarrow> node_ok opts (snd (consume_dests now nb port ds c n))"
proof (induction ds arbitrary: c n)
  case (Cons d ds)
  let ?n = "snd (learn_allowed now nb n)"
  let ?h = "\<lparr>hr_dest = nd_dest d, hr_alias = nd_alias d, hr_neighbor = nb,
     hr_quality = combine_quality (nd_quality d) (nc_path_quality (nd_opts ?n)), hr_port = port, hr_locked = None\<rparr>"
  have n: "node_ok opts ?n" by (rule learn_allowed_ok [OF Cons.prems(1)])
  have "hr_quality ?h \<le> 255"
    using combine_quality_le [of "nd_quality d" "nc_path_quality opts"] n Cons.prems(2) by (simp add: node_ok_def)
  then have "node_ok opts (node_learn ?h ?n)" by (rule node_learn_ok [OF n])
  then show ?case using Cons n by (simp add: split_beta Let_def)
qed simp

lemma nodes_records_quality: "d \<in> set (nodes_records b) \<Longrightarrow> nd_quality d \<le> 255"
proof (induction b rule: nodes_records.induct)
  case (1 b)
  have "unat (b ! 20) \<le> 255" using unat_byte_lt [of "b ! 20"] by linarith
  with 1 show ?case by (subst (asm) (2) nodes_records.simps) (auto split: if_splits)
qed

lemma node_consume_ok [inv_intros]:
  assumes "node_ok opts n"
  shows "node_ok opts (snd (node_consume now info nb port n))"
proof (cases "decode_nodes_broadcast info")
  case None
  then show ?thesis using assms by (simp add: node_consume_def)
next
  case (Some p)
  obtain al ds where p: "p = (al, ds)" by (cases p)
  have ds: "\<forall>d\<in>set ds. nd_quality d \<le> 255"
    using Some p nodes_records_quality by (auto simp: decode_nodes_broadcast_def split: if_splits)
  let ?n = "snd (learn_allowed now nb n)"
  have n: "node_ok opts ?n" by (rule learn_allowed_ok [OF assms])
  then have "nc_path_quality (nd_opts ?n) \<le> 255" by (simp add: node_ok_def)
  then have "node_ok opts (snd (consume_dests now nb port ds 1 (node_learn
     \<lparr>hr_dest = nb, hr_alias = (if al \<noteq> [] then al else addr_str nb), hr_neighbor = nb,
      hr_quality = nc_path_quality (nd_opts ?n), hr_port = port, hr_locked = None\<rparr> ?n)))"
    by (intro consume_dests_ok [OF _ ds] node_learn_ok n) simp
  then show ?thesis using Some p n by (cases "al = []") (simp_all add: node_consume_def split_beta Let_def)
qed

lemma age_keys: "map fst (map (\<lambda>(k, r). (k, age r)) rs) = map fst rs"
  by (induction rs) auto

lemma node_decay_ok [inv_intros]:
  assumes "node_ok opts n"
  shows "node_ok opts (node_decay n)"
proof -
  let ?rs = "filter (\<lambda>(k, r). lr_locked r \<or> lr_obsolescence r > 0) (map (\<lambda>(k, r). (k, age r)) (nd_routes n))"
  have "jm_ok (map (\<lambda>(k, r). (k, age r)) (nd_routes n))"
    using assms unfolding jm_ok_def age_keys by (simp add: node_ok_def jm_ok_def)
  then have "jm_ok ?rs" by (rule jm_ok_filter)
  moreover have "route_ok k r" if m: "(k, r) \<in> set ?rs" for k r
  proof -
    have c: "lr_locked r \<or> lr_obsolescence r > 0" using m by simp
    obtain r0 where r0: "(k, r0) \<in> set (nd_routes n)" "r = age r0" using m by auto
    have "route_ok k r0" using assms r0(1) by (auto simp: node_ok_def)
    then show ?thesis using r0(2) c by (auto simp: route_ok_def age_def split: if_splits)
  qed
  moreover have "length ?rs \<le> nc_max_routes opts"
  proof -
    have "length ?rs \<le> length (map (\<lambda>(k, r). (k, age r)) (nd_routes n))" by (rule length_filter_le)
    also have "\<dots> \<le> nc_max_routes opts" using assms by (simp add: node_ok_def)
    finally show ?thesis .
  qed
  ultimately show ?thesis using assms by (auto simp: node_decay_def node_ok_def)
qed

datatype node_op =
    Nn_Consume "byte list" address "string option"
  | Nn_Lock address string address nat "string option"
  | Nn_Decay

fun node_step :: "netrom_node \<Rightarrow> int \<times> node_op \<Rightarrow> netrom_node" where
  "node_step n (now, Nn_Consume info nb port) = snd (node_consume now info nb port n)"
| "node_step n (now, Nn_Lock dest alias nb q port) = node_lock dest alias nb q port n"
| "node_step n (now, Nn_Decay) = node_decay n"

fun node_legal :: "netrom_node \<Rightarrow> int \<times> node_op \<Rightarrow> bool" where
  "node_legal n (now, Nn_Lock dest alias nb q port) = (q \<le> 255)"
| "node_legal n _ = True"

interpretation routing: invariant_machine node_step "node_ok opts" node_legal
proof
  fix n e assume "node_ok opts n" "node_legal n e"
  then show "node_ok opts (node_step n e)"
    by (cases "(n, e)" rule: node_step.cases) (auto simp: node_lock_def intro!: inv_intros)
qed

lemma new_node_ok: "nc_path_quality opts \<le> 255 \<Longrightarrow> node_ok opts (new_node ident opts)"
  by (simp add: node_ok_def new_node_def)

section \<open>Ageing\<close>

lemma decay_get:
  assumes "node_ok opts n"
  shows "jm_get (nd_routes (node_decay n)) k = (case jm_get (nd_routes n) k of None \<Rightarrow> None
    | Some r \<Rightarrow> if lr_locked r \<or> lr_obsolescence r > 1 then Some (age r) else None)"
proof -
  have ok: "jm_ok (map (\<lambda>(k, r). (k, age r)) (nd_routes n))"
    using assms unfolding jm_ok_def age_keys by (simp add: node_ok_def jm_ok_def)
  have "jm_get (map (\<lambda>(k, r). (k, age r)) rs) k = map_option age (jm_get rs k)" for rs by (induction rs) auto
  then show ?thesis unfolding node_decay_def using jm_get_filter [OF ok]
    by (auto simp: age_def split: option.split)
qed

lemma decay_many:
  "node_ok opts n \<Longrightarrow> node_ok opts ((node_decay ^^ i) n) \<and> jm_get (nd_routes ((node_decay ^^ i) n)) k
    = (case jm_get (nd_routes n) k of None \<Rightarrow> None
       | Some r \<Rightarrow> if lr_locked r then Some r
                   else if lr_obsolescence r > i then Some (r\<lparr>lr_obsolescence := lr_obsolescence r - i\<rparr>) else None)"
proof (induction i)
  case 0
  then have "route_ok k r" if "jm_get (nd_routes n) k = Some r" for r
    using jm_get_Some_in [OF that] by (auto simp: node_ok_def)
  with 0 show ?case by (auto simp: route_ok_def split: option.split)
next
  case (Suc i)
  then have ok: "node_ok opts ((node_decay ^^ i) n)" by blast
  show ?case using Suc decay_get [OF ok, of k] node_decay_ok [OF ok] by (auto simp: age_def split: option.splits)
qed

section \<open>Two nodes that hear each other\<close>

text \<open>
  A round of two nodes: both age their routes, then each consumes the broadcast of the other.
\<close>

definition hear :: "int \<Rightarrow> address \<Rightarrow> byte list list \<Rightarrow> netrom_node \<Rightarrow> netrom_node" where
  "hear now from_call frames n = foldl (\<lambda>n f. snd (node_consume now f from_call None n)) n frames"

definition node_round :: "int \<Rightarrow> netrom_node \<times> netrom_node \<Rightarrow> netrom_node \<times> netrom_node" where
  "node_round now p =
     (let a = node_decay (fst p); b = node_decay (snd p)
      in (hear now (ni_call (nd_ident b)) (node_broadcast b) a, hear now (ni_call (nd_ident a)) (node_broadcast a) b))"

definition call_of :: "string \<Rightarrow> address" where
  "call_of s = \<lparr>addr_call = s, addr_ssid = 0\<rparr>"

definition direct :: "string \<Rightarrow> string \<Rightarrow> learned_route" where
  "direct c al = \<lparr>lr_dest = call_of c, lr_alias = al, lr_neighbor = call_of c, lr_quality = 192, lr_port = None,
     lr_obsolescence = 6, lr_locked = False\<rparr>"

text \<open>
  The station DEAD was heard once, by the first node, and is gone. The first node keeps its
  direct route to it, the second one a route through the first node.
\<close>

definition node_a :: "(string, learn_budget) jsmap \<Rightarrow> netrom_node" where
  "node_a budget = \<lparr>nd_ident = \<lparr>ni_call = call_of ''NODEA'', ni_alias = ''HUBA''\<rparr>, nd_opts = NODE_DEFAULTS,
     nd_routes = [(''DEAD'', direct ''DEAD'' ''GONE''), (''NODEB'', direct ''NODEB'' ''HUBB'')], nd_budget = budget\<rparr>"

definition node_b :: "(string, learn_budget) jsmap \<Rightarrow> netrom_node" where
  "node_b budget = \<lparr>nd_ident = \<lparr>ni_call = call_of ''NODEB'', ni_alias = ''HUBB''\<rparr>, nd_opts = NODE_DEFAULTS,
     nd_routes = [(''NODEA'', direct ''NODEA'' ''HUBA''),
       (''DEAD'', \<lparr>lr_dest = call_of ''DEAD'', lr_alias = ''GONE'', lr_neighbor = call_of ''NODEA'', lr_quality = 144,
          lr_port = None, lr_obsolescence = 6, lr_locked = False\<rparr>)], nd_budget = budget\<rparr>"

lemma node_broadcast_one:
  assumes "wf_alias (ni_alias (nd_ident n))" "\<forall>d\<in>set (advertised n). wf_nodes_dest d" "length (advertised n) \<le> 11"
  shows "\<exists>f. node_broadcast n = [f] \<and> decode_nodes_broadcast f = Some (ni_alias (nd_ident n), advertised n)"
  using assms decode_nodes_frame [OF assms(1,2)]
  by (simp add: node_broadcast_def encode_nodes_broadcast_def chunks_whole MAX_DESTS_PER_FRAME_def)

lemma hear_broadcast:
  assumes "wf_alias (ni_alias (nd_ident n))" "\<forall>d\<in>set (advertised n). wf_nodes_dest d" "length (advertised n) \<le> 11"
    "ni_alias (nd_ident n) \<noteq> []" "learn_allowed now c m = (True, m')"
  shows "hear now c (node_broadcast n) m = snd (consume_dests now c None (advertised n) 1
    (node_learn \<lparr>hr_dest = c, hr_alias = ni_alias (nd_ident n), hr_neighbor = c,
       hr_quality = nc_path_quality (nd_opts m'), hr_port = None, hr_locked = None\<rparr> m'))"
  using node_broadcast_one [OF assms(1-3)] assms(4,5) by (auto simp: hear_def node_consume_def)

definition adv :: "string \<Rightarrow> string \<Rightarrow> string \<Rightarrow> nat \<Rightarrow> nodes_dest" where
  "adv c al nb q = \<lparr>nd_dest = call_of c, nd_alias = al, nd_neighbor = call_of nb, nd_quality = q\<rparr>"

lemma keys_eval: "node_key (call_of ''NODEA'') = ''NODEA''" "node_key (call_of ''NODEB'') = ''NODEB''" "node_key (call_of ''DEAD'') = ''DEAD''"
  by code_simp+

lemma upper_eval: "js_upper ''HUBA'' = ''HUBA''" "js_upper ''HUBB'' = ''HUBB''" "js_upper ''GONE'' = ''GONE''"
  by code_simp+

lemma upper_letters:
  "map upper_char ''HUBAGONE'' = ''HUBAGONE''"
  by code_simp

lemma combine_eval: "combine_quality 0 192 = 0" "combine_quality 144 192 = 108" "combine_quality 192 192 = 144"
  by (simp_all add: combine_quality_def)

lemma wf_names: "wf_alias ''HUBA''" "wf_alias ''HUBB''" "wf_alias ''GONE''"
  "wf_address (call_of ''NODEA'')" "wf_address (call_of ''NODEB'')" "wf_address (call_of ''DEAD'')"
  by code_simp+

lemma advertised_a: "advertised (node_decay (node_a budget)) =
    [adv ''NODEA'' ''HUBA'' ''NODEA'' 0, adv ''DEAD'' ''GONE'' ''DEAD'' 192, adv ''NODEB'' ''HUBB'' ''NODEB'' 192]"
  by (simp add: advertised_def node_list_def best_first_def node_decay_def node_a_def direct_def age_def NODE_DEFAULTS_def adv_def)

lemma advertised_b: "advertised (node_decay (node_b budget)) =
    [adv ''NODEB'' ''HUBB'' ''NODEB'' 0, adv ''NODEA'' ''HUBA'' ''NODEA'' 192, adv ''DEAD'' ''GONE'' ''NODEA'' 144]"
  by (simp add: advertised_def node_list_def best_first_def node_decay_def node_b_def direct_def age_def NODE_DEFAULTS_def adv_def)

text \<open>Whether a budget has run out by a time.\<close>

definition renewed :: "int \<Rightarrow> string \<Rightarrow> (string, learn_budget) jsmap \<Rightarrow> bool" where
  "renewed now k budget = (case jm_get budget k of None \<Rightarrow> True | Some b \<Rightarrow> now \<ge> lb_reset_at b)"

lemma learn_renewed:
  assumes "renewed now (node_key c) (nd_budget n)"
  shows "learn_allowed now c n = (True, n\<lparr>nd_budget := jm_set (node_key c)
    \<lparr>lb_count = 1, lb_reset_at = now + nc_learn_window (nd_opts n)\<rparr> (nd_budget n)\<rparr>)"
  using assms by (auto simp: learn_allowed_def Let_def renewed_def split: option.splits)

lemmas node_eval = keys_eval upper_eval upper_letters [simplified] combine_eval node_learn_def learn_allowed_def
  NODE_DEFAULTS_def route_of_def OBS_INIT_def direct_def age_def adv_def Let_def

lemma hear_renewed:
  assumes "renewed now (node_key c) (nd_budget m)" "advertised n = ds" "ni_alias (nd_ident n) = al" "al \<noteq> []"
    "wf_alias al" "\<forall>d\<in>set ds. wf_nodes_dest d" "length ds \<le> 11"
  shows "hear now c (node_broadcast n) m = snd (consume_dests now c None ds 1
    (node_learn \<lparr>hr_dest = c, hr_alias = al, hr_neighbor = c, hr_quality = nc_path_quality (nd_opts m), hr_port = None, hr_locked = None\<rparr>
      (m\<lparr>nd_budget := jm_set (node_key c) \<lparr>lb_count = 1, lb_reset_at = now + nc_learn_window (nd_opts m)\<rparr> (nd_budget m)\<rparr>)))"
  using hear_broadcast [of n, OF _ _ _ _ learn_renewed [OF assms(1)]] assms(2-) by simp

lemma adv_wf:
  "wf_nodes_dest (adv ''NODEA'' ''HUBA'' nb q) = (wf_address (call_of nb) \<and> q < 256)"
  "wf_nodes_dest (adv ''NODEB'' ''HUBB'' nb q) = (wf_address (call_of nb) \<and> q < 256)"
  "wf_nodes_dest (adv ''DEAD'' ''GONE'' nb q) = (wf_address (call_of nb) \<and> q < 256)"
  using wf_names by (auto simp: adv_def wf_nodes_dest_def)

lemma idents: "nd_ident (node_decay (node_a b)) = \<lparr>ni_call = call_of ''NODEA'', ni_alias = ''HUBA''\<rparr>"
  "nd_ident (node_decay (node_b b)) = \<lparr>ni_call = call_of ''NODEB'', ni_alias = ''HUBB''\<rparr>"
  "nd_budget (node_decay (node_a b)) = b" "nd_budget (node_decay (node_b b)) = b"
  "nd_opts (node_decay (node_a b)) = NODE_DEFAULTS" "nd_opts (node_decay (node_b b)) = NODE_DEFAULTS"
  by (simp_all add: node_decay_def node_a_def node_b_def)

lemma round_a:
  assumes "renewed now ''NODEB'' budget"
  shows "\<exists>budget'. hear now (call_of ''NODEB'') (node_broadcast (node_decay (node_b b2))) (node_decay (node_a budget)) = node_a budget'
    \<and> jm_get budget' ''NODEB'' = Some \<lparr>lb_count = 3, lb_reset_at = now + 60000\<rparr>"
proof -
  have r: "renewed now (node_key (call_of ''NODEB'')) (nd_budget (node_decay (node_a budget)))"
    unfolding idents keys_eval by (rule assms)
  have i: "ni_alias (nd_ident (node_decay (node_b b2))) = ''HUBB''" by (simp add: idents)
  have w: "\<forall>d\<in>set [adv ''NODEB'' ''HUBB'' ''NODEB'' 0, adv ''NODEA'' ''HUBA'' ''NODEA'' 192, adv ''DEAD'' ''GONE'' ''NODEA'' 144]. wf_nodes_dest d"
    by (simp add: adv_wf wf_names)
  have l: "''HUBB'' \<noteq> []" "length [adv ''NODEB'' ''HUBB'' ''NODEB'' 0, adv ''NODEA'' ''HUBA'' ''NODEA'' 192, adv ''DEAD'' ''GONE'' ''NODEA'' 144] \<le> 11"
    by simp_all
  show ?thesis
    unfolding hear_renewed [OF r advertised_b i l(1) wf_names(2) w l(2)]
    by (simp add: node_eval idents node_decay_def node_a_def)
qed

lemma round_b:
  assumes "renewed now ''NODEA'' budget"
  shows "\<exists>budget'. hear now (call_of ''NODEA'') (node_broadcast (node_decay (node_a b1))) (node_decay (node_b budget)) = node_b budget'
    \<and> jm_get budget' ''NODEA'' = Some \<lparr>lb_count = 3, lb_reset_at = now + 60000\<rparr>"
proof -
  have r: "renewed now (node_key (call_of ''NODEA'')) (nd_budget (node_decay (node_b budget)))"
    unfolding idents keys_eval by (rule assms)
  have i: "ni_alias (nd_ident (node_decay (node_a b1))) = ''HUBA''" by (simp add: idents)
  have w: "\<forall>d\<in>set [adv ''NODEA'' ''HUBA'' ''NODEA'' 0, adv ''DEAD'' ''GONE'' ''DEAD'' 192, adv ''NODEB'' ''HUBB'' ''NODEB'' 192]. wf_nodes_dest d"
    by (simp add: adv_wf wf_names)
  have l: "''HUBA'' \<noteq> []" "length [adv ''NODEA'' ''HUBA'' ''NODEA'' 0, adv ''DEAD'' ''GONE'' ''DEAD'' 192, adv ''NODEB'' ''HUBB'' ''NODEB'' 192] \<le> 11"
    by simp_all
  show ?thesis
    unfolding hear_renewed [OF r advertised_a i l(1) wf_names(1) w l(2)]
    by (simp add: node_eval idents node_decay_def node_b_def)
qed

subsection \<open>How the pair comes about\<close>

definition fresh_node :: "string \<Rightarrow> string \<Rightarrow> netrom_node" where
  "fresh_node c al = new_node \<lparr>ni_call = call_of c, ni_alias = al\<rparr> NODE_DEFAULTS"

definition via_a :: learned_route where
  "via_a = \<lparr>lr_dest = call_of ''DEAD'', lr_alias = ''GONE'', lr_neighbor = call_of ''NODEA'', lr_quality = 144,
     lr_port = None, lr_obsolescence = 6, lr_locked = False\<rparr>"

definition start_a0 :: netrom_node where
  "start_a0 = hear 0 (call_of ''DEAD'') (node_broadcast (fresh_node ''DEAD'' ''GONE'')) (fresh_node ''NODEA'' ''HUBA'')"
definition start_b1 :: netrom_node where
  "start_b1 = hear 1 (call_of ''NODEA'') (node_broadcast start_a0) (fresh_node ''NODEB'' ''HUBB'')"
definition start_a1 :: netrom_node where
  "start_a1 = hear 2 (call_of ''NODEB'') (node_broadcast start_b1) start_a0"

lemma fresh_adv: "advertised (fresh_node ''DEAD'' ''GONE'') = [adv ''DEAD'' ''GONE'' ''DEAD'' 0]"
  by (simp add: advertised_def node_list_def best_first_def fresh_node_def new_node_def adv_def)

lemma start_a0_eq: "start_a0 = fresh_node ''NODEA'' ''HUBA''\<lparr>nd_routes := [(''DEAD'', direct ''DEAD'' ''GONE'')],
    nd_budget := [(''DEAD'', \<lparr>lb_count = 2, lb_reset_at = 60000\<rparr>)]\<rparr>"
  unfolding start_a0_def
proof (subst hear_renewed [OF _ fresh_adv])
  show "renewed 0 (node_key (call_of ''DEAD'')) (nd_budget (fresh_node ''NODEA'' ''HUBA''))"
    by (simp add: renewed_def fresh_node_def new_node_def)
  show "ni_alias (nd_ident (fresh_node ''DEAD'' ''GONE'')) = ''GONE''" by (simp add: fresh_node_def new_node_def)
  show "\<forall>d\<in>set [adv ''DEAD'' ''GONE'' ''DEAD'' 0]. wf_nodes_dest d" by (simp add: adv_wf wf_names)
qed (simp_all add: wf_names, simp add: node_eval fresh_node_def new_node_def)

lemma adv_a0: "advertised start_a0 = [adv ''NODEA'' ''HUBA'' ''NODEA'' 0, adv ''DEAD'' ''GONE'' ''DEAD'' 192]"
  by (simp add: start_a0_eq advertised_def node_list_def best_first_def fresh_node_def new_node_def adv_def direct_def NODE_DEFAULTS_def)

lemma start_b1_eq: "start_b1 = node_b [(''NODEA'', \<lparr>lb_count = 3, lb_reset_at = 60001\<rparr>)]"
  unfolding start_b1_def
proof (subst hear_renewed [OF _ adv_a0])
  show "renewed 1 (node_key (call_of ''NODEA'')) (nd_budget (fresh_node ''NODEB'' ''HUBB''))"
    by (simp add: renewed_def fresh_node_def new_node_def)
  show "ni_alias (nd_ident start_a0) = ''HUBA''" by (simp add: start_a0_eq fresh_node_def new_node_def)
  show "\<forall>d\<in>set [adv ''NODEA'' ''HUBA'' ''NODEA'' 0, adv ''DEAD'' ''GONE'' ''DEAD'' 192]. wf_nodes_dest d"
    by (simp add: adv_wf wf_names)
qed (simp_all add: wf_names, simp add: node_eval fresh_node_def new_node_def node_b_def)

lemma adv_b1: "advertised start_b1 = [adv ''NODEB'' ''HUBB'' ''NODEB'' 0, adv ''NODEA'' ''HUBA'' ''NODEA'' 192, adv ''DEAD'' ''GONE'' ''NODEA'' 144]"
  by (simp add: start_b1_eq advertised_def node_list_def best_first_def node_b_def adv_def direct_def NODE_DEFAULTS_def)

lemma start_a1_eq: "start_a1 = node_a [(''DEAD'', \<lparr>lb_count = 2, lb_reset_at = 60000\<rparr>), (''NODEB'', \<lparr>lb_count = 3, lb_reset_at = 60002\<rparr>)]"
  unfolding start_a1_def
proof (subst hear_renewed [OF _ adv_b1])
  show "renewed 2 (node_key (call_of ''NODEB'')) (nd_budget start_a0)"
    by (simp add: renewed_def start_a0_eq keys_eval)
  show "ni_alias (nd_ident start_b1) = ''HUBB''" by (simp add: start_b1_eq node_b_def)
  show "\<forall>d\<in>set [adv ''NODEB'' ''HUBB'' ''NODEB'' 0, adv ''NODEA'' ''HUBA'' ''NODEA'' 192, adv ''DEAD'' ''GONE'' ''NODEA'' 144]. wf_nodes_dest d"
    by (simp add: adv_wf wf_names)
qed (simp_all add: wf_names, simp add: node_eval start_a0_eq fresh_node_def new_node_def node_a_def)

fun spaced :: "int \<Rightarrow> int list \<Rightarrow> bool" where
  "spaced t [] = True"
| "spaced t (x # xs) = (t + 60000 \<le> x \<and> spaced x xs)"

lemma rounds_keep:
  "spaced t ts \<Longrightarrow> (\<And>now. t + 60000 \<le> now \<Longrightarrow> renewed now ''NODEB'' ba \<and> renewed now ''NODEA'' bb) \<Longrightarrow>
   \<exists>ba' bb'. foldl (\<lambda>p now. node_round now p) (node_a ba, node_b bb) ts = (node_a ba', node_b bb')"
proof (induction ts arbitrary: t ba bb)
  case (Cons x ts)
  have r: "renewed x ''NODEB'' ba" "renewed x ''NODEA'' bb" using Cons.prems by simp_all
  obtain ba' where a: "hear x (call_of ''NODEB'') (node_broadcast (node_decay (node_b bb))) (node_decay (node_a ba)) = node_a ba'"
    "jm_get ba' ''NODEB'' = Some \<lparr>lb_count = 3, lb_reset_at = x + 60000\<rparr>" using round_a [OF r(1)] by blast
  obtain bb' where b: "hear x (call_of ''NODEA'') (node_broadcast (node_decay (node_a ba))) (node_decay (node_b bb)) = node_b bb'"
    "jm_get bb' ''NODEA'' = Some \<lparr>lb_count = 3, lb_reset_at = x + 60000\<rparr>" using round_b [OF r(2)] by blast
  have "node_round x (node_a ba, node_b bb) = (node_a ba', node_b bb')"
    using a(1) b(1) by (simp add: node_round_def idents)
  moreover have "renewed now ''NODEB'' ba' \<and> renewed now ''NODEA'' bb'" if "x + 60000 \<le> now" for now
    using that a(2) b(2) by (simp add: renewed_def)
  ultimately show ?case using Cons.IH [of x ba' bb'] Cons.prems(1) by simp
qed auto

lemma legal_pins:
  "\<forall>(now, e)\<in>set es. case e of Nn_Lock _ _ _ q _ \<Rightarrow> q \<le> 255 | _ \<Rightarrow> True \<Longrightarrow> routing.legal_run n es"
proof (induction es arbitrary: n)
  case (Cons x es)
  obtain now e where x: "x = (now, e)" by (cases x)
  then have "node_legal n x" using Cons.prems by (cases e) simp_all
  moreover have "routing.legal_run (node_step n x) es" using Cons by simp
  ultimately show ?case by simp
qed simp

section \<open>Properties\<close>

text \<open>C37: Through any sequence of broadcasts (whatever their octets), pinned routes and decays,
  the routing table holds at most the configured number of routes, each under its own
  destination, none with a quality above 255 and all with an obsolescence of 1 to 6.\<close>

theorem routing_table_invariant:
  assumes "nc_path_quality opts \<le> 255" "routing.legal_run (new_node ident opts) es"
  defines "n \<equiv> routing.run (new_node ident opts) es"
  shows "length (nd_routes n) \<le> nc_max_routes opts \<and> jm_ok (nd_routes n)
    \<and> (\<forall>(k, r)\<in>set (nd_routes n). k = node_key (lr_dest r) \<and> lr_quality r \<le> 255
         \<and> 1 \<le> lr_obsolescence r \<and> lr_obsolescence r \<le> 6)"
proof -
  have ok: "node_ok opts n" unfolding n_def by (rule routing.run_inv [OF new_node_ok [OF assms(1)] assms(2)])
  then have "length (nd_routes n) \<le> nc_max_routes opts" "jm_ok (nd_routes n)" "\<forall>(k, r)\<in>set (nd_routes n). route_ok k r"
    by (simp_all add: node_ok_def)
  then show ?thesis unfolding route_ok_def OBS_INIT_def by fast
qed

theorem routing_table_invariant_witness:
  "length (nd_routes (routing.run (new_node \<lparr>ni_call = call_of ''NODEA'', ni_alias = ''HUBA''\<rparr> NODE_DEFAULTS)
     [(0, Nn_Lock (call_of ''DEAD'') ''GONE'' (call_of ''DEAD'') 200 None), (1, Nn_Consume [0xff, 1, 2] (call_of ''NODEB'') None), (2, Nn_Decay)])) \<le> 500"
proof -
  have c: "nc_path_quality NODE_DEFAULTS \<le> 255" "nc_max_routes NODE_DEFAULTS = 500" by (simp_all add: NODE_DEFAULTS_def)
  have l: "routing.legal_run (new_node \<lparr>ni_call = call_of ''NODEA'', ni_alias = ''HUBA''\<rparr> NODE_DEFAULTS)
     [(0, Nn_Lock (call_of ''DEAD'') ''GONE'' (call_of ''DEAD'') 200 None), (1, Nn_Consume [0xff, 1, 2] (call_of ''NODEB'') None), (2, Nn_Decay)]"
    by (rule legal_pins) simp
  show ?thesis using routing_table_invariant [OF c(1) l, THEN conjunct1] unfolding c(2) .
qed

text \<open>A route nobody advertises any more is gone after six decays, a locked one never goes.\<close>

theorem unheard_routes_age_out:
  assumes "node_ok opts n" "6 \<le> i"
  shows "jm_get (nd_routes ((node_decay ^^ i) n)) k
    = (case jm_get (nd_routes n) k of None \<Rightarrow> None | Some r \<Rightarrow> if lr_locked r then Some r else None)"
proof -
  have "lr_obsolescence r \<le> 6" if "jm_get (nd_routes n) k = Some r" for r
    using jm_get_Some_in [OF that] assms(1) by (auto simp: node_ok_def route_ok_def OBS_INIT_def)
  then show ?thesis using decay_many [OF assms(1), of i k] assms(2) by (auto split: option.split)
qed

theorem unheard_routes_age_out_witness:
  "jm_get (nd_routes ((node_decay ^^ 6) (node_a []))) ''DEAD'' = None"
proof -
  have "node_ok NODE_DEFAULTS (node_a [])"
    by (simp add: node_ok_def node_a_def NODE_DEFAULTS_def jm_ok_def route_ok_def direct_def keys_eval OBS_INIT_def)
  from unheard_routes_age_out [OF this order_refl, of "''DEAD''"] show ?thesis by (simp add: node_a_def direct_def)
qed

text \<open>But two nodes that hear each other keep a station that is gone in their tables for ever:
  a node tells the other the route it learned from it, which counts as the destination being
  heard. However many rounds of decays and broadcasts follow, the first node's direct
  route to the dead station keeps its full quality.\<close>

theorem dead_route_never_ages:
  assumes "spaced 2 ts"
  shows "\<exists>a b. foldl (\<lambda>p now. node_round now p) (start_a1, start_b1) ts = (a, b)
    \<and> node_best ''DEAD'' a = Some (direct ''DEAD'' ''GONE'') \<and> node_best ''DEAD'' b = Some via_a"
proof -
  have r: "renewed now ''NODEB'' [(''DEAD'', \<lparr>lb_count = 2, lb_reset_at = 60000\<rparr>), (''NODEB'', \<lparr>lb_count = 3, lb_reset_at = 60002\<rparr>)]
     \<and> renewed now ''NODEA'' [(''NODEA'', \<lparr>lb_count = 3, lb_reset_at = 60001\<rparr>)]" if "2 + 60000 \<le> now" for now
    using that by (simp add: renewed_def)
  from rounds_keep [OF assms this] obtain ba bb
    where f: "foldl (\<lambda>p now. node_round now p) (start_a1, start_b1) ts = (node_a ba, node_b bb)"
    unfolding start_a1_eq start_b1_eq by blast
  have "js_upper ''DEAD'' = ''DEAD''" by code_simp
  then show ?thesis unfolding f
    by (simp add: node_best_def node_a_def node_b_def via_a_def)
qed

theorem dead_route_never_ages_witness:
  "\<exists>a b. foldl (\<lambda>p now. node_round now p) (start_a1, start_b1) [70000, 140000, 210000, 280000, 350000, 420000, 490000] = (a, b)
     \<and> node_best ''DEAD'' a = Some (direct ''DEAD'' ''GONE'')"
  using dead_route_never_ages [of "[70000, 140000, 210000, 280000, 350000, 420000, 490000]"] by auto

text \<open>A pinned route is taken over, lock included, by any broadcast that claims a quality at
  least as good; no decay removes the new route either.\<close>

theorem learned_route_takes_lock:
  assumes "node_ok opts n" "jm_get (nd_routes n) (node_key (hr_dest r)) = Some pinned" "lr_locked pinned"
    "lr_quality pinned \<le> hr_quality r" "hr_quality r \<le> 255" "hr_locked r = None"
  shows "\<exists>r'. jm_get (nd_routes ((node_decay ^^ i) (node_learn r n))) (node_key (hr_dest r)) = Some r'
    \<and> lr_neighbor r' = hr_neighbor r \<and> lr_locked r'"
proof -
  have ok: "node_ok opts (node_learn r n)" by (rule node_learn_ok [OF assms(1,5)])
  have g: "jm_get (nd_routes (node_learn r n)) (node_key (hr_dest r)) = Some (route_of r True)"
    using assms(2,3,4) by (simp add: node_learn_def Let_def)
  show ?thesis using decay_many [OF ok, of i "node_key (hr_dest r)"] g assms(6) by (simp add: route_of_def)
qed

theorem learned_route_takes_lock_witness:
  "\<exists>r'. jm_get (nd_routes ((node_decay ^^ 9) (node_learn
      \<lparr>hr_dest = call_of ''DEAD'', hr_alias = ''EVIL'', hr_neighbor = call_of ''NODEB'', hr_quality = 192, hr_port = None, hr_locked = None\<rparr>
      (node_lock (call_of ''DEAD'') ''GONE'' (call_of ''DEAD'') 192 None (fresh_node ''NODEA'' ''HUBA''))))) (node_key (call_of ''DEAD'')) = Some r'
    \<and> lr_neighbor r' = call_of ''NODEB''"
proof -
  let ?n = "node_lock (call_of ''DEAD'') ''GONE'' (call_of ''DEAD'') 192 None (fresh_node ''NODEA'' ''HUBA'')"
  let ?r = "\<lparr>hr_dest = call_of ''DEAD'', hr_alias = ''EVIL'', hr_neighbor = call_of ''NODEB'', hr_quality = 192, hr_port = None, hr_locked = None\<rparr>"
  have "node_ok NODE_DEFAULTS (fresh_node ''NODEA'' ''HUBA'')"
    unfolding fresh_node_def by (rule new_node_ok) (simp add: NODE_DEFAULTS_def)
  then have ok: "node_ok NODE_DEFAULTS ?n" unfolding node_lock_def by (rule node_learn_ok) simp
  have "jm_get (nd_routes ?n) (node_key (hr_dest ?r)) = Some (direct ''DEAD'' ''GONE''\<lparr>lr_locked := True\<rparr>)"
    by (simp add: node_lock_def fresh_node_def new_node_def node_eval)
  from learned_route_takes_lock [OF ok this, of 9] show ?thesis by (auto simp: direct_def)
qed

end
