(* ===== verification/Netrom_Switch.thy ===== *)
theory Netrom_Switch
  imports Netrom_Node
begin

text \<open>
  What a NET/ROM node does with a packet it receives: \<open>packages/packet/src/netrom-switch.ts\<close>.
\<close>

datatype drop_cause = Drop_Ttl | Drop_No_Route | Drop_Loop

datatype switch_decision = Local | Forward address nr_packet | Drop drop_cause

definition route_netrom :: "nr_packet \<Rightarrow> netrom_node \<Rightarrow> address \<Rightarrow> switch_decision" where
  "route_netrom pkt node me =
     (if same_addr (nn_dest (np_net pkt)) me then Local
      else if nn_ttl (np_net pkt) \<le> 1 then Drop Drop_Ttl
      else case node_best (addr_str (nn_dest (np_net pkt))) node of
             None \<Rightarrow> Drop Drop_No_Route
           | Some route \<Rightarrow>
               if same_addr (lr_neighbor route) me \<or> same_addr (lr_neighbor route) (nn_origin (np_net pkt)) then Drop Drop_Loop
               else Forward (lr_neighbor route)
                      (pkt\<lparr>np_net := (np_net pkt)\<lparr>nn_ttl := nn_ttl (np_net pkt) - 1\<rparr>\<rparr>))"

section \<open>The way of a packet through a network\<close>

text \<open>
  Every address has a node with some table. The way of a packet is the nodes it reaches in turn,
  and what the last of them decides.
\<close>

lemma forward_ttl: "route_netrom pkt node me = Forward nb pkt' \<Longrightarrow>
   Suc (nn_ttl (np_net pkt')) = nn_ttl (np_net pkt) \<and> 1 \<le> nn_ttl (np_net pkt')
   \<and> nn_origin (np_net pkt') = nn_origin (np_net pkt) \<and> nn_dest (np_net pkt') = nn_dest (np_net pkt)
   \<and> np_tp pkt' = np_tp pkt \<and> np_info pkt' = np_info pkt \<and> nb \<noteq> me \<and> nb \<noteq> nn_origin (np_net pkt)"
  by (auto simp: route_netrom_def split: if_splits option.splits)

function way :: "(address \<Rightarrow> netrom_node) \<Rightarrow> address \<Rightarrow> nr_packet \<Rightarrow> address list \<times> switch_decision" where
  "way tables me pkt =
     (case route_netrom pkt (tables me) me of
        Forward nb pkt' \<Rightarrow> (let (hops, d) = way tables nb pkt' in (me # hops, d))
      | d \<Rightarrow> ([me], d))"
  by pat_completeness auto
termination
  by (relation "measure (\<lambda>(tables, me, pkt). nn_ttl (np_net pkt))") (auto dest: forward_ttl)

declare way.simps [simp del]

lemma way_length: "length (fst (way tables me pkt)) \<le> max 1 (nn_ttl (np_net pkt))
   \<and> (\<forall>nb p. snd (way tables me pkt) \<noteq> Forward nb p)"
proof (induction tables me pkt rule: way.induct)
  case (1 tables me pkt)
  show ?case
  proof (cases "route_netrom pkt (tables me) me")
    case (Forward nb pkt')
    from forward_ttl [OF Forward] "1.IH" [OF Forward] Forward show ?thesis
      by (subst (1 2) way.simps) (auto simp: split_beta)
  qed (simp_all add: way.simps [of tables me pkt])
qed

lemma way_local: "snd (way tables me pkt) = Local \<Longrightarrow> last (fst (way tables me pkt)) = nn_dest (np_net pkt) \<and> fst (way tables me pkt) \<noteq> []"
proof (induction tables me pkt rule: way.induct)
  case (1 tables me pkt)
  show ?case
  proof (cases "route_netrom pkt (tables me) me")
    case (Forward nb pkt')
    have "snd (way tables nb pkt') = Local" using "1.prems" Forward by (subst (asm) way.simps) (simp add: split_beta)
    from "1.IH" [OF Forward this] forward_ttl [OF Forward] Forward show ?thesis
      by (subst (1 2) way.simps) (simp add: split_beta)
  next
    case Local
    then have "nn_dest (np_net pkt) = me" by (auto simp: route_netrom_def split: if_splits option.splits)
    then show ?thesis using Local by (simp add: way.simps [of tables me pkt])
  next
    case (Drop x)
    then show ?thesis using "1.prems" by (simp add: way.simps [of tables me pkt])
  qed
qed

section \<open>Properties\<close>

text \<open>C30: Whatever the routing tables say - loops, forged routes, anything - a packet passes at most
  as many nodes as its time to live and ends: delivered at its destination and nowhere else, or dropped.\<close>

theorem packets_end:
  "length (fst (way tables me pkt)) \<le> max 1 (nn_ttl (np_net pkt))
   \<and> (case snd (way tables me pkt) of
        Local \<Rightarrow> last (fst (way tables me pkt)) = nn_dest (np_net pkt)
      | Drop _ \<Rightarrow> True
      | Forward _ _ \<Rightarrow> False)"
  using way_length [of tables me pkt] way_local [of tables me pkt] by (auto split: switch_decision.split)

end
