(* ===== verification/Tnc_Host.thy ===== *)
theory Tnc_Host
  imports Interfaces
begin

text \<open>
  Two host protocols of terminal node controllers: the AGW Packet Engine frames of
  \<open>packages/packet/src/agwpe.ts\<close> and the WA8DED host mode of
  \<open>packages/packet/src/hostmode.ts\<close>. Both are read off a byte stream by a parser that hands
  back the bytes of an unfinished frame.
\<close>

section \<open>AGW Packet Engine frames\<close>

text \<open>The defaults of the code's partial frame: port 0, pid 0, empty calls, no data.\<close>

record agwpe_frame =
  ag_port :: nat
  ag_kind :: char
  ag_pid :: nat
  ag_from :: string
  ag_to :: string
  ag_data :: "byte list"

definition AGW_HEADER :: nat where "AGW_HEADER = 36"

definition put_ascii :: "string \<Rightarrow> nat \<Rightarrow> byte list" where
  "put_ascii s n = map (\<lambda>i. if i < length s then byte_of (char_code (s ! i)) else 0) [0..<n]"

definition get_ascii :: "byte list \<Rightarrow> nat \<Rightarrow> nat \<Rightarrow> string" where
  "get_ascii b off n = map (\<lambda>x. from_char_code (unat x)) (takeWhile (\<lambda>x. x \<noteq> 0) (sub_bytes off (off + n) b))"

definition le32 :: "nat \<Rightarrow> byte list" where
  "le32 n = [byte_of n, byte_of (n div 256), byte_of (n div 65536), byte_of (n div 16777216)]"

definition rd32 :: "byte list \<Rightarrow> nat \<Rightarrow> nat" where
  "rd32 b o' = unat (js_byte b o') + 256 * unat (js_byte b (o' + 1)) + 65536 * unat (js_byte b (o' + 2))
     + 16777216 * unat (js_byte b (o' + 3))"

definition encode_agwpe :: "agwpe_frame \<Rightarrow> byte list" where
  "encode_agwpe f =
     [byte_of (ag_port f), 0, 0, 0, byte_of (char_code (ag_kind f)), 0, byte_of (ag_pid f), 0]
     @ put_ascii (js_upper (ag_from f)) 10 @ put_ascii (js_upper (ag_to f)) 10
     @ le32 (length (ag_data f)) @ [0, 0, 0, 0] @ ag_data f"

function parse_agwpe :: "byte list \<Rightarrow> agwpe_frame list \<times> byte list" where
  "parse_agwpe buf =
     (if length buf < AGW_HEADER then ([], buf)
      else let n = rd32 buf 28
           in if length buf - AGW_HEADER < n then ([], buf)
              else let f = \<lparr>ag_port = unat (buf ! 0), ag_kind = from_char_code (unat (buf ! 4)), ag_pid = unat (buf ! 6),
                            ag_from = get_ascii buf 8 10, ag_to = get_ascii buf 18 10,
                            ag_data = sub_bytes AGW_HEADER (AGW_HEADER + n) buf\<rparr>;
                       (fs, rest) = parse_agwpe (drop (AGW_HEADER + n) buf)
                   in (f # fs, rest))"
  by pat_completeness auto
termination
  by (relation "measure length") (auto simp: AGW_HEADER_def)

declare parse_agwpe.simps [simp del]

section \<open>Host mode\<close>

definition hostmode_command :: "nat \<Rightarrow> string \<Rightarrow> byte list" where
  "hostmode_command chan cmd = [byte_of chan, 0] @ map (\<lambda>c. byte_of (char_code c)) cmd @ [0]"

definition hostmode_data :: "nat \<Rightarrow> byte list \<Rightarrow> byte list" where
  "hostmode_data chan data =
     (if data = [] then []
      else let n = min (length data) 256 in [byte_of chan, 1, byte_of (n - 1)] @ take n data)"

datatype hostmode_event =
    He_Success nat
  | He_Text nat nat string
  | He_Info nat nat "byte list"

function parse_hostmode :: "byte list \<Rightarrow> hostmode_event list \<times> byte list" where
  "parse_hostmode buf =
     (if length buf < 2 then ([], buf)
      else let chan = unat (buf ! 0); kind = unat (buf ! 1)
           in if kind = 0 then
                let (es, rest) = parse_hostmode (drop 2 buf) in (He_Success chan # es, rest)
              else if kind \<le> 5 then
                (case index_of 0 (drop 2 buf) of
                   None \<Rightarrow> ([], buf)
                 | Some k \<Rightarrow>
                     let (es, rest) = parse_hostmode (drop (2 + k + 1) buf)
                     in (He_Text chan kind (map (\<lambda>x. from_char_code (unat x)) (take k (drop 2 buf))) # es, rest))
              else if kind = 6 \<or> kind = 7 then
                (if length buf < 3 then ([], buf)
                 else let n = unat (buf ! 2) + 1
                      in if length buf - 3 < n then ([], buf)
                         else let (es, rest) = parse_hostmode (drop (3 + n) buf)
                              in (He_Info chan kind (sub_bytes 3 (3 + n) buf) # es, rest))
              else parse_hostmode (drop 1 buf))"
  by pat_completeness auto
termination
  by (relation "measure length") auto

declare parse_hostmode.simps [simp del]

section \<open>The stream laws\<close>

lemma js_byte_app: "i < length xs \<Longrightarrow> js_byte (xs @ ys) i = js_byte xs i"
  by simp

lemma rd32_app: "o' + 4 \<le> length xs \<Longrightarrow> rd32 (xs @ ys) o' = rd32 xs o'"
  by (simp add: rd32_def)

lemma sub_bytes_app: "to \<le> length xs \<Longrightarrow> sub_bytes from to (xs @ ys) = sub_bytes from to xs"
  by (simp add: sub_bytes_def)

lemma get_ascii_app: "off + n \<le> length xs \<Longrightarrow> get_ascii (xs @ ys) off n = get_ascii xs off n"
  by (simp add: get_ascii_def sub_bytes_app)

lemma parse_agwpe_append:
  "parse_agwpe (xs @ ys) = (fst (parse_agwpe xs) @ fst (parse_agwpe (snd (parse_agwpe xs) @ ys)),
     snd (parse_agwpe (snd (parse_agwpe xs) @ ys)))"
proof (induction xs rule: parse_agwpe.induct)
  case (1 buf)
  show ?case
  proof (cases "length buf < AGW_HEADER \<or> length buf - AGW_HEADER < rd32 buf 28")
    case True
    then have "parse_agwpe buf = ([], buf)" by (auto simp: parse_agwpe.simps [of buf] Let_def)
    then show ?thesis by simp
  next
    case False
    let ?n = "rd32 buf 28" and ?H = AGW_HEADER
    have l: "?H + ?n \<le> length buf" "36 \<le> length buf" using False by (auto simp: AGW_HEADER_def)
    have at: "(buf @ ys) ! 0 = buf ! 0" "(buf @ ys) ! 4 = buf ! 4" "(buf @ ys) ! 6 = buf ! 6"
      "\<not> length (buf @ ys) < ?H" "\<not> length (buf @ ys) - ?H < ?n"
      using l by (auto simp: nth_append)
    have r: "rd32 (buf @ ys) 28 = ?n" using l(2) by (simp add: rd32_app)
    let ?f = "\<lparr>ag_port = unat (buf ! 0), ag_kind = from_char_code (unat (buf ! 4)), ag_pid = unat (buf ! 6),
       ag_from = get_ascii buf 8 10, ag_to = get_ascii buf 18 10, ag_data = sub_bytes ?H (?H + ?n) buf\<rparr>"
    have a: "parse_agwpe buf = (?f # fst (parse_agwpe (drop (?H + ?n) buf)), snd (parse_agwpe (drop (?H + ?n) buf)))"
      using False by (subst parse_agwpe.simps) (simp add: Let_def split_beta)
    have b: "parse_agwpe (buf @ ys) = (?f # fst (parse_agwpe (drop (?H + ?n) buf @ ys)), snd (parse_agwpe (drop (?H + ?n) buf @ ys)))"
      using False l r at
      by (subst parse_agwpe.simps) (simp add: Let_def split_beta get_ascii_app sub_bytes_app)
    have "parse_agwpe (drop (?H + ?n) buf @ ys) =
      (fst (parse_agwpe (drop (?H + ?n) buf)) @ fst (parse_agwpe (snd (parse_agwpe (drop (?H + ?n) buf)) @ ys)),
       snd (parse_agwpe (snd (parse_agwpe (drop (?H + ?n) buf)) @ ys)))"
      using False by (intro "1.IH" [of ?n]) simp_all
    then show ?thesis unfolding a b by simp
  qed
qed

interpretation agwpe: rest_parser parse_agwpe
proof
  show "parse_agwpe [] = ([], [])" by (simp add: parse_agwpe.simps AGW_HEADER_def)
qed (rule parse_agwpe_append)

lemma index_of_app: "index_of x xs = Some k \<Longrightarrow> index_of x (xs @ ys) = Some k \<and> k < length xs"
  by (induction xs arbitrary: k) (auto split: if_splits)

lemma parse_hostmode_append:
  "parse_hostmode (xs @ ys) = (fst (parse_hostmode xs) @ fst (parse_hostmode (snd (parse_hostmode xs) @ ys)),
     snd (parse_hostmode (snd (parse_hostmode xs) @ ys)))"
proof (induction xs rule: parse_hostmode.induct)
  case (1 buf)
  let ?chan = "unat (buf ! 0)" and ?kind = "unat (buf ! 1)"
  have stuck: ?case if "parse_hostmode buf = ([], buf)" using that by simp
  show ?case
  proof (cases "length buf < 2")
    case True
    then show ?thesis by (intro stuck) (simp add: parse_hostmode.simps [of buf])
  next
    case False
    then have l: "buf ! 0 = (buf @ ys) ! 0" "buf ! 1 = (buf @ ys) ! 1" "2 \<le> length buf" by (auto simp: nth_append)
    consider "?kind = 0" | "?kind \<noteq> 0" "?kind \<le> 5" | "?kind = 6 \<or> ?kind = 7" | "?kind > 7" by linarith
    then show ?thesis
    proof cases
      case 1
      let ?d = "drop 2 buf"
      have a: "parse_hostmode buf = (He_Success ?chan # fst (parse_hostmode ?d), snd (parse_hostmode ?d))"
        using False 1 by (subst parse_hostmode.simps) (simp add: Let_def split_beta)
      have b: "parse_hostmode (buf @ ys) = (He_Success ?chan # fst (parse_hostmode (?d @ ys)), snd (parse_hostmode (?d @ ys)))"
        using False 1 l by (subst parse_hostmode.simps) (simp add: Let_def split_beta)
      show ?thesis unfolding a b using "1.IH"(1) [OF False refl refl 1] by simp
    next
      case 2
      show ?thesis
      proof (cases "index_of 0 (drop 2 buf)")
        case None
        then show ?thesis using False 2 by (intro stuck) (subst parse_hostmode.simps, simp add: Let_def)
      next
        case (Some k)
        have k: "index_of 0 (drop 2 (buf @ ys)) = Some k" "k < length (drop 2 buf)"
          using index_of_app [OF Some, of ys] l(3) by simp_all
        let ?e = "He_Text ?chan ?kind (map (\<lambda>x. from_char_code (unat x)) (take k (drop 2 buf)))"
        let ?d = "drop (2 + k + 1) buf"
        have a: "parse_hostmode buf = (?e # fst (parse_hostmode ?d), snd (parse_hostmode ?d))"
          using False 2 Some by (subst parse_hostmode.simps) (simp add: Let_def split_beta)
        have b: "parse_hostmode (buf @ ys) = (?e # fst (parse_hostmode (?d @ ys)), snd (parse_hostmode (?d @ ys)))"
          using False 2 k l by (subst parse_hostmode.simps) (simp add: Let_def split_beta)
        show ?thesis unfolding a b using "1.IH"(2) [OF False refl refl 2 Some] by simp
      qed
    next
      case 3
      let ?n = "unat (buf ! 2) + 1"
      show ?thesis
      proof (cases "length buf < 3 \<or> length buf - 3 < ?n")
        case True
        then show ?thesis using False 3 by (intro stuck) (subst parse_hostmode.simps, auto simp: Let_def)
      next
        case f: False
        let ?e = "He_Info ?chan ?kind (sub_bytes 3 (3 + ?n) buf)" and ?d = "drop (3 + ?n) buf"
        have l3: "buf ! 2 = (buf @ ys) ! 2" "3 + ?n \<le> length buf" using f by (auto simp: nth_append)
        have k: "\<not> ?kind = 0" "\<not> ?kind \<le> 5" using 3 by auto
        have a: "parse_hostmode buf = (?e # fst (parse_hostmode ?d), snd (parse_hostmode ?d))"
          using False 3 f k by (subst parse_hostmode.simps) (simp add: Let_def split_beta)
        have b: "parse_hostmode (buf @ ys) = (?e # fst (parse_hostmode (?d @ ys)), snd (parse_hostmode (?d @ ys)))"
          using False 3 f k l l3 by (subst parse_hostmode.simps) (simp add: Let_def split_beta sub_bytes_app)
        have "\<not> length buf < 3" "\<not> length buf - 3 < ?n" using f by simp_all
        from "1.IH"(3) [OF False refl refl k 3 this(1) refl this(2)] show ?thesis unfolding a b by simp
      qed
    next
      case 4
      then have k: "\<not> ?kind = 0" "\<not> ?kind \<le> 5" "\<not> (?kind = 6 \<or> ?kind = 7)" by auto
      have a: "parse_hostmode buf = parse_hostmode (drop 1 buf)"
        using False k by (subst parse_hostmode.simps) (simp add: Let_def)
      have b: "parse_hostmode (buf @ ys) = parse_hostmode (drop 1 buf @ ys)"
        using False k l by (subst parse_hostmode.simps) (simp add: Let_def)
      show ?thesis unfolding a b by (rule "1.IH"(4) [OF False refl refl k])
    qed
  qed
qed

interpretation hostmode: rest_parser parse_hostmode
proof
  show "parse_hostmode [] = ([], [])" by (simp add: parse_hostmode.simps)
qed (rule parse_hostmode_append)

section \<open>Reading written frames back\<close>

definition wf_agwpe :: "agwpe_frame \<Rightarrow> bool" where
  "wf_agwpe f = (ag_port f < 256 \<and> ag_pid f < 256 \<and> length (ag_data f) < 4294967296
     \<and> (\<forall>s\<in>{ag_from f, ag_to f}. length s \<le> 10 \<and> js_upper s = s \<and> (\<forall>c\<in>set s. char_code c \<noteq> 0)))"

lemma length_put_ascii [simp]: "length (put_ascii s n) = n"
  by (simp add: put_ascii_def)

lemma put_ascii_eq: "length s \<le> n \<Longrightarrow> put_ascii s n = map (\<lambda>c. byte_of (char_code c)) s @ replicate (n - length s) 0"
  by (intro nth_equalityI) (auto simp: put_ascii_def nth_append)

lemma get_put_ascii:
  assumes "length s \<le> n" "\<forall>c\<in>set s. char_code c \<noteq> 0" "length xs = off"
  shows "get_ascii (xs @ put_ascii s n @ ys) off n = s"
proof -
  have "byte_of (char_code c) \<noteq> 0" if "c \<in> set s" for c
  proof
    assume "byte_of (char_code c) = 0"
    then have "unat (byte_of (char_code c)) = unat (0 :: byte)" by simp
    then show False using assms(2) that by simp
  qed
  moreover have z: "takeWhile (\<lambda>x. x \<noteq> 0) (replicate k (0 :: byte)) = []" for k by (cases k) auto
  ultimately have "takeWhile (\<lambda>x. x \<noteq> 0) (put_ascii s n) = map (\<lambda>c. byte_of (char_code c)) s"
    unfolding put_ascii_eq [OF assms(1)] by (subst takeWhile_append2) (auto simp: z)
  moreover have "sub_bytes off (off + n) (xs @ put_ascii s n @ ys) = put_ascii s n"
    using assms(3) by (simp add: sub_bytes_def)
  ultimately show ?thesis by (simp add: get_ascii_def comp_def)
qed

lemma rd32_le32:
  assumes "n < 4294967296" "length xs = o'"
  shows "rd32 (xs @ le32 n @ ys) o' = n"
proof -
  have "n = n mod 256 + 256 * (n div 256)" by simp
  moreover have "n div 256 = n div 256 mod 256 + 256 * (n div 65536)"
    using div_mult_mod_eq [of "n div 256" 256] by (simp add: div_mult2_eq [of n 256 256, symmetric])
  moreover have "n div 65536 = n div 65536 mod 256 + 256 * (n div 16777216)"
    using div_mult_mod_eq [of "n div 65536" 256] by (simp add: div_mult2_eq [of n 65536 256, symmetric])
  ultimately have "n = n mod 256 + 256 * (n div 256 mod 256) + 65536 * (n div 65536 mod 256) + 16777216 * (n div 16777216)"
    by linarith
  moreover have "n div 16777216 < 256" using assms(1) by (simp add: less_mult_imp_div_less)
  ultimately show ?thesis using assms(2) by (simp add: rd32_def le32_def nth_append)
qed

lemma length_encode_agwpe: "length (encode_agwpe f) = 36 + length (ag_data f)"
  by (simp add: encode_agwpe_def le32_def)

lemma encode_agwpe_fields:
  assumes "wf_agwpe f"
  shows "rd32 (encode_agwpe f @ ys) 28 = length (ag_data f)"
    "get_ascii (encode_agwpe f @ ys) 8 10 = ag_from f"
    "get_ascii (encode_agwpe f @ ys) 18 10 = ag_to f"
    "sub_bytes 36 (36 + length (ag_data f)) (encode_agwpe f @ ys) = ag_data f"
    "(encode_agwpe f @ ys) ! 0 = byte_of (ag_port f)"
    "(encode_agwpe f @ ys) ! 4 = byte_of (char_code (ag_kind f))"
    "(encode_agwpe f @ ys) ! 6 = byte_of (ag_pid f)"
    "drop (36 + length (ag_data f)) (encode_agwpe f @ ys) = ys"
proof -
  let ?h = "[byte_of (ag_port f), 0, 0, 0, byte_of (char_code (ag_kind f)), 0, byte_of (ag_pid f), 0]"
  let ?a = "put_ascii (js_upper (ag_from f)) 10" and ?b = "put_ascii (js_upper (ag_to f)) 10"
  have up: "js_upper (ag_from f) = ag_from f" "js_upper (ag_to f) = ag_to f" using assms by (auto simp: wf_agwpe_def)
  have l: "length (ag_from f) \<le> 10" "\<forall>c\<in>set (ag_from f). char_code c \<noteq> 0"
    "length (ag_to f) \<le> 10" "\<forall>c\<in>set (ag_to f). char_code c \<noteq> 0" using assms by (auto simp: wf_agwpe_def)
  show "rd32 (encode_agwpe f @ ys) 28 = length (ag_data f)"
    using rd32_le32 [of "length (ag_data f)" "?h @ ?a @ ?b" 28 "[0, 0, 0, 0] @ ag_data f @ ys"] assms
    by (simp add: encode_agwpe_def wf_agwpe_def)
  show "get_ascii (encode_agwpe f @ ys) 8 10 = ag_from f"
    using get_put_ascii [OF l(1,2), of ?h 8 "?b @ le32 (length (ag_data f)) @ [0, 0, 0, 0] @ ag_data f @ ys"] up
    by (simp add: encode_agwpe_def)
  show "get_ascii (encode_agwpe f @ ys) 18 10 = ag_to f"
    using get_put_ascii [OF l(3,4), of "?h @ ?a" 18 "le32 (length (ag_data f)) @ [0, 0, 0, 0] @ ag_data f @ ys"] up
    by (simp add: encode_agwpe_def)
  show "sub_bytes 36 (36 + length (ag_data f)) (encode_agwpe f @ ys) = ag_data f"
    using sub_bytes_append_right [of "?h @ ?a @ ?b @ le32 (length (ag_data f)) @ [0, 0, 0, 0]" "ag_data f" ys]
    by (simp add: encode_agwpe_def le32_def)
  show "drop (36 + length (ag_data f)) (encode_agwpe f @ ys) = ys"
    by (simp add: length_encode_agwpe)
qed (simp_all add: encode_agwpe_def)

lemma parse_encode_agwpe:
  assumes "wf_agwpe f"
  shows "parse_agwpe (encode_agwpe f @ ys) = (f # fst (parse_agwpe ys), snd (parse_agwpe ys))"
proof -
  have b: "ag_port f mod 256 = ag_port f" "ag_pid f mod 256 = ag_pid f"
    using assms by (simp_all add: wf_agwpe_def)
  have len: "\<not> length (encode_agwpe f @ ys) < AGW_HEADER"
    "\<not> length (encode_agwpe f @ ys) - AGW_HEADER < length (ag_data f)"
    by (simp_all add: length_encode_agwpe AGW_HEADER_def)
  show ?thesis
    using len
    by (subst parse_agwpe.simps)
      (simp add: Let_def split_beta encode_agwpe_fields [OF assms] AGW_HEADER_def b del: drop_append)
qed

text \<open>
  However a connection cuts the stream of AGWPE frames into reads, the client that puts the rest of
  one read in front of the next gets exactly the frames that were encoded, in their order, and holds
  nothing back. The frames are those the header can carry: port and pid of one byte, calls of
  at most ten upper-case ASCII characters without NUL, less than \<open>2^32\<close> bytes of data.
\<close>

theorem agwpe_stream_roundtrip:
  assumes "\<forall>f\<in>set fs. wf_agwpe f"
    and "concat reads = concat (map encode_agwpe fs)"
  shows "agwpe.stream.push_all [] reads = ([], fs)"
proof -
  have "parse_agwpe (concat (map encode_agwpe fs)) = (fs, [])"
    using assms(1) by (induction fs) (simp_all add: parse_encode_agwpe agwpe.parse_Nil)
  then show ?thesis by (simp add: agwpe.feed_all_whole assms(2))
qed

definition agwpe_sample :: agwpe_frame where
  "agwpe_sample = \<lparr>ag_port = 1, ag_kind = CHR ''K'', ag_pid = 240, ag_from = ''N0CALL'', ag_to = ''APRS'', ag_data = [0, 7]\<rparr>"

lemma agwpe_stream_roundtrip_witness:
  "agwpe.stream.push_all [] [take 40 (encode_agwpe agwpe_sample @ encode_agwpe agwpe_sample),
      drop 40 (encode_agwpe agwpe_sample @ encode_agwpe agwpe_sample)]
    = ([], [agwpe_sample, agwpe_sample])"
proof (rule agwpe_stream_roundtrip)
  have "wf_agwpe agwpe_sample" by (simp add: wf_agwpe_def agwpe_sample_def char_code_def upper_char_def)
  then show "\<forall>f\<in>set [agwpe_sample, agwpe_sample]. wf_agwpe f" by simp
qed (simp del: take_append drop_append)

text \<open>What a terminal node controller writes for an event: the format the parser's source documents.\<close>

fun tnc_writes :: "hostmode_event \<Rightarrow> byte list" where
  "tnc_writes (He_Success c) = [byte_of c, 0]"
| "tnc_writes (He_Text c k s) = [byte_of c, byte_of k] @ map (\<lambda>x. byte_of (char_code x)) s @ [0]"
| "tnc_writes (He_Info c k d) = [byte_of c, byte_of k, byte_of (length d - 1)] @ d"

fun wf_hostmode :: "hostmode_event \<Rightarrow> bool" where
  "wf_hostmode (He_Success c) = (c < 256)"
| "wf_hostmode (He_Text c k s) = (c < 256 \<and> 1 \<le> k \<and> k \<le> 5 \<and> (\<forall>x\<in>set s. char_code x \<noteq> 0))"
| "wf_hostmode (He_Info c k d) = (c < 256 \<and> (k = 6 \<or> k = 7) \<and> 1 \<le> length d \<and> length d \<le> 256)"

lemma byte_of_char_zero: "byte_of (char_code c) = 0 \<longleftrightarrow> char_code c = 0"
  using byte_of_inj [of "char_code c" 0] by (simp add: byte_of_def)

lemma parse_tnc_writes:
  assumes "wf_hostmode e"
  shows "parse_hostmode (tnc_writes e @ ys) = (e # fst (parse_hostmode ys), snd (parse_hostmode ys))"
proof (cases e)
  case (He_Success c)
  then show ?thesis using assms by (subst parse_hostmode.simps) (simp add: Let_def split_beta)
next
  case (He_Text c k s)
  let ?t = "map (\<lambda>x. byte_of (char_code x)) s"
  have "(0 :: byte) \<notin> set ?t"
  proof
    assume "(0 :: byte) \<in> set ?t"
    then obtain x where x: "x \<in> set s" "byte_of (char_code x) = 0" by (metis (no_types, lifting) image_iff list.set_map)
    then have "char_code x = 0" by (simp only: byte_of_char_zero)
    then show False using assms He_Text x(1) by auto
  qed
  then have i: "index_of 0 (?t @ 0 # ys) = Some (length s)" using index_of_first [of 0 ?t ys] by simp
  show ?thesis using assms He_Text
    by (subst parse_hostmode.simps) (simp add: Let_def split_beta i comp_def)
next
  case (He_Info c k d)
  have u: "unat (byte_of (length d - 1)) + 1 = length d" using assms He_Info by auto
  show ?thesis
  proof (cases "k = 6")
    case True
    then show ?thesis using assms He_Info u
      by (subst parse_hostmode.simps) (simp add: Let_def split_beta sub_bytes_def)
  next
    case False
    then have "k = 7" using assms He_Info by simp
    then show ?thesis using assms He_Info u
      by (subst parse_hostmode.simps) (simp add: Let_def split_beta sub_bytes_def)
  qed
qed

text \<open>
  However the serial line cuts a controller's answers into reads, the host reads exactly the
  events that were written, and what it holds back is nothing once the last one is whole.
\<close>

theorem hostmode_stream_roundtrip:
  assumes "\<forall>e\<in>set es. wf_hostmode e"
    and "concat reads = concat (map tnc_writes es)"
  shows "hostmode.stream.push_all [] reads = ([], es)"
proof -
  have "parse_hostmode (concat (map tnc_writes es)) = (es, [])"
    using assms(1) by (induction es) (simp_all add: parse_tnc_writes hostmode.parse_Nil)
  then show ?thesis by (simp add: hostmode.feed_all_whole assms(2))
qed

lemma hostmode_stream_roundtrip_witness:
  "hostmode.stream.push_all [] [[1], [0, 2, 6, 1, 65], [66, 3, 1, 72, 0]]
    = ([], [He_Success 1, He_Info 2 6 [65, 66], He_Text 3 1 ''H''])"
  by (rule hostmode_stream_roundtrip) (simp_all add: char_code_def byte_of_def)

end
