(* ===== verification/Spec2Isabelle.thy ===== *)
theory Spec2Isabelle
  imports
    Aprs_Digipeat Aprs_Igate Aprs_Message Ax25_Digipeat Ax25_Frame Ax25_Link
    Axip_Crc Bbs_Link Bbs_Session Bbs_Store Callsign Cbor
    Dedupe Fbb_Block Fbb_Compressed Fbb_Exchange Fbb_Forward Fbb_Forwarder
    Fbb_Session Hub_Arbiter Hub_Clients Hub_Server Inp3 Interfaces
    Kiss Line_Driver Lzhuf Lzhuf_Build Lzhuf_Char Lzhuf_Code
    Lzhuf_Huffman Lzhuf_Match Lzhuf_Ring Lzhuf_Roundtrip Msg_Retry Netrom_Circuit
    Netrom_Network Netrom_Node Netrom_Switch Netrom_Wire Prelude Tnc_Host
begin

text \<open>
  A verification library for the packet-radio core of aprscaching: the protocols a station speaks on the air and
  on its terminal node controller, written in TypeScript under \<open>packages/ax25\<close>, \<open>packages/aprs\<close>, \<open>packages/hub\<close>,
  \<open>packages/packet\<close>, \<open>packages/shared\<close> and \<open>apps/ingest\<close>.

  The parts of the program. A radio port hands over KISS bytes. They are cut into AX.25 frames, shared between the
  KISS clients of the station (the hub), repeated (the digipeaters), gated to and from APRS-IS (the IGate), or given
  to a connected-mode link. A link carries the BBS, the forwarding of messages between BBSes in the F6FBB protocol,
  whose bodies are compressed with LZHUF, or NET/ROM: packets routed by a table of nodes, and circuits on top of
  them. What instances exchange over any of these carriers is deterministic CBOR.

  The theories and what they model:

  \<^item> \<open>Prelude\<close>: bytes and their reading by JavaScript, text, the insertion-ordered \<open>Map\<close>, and the lemmas about
    them the components share. \<open>Interfaces\<close>: the contracts, as locales. A \<open>codec\<close> reads back what it wrote; a
    \<open>stream_decoder\<close> does not see how its input is cut; a \<open>rest_parser\<close> is one that gives back what it could not
    use yet, and hence a stream decoder; an \<open>invariant_machine\<close> keeps an invariant along every run; a
    \<open>repeater\<close> spends some of what a frame has left, so that a flood of copies on a shared channel ends. Each is
    interpreted on the code's model in the theory of the component that provides it. \<open>message_store\<close>
    (in \<open>Bbs_Store\<close>) is what the BBS relies on, \<open>bounded_codec\<close> (in \<open>Fbb_Session\<close>) what forwarding relies on.
  \<^item> AX.25. \<open>Ax25_Frame\<close> is the frame codec of \<open>packages/ax25/src/frame.ts\<close>; \<open>Ax25_Link\<close> the connected-mode state
    machine of \<open>link.ts\<close>, one definition per method, with \<open>link_step\<close> as any call; \<open>Ax25_Digipeat\<close> the digipeating of
    \<open>digipeat.ts\<close> and the stateful digipeater of \<open>apps/ingest/src/digipeater.ts\<close>, whose duplicate window is \<open>Dedupe\<close>;
    \<open>Axip_Crc\<close> the trailer of \<open>axip-crc.ts\<close>.
  \<^item> The radio and its clients. \<open>Kiss\<close> is the framing of \<open>packages/aprs/src/ax25.ts\<close>; \<open>Hub_Arbiter\<close>, \<open>Hub_Clients\<close> and
    \<open>Hub_Server\<close> are \<open>arbiter.ts\<close>, \<open>clients.ts\<close> with \<open>framing.ts\<close>, and \<open>kissserver.ts\<close> of \<open>packages/hub\<close>; \<open>Tnc_Host\<close> is
    the AGW and host-mode protocols, \<open>agwpe.ts\<close> and \<open>hostmode.ts\<close> of \<open>packages/packet\<close>.
  \<^item> APRS, in \<open>packages/aprs\<close>. \<open>Callsign\<close>, \<open>Aprs_Igate\<close> (\<open>igate.ts\<close>, \<open>tnc2.ts\<close>, \<open>route.ts\<close>, \<open>thirdparty.ts\<close>),
    \<open>Aprs_Digipeat\<close> (\<open>digipeat.ts\<close>), \<open>Aprs_Message\<close> (messages in \<open>encode.ts\<close>, \<open>decode.ts\<close>, \<open>text.ts\<close>) and
    \<open>Msg_Retry\<close> (\<open>msgretry.ts\<close>).
  \<^item> NET/ROM, in \<open>packages/packet\<close>. \<open>Netrom_Wire\<close> (\<open>netrom-wire.ts\<close>), \<open>Netrom_Circuit\<close> (\<open>netrom-circuit.ts\<close>),
    \<open>Netrom_Network\<close> (two circuits and a network that may lose packets), \<open>Netrom_Node\<close> (\<open>netrom-node.ts\<close> and the table of
    \<open>netrom.ts\<close>), \<open>Netrom_Switch\<close> (\<open>netrom-switch.ts\<close>), \<open>Inp3\<close> (\<open>inp3.ts\<close>, \<open>inp3-table.ts\<close>).
  \<^item> Forwarding, in \<open>packages/packet\<close>. \<open>Fbb_Forward\<close> (\<open>forward.ts\<close>), \<open>Fbb_Block\<close> (\<open>fbb-binary.ts\<close>), \<open>Fbb_Session\<close>
    (\<open>fbb-session.ts\<close> on the store of \<open>fbb-scheduler.ts\<close>), \<open>Fbb_Forwarder\<close> (\<open>fbb-forward.ts\<close>), \<open>Fbb_Exchange\<close> (two
    sessions talking to each other). The compression of \<open>lzhuf.ts\<close> is \<open>Lzhuf_Code\<close> (tables, checksum, bit streams),
    \<open>Lzhuf_Huffman\<close> and \<open>Lzhuf_Build\<close> (the adaptive tree and its rebuilding), \<open>Lzhuf_Char\<close> (a character out and in),
    \<open>Lzhuf_Ring\<close> and \<open>Lzhuf_Match\<close> (the ring buffer and its search trees), \<open>Lzhuf\<close> (the two coders and the frames) and
    \<open>Lzhuf_Roundtrip\<close>; \<open>Fbb_Compressed\<close> joins it to the block transport and the session.
  \<^item> The BBS, in \<open>packages/packet\<close>. \<open>Line_Driver\<close> (\<open>makeLineDriver\<close> of \<open>link-app.ts\<close>), \<open>Bbs_Store\<close>
    (\<open>cached-bbs-store.ts\<close>), \<open>Bbs_Session\<close> (\<open>bbs.ts\<close>), \<open>Bbs_Link\<close> (the session on the driver, and the gate of
    \<open>bbs-fbb-gate.ts\<close> that turns it into a forwarding session).
  \<^item> Federation. \<open>Cbor\<close> is the codec of \<open>packages/shared/src/cbor.ts\<close>.

  How state and operations correspond to the code. A class is a record with a field for each of its fields, a method
  is a definition of the same name (or of the class and the name) that takes the record and returns it updated.
  Callbacks and frames sent are appended to a list of the record in the order of the calls; a callback that calls back
  into the object is not modelled. The clock is the argument \<open>now\<close>. A timer is a time in the record, its expiry a step
  of the machine. A promise is a value of the record and its settlement a step of its own, so that the theorems range
  over all orders. An exception is a constructor or \<open>None\<close>; an absent field is an option; a \<open>Map\<close> is an association list
  in insertion order. Bytes are 8-bit words; sequence numbers are naturals with the modulus the code writes; the 16-bit
  arrays and registers of LZHUF keep their width. Text is ASCII, where the code reads and writes UTF-8 or Latin-1,
  except in \<open>Aprs_Message\<close> (up to U+00FF) and \<open>Cbor\<close> (any text, as its UTF-8 bytes).

  What the groups of lemmas show. Each codec reads back what it writes, in any cut of the stream (frames, KISS,
  NET/ROM, INP3, AGW, host mode, forwarding blocks, LZHUF, CBOR), and the bounds of what it accepts from outside
  hold. Each state machine keeps an invariant along every run (the link's window, the arbiter's queues, the
  retrier, the routing tables, the circuits, the forwarding session, the driver, the store). On these rest the
  properties of whole components and of several together: what is delivered is a prefix of what was sent, two
  forwarding stations exchange every message, a digipeated frame and a routed packet come to an end, nothing gated
  returns, nothing a caller types is lost. Where the code does something else than its comments, a theorem states what it
  does.

  Bounds and fuel. A loop whose end depends on the data has an argument that bounds its rounds. In \<open>Lzhuf_Huffman\<close>
  the climb to the root and the descent from it get the number of nodes of the tree, in \<open>Lzhuf_Ring\<close> the walks in a
  search tree the number of its places, in \<open>Lzhuf\<close> the encoder the length of the message plus one and the decoder
  the size it has to write; running out is the error \<open>Loops\<close>, and \<open>lzhuf_encode_returns\<close>, \<open>huffman_tree_kept\<close> and
  \<open>lzhuf_decode_bounded\<close> show it does not happen. The selective-reject loop of \<open>Ax25_Link\<close> takes at most a modulus of
  rounds. The rounds of a conversation in \<open>Fbb_Exchange\<close> are existentially bounded in the theorem. The loop of
  \<open>msgretry.ts\<close> that never ends with a ceiling of 0 is an option, \<open>None\<close> in that case. \<open>Cbor\<close> ends by the nesting limit of
  the code itself, 32. All other recursions are structural or have a measure.

  Not modelled, and why. Whatever computes with floating-point numbers (positions, Mic-E, compressed reports, weather,
  locators, AFSK, Morse and PSK31), because HOL has no IEEE arithmetic among the theories used here; the web
  application, the gateway worker and its SQL, the ingest process, modems and servers, which are input and output or
  calls into libraries outside the repository; tables of names, configuration keys and documents. The MD5 of
  \<open>fbb-auth.ts\<close>, the connected-mode session server, the NET/ROM node's own commands and its connect-through are pure
  and could follow on the same pattern. In the components that are modelled in part: the wiring of \<open>serveApp\<close> to a link,
  the packet types of APRS other than messages, and the n-N rule of the station's UI digipeater as a process
  (the rule itself is \<open>Aprs_Digipeat\<close>).
\<close>

end
